(* ===== verification/Prelude.thy ===== *)
theory Prelude
  imports Complex_Main "HOL-Library.Char_ord" "HOL-Library.List_Lexorder"
begin

text \<open>
  Shared vocabulary of the development: the error codes of
  \<^verbatim>\<open>packages/protocol/src/errors.ts\<close>, results as sums, the decimal, hexadecimal and base-32
  renderings of JavaScript's \<^verbatim>\<open>Number.prototype.toString\<close> and \<^verbatim>\<open>parseInt\<close>, ordered maps of
  JavaScript (\<^verbatim>\<open>Map\<close>, plain objects) as association lists, and generic lemmas used by the
  component theories. A string is a list of characters, one character for one UTF-16 code unit.
\<close>

named_theorems key_simps \<open>shape, injectivity and disjointness of object keys\<close>
named_theorems io_simps \<open>unfolding of storage programs on a world\<close>
named_theorems obj_simps \<open>lookups in association lists and objects\<close>

section \<open>Errors and results\<close>

datatype error_code =
    InvalidConfig | NetworkError | AccessDenied | InvalidResponse | Internal | SchemaError
  | WriteConflict | AlreadyExists | AmbiguousCommit | CapacityExceeded | Unauthorized | NotFound
  | PayloadTooLarge | UnsatisfiablePredicate | UseQueryAwaitedRecorder | UnexpectedWriteInQuery
  | MutationFailed

text \<open>
  A thrown value: a \<^verbatim>\<open>BaerlyError\<close> with its code and the flag \<^verbatim>\<open>cause.notApplied\<close> of the
  \<^verbatim>\<open>Storage.put\<close> contract, the caller's own cancellation, or a \<^verbatim>\<open>TypeError\<close> of the runtime.
\<close>

datatype exn = BaerlyError error_code bool | AbortError | TypeError

type_synonym 'a result = "exn + 'a"

abbreviation throw :: "error_code \<Rightarrow> 'a result" where
  "throw c \<equiv> Inl (BaerlyError c False)"

definition RETRIABLE_CODES :: "error_code list" where
  "RETRIABLE_CODES = [NetworkError, WriteConflict]"

definition isRetriableCode :: "error_code \<Rightarrow> bool" where
  "isRetriableCode c = (c \<in> set RETRIABLE_CODES)"

fun isWriteConflict :: "exn \<Rightarrow> bool" where
  "isWriteConflict (BaerlyError c _) = (c = WriteConflict)"
| "isWriteConflict AbortError = False"
| "isWriteConflict TypeError = False"

lemma isWriteConflict_iff: "isWriteConflict e \<longleftrightarrow> (\<exists>b. e = BaerlyError WriteConflict b)"
  by (cases e) auto

text \<open>Sequencing of fallible computations, and the early-exit loops over them.\<close>

definition result_bind :: "'a result \<Rightarrow> ('a \<Rightarrow> 'b result) \<Rightarrow> 'b result" where
  "result_bind r f = (case r of Inl e \<Rightarrow> Inl e | Inr x \<Rightarrow> f x)"

lemma result_bind_simps [simp]:
  "result_bind (Inl e) f = Inl e" "result_bind (Inr x) f = f x"
  by (simp_all add: result_bind_def)

fun result_map :: "('a \<Rightarrow> 'b result) \<Rightarrow> 'a list \<Rightarrow> 'b list result" where
  "result_map f [] = Inr []"
| "result_map f (x # xs) = result_bind (f x) (\<lambda>y. result_bind (result_map f xs) (\<lambda>ys. Inr (y # ys)))"

fun all_results :: "bool result list \<Rightarrow> bool result" where
  "all_results [] = Inr True"
| "all_results (r # rs) = (case r of Inl e \<Rightarrow> Inl e | Inr b \<Rightarrow> if b then all_results rs else Inr False)"

fun any_results :: "bool result list \<Rightarrow> bool result" where
  "any_results [] = Inr False"
| "any_results (r # rs) = (case r of Inl e \<Rightarrow> Inl e | Inr b \<Rightarrow> if b then Inr True else any_results rs)"

lemma list_all2_right: "list_all2 P xs ys \<Longrightarrow> y \<in> set ys \<Longrightarrow> \<exists>x\<in>set xs. P x y"
  by (induction rule: list_all2_induct) auto

lemma list_all2_left: "list_all2 P xs ys \<Longrightarrow> x \<in> set xs \<Longrightarrow> \<exists>y\<in>set ys. P x y"
  by (induction rule: list_all2_induct) auto

lemma all_results_append:
  "all_results (rs @ qs) = (case all_results rs of Inl e \<Rightarrow> Inl e | Inr b \<Rightarrow> if b then all_results qs else Inr False)"
  by (induction rs) (simp_all split: sum.splits)

lemma all_results_True [simp]: "all_results rs = Inr True \<longleftrightarrow> (\<forall>r\<in>set rs. r = Inr True)"
  by (induction rs) (auto split: sum.splits)

lemma any_results_True: "any_results rs = Inr True \<Longrightarrow> \<exists>r\<in>set rs. r = Inr True"
  by (induction rs) (auto split: sum.splits if_splits)

section \<open>Number rendering\<close>

definition digit_char :: "nat \<Rightarrow> char" where
  "digit_char d = char_of (if d < 10 then 48 + d else 87 + d)"

fun toString_radix :: "nat \<Rightarrow> nat \<Rightarrow> string" where
  "toString_radix b n =
     (if b < 2 \<or> n < b then [digit_char n]
      else toString_radix b (n div b) @ [digit_char (n mod b)])"

declare toString_radix.simps [simp del]

abbreviation show_nat :: "nat \<Rightarrow> string" where
  "show_nat \<equiv> toString_radix 10"

definition digit_val :: "char \<Rightarrow> nat option" where
  "digit_val c = (let k = (of_char c :: nat) in
     if 48 \<le> k \<and> k \<le> 57 then Some (k - 48)
     else if 97 \<le> k \<and> k \<le> 122 then Some (k - 87)
     else if 65 \<le> k \<and> k \<le> 90 then Some (k - 55)
     else None)"

text \<open>
  \<^verbatim>\<open>parseInt(str, radix)\<close> on a string without sign or leading blank: the longest prefix of
  digits below the radix; \<open>None\<close> is JavaScript's \<^verbatim>\<open>NaN\<close>.
\<close>

fun parse_digits :: "nat \<Rightarrow> nat \<Rightarrow> string \<Rightarrow> nat" where
  "parse_digits b acc [] = acc"
| "parse_digits b acc (c # cs) =
     (case digit_val c of
        Some d \<Rightarrow> if d < b then parse_digits b (acc * b + d) cs else acc
      | None \<Rightarrow> acc)"

definition parseInt_radix :: "nat \<Rightarrow> string \<Rightarrow> nat option" where
  "parseInt_radix b s =
     (case s of [] \<Rightarrow> None
      | c # cs \<Rightarrow> (case digit_val c of
           Some d \<Rightarrow> if d < b then Some (parse_digits b d cs) else None
         | None \<Rightarrow> None))"

lemma digit_val_char [simp]: "d < 36 \<Longrightarrow> digit_val (digit_char d) = Some d"
  by (simp add: digit_val_def digit_char_def of_char_of)

lemma digit_char_inj: "d < 36 \<Longrightarrow> e < 36 \<Longrightarrow> digit_char d = digit_char e \<Longrightarrow> d = e"
  by (metis digit_val_char option.inject)

lemma digit_char_mono: "d < e \<Longrightarrow> e < 36 \<Longrightarrow> digit_char d < digit_char e"
  by (simp add: digit_char_def less_char_def of_char_of)

lemma toString_radix_neq_Nil [simp]: "toString_radix b n \<noteq> []"
  by (subst toString_radix.simps) simp

lemma toString_radix_digits:
  "2 \<le> b \<Longrightarrow> set (toString_radix b n) \<subseteq> digit_char ` {0..<b}"
proof (induction b n rule: toString_radix.induct)
  case (1 b n)
  then show ?case
    by (subst toString_radix.simps) (auto simp: not_less)
qed

text \<open>Evaluation of a list of digits, most significant first: what both functions compute.\<close>

definition digits_value :: "nat \<Rightarrow> nat \<Rightarrow> nat list \<Rightarrow> nat" where
  "digits_value b = foldl (\<lambda>a d. a * b + d)"

lemma digits_value_simps [simp]:
  "digits_value b a [] = a"
  "digits_value b a (d # ds) = digits_value b (a * b + d) ds"
  "digits_value b a (ds @ es) = digits_value b (digits_value b a ds) es"
  by (simp_all add: digits_value_def)

lemma digits_value_replicate_zero [simp]:
  "digits_value b 0 (replicate k 0) = 0"
  by (induction k) simp_all

fun radix_digits :: "nat \<Rightarrow> nat \<Rightarrow> nat list" where
  "radix_digits b n = (if b < 2 \<or> n < b then [n] else radix_digits b (n div b) @ [n mod b])"

declare radix_digits.simps [simp del]

lemma toString_radix_conv: "toString_radix b n = map digit_char (radix_digits b n)"
proof (induction b n rule: radix_digits.induct)
  case (1 b n)
  then show ?case
    by (subst toString_radix.simps, subst radix_digits.simps) simp
qed

lemma radix_digits_value: "2 \<le> b \<Longrightarrow> digits_value b 0 (radix_digits b n) = n"
proof (induction b n rule: radix_digits.induct)
  case (1 b n)
  then show ?case
    by (subst radix_digits.simps) (auto simp: not_less)
qed

lemma radix_digits_bound: "2 \<le> b \<Longrightarrow> d \<in> set (radix_digits b n) \<Longrightarrow> d < b"
proof (induction b n rule: radix_digits.induct)
  case (1 b n)
  then show ?case
    by (subst (asm) (2) radix_digits.simps) (auto split: if_splits)
qed

lemma radix_digits_neq_Nil [simp]: "radix_digits b n \<noteq> []"
  by (subst radix_digits.simps) simp

lemma parse_digits_map:
  "b \<le> 36 \<Longrightarrow> \<forall>d\<in>set ds. d < b \<Longrightarrow> parse_digits b a (map digit_char ds) = digits_value b a ds"
  by (induction ds arbitrary: a) auto

lemma parseInt_map:
  assumes "b \<le> 36" "\<forall>d\<in>set ds. d < b" "ds \<noteq> []"
  shows "parseInt_radix b (map digit_char ds) = Some (digits_value b 0 ds)"
  using assms by (cases ds) (auto simp: parseInt_radix_def parse_digits_map)

lemma parseInt_toString:
  assumes "2 \<le> b" "b \<le> 36"
  shows "parseInt_radix b (toString_radix b n) = Some n"
  using assms radix_digits_bound [OF assms(1)]
  by (simp add: toString_radix_conv parseInt_map radix_digits_value)

lemma toString_radix_inj:
  "2 \<le> b \<Longrightarrow> b \<le> 36 \<Longrightarrow> toString_radix b m = toString_radix b n \<longleftrightarrow> m = n"
  by (metis parseInt_toString option.inject)

lemma show_nat_inj [simp]: "show_nat m = show_nat n \<longleftrightarrow> m = n"
  by (simp add: toString_radix_inj)

lemma radix_digits_length:
  "2 \<le> b \<Longrightarrow> 0 < k \<Longrightarrow> n < b ^ k \<Longrightarrow> length (radix_digits b n) \<le> k"
proof (induction b n arbitrary: k rule: radix_digits.induct)
  case (1 b n k)
  show ?case
  proof (cases "n < b")
    case True
    with 1 show ?thesis by (subst radix_digits.simps) simp
  next
    case False
    have "k \<noteq> 1" using 1 False by auto
    with 1(3) obtain k' where k': "k = Suc k'" "0 < k'" by (cases k) auto
    from 1(4) k' have "n div b < b ^ k'"
      by (simp add: less_mult_imp_div_less mult.commute)
    with 1 False k' show ?thesis by (subst radix_digits.simps) simp
  qed
qed

section \<open>Ordered maps\<close>

text \<open>
  A JavaScript \<^verbatim>\<open>Map\<close> or plain object as an association list in insertion order:
  setting an existing key keeps its place, a new key goes to the end.
\<close>

fun obj_set :: "'k \<Rightarrow> 'v \<Rightarrow> ('k \<times> 'v) list \<Rightarrow> ('k \<times> 'v) list" where
  "obj_set k v [] = [(k, v)]"
| "obj_set k v ((k', v') # xs) = (if k = k' then (k, v) # xs else (k', v') # obj_set k v xs)"

definition obj_del :: "'k \<Rightarrow> ('k \<times> 'v) list \<Rightarrow> ('k \<times> 'v) list" where
  "obj_del k xs = filter (\<lambda>(k', _). k' \<noteq> k) xs"

abbreviation obj_keys :: "('k \<times> 'v) list \<Rightarrow> 'k list" where
  "obj_keys xs \<equiv> map fst xs"

lemma map_of_obj_set [simp, obj_simps]: "map_of (obj_set k v xs) = (map_of xs)(k \<mapsto> v)"
  by (induction k v xs rule: obj_set.induct) auto

lemma map_of_obj_del [simp, obj_simps]: "map_of (obj_del k xs) = (map_of xs)(k := None)"
  by (induction xs) (auto simp: obj_del_def fun_eq_iff)

lemma set_obj_keys_set [simp]: "fst ` set (obj_set k v xs) = insert k (fst ` set xs)"
  by (induction k v xs rule: obj_set.induct) auto

lemma distinct_obj_set [simp]: "distinct (obj_keys (obj_set k v xs)) \<longleftrightarrow> distinct (obj_keys xs)"
  by (induction k v xs rule: obj_set.induct) auto

lemma obj_keys_del: "obj_keys (obj_del k xs) = filter (\<lambda>k'. k' \<noteq> k) (obj_keys xs)"
  by (induction xs) (auto simp: obj_del_def)

lemma distinct_obj_del [simp]: "distinct (obj_keys xs) \<Longrightarrow> distinct (obj_keys (obj_del k xs))"
  by (simp add: obj_keys_del)

lemma length_obj_set:
  "length (obj_set k v xs) = (if k \<in> set (obj_keys xs) then length xs else Suc (length xs))"
  by (induction k v xs rule: obj_set.induct) auto

lemma length_obj_del_le: "length (obj_del k xs) \<le> length xs"
  by (simp add: obj_del_def)

lemma length_eq_card_dom: "distinct (obj_keys xs) \<Longrightarrow> length xs = card (dom (map_of xs))"
  by (metis dom_map_of_conv_image_fst distinct_card length_map list.set_map)

section \<open>Generic list lemmas\<close>

lemma nth_take_drop: "i < n \<Longrightarrow> m + i < length xs \<Longrightarrow> take n (drop m xs) ! i = xs ! (m + i)"
  by simp

end
