(* ===== verification/Codec.thy ===== *)
theory Codec
  imports Prelude
begin

text \<open>
  Textual codecs of the protocol package: the descending base-32 encoding of
  \<^verbatim>\<open>types.ts\<close>, the timestamp of \<^verbatim>\<open>time.ts\<close>, the log sequence number of \<^verbatim>\<open>log.ts\<close> and
  \<^verbatim>\<open>writer.ts\<close>, the \<^verbatim>\<open>/v1/since\<close> cursor of \<^verbatim>\<open>cursor.ts\<close> and the object keys of \<^verbatim>\<open>log-key.ts\<close> and
  \<^verbatim>\<open>gc-pending.ts\<close>. Shown here: decoding inverts encoding, the encoding reverses the numeric
  order, keys of different objects of a collection never coincide.
\<close>

section \<open>Constants\<close>

definition COUNT_BIT_WIDTH :: nat where "COUNT_BIT_WIDTH = 53"
definition TIMESTAMP_BIT_WIDTH :: nat where "TIMESTAMP_BIT_WIDTH = 42"
definition NO_GENERATION :: string where "NO_GENERATION = ''-''"

section \<open>Base-32 numbers\<close>

text \<open>\<^verbatim>\<open>Number.prototype.toString(32)\<close> on an integer.\<close>

definition toString32 :: "int \<Rightarrow> string" where
  "toString32 n = (if n < 0 then CHR ''-'' # toString_radix 32 (nat (- n)) else toString_radix 32 (nat n))"

definition padStart :: "nat \<Rightarrow> char \<Rightarrow> string \<Rightarrow> string" where
  "padStart n c s = replicate (n - length s) c @ s"

definition uint2str :: "int \<Rightarrow> nat \<Rightarrow> string" where
  "uint2str num bits = padStart ((bits + 4) div 5) (CHR ''0'') (toString32 num)"

definition uint2strDesc :: "int \<Rightarrow> nat \<Rightarrow> string" where
  "uint2strDesc num bits = uint2str (2 ^ bits - 1 - num) bits"

text \<open>\<open>None\<close> is \<^verbatim>\<open>NaN\<close>.\<close>

definition str2uintDesc :: "string \<Rightarrow> nat \<Rightarrow> int option" where
  "str2uintDesc str bits = map_option (\<lambda>n. 2 ^ bits - 1 - int n) (parseInt_radix 32 str)"

definition countKey :: "int \<Rightarrow> string" where
  "countKey number = uint2strDesc number COUNT_BIT_WIDTH"

definition timestamp :: "int \<Rightarrow> string result" where
  "timestamp epoch =
     (if epoch < 0 \<or> epoch \<ge> 2 ^ TIMESTAMP_BIT_WIDTH then throw Internal
      else Inr (uint2strDesc epoch TIMESTAMP_BIT_WIDTH))"

subsection \<open>Fixed-width digit strings\<close>

definition pad_digits :: "nat \<Rightarrow> nat \<Rightarrow> nat list" where
  "pad_digits w n = replicate (w - length (radix_digits 32 n)) 0 @ radix_digits 32 n"

lemma digit_char_0: "digit_char 0 = CHR ''0''"
proof -
  have "(of_char (CHR ''0'') :: nat) = 48" by simp
  then show ?thesis unfolding digit_char_def by (metis add_0_right char_of_char zero_less_numeral)
qed

lemma uint2str_digits: "uint2str (int n) bits = map digit_char (pad_digits ((bits + 4) div 5) n)"
  by (simp add: uint2str_def toString32_def padStart_def pad_digits_def toString_radix_conv digit_char_0)

lemma pad_digits_value [simp]: "digits_value 32 0 (pad_digits w n) = n"
  by (simp add: pad_digits_def radix_digits_value)

lemma pad_digits_bound: "d \<in> set (pad_digits w n) \<Longrightarrow> d < 32"
  by (auto simp: pad_digits_def dest: radix_digits_bound [rotated] split: if_splits)

lemma pad_digits_neq_Nil [simp]: "pad_digits w n \<noteq> []"
  by (simp add: pad_digits_def)

lemma pad_digits_length: "0 < w \<Longrightarrow> n < 32 ^ w \<Longrightarrow> length (pad_digits w n) = w"
  using radix_digits_length [of 32 w n] by (simp add: pad_digits_def)

lemma width_covers: "(2::nat) ^ bits \<le> 32 ^ ((bits + 4) div 5)"
proof -
  have "(32::nat) ^ ((bits + 4) div 5) = 2 ^ (5 * ((bits + 4) div 5))"
    by (simp add: power_mult)
  also have "\<dots> \<ge> 2 ^ bits"
    by (rule power_increasing) auto
  finally show ?thesis .
qed

lemma pad_digits_length_bits:
  "0 < bits \<Longrightarrow> n < 2 ^ bits \<Longrightarrow> length (pad_digits ((bits + 4) div 5) n) = (bits + 4) div 5"
  by (rule pad_digits_length) (auto intro: less_le_trans [OF _ width_covers])

lemma digits_value_ge: "digits_value b a ds \<ge> a * b ^ length ds"
proof (induction ds arbitrary: a)
  case (Cons d ds)
  have "a * b * b ^ length ds \<le> (a * b + d) * b ^ length ds" by simp
  also have "\<dots> \<le> digits_value b (a * b + d) ds" by (rule Cons)
  finally show ?case by (simp add: mult.assoc)
qed simp

lemma digits_value_less: "\<forall>d\<in>set ds. d < b \<Longrightarrow> digits_value b a ds < (a + 1) * b ^ length ds"
proof (induction ds arbitrary: a)
  case (Cons d ds)
  then have "digits_value b (a * b + d) ds < (a * b + d + 1) * b ^ length ds" by simp
  also have "\<dots> \<le> ((a + 1) * b) * b ^ length ds"
    using Cons.prems by (intro mult_le_mono1) auto
  finally show ?case by (simp add: algebra_simps)
qed simp

text \<open>Equal-length digit lists compare like the numbers they denote.\<close>

lemma digit_lists_order:
  "length ds = length es \<Longrightarrow> \<forall>d\<in>set ds. d < b \<Longrightarrow> \<forall>d\<in>set es. d < b \<Longrightarrow>
   digits_value b a ds < digits_value b a es \<Longrightarrow> b \<le> 36 \<Longrightarrow>
   map digit_char ds < map digit_char es"
proof (induction ds arbitrary: es a)
  case Nil
  then show ?case by simp
next
  case (Cons d ds)
  then obtain e es' where es: "es = e # es'" by (cases es) auto
  show ?case
  proof (cases "d = e")
    case True
    then show ?thesis using Cons.IH [of es' "a * b + e"] Cons.prems es by simp
  next
    case False
    have "d < e"
    proof (rule ccontr)
      assume "\<not> d < e"
      with False have "e < d" by simp
      then have "digits_value b a es < digits_value b a (d # ds)"
        using digits_value_less [of es' b "a * b + e"] digits_value_ge [of "a * b + d" b ds]
          Cons.prems es mult_le_mono1 [of "a * b + e + 1" "a * b + d" "b ^ length ds"] by simp
      with Cons.prems(4) show False by simp
    qed
    then have "digit_char d < digit_char e"
      using Cons.prems es by (intro digit_char_mono) auto
    with es show ?thesis by simp
  qed
qed

lemma uint2str_order:
  assumes "0 < bits" "m < n" "n < 2 ^ bits"
  shows "uint2str (int m) bits < uint2str (int n) bits"
  unfolding uint2str_digits
  using assms by (intro digit_lists_order [where b = 32 and a = 0])
    (auto simp: pad_digits_length_bits dest: pad_digits_bound)

lemma parseInt_uint2str: "parseInt_radix 32 (uint2str (int n) bits) = Some n"
  unfolding uint2str_digits by (simp add: parseInt_map pad_digits_bound)

lemma desc_nat:
  assumes "0 \<le> n" "n < 2 ^ bits"
  shows "2 ^ bits - 1 - n = int (nat (2 ^ bits - 1 - n))" "nat (2 ^ bits - 1 - n) < 2 ^ bits"
proof -
  show "2 ^ bits - 1 - n = int (nat (2 ^ bits - 1 - n))" using assms by simp
  have "2 ^ bits - 1 - n < (2::int) ^ bits" using assms by simp
  then show "nat (2 ^ bits - 1 - n) < 2 ^ bits"
    using assms by (simp add: nat_less_iff)
qed

lemma str2uintDesc_uint2strDesc:
  assumes "0 \<le> n" "n < 2 ^ bits"
  shows "str2uintDesc (uint2strDesc n bits) bits = Some n"
  using assms parseInt_uint2str [of "nat (2 ^ bits - 1 - n)" bits]
  by (simp add: str2uintDesc_def uint2strDesc_def)

lemma uint2strDesc_order:
  assumes "0 < bits" "0 \<le> a" "a < b" "b < 2 ^ bits"
  shows "uint2strDesc b bits < uint2strDesc a bits"
proof -
  let ?m = "nat (2 ^ bits - 1 - b)" and ?n = "nat (2 ^ bits - 1 - a)"
  have "?m < ?n" using assms by simp
  moreover have "?n < 2 ^ bits" using assms by (intro desc_nat(2)) auto
  ultimately have "uint2str (int ?m) bits < uint2str (int ?n) bits"
    using assms(1) by (intro uint2str_order)
  then show ?thesis using assms by (simp add: uint2strDesc_def)
qed

lemma uint2strDesc_chars:
  "0 \<le> n \<Longrightarrow> n < 2 ^ bits \<Longrightarrow> set (uint2strDesc n bits) \<subseteq> digit_char ` {0..<32}"
  using uint2str_digits [of "nat (2 ^ bits - 1 - n)" bits]
  by (auto simp: uint2strDesc_def dest!: pad_digits_bound)

section \<open>Splitting strings\<close>

text \<open>\<^verbatim>\<open>String.prototype.split\<close> by one character.\<close>

fun split_on :: "char \<Rightarrow> string \<Rightarrow> string list" where
  "split_on c [] = [[]]"
| "split_on c (x # xs) =
     (if x = c then [] # split_on c xs
      else (case split_on c xs of [] \<Rightarrow> [[x]] | p # ps \<Rightarrow> (x # p) # ps))"

lemma split_on_neq_Nil [simp]: "split_on c s \<noteq> []"
  by (induction c s rule: split_on.induct) (auto split: list.splits)

lemma split_on_notin: "c \<notin> set s \<Longrightarrow> split_on c s = [s]"
  by (induction s) auto

lemma split_on_append: "c \<notin> set s \<Longrightarrow> split_on c (s @ c # t) = s # split_on c t"
  by (induction s) auto

section \<open>Log sequence numbers\<close>

definition mint_lsn :: "string \<Rightarrow> string \<Rightarrow> int \<Rightarrow> string" where
  "mint_lsn lsnTimestamp session atSeq =
     lsnTimestamp @ ''_'' @ session @ ''_'' @ countKey atSeq"

definition lsnParts :: "string \<Rightarrow> (string \<times> int option) result" where
  "lsnParts lsn =
     (case split_on (CHR ''_'') lsn of
        [_, session, seq] \<Rightarrow> Inr (session, str2uintDesc seq COUNT_BIT_WIDTH)
      | _ \<Rightarrow> throw InvalidResponse)"

lemma digit_char_not_special: "d < 32 \<Longrightarrow> digit_char d \<noteq> CHR ''_'' \<and> digit_char d \<noteq> CHR ''.''"
proof -
  assume "d < 32"
  then have "digit_val (digit_char d) = Some d" by simp
  moreover have "digit_val (CHR ''_'') = None" "digit_val (CHR ''.'') = None"
    by (simp_all add: digit_val_def)
  ultimately show ?thesis by auto
qed

lemma uint2strDesc_no_special:
  assumes "0 \<le> n" "n < 2 ^ bits"
  shows "CHR ''_'' \<notin> set (uint2strDesc n bits)" "CHR ''.'' \<notin> set (uint2strDesc n bits)"
proof -
  have "c \<noteq> CHR ''_'' \<and> c \<noteq> CHR ''.''" if "c \<in> set (uint2strDesc n bits)" for c
    using uint2strDesc_chars [OF assms] that digit_char_not_special by fastforce
  then show "CHR ''_'' \<notin> set (uint2strDesc n bits)" "CHR ''.'' \<notin> set (uint2strDesc n bits)"
    by blast+
qed

lemma timestamp_Inr:
  "timestamp e = Inr t \<Longrightarrow> 0 \<le> e \<and> e < 2 ^ TIMESTAMP_BIT_WIDTH \<and> t = uint2strDesc e TIMESTAMP_BIT_WIDTH"
  by (auto simp: timestamp_def split: if_splits)

lemma lsnParts_mint:
  assumes "timestamp e = Inr t" "CHR ''_'' \<notin> set session" "0 \<le> seq" "seq < 2 ^ COUNT_BIT_WIDTH"
  shows "lsnParts (mint_lsn t session seq) = Inr (session, Some seq)"
proof -
  have "CHR ''_'' \<notin> set t"
    using timestamp_Inr [OF assms(1)] uint2strDesc_no_special(1) by auto
  then have "split_on (CHR ''_'') (mint_lsn t session seq) = [t, session, countKey seq]"
    using assms(2-4) uint2strDesc_no_special(1) [of seq COUNT_BIT_WIDTH]
    by (simp add: mint_lsn_def split_on_append split_on_notin countKey_def)
  then show ?thesis
    using assms(3,4) by (simp add: lsnParts_def countKey_def str2uintDesc_uint2strDesc)
qed

section \<open>Cursors\<close>

definition formatCursor :: "string option \<Rightarrow> string \<Rightarrow> string" where
  "formatCursor generation lsn =
     (case generation of None \<Rightarrow> lsn | Some g \<Rightarrow> g @ ''.'' @ lsn)"

definition parseCursor :: "string \<Rightarrow> (string \<times> string) result" where
  "parseCursor cursor =
     (case split_on (CHR ''.'') cursor of
        [_] \<Rightarrow> Inr (NO_GENERATION, cursor)
      | [g, lsn] \<Rightarrow> Inr (g, lsn)
      | _ \<Rightarrow> throw SchemaError)"

lemma parseCursor_formatCursor:
  assumes "CHR ''.'' \<notin> set lsn" "\<And>g. generation = Some g \<Longrightarrow> CHR ''.'' \<notin> set g"
  shows "parseCursor (formatCursor generation lsn) =
    Inr (case generation of None \<Rightarrow> NO_GENERATION | Some g \<Rightarrow> g, lsn)"
  using assms
  by (cases generation) (simp_all add: parseCursor_def formatCursor_def split_on_append split_on_notin)

section \<open>Object keys\<close>

definition logObjectKey :: "string \<Rightarrow> nat \<Rightarrow> string" where
  "logObjectKey manifestPrefix seq = manifestPrefix @ ''/log/'' @ show_nat seq @ ''.json''"

definition gcPendingKey :: "string \<Rightarrow> string" where
  "gcPendingKey collectionPrefix = collectionPrefix @ ''/gc/pending.json''"

definition currentKey :: "string \<Rightarrow> string" where
  "currentKey collectionPrefix = collectionPrefix @ ''/current.json''"

definition snapshotPrefix :: "string \<Rightarrow> string" where
  "snapshotPrefix collectionPrefix = collectionPrefix @ ''/snapshot/L9/''"

definition indexPrefix :: "string \<Rightarrow> string" where
  "indexPrefix logPrefix = logPrefix @ ''/index/''"

lemma logObjectKey_inj [simp, key_simps]: "logObjectKey p m = logObjectKey p n \<longleftrightarrow> m = n"
  by (simp add: logObjectKey_def)

lemma key_disjoint [simp, key_simps]:
  "logObjectKey p n \<noteq> currentKey p" "currentKey p \<noteq> logObjectKey p n"
  "logObjectKey p n \<noteq> gcPendingKey p" "gcPendingKey p \<noteq> logObjectKey p n"
  "gcPendingKey p \<noteq> currentKey p" "currentKey p \<noteq> gcPendingKey p"
  "logObjectKey p n \<noteq> snapshotPrefix p @ x" "snapshotPrefix p @ x \<noteq> logObjectKey p n"
  "currentKey p \<noteq> snapshotPrefix p @ x" "snapshotPrefix p @ x \<noteq> currentKey p"
  "gcPendingKey p \<noteq> snapshotPrefix p @ x" "snapshotPrefix p @ x \<noteq> gcPendingKey p"
  "logObjectKey p n \<noteq> indexPrefix p @ x" "indexPrefix p @ x \<noteq> logObjectKey p n"
  "currentKey p \<noteq> indexPrefix p @ x" "indexPrefix p @ x \<noteq> currentKey p"
  "gcPendingKey p \<noteq> indexPrefix p @ x" "indexPrefix p @ x \<noteq> gcPendingKey p"
  "snapshotPrefix p @ y \<noteq> indexPrefix p @ x" "indexPrefix p @ x \<noteq> snapshotPrefix p @ y"
  by (simp_all add: logObjectKey_def gcPendingKey_def currentKey_def snapshotPrefix_def indexPrefix_def)

section \<open>Properties\<close>

text \<open>
  The descending encoding reverses numeric order: of two sequence numbers the larger has the
  lexicographically smaller \<^verbatim>\<open>countKey\<close>, so a forward LIST yields newer entries first.
\<close>

theorem countKey_order_reversing:
  assumes "0 \<le> a" and "a < b" and "b < 2 ^ COUNT_BIT_WIDTH"
  shows "countKey b < countKey a"
  using assms uint2strDesc_order [of COUNT_BIT_WIDTH a b]
  by (simp add: countKey_def COUNT_BIT_WIDTH_def)

theorem countKey_order_reversing_witness: "countKey 10 < countKey 9"
  by (rule countKey_order_reversing) (simp_all add: COUNT_BIT_WIDTH_def)

text \<open>
  \<^verbatim>\<open>lsnParts\<close> recovers the session and the sequence number from every LSN that
  \<^verbatim>\<open>Writer.commit\<close> mints.
\<close>

theorem lsn_roundtrip:
  assumes "timestamp e = Inr t" and "CHR ''_'' \<notin> set session"
    and "0 \<le> seq" and "seq < 2 ^ COUNT_BIT_WIDTH"
  shows "lsnParts (mint_lsn t session seq) = Inr (session, Some seq)"
  using assms by (rule lsnParts_mint)

theorem lsn_roundtrip_witness:
  "lsnParts (mint_lsn (uint2strDesc 1700000000000 TIMESTAMP_BIT_WIDTH) ''a1b2c3'' 7) =
     Inr (''a1b2c3'', Some 7)"
  by (rule lsn_roundtrip [where e = 1700000000000])
    (simp_all add: timestamp_def TIMESTAMP_BIT_WIDTH_def COUNT_BIT_WIDTH_def)

text \<open>
  A \<^verbatim>\<open>/v1/since\<close> cursor decodes to the generation and LSN it was built from, and a cursor of a
  manifest without generation decodes to the sentinel.
\<close>

theorem cursor_roundtrip:
  assumes "CHR ''.'' \<notin> set lsn" and "\<And>g. generation = Some g \<Longrightarrow> CHR ''.'' \<notin> set g"
  shows "parseCursor (formatCursor generation lsn) =
    Inr (case generation of None \<Rightarrow> NO_GENERATION | Some g \<Rightarrow> g, lsn)"
  using assms by (rule parseCursor_formatCursor)

theorem cursor_roundtrip_witness:
  "parseCursor (formatCursor (Some ''0af3'') ''x_y_z'') = Inr (''0af3'', ''x_y_z'')"
  using cursor_roundtrip [of "''x_y_z''" "Some ''0af3''"] by simp

end
