(* ===== verification/Storage.thy ===== *)
theory Storage
  imports Codec
begin

text \<open>
  The object store: \<^verbatim>\<open>packages/protocol/src/storage/memory.ts\<close> (the reference backend) with the key
  grammar of \<^verbatim>\<open>key.ts\<close>, operation by operation, and the contract of \<^verbatim>\<open>storage/types.ts\<close> as the
  locale \<open>object_store\<close>. The body of an object is a type parameter. Shown here: the UTF-8
  comparison is the lexicographic order of keys, an ETag is never issued twice, the conditional
  writes fail exactly when their precondition fails, and listing is sorted and complete.
\<close>

section \<open>Keys\<close>

definition assertValidStorageKey :: "string \<Rightarrow> unit result" where
  "assertValidStorageKey key =
     (if length key = 0 then throw InvalidConfig
      else if \<exists>segment \<in> set (split_on (CHR ''/'') key). segment = ''.'' \<or> segment = ''..''
      then throw InvalidConfig
      else Inr ())"

abbreviation valid_key :: "string \<Rightarrow> bool" where
  "valid_key key \<equiv> assertValidStorageKey key = Inr ()"

text \<open>\<^verbatim>\<open>TextEncoder.encode\<close> for the code units of the model (below 256).\<close>

fun utf8_encode :: "string \<Rightarrow> nat list" where
  "utf8_encode [] = []"
| "utf8_encode (c # cs) =
     (let k = (of_char c :: nat) in
      (if k < 128 then [k] else [192 + k div 64, 128 + k mod 64]) @ utf8_encode cs)"

fun compare_bytes :: "nat list \<Rightarrow> nat list \<Rightarrow> int" where
  "compare_bytes (a # as) (b # bs) = (if a \<noteq> b then int a - int b else compare_bytes as bs)"
| "compare_bytes as bs = int (length as) - int (length bs)"

definition compareKeysUtf8 :: "string \<Rightarrow> string \<Rightarrow> int" where
  "compareKeysUtf8 a b = compare_bytes (utf8_encode a) (utf8_encode b)"

text \<open>\<^verbatim>\<open>Array.prototype.toSorted(compareFn)\<close>: a stable sort by a comparator.\<close>

fun insert_by :: "('a \<Rightarrow> 'a \<Rightarrow> int) \<Rightarrow> 'a \<Rightarrow> 'a list \<Rightarrow> 'a list" where
  "insert_by cmp x [] = [x]"
| "insert_by cmp x (y # ys) = (if cmp x y \<le> 0 then x # y # ys else y # insert_by cmp x ys)"

definition toSorted :: "('a \<Rightarrow> 'a \<Rightarrow> int) \<Rightarrow> 'a list \<Rightarrow> 'a list" where
  "toSorted cmp xs = foldr (insert_by cmp) xs []"

section \<open>Objects and operations\<close>

record 'b stored_object =
  body :: 'b
  etag :: string

record 'b memory_storage =
  objects :: "(string \<times> 'b stored_object) list"
  etagCounter :: nat

record put_options =
  ifMatch :: "string option"
  ifNoneMatch :: bool

definition etag_of :: "nat \<Rightarrow> string" where
  "etag_of n = [CHR 0x22] @ toString_radix 16 n @ [CHR 0x22]"

definition nextEtag :: "'b memory_storage \<Rightarrow> string \<times> 'b memory_storage" where
  "nextEtag s = (let n = etagCounter s + 1 in (etag_of n, s\<lparr>etagCounter := n\<rparr>))"

abbreviation lookup :: "'b memory_storage \<Rightarrow> string \<Rightarrow> 'b stored_object option" where
  "lookup s \<equiv> map_of (objects s)"

definition memory_get :: "string \<Rightarrow> string option \<Rightarrow> 'b memory_storage \<Rightarrow> ('b \<times> string) option result" where
  "memory_get key inm s =
     (case assertValidStorageKey key of
        Inl e \<Rightarrow> Inl e
      | Inr _ \<Rightarrow>
        (case lookup s key of
           None \<Rightarrow> Inr None
         | Some stored \<Rightarrow>
             if inm = Some (etag stored) then Inr None
             else Inr (Some (body stored, etag stored))))"

definition memory_put ::
  "string \<Rightarrow> 'b \<Rightarrow> put_options \<Rightarrow> 'b memory_storage \<Rightarrow> string result \<times> 'b memory_storage" where
  "memory_put key b opts s =
     (case assertValidStorageKey key of
        Inl e \<Rightarrow> (Inl e, s)
      | Inr _ \<Rightarrow>
        (let existing = lookup s key in
         if ifNoneMatch opts \<and> existing \<noteq> None then (throw WriteConflict, s)
         else if ifMatch opts \<noteq> None \<and> existing = None then (throw WriteConflict, s)
         else if ifMatch opts \<noteq> None \<and> etag (the existing) \<noteq> the (ifMatch opts)
         then (throw WriteConflict, s)
         else (let (t, s1) = nextEtag s in
               (Inr t, s1\<lparr>objects := obj_set key \<lparr>body = b, etag = t\<rparr> (objects s1)\<rparr>))))"

definition memory_delete :: "string \<Rightarrow> 'b memory_storage \<Rightarrow> unit result \<times> 'b memory_storage" where
  "memory_delete key s =
     (case assertValidStorageKey key of
        Inl e \<Rightarrow> (Inl e, s)
      | Inr _ \<Rightarrow> (Inr (), s\<lparr>objects := obj_del key (objects s)\<rparr>))"

text \<open>\<open>maxKeys = None\<close> is JavaScript's \<^verbatim>\<open>Infinity\<close>, an absent \<open>startAfter\<close> the empty string.\<close>

definition take_max :: "nat option \<Rightarrow> 'a list \<Rightarrow> 'a list" where
  "take_max maxKeys xs = (case maxKeys of None \<Rightarrow> xs | Some n \<Rightarrow> take n xs)"

definition startsWith :: "string \<Rightarrow> string \<Rightarrow> bool" where
  "startsWith s p = (take (length p) s = p)"

definition memory_list ::
  "string \<Rightarrow> string option \<Rightarrow> nat option \<Rightarrow> 'b memory_storage \<Rightarrow> (string \<times> string) list" where
  "memory_list prefix startAfter maxKeys s =
     (let after = (case startAfter of None \<Rightarrow> [] | Some a \<Rightarrow> a);
          sorted = toSorted compareKeysUtf8
            (filter (\<lambda>k. startsWith k prefix \<and> compareKeysUtf8 k after > 0) (obj_keys (objects s)))
      in take_max maxKeys
           (List.map_filter (\<lambda>k. map_option (\<lambda>stored. (k, etag stored)) (lookup s k)) sorted))"

definition memory_clear :: "'b memory_storage \<Rightarrow> 'b memory_storage" where
  "memory_clear s = s\<lparr>objects := [], etagCounter := 0\<rparr>"

definition empty_storage :: "'b memory_storage" where
  "empty_storage = \<lparr>objects = [], etagCounter = 0\<rparr>"

section \<open>Comparison and sorting\<close>

lemma div_mod_eq: "(m::nat) div 64 = n div 64 \<Longrightarrow> m mod 64 = n mod 64 \<Longrightarrow> m = n"
  by (metis mult_div_mod_eq)

lemma div_mod_less: "(m::nat) < n \<longleftrightarrow> m div 64 < n div 64 \<or> m div 64 = n div 64 \<and> m mod 64 < n mod 64"
proof (cases "m div 64 = n div 64")
  case True
  then show ?thesis
    using mult_div_mod_eq [of 64 m] mult_div_mod_eq [of 64 n] by linarith
next
  case False
  have "m < n \<Longrightarrow> m div 64 \<le> n div 64" "n \<le> m \<Longrightarrow> n div 64 \<le> m div 64"
    by (simp_all add: div_le_mono)
  with False show ?thesis by linarith
qed

lemma utf8_length_pos: "cs \<noteq> [] \<Longrightarrow> 0 < length (utf8_encode cs)"
  by (cases cs) (simp_all add: Let_def)

lemma utf8_head_compare:
  assumes "c \<noteq> d"
  shows "(compare_bytes (utf8_encode (c # cs)) (utf8_encode (d # ds)) < 0 \<longleftrightarrow> c < d) \<and>
         compare_bytes (utf8_encode (c # cs)) (utf8_encode (d # ds)) \<noteq> 0"
proof -
  let ?c = "of_char c :: nat" and ?d = "of_char d :: nat"
  have ne: "?c \<noteq> ?d" using assms by simp
  have lt: "c < d \<longleftrightarrow> ?c < ?d" by (simp add: less_char_def)
  show ?thesis
  proof (cases "?c < 128 \<or> ?d < 128")
    case True
    then show ?thesis using ne by (auto simp: Let_def lt)
  next
    case False
    then have "utf8_encode (c # cs) = (192 + ?c div 64) # (128 + ?c mod 64) # utf8_encode cs"
      "utf8_encode (d # ds) = (192 + ?d div 64) # (128 + ?d mod 64) # utf8_encode ds"
      by (simp_all add: Let_def)
    then show ?thesis
      using ne div_mod_eq [of ?c ?d] div_mod_less [of ?c ?d] lt by auto
  qed
qed

lemma compare_bytes_utf8:
  "(compare_bytes (utf8_encode a) (utf8_encode b) < 0 \<longleftrightarrow> a < b) \<and>
   (compare_bytes (utf8_encode a) (utf8_encode b) = 0 \<longleftrightarrow> a = b)"
proof (induction a arbitrary: b)
  case Nil
  then show ?case
    using utf8_length_pos [of b] by (cases "utf8_encode b"; cases b) auto
next
  case (Cons c cs)
  show ?case
  proof (cases b)
    case Nil
    then show ?thesis
      using utf8_length_pos [of "c # cs"] by (cases "utf8_encode (c # cs)") auto
  next
    case b: (Cons d ds)
    show ?thesis
    proof (cases "c = d")
      case True
      then show ?thesis using b Cons [of ds] by (auto simp: Let_def)
    next
      case False
      then show ?thesis using b utf8_head_compare [OF False, of cs ds] by auto
    qed
  qed
qed

lemma compareKeysUtf8_less [simp]: "compareKeysUtf8 a b < 0 \<longleftrightarrow> a < b"
  by (simp add: compareKeysUtf8_def compare_bytes_utf8)

lemma compareKeysUtf8_eq [simp]: "compareKeysUtf8 a b = 0 \<longleftrightarrow> a = b"
  by (simp add: compareKeysUtf8_def compare_bytes_utf8)

lemma compareKeysUtf8_le [simp]: "compareKeysUtf8 a b \<le> 0 \<longleftrightarrow> a \<le> b"
  using compareKeysUtf8_less [of a b] compareKeysUtf8_eq [of a b] by (auto simp: le_less)

lemma compareKeysUtf8_gt [simp]: "0 < compareKeysUtf8 a b \<longleftrightarrow> b < a"
  using compareKeysUtf8_le [of a b] by (simp add: not_le [symmetric])

lemma insert_by_utf8: "insert_by compareKeysUtf8 x xs = insort x xs"
  by (induction xs) auto

lemma toSorted_utf8 [simp]: "toSorted compareKeysUtf8 xs = sort xs"
  by (induction xs) (simp_all add: toSorted_def insert_by_utf8)

section \<open>Keys of the kernel are valid\<close>

lemma split_on_append_sep: "split_on c (s @ c # t) = split_on c s @ split_on c t"
proof (induction s)
  case (Cons x s)
  then show ?case by (cases "split_on c s") auto
qed simp

lemma split_on_no_sep [simp]: "CHR ''/'' \<notin> set s \<Longrightarrow> split_on (CHR ''/'') s = [s]"
  by (rule split_on_notin)

lemma show_nat_no_slash [simp]: "CHR ''/'' \<notin> set (show_nat n)"
proof -
  have "digit_val (CHR ''/'') = None" by (simp add: digit_val_def)
  then have "CHR ''/'' \<noteq> digit_char d" if "d < 10" for d
    using that digit_val_char [of d] by auto
  then show ?thesis using toString_radix_digits [of 10 n] by fastforce
qed

lemma valid_key_append:
  "valid_key p \<Longrightarrow> \<forall>seg \<in> set (split_on (CHR ''/'') x). seg \<noteq> ''.'' \<and> seg \<noteq> ''..'' \<Longrightarrow>
   valid_key (p @ CHR ''/'' # x)"
  by (auto simp: assertValidStorageKey_def split_on_append_sep split: if_splits)

lemma dot_json_not_dots: "x @ ''.json'' \<noteq> ''.''" "x @ ''.json'' \<noteq> ''..''"
proof -
  have "length (x @ ''.json'') \<ge> 5" by simp
  then show "x @ ''.json'' \<noteq> ''.''" "x @ ''.json'' \<noteq> ''..''" by fastforce+
qed

lemma valid_kernel_keys [simp, key_simps]:
  assumes "valid_key p"
  shows "valid_key (logObjectKey p n)" "valid_key (currentKey p)" "valid_key (gcPendingKey p)"
proof -
  have "split_on (CHR ''/'') (''log/'' @ show_nat n @ ''.json'') = [''log'', show_nat n @ ''.json'']"
    using split_on_append [of "CHR ''/''" "''log''" "show_nat n @ ''.json''"] by simp
  then show "valid_key (logObjectKey p n)"
    using valid_key_append [OF assms, of "''log/'' @ show_nat n @ ''.json''"] dot_json_not_dots
    by (simp add: logObjectKey_def)
  show "valid_key (currentKey p)" "valid_key (gcPendingKey p)"
    using valid_key_append [OF assms, of "''current.json''"] valid_key_append [OF assms, of "''gc/pending.json''"]
    by (simp_all add: currentKey_def gcPendingKey_def)
qed

section \<open>Well-formed stores\<close>

declare map_of_eq_Some_iff [simp del]

text \<open>Keys are unique and every ETag in the store was issued by the counter.\<close>

definition wf_storage :: "'b memory_storage \<Rightarrow> bool" where
  "wf_storage s \<longleftrightarrow> distinct (obj_keys (objects s)) \<and>
     (\<forall>k v. lookup s k = Some v \<longrightarrow> (\<exists>n \<le> etagCounter s. etag v = etag_of n))"

lemma etag_of_inj [simp]: "etag_of m = etag_of n \<longleftrightarrow> m = n"
  by (simp add: etag_of_def toString_radix_inj)

lemma wf_empty [simp]: "wf_storage empty_storage"
  by (simp add: wf_storage_def empty_storage_def)

definition put_allowed :: "put_options \<Rightarrow> 'b stored_object option \<Rightarrow> bool" where
  "put_allowed opts existing \<longleftrightarrow>
     (ifNoneMatch opts \<longrightarrow> existing = None) \<and>
     (\<forall>t. ifMatch opts = Some t \<longrightarrow> (\<exists>v. existing = Some v \<and> etag v = t))"

lemma memory_put_cases:
  assumes "valid_key key"
  shows "memory_put key b opts s =
    (if put_allowed opts (lookup s key)
     then (Inr (etag_of (etagCounter s + 1)),
           \<lparr>objects = obj_set key \<lparr>body = b, etag = etag_of (etagCounter s + 1)\<rparr> (objects s),
            etagCounter = etagCounter s + 1\<rparr>)
     else (throw WriteConflict, s))"
  using assms
  by (cases "lookup s key"; cases "ifMatch opts")
    (auto simp: memory_put_def put_allowed_def nextEtag_def Let_def)

lemma memory_put_invalid: "\<not> valid_key key \<Longrightarrow> snd (memory_put key b opts s) = s"
  by (simp add: memory_put_def split: sum.splits)

lemma wf_put: "wf_storage s \<Longrightarrow> wf_storage (snd (memory_put key b opts s))"
proof (cases "valid_key key")
  case True
  assume wf: "wf_storage s"
  then have "\<exists>n \<le> Suc (etagCounter s). etag v = etag_of n" if "lookup s k = Some v" for k v
    using that unfolding wf_storage_def by (meson le_SucI)
  then show ?thesis
    using wf by (auto simp: memory_put_cases [OF True] wf_storage_def)
qed (simp add: memory_put_invalid)

lemma wf_delete: "wf_storage s \<Longrightarrow> wf_storage (snd (memory_delete key s))"
  by (cases "assertValidStorageKey key") (auto simp: memory_delete_def wf_storage_def)

text \<open>An ETag the counter will issue next is not in the store.\<close>

lemma fresh_etag: "wf_storage s \<Longrightarrow> lookup s k = Some v \<Longrightarrow> etag v \<noteq> etag_of (Suc (etagCounter s))"
  unfolding wf_storage_def by (metis Suc_n_not_le_n etag_of_inj)

text \<open>
  What any sequence of operations does to a store: an object it did not have before carries an ETag
  issued since, so an ETag read once identifies the version it was read with for ever.
\<close>

definition store_rel :: "'b memory_storage \<Rightarrow> 'b memory_storage \<Rightarrow> bool" where
  "store_rel s s' \<longleftrightarrow> (wf_storage s \<longrightarrow> wf_storage s') \<and> etagCounter s \<le> etagCounter s' \<and>
     (\<forall>k v. lookup s' k = Some v \<longrightarrow>
        lookup s k = Some v \<or> (\<exists>n. etag v = etag_of n \<and> etagCounter s < n \<and> n \<le> etagCounter s'))"

lemma store_rel_refl [simp]: "store_rel s s"
  by (simp add: store_rel_def)

lemma store_rel_trans: "store_rel s1 s2 \<Longrightarrow> store_rel s2 s3 \<Longrightarrow> store_rel s1 s3"
  unfolding store_rel_def by (meson le_trans less_le_trans order_le_less_trans)

lemma store_rel_put: "store_rel s (snd (memory_put k b opts s))"
proof (cases "valid_key k")
  case True
  then show ?thesis using wf_put [of s k b opts]
    by (auto simp: store_rel_def memory_put_cases [OF True] split: if_splits)
qed (simp add: memory_put_invalid)

lemma store_rel_delete: "store_rel s (snd (memory_delete k s))"
  using wf_delete [of s k] by (auto simp: store_rel_def memory_delete_def split: sum.splits if_splits)

lemma etag_identifies_version:
  assumes "wf_storage s" "lookup s k = Some v" "store_rel s s'" "lookup s' k = Some v'" "etag v' = etag v"
  shows "v' = v"
proof -
  from assms(1,2) obtain n where n: "n \<le> etagCounter s" "etag v = etag_of n"
    unfolding wf_storage_def by blast
  from assms(3,4) have "lookup s k = Some v' \<or> (\<exists>m. etag v' = etag_of m \<and> etagCounter s < m)"
    unfolding store_rel_def by blast
  with n assms(2,5) show ?thesis by auto
qed

lemma version_between:
  assumes "wf_storage s" "lookup s k = Some v" "store_rel s s1" "store_rel s1 s2" "lookup s2 k = Some v"
  shows "lookup s1 k = Some v"
proof -
  from assms(1,2) obtain n where n: "n \<le> etagCounter s" "etag v = etag_of n"
    unfolding wf_storage_def by blast
  moreover have "etagCounter s \<le> etagCounter s1" using assms(3) by (simp add: store_rel_def)
  moreover from assms(4,5) have "lookup s1 k = Some v \<or> (\<exists>m. etag v = etag_of m \<and> etagCounter s1 < m)"
    unfolding store_rel_def by blast
  ultimately show ?thesis by auto
qed

lemma map_filter_lookup:
  "set ks \<subseteq> dom f \<Longrightarrow>
   List.map_filter (\<lambda>k. map_option (\<lambda>v. (k, g v)) (f k)) ks = map (\<lambda>k. (k, g (the (f k)))) ks"
  by (induction ks) (auto simp: map_filter_simps)

definition listed_keys :: "string \<Rightarrow> string \<Rightarrow> 'b memory_storage \<Rightarrow> string list" where
  "listed_keys prefix after s =
     sort (filter (\<lambda>k. startsWith k prefix \<and> after < k) (obj_keys (objects s)))"

lemma memory_list_keys:
  "memory_list prefix startAfter maxKeys s =
     take_max maxKeys (map (\<lambda>k. (k, etag (the (lookup s k))))
       (listed_keys prefix (case startAfter of None \<Rightarrow> [] | Some a \<Rightarrow> a) s))"
  unfolding memory_list_def listed_keys_def Let_def toSorted_utf8
  by (subst map_filter_lookup) (auto simp: dom_map_of_conv_image_fst)

lemma set_listed_keys:
  "set (listed_keys prefix after s) = {k \<in> dom (lookup s). startsWith k prefix \<and> after < k}"
  by (auto simp: listed_keys_def dom_map_of_conv_image_fst image_iff split: option.splits)

lemma sorted_listed_keys [simp]: "sorted (listed_keys prefix after s)"
  by (simp add: listed_keys_def)

lemma distinct_listed_keys [simp]: "wf_storage s \<Longrightarrow> distinct (listed_keys prefix after s)"
  by (simp add: listed_keys_def wf_storage_def)

lemma memory_list_sub:
  "(k, t) \<in> set (memory_list prefix startAfter maxKeys s) \<Longrightarrow>
   \<exists>v. lookup s k = Some v \<and> t = etag v \<and> startsWith k prefix"
proof -
  assume "(k, t) \<in> set (memory_list prefix startAfter maxKeys s)"
  then have "k \<in> set (listed_keys prefix (case startAfter of None \<Rightarrow> [] | Some a \<Rightarrow> a) s) \<and> t = etag (the (lookup s k))"
    by (auto simp: memory_list_keys take_max_def split: option.splits dest: in_set_takeD)
  then show ?thesis by (auto simp: set_listed_keys)
qed

section \<open>The contract of a store\<close>

text \<open>
  \<^verbatim>\<open>interface Storage\<close>: what a backend promises its callers. \<open>content\<close> is what a read sees, \<open>ok\<close> the
  backend's own invariant. The clients' lemmas are the two races every protocol of the kernel
  reduces to: of two conditional writes against one ETag, and of two creates of one key, at most one
  succeeds.
\<close>

locale object_store =
  fixes content :: "'s \<Rightarrow> string \<Rightarrow> 'b stored_object option"
    and ok :: "'s \<Rightarrow> bool"
    and get :: "string \<Rightarrow> string option \<Rightarrow> 's \<Rightarrow> ('b \<times> string) option result"
    and put :: "string \<Rightarrow> 'b \<Rightarrow> put_options \<Rightarrow> 's \<Rightarrow> string result \<times> 's"
    and delete :: "string \<Rightarrow> 's \<Rightarrow> unit result \<times> 's"
  assumes put_ok: "ok s \<Longrightarrow> ok (snd (put k b opts s))"
    and delete_ok: "ok s \<Longrightarrow> ok (snd (delete k s))"
    and get_reads: "valid_key k \<Longrightarrow>
      get k None s = Inr (map_option (\<lambda>v. (body v, etag v)) (content s k))"
    and put_writes: "ok s \<Longrightarrow> valid_key k \<Longrightarrow> put_allowed opts (content s k) \<Longrightarrow>
      put k b opts s = (r, s') \<Longrightarrow>
      \<exists>t. r = Inr t \<and> content s' = (content s)(k \<mapsto> \<lparr>body = b, etag = t\<rparr>) \<and>
        (\<forall>j v. content s j = Some v \<longrightarrow> etag v \<noteq> t)"
    and put_rejects: "valid_key k \<Longrightarrow> \<not> put_allowed opts (content s k) \<Longrightarrow>
      put k b opts s = (throw WriteConflict, s)"
    and delete_removes: "valid_key k \<Longrightarrow> delete k s = (u, s') \<Longrightarrow>
      u = Inr () \<and> content s' = (content s)(k := None)"
begin

lemma put_Inr_allowed: "valid_key k \<Longrightarrow> put k b opts s = (Inr t, s') \<Longrightarrow> put_allowed opts (content s k)"
  using put_rejects by fastforce

lemma read_back:
  "ok s \<Longrightarrow> valid_key k \<Longrightarrow> put k b opts s = (Inr t, s') \<Longrightarrow> get k None s' = Inr (Some (b, t))"
  using put_writes [OF _ _ put_Inr_allowed] get_reads by fastforce

lemma cas_exclusive:
  assumes "ok s" "valid_key k" "put k b opts s = (Inr t, s')" "content s k = Some v"
    and "ifMatch opts' = Some (etag v)"
  shows "put k b' opts' s' = (throw WriteConflict, s')"
proof (rule put_rejects)
  from put_writes [OF assms(1,2) put_Inr_allowed [OF assms(2,3)] assms(3)] assms(4)
  have "content s' k = Some \<lparr>body = b, etag = t\<rparr>" "t \<noteq> etag v" by auto
  then show "\<not> put_allowed opts' (content s' k)" using assms(5) by (auto simp: put_allowed_def)
qed (rule assms(2))

lemma create_exclusive:
  assumes "ok s" "valid_key k" "put k b opts s = (Inr t, s')" "ifNoneMatch opts'"
  shows "put k b' opts' s' = (throw WriteConflict, s')"
proof (rule put_rejects)
  from put_writes [OF assms(1,2) put_Inr_allowed [OF assms(2,3)] assms(3)]
  have "content s' k \<noteq> None" by auto
  then show "\<not> put_allowed opts' (content s' k)" using assms(4) by (simp add: put_allowed_def)
qed (rule assms(2))

end

interpretation mem: object_store lookup wf_storage memory_get memory_put memory_delete
proof unfold_locales
  fix k :: string and b :: 'a and opts s r s'
  assume "wf_storage s" "valid_key k" "put_allowed opts (lookup s k)" "memory_put k b opts s = (r, s')"
  then show "\<exists>t. r = Inr t \<and> lookup s' = (lookup s)(k \<mapsto> \<lparr>body = b, etag = t\<rparr>) \<and>
      (\<forall>j v. lookup s j = Some v \<longrightarrow> etag v \<noteq> t)"
    using fresh_etag [of s] by (auto simp: memory_put_cases fun_eq_iff)
next
  show "wf_storage s \<Longrightarrow> wf_storage (snd (memory_delete k s))" for k and s :: "'a memory_storage"
    by (rule wf_delete)
qed (auto simp: wf_put memory_get_def memory_put_cases memory_delete_def split: option.splits)

section \<open>Sequences of operations\<close>

text \<open>
  The calls of any number of clients against one store, one after the other, each with its result.
  \<^verbatim>\<open>clear\<close>, the reset of the test backend, starts the ETag counter again and is not among them.
\<close>

datatype 'b store_call =
    Get_call string "string option"
  | Put_call string 'b put_options
  | Delete_call string

fun call_step :: "'b store_call \<Rightarrow> 'b memory_storage \<Rightarrow> 'b memory_storage" where
  "call_step (Get_call k inm) s = s"
| "call_step (Put_call k b opts) s = snd (memory_put k b opts s)"
| "call_step (Delete_call k) s = snd (memory_delete k s)"

fun call_wrote :: "string \<Rightarrow> 'b store_call \<Rightarrow> 'b memory_storage \<Rightarrow> bool" where
  "call_wrote key (Get_call k inm) s = False"
| "call_wrote key (Put_call k b opts) s = (k = key \<and> (case fst (memory_put k b opts s) of Inl _ \<Rightarrow> False | Inr _ \<Rightarrow> True))"
| "call_wrote key (Delete_call k) s = (k = key \<and> (case fst (memory_delete k s) of Inl _ \<Rightarrow> False | Inr _ \<Rightarrow> True))"

primrec run_calls :: "'b store_call list \<Rightarrow> 'b memory_storage \<Rightarrow> 'b memory_storage" where
  "run_calls [] s = s"
| "run_calls (c # cs) s = run_calls cs (call_step c s)"

primrec calls_wrote :: "string \<Rightarrow> 'b store_call list \<Rightarrow> 'b memory_storage \<Rightarrow> bool" where
  "calls_wrote key [] s = False"
| "calls_wrote key (c # cs) s = (call_wrote key c s \<or> calls_wrote key cs (call_step c s))"

lemma store_rel_call: "store_rel s (call_step c s)"
  by (cases c) (simp_all add: store_rel_put store_rel_delete)

lemma store_rel_calls: "store_rel s (run_calls cs s)"
  by (induction cs arbitrary: s) (auto intro: store_rel_trans store_rel_call)

lemma wf_calls: "wf_storage s \<Longrightarrow> wf_storage (run_calls cs s)"
  using store_rel_calls [of s cs] by (simp add: store_rel_def)

text \<open>A call that wrote the key left it without the version it had; one that did not left it alone.\<close>

lemma call_not_wrote: "\<not> call_wrote key c s \<Longrightarrow> lookup (call_step c s) key = lookup s key"
proof (cases c)
  case (Put_call k b opts)
  then show "\<not> call_wrote key c s \<Longrightarrow> ?thesis"
    by (cases "valid_key k") (auto simp: memory_put_cases memory_put_invalid split: if_splits)
qed (auto simp: memory_delete_def split: sum.splits)

lemma call_wrote_version:
  assumes "wf_storage s" "lookup s key = Some v" "store_rel s s1" "call_wrote key c s1"
  shows "lookup (call_step c s1) key \<noteq> Some v"
proof (cases c)
  case (Put_call k b opts)
  have "valid_key k" using assms(4) Put_call by (auto simp: memory_put_def split: sum.splits)
  moreover obtain n where "n \<le> etagCounter s1" "etag v = etag_of n"
    using assms(1-3) unfolding wf_storage_def store_rel_def by (meson le_trans)
  ultimately show ?thesis using assms(4) Put_call
    by (auto simp: memory_put_cases split: if_splits)
qed (use assms(4) in \<open>auto simp: memory_delete_def split: sum.splits\<close>)

lemma calls_not_wrote: "\<not> calls_wrote key cs s \<Longrightarrow> lookup (run_calls cs s) key = lookup s key"
  by (induction cs arbitrary: s) (simp_all add: call_not_wrote)

lemma calls_wrote_version:
  assumes "wf_storage s" "lookup s key = Some v"
  shows "store_rel s s1 \<Longrightarrow> calls_wrote key cs s1 \<Longrightarrow> lookup (run_calls cs s1) key \<noteq> Some v"
proof (induction cs arbitrary: s1)
  case (Cons c cs)
  have rel: "store_rel s (call_step c s1)" using Cons.prems(1) store_rel_call store_rel_trans by blast
  show ?case
  proof (cases "call_wrote key c s1")
    case True
    show ?thesis
      using call_wrote_version [OF assms Cons.prems(1) True]
        version_between [OF assms rel store_rel_calls [of _ cs]] by auto
  next
    case False
    then show ?thesis using Cons.IH [OF rel] Cons.prems(2) by simp
  qed
qed simp

lemma memory_get_Some:
  "memory_get k None s = Inr (Some (b, e)) \<longleftrightarrow> valid_key k \<and> lookup s k = Some \<lparr>body = b, etag = e\<rparr>"
  by (cases "assertValidStorageKey k") (auto simp: memory_get_def split: option.splits)

section \<open>Properties\<close>

text \<open>
  (C20) A client reads version \<open>(b, e)\<close> of an object; any sequence of reads, writes and deletes, by
  anybody and on any key, follows; then the client writes with \<^verbatim>\<open>ifMatch\<close> \<open>e\<close>. The write succeeds
  exactly when no call in between wrote or deleted the object. It then replaced the version that was
  read, and its own version is what the next read sees; otherwise it is refused with
  \<^verbatim>\<open>WriteConflict\<close> and the store stays as it is.
\<close>

theorem conditional_write_excludes_lost_update:
  assumes "wf_storage s" and "memory_get k None s = Inr (Some (b, e))"
  shows "if calls_wrote k cs s
    then memory_put k b' \<lparr>ifMatch = Some e, ifNoneMatch = False\<rparr> (run_calls cs s)
           = (throw WriteConflict, run_calls cs s)
    else memory_get k None (run_calls cs s) = Inr (Some (b, e)) \<and>
         (\<exists>t s'. memory_put k b' \<lparr>ifMatch = Some e, ifNoneMatch = False\<rparr> (run_calls cs s) = (Inr t, s') \<and>
                 t \<noteq> e \<and> memory_get k None s' = Inr (Some (b', t)))"
proof -
  let ?s = "run_calls cs s" and ?opts = "\<lparr>ifMatch = Some e, ifNoneMatch = False\<rparr>"
  from assms(2) have key: "valid_key k" and v: "lookup s k = Some \<lparr>body = b, etag = e\<rparr>"
    by (simp_all add: memory_get_Some)
  show ?thesis
  proof (cases "calls_wrote k cs s")
    case True
    have "\<not> put_allowed ?opts (lookup ?s k)"
      using calls_wrote_version [OF assms(1) v store_rel_refl True]
        etag_identifies_version [OF assms(1) v store_rel_calls [of s cs]]
      by (auto simp: put_allowed_def)
    then show ?thesis using True mem.put_rejects [OF key] by simp
  next
    case False
    then have now: "lookup ?s k = Some \<lparr>body = b, etag = e\<rparr>" using calls_not_wrote v by metis
    then have "put_allowed ?opts (lookup ?s k)" by (simp add: put_allowed_def)
    from mem.put_writes [OF wf_calls [OF assms(1)] key this] obtain t s' where
      put: "memory_put k b' ?opts ?s = (Inr t, s')" and "t \<noteq> e"
      using now by (metis (no_types, lifting) prod.exhaust stored_object.select_convs(2))
    then show ?thesis using False now key mem.read_back [OF wf_calls [OF assms(1)] key put]
      by (simp add: memory_get_Some)
  qed
qed

theorem conditional_write_excludes_lost_update_witness:
  "\<exists>s. memory_put ''a/k'' (3::nat) \<lparr>ifMatch = Some (etag_of 1), ifNoneMatch = False\<rparr> s = (throw WriteConflict, s)
     \<and> memory_get ''a/k'' None s = Inr (Some (2, etag_of 2))"
proof -
  let ?s0 = "\<lparr>objects = [(''a/k'', \<lparr>body = 1::nat, etag = etag_of 1\<rparr>)], etagCounter = 1\<rparr>"
  let ?opts = "\<lparr>ifMatch = Some (etag_of 1), ifNoneMatch = False\<rparr>"
  let ?cs = "[Get_call ''a/k'' None, Put_call ''a/k'' 2 ?opts, Put_call ''a/j'' 7 \<lparr>ifMatch = None, ifNoneMatch = True\<rparr>]"
  have keys: "valid_key ''a/k''" "valid_key ''a/j''" by (simp_all add: assertValidStorageKey_def)
  have "wf_storage ?s0" by (auto simp: wf_storage_def)
  moreover have "memory_get ''a/k'' None ?s0 = Inr (Some (1, etag_of 1))" by (simp add: memory_get_Some keys)
  moreover have "calls_wrote ''a/k'' ?cs ?s0" "memory_get ''a/k'' None (run_calls ?cs ?s0) = Inr (Some (2, etag_of 2))"
    by (simp_all add: memory_put_cases keys put_allowed_def memory_get_Some)
  ultimately show ?thesis
    using conditional_write_excludes_lost_update [of ?s0 "''a/k''" 1 "etag_of 1" ?cs 3] by auto
qed

end
