(* ===== verification/Json.thy ===== *)
theory Json
  imports Prelude
begin

text \<open>
  JSON values and the two structural operations of \<^verbatim>\<open>packages/protocol/src/json.ts\<close>:
  \<^verbatim>\<open>jsonValueEqual\<close> (a loop over an explicit work stack) and \<^verbatim>\<open>merge\<close> (merge patch), with the
  recursive equality of \<^verbatim>\<open>packages/protocol/src/query/_internals.ts\<close>. The stack loop is shown
  equal to structural equality, and merge patch is compared with the recursion of RFC 7386.
  Numbers are IEEE doubles: a finite double is its rational value (the two zeros are one value,
  as under \<^verbatim>\<open>===\<close> and \<^verbatim>\<open><\<close>), the infinities and NaN are values of their own. An object is an
  association list with distinct keys; \<open>None\<close> stands for \<^verbatim>\<open>undefined\<close>.
\<close>

section \<open>Values\<close>

datatype jsnum = Fin rat | PosInf | NegInf | NaN

datatype json =
    JNull
  | JBool bool
  | JNum jsnum
  | JStr string
  | JArr "json list"
  | JObj "(string \<times> json) list"

type_synonym doc = "(string \<times> json) list"

text \<open>\<^verbatim>\<open>JSON.parse(JSON.stringify(v))\<close>: numbers JSON cannot write become \<^verbatim>\<open>null\<close>.\<close>

fun json_wire :: "json \<Rightarrow> json" where
  "json_wire (JNum (Fin q)) = JNum (Fin q)"
| "json_wire (JNum _) = JNull"
| "json_wire (JArr xs) = JArr (map json_wire xs)"
| "json_wire (JObj fs) = JObj (map (\<lambda>(k, v). (k, json_wire v)) fs)"
| "json_wire v = v"

definition doc_wire :: "doc \<Rightarrow> doc" where
  "doc_wire d = map (\<lambda>(k, v). (k, json_wire v)) d"

fun num_eq :: "jsnum \<Rightarrow> jsnum \<Rightarrow> bool" where
  "num_eq (Fin a) (Fin b) = (a = b)"
| "num_eq PosInf PosInf = True"
| "num_eq NegInf NegInf = True"
| "num_eq _ _ = False"

fun num_less :: "jsnum \<Rightarrow> jsnum \<Rightarrow> bool" where
  "num_less (Fin a) (Fin b) = (a < b)"
| "num_less NegInf (Fin _) = True"
| "num_less NegInf PosInf = True"
| "num_less (Fin _) PosInf = True"
| "num_less _ _ = False"

definition isFinite :: "jsnum \<Rightarrow> bool" where
  "isFinite n = (case n of Fin _ \<Rightarrow> True | _ \<Rightarrow> False)"

text \<open>\<^verbatim>\<open>===\<close> on two values that are not one shared object: objects and arrays are never identical.\<close>

fun strict_eq :: "json \<Rightarrow> json \<Rightarrow> bool" where
  "strict_eq JNull JNull = True"
| "strict_eq (JBool a) (JBool b) = (a = b)"
| "strict_eq (JNum a) (JNum b) = num_eq a b"
| "strict_eq (JStr a) (JStr b) = (a = b)"
| "strict_eq _ _ = False"

fun is_compound :: "json \<Rightarrow> bool" where
  "is_compound (JArr _) = True"
| "is_compound (JObj _) = True"
| "is_compound _ = False"

fun wf_json :: "json \<Rightarrow> bool" where
  "wf_json (JArr xs) = (\<forall>x\<in>set xs. wf_json x)"
| "wf_json (JObj xs) = (distinct (map fst xs) \<and> (\<forall>x\<in>set xs. wf_json (snd x)))"
| "wf_json (JNum n) = (n \<noteq> NaN)"
| "wf_json _ = True"

abbreviation fields_size :: "(string \<times> json) list \<Rightarrow> nat" where
  "fields_size xs \<equiv> size_list (size_prod (\<lambda>_. 0) size) xs"

lemma json_wire_idem [simp]: "json_wire (json_wire v) = json_wire v"
  by (induction v rule: json_wire.induct) (auto simp: case_prod_unfold)

lemma doc_wire_idem [simp]: "doc_wire (doc_wire d) = doc_wire d"
  by (simp add: doc_wire_def o_def case_prod_unfold)

lemma size_field_less: "(k, v) \<in> set xs \<Longrightarrow> size v < fields_size xs"
  by (induction xs) auto

lemma size_elem_less: "v \<in> set xs \<Longrightarrow> size v < size_list size xs"
  by (induction xs) auto

section \<open>Structural equality\<close>

text \<open>Reference definition: recursion over the structure, key order ignored.\<close>

function json_equiv :: "json \<Rightarrow> json \<Rightarrow> bool" where
  "json_equiv a b =
     (strict_eq a b \<or>
      (case (a, b) of
         (JArr xs, JArr ys) \<Rightarrow>
           length xs = length ys \<and> (\<forall>p\<in>set (zip xs ys). json_equiv (fst p) (snd p))
       | (JObj xs, JObj ys) \<Rightarrow>
           length xs = length ys \<and>
           (\<forall>p\<in>set xs. (case map_of ys (fst p) of
               None \<Rightarrow> False | Some w \<Rightarrow> json_equiv (snd p) w))
       | _ \<Rightarrow> False))"
  by pat_completeness auto
termination
  by (relation "measure (\<lambda>(a, b). size a)")
    (auto dest!: set_zip_leftD simp: size_elem_less less_Suc_eq dest: size_field_less)

declare json_equiv.simps [simp del]

lemma json_equiv_JArr [simp]:
  "json_equiv (JArr xs) (JArr ys) \<longleftrightarrow>
     length xs = length ys \<and> (\<forall>p\<in>set (zip xs ys). json_equiv (fst p) (snd p))"
  by (simp add: json_equiv.simps [of "JArr xs" "JArr ys"])

lemma json_equiv_JObj [simp]:
  "json_equiv (JObj xs) (JObj ys) \<longleftrightarrow>
     length xs = length ys \<and>
     (\<forall>p\<in>set xs. \<exists>w. map_of ys (fst p) = Some w \<and> json_equiv (snd p) w)"
  by (auto simp: json_equiv.simps [of "JObj xs" "JObj ys"] split: option.splits)

lemma json_equiv_prim: "\<not> is_compound a \<or> \<not> is_compound b \<Longrightarrow> json_equiv a b = strict_eq a b"
  by (cases a; cases b) (simp_all add: json_equiv.simps)

lemma json_equiv_kind [simp]:
  "\<not> json_equiv (JArr xs) (JObj ys)" "\<not> json_equiv (JObj ys) (JArr xs)"
  by (simp_all add: json_equiv.simps [of "JArr xs"] json_equiv.simps [of "JObj ys"])

text \<open>
  The loop of \<^verbatim>\<open>jsonValueEqual\<close>: \<^verbatim>\<open>pending\<close> is the work stack, its top at the head of the list
  (\<^verbatim>\<open>push\<close> in order, \<^verbatim>\<open>pop\<close> from the end, so the last pair pushed is examined first).
\<close>

definition obj_pairs :: "(string \<times> json) list \<Rightarrow> (string \<times> json) list \<Rightarrow> (json \<times> json) list" where
  "obj_pairs xs ys = map (\<lambda>(k, v). (v, the (map_of ys k))) xs"

abbreviation stack_size :: "(json \<times> json) list \<Rightarrow> nat" where
  "stack_size st \<equiv> sum_list (map (\<lambda>p. size (fst p)) st)"

lemma sum_list_map_fst_zip_le: "sum_list (map (\<lambda>p. size (fst p)) (zip xs ys)) \<le> size_list size xs"
  for xs :: "json list"
proof (induction xs arbitrary: ys)
  case (Cons x xs)
  then show ?case by (cases ys) (auto simp: add_mono le_SucI)
qed simp

lemma stack_size_obj_pairs_le: "stack_size (obj_pairs xs ys) \<le> fields_size xs"
  by (induction xs) (auto simp: obj_pairs_def split_beta add_mono le_SucI)

lemma stack_size_rev [simp]: "stack_size (rev st) = stack_size st"
  by (simp add: rev_map [symmetric] sum_list_rev)

function jsonValueEqual_loop :: "(json \<times> json) list \<Rightarrow> bool" where
  "jsonValueEqual_loop [] = True"
| "jsonValueEqual_loop ((left, right) # pending) =
     (if strict_eq left right then jsonValueEqual_loop pending
      else if \<not> is_compound left \<or> \<not> is_compound right then False
      else case left of
        JArr xs \<Rightarrow> (case right of
            JArr ys \<Rightarrow> if length xs \<noteq> length ys then False
                      else jsonValueEqual_loop (rev (zip xs ys) @ pending)
          | _ \<Rightarrow> False)
      | JObj xs \<Rightarrow> (case right of
            JArr _ \<Rightarrow> False
          | JObj ys \<Rightarrow> if length xs \<noteq> length ys then False
                      else if \<exists>p\<in>set xs. map_of ys (fst p) = None then False
                      else jsonValueEqual_loop (rev (obj_pairs xs ys) @ pending)
          | _ \<Rightarrow> False)
      | _ \<Rightarrow> False)"
  by pat_completeness auto
termination
proof (relation "measures [stack_size, length]", goal_cases)
  case (3 left right pending xs ys)
  then show ?case
    using sum_list_map_fst_zip_le [of xs ys] stack_size_rev [of "zip xs ys"] by simp
next
  case (4 left right pending xs ys)
  then show ?case
    using stack_size_obj_pairs_le [of xs ys] stack_size_rev [of "obj_pairs xs ys"] by simp
qed auto

declare jsonValueEqual_loop.simps(2) [simp del]

definition jsonValueEqual :: "json \<Rightarrow> json \<Rightarrow> bool" where
  "jsonValueEqual a b = jsonValueEqual_loop [(a, b)]"

lemma strict_eq_compound: "strict_eq a b \<Longrightarrow> \<not> is_compound a \<and> \<not> is_compound b"
  by (induction a b rule: strict_eq.induct) auto

lemma strict_eq_imp_equiv: "strict_eq a b \<Longrightarrow> json_equiv a b"
  by (simp add: json_equiv.simps [of a b])

lemma obj_pairs_equiv:
  assumes "\<not> (\<exists>p\<in>set xs. map_of ys (fst p) = None)"
  shows "(\<forall>q\<in>set (obj_pairs xs ys). json_equiv (fst q) (snd q)) \<longleftrightarrow>
     (\<forall>p\<in>set xs. \<exists>w. map_of ys (fst p) = Some w \<and> json_equiv (snd p) w)"
  using assms by (force simp: obj_pairs_def)

lemma jsonValueEqual_loop_correct:
  "jsonValueEqual_loop st \<longleftrightarrow> (\<forall>p\<in>set st. json_equiv (fst p) (snd p))"
proof (induction st rule: jsonValueEqual_loop.induct)
  case (2 left right pending)
  show ?case
  proof (cases "strict_eq left right")
    case True
    with 2(1) show ?thesis
      by (simp add: jsonValueEqual_loop.simps(2) strict_eq_imp_equiv)
  next
    case False
    consider (arr) xs ys where "left = JArr xs" "right = JArr ys"
      | (obj) xs ys where "left = JObj xs" "right = JObj ys"
      | (other) "\<not> (\<exists>xs ys. left = JArr xs \<and> right = JArr ys)"
          "\<not> (\<exists>xs ys. left = JObj xs \<and> right = JObj ys)"
      by blast
    then show ?thesis
    proof cases
      case arr
      then show ?thesis
        using False 2(2) [OF False, of xs ys] by (auto simp: jsonValueEqual_loop.simps(2))
    next
      case obj
      then show ?thesis
        using False 2(3) [OF False, of xs ys]
        by (cases "\<exists>p\<in>set xs. map_of ys (fst p) = None")
          (force simp: jsonValueEqual_loop.simps(2),
            auto simp: jsonValueEqual_loop.simps(2) obj_pairs_equiv ball_Un)
    next
      case other
      then show ?thesis
        using False
        by (cases left; cases right)
          (auto simp: jsonValueEqual_loop.simps(2) json_equiv_prim)
    qed
  qed
qed simp

lemma jsonValueEqual_equiv: "jsonValueEqual a b = json_equiv a b"
  by (simp add: jsonValueEqual_def jsonValueEqual_loop_correct)

text \<open>On objects with distinct keys the key order does not matter.\<close>

lemma dom_eq_of_length:
  assumes "distinct (map fst xs)" "distinct (map fst ys)" "length xs = length ys"
    "\<forall>p\<in>set xs. map_of ys (fst p) \<noteq> None"
  shows "dom (map_of xs) = dom (map_of ys)"
proof -
  have sub: "dom (map_of xs) \<subseteq> dom (map_of ys)"
  proof
    fix k
    assume "k \<in> dom (map_of xs)"
    then obtain v where "(k, v) \<in> set xs" by (auto dest: map_of_SomeD)
    with assms(4) show "k \<in> dom (map_of ys)" by force
  qed
  moreover have "card (dom (map_of xs)) = card (dom (map_of ys))"
    using assms(1-3) by (simp add: length_eq_card_dom [symmetric])
  ultimately show ?thesis
    by (simp add: card_subset_eq finite_dom_map_of)
qed

lemma json_equiv_JObj_iff:
  assumes "wf_json (JObj xs)" "wf_json (JObj ys)"
  shows "json_equiv (JObj xs) (JObj ys) \<longleftrightarrow>
     (\<forall>k. rel_option json_equiv (map_of xs k) (map_of ys k))" (is "?L \<longleftrightarrow> ?R")
proof
  assume L: ?L
  then have dom: "dom (map_of xs) = dom (map_of ys)"
    using assms by (intro dom_eq_of_length) auto
  show ?R
  proof
    fix k
    show "rel_option json_equiv (map_of xs k) (map_of ys k)"
    proof (cases "map_of xs k")
      case None
      then have "map_of ys k = None" using dom by (metis domIff)
      with None show ?thesis by simp
    next
      case (Some v)
      then have "(k, v) \<in> set xs" by (rule map_of_SomeD)
      then obtain w where "map_of ys k = Some w" "json_equiv v w" using L by force
      with Some show ?thesis by simp
    qed
  qed
next
  assume R: ?R
  then have dom: "dom (map_of xs) = dom (map_of ys)"
    by (metis (no_types, lifting) domIff option.rel_sel rel_option_None1 rel_option_None2 subsetI subset_antisym)
  have "length xs = length ys"
    using assms dom by (simp add: length_eq_card_dom)
  moreover have "\<exists>w. map_of ys (fst p) = Some w \<and> json_equiv (snd p) w" if "p \<in> set xs" for p
  proof -
    have "map_of xs (fst p) = Some (snd p)"
      using that assms(1) by (simp add: map_of_is_SomeI)
    then show ?thesis using R [rule_format, of "fst p"]
      by (auto simp: option_rel_Some1)
  qed
  ultimately show ?L by simp
qed

lemma num_eq_refl: "n \<noteq> NaN \<Longrightarrow> num_eq n n"
  by (cases n) auto

lemma num_eq_sym: "num_eq a b \<Longrightarrow> num_eq b a"
  by (induction a b rule: num_eq.induct) auto

lemma num_eq_imp_eq: "num_eq a b \<Longrightarrow> a = b"
  by (induction a b rule: num_eq.induct) auto

lemma strict_eq_imp_eq: "strict_eq a b \<Longrightarrow> a = b"
  by (induction a b rule: strict_eq.induct) (auto dest: num_eq_imp_eq)

lemma strict_eq_sym: "strict_eq a b \<Longrightarrow> strict_eq b a"
  by (induction a b rule: strict_eq.induct) (auto dest: num_eq_sym)

lemma json_equiv_refl: "wf_json a \<Longrightarrow> json_equiv a a"
proof (induction a)
  case (JArr xs)
  then show ?case by (auto simp: zip_same_conv_map)
next
  case (JObj xs)
  then have "\<exists>w. map_of xs (fst p) = Some w \<and> json_equiv (snd p) w" if "p \<in> set xs" for p
    using that by (cases p) (fastforce simp: map_of_is_SomeI)
  then show ?case by simp
qed (auto simp: json_equiv_prim num_eq_refl)

lemma json_equiv_sym: "wf_json a \<Longrightarrow> wf_json b \<Longrightarrow> json_equiv a b \<Longrightarrow> json_equiv b a"
proof (induction a arbitrary: b)
  case (JArr xs)
  then obtain ys where b: "b = JArr ys" by (cases b) (auto simp: json_equiv_prim)
  have "json_equiv (ys ! i) (xs ! i)" if "i < length xs" for i
  proof -
    have "json_equiv (xs ! i) (ys ! i)"
      using JArr.prems(3) that b by (fastforce simp: set_zip)
    then show ?thesis
      using JArr.prems JArr.IH [OF nth_mem [OF that], of "ys ! i"] that b by auto
  qed
  then show ?case using JArr.prems b by (auto simp: set_zip)
next
  case (JObj xs)
  then obtain ys where b: "b = JObj ys" by (cases b) (auto simp: json_equiv_prim)
  have "rel_option json_equiv (map_of ys k) (map_of xs k)" for k
  proof -
    have "rel_option json_equiv (map_of xs k) (map_of ys k)"
      using JObj.prems b by (simp only: json_equiv_JObj_iff)
    then show ?thesis
    proof (cases rule: option.rel_cases)
      case (Some v w)
      then have "(k, v) \<in> set xs" "(k, w) \<in> set ys" by (auto dest: map_of_SomeD)
      then have "json_equiv w v"
        using JObj.prems(1,2) b Some JObj.IH [of "(k, v)" v w] by fastforce
      with Some show ?thesis by simp
    qed simp
  qed
  then show ?case using JObj.prems b by (simp only: json_equiv_JObj_iff) blast
qed (auto simp: json_equiv_prim strict_eq_sym)

section \<open>Recursive equality of the predicate algebra\<close>

text \<open>
  \<^verbatim>\<open>deepEqualDocumentValue\<close>: arrays are walked as objects keyed by their indices, so an array and
  an index-keyed object with equal entries are equal here.
\<close>

fun own_entries :: "json \<Rightarrow> (string \<times> json) list" where
  "own_entries (JObj xs) = xs"
| "own_entries (JArr xs) = zip (map show_nat [0..<length xs]) xs"
| "own_entries _ = []"

lemma own_entries_size: "(k, v) \<in> set (own_entries a) \<Longrightarrow> size v < size a"
  by (cases a) (auto dest!: set_zip_rightD simp: size_elem_less less_Suc_eq dest: size_field_less)

function deepEqualDocumentValue :: "json \<Rightarrow> json \<Rightarrow> bool" where
  "deepEqualDocumentValue a b =
     (if strict_eq a b then True
      else if \<not> is_compound a \<or> \<not> is_compound b then False
      else length (own_entries a) = length (own_entries b) \<and>
        (\<forall>p\<in>set (own_entries a). (case map_of (own_entries b) (fst p) of
            None \<Rightarrow> False | Some w \<Rightarrow> deepEqualDocumentValue (snd p) w)))"
  by pat_completeness auto
termination
  by (relation "measure (\<lambda>(a, b). size a)") (auto dest: own_entries_size)

declare deepEqualDocumentValue.simps [simp del]

lemma deepEqual_prim:
  "\<not> is_compound a \<or> \<not> is_compound b \<Longrightarrow> deepEqualDocumentValue a b = strict_eq a b"
  by (auto simp: deepEqualDocumentValue.simps [of a b])

section \<open>Merge patch\<close>

definition FORBIDDEN_MERGE_KEYS :: "string list" where
  "FORBIDDEN_MERGE_KEYS = [''__proto__'', ''constructor'', ''prototype'']"

function (sequential) merge :: "json option \<Rightarrow> json option \<Rightarrow> json option"
  and merge_keys :: "doc \<Rightarrow> doc \<Rightarrow> doc \<Rightarrow> doc" where
  "merge target None = target"
| "merge target (Some JNull) = None"
| "merge (Some (JObj ts)) (Some (JObj ps)) = Some (JObj (merge_keys ts ts ps))"
| "merge target (Some patch) = Some patch"
| "merge_keys target combined [] = combined"
| "merge_keys target combined ((key, v) # ps) =
     (if key \<in> set FORBIDDEN_MERGE_KEYS then merge_keys target combined ps
      else if v = JNull then merge_keys target (obj_del key combined) ps
      else case merge (map_of target key) (Some v) of
          Some m \<Rightarrow> merge_keys target (obj_set key m combined) ps
        | None \<Rightarrow> merge_keys target combined ps)"
  by pat_completeness auto
termination
  by (relation "measure (\<lambda>x. case x of Inl (t, p) \<Rightarrow> (case p of None \<Rightarrow> 0 | Some v \<Rightarrow> size v)
      | Inr (t, c, ps) \<Rightarrow> fields_size ps)") auto

lemma merge_Some_not_null: "v \<noteq> JNull \<Longrightarrow> \<exists>m. merge t (Some v) = Some m"
  by (cases v; cases t) (auto, (case_tac a; simp)+)

text \<open>What one key of a merged object holds.\<close>

definition merge_field :: "doc \<Rightarrow> doc \<Rightarrow> string \<Rightarrow> json option" where
  "merge_field ts ps k =
     (if k \<in> set FORBIDDEN_MERGE_KEYS then map_of ts k
      else case map_of ps k of None \<Rightarrow> map_of ts k | Some v \<Rightarrow> merge (map_of ts k) (Some v))"

lemma map_of_merge_keys:
  "distinct (map fst ps) \<Longrightarrow>
   map_of (merge_keys ts acc ps) k =
     (if k \<in> set FORBIDDEN_MERGE_KEYS then map_of acc k
      else case map_of ps k of None \<Rightarrow> map_of acc k | Some v \<Rightarrow> merge (map_of ts k) (Some v))"
proof (induction ps arbitrary: acc)
  case (Cons p ps)
  obtain key v where p: "p = (key, v)" by (cases p)
  have notin: "map_of ps key = None" using Cons.prems p by (simp add: map_of_eq_None_iff)
  show ?case
    using Cons p notin merge_Some_not_null [of v "map_of ts key"]
    by (cases "key \<in> set FORBIDDEN_MERGE_KEYS"; cases "v = JNull")
      (auto split: option.splits)
qed simp

lemma merge_object_field:
  "distinct (map fst ps) \<Longrightarrow> map_of (merge_keys ts ts ps) = merge_field ts ps"
  by (rule ext) (simp add: map_of_merge_keys merge_field_def)

lemma merge_not_object:
  "\<not> (\<exists>ts. t = Some (JObj ts)) \<Longrightarrow> v \<noteq> JNull \<Longrightarrow> merge t (Some v) = Some v"
  by (cases v; cases t) (auto, (case_tac a; simp)+)

subsection \<open>Patches without deletions\<close>

fun null_free :: "json \<Rightarrow> bool" where
  "null_free JNull = False"
| "null_free (JObj xs) = (distinct (map fst xs) \<and>
     (\<forall>x\<in>set xs. fst x \<notin> set FORBIDDEN_MERGE_KEYS \<and> null_free (snd x)))"
| "null_free _ = True"

lemma obj_set_same: "map_of xs k = Some v \<Longrightarrow> obj_set k v xs = xs"
  by (induction k v xs rule: obj_set.induct) (auto split: if_splits)

lemma merge_keys_stable:
  "\<forall>x\<in>set ps. snd x \<noteq> JNull \<and> map_of R (fst x) \<noteq> None \<and>
     merge (map_of R (fst x)) (Some (snd x)) = map_of R (fst x) \<Longrightarrow>
   merge_keys R R ps = R"
  by (induction ps) (auto simp: obj_set_same split: option.splits)

lemma null_free_not_null: "null_free v \<Longrightarrow> v \<noteq> JNull"
  by auto

lemma null_free_map_of: "null_free (JObj ps) \<Longrightarrow> x \<in> set ps \<Longrightarrow> map_of ps (fst x) = Some (snd x)"
  by (simp add: map_of_is_SomeI)

lemma merge_self: "null_free v \<Longrightarrow> merge (Some v) (Some v) = Some v"
proof (induction v)
  case (JObj ps)
  have "merge_keys ps ps ps = ps"
  proof (rule merge_keys_stable, rule ballI)
    fix x
    assume x: "x \<in> set ps"
    then have "map_of ps (fst x) = Some (snd x)" "null_free (snd x)"
      using JObj.prems null_free_map_of by auto
    moreover have "merge (Some (snd x)) (Some (snd x)) = Some (snd x)"
      using JObj.IH [OF x, of "snd x"] calculation(2) by (cases x) auto
    ultimately show "snd x \<noteq> JNull \<and> map_of ps (fst x) \<noteq> None \<and>
        merge (map_of ps (fst x)) (Some (snd x)) = map_of ps (fst x)"
      by (auto dest: null_free_not_null)
  qed
  then show ?case by simp
qed auto

lemma merge_idem_null_free:
  "null_free p \<Longrightarrow> merge (merge t (Some p)) (Some p) = merge t (Some p)"
proof (induction p arbitrary: t)
  case (JObj ps)
  show ?case
  proof (cases "\<exists>ts. t = Some (JObj ts)")
    case True
    then obtain ts where t: "t = Some (JObj ts)" by blast
    let ?R = "merge_keys ts ts ps"
    have R: "map_of ?R = merge_field ts ps"
      using JObj.prems by (simp add: merge_object_field)
    have "merge_keys ?R ?R ps = ?R"
    proof (rule merge_keys_stable, rule ballI)
      fix x
      assume x: "x \<in> set ps"
      then have nf: "null_free (snd x)" "fst x \<notin> set FORBIDDEN_MERGE_KEYS"
        "map_of ps (fst x) = Some (snd x)"
        using JObj.prems null_free_map_of by auto
      then have f: "map_of ?R (fst x) = merge (map_of ts (fst x)) (Some (snd x))"
        by (simp add: R merge_field_def)
      have "merge (merge (map_of ts (fst x)) (Some (snd x))) (Some (snd x)) =
          merge (map_of ts (fst x)) (Some (snd x))"
        using JObj.IH [OF x, of "snd x"] nf(1) by (cases x) auto
      then show "snd x \<noteq> JNull \<and> map_of ?R (fst x) \<noteq> None \<and>
          merge (map_of ?R (fst x)) (Some (snd x)) = map_of ?R (fst x)"
        using f nf(1) merge_Some_not_null [OF null_free_not_null [OF nf(1)], of "map_of ts (fst x)"]
        by auto
    qed
    with t show ?thesis by simp
  next
    case False
    then have "merge t (Some (JObj ps)) = Some (JObj ps)" by (simp add: merge_not_object)
    with merge_self [OF JObj.prems] show ?thesis by simp
  qed
qed (auto simp: merge_not_object)

subsection \<open>The recursion of RFC 7386\<close>

text \<open>\<^verbatim>\<open>MergePatch(Target, Patch)\<close> of the RFC: a target that is no object is taken as the empty one.\<close>

function (sequential) rfc_merge :: "json option \<Rightarrow> json \<Rightarrow> json"
  and rfc_keys :: "doc \<Rightarrow> doc \<Rightarrow> doc" where
  "rfc_merge (Some (JObj ts)) (JObj ps) = JObj (rfc_keys ts ps)"
| "rfc_merge _ (JObj ps) = JObj (rfc_keys [] ps)"
| "rfc_merge _ p = p"
| "rfc_keys ts [] = ts"
| "rfc_keys ts ((k, v) # ps) =
     (if v = JNull then rfc_keys (obj_del k ts) ps
      else rfc_keys (obj_set k (rfc_merge (map_of ts k) v) ts) ps)"
  by pat_completeness auto
termination
  by (relation "measure (\<lambda>x. case x of Inl (t, p) \<Rightarrow> size p | Inr (t, ps) \<Rightarrow> fields_size ps)") auto

text \<open>
  A patch is aligned with a target when its deletions name members of objects the target has:
  below a member the target lacks (or holds as a scalar or array) the patch carries no \<^verbatim>\<open>null\<close>.
\<close>

function (sequential) aligned :: "json option \<Rightarrow> json \<Rightarrow> bool" where
  "aligned (Some (JObj ts)) (JObj ps) =
     (distinct (map fst ps) \<and> (\<forall>x\<in>set ps. fst x \<notin> set FORBIDDEN_MERGE_KEYS \<and>
        (snd x = JNull \<or> aligned (map_of ts (fst x)) (snd x))))"
| "aligned _ p = null_free p"
  by pat_completeness auto
termination
  by (relation "measure (\<lambda>(t, p). size p)") (auto dest: size_field_less)

lemma rfc_keys_fresh:
  "distinct (map fst (acc @ ps)) \<Longrightarrow>
   \<forall>x\<in>set ps. snd x \<noteq> JNull \<and> rfc_merge None (snd x) = snd x \<Longrightarrow>
   rfc_keys acc ps = acc @ ps"
proof (induction ps arbitrary: acc)
  case (Cons p ps)
  obtain k v where p: "p = (k, v)" by (cases p)
  have "map_of acc k = None" "obj_set k v acc = acc @ [(k, v)]"
  proof -
    have notin: "k \<notin> fst ` set acc" using Cons.prems(1) p by auto
    then show "map_of acc k = None" by (simp add: map_of_eq_None_iff)
    from notin show "obj_set k v acc = acc @ [(k, v)]" by (induction acc) auto
  qed
  then show ?case using Cons.IH [of "acc @ [p]"] Cons.prems p by simp
qed simp

lemma rfc_merge_null_free: "null_free p \<Longrightarrow> \<not> (\<exists>ts. t = Some (JObj ts)) \<Longrightarrow> rfc_merge t p = p"
proof (induction p arbitrary: t)
  case (JObj ps)
  have "rfc_keys [] ps = [] @ ps"
  proof (rule rfc_keys_fresh)
    show "\<forall>x\<in>set ps. snd x \<noteq> JNull \<and> rfc_merge None (snd x) = snd x"
    proof
      fix x
      assume x: "x \<in> set ps"
      then have "null_free (snd x)" using JObj.prems by auto
      with JObj.IH [OF x, of "snd x" None] show "snd x \<noteq> JNull \<and> rfc_merge None (snd x) = snd x"
        by (cases x) auto
    qed
  qed (use JObj.prems in simp)
  with JObj.prems(2) show ?case by (cases t) (auto, case_tac a, auto)
qed (case_tac t; auto; case_tac a; auto)+

lemma merge_keys_rfc:
  "distinct (map fst ps) \<Longrightarrow>
   \<forall>x\<in>set ps. fst x \<notin> set FORBIDDEN_MERGE_KEYS \<and> map_of acc (fst x) = map_of ts (fst x) \<and>
     (snd x \<noteq> JNull \<longrightarrow>
        merge (map_of ts (fst x)) (Some (snd x)) = Some (rfc_merge (map_of ts (fst x)) (snd x))) \<Longrightarrow>
   merge_keys ts acc ps = rfc_keys acc ps"
proof (induction ps arbitrary: acc)
  case (Cons p ps)
  obtain k v where p: "p = (k, v)" by (cases p)
  have ne: "\<forall>x\<in>set ps. fst x \<noteq> k" using Cons.prems(1) p by force
  show ?case
    using Cons.IH [of "obj_del k acc"] Cons.IH [of "obj_set k (rfc_merge (map_of ts k) v) acc"]
      Cons.prems p ne by auto
qed simp

lemma merge_rfc: "aligned t p \<Longrightarrow> p \<noteq> JNull \<Longrightarrow> merge t (Some p) = Some (rfc_merge t p)"
proof (induction t p rule: aligned.induct)
  case (1 ts ps)
  have "merge_keys ts ts ps = rfc_keys ts ps"
    using 1 by (intro merge_keys_rfc) auto
  then show ?case by simp
qed (auto simp: merge_not_object rfc_merge_null_free)

section \<open>Properties\<close>

text \<open>
  (C25) The work-stack loop of \<^verbatim>\<open>jsonValueEqual\<close> decides structural equality of two JSON values:
  equal primitives, arrays of equal length with equal elements in order, objects with the same
  keys and equal members whatever the key order, and never an array for an object.
\<close>

theorem jsonValueEqual_structural: "jsonValueEqual a b = json_equiv a b"
  by (rule jsonValueEqual_equiv)

text \<open>
  (C26) \<^verbatim>\<open>merge\<close> computes the merge of RFC 7386 for every patch whose deletions name members of
  objects the target holds (and that uses none of the three reserved keys).
\<close>

theorem merge_agrees_with_rfc:
  assumes "aligned t p" and "p \<noteq> JNull"
  shows "merge t (Some p) = Some (rfc_merge t p)"
  using assms by (rule merge_rfc)

theorem merge_agrees_with_rfc_witness:
  "merge (Some (JObj [(''a'', JObj [(''b'', JNull), (''c'', JBool True)])]))
      (Some (JObj [(''a'', JObj [(''b'', JNull)]), (''d'', JStr ''x'')])) =
    Some (rfc_merge (Some (JObj [(''a'', JObj [(''b'', JNull), (''c'', JBool True)])]))
      (JObj [(''a'', JObj [(''b'', JNull)]), (''d'', JStr ''x'')]))"
  by (rule merge_agrees_with_rfc) (simp_all add: FORBIDDEN_MERGE_KEYS_def)

text \<open>
  Retrying an update is harmless for a patch without deletions: applying it a second time
  leaves the merged document unchanged.
\<close>

theorem merge_retry_harmless:
  assumes "null_free p"
  shows "merge (merge t (Some p)) (Some p) = merge t (Some p)"
  using assms by (rule merge_idem_null_free)

theorem merge_retry_harmless_witness:
  "merge (merge (Some (JObj [])) (Some (JObj [(''a'', JObj [(''b'', JBool True)])])))
      (Some (JObj [(''a'', JObj [(''b'', JBool True)])])) =
    merge (Some (JObj [])) (Some (JObj [(''a'', JObj [(''b'', JBool True)])]))"
  by (rule merge_retry_harmless) (simp add: FORBIDDEN_MERGE_KEYS_def)

text \<open>
  With a deletion below a member the document lacks, a second application changes the
  document again: the first stores the \<^verbatim>\<open>null\<close>, the second deletes it. The idempotence law of
  \<^verbatim>\<open>docs/spec/json-merge-patch.md\<close> does not hold for such patches.
\<close>

theorem merge_not_idempotent:
  "\<exists>s p. merge (merge (Some s) (Some p)) (Some p) \<noteq> merge (Some s) (Some p) \<and>
     merge (Some s) (Some p) \<noteq> Some (rfc_merge (Some s) p)"
proof (intro exI)
  let ?s = "JObj []" and ?p = "JObj [(''x'', JObj [(''y'', JNull)])]"
  show "merge (merge (Some ?s) (Some ?p)) (Some ?p) \<noteq> merge (Some ?s) (Some ?p) \<and>
     merge (Some ?s) (Some ?p) \<noteq> Some (rfc_merge (Some ?s) ?p)"
    by (simp add: FORBIDDEN_MERGE_KEYS_def obj_del_def)
qed

end
