(* ===== verification/Prog.thy ===== *)
theory Prog
  imports Storage Json
begin

text \<open>
  Storage programs. The asynchronous functions of the kernel touch shared state only through the
  four calls of \<^verbatim>\<open>interface Storage\<close>, so each is modelled as a tree of calls: \<open>Op\<close> issues one call
  and continues with its response, \<open>Ret\<close> is the settled promise. The tree runs alone (\<open>run\<close>), or as
  one of many threads on one store whose calls interleave and may fail, before or after they take
  effect (\<open>sys_step\<close>). \<open>wp\<close> is the weakest precondition of a program under interference \<open>R\<close>, and
  its soundness for the thread system is shown here.
\<close>

section \<open>Stored bodies\<close>

datatype log_op = OpI | OpU | OpD

record log_entry =
  le_lsn :: string
  le_commit_ts :: string
  le_op :: log_op
  le_collection :: string
  le_doc_id :: "string option"
  le_after :: "doc option"
  le_origin :: "string option"
  le_session :: string
  le_seq :: nat

record snapshot_body =
  sn_schema_version :: nat
  sn_min_seq :: nat
  sn_max_seq :: nat
  sn_collection :: string
  sn_docs :: "(string \<times> doc) list"

text \<open>
  A body by what wrote it. The kernel casts the JSON of a log object or snapshot to its interface
  without checking members, so those bodies are typed; \<^verbatim>\<open>current.json\<close> and
  \<^verbatim>\<open>gc/pending.json\<close> are validated member by member and stay JSON. \<open>BMalformed\<close> is a body
  \<^verbatim>\<open>JSON.parse\<close> rejects, \<open>BEmpty\<close> the zero-byte body of an index marker.
\<close>

datatype blob = BLog log_entry | BSnap snapshot_body | BJson json | BEmpty | BMalformed

type_synonym store = "blob memory_storage"

text \<open>\<^verbatim>\<open>decodeJsonBytes<LogEntry>\<close>; \<open>None\<close> is the exception of the decoder.\<close>

fun decode_log_entry :: "blob \<Rightarrow> log_entry option" where
  "decode_log_entry (BLog e) = Some e"
| "decode_log_entry _ = None"

section \<open>Calls and programs\<close>

datatype call =
    Get string "string option"
  | Put string blob put_options
  | Delete string
  | ListKeys string "string option" "nat option"

datatype response =
    RGet "(blob \<times> string) option"
  | RPut string
  | RDone
  | RList "(string \<times> string) list"
  | RErr exn

fun exec :: "call \<Rightarrow> store \<Rightarrow> response \<times> store" where
  "exec (Get k inm) s = (case memory_get k inm s of Inl e \<Rightarrow> (RErr e, s) | Inr g \<Rightarrow> (RGet g, s))"
| "exec (Put k b opts) s =
     (case memory_put k b opts s of (Inl e, s') \<Rightarrow> (RErr e, s') | (Inr t, s') \<Rightarrow> (RPut t, s'))"
| "exec (Delete k) s =
     (case memory_delete k s of (Inl e, s') \<Rightarrow> (RErr e, s') | (Inr _, s') \<Rightarrow> (RDone, s'))"
| "exec (ListKeys p a n) s = (RList (memory_list p a n s), s)"

datatype 'a prog = Ret 'a | Op call "response \<Rightarrow> 'a prog"

type_synonym 'a io = "'a result prog"

primrec prog_bind :: "'a prog \<Rightarrow> ('a \<Rightarrow> 'b prog) \<Rightarrow> 'b prog" where
  "prog_bind (Ret x) f = f x"
| "prog_bind (Op c k) f = Op c (\<lambda>r. prog_bind (k r) f)"

definition io_bind :: "'a io \<Rightarrow> ('a \<Rightarrow> 'b io) \<Rightarrow> 'b io" where
  "io_bind m f = prog_bind m (\<lambda>r. case r of Inl e \<Rightarrow> Ret (Inl e) | Inr x \<Rightarrow> f x)"

definition io_catch :: "'a io \<Rightarrow> (exn \<Rightarrow> 'a io) \<Rightarrow> 'a io" where
  "io_catch m h = prog_bind m (\<lambda>r. case r of Inl e \<Rightarrow> h e | Inr x \<Rightarrow> Ret (Inr x))"

lemma prog_bind_cong [fundef_cong]:
  "m = m' \<Longrightarrow> (\<And>x. f x = f' x) \<Longrightarrow> prog_bind m f = prog_bind m' f'"
  by (metis ext)

lemma io_bind_cong [fundef_cong]:
  "m = m' \<Longrightarrow> (\<And>x. f x = f' x) \<Longrightarrow> io_bind m f = io_bind m' f'"
  by (metis ext)

abbreviation io_return :: "'a \<Rightarrow> 'a io" where
  "io_return x \<equiv> Ret (Inr x)"

abbreviation io_throw :: "error_code \<Rightarrow> 'a io" where
  "io_throw c \<equiv> Ret (throw c)"

text \<open>A response of another shape than the call's does not occur; it is mapped to \<open>Internal\<close>.\<close>

definition io_get :: "string \<Rightarrow> (blob \<times> string) option io" where
  "io_get k = Op (Get k None) (\<lambda>r. case r of RGet g \<Rightarrow> io_return g | RErr e \<Rightarrow> Ret (Inl e) | _ \<Rightarrow> io_throw Internal)"

definition io_put :: "string \<Rightarrow> blob \<Rightarrow> put_options \<Rightarrow> string io" where
  "io_put k b opts = Op (Put k b opts)
     (\<lambda>r. case r of RPut t \<Rightarrow> io_return t | RErr e \<Rightarrow> Ret (Inl e) | _ \<Rightarrow> io_throw Internal)"

definition io_delete :: "string \<Rightarrow> unit io" where
  "io_delete k = Op (Delete k) (\<lambda>r. case r of RDone \<Rightarrow> io_return () | RErr e \<Rightarrow> Ret (Inl e) | _ \<Rightarrow> io_throw Internal)"

definition io_list :: "string \<Rightarrow> string option \<Rightarrow> nat option \<Rightarrow> (string \<times> string) list io" where
  "io_list p a n = Op (ListKeys p a n)
     (\<lambda>r. case r of RList xs \<Rightarrow> io_return xs | RErr e \<Rightarrow> Ret (Inl e) | _ \<Rightarrow> io_throw Internal)"

abbreviation create_only :: put_options where
  "create_only \<equiv> \<lparr>ifMatch = None, ifNoneMatch = True\<rparr>"

abbreviation if_match :: "string \<Rightarrow> put_options" where
  "if_match t \<equiv> \<lparr>ifMatch = Some t, ifNoneMatch = False\<rparr>"

abbreviation unconditional :: put_options where
  "unconditional \<equiv> \<lparr>ifMatch = None, ifNoneMatch = False\<rparr>"

definition io_lift :: "'a result \<Rightarrow> 'a io" where
  "io_lift r = Ret r"

text \<open>
  \<^verbatim>\<open>Promise.all\<close> over independent DELETEs: every one is issued, and a failure is reported once all have
  answered (the source may report it sooner; the calls in flight land all the same).
\<close>

fun delete_all :: "string list \<Rightarrow> unit io" where
  "delete_all [] = io_return ()"
| "delete_all (k # ks) =
     prog_bind (io_delete k) (\<lambda>r. prog_bind (delete_all ks) (\<lambda>r'. Ret (case r of Inl e \<Rightarrow> Inl e | Inr _ \<Rightarrow> r')))"

text \<open>The values a program can return, whatever the store answers, are the leaves of its tree.\<close>

lemma results_bind [simp]: "set_prog (prog_bind m f) = (\<Union>x \<in> set_prog m. set_prog (f x))"
  by (induction m) auto

lemma results_io_bind:
  "Inr y \<in> set_prog (io_bind m f) \<longleftrightarrow> (\<exists>x. Inr x \<in> set_prog m \<and> Inr y \<in> set_prog (f x))"
proof -
  have "Inr y \<in> set_prog (case r of Inl e \<Rightarrow> Ret (Inl e) | Inr x \<Rightarrow> f x) \<longleftrightarrow>
      (\<exists>x. r = Inr x \<and> Inr y \<in> set_prog (f x))" for r
    by (cases r) auto
  then show ?thesis by (simp add: io_bind_def) blast
qed

section \<open>Running a program alone\<close>

primrec run :: "'a prog \<Rightarrow> store \<Rightarrow> 'a \<times> store" where
  "run (Ret x) s = (x, s)"
| "run (Op c k) s = (let (r, s') = exec c s in run (k r) s')"

lemma run_bind: "run (prog_bind m f) s = (let (x, s') = run m s in run (f x) s')"
  by (induction m arbitrary: s) (auto simp: Let_def split: prod.splits)

lemma run_io_bind [io_simps]:
  "run (io_bind m f) s =
     (case run m s of (Inl e, s') \<Rightarrow> (Inl e, s') | (Inr x, s') \<Rightarrow> run (f x) s')"
  by (auto simp: io_bind_def run_bind Let_def split: prod.splits sum.splits)

lemma run_io_catch [io_simps]:
  "run (io_catch m h) s =
     (case run m s of (Inl e, s') \<Rightarrow> run (h e) s' | (Inr x, s') \<Rightarrow> (Inr x, s'))"
  by (auto simp: io_catch_def run_bind Let_def split: prod.splits sum.splits)

lemma run_io_get [io_simps]: "valid_key k \<Longrightarrow>
  run (io_get k) s = (Inr (map_option (\<lambda>v. (body v, etag v)) (lookup s k)), s)"
  by (simp add: io_get_def mem.get_reads)

lemma run_io_put [io_simps]: "run (io_put k b opts) s = memory_put k b opts s"
  by (auto simp: io_put_def Let_def split: prod.splits sum.splits)

lemma run_io_delete [io_simps]: "run (io_delete k) s = memory_delete k s"
  by (auto simp: io_delete_def Let_def split: prod.splits sum.splits)

lemma run_io_list [io_simps]: "run (io_list p a n) s = (Inr (memory_list p a n s), s)"
  by (simp add: io_list_def)

lemma run_io_lift [io_simps]: "run (io_lift r) s = (r, s)"
  by (simp add: io_lift_def)

section \<open>Faults\<close>

text \<open>
  What a call may do besides succeeding: fail with no effect, or take effect and lose its
  acknowledgement. The \<^verbatim>\<open>Storage.put\<close> contract forbids the second for the three rejections that
  promise the write did not land: \<^verbatim>\<open>AccessDenied\<close>, \<^verbatim>\<open>InvalidConfig\<close> and a cause with
  \<^verbatim>\<open>notApplied\<close>. A \<^verbatim>\<open>WriteConflict\<close> after an effect is possible: it is an adapter's retry meeting
  its own first attempt.
\<close>

fun may_lose_ack :: "exn \<Rightarrow> bool" where
  "may_lose_ack (BaerlyError c notApplied) = (c \<noteq> AccessDenied \<and> c \<noteq> InvalidConfig \<and> \<not> notApplied)"
| "may_lose_ack AbortError = True"
| "may_lose_ack TypeError = True"

inductive outcome :: "call \<Rightarrow> store \<Rightarrow> response \<Rightarrow> store \<Rightarrow> bool" where
  outcome_ok: "exec c s = (r, s') \<Longrightarrow> outcome c s r s'"
| outcome_fail: "outcome c s (RErr e) s"
| outcome_lost: "may_lose_ack e \<Longrightarrow> exec c s = (r, s') \<Longrightarrow> outcome c s (RErr e) s'"

inductive_cases outcomeE: "outcome c s r s'"

section \<open>Weakest preconditions under interference\<close>

text \<open>
  \<open>R\<close> is what the other threads may do between two calls, and what this one must do with each call.
  \<open>A\<close> restricts the executions considered to those whose calls satisfy it (the collection's
  invariant uses it to name the bodies whose hashes do not collide).
\<close>

primrec wp ::
  "(store \<Rightarrow> store \<Rightarrow> bool) \<Rightarrow> (call \<Rightarrow> bool) \<Rightarrow> 'a prog \<Rightarrow> ('a \<Rightarrow> store \<Rightarrow> bool) \<Rightarrow> store \<Rightarrow> bool" where
  "wp R A (Ret x) Q s = Q x s"
| "wp R A (Op c k) Q s =
     (\<forall>s1. R s s1 \<longrightarrow> A c \<longrightarrow> (\<forall>r s2. outcome c s1 r s2 \<longrightarrow> R s1 s2 \<and> wp R A (k r) Q s2))"

lemma wp_mono: "wp R A m Q s \<Longrightarrow> (\<And>x s'. Q x s' \<Longrightarrow> Q' x s') \<Longrightarrow> wp R A m Q' s"
  by (induction m arbitrary: s) auto

lemma wp_bind: "wp R A m (\<lambda>x. wp R A (f x) Q) s \<Longrightarrow> wp R A (prog_bind m f) Q s"
  by (induction m arbitrary: s) auto

lemma wp_io_bind:
  "wp R A m (\<lambda>r s'. case r of Inl e \<Rightarrow> Q (Inl e) s' | Inr x \<Rightarrow> wp R A (f x) Q s') s \<Longrightarrow>
   wp R A (io_bind m f) Q s"
  unfolding io_bind_def by (rule wp_bind) (erule wp_mono, auto split: sum.splits)

lemma wp_io_catch:
  "wp R A m (\<lambda>r s'. case r of Inl e \<Rightarrow> wp R A (h e) Q s' | Inr x \<Rightarrow> Q (Inr x) s') s \<Longrightarrow>
   wp R A (io_catch m h) Q s"
  unfolding io_catch_def by (rule wp_bind) (erule wp_mono, auto split: sum.splits)

text \<open>A program's precondition survives the others' steps, its postcondition permitting.\<close>

lemma wp_stable:
  assumes "transp R" "\<And>x s s'. Q x s \<Longrightarrow> R s s' \<Longrightarrow> Q x s'"
  shows "wp R A m Q s \<Longrightarrow> R s s' \<Longrightarrow> wp R A m Q s'"
  using assms by (cases m) (auto dest: transpD)

text \<open>Alone and without faults, a program ends in its postcondition.\<close>

lemma wp_run: "reflp R \<Longrightarrow> wp R (\<lambda>_. True) m Q s \<Longrightarrow> run m s = (x, s') \<Longrightarrow> Q x s'"
proof (induction m arbitrary: s)
  case (Op c k)
  obtain r s2 where e: "exec c s = (r, s2)" by fastforce
  with Op.prems have "wp R (\<lambda>_. True) (k r) Q s2"
    using reflpD [of R s] outcome_ok [of c s r s2] by auto
  then show ?case using Op.IH [of "k r" s2] Op.prems e by (auto simp: Let_def)
qed auto

text \<open>
  The rules for the four calls. \<open>R\<close> is reflexive and transitive: no call, or any number of
  calls, may come between.
\<close>

locale interference =
  fixes R :: "store \<Rightarrow> store \<Rightarrow> bool" and A :: "call \<Rightarrow> bool"
  assumes R_refl: "R s s"
    and R_trans: "R s1 s2 \<Longrightarrow> R s2 s3 \<Longrightarrow> R s1 s3"
begin

lemma wp_get:
  assumes "valid_key k"
    and "\<And>s1. R s s1 \<Longrightarrow> Q (Inr (map_option (\<lambda>v. (body v, etag v)) (lookup s1 k))) s1"
    and "\<And>s1 e. R s s1 \<Longrightarrow> Q (Inl e) s1"
  shows "wp R A (io_get k) Q s"
  using assms R_refl by (auto simp: io_get_def mem.get_reads elim!: outcomeE)

lemma wp_put:
  assumes "\<And>s1 r s2. R s s1 \<Longrightarrow> A (Put k b opts) \<Longrightarrow> memory_put k b opts s1 = (r, s2) \<Longrightarrow>
      R s1 s2 \<and> Q r s2 \<and> (\<forall>e. may_lose_ack e \<longrightarrow> Q (Inl e) s2)"
    and "\<And>s1 e. R s s1 \<Longrightarrow> Q (Inl e) s1"
  shows "wp R A (io_put k b opts) Q s"
proof -
  have *: "R s1 s2 \<and> wp R A ((\<lambda>r. case r of RPut t \<Rightarrow> io_return t | RErr e \<Rightarrow> Ret (Inl e) | _ \<Rightarrow> io_throw Internal) r) Q s2"
    if "R s s1" "outcome (Put k b opts) s1 r s2" "A (Put k b opts)" for s1 r s2
    using that(2)
  proof cases
    case outcome_ok
    then show ?thesis using assms(1) [OF that(1,3)]
      by (auto split: prod.splits sum.splits)
  next
    case (outcome_fail e)
    then show ?thesis using assms(2) [OF that(1)] R_refl by simp
  next
    case (outcome_lost e r')
    then show ?thesis using assms(1) [OF that(1,3)]
      by (auto split: prod.splits sum.splits)
  qed
  then show ?thesis by (simp add: io_put_def)
qed

lemma wp_delete:
  assumes "\<And>s1 r s2. R s s1 \<Longrightarrow> memory_delete k s1 = (r, s2) \<Longrightarrow>
      R s1 s2 \<and> Q r s2 \<and> (\<forall>e. Q (Inl e) s2)"
    and "\<And>s1 e. R s s1 \<Longrightarrow> Q (Inl e) s1"
  shows "wp R A (io_delete k) Q s"
proof -
  have "R s1 s2 \<and> wp R A ((\<lambda>r. case r of RDone \<Rightarrow> io_return () | RErr e \<Rightarrow> Ret (Inl e) | _ \<Rightarrow> io_throw Internal) r) Q s2"
    if "R s s1" "outcome (Delete k) s1 r s2" for s1 r s2
    using that(2)
  proof cases
    case outcome_ok
    then show ?thesis using assms(1) [OF that(1)]
      by (auto split: prod.splits sum.splits)
  next
    case (outcome_fail e)
    then show ?thesis using assms(2) [OF that(1)] R_refl by simp
  next
    case (outcome_lost e r')
    then show ?thesis using assms(1) [OF that(1)]
      by (auto split: prod.splits sum.splits)
  qed
  then show ?thesis by (simp add: io_delete_def)
qed

lemma wp_list:
  assumes "\<And>s1. R s s1 \<Longrightarrow> Q (Inr (memory_list p a n s1)) s1"
    and "\<And>s1 e. R s s1 \<Longrightarrow> Q (Inl e) s1"
  shows "wp R A (io_list p a n) Q s"
  using assms R_refl by (auto simp: io_list_def elim!: outcomeE)

lemma wp_ret: "Q x s \<Longrightarrow> wp R A (Ret x) Q s"
  by simp

lemma wp_lift: "Q x s \<Longrightarrow> wp R A (io_lift x) Q s"
  by (simp add: io_lift_def)

text \<open>Facts that interference keeps can be carried along any program.\<close>

lemma wp_frame:
  assumes "wp R A m Q s" "I s" "\<And>s s'. I s \<Longrightarrow> R s s' \<Longrightarrow> I s'"
  shows "wp R A m (\<lambda>x s'. Q x s' \<and> I s') s"
  using assms(1,2)
proof (induction m arbitrary: s)
  case (Op c k)
  have "wp R A (k r) (\<lambda>x s'. Q x s' \<and> I s') s2 \<and> R s1 s2" if "R s s1" "A c" "outcome c s1 r s2" for s1 r s2
  proof -
    from Op.prems(1) that have "R s1 s2" "wp R A (k r) Q s2" by auto
    moreover have "I s2" using assms(3) Op.prems(2) that(1) \<open>R s1 s2\<close> by blast
    ultimately show ?thesis using Op.IH [of "k r" s2] by simp
  qed
  then show ?case by auto
qed simp

text \<open>Sequencing by an intermediate assertion on the successful results.\<close>

lemma wp_seq:
  assumes "wp R A m (\<lambda>r s'. \<forall>x. r = Inr x \<longrightarrow> X x s') s"
    and "\<And>x s'. R s s' \<Longrightarrow> X x s' \<Longrightarrow> wp R A (f x) Q s'"
    and "\<And>e s'. R s s' \<Longrightarrow> Q (Inl e) s'"
  shows "wp R A (io_bind m f) Q s"
proof (rule wp_io_bind)
  have "wp R A m (\<lambda>r s'. (\<forall>x. r = Inr x \<longrightarrow> X x s') \<and> R s s') s"
    by (rule wp_frame [where I = "R s", OF assms(1)]) (auto intro: R_refl R_trans)
  then show "wp R A m (\<lambda>r s'. case r of Inl e \<Rightarrow> Q (Inl e) s' | Inr x \<Rightarrow> wp R A (f x) Q s') s"
    by (rule wp_mono) (use assms(2,3) in \<open>auto split: sum.splits\<close>)
qed

lemma wp_delete_all:
  assumes "\<And>k s1 r s2. k \<in> set ks \<Longrightarrow> R s s1 \<Longrightarrow> memory_delete k s1 = (r, s2) \<Longrightarrow> R s1 s2"
  shows "wp R A (delete_all ks) (\<lambda>_ _. True) s"
  using assms
proof (induction ks arbitrary: s)
  case (Cons k ks)
  have "wp R A (io_delete k) (\<lambda>_. R s) s"
  proof (rule wp_delete)
    fix s1 r s2 assume s1: "R s s1" and "memory_delete k s1 = (r, s2)"
    then have "R s1 s2" using Cons.prems [of k s1 r s2] by simp
    then show "R s1 s2 \<and> R s s2 \<and> (\<forall>e. R s s2)" using R_trans [OF s1] by simp
  qed
  moreover have "wp R A (delete_all ks) (\<lambda>_ _. True) s1" if "R s s1" for s1
  proof (rule Cons.IH)
    fix k' s2 r s3 assume "k' \<in> set ks" "R s1 s2" "memory_delete k' s2 = (r, s3)"
    then show "R s2 s3" using Cons.prems [of k' s2 r s3] R_trans [OF that] by simp
  qed
  ultimately show ?case
    unfolding delete_all.simps
    by (intro wp_bind, elim wp_mono, intro wp_bind) (rule wp_mono, auto)
qed simp

lemma wp_since: "wp R A m Q s \<Longrightarrow> wp R A m (\<lambda>x s'. Q x s' \<and> R s s') s"
  by (rule wp_frame [where I = "R s"]) (auto intro: R_refl R_trans)

end

section \<open>Threads\<close>

text \<open>
  A system of any number of threads over one store. A step lets one thread perform its next call,
  with any of the outcomes above, or starts a new program, one of those that may start in this state.
\<close>

inductive sys_step ::
  "(store \<Rightarrow> 'a prog set) \<Rightarrow> (call \<Rightarrow> bool) \<Rightarrow> store \<times> 'a prog list \<Rightarrow> store \<times> 'a prog list \<Rightarrow> bool"
  for progs A where
  sys_call: "i < length ts \<Longrightarrow> ts ! i = Op c k \<Longrightarrow> A c \<Longrightarrow> outcome c s r s' \<Longrightarrow>
    sys_step progs A (s, ts) (s', ts[i := k r])"
| sys_spawn: "m \<in> progs s \<Longrightarrow> sys_step progs A (s, ts) (s, ts @ [m])"

abbreviation sys_reach ::
  "(store \<Rightarrow> 'a prog set) \<Rightarrow> (call \<Rightarrow> bool) \<Rightarrow> store \<times> 'a prog list \<Rightarrow> store \<times> 'a prog list \<Rightarrow> bool" where
  "sys_reach progs A \<equiv> (sys_step progs A)\<^sup>*\<^sup>*"

context interference
begin

text \<open>Each thread has its own postcondition, by its position; those from \<open>n\<close> on may be started at any time.\<close>

lemma sys_step_sound:
  assumes step: "sys_step progs A (s, ts) (s', ts')"
    and progs: "\<And>m s i. m \<in> progs s \<Longrightarrow> I s \<Longrightarrow> n \<le> i \<Longrightarrow> wp R A m (Q i) s"
    and threads: "\<forall>i < length ts. wp R A (ts ! i) (Q i) s" "n \<le> length ts" and "I s"
    and stable: "\<And>i x s s'. Q i x s \<Longrightarrow> R s s' \<Longrightarrow> Q i x s'"
  shows "R s s' \<and> length ts \<le> length ts' \<and> (\<forall>i < length ts'. wp R A (ts' ! i) (Q i) s')"
  using step
proof cases
  case (sys_call j c k r)
  then have "wp R A (Op c k) (Q j) s" using threads(1) by metis
  then have rel: "R s s'" and cont: "wp R A (k r) (Q j) s'"
    using sys_call R_refl by auto
  have "wp R A (ts ! i) (Q i) s'" if "i < length ts" for i
    using wp_stable [of R "Q i" A "ts ! i" s s'] threads(1) that rel R_trans stable by (metis transpI)
  then show ?thesis using rel cont sys_call by (auto simp: nth_list_update)
next
  case (sys_spawn m)
  then show ?thesis using threads progs [of m s "length ts"] \<open>I s\<close> R_refl by (auto simp: nth_append less_Suc_eq)
qed

text \<open>The invariant holds at every moment, and a thread that has returned has met its postcondition.\<close>

theorem sys_reach_sound:
  assumes reach: "sys_reach progs A (s0, ts0) (s, ts)"
    and progs: "\<And>m s i. m \<in> progs s \<Longrightarrow> I s \<Longrightarrow> length ts0 \<le> i \<Longrightarrow> wp R A m (Q i) s"
    and threads: "\<forall>i < length ts0. wp R A (ts0 ! i) (Q i) s0" and "I s0"
    and I_stable: "\<And>s s'. I s \<Longrightarrow> R s s' \<Longrightarrow> I s'"
    and Q_stable: "\<And>i x s s'. Q i x s \<Longrightarrow> R s s' \<Longrightarrow> Q i x s'"
  shows "I s \<and> R s0 s \<and> length ts0 \<le> length ts \<and> (\<forall>i < length ts. wp R A (ts ! i) (Q i) s)"
  using reach
proof (induction s ts rule: rtranclp_induct2)
  case refl
  then show ?case using assms R_refl by simp
next
  case (step s ts s' ts')
  then have "R s s' \<and> length ts \<le> length ts' \<and> (\<forall>i < length ts'. wp R A (ts' ! i) (Q i) s')"
    by (intro sys_step_sound [OF step(2), of I "length ts0" Q]) (auto intro: progs Q_stable)
  then show ?case using step(3) I_stable [of s s'] R_trans [of s0 s s'] by simp
qed

end

end
