(* ===== verification/LogWalk.thy ===== *)
theory LogWalk
  imports Prog
begin

text \<open>
  \<^verbatim>\<open>packages/server/src/log-walk.ts\<close>: reading a range of log slots in bounded chunks and folding
  entries onto a map of documents. The reads of a chunk are issued together in the code; they do not
  depend on each other and change nothing, so the model issues them one by one. Shown here: the
  chunked walk is the plain walk of the range, and the fold is "the last write of a document wins".
\<close>

section \<open>Model\<close>

definition MAX_PARALLEL_LOG_READS :: nat where "MAX_PARALLEL_LOG_READS = 16"

text \<open>\<open>bytes\<close> stands for \<^verbatim>\<open>body.byteLength\<close>.\<close>

definition readLogEntryWithBytes :: "(blob \<Rightarrow> nat) \<Rightarrow> string \<Rightarrow> (log_entry \<times> nat) io" where
  "readLogEntryWithBytes bytes key =
     io_bind (io_get key) (\<lambda>got.
     case got of None \<Rightarrow> io_throw Internal
     | Some (b, _) \<Rightarrow>
         (case decode_log_entry b of
            Some e \<Rightarrow> io_return (e, bytes b)
          | None \<Rightarrow> io_throw InvalidResponse))"

definition readLogEntry :: "(blob \<Rightarrow> nat) \<Rightarrow> string \<Rightarrow> log_entry io" where
  "readLogEntry bytes key = io_bind (readLogEntryWithBytes bytes key) (\<lambda>got. io_return (fst got))"

text \<open>\<^verbatim>\<open>Promise.all\<close> over the slots of one chunk.\<close>

fun read_slots :: "(blob \<Rightarrow> nat) \<Rightarrow> string \<Rightarrow> nat list \<Rightarrow> (log_entry \<times> nat) list io" where
  "read_slots bytes logPrefix [] = io_return []"
| "read_slots bytes logPrefix (n # ns) =
     io_bind (readLogEntryWithBytes bytes (logObjectKey logPrefix n)) (\<lambda>x.
     io_bind (read_slots bytes logPrefix ns) (\<lambda>xs. io_return (x # xs)))"

function walk_chunks ::
  "(blob \<Rightarrow> nat) \<Rightarrow> string \<Rightarrow> nat \<Rightarrow> nat \<Rightarrow> nat \<Rightarrow> (log_entry \<times> nat) list \<Rightarrow> (log_entry \<times> nat) list io" where
  "walk_chunks bytes logPrefix fromSeq count chunkStart out =
     (if chunkStart < count then
        (let chunkEnd = min (chunkStart + MAX_PARALLEL_LOG_READS) count in
         io_bind (read_slots bytes logPrefix [fromSeq + chunkStart ..< fromSeq + chunkEnd]) (\<lambda>results.
         walk_chunks bytes logPrefix fromSeq count (chunkStart + MAX_PARALLEL_LOG_READS) (out @ results)))
      else io_return out)"
  by pat_completeness auto
termination
  by (relation "measure (\<lambda>(_, _, _, count, chunkStart, _). count - chunkStart)")
    (auto simp: MAX_PARALLEL_LOG_READS_def)

declare walk_chunks.simps [simp del]

definition walkLogRangeWithBytes ::
  "(blob \<Rightarrow> nat) \<Rightarrow> string \<Rightarrow> nat \<Rightarrow> nat \<Rightarrow> (log_entry \<times> nat) list io" where
  "walkLogRangeWithBytes bytes logPrefix fromSeq toSeqExclusive =
     (if fromSeq \<ge> toSeqExclusive then io_return []
      else walk_chunks bytes logPrefix fromSeq (toSeqExclusive - fromSeq) 0 [])"

definition walkLogRange :: "(blob \<Rightarrow> nat) \<Rightarrow> string \<Rightarrow> nat \<Rightarrow> nat \<Rightarrow> log_entry list io" where
  "walkLogRange bytes logPrefix fromSeq toSeqExclusive =
     io_bind (walkLogRangeWithBytes bytes logPrefix fromSeq toSeqExclusive) (\<lambda>rs. io_return (map fst rs))"

text \<open>The fold. A map is an association list in insertion order.\<close>

definition fold_entry ::
  "string \<Rightarrow> string set option \<Rightarrow> log_entry \<Rightarrow> (string \<times> doc) list \<Rightarrow> (string \<times> doc) list" where
  "fold_entry coll docIdFilter entry m =
     (if le_collection entry \<noteq> coll then m
      else (case le_doc_id entry of
         None \<Rightarrow> m
       | Some d \<Rightarrow>
           if (case docIdFilter of None \<Rightarrow> False | Some F \<Rightarrow> d \<notin> F) then m
           else (case le_op entry of
              OpD \<Rightarrow> obj_del d m
            | _ \<Rightarrow> (case le_after entry of None \<Rightarrow> m | Some a \<Rightarrow> obj_set d a m))))"

definition foldLogEntriesOnto ::
  "(string \<times> doc) list \<Rightarrow> log_entry list \<Rightarrow> string \<Rightarrow> string set option \<Rightarrow> (string \<times> doc) list" where
  "foldLogEntriesOnto m entries coll docIdFilter =
     fold (fold_entry coll docIdFilter) entries m"

section \<open>The walk\<close>

lemma prog_bind_assoc: "prog_bind (prog_bind m f) g = prog_bind m (\<lambda>x. prog_bind (f x) g)"
  by (induction m) auto

lemma io_bind_assoc: "io_bind (io_bind m f) g = io_bind m (\<lambda>x. io_bind (f x) g)"
  unfolding io_bind_def prog_bind_assoc by (rule arg_cong [where f = "prog_bind m"]) (auto split: sum.splits)

lemma io_bind_return [simp]: "io_bind (io_return x) f = f x"
  by (simp add: io_bind_def)

lemma io_bind_return_right [simp]: "io_bind m io_return = m"
proof -
  have "prog_bind m Ret = m" for m :: "'b prog"
    by (induction m) auto
  moreover have "(\<lambda>r. case r of Inl e \<Rightarrow> Ret (Inl e) | Inr x \<Rightarrow> io_return x) = (Ret :: 'a result \<Rightarrow> 'a io)"
    by (auto split: sum.splits)
  ultimately show ?thesis by (simp add: io_bind_def)
qed

lemma read_slots_append:
  "read_slots bytes p (ns @ ms) =
     io_bind (read_slots bytes p ns) (\<lambda>xs. io_bind (read_slots bytes p ms) (\<lambda>ys. io_return (xs @ ys)))"
  by (induction ns) (simp_all add: io_bind_assoc)

lemma walk_chunks_plain:
  "walk_chunks bytes p from count start out =
     io_bind (read_slots bytes p [from + start ..< from + count]) (\<lambda>xs. io_return (out @ xs))"
proof (induction bytes p "from" count start out rule: walk_chunks.induct)
  case (1 bytes p "from" count start out)
  show ?case
  proof (cases "start < count")
    case True
    let ?until = "min (start + MAX_PARALLEL_LOG_READS) count"
    have "[from + start ..< from + count] = [from + start ..< from + ?until] @ [from + ?until ..< from + count]"
      using True upt_add_eq_append [of "from + start" "from + ?until" "from + count - (from + ?until)"] by simp
    moreover have "[from + ?until ..< from + count] = [from + (start + MAX_PARALLEL_LOG_READS) ..< from + count]"
      by (cases "start + MAX_PARALLEL_LOG_READS \<le> count") (auto simp: min_def)
    ultimately show ?thesis
      using 1 [OF True] True
      by (subst walk_chunks.simps) (simp add: Let_def read_slots_append io_bind_assoc)
  next
    case False
    then show ?thesis by (subst walk_chunks.simps) simp
  qed
qed

lemma walkLogRangeWithBytes_plain:
  "walkLogRangeWithBytes bytes p from to = read_slots bytes p [from ..< to]"
  by (simp add: walkLogRangeWithBytes_def walk_chunks_plain)

lemma run_read_slot:
  assumes "valid_key p"
  shows "run (readLogEntryWithBytes bytes (logObjectKey p n)) s =
    (case lookup s (logObjectKey p n) of
       None \<Rightarrow> throw Internal
     | Some v \<Rightarrow> (case decode_log_entry (body v) of
         None \<Rightarrow> throw InvalidResponse | Some e \<Rightarrow> Inr (e, bytes (body v))), s)"
  using assms by (auto simp: readLogEntryWithBytes_def io_simps split: option.splits)

lemma run_read_slots:
  assumes "valid_key p" "\<And>n. n \<in> set ns \<Longrightarrow> \<exists>v. lookup s (logObjectKey p n) = Some v \<and> body v = BLog (h n)"
  shows "run (read_slots bytes p ns) s = (Inr (map (\<lambda>n. (h n, bytes (BLog (h n)))) ns), s)"
  using assms(2)
proof (induction ns)
  case (Cons n ns)
  from Cons.prems [of n] obtain v where "lookup s (logObjectKey p n) = Some v" "body v = BLog (h n)" by auto
  with Cons assms(1) show ?case by (simp add: io_simps run_read_slot)
qed simp

section \<open>The fold\<close>

text \<open>The effect of one entry on the document \<open>d\<close>: nothing, or its new state.\<close>

definition entry_effect :: "string \<Rightarrow> string set option \<Rightarrow> string \<Rightarrow> log_entry \<Rightarrow> doc option option" where
  "entry_effect coll F d e =
     (if le_collection e = coll \<and> le_doc_id e = Some d \<and> (\<forall>X. F = Some X \<longrightarrow> d \<in> X)
      then (case le_op e of OpD \<Rightarrow> Some None
            | _ \<Rightarrow> (case le_after e of None \<Rightarrow> None | Some a \<Rightarrow> Some (Some a)))
      else None)"

text \<open>The specification: the last entry with an effect decides.\<close>

fun last_effect :: "string \<Rightarrow> string set option \<Rightarrow> string \<Rightarrow> doc option \<Rightarrow> log_entry list \<Rightarrow> doc option" where
  "last_effect coll F d base [] = base"
| "last_effect coll F d base (e # es) =
     (case entry_effect coll F d e of
        None \<Rightarrow> last_effect coll F d base es
      | Some v \<Rightarrow> last_effect coll F d v es)"

lemma fold_entry_map:
  "map_of (fold_entry coll F e m) d =
     (case entry_effect coll F d e of None \<Rightarrow> map_of m d | Some v \<Rightarrow> v)"
  by (auto simp: fold_entry_def entry_effect_def split: option.splits log_op.splits)

lemma fold_distinct:
  "distinct (obj_keys m) \<Longrightarrow> distinct (obj_keys (foldLogEntriesOnto m es coll F))"
proof (induction es arbitrary: m)
  case (Cons e es)
  have "distinct (obj_keys (fold_entry coll F e m))"
    using Cons.prems by (auto simp: fold_entry_def split: option.splits log_op.splits)
  with Cons.IH show ?case by (simp add: foldLogEntriesOnto_def)
qed (simp add: foldLogEntriesOnto_def)

lemma fold_map: "map_of (foldLogEntriesOnto m es coll F) d = last_effect coll F d (map_of m d) es"
proof (induction es arbitrary: m)
  case (Cons e es)
  then show ?case
    by (auto simp: foldLogEntriesOnto_def fold_entry_map split: option.splits)
qed (simp add: foldLogEntriesOnto_def)

lemma last_effect_append:
  "last_effect coll F d base (es @ fs) = last_effect coll F d (last_effect coll F d base es) fs"
  by (induction es arbitrary: base) (auto split: option.splits)

lemma fold_append:
  "foldLogEntriesOnto m (es @ fs) coll F = foldLogEntriesOnto (foldLogEntriesOnto m es coll F) fs coll F"
  by (simp add: foldLogEntriesOnto_def)

section \<open>Properties\<close>

text \<open>
  Walking a range in chunks of sixteen parallel reads is the plain walk of the range: it
  issues one read per slot, in sequence order, and returns the entries in that order.
\<close>

theorem chunked_walk_is_plain_walk:
  "walkLogRangeWithBytes bytes p from to = read_slots bytes p [from ..< to]"
  by (rule walkLogRangeWithBytes_plain)

text \<open>
  (C22) The fold gives each document the state of the last entry that concerns it (its post-image,
  or absence after a delete) and leaves every other document as it was; folding a log in two parts
  is folding it whole.
\<close>

theorem fold_last_write_wins:
  "map_of (foldLogEntriesOnto m (es @ fs) coll F) d =
     last_effect coll F d (last_effect coll F d (map_of m d) es) fs \<and>
   foldLogEntriesOnto m (es @ fs) coll F = foldLogEntriesOnto (foldLogEntriesOnto m es coll F) fs coll F"
  by (simp only: fold_map last_effect_append fold_append)

end
