(* ===== verification/Snapshot.thy ===== *)
theory Snapshot
  imports LogWalk
begin

text \<open>
  \<^verbatim>\<open>packages/server/src/snapshot.ts\<close>: the content-addressed snapshot file. \<open>sha\<close> stands for
  \<^verbatim>\<open>snapshotHash\<close> (SHA-256 of the encoded body, from the platform). A stored body is \<open>BSnap\<close> of what
  the JSON text says, so \<^verbatim>\<open>encodeSnapshotBody\<close> puts every document through the wire form and
  \<^verbatim>\<open>decodeJsonBytes\<close> is the pattern match of the loader. Shown here: loading the file
  a key names returns the documents it was written with in their wire form (the documents themselves
  when they came from decoded log entries), the canonical body depends on the folded
  documents only, and a key determines its range and hash.
\<close>

section \<open>Model\<close>

definition SNAPSHOT_SCHEMA_VERSION :: nat where "SNAPSHOT_SCHEMA_VERSION = 1"
definition SEQ_DIGITS :: nat where "SEQ_DIGITS = 12"
definition MAX_SEQ :: nat where "MAX_SEQ = 10 ^ SEQ_DIGITS - 1"

definition pad :: "nat \<Rightarrow> string" where
  "pad n = padStart SEQ_DIGITS (CHR ''0'') (show_nat n)"

definition is_hex_lower :: "char \<Rightarrow> bool" where
  "is_hex_lower c = (c \<in> set ''0123456789abcdef'')"

definition is_sha256 :: "string \<Rightarrow> bool" where
  "is_sha256 h = (length h = 64 \<and> list_all is_hex_lower h)"

definition snapshot_file :: "nat \<Rightarrow> nat \<Rightarrow> string \<Rightarrow> string" where
  "snapshot_file lo hi hash = pad lo @ ''-'' @ pad hi @ ''-'' @ hash @ ''.json''"

definition snapshotKey :: "string \<Rightarrow> nat \<Rightarrow> nat \<Rightarrow> string \<Rightarrow> string result" where
  "snapshotKey collectionPrefix lo hi hash =
     (if lo > hi \<or> hi > MAX_SEQ then throw InvalidConfig
      else if \<not> is_sha256 hash then throw InvalidConfig
      else Inr (snapshotPrefix collectionPrefix @ snapshot_file lo hi hash))"

text \<open>\<^verbatim>\<open>key.slice(key.lastIndexOf(c) + 1)\<close>.\<close>

definition after_last :: "char \<Rightarrow> string \<Rightarrow> string" where
  "after_last c s = last (split_on c s)"

definition strip_json :: "string \<Rightarrow> string" where
  "strip_json s = (if length s \<ge> 5 \<and> drop (length s - 5) s = ''.json'' then take (length s - 5) s else s)"

definition expected_hash :: "string \<Rightarrow> string" where
  "expected_hash key = after_last (CHR ''-'') (strip_json (after_last (CHR ''/'') key))"

text \<open>\<^verbatim>\<open>new Map\<close> filled row by row.\<close>

definition rows_to_map :: "(string \<times> doc) list \<Rightarrow> (string \<times> doc) list" where
  "rows_to_map rows = fold (\<lambda>(i, b) m. obj_set i b m) rows []"

definition encodeSnapshotBody :: "snapshot_body \<Rightarrow> blob" where
  "encodeSnapshotBody sb = BSnap (sb\<lparr>sn_docs := map (\<lambda>(i, d). (i, doc_wire d)) (sn_docs sb)\<rparr>)"

definition loadSnapshotAsMap :: "(blob \<Rightarrow> string) \<Rightarrow> string \<Rightarrow> string \<Rightarrow> (string \<times> doc) list io" where
  "loadSnapshotAsMap sha key expectedCollection =
     io_bind (io_get key) (\<lambda>got.
     case got of None \<Rightarrow> io_throw Internal
     | Some (b, _) \<Rightarrow>
         if sha b \<noteq> expected_hash key then io_throw Internal
         else (case b of
             BSnap sb \<Rightarrow>
               if sn_schema_version sb \<noteq> SNAPSHOT_SCHEMA_VERSION then io_throw InvalidResponse
               else if sn_collection sb \<noteq> expectedCollection then io_throw InvalidResponse
               else io_return (rows_to_map (sn_docs sb))
           | _ \<Rightarrow> io_throw InvalidResponse))"

text \<open>\<^verbatim>\<open>Array.from(base.entries()).toSorted(...)\<close> of the compactor: rows in order of their id.\<close>

definition compare_ids :: "string \<times> 'a \<Rightarrow> string \<times> 'a \<Rightarrow> int" where
  "compare_ids x y = (if fst x < fst y then -1 else if fst x > fst y then 1 else 0)"

definition canonical_body :: "string \<Rightarrow> nat \<Rightarrow> (string \<times> doc) list \<Rightarrow> snapshot_body" where
  "canonical_body coll foldEnd base =
     \<lparr>sn_schema_version = SNAPSHOT_SCHEMA_VERSION, sn_min_seq = 0, sn_max_seq = foldEnd,
      sn_collection = coll, sn_docs = toSorted compare_ids base\<rparr>"

text \<open>\<^verbatim>\<open>parseMaxSeqFromCanonicalSnapshotKey\<close> of \<^verbatim>\<open>gc.ts\<close>.\<close>

definition is_digits :: "nat \<Rightarrow> string \<Rightarrow> bool" where
  "is_digits n s = (length s = n \<and> list_all (\<lambda>c. CHR ''0'' \<le> c \<and> c \<le> CHR ''9'') s)"

definition parseMaxSeqFromCanonicalSnapshotKey :: "string \<Rightarrow> string \<Rightarrow> nat option" where
  "parseMaxSeqFromCanonicalSnapshotKey key collectionPrefix =
     (if \<not> startsWith key (snapshotPrefix collectionPrefix) then None
      else (case split_on (CHR ''-'') (drop (length (snapshotPrefix collectionPrefix)) key) of
         [lo, hi, rest] \<Rightarrow>
           if is_digits 12 lo \<and> is_digits 12 hi \<and> length rest = 69 \<and>
              is_sha256 (take 64 rest) \<and> drop 64 rest = ''.json''
           then (let l = parse_digits 10 0 lo; h = parse_digits 10 0 hi in
                 if l \<le> h then Some h else None)
           else None
       | _ \<Rightarrow> None))"

section \<open>Sorting rows\<close>

lemma insert_by_ids: "insert_by compare_ids x xs = insort_key fst x xs"
  by (induction xs) (auto simp: compare_ids_def)

lemma toSorted_ids [simp]: "toSorted compare_ids xs = sort_key fst xs"
  by (induction xs) (simp_all add: toSorted_def insert_by_ids)

lemma map_fst_insort: "map fst (insort_key fst x xs) = insort (fst x) (map fst xs)"
  by (induction xs) auto

lemma map_fst_sort: "map fst (sort_key fst xs) = sort (map fst xs)"
  by (induction xs) (simp_all add: map_fst_insort)

lemma map_of_sort_key: "distinct (obj_keys xs) \<Longrightarrow> map_of (sort_key fst xs) = map_of xs"
  by (rule map_of_inject_set [THEN iffD2]) (auto simp: map_fst_sort)

lemma rows_by_keys: "distinct (obj_keys xs) \<Longrightarrow> xs = map (\<lambda>k. (k, the (map_of xs k))) (obj_keys xs)"
  by (rule nth_equalityI) (auto simp: prod_eq_iff, metis map_of_is_SomeI nth_mem option.sel prod.collapse)

text \<open>The sorted rows are a function of the map alone.\<close>

lemma sort_rows_unique:
  fixes xs ys :: "(string \<times> 'v) list"
  assumes "distinct (obj_keys xs)" "distinct (obj_keys ys)" "map_of xs = map_of ys"
  shows "sort_key fst xs = sort_key fst ys"
proof -
  have keys: "sort (obj_keys xs) = sort (obj_keys ys)"
    using assms by (intro sorted_distinct_set_unique) (auto simp: dom_map_of_conv_image_fst [symmetric])
  have by_keys: "sort_key fst zs = map (\<lambda>k. (k, the (map_of zs k))) (sort (obj_keys zs))"
    if "distinct (obj_keys zs)" for zs :: "(string \<times> 'v) list"
    using rows_by_keys [of "sort_key fst zs"] that map_of_sort_key [OF that] by (simp add: map_fst_sort)
  show ?thesis using by_keys [OF assms(1)] by_keys [OF assms(2)] keys assms(3) by simp
qed

lemma rows_to_map_append:
  fixes m rows :: "(string \<times> doc) list"
  shows "distinct (obj_keys (m @ rows)) \<Longrightarrow> fold (\<lambda>(i, b) m. obj_set i b m) rows m = m @ rows"
proof (induction rows arbitrary: m)
  case (Cons r rows)
  have "obj_set i b m = m @ [(i, b)]" if "i \<notin> set (obj_keys m)" for i b and m :: "(string \<times> doc) list"
    using that by (induction m) auto
  then show ?case using Cons by (cases r) auto
qed simp

lemma rows_to_map_id: "distinct (obj_keys rows) \<Longrightarrow> rows_to_map rows = rows"
  using rows_to_map_append [of "[]" rows] by (simp add: rows_to_map_def)

section \<open>Keys\<close>

lemma show_nat_length: "0 < k \<Longrightarrow> n < 10 ^ k \<Longrightarrow> length (show_nat n) \<le> k"
  by (simp add: toString_radix_conv radix_digits_length)

lemma pad_digits_form:
  "pad n = map digit_char (replicate (SEQ_DIGITS - length (radix_digits 10 n)) 0 @ radix_digits 10 n)"
  by (simp add: pad_def padStart_def toString_radix_conv digit_char_0)

lemma pad_length: "n \<le> MAX_SEQ \<Longrightarrow> length (pad n) = SEQ_DIGITS"
  using radix_digits_length [of 10 SEQ_DIGITS n]
  by (simp add: pad_digits_form MAX_SEQ_def SEQ_DIGITS_def)

lemma digit_char_decimal: "d < 10 \<Longrightarrow> CHR ''0'' \<le> digit_char d \<and> digit_char d \<le> CHR ''9''"
  by (simp add: digit_char_def less_eq_char_def of_char_of)

lemma pad_decimal: "c \<in> set (pad n) \<Longrightarrow> CHR ''0'' \<le> c \<and> c \<le> CHR ''9''"
  using radix_digits_bound [of 10 _ n] digit_char_decimal
  by (fastforce simp: pad_digits_form split: if_splits)

lemma pad_no_dash [simp]: "CHR ''-'' \<notin> set (pad n)" "CHR ''/'' \<notin> set (pad n)"
  using pad_decimal [of "CHR ''-''" n] pad_decimal [of "CHR ''/''" n] by (auto simp: less_eq_char_def)

lemma parse_pad: "parse_digits 10 0 (pad n) = n"
proof -
  have "\<forall>d \<in> set (replicate (SEQ_DIGITS - length (radix_digits 10 n)) 0 @ radix_digits 10 n). d < 10"
    using radix_digits_bound [of 10 _ n] by auto
  then show ?thesis
    by (simp only: pad_digits_form parse_digits_map) (simp add: radix_digits_value)
qed

lemma sha_no_special [simp]:
  assumes "is_sha256 h"
  shows "CHR ''-'' \<notin> set h" "CHR ''/'' \<notin> set h"
proof -
  have "\<not> is_hex_lower (CHR ''-'')" "\<not> is_hex_lower (CHR ''/'')" by (simp_all add: is_hex_lower_def)
  then show "CHR ''-'' \<notin> set h" "CHR ''/'' \<notin> set h"
    using assms by (auto simp: is_sha256_def list_all_iff)
qed

lemma snapshot_file_split:
  "is_sha256 h \<Longrightarrow> split_on (CHR ''-'') (snapshot_file lo hi h) = [pad lo, pad hi, h @ ''.json'']"
  by (simp add: snapshot_file_def split_on_append split_on_notin)

lemma snapshot_file_no_slash: "is_sha256 h \<Longrightarrow> CHR ''/'' \<notin> set (snapshot_file lo hi h)"
  by (simp add: snapshot_file_def)

lemma strip_json_append: "strip_json (x @ ''.json'') = x"
  by (simp add: strip_json_def)

lemma snapshotKey_Inr:
  "snapshotKey p lo hi h = Inr k \<longleftrightarrow>
     lo \<le> hi \<and> hi \<le> MAX_SEQ \<and> is_sha256 h \<and> k = snapshotPrefix p @ snapshot_file lo hi h"
  by (auto simp: snapshotKey_def)

lemma after_last_slash:
  assumes "CHR ''/'' \<notin> set f"
  shows "after_last (CHR ''/'') (snapshotPrefix p @ f) = f"
  using split_on_append_sep [of "CHR ''/''" "p @ ''/snapshot/L9''" f] assms
  by (simp add: after_last_def snapshotPrefix_def)

lemma expected_hash_key:
  assumes "snapshotKey p lo hi h = Inr k"
  shows "expected_hash k = h"
proof -
  have sha: "is_sha256 h" and k: "k = snapshotPrefix p @ snapshot_file lo hi h"
    using assms by (simp_all add: snapshotKey_Inr)
  have "after_last (CHR ''/'') k = (pad lo @ ''-'' @ pad hi @ ''-'' @ h) @ ''.json''"
    using after_last_slash [OF snapshot_file_no_slash [OF sha]] k by (simp add: snapshot_file_def)
  then have "strip_json (after_last (CHR ''/'') k) = pad lo @ ''-'' @ pad hi @ ''-'' @ h"
    by (simp only: strip_json_append)
  then show ?thesis using sha by (simp add: expected_hash_def after_last_def split_on_append split_on_notin)
qed

lemma parse_snapshotKey:
  assumes "snapshotKey p lo hi h = Inr k"
  shows "parseMaxSeqFromCanonicalSnapshotKey k p = Some hi"
proof -
  have *: "lo \<le> hi" "hi \<le> MAX_SEQ" "is_sha256 h" "k = snapshotPrefix p @ snapshot_file lo hi h"
    using assms by (simp_all add: snapshotKey_Inr)
  then have "is_digits 12 (pad lo)" "is_digits 12 (pad hi)"
    using pad_length [of lo] pad_length [of hi] pad_decimal
    by (auto simp: is_digits_def SEQ_DIGITS_def list_all_iff)
  moreover have "length h = 64" using *(3) by (simp add: is_sha256_def)
  ultimately show ?thesis
    using * by (simp add: parseMaxSeqFromCanonicalSnapshotKey_def startsWith_def snapshot_file_split parse_pad)
qed

lemma snapshotKey_inj:
  assumes "snapshotKey p lo hi h = Inr k" "snapshotKey p lo' hi' h' = Inr k"
  shows "hi = hi' \<and> h = h'"
  using expected_hash_key [OF assms(1)] expected_hash_key [OF assms(2)]
    parse_snapshotKey [OF assms(1)] parse_snapshotKey [OF assms(2)] by simp

lemma snapshotKey_prefix: "snapshotKey p lo hi h = Inr k \<Longrightarrow> \<exists>x. k = snapshotPrefix p @ x"
  by (auto simp: snapshotKey_Inr)

lemma parse_prefix: "parseMaxSeqFromCanonicalSnapshotKey k p = Some n \<Longrightarrow> \<exists>x. k = snapshotPrefix p @ x"
  by (auto simp: parseMaxSeqFromCanonicalSnapshotKey_def startsWith_def split: if_splits)
    (metis append_take_drop_id)

lemma snapshotKey_valid:
  assumes "valid_key p" "snapshotKey p lo hi h = Inr k"
  shows "valid_key k"
proof -
  have sha: "is_sha256 h" using assms(2) by (simp add: snapshotKey_Inr)
  have "split_on (CHR ''/'') (''snapshot/L9/'' @ snapshot_file lo hi h) = [''snapshot'', ''L9'', snapshot_file lo hi h]"
    using snapshot_file_no_slash [OF sha] by simp
  moreover have "snapshot_file lo hi h \<noteq> ''.'' \<and> snapshot_file lo hi h \<noteq> ''..''"
    using dot_json_not_dots [of "pad lo @ ''-'' @ pad hi @ ''-'' @ h"] by (simp add: snapshot_file_def)
  ultimately show ?thesis
    using valid_key_append [OF assms(1), of "''snapshot/L9/'' @ snapshot_file lo hi h"] assms(2)
    by (simp add: snapshotKey_Inr snapshotPrefix_def)
qed

section \<open>Loading\<close>

lemma run_load_snapshot:
  assumes "valid_key k" "lookup s k = Some v" "body v = BSnap sb" "sha (BSnap sb) = expected_hash k"
    and "sn_schema_version sb = SNAPSHOT_SCHEMA_VERSION" "sn_collection sb = coll"
  shows "run (loadSnapshotAsMap sha k coll) s = (Inr (rows_to_map (sn_docs sb)), s)"
  using assms by (simp add: loadSnapshotAsMap_def io_simps)

lemma canonical_rows:
  assumes "distinct (obj_keys m)"
  shows "rows_to_map (sn_docs (canonical_body coll n m)) = sort_key fst m"
    and "map_of (sort_key fst m) = map_of m"
    and "distinct (obj_keys (sort_key fst m))"
  using assms by (simp_all add: canonical_body_def rows_to_map_id map_fst_sort map_of_sort_key)

lemma canonical_body_unique:
  assumes "distinct (obj_keys xs)" "distinct (obj_keys ys)" "map_of xs = map_of ys"
  shows "canonical_body coll n xs = canonical_body coll n ys"
  using sort_rows_unique [OF assms] by (simp add: canonical_body_def)

section \<open>The encoded body\<close>

text \<open>
  The compactor builds its body from rows it decoded: those of the previous snapshot and the
  post-images of log entries. On such rows the encoding keeps every document, and a fold keeps them such.
\<close>

definition wire_rows :: "(string \<times> doc) list \<Rightarrow> bool" where
  "wire_rows m \<longleftrightarrow> (\<forall>(i, d) \<in> set m. doc_wire d = d)"

lemma wire_rows_id: "wire_rows m \<Longrightarrow> map (\<lambda>(i, d). (i, doc_wire d)) m = m"
  by (auto simp: wire_rows_def intro!: map_idI)

lemma encode_decoded: "wire_rows (sn_docs sb) \<Longrightarrow> encodeSnapshotBody sb = BSnap sb"
  by (simp add: encodeSnapshotBody_def wire_rows_id)

lemma wire_rows_set: "wire_rows m \<Longrightarrow> doc_wire d = d \<Longrightarrow> wire_rows (obj_set i d m)"
  by (induction m) (auto simp: wire_rows_def split: if_splits)

lemma wire_rows_del: "wire_rows m \<Longrightarrow> wire_rows (obj_del i m)"
  by (auto simp: wire_rows_def obj_del_def)

lemma wire_rows_fold:
  assumes "\<forall>e \<in> set es. \<forall>d. le_after e = Some d \<longrightarrow> doc_wire d = d"
  shows "wire_rows m \<Longrightarrow> wire_rows (foldLogEntriesOnto m es coll ids)"
  using assms
proof (induction es arbitrary: m)
  case (Cons e es)
  have "wire_rows (fold_entry coll ids e m)"
    using Cons.prems by (auto simp: fold_entry_def Let_def wire_rows_del wire_rows_set split: option.splits log_op.splits)
  then show ?case using Cons by (simp add: foldLogEntriesOnto_def)
qed (simp add: foldLogEntriesOnto_def)

lemma encode_canonical:
  "encodeSnapshotBody (canonical_body coll n m) = BSnap (canonical_body coll n (map (\<lambda>(i, d). (i, doc_wire d)) m))"
proof -
  have "insort_key fst (i, doc_wire d) (map (\<lambda>(i, d). (i, doc_wire d)) xs) =
      map (\<lambda>(i, d). (i, doc_wire d)) (insort_key fst (i, d) xs)" for i d and xs :: "(string \<times> doc) list"
    by (induction xs) auto
  then have "sort_key fst (map (\<lambda>(i, d). (i, doc_wire d)) m) = map (\<lambda>(i, d). (i, doc_wire d)) (sort_key fst m)"
    by (induction m) auto
  then show ?thesis by (simp add: encodeSnapshotBody_def canonical_body_def)
qed

section \<open>Properties\<close>

text \<open>
  (C23) A snapshot is read back as the documents it was built from. When the object under a snapshot
  key is the encoded canonical body of a document map, loading it returns exactly the ids of that map,
  each with its document in JSON wire form (numbers JSON cannot write are \<^verbatim>\<open>null\<close>); so the same
  map when its documents were decoded from JSON, as all the compactor folds are. The load is refused
  with \<^verbatim>\<open>InvalidResponse\<close> when another collection is expected, and with \<^verbatim>\<open>Internal\<close> when the body's hash is not
  the one in the file name.
\<close>

theorem snapshot_roundtrip:
  assumes "valid_key p" and "distinct (obj_keys m)"
    and "snapshotKey p 0 n (sha (encodeSnapshotBody (canonical_body coll n m))) = Inr k"
    and "lookup s k = Some v"
  shows "(body v = encodeSnapshotBody (canonical_body coll n m) \<longrightarrow>
      (\<exists>m'. run (loadSnapshotAsMap sha k coll) s = (Inr m', s) \<and>
         (\<forall>i. map_of m' i = map_option doc_wire (map_of m i)) \<and>
         (wire_rows m \<longrightarrow> map_of m' = map_of m)) \<and>
      (coll' \<noteq> coll \<longrightarrow> run (loadSnapshotAsMap sha k coll') s = (throw InvalidResponse, s))) \<and>
    (sha (body v) \<noteq> sha (encodeSnapshotBody (canonical_body coll n m)) \<longrightarrow>
      run (loadSnapshotAsMap sha k coll') s = (throw Internal, s))"
proof -
  let ?w = "map (\<lambda>(i, d). (i, doc_wire d)) m"
  let ?b = "canonical_body coll n ?w"
  have enc: "encodeSnapshotBody (canonical_body coll n m) = BSnap ?b" by (rule encode_canonical)
  have k: "valid_key k" "expected_hash k = sha (BSnap ?b)"
    using snapshotKey_valid [OF assms(1,3)] expected_hash_key [OF assms(3)] enc by simp_all
  have d: "distinct (obj_keys ?w)" using assms(2) by (simp add: o_def case_prod_unfold)
  have wire: "map_of ?w = map_option doc_wire \<circ> map_of m" by (simp add: map_of_map)
  have exact: "map_of ?w = map_of m" if "wire_rows m" using that by (simp add: wire_rows_id)
  have "run (loadSnapshotAsMap sha k coll) s = (Inr (sort_key fst ?w), s)"
    "coll' \<noteq> coll \<Longrightarrow> run (loadSnapshotAsMap sha k coll') s = (throw InvalidResponse, s)" if "body v = BSnap ?b"
    using run_load_snapshot [OF k(1) assms(4) that] k assms(4) that canonical_rows(1) [OF d]
    by (simp_all add: canonical_body_def loadSnapshotAsMap_def io_simps)
  moreover have "run (loadSnapshotAsMap sha k coll') s = (throw Internal, s)" if "sha (body v) \<noteq> sha (BSnap ?b)"
    using that k assms(4) by (simp add: loadSnapshotAsMap_def io_simps)
  ultimately show ?thesis unfolding enc using canonical_rows(2) [OF d] wire exact by auto
qed

theorem snapshot_roundtrip_witness:
  "\<exists>s k m'. run (loadSnapshotAsMap (\<lambda>_. replicate 64 (CHR ''a'')) k ''c'') s = (Inr m', s) \<and>
     map_of m' ''x'' = Some [(''n'', JNum (Fin 3)), (''u'', JNull)] \<and> map_of m' ''y'' = Some [] \<and> map_of m' ''z'' = None"
proof -
  let ?sha = "\<lambda>_ :: blob. replicate 64 (CHR ''a'')"
  let ?m = "[(''y'', []), (''x'', [(''n'', JNum (Fin 3)), (''u'', JNum NaN)])] :: (string \<times> doc) list"
  let ?k = "snapshotPrefix ''c'' @ snapshot_file 0 7 (replicate 64 (CHR ''a''))"
  let ?v = "\<lparr>body = encodeSnapshotBody (canonical_body ''c'' 7 ?m), etag = etag_of 1\<rparr>"
  let ?s = "\<lparr>objects = [(?k, ?v)], etagCounter = 1\<rparr>"
  have p: "valid_key ''c''" by (simp add: assertValidStorageKey_def)
  have d: "distinct (obj_keys ?m)" by simp
  have k: "snapshotKey ''c'' 0 7 (?sha (encodeSnapshotBody (canonical_body ''c'' 7 ?m))) = Inr ?k"
    by (simp add: snapshotKey_Inr MAX_SEQ_def SEQ_DIGITS_def is_sha256_def is_hex_lower_def list_all_iff)
  from snapshot_roundtrip [OF p d k, of ?s ?v "''c''"] obtain m' where
    "run (loadSnapshotAsMap ?sha ?k ''c'') ?s = (Inr m', ?s)" "\<forall>i. map_of m' i = map_option doc_wire (map_of ?m i)"
    by auto
  then show ?thesis
    by (intro exI [of _ ?s] exI [of _ ?k] exI [of _ m']) (simp add: doc_wire_def)
qed

end
