(* ===== verification/LogTail.thy ===== *)
theory LogTail
  imports Prog
begin

text \<open>
  \<^verbatim>\<open>packages/server/src/log-tail.ts\<close>: finding the end of a collection's log. \<open>findLogTail\<close> gallops and
  bisects, \<open>probeTailChunk\<close> and \<open>probeTailFrom\<close> walk slot by slot and return the entries. Shown
  here: on a dense log both find the first empty slot, or report the runaway cap, and while
  writers append concurrently \<open>findLogTail\<close> never returns a slot past the committed log.
\<close>

section \<open>Model\<close>

definition LOG_FORWARD_PROBE_CAP :: nat where "LOG_FORWARD_PROBE_CAP = 100000"

datatype tail_probe_chunk =
    Exact nat "log_entry list" bool
  | AtLeast nat "log_entry list" bool

fun chunk_bound :: "tail_probe_chunk \<Rightarrow> nat" where
  "chunk_bound (Exact n _ _) = n"
| "chunk_bound (AtLeast n _ _) = n"

text \<open>The loop of \<open>probeTailChunk\<close> with \<open>n\<close> iterations left at slot \<open>seq\<close>.\<close>

fun probe_loop ::
  "string \<Rightarrow> bool \<Rightarrow> nat \<Rightarrow> nat \<Rightarrow> log_entry list \<Rightarrow> bool \<Rightarrow> tail_probe_chunk io" where
  "probe_loop logPrefix tolerateMalformed 0 seq entries compl =
     io_return (AtLeast seq entries compl)"
| "probe_loop logPrefix tolerateMalformed (Suc n) seq entries compl =
     io_bind (io_get (logObjectKey logPrefix seq)) (\<lambda>got.
     case got of None \<Rightarrow> io_return (Exact seq entries compl)
     | Some (b, _) \<Rightarrow>
         (case decode_log_entry b of
            Some e \<Rightarrow> probe_loop logPrefix tolerateMalformed n (Suc seq) (entries @ [e]) compl
          | None \<Rightarrow>
              if tolerateMalformed then probe_loop logPrefix tolerateMalformed n (Suc seq) entries False
              else io_throw InvalidResponse))"

definition probeTailChunk :: "string \<Rightarrow> nat \<Rightarrow> nat option \<Rightarrow> bool \<Rightarrow> tail_probe_chunk io" where
  "probeTailChunk logPrefix hint cap tolerateMalformed =
     probe_loop logPrefix tolerateMalformed
       (case cap of None \<Rightarrow> LOG_FORWARD_PROBE_CAP | Some n \<Rightarrow> n) hint [] True"

definition probeTailFrom :: "string \<Rightarrow> nat \<Rightarrow> nat option \<Rightarrow> (nat \<times> log_entry list) io" where
  "probeTailFrom logPrefix hint cap =
     io_bind (probeTailChunk logPrefix hint cap False) (\<lambda>result.
     case result of
       Exact tailSeq entries _ \<Rightarrow> io_return (tailSeq, entries)
     | AtLeast _ _ _ \<Rightarrow> io_throw Internal)"

definition slot_exists :: "string \<Rightarrow> nat \<Rightarrow> bool io" where
  "slot_exists logPrefix seq =
     io_bind (io_get (logObjectKey logPrefix seq)) (\<lambda>got. io_return (got \<noteq> None))"

function bisect :: "string \<Rightarrow> nat \<Rightarrow> nat \<Rightarrow> nat io" where
  "bisect logPrefix lo hi =
     (if hi - lo > 1 then
        let mid = lo + (hi - lo) div 2 in
        io_bind (slot_exists logPrefix mid) (\<lambda>ex.
        if ex then bisect logPrefix mid hi else bisect logPrefix lo mid)
      else io_return hi)"
  by pat_completeness auto
termination
  by (relation "measure (\<lambda>(_, lo, hi). hi - lo)") auto

declare bisect.simps [simp del]

text \<open>The galloping loop; the step is \<open>2 ^ j\<close> after \<open>j\<close> doublings.\<close>

function gallop :: "string \<Rightarrow> nat \<Rightarrow> nat \<Rightarrow> nat io" where
  "gallop logPrefix lo j =
     (let hi = lo + 2 ^ j in
      io_bind (slot_exists logPrefix hi) (\<lambda>ex.
      if ex then
        (if 2 ^ (j + 1) > LOG_FORWARD_PROBE_CAP then io_throw Internal
         else gallop logPrefix hi (j + 1))
      else bisect logPrefix lo hi))"
  by pat_completeness auto
termination
proof (relation "measure (\<lambda>(_, _, j). LOG_FORWARD_PROBE_CAP - j)", goal_cases)
  case (2 p lo j hi ex)
  have "j < (2::nat) ^ j" by (rule less_exp)
  also have "\<dots> < 2 ^ (j + 1)" by simp
  finally show ?case using 2 by simp
qed simp

declare gallop.simps [simp del]

definition findLogTail :: "string \<Rightarrow> nat \<Rightarrow> nat io" where
  "findLogTail logPrefix hint =
     io_bind (slot_exists logPrefix hint) (\<lambda>ex.
     if \<not> ex then io_return hint else gallop logPrefix hint 0)"

section \<open>A log at rest\<close>

text \<open>Slots from \<open>from\<close> on hold exactly the entries \<open>es\<close>.\<close>

definition log_segment :: "store \<Rightarrow> string \<Rightarrow> nat \<Rightarrow> log_entry list \<Rightarrow> bool" where
  "log_segment s p from es \<longleftrightarrow>
     (\<forall>i < length es. \<exists>v. lookup s (logObjectKey p (from + i)) = Some v \<and> body v = BLog (es ! i))"

definition dense_from :: "store \<Rightarrow> string \<Rightarrow> nat \<Rightarrow> nat \<Rightarrow> bool" where
  "dense_from s p from tailSeq \<longleftrightarrow> from \<le> tailSeq \<and>
     (\<forall>n \<ge> from. lookup s (logObjectKey p n) \<noteq> None \<longleftrightarrow> n < tailSeq)"

lemma run_slot_exists [io_simps]:
  "valid_key p \<Longrightarrow> run (slot_exists p n) s = (Inr (lookup s (logObjectKey p n) \<noteq> None), s)"
  by (simp add: slot_exists_def io_simps)

lemma run_bisect:
  assumes "valid_key p" "\<forall>n \<ge> hint. lookup s (logObjectKey p n) \<noteq> None \<longleftrightarrow> n < tailSeq"
    and "hint \<le> lo" "lo < tailSeq" "tailSeq \<le> hi"
  shows "run (bisect p lo hi) s = (Inr tailSeq, s)"
  using assms
proof (induction p lo hi rule: bisect.induct)
  case (1 p lo hi)
  show ?case
  proof (cases "hi - lo > 1")
    case True
    let ?mid = "lo + (hi - lo) div 2"
    have mid: "lo < ?mid" "?mid < hi" using True by linarith+
    have "run (slot_exists p ?mid) s = (Inr (?mid < tailSeq), s)"
      using 1(3-6) mid by (simp add: run_slot_exists)
    with 1 mid True show ?thesis
      by (subst bisect.simps) (auto simp: Let_def run_io_bind not_less)
  next
    case False
    with 1 show ?thesis by (subst bisect.simps) simp
  qed
qed

lemma cap_doublings: "(2::nat) ^ (j + 1) > LOG_FORWARD_PROBE_CAP \<longleftrightarrow> 16 \<le> j"
proof -
  have "(2::nat) ^ (j + 1) \<ge> 2 ^ 17" if "16 \<le> j"
    using that by (intro power_increasing) auto
  moreover have "(2::nat) ^ (j + 1) \<le> 2 ^ 16" if "\<not> 16 \<le> j"
    using that by (intro power_increasing) auto
  ultimately show ?thesis unfolding LOG_FORWARD_PROBE_CAP_def by fastforce
qed

lemma run_gallop:
  assumes "valid_key p" "\<forall>n \<ge> hint. lookup s (logObjectKey p n) \<noteq> None \<longleftrightarrow> n < tailSeq"
    and "hint \<le> lo" "lo < tailSeq" "j \<le> 16"
  shows "run (gallop p lo j) s = (if tailSeq + 2 ^ j \<le> lo + 2 ^ 17 then Inr tailSeq else throw Internal, s)"
  using assms
proof (induction p lo j rule: gallop.induct)
  case (1 p lo j)
  have pow: "(2::nat) ^ j \<le> 2 ^ 16" using 1(6) by (intro power_increasing) auto
  have ex: "run (slot_exists p (lo + 2 ^ j)) s = (Inr (lo + 2 ^ j < tailSeq), s)"
    using 1(2-4) by (simp add: run_slot_exists)
  show ?case
  proof (cases "lo + 2 ^ j < tailSeq")
    case False
    then have "run (bisect p lo (lo + 2 ^ j)) s = (Inr tailSeq, s)"
      using 1(2-5) by (intro run_bisect [where hint = hint]) auto
    with False ex pow show ?thesis
      by (subst gallop.simps) (auto simp: Let_def run_io_bind)
  next
    case occupied: True
    show ?thesis
    proof (cases "16 \<le> j")
      case True
      then have "j = 16" using 1(6) by simp
      with occupied ex show ?thesis
        using cap_doublings [of j] by (subst gallop.simps) (auto simp: Let_def run_io_bind)
    next
      case False
      then have below: "\<not> 2 ^ (j + 1) > LOG_FORWARD_PROBE_CAP" using cap_doublings [of j] by simp
      then show ?thesis
        using occupied ex False 1(1) [OF refl _ below, of True] 1(2-4)
        by (subst gallop.simps) (simp add: Let_def run_io_bind)
    qed
  qed
qed

lemma run_findLogTail:
  assumes "valid_key p" "dense_from s p hint tailSeq"
  shows "run (findLogTail p hint) s =
    (if tailSeq < hint + 2 ^ 17 then Inr tailSeq else throw Internal, s)"
proof -
  have occ: "\<forall>n \<ge> hint. lookup s (logObjectKey p n) \<noteq> None \<longleftrightarrow> n < tailSeq" and le: "hint \<le> tailSeq"
    using assms(2) by (auto simp: dense_from_def)
  show ?thesis
  proof (cases "hint = tailSeq")
    case True
    then have "lookup s (logObjectKey p hint) = None" using occ by blast
    with True assms(1) show ?thesis by (simp add: findLogTail_def io_simps)
  next
    case False
    then have "lookup s (logObjectKey p hint) \<noteq> None" using occ le by auto
    with False le show ?thesis
      using run_gallop [OF assms(1) occ, of hint 0] assms(1)
      by (simp add: findLogTail_def io_simps)
  qed
qed

lemma run_probe_loop:
  assumes "valid_key p" "log_segment s p from es" "lookup s (logObjectKey p (from + length es)) = None"
  shows "run (probe_loop p tol n from acc c) s =
    (Inr (if length es < n then Exact (from + length es) (acc @ es) c
          else AtLeast (from + n) (acc @ take n es) c), s)"
  using assms(2,3)
proof (induction n arbitrary: "from" es acc)
  case (Suc n)
  show ?case
  proof (cases es)
    case Nil
    then show ?thesis using Suc.prems assms(1) by (simp add: io_simps)
  next
    case (Cons e es')
    have "\<exists>v. lookup s (logObjectKey p from) = Some v \<and> body v = BLog e"
      using Suc.prems(1) unfolding log_segment_def Cons by (metis add_0_right length_greater_0_conv list.distinct(1) nth_Cons_0)
    moreover have "log_segment s p (Suc from) es'"
      using Suc.prems(1) unfolding log_segment_def Cons
      by (metis Suc_less_eq add_Suc_shift length_Cons nth_Cons_Suc)
    ultimately show ?thesis
      using Suc.IH [of "Suc from" es' "acc @ [e]"] Suc.prems(2) assms(1) Cons by (auto simp: io_simps)
  qed
qed simp

lemma run_probeTailFrom:
  assumes "valid_key p" "log_segment s p hint es" "lookup s (logObjectKey p (hint + length es)) = None"
    and "length es < (case cap of None \<Rightarrow> LOG_FORWARD_PROBE_CAP | Some n \<Rightarrow> n)"
  shows "run (probeTailFrom p hint cap) s = (Inr (hint + length es, es), s)"
  using assms(4)
  by (simp add: probeTailFrom_def probeTailChunk_def io_simps run_probe_loop [OF assms(1-3)])

section \<open>A log being appended to\<close>

text \<open>
  What the tail search relies on while other threads write: \<open>committed s n\<close> says that at least \<open>n\<close>
  entries have been committed, which nobody can undo, and that an occupied slot is a committed one.
\<close>

locale append_only_log = interference R A
  for R :: "store \<Rightarrow> store \<Rightarrow> bool" and A :: "call \<Rightarrow> bool" +
  fixes prefix :: string and ok :: "store \<Rightarrow> bool" and committed :: "store \<Rightarrow> nat \<Rightarrow> bool"
  assumes prefix_valid: "ok s \<Longrightarrow> valid_key prefix"
    and ok_stable: "ok s \<Longrightarrow> R s s' \<Longrightarrow> ok s'"
    and committed_stable: "ok s \<Longrightarrow> R s s' \<Longrightarrow> committed s n \<Longrightarrow> committed s' n"
    and occupied_committed: "ok s \<Longrightarrow> lookup s (logObjectKey prefix n) \<noteq> None \<Longrightarrow> committed s (Suc n)"
begin

lemma wp_slot_exists:
  assumes "ok s"
    and "\<And>s1. R s s1 \<Longrightarrow> ok s1 \<Longrightarrow> committed s1 (Suc n) \<Longrightarrow> Q (Inr True) s1"
    and "\<And>s1. R s s1 \<Longrightarrow> ok s1 \<Longrightarrow> Q (Inr False) s1"
    and "\<And>s1 e. R s s1 \<Longrightarrow> ok s1 \<Longrightarrow> Q (Inl e) s1"
  shows "wp R A (slot_exists prefix n) Q s"
  unfolding slot_exists_def
proof (rule wp_io_bind, rule wp_get, goal_cases)
  case (2 s1)
  with assms ok_stable occupied_committed [of s1 n] show ?case
    by (cases "lookup s1 (logObjectKey prefix n)") auto
qed (use assms ok_stable prefix_valid in auto)

definition found :: "nat \<Rightarrow> nat result \<Rightarrow> store \<Rightarrow> bool" where
  "found hint r s \<longleftrightarrow> ok s \<and> (\<forall>n. r = Inr n \<longrightarrow> hint \<le> n \<and> committed s n)"

lemma wp_bisect:
  assumes "ok s" "committed s (Suc lo)" "lo < hi" "hint \<le> lo"
  shows "wp R A (bisect prefix lo hi) (found hint) s"
  using assms
proof (induction "hi - lo" arbitrary: lo hi s rule: less_induct)
  case less
  show ?case
  proof (cases "hi - lo > 1")
    case True
    let ?mid = "lo + (hi - lo) div 2"
    have mid: "lo < ?mid" "?mid < hi" using True by linarith+
    have "wp R A (io_bind (slot_exists prefix ?mid) (\<lambda>ex. if ex then bisect prefix ?mid hi else bisect prefix lo ?mid)) (found hint) s"
      using less.prems mid committed_stable
      by (intro wp_io_bind wp_slot_exists) (auto simp: found_def intro!: less.hyps)
    with True show ?thesis by (subst bisect.simps) (simp add: Let_def)
  next
    case False
    then have "hi = Suc lo" using less.prems by simp
    with less.prems show ?thesis by (subst bisect.simps) (simp add: found_def)
  qed
qed

lemma wp_gallop:
  assumes "ok s" "committed s (Suc lo)" "hint \<le> lo"
  shows "wp R A (gallop prefix lo j) (found hint) s"
  using assms
proof (induction "LOG_FORWARD_PROBE_CAP - j" arbitrary: lo j s rule: less_induct)
  case less
  have step: "wp R A (gallop prefix (lo + 2 ^ j) (j + 1)) (found hint) s1"
    if "ok s1" "committed s1 (Suc (lo + 2 ^ j))" "\<not> 2 ^ (j + 1) > LOG_FORWARD_PROBE_CAP" for s1
  proof (rule less.hyps)
    have "j < (2::nat) ^ (j + 1)" using less_exp [of "j + 1"] by simp
    then show "LOG_FORWARD_PROBE_CAP - (j + 1) < LOG_FORWARD_PROBE_CAP - j" using that(3) by simp
  qed (use that less.prems in auto)
  show ?case
    using less.prems committed_stable step
    by (subst gallop.simps, unfold Let_def, intro wp_io_bind wp_slot_exists)
      (auto simp: found_def intro!: wp_bisect)
qed

lemma wp_findLogTail:
  assumes "ok s" "committed s hint"
  shows "wp R A (findLogTail prefix hint) (found hint) s"
  unfolding findLogTail_def
  using assms committed_stable
  by (intro wp_io_bind wp_slot_exists) (auto simp: found_def intro!: wp_gallop)

text \<open>Every bound a probe certifies is committed.\<close>

lemma wp_probe_loop:
  assumes "ok s" "committed s seq"
  shows "wp R A (probe_loop prefix tol n seq entries c)
    (\<lambda>r s'. \<forall>x. r = Inr x \<longrightarrow> seq \<le> chunk_bound x \<and> committed s' (chunk_bound x)) s"
  using assms
proof (induction n arbitrary: seq entries c s)
  case (Suc n)
  let ?Q = "\<lambda>seq r s'. \<forall>x. r = Inr x \<longrightarrow> seq \<le> chunk_bound x \<and> committed s' (chunk_bound x)"
  have rec: "wp R A (probe_loop prefix tol n (Suc seq) es c') (?Q seq) s1"
    if "ok s1" "committed s1 (Suc seq)" for s1 es c'
    by (rule wp_mono [OF Suc.IH [OF that]]) auto
  show ?case
    unfolding probe_loop.simps
  proof (rule wp_io_bind, rule wp_get, goal_cases)
    case (2 s1)
    with Suc.prems have o: "ok s1" "committed s1 seq" using ok_stable committed_stable by blast+
    then show ?case
      using occupied_committed [OF o(1), of seq] rec [OF o(1)]
      by (auto split: option.splits)
  qed (use Suc.prems prefix_valid in auto)
qed simp

lemma wp_probeTailChunk:
  assumes "ok s" "committed s hint"
  shows "wp R A (probeTailChunk prefix hint cap tol)
    (\<lambda>r s'. \<forall>x. r = Inr x \<longrightarrow> hint \<le> chunk_bound x \<and> committed s' (chunk_bound x)) s"
  unfolding probeTailChunk_def by (rule wp_probe_loop [OF assms])

lemma wp_probeTailFrom:
  assumes "ok s" "committed s hint"
  shows "wp R A (probeTailFrom prefix hint cap)
    (\<lambda>r s'. \<forall>x. r = Inr x \<longrightarrow> hint \<le> fst x \<and> committed s' (fst x)) s"
  unfolding probeTailFrom_def
  by (rule wp_seq [OF wp_probeTailChunk [OF assms]]) (auto split: tail_probe_chunk.splits)

end

section \<open>Properties\<close>

text \<open>
  (C21) On a dense log the galloping search of the writer and the linear probe of the readers agree:
  both return the first empty slot at or after the hint, and the probe returns every entry in
  between, in order. A gap the probe can cover is one the search covers.
\<close>

theorem findLogTail_agrees_with_probe:
  assumes "valid_key p" and "log_segment s p hint es"
    and "\<forall>n \<ge> hint + length es. lookup s (logObjectKey p n) = None"
    and "length es < LOG_FORWARD_PROBE_CAP"
  shows "run (findLogTail p hint) s = (Inr (hint + length es), s) \<and>
    run (probeTailFrom p hint None) s = (Inr (hint + length es, es), s)"
proof -
  have "lookup s (logObjectKey p n) \<noteq> None" if "hint \<le> n" "n < hint + length es" for n
  proof -
    from that obtain i where "n = hint + i" "i < length es" using le_Suc_ex by auto
    with assms(2) show ?thesis by (auto simp: log_segment_def)
  qed
  then have "dense_from s p hint (hint + length es)"
    using assms(3) by (force simp: dense_from_def not_le [symmetric])
  then show ?thesis
    using assms run_findLogTail [OF assms(1), of s hint "hint + length es"]
    by (simp add: run_probeTailFrom LOG_FORWARD_PROBE_CAP_def)
qed

theorem findLogTail_agrees_with_probe_witness:
  "\<exists>s es. length es = 2 \<and> run (findLogTail ''t'' 5) s = (Inr 7, s) \<and>
     run (probeTailFrom ''t'' 5 None) s = (Inr (7, es), s)"
proof -
  define e :: "nat \<Rightarrow> log_entry" where "e = (\<lambda>n. \<lparr>le_lsn = [], le_commit_ts = [], le_op = OpD,
    le_collection = ''c'', le_doc_id = Some ''x'', le_after = None, le_origin = None, le_session = ''s'', le_seq = n\<rparr>)"
  define s :: store where "s = \<lparr>objects =
    [(logObjectKey ''t'' 5, \<lparr>body = BLog (e 5), etag = etag_of 1\<rparr>),
     (logObjectKey ''t'' 6, \<lparr>body = BLog (e 6), etag = etag_of 2\<rparr>)], etagCounter = 2\<rparr>"
  have "valid_key ''t''" by (simp add: assertValidStorageKey_def)
  moreover have "log_segment s ''t'' 5 [e 5, e 6]"
    by (auto simp: log_segment_def s_def less_Suc_eq)
  moreover have "\<forall>n \<ge> 5 + length [e 5, e 6]. lookup s (logObjectKey ''t'' n) = None"
    by (simp add: s_def)
  moreover have "length [e 5, e 6] < LOG_FORWARD_PROBE_CAP" by (simp add: LOG_FORWARD_PROBE_CAP_def)
  ultimately show ?thesis
    using findLogTail_agrees_with_probe [of "''t''" s 5 "[e 5, e 6]"]
    by (intro exI [of _ s] exI [of _ "[e 5, e 6]"]) simp
qed

end
