(* ===== verification/Compactor.thy ===== *)
theory Compactor
  imports Snapshot LogTail CurrentJson
begin

text \<open>
  \<^verbatim>\<open>packages/server/src/compactor.ts\<close>: one compaction run, step by step, with its options, early
  returns and the order snapshot PUT before manifest CAS. Metrics are in-memory only and left out.
\<close>

section \<open>Options and results\<close>

text \<open>A numeric ceiling: \<open>Unlimited\<close> is \<^verbatim>\<open>Infinity\<close>; every comparison with \<open>NaNLimit\<close> is false.\<close>

datatype limit = Limit nat | Unlimited | NaNLimit

fun below_limit :: "nat \<Rightarrow> limit \<Rightarrow> bool" where
  "below_limit n (Limit m) = (n < m)"
| "below_limit n Unlimited = True"
| "below_limit n NaNLimit = False"

fun within_limit :: "nat \<Rightarrow> limit \<Rightarrow> bool" where
  "within_limit n (Limit m) = (n \<le> m)"
| "within_limit n Unlimited = True"
| "within_limit n NaNLimit = False"

record compact_options =
  minEntriesToCompact :: "nat option"
  maxEntriesPerRun :: "jsnum option"
  maxTailProbeGets :: "jsnum option"
  ceilingBytes :: "limit option"
  ceilingEntries :: "limit option"
  knownTail :: "jsnum option"

datatype skipped_reason =
  BelowMinThreshold | CurrentJsonMissing | CasLost | Deferred | ProbeBudgetCheckpointed

datatype deferral_dimension = ByBytes | ByRows

record deferral =
  dimension :: deferral_dimension
  deferredBytes :: nat
  deferredRows :: nat

record compact_result =
  written :: bool
  skippedReason :: "skipped_reason option"
  cr_deferral :: "deferral option"
  previousSnapshotKey :: "string option"
  newSnapshotKey :: "string option"
  logSeqStartBefore :: nat
  logSeqStartAfter :: nat
  entriesFolded :: nat

definition MAX_SAFE_INTEGER :: nat where "MAX_SAFE_INTEGER = 2 ^ 53 - 1"
definition DEFAULT_MIN_TO_COMPACT :: nat where "DEFAULT_MIN_TO_COMPACT = 100"

text \<open>\<^verbatim>\<open>requireIntegerOption\<close> of \<^verbatim>\<open>option-guards.ts\<close>; the accepted number is returned.\<close>

definition requireIntegerOption :: "jsnum \<Rightarrow> nat \<Rightarrow> nat result" where
  "requireIntegerOption v lo =
     (case nonneg_integer (Some (JNum v)) of
        None \<Rightarrow> throw InvalidConfig
      | Some n \<Rightarrow> if n < lo then throw InvalidConfig else Inr n)"

text \<open>\<^verbatim>\<open>s.slice(0, s.lastIndexOf("/"))\<close>: without a slash the index is -1 and the last character goes.\<close>

definition dirname :: "string \<Rightarrow> string" where
  "dirname s = (if CHR ''/'' \<in> set s
     then take (length s - length (after_last (CHR ''/'') s) - 1) s else butlast s)"

definition skipped :: "skipped_reason \<Rightarrow> string option \<Rightarrow> nat \<Rightarrow> compact_result" where
  "skipped reason prev start =
     \<lparr>written = False, skippedReason = Some reason, cr_deferral = None, previousSnapshotKey = prev,
      newSnapshotKey = None, logSeqStartBefore = start, logSeqStartAfter = start, entriesFolded = 0\<rparr>"

section \<open>Steps\<close>

text \<open>Step 4: the fold with its row ceiling; returns the rows and how many entries it applied.\<close>

fun compact_fold ::
  "string \<Rightarrow> limit \<Rightarrow> log_entry list \<Rightarrow> (string \<times> doc) list \<Rightarrow> nat \<Rightarrow> (string \<times> doc) list \<times> nat" where
  "compact_fold coll ceil [] base applied = (base, applied)"
| "compact_fold coll ceil (e # es) base applied =
     (if (case le_doc_id e of
            None \<Rightarrow> False
          | Some d \<Rightarrow> le_collection e = coll \<and> le_op e \<noteq> OpD \<and> le_after e \<noteq> None \<and>
              d \<notin> set (obj_keys base) \<and> \<not> below_limit (length base) ceil)
      then (base, applied)
      else
        let base' =
          (if le_collection e \<noteq> coll then base
           else (case le_doc_id e of
              None \<Rightarrow> base
            | Some d \<Rightarrow> (case le_op e of
                OpD \<Rightarrow> obj_del d base
              | _ \<Rightarrow> (case le_after e of None \<Rightarrow> base | Some a \<Rightarrow> obj_set d a base))))
        in compact_fold coll ceil es base' (Suc applied))"

text \<open>\<^verbatim>\<open>Math.round\<close> of a quotient of non-negative integers.\<close>

definition round_div :: "nat \<Rightarrow> nat \<Rightarrow> nat" where
  "round_div a b = (2 * a + b) div (2 * b)"

text \<open>Step 7: publish the new manifest under the ETag that was read.\<close>

definition publish ::
  "string \<Rightarrow> current_json \<Rightarrow> string \<Rightarrow> current_json \<Rightarrow> compact_result \<Rightarrow> compact_result \<Rightarrow> compact_result io" where
  "publish currentJsonKey current baseEtag next lost ok =
     io_bind (io_lift (assertCurrentJsonTransition current next)) (\<lambda>_.
     io_catch
       (io_bind (io_put currentJsonKey (BJson (encode_current next)) (if_match baseEtag)) (\<lambda>_. io_return ok))
       (\<lambda>e. if isWriteConflict e then io_return lost else Ret (Inl e)))"

text \<open>Steps 5 to 7: build the body, check the ceilings, PUT it, advance the manifest.\<close>

definition compact_write ::
  "(blob \<Rightarrow> nat) \<Rightarrow> (blob \<Rightarrow> string) \<Rightarrow> string \<Rightarrow> string \<Rightarrow> limit \<Rightarrow> limit \<Rightarrow> current_json \<Rightarrow> string \<Rightarrow> nat \<Rightarrow>
   (string \<times> doc) list \<Rightarrow> nat \<Rightarrow> nat \<Rightarrow> compact_result io" where
  "compact_write bytes sha currentJsonKey coll cBytes cEntries current baseEtag discoveredTail base
     foldEnd foldedSliceBytes =
     (let before = logSeqStartOf current;
          sb = encodeSnapshotBody (canonical_body coll foldEnd base);
          bodyBytes = bytes sb;
          bytesFit = within_limit bodyBytes cBytes
      in if \<not> (bytesFit \<and> within_limit (length base) cEntries)
         then io_return ((skipped Deferred (cj_snapshot current) before)
           \<lparr>cr_deferral := Some \<lparr>dimension = (if bytesFit then ByRows else ByBytes),
             deferredBytes = bodyBytes, deferredRows = length base\<rparr>\<rparr>)
         else
           io_bind (io_lift (snapshotKey (dirname currentJsonKey) 0 foldEnd (sha sb))) (\<lambda>newKey.
           io_bind (io_put newKey sb unconditional) (\<lambda>_.
           let folded = foldEnd - before;
               next = current\<lparr>cj_snapshot := Some newKey, log_seq_start := foldEnd,
                 tail_hint := max (tail_hint current) discoveredTail, snapshot_bytes := bodyBytes,
                 snapshot_rows := length base,
                 mean_entry_bytes := Some (if folded > 0 then round_div foldedSliceBytes folded
                   else (case mean_entry_bytes current of None \<Rightarrow> 0 | Some m \<Rightarrow> m))\<rparr>
           in publish currentJsonKey current baseEtag next
                ((skipped CasLost (cj_snapshot current) before)
                  \<lparr>newSnapshotKey := Some newKey, entriesFolded := folded\<rparr>)
                \<lparr>written = True, skippedReason = None, cr_deferral = None,
                 previousSnapshotKey = cj_snapshot current, newSnapshotKey = Some newKey,
                 logSeqStartBefore = before, logSeqStartAfter = foldEnd, entriesFolded = folded\<rparr>)))"

text \<open>Step 4 on the fetched range: fold it, and defer when not even the first entry fits.\<close>

definition compact_apply ::
  "(blob \<Rightarrow> nat) \<Rightarrow> (blob \<Rightarrow> string) \<Rightarrow> string \<Rightarrow> string \<Rightarrow> limit \<Rightarrow> limit \<Rightarrow> current_json \<Rightarrow> string \<Rightarrow> nat \<Rightarrow>
   (string \<times> doc) list \<Rightarrow> (log_entry \<times> nat) list \<Rightarrow> compact_result io" where
  "compact_apply bytes sha currentJsonKey coll cBytes cEntries current baseEtag discoveredTail base0 fetched =
     (let before = logSeqStartOf current;
          (base, applied) = compact_fold coll cEntries (map fst fetched) base0 0;
          foldEnd = before + applied;
          foldedSliceBytes = sum_list (map snd (take applied fetched))
      in if applied = 0 \<and> fetched \<noteq> []
         then io_return ((skipped Deferred (cj_snapshot current) before)
           \<lparr>cr_deferral := Some \<lparr>dimension = ByRows, deferredBytes = snapshot_bytes current,
             deferredRows = length base\<rparr>\<rparr>)
         else compact_write bytes sha currentJsonKey coll cBytes cEntries current baseEtag
           discoveredTail base foldEnd foldedSliceBytes)"

text \<open>Steps 2 and 3: load the base, fetch the range.\<close>

definition compact_range ::
  "(blob \<Rightarrow> nat) \<Rightarrow> (blob \<Rightarrow> string) \<Rightarrow> string \<Rightarrow> string \<Rightarrow> limit \<Rightarrow> limit \<Rightarrow> current_json \<Rightarrow> string \<Rightarrow> nat \<Rightarrow>
   nat \<Rightarrow> compact_result io" where
  "compact_range bytes sha currentJsonKey coll cBytes cEntries current baseEtag discoveredTail foldEnd0 =
     io_bind (case cj_snapshot current of None \<Rightarrow> io_return []
              | Some k \<Rightarrow> loadSnapshotAsMap sha k coll) (\<lambda>base0.
     io_bind (walkLogRangeWithBytes bytes (dirname currentJsonKey) (logSeqStartOf current) foldEnd0) (\<lambda>fetched.
     compact_apply bytes sha currentJsonKey coll cBytes cEntries current baseEtag discoveredTail base0 fetched))"

text \<open>The tail probe of Step 1, strict or budgeted.\<close>

definition compact_probe :: "string \<Rightarrow> nat option \<Rightarrow> nat \<Rightarrow> tail_probe_chunk io" where
  "compact_probe collectionPrefix maxProbe probeFloor =
     (case maxProbe of
        None \<Rightarrow> io_bind (probeTailFrom collectionPrefix probeFloor None)
          (\<lambda>(tailSeq, entries). io_return (Exact tailSeq entries True))
      | Some cap \<Rightarrow> probeTailChunk collectionPrefix probeFloor (Some cap) False)"

definition compact_after_probe ::
  "(blob \<Rightarrow> nat) \<Rightarrow> (blob \<Rightarrow> string) \<Rightarrow> string \<Rightarrow> string \<Rightarrow> compact_options \<Rightarrow> nat \<Rightarrow> current_json \<Rightarrow> string \<Rightarrow>
   tail_probe_chunk \<Rightarrow> compact_result io" where
  "compact_after_probe bytes sha currentJsonKey coll opts maxPerRun current baseEtag probe =
     (let before = logSeqStartOf current;
          tailIsExact = (case probe of Exact _ _ _ \<Rightarrow> True | AtLeast _ _ _ \<Rightarrow> False);
          discoveredTail = (case probe of Exact n _ _ \<Rightarrow> n | AtLeast n _ _ \<Rightarrow> n);
          minToCompact = (case minEntriesToCompact opts of None \<Rightarrow> DEFAULT_MIN_TO_COMPACT | Some n \<Rightarrow> n);
          available = discoveredTail - before;
          unlimited = (\<lambda>c. case c of None \<Rightarrow> Unlimited | Some l \<Rightarrow> l)
      in if available < minToCompact then
           (if \<not> tailIsExact then
              publish currentJsonKey current baseEtag
                (current\<lparr>tail_hint := max (tail_hint current) discoveredTail\<rparr>)
                (skipped CasLost (cj_snapshot current) before)
                (skipped ProbeBudgetCheckpointed (cj_snapshot current) before)
            else io_return (skipped BelowMinThreshold (cj_snapshot current) before))
         else
           compact_range bytes sha currentJsonKey coll (unlimited (ceilingBytes opts))
             (unlimited (ceilingEntries opts)) current baseEtag discoveredTail
             (min discoveredTail (before + maxPerRun)))"

definition compact ::
  "(blob \<Rightarrow> nat) \<Rightarrow> (blob \<Rightarrow> string) \<Rightarrow> string \<Rightarrow> compact_options \<Rightarrow> compact_result io" where
  "compact bytes sha currentJsonKey opts =
     (let collectionPrefix = dirname currentJsonKey;
          coll = after_last (CHR ''/'') collectionPrefix
      in
      io_bind (io_lift (case maxEntriesPerRun opts of None \<Rightarrow> Inr MAX_SAFE_INTEGER
                        | Some v \<Rightarrow> requireIntegerOption v 0)) (\<lambda>maxPerRun.
      io_bind (io_lift (case knownTail opts of None \<Rightarrow> Inr 0
                        | Some v \<Rightarrow> requireIntegerOption v 0)) (\<lambda>known.
      io_bind (io_lift (case maxTailProbeGets opts of None \<Rightarrow> Inr None
                        | Some v \<Rightarrow> map_sum id Some (requireIntegerOption v 1))) (\<lambda>maxProbe.
      io_bind (readCurrentJson currentJsonKey) (\<lambda>rd.
      case rd of None \<Rightarrow> io_return (skipped CurrentJsonMissing None 0)
      | Some (current, baseEtag) \<Rightarrow>
          io_bind (compact_probe collectionPrefix maxProbe
              (max (max (logSeqStartOf current) (tail_hint current)) known)) (\<lambda>probe.
          compact_after_probe bytes sha currentJsonKey coll opts maxPerRun current baseEtag probe))))))"

end
