(* ===== verification/LogRetention.thy ===== *)
theory LogRetention
  imports Compactor
begin

text \<open>
  \<^verbatim>\<open>packages/server/src/log-retention.ts\<close>: the range of log slots a pass may delete and the pass
  itself, manifest CAS first, deletes after. The deletes are issued together in the code; they are
  independent, and the model issues them in order.
\<close>

section \<open>Model\<close>

definition LOG_RETENTION_SEQ_WINDOW :: int where "LOG_RETENTION_SEQ_WINDOW = 1024"
definition LOG_RETENTION_MAX_DELETES_PER_TICK :: int where "LOG_RETENTION_MAX_DELETES_PER_TICK = 20"

record retire_options =
  window :: "int option"
  maxDeletes :: "int option"

text \<open>The range \<open>[start, end)\<close>.\<close>

definition computeRetirableRange :: "current_json \<Rightarrow> retire_options \<Rightarrow> nat \<times> nat" where
  "computeRetirableRange current opts =
     (let win = (case window opts of None \<Rightarrow> LOG_RETENTION_SEQ_WINDOW | Some w \<Rightarrow> w);
          maxDel = (case maxDeletes opts of None \<Rightarrow> LOG_RETENTION_MAX_DELETES_PER_TICK | Some m \<Rightarrow> m);
          liveFloor = int (logSeqStartOf current);
          start = int (certifiedDeleteFloor current);
          boundary = min (liveFloor - win) liveFloor;
          stop = max start (min boundary (start + maxDel))
      in (nat start, nat stop))"

definition delete_slots :: "string \<Rightarrow> nat list \<Rightarrow> unit io" where
  "delete_slots collectionPrefix ns = delete_all (map (logObjectKey collectionPrefix) ns)"

text \<open>
  The mutator of the floor CAS: the range is computed on the state the CAS validates, and handed out
  for the deletes.
\<close>

definition retire_mutator :: "retire_options \<Rightarrow> current_json \<Rightarrow> (current_json \<times> nat \<times> nat) result" where
  "retire_mutator opts current =
     (let (start, stop) = computeRetirableRange current opts in
      if start \<ge> stop then throw WriteConflict
      else Inr (current\<lparr>log_delete_floor := Some stop\<rparr>, start, stop))"

definition retireLogRange :: "string \<Rightarrow> retire_options \<Rightarrow> nat io" where
  "retireLogRange currentJsonKey opts =
     io_bind (readCurrentJson currentJsonKey) (\<lambda>rd.
     case rd of None \<Rightarrow> io_return 0
     | Some (json, _) \<Rightarrow>
         (let (gstart, gend) = computeRetirableRange json opts in
          if gstart \<ge> gend then io_return 0
          else
            io_bind (casUpdateCurrentJson currentJsonKey (retire_mutator opts))
              (\<lambda>(published, _, start, stop).
            if logDeleteFloorOf published \<noteq> stop then io_throw Internal
            else io_bind (delete_slots (dirname currentJsonKey) [start ..< stop]) (\<lambda>_.
              io_return (stop - start)))))"

section \<open>The range\<close>

definition effective_window :: "retire_options \<Rightarrow> int" where
  "effective_window opts = (case window opts of None \<Rightarrow> LOG_RETENTION_SEQ_WINDOW | Some w \<Rightarrow> w)"

definition effective_budget :: "retire_options \<Rightarrow> int" where
  "effective_budget opts = (case maxDeletes opts of None \<Rightarrow> LOG_RETENTION_MAX_DELETES_PER_TICK | Some m \<Rightarrow> m)"

lemma range_eq:
  "computeRetirableRange c opts = (certifiedDeleteFloor c,
     nat (max (int (certifiedDeleteFloor c))
       (min (min (int (log_seq_start c) - effective_window opts) (int (log_seq_start c)))
         (int (certifiedDeleteFloor c) + effective_budget opts))))"
  by (simp add: computeRetirableRange_def Let_def logSeqStartOf_def effective_window_def effective_budget_def)

lemma range_bounds:
  assumes "computeRetirableRange c opts = (start, stop)" "start < stop"
  shows "start = certifiedDeleteFloor c" "stop \<le> log_seq_start c"
    "int stop \<le> int (log_seq_start c) - effective_window opts"
    "int stop - int start \<le> effective_budget opts"
proof -
  let ?m = "min (min (int (log_seq_start c) - effective_window opts) (int (log_seq_start c)))
         (int (certifiedDeleteFloor c) + effective_budget opts)"
  from assms(1) [unfolded range_eq]
  have s: "start = certifiedDeleteFloor c" "stop = nat (max (int (certifiedDeleteFloor c)) ?m)"
    by (metis prod.inject)+
  with assms(2) have "int stop = ?m" by (simp add: max_def split: if_splits)
  then show "stop \<le> log_seq_start c" "int stop \<le> int (log_seq_start c) - effective_window opts"
    "int stop - int start \<le> effective_budget opts"
    using s(1) by linarith+
  show "start = certifiedDeleteFloor c" by (rule s(1))
qed

end
