(* ===== verification/GcPending.thy ===== *)
theory GcPending
  imports CurrentJson
begin

text \<open>
  \<^verbatim>\<open>packages/protocol/src/coordination/gc-pending.ts\<close>: the ledger of garbage-collection candidates, its
  guard, its conditional writes with a bounded retry, and the merge of one pass's results into the
  latest ledger. Shown here: the guard accepts what the encoder writes, and the merge loses no
  candidate of a concurrent pass, re-adds no resolved key and never lists a key twice.
\<close>

section \<open>The ledger\<close>

datatype gc_reason = StaleLog | OrphanSnapshot | OrphanContent

record gc_candidate =
  cand_key :: string
  due_at :: string
  cand_reason :: gc_reason
  cand_generation :: "string option"

record gc_pending =
  candidates :: "gc_candidate list"
  last_swept_at :: string

definition GC_PENDING_SCHEMA_VERSION :: nat where "GC_PENDING_SCHEMA_VERSION = 1"
definition GC_PENDING_CAS_MAX_ATTEMPTS :: nat where "GC_PENDING_CAS_MAX_ATTEMPTS = 3"
definition GC_MAX_PENDING_CANDIDATES :: nat where "GC_MAX_PENDING_CANDIDATES = 1000"

fun reason_text :: "gc_reason \<Rightarrow> string" where
  "reason_text StaleLog = ''stale-log''"
| "reason_text OrphanSnapshot = ''orphan-snapshot''"
| "reason_text OrphanContent = ''orphan-content''"

definition VALID_REASONS :: "string \<Rightarrow> gc_reason option" where
  "VALID_REASONS s =
     (if s = ''stale-log'' then Some StaleLog
      else if s = ''orphan-snapshot'' then Some OrphanSnapshot
      else if s = ''orphan-content'' then Some OrphanContent
      else None)"

definition reason_value :: "json option \<Rightarrow> gc_reason option" where
  "reason_value v = (case string_value v of None \<Rightarrow> None | Some s \<Rightarrow> VALID_REASONS s)"

definition nonempty_string :: "json option \<Rightarrow> string option" where
  "nonempty_string v = (case string_value v of None \<Rightarrow> None | Some s \<Rightarrow> if s = [] then None else Some s)"

section \<open>The guard\<close>

definition assertCandidate :: "json \<Rightarrow> gc_candidate result" where
  "assertCandidate c =
     (if \<not> is_object c then throw InvalidResponse
      else
        result_bind (require (nonempty_string (member_of c ''key''))) (\<lambda>k.
        result_bind (require (string_value (member_of c ''due_at''))) (\<lambda>d.
        result_bind (require (reason_value (member_of c ''reason''))) (\<lambda>r.
        result_bind (optional string_value (member_of c ''generation'')) (\<lambda>g.
        Inr \<lparr>cand_key = k, due_at = d, cand_reason = r, cand_generation = g\<rparr>)))))"

fun array_value :: "json option \<Rightarrow> json list option" where
  "array_value (Some (JArr xs)) = Some xs"
| "array_value _ = None"

definition assertGcPending :: "json \<Rightarrow> gc_pending result" where
  "assertGcPending parsed =
     (if \<not> is_object parsed then throw InvalidResponse
      else if nonneg_integer (member_of parsed ''schema_version'') \<noteq> Some GC_PENDING_SCHEMA_VERSION
      then throw InvalidResponse
      else
        result_bind (require (array_value (member_of parsed ''candidates''))) (\<lambda>cs.
        result_bind (result_map assertCandidate cs) (\<lambda>cands.
        result_bind (require (string_value (member_of parsed ''last_swept_at''))) (\<lambda>t.
        result_bind (optional string_value (member_of parsed ''log_scan_cursor'')) (\<lambda>_.
        Inr \<lparr>candidates = cands, last_swept_at = t\<rparr>)))))"

definition encode_candidate :: "gc_candidate \<Rightarrow> json" where
  "encode_candidate c = JObj ([(''key'', JStr (cand_key c)), (''due_at'', JStr (due_at c)),
     (''reason'', JStr (reason_text (cand_reason c)))] @ opt_member ''generation'' JStr (cand_generation c))"

definition encode_pending :: "gc_pending \<Rightarrow> json" where
  "encode_pending l = JObj [(''schema_version'', json_nat GC_PENDING_SCHEMA_VERSION),
     (''candidates'', JArr (map encode_candidate (candidates l))),
     (''last_swept_at'', JStr (last_swept_at l))]"

section \<open>Reads and writes\<close>

definition decode_pending :: "blob \<Rightarrow> gc_pending result" where
  "decode_pending b = (case b of BJson j \<Rightarrow> assertGcPending j | _ \<Rightarrow> throw InvalidResponse)"

definition readGcPending :: "string \<Rightarrow> (gc_pending \<times> string) option io" where
  "readGcPending key = io_bind (io_get key) (\<lambda>got.
     case got of None \<Rightarrow> io_return None
     | Some (b, t) \<Rightarrow> io_bind (io_lift (decode_pending b)) (\<lambda>l. io_return (Some (l, t))))"

definition createGcPending :: "string \<Rightarrow> gc_pending \<Rightarrow> (gc_pending \<times> string) io" where
  "createGcPending key initial =
     io_bind (io_lift (assertGcPending (encode_pending initial))) (\<lambda>_.
     io_bind (io_catch (io_put key (BJson (encode_pending initial)) create_only)
                (\<lambda>e. Ret (Inl (translateCasError e)))) (\<lambda>t.
     io_return (initial, t)))"

text \<open>The retry loop with \<open>n\<close> attempts left; the last conflict is rethrown when none is.\<close>

fun cas_pending_loop ::
  "string \<Rightarrow> (gc_pending \<Rightarrow> gc_pending) \<Rightarrow> exn \<Rightarrow> nat \<Rightarrow> (gc_pending \<times> string) io" where
  "cas_pending_loop key mutator lastConflict 0 = Ret (Inl lastConflict)"
| "cas_pending_loop key mutator lastConflict (Suc n) =
     io_bind (readGcPending key) (\<lambda>existing.
     case existing of None \<Rightarrow> io_throw WriteConflict
     | Some (l, t) \<Rightarrow>
         io_bind (io_lift (assertGcPending (encode_pending (mutator l)))) (\<lambda>_.
         prog_bind (io_put key (BJson (encode_pending (mutator l))) (if_match t)) (\<lambda>r.
         case r of
           Inr t' \<Rightarrow> io_return (mutator l, t')
         | Inl e \<Rightarrow>
             if isWriteConflict (translateCasError e)
             then cas_pending_loop key mutator (translateCasError e) n
             else Ret (Inl (translateCasError e)))))"

definition casUpdateGcPending :: "string \<Rightarrow> (gc_pending \<Rightarrow> gc_pending) \<Rightarrow> (gc_pending \<times> string) io" where
  "casUpdateGcPending key mutator =
     cas_pending_loop key mutator (BaerlyError Internal False) GC_PENDING_CAS_MAX_ATTEMPTS"

section \<open>The merge\<close>

record gc_pass =
  sweptKeys :: "string set"
  newCandidates :: "gc_candidate list"
  lastSweptAt :: string
  maxCandidates :: nat

fun append_new :: "string set \<Rightarrow> string set \<Rightarrow> gc_candidate list \<Rightarrow> gc_candidate list" where
  "append_new swept present [] = []"
| "append_new swept present (c # cs) =
     (if cand_key c \<notin> swept \<and> cand_key c \<notin> present
      then c # append_new swept (insert (cand_key c) present) cs
      else append_new swept present cs)"

definition mergeGcPending :: "gc_pending \<Rightarrow> gc_pass \<Rightarrow> gc_pending" where
  "mergeGcPending latest pass =
     (let surviving = filter (\<lambda>c. cand_key c \<notin> sweptKeys pass) (candidates latest);
          appended = append_new (sweptKeys pass) (set (map cand_key surviving)) (newCandidates pass)
      in \<lparr>candidates = take (maxCandidates pass) (surviving @ appended),
          last_swept_at = (if lastSweptAt pass > last_swept_at latest then lastSweptAt pass
                           else last_swept_at latest)\<rparr>)"

section \<open>Lemmas\<close>

lemma reason_roundtrip [simp]: "VALID_REASONS (reason_text r) = Some r"
  by (cases r) (simp_all add: VALID_REASONS_def)

lemma assertCandidate_encode [simp]: "cand_key c \<noteq> [] \<Longrightarrow> assertCandidate (encode_candidate c) = Inr c"
  by (cases "cand_generation c")
    (simp_all add: assertCandidate_def encode_candidate_def is_object_def require_def nonempty_string_def
      reason_value_def optional_def opt_member_def)

definition valid_pending :: "gc_pending \<Rightarrow> bool" where
  "valid_pending l \<longleftrightarrow> (\<forall>c \<in> set (candidates l). cand_key c \<noteq> [])"

lemma result_map_encode:
  "\<forall>c \<in> set cs. cand_key c \<noteq> [] \<Longrightarrow> result_map assertCandidate (map encode_candidate cs) = Inr cs"
  by (induction cs) simp_all

lemma assertGcPending_encode [simp]: "valid_pending l \<Longrightarrow> assertGcPending (encode_pending l) = Inr l"
  by (simp add: assertGcPending_def encode_pending_def is_object_def require_def optional_def
      result_map_encode valid_pending_def)

lemma assertCandidate_key: "assertCandidate j = Inr c \<Longrightarrow> cand_key c \<noteq> []"
  by (auto simp: assertCandidate_def result_bind_def require_def nonempty_string_def
      split: if_splits sum.splits option.splits)

lemma result_map_all: "result_map f xs = Inr ys \<Longrightarrow> y \<in> set ys \<Longrightarrow> \<exists>x. f x = Inr y"
  by (induction xs arbitrary: ys) (auto simp: result_bind_def split: sum.splits)

lemma assertGcPending_valid: "assertGcPending j = Inr l \<Longrightarrow> valid_pending l"
  by (auto simp: assertGcPending_def valid_pending_def result_bind_def
      split: if_splits sum.splits dest!: result_map_all assertCandidate_key)

lemma append_new_keys:
  "set (append_new swept present cs) \<subseteq> set cs"
  "c \<in> set (append_new swept present cs) \<Longrightarrow> cand_key c \<notin> swept \<and> cand_key c \<notin> present"
  by (induction swept present cs rule: append_new.induct) (auto split: if_splits)

lemma append_new_distinct: "distinct (map cand_key (append_new swept present cs))"
  using append_new_keys(2) by (induction swept present cs rule: append_new.induct) fastforce+

lemma append_new_complete:
  "c \<in> set cs \<Longrightarrow> cand_key c \<notin> swept \<Longrightarrow> cand_key c \<notin> present \<Longrightarrow>
   cand_key c \<in> cand_key ` set (append_new swept present cs)"
  by (induction swept present cs rule: append_new.induct) auto

lemma merge_candidates_sub:
  "set (candidates (mergeGcPending latest pass)) \<subseteq> set (candidates latest) \<union> set (newCandidates pass)"
  using append_new_keys(1) by (fastforce simp: mergeGcPending_def Let_def dest: in_set_takeD)

lemma map_disjoint: "\<forall>c \<in> set ys. f c \<notin> set (map f xs) \<Longrightarrow> set (map f xs) \<inter> set (map f ys) = {}"
  by (simp add: disjoint_iff image_iff) metis

lemma merge_distinct:
  assumes "distinct (map cand_key (candidates latest))"
  shows "distinct (map cand_key (candidates (mergeGcPending latest pass)))"
proof -
  let ?sv = "filter (\<lambda>c. cand_key c \<notin> sweptKeys pass) (candidates latest)"
  let ?ap = "append_new (sweptKeys pass) (set (map cand_key ?sv)) (newCandidates pass)"
  have "distinct (map cand_key ?sv)" using assms by (rule distinct_map_filter)
  moreover have "\<forall>c \<in> set ?ap. cand_key c \<notin> set (map cand_key ?sv)"
    using append_new_keys(2) by blast
  then have "set (map cand_key ?sv) \<inter> set (map cand_key ?ap) = {}"
    by (rule map_disjoint)
  ultimately have "distinct (map cand_key (?sv @ ?ap))"
    using append_new_distinct by simp
  then have "distinct (take (maxCandidates pass) (map cand_key (?sv @ ?ap)))" by (rule distinct_take)
  then show ?thesis by (simp only: mergeGcPending_def Let_def gc_pending.simps take_map)
qed

section \<open>Properties\<close>

text \<open>
  (C24) Merging a pass into the ledger: no key the pass resolved stays, every candidate of the latest
  ledger the pass did not resolve and every fresh mark is kept as long as the cap is not exceeded, a
  key is listed at most once, the ledger never outgrows the cap and the sweep time never goes back.
\<close>

theorem merge_keeps_concurrent_marks:
  assumes "distinct (map cand_key (candidates latest))"
  shows "let l = mergeGcPending latest pass;
             keep = {c \<in> set (candidates latest). cand_key c \<notin> sweptKeys pass} in
    (\<forall>c \<in> set (candidates l). cand_key c \<notin> sweptKeys pass) \<and>
    distinct (map cand_key (candidates l)) \<and>
    length (candidates l) \<le> maxCandidates pass \<and>
    last_swept_at latest \<le> last_swept_at l \<and> lastSweptAt pass \<le> last_swept_at l \<and>
    (length (candidates latest) + length (newCandidates pass) \<le> maxCandidates pass \<longrightarrow>
      keep \<subseteq> set (candidates l) \<and>
      (\<forall>c \<in> set (newCandidates pass). cand_key c \<notin> sweptKeys pass \<longrightarrow>
         cand_key c \<in> cand_key ` set (candidates l)))"
proof -
  define sv where "sv = filter (\<lambda>c. cand_key c \<notin> sweptKeys pass) (candidates latest)"
  define ap where "ap = append_new (sweptKeys pass) (set (map cand_key sv)) (newCandidates pass)"
  have cands: "candidates (mergeGcPending latest pass) = take (maxCandidates pass) (sv @ ap)"
    by (simp add: mergeGcPending_def Let_def sv_def ap_def)
  have "length (append_new swept present cs) \<le> length cs" for swept present cs
    by (induction swept present cs rule: append_new.induct) auto
  then have fits: "length (sv @ ap) \<le> length (candidates latest) + length (newCandidates pass)"
    by (simp add: add_mono sv_def ap_def)
  have sv: "c \<in> set sv \<longleftrightarrow> c \<in> set (candidates latest) \<and> cand_key c \<notin> sweptKeys pass" for c
    by (auto simp: sv_def)
  have ap: "c \<in> set ap \<Longrightarrow> cand_key c \<notin> sweptKeys pass" for c
    using append_new_keys(2) unfolding ap_def by blast
  have new: "cand_key c \<in> cand_key ` set (sv @ ap)"
    if "c \<in> set (newCandidates pass)" "cand_key c \<notin> sweptKeys pass" for c
    using append_new_complete [OF that, of "set (map cand_key sv)"] by (auto simp: ap_def)
  have time: "last_swept_at latest \<le> last_swept_at (mergeGcPending latest pass)"
    "lastSweptAt pass \<le> last_swept_at (mergeGcPending latest pass)"
    by (auto simp: mergeGcPending_def Let_def)
  have all: "take (maxCandidates pass) (sv @ ap) = sv @ ap"
    if "length (candidates latest) + length (newCandidates pass) \<le> maxCandidates pass"
    using that fits by simp
  show ?thesis
    unfolding Let_def
  proof (intro conjI impI)
    show "\<forall>c \<in> set (candidates (mergeGcPending latest pass)). cand_key c \<notin> sweptKeys pass"
      unfolding cands using sv ap by (fastforce dest: in_set_takeD)
    show "distinct (map cand_key (candidates (mergeGcPending latest pass)))"
      by (rule merge_distinct [OF assms])
    assume room: "length (candidates latest) + length (newCandidates pass) \<le> maxCandidates pass"
    show "{c \<in> set (candidates latest). cand_key c \<notin> sweptKeys pass} \<subseteq> set (candidates (mergeGcPending latest pass))"
      unfolding cands all [OF room] using sv by auto
    show "\<forall>c \<in> set (newCandidates pass). cand_key c \<notin> sweptKeys pass \<longrightarrow>
        cand_key c \<in> cand_key ` set (candidates (mergeGcPending latest pass))"
      unfolding cands all [OF room] using new by blast
  qed (use time in \<open>simp_all add: cands\<close>)
qed

theorem merge_keeps_concurrent_marks_witness:
  "let c = (\<lambda>k. \<lparr>cand_key = k, due_at = [], cand_reason = OrphanSnapshot, cand_generation = None\<rparr>);
       l = mergeGcPending \<lparr>candidates = [c ''a'', c ''b''], last_swept_at = ''2024''\<rparr>
             \<lparr>sweptKeys = {''a''}, newCandidates = [c ''b'', c ''d''], lastSweptAt = [], maxCandidates = 10\<rparr>
   in length (candidates l) \<le> 10 \<and> (\<forall>c \<in> set (candidates l). cand_key c \<noteq> ''a'') \<and>
      ''d'' \<in> cand_key ` set (candidates l)"
proof -
  let ?c = "\<lambda>k. \<lparr>cand_key = k, due_at = [], cand_reason = OrphanSnapshot, cand_generation = None\<rparr>"
  have "distinct (map cand_key (candidates \<lparr>candidates = [?c ''a'', ?c ''b''], last_swept_at = ''2024''\<rparr>))"
    by simp
  from merge_keeps_concurrent_marks [OF this, of "\<lparr>sweptKeys = {''a''}, newCandidates = [?c ''b'', ?c ''d''],
    lastSweptAt = [], maxCandidates = 10\<rparr>"]
  show ?thesis by (simp add: Let_def)
qed

end
