(* ===== verification/Collection.thy ===== *)
theory Collection
  imports LogRetention GcPending
begin

text \<open>
  One collection in the bucket: what its objects say together, and what any of the kernel's calls
  may do to them. The committed history is a list of log entries that only grows; the slots from the
  delete floor on hold exactly this history, the snapshot the manifest points to holds the fold of
  the part below the live floor. Every program of the kernel is shown, in the theories that follow,
  to keep this under the interference of all the others.
\<close>

section \<open>Reading the bucket\<close>

type_synonym objmap = "string \<Rightarrow> blob stored_object option"

definition collection_of :: "string \<Rightarrow> string" where
  "collection_of p = after_last (CHR ''/'') p"

definition current_of :: "string \<Rightarrow> objmap \<Rightarrow> (current_json \<times> string) option" where
  "current_of p L =
     (case L (currentKey p) of
        None \<Rightarrow> None
      | Some v \<Rightarrow> (case decode_current (body v) of Inl _ \<Rightarrow> None | Inr c \<Rightarrow> Some (c, etag v)))"

definition slot :: "string \<Rightarrow> objmap \<Rightarrow> nat \<Rightarrow> blob option" where
  "slot p L n = map_option body (L (logObjectKey p n))"

definition seq_floor :: "string \<Rightarrow> objmap \<Rightarrow> nat" where
  "seq_floor p L = (case current_of p L of None \<Rightarrow> 0 | Some (c, _) \<Rightarrow> log_seq_start c)"

definition delete_floor :: "string \<Rightarrow> objmap \<Rightarrow> nat" where
  "delete_floor p L = (case current_of p L of None \<Rightarrow> 0 | Some (c, _) \<Rightarrow> logDeleteFloorOf c)"

definition hint_of :: "string \<Rightarrow> objmap \<Rightarrow> nat" where
  "hint_of p L = (case current_of p L of None \<Rightarrow> 0 | Some (c, _) \<Rightarrow> tail_hint c)"

section \<open>The invariant\<close>

text \<open>The documents a history stands for, and the snapshot of its first \<open>n\<close> entries.\<close>

definition view :: "string \<Rightarrow> log_entry list \<Rightarrow> (string \<times> doc) list" where
  "view coll h = foldLogEntriesOnto [] h coll None"

definition snap_of :: "string \<Rightarrow> log_entry list \<Rightarrow> nat \<Rightarrow> snapshot_body" where
  "snap_of coll h n = canonical_body coll n (view coll (take n h))"

definition snap_key :: "string \<Rightarrow> (blob \<Rightarrow> string) \<Rightarrow> snapshot_body \<Rightarrow> string result" where
  "snap_key p sha b = snapshotKey p (sn_min_seq b) (sn_max_seq b) (sha (BSnap b))"

text \<open>
  \<open>B\<close> are the snapshot bodies that compaction runs write; the hash does not collide on them. A call
  is \<open>allowed\<close> when a snapshot it writes is one of them.
\<close>

definition config_ok :: "string \<Rightarrow> (blob \<Rightarrow> string) \<Rightarrow> snapshot_body set \<Rightarrow> bool" where
  "config_ok p sha B \<longleftrightarrow> valid_key p \<and> inj_on (\<lambda>b. sha (BSnap b)) B"

definition allowed :: "snapshot_body set \<Rightarrow> call \<Rightarrow> bool" where
  "allowed B c = (case c of Put _ (BSnap b) _ \<Rightarrow> b \<in> B | _ \<Rightarrow> True)"

definition snapshot_ok ::
  "string \<Rightarrow> (blob \<Rightarrow> string) \<Rightarrow> snapshot_body set \<Rightarrow> objmap \<Rightarrow> current_json \<Rightarrow> log_entry list \<Rightarrow> bool" where
  "snapshot_ok p sha B L c h =
     (case cj_snapshot c of
        None \<Rightarrow> log_seq_start c = 0
      | Some k \<Rightarrow>
          (let b = snap_of (collection_of p) h (log_seq_start c) in
           b \<in> B \<and> snap_key p sha b = Inr k \<and> (\<exists>v. L k = Some v \<and> body v = BSnap b)))"

definition ledger_ok :: "string \<Rightarrow> objmap \<Rightarrow> bool" where
  "ledger_ok p L \<longleftrightarrow>
     (\<forall>v l. L (gcPendingKey p) = Some v \<longrightarrow> decode_pending (body v) = Inr l \<longrightarrow>
        (\<forall>c \<in> set (candidates l). cand_reason c \<noteq> StaleLog))"

definition slots_ok :: "string \<Rightarrow> objmap \<Rightarrow> log_entry list \<Rightarrow> bool" where
  "slots_ok p L h \<longleftrightarrow>
     (\<forall>n \<ge> delete_floor p L. slot p L n = (if n < length h then Some (BLog (h ! n)) else None))"

text \<open>Whatever snapshot body lies under the collection's snapshot prefix was written by a compaction run.\<close>

definition snaps_in :: "string \<Rightarrow> snapshot_body set \<Rightarrow> objmap \<Rightarrow> bool" where
  "snaps_in p B L \<longleftrightarrow> (\<forall>x v b. L (snapshotPrefix p @ x) = Some v \<longrightarrow> body v = BSnap b \<longrightarrow> b \<in> B)"

text \<open>
  What the writer guarantees of an entry: its LSN is minted from a timestamp, the session and the
  sequence of the entry, and its post-image went through JSON.
\<close>

definition entry_ok :: "log_entry \<Rightarrow> bool" where
  "entry_ok e \<longleftrightarrow>
     (\<exists>ms t. timestamp ms = Inr t \<and> le_lsn e = mint_lsn t (le_session e) (int (le_seq e))) \<and>
     (\<forall>d. le_after e = Some d \<longrightarrow> doc_wire d = d)"

definition inv_map ::
  "string \<Rightarrow> (blob \<Rightarrow> string) \<Rightarrow> snapshot_body set \<Rightarrow> objmap \<Rightarrow> log_entry list \<Rightarrow> bool" where
  "inv_map p sha B L h \<longleftrightarrow> config_ok p sha B \<and> ledger_ok p L \<and> snaps_in p B L \<and>
     (L (currentKey p) \<noteq> None \<longrightarrow> current_of p L \<noteq> None) \<and>
     (current_of p L = None \<longrightarrow> h = []) \<and>
     delete_floor p L \<le> seq_floor p L \<and> seq_floor p L \<le> hint_of p L \<and> hint_of p L \<le> length h \<and>
     slots_ok p L h \<and> (\<forall>n < length h. le_seq (h ! n) = n) \<and> (\<forall>e \<in> set h. entry_ok e) \<and>
     (\<forall>c t. current_of p L = Some (c, t) \<longrightarrow> snapshot_ok p sha B L c h)"

definition coll_inv ::
  "string \<Rightarrow> (blob \<Rightarrow> string) \<Rightarrow> snapshot_body set \<Rightarrow> store \<Rightarrow> log_entry list \<Rightarrow> bool" where
  "coll_inv p sha B s h \<longleftrightarrow> wf_storage s \<and> inv_map p sha B (lookup s) h"

definition coll_ok :: "string \<Rightarrow> (blob \<Rightarrow> string) \<Rightarrow> snapshot_body set \<Rightarrow> store \<Rightarrow> bool" where
  "coll_ok p sha B s \<longleftrightarrow> (\<exists>h. coll_inv p sha B s h)"

definition committed :: "string \<Rightarrow> (blob \<Rightarrow> string) \<Rightarrow> snapshot_body set \<Rightarrow> store \<Rightarrow> nat \<Rightarrow> bool" where
  "committed p sha B s n \<longleftrightarrow> (\<exists>h. coll_inv p sha B s h \<and> n \<le> length h)"

section \<open>What a step may do\<close>

definition snapshots_persist ::
  "string \<Rightarrow> (blob \<Rightarrow> string) \<Rightarrow> snapshot_body set \<Rightarrow> objmap \<Rightarrow> objmap \<Rightarrow> bool" where
  "snapshots_persist p sha B L L' \<longleftrightarrow>
     (\<forall>b \<in> B. \<forall>k v. snap_key p sha b = Inr k \<longrightarrow> L k = Some v \<longrightarrow> body v = BSnap b \<longrightarrow>
        seq_floor p L' \<le> sn_max_seq b \<longrightarrow> (\<exists>v'. L' k = Some v' \<and> body v' = BSnap b))"

definition rel_map ::
  "string \<Rightarrow> (blob \<Rightarrow> string) \<Rightarrow> snapshot_body set \<Rightarrow> objmap \<Rightarrow> objmap \<Rightarrow> bool" where
  "rel_map p sha B L L' \<longleftrightarrow>
     (\<forall>h. inv_map p sha B L h \<longrightarrow>
        (\<exists>ext. inv_map p sha B L' (h @ ext)) \<and>
        seq_floor p L \<le> seq_floor p L' \<and> delete_floor p L \<le> delete_floor p L' \<and>
        (current_of p L \<noteq> None \<longrightarrow> current_of p L' \<noteq> None) \<and>
        snapshots_persist p sha B L L')"

definition sys_rel ::
  "string \<Rightarrow> (blob \<Rightarrow> string) \<Rightarrow> snapshot_body set \<Rightarrow> store \<Rightarrow> store \<Rightarrow> bool" where
  "sys_rel p sha B s s' \<longleftrightarrow> store_rel s s' \<and> rel_map p sha B (lookup s) (lookup s')"

lemma snapshots_persist_trans:
  assumes "snapshots_persist p sha B L1 L2" "snapshots_persist p sha B L2 L3"
    and "seq_floor p L2 \<le> seq_floor p L3"
  shows "snapshots_persist p sha B L1 L3"
  using assms unfolding snapshots_persist_def by (meson order_trans)

lemma rel_map_refl [simp]: "rel_map p sha B L L"
proof -
  have "inv_map p sha B L h \<Longrightarrow> \<exists>ext. inv_map p sha B L (h @ ext)" for h
    by (rule exI [of _ "[]"]) simp
  then show ?thesis by (auto simp: rel_map_def snapshots_persist_def)
qed

lemma rel_map_trans:
  assumes "rel_map p sha B L1 L2" "rel_map p sha B L2 L3"
  shows "rel_map p sha B L1 L3"
  unfolding rel_map_def
proof (intro allI impI)
  fix h assume h: "inv_map p sha B L1 h"
  with assms(1) obtain ext where 1: "inv_map p sha B L2 (h @ ext)" "seq_floor p L1 \<le> seq_floor p L2"
    "delete_floor p L1 \<le> delete_floor p L2" "current_of p L1 \<noteq> None \<longrightarrow> current_of p L2 \<noteq> None"
    "snapshots_persist p sha B L1 L2" unfolding rel_map_def by blast
  with assms(2) obtain ext' where 2: "inv_map p sha B L3 ((h @ ext) @ ext')" "seq_floor p L2 \<le> seq_floor p L3"
    "delete_floor p L2 \<le> delete_floor p L3" "current_of p L2 \<noteq> None \<longrightarrow> current_of p L3 \<noteq> None"
    "snapshots_persist p sha B L2 L3" unfolding rel_map_def by blast
  from 2(1) have "\<exists>ext. inv_map p sha B L3 (h @ ext)" by auto
  with 1 2 show "(\<exists>ext. inv_map p sha B L3 (h @ ext)) \<and> seq_floor p L1 \<le> seq_floor p L3 \<and>
      delete_floor p L1 \<le> delete_floor p L3 \<and> (current_of p L1 \<noteq> None \<longrightarrow> current_of p L3 \<noteq> None) \<and>
      snapshots_persist p sha B L1 L3"
    using snapshots_persist_trans [OF 1(5) 2(5) 2(2)] by auto
qed

interpretation col: interference "sys_rel p sha B" "allowed B"
  for p sha B
proof
  show "sys_rel p sha B s s" for s by (simp add: sys_rel_def)
  show "sys_rel p sha B s1 s2 \<Longrightarrow> sys_rel p sha B s2 s3 \<Longrightarrow> sys_rel p sha B s1 s3" for s1 s2 s3
    unfolding sys_rel_def using store_rel_trans rel_map_trans by blast
qed

section \<open>Consequences\<close>

lemma coll_inv_stable: "coll_inv p sha B s h \<Longrightarrow> sys_rel p sha B s s' \<Longrightarrow> \<exists>ext. coll_inv p sha B s' (h @ ext)"
  unfolding coll_inv_def sys_rel_def rel_map_def store_rel_def by blast

lemma coll_ok_stable: "coll_ok p sha B s \<Longrightarrow> sys_rel p sha B s s' \<Longrightarrow> coll_ok p sha B s'"
  unfolding coll_ok_def using coll_inv_stable by blast

lemma committed_stable: "sys_rel p sha B s s' \<Longrightarrow> committed p sha B s n \<Longrightarrow> committed p sha B s' n"
  unfolding committed_def using coll_inv_stable by (metis le_add1 le_trans length_append)

lemma inv_map_slot:
  "inv_map p sha B L h \<Longrightarrow> delete_floor p L \<le> n \<Longrightarrow>
   slot p L n = (if n < length h then Some (BLog (h ! n)) else None)"
  by (simp add: inv_map_def slots_ok_def)

lemma inv_map_floors:
  "inv_map p sha B L h \<Longrightarrow> delete_floor p L \<le> seq_floor p L \<and> seq_floor p L \<le> hint_of p L \<and> hint_of p L \<le> length h"
  by (simp add: inv_map_def)

lemma inv_map_length_unique:
  assumes "inv_map p sha B L h" "inv_map p sha B L h'"
  shows "length h = length h'"
proof -
  have "\<not> length g < length g'" if "inv_map p sha B L g" "inv_map p sha B L g'" for g g'
    using inv_map_slot [OF that(1), of "length g"] inv_map_slot [OF that(2), of "length g"]
      inv_map_floors [OF that(1)] by auto
  from this [OF assms] this [OF assms(2,1)] show ?thesis by simp
qed

lemma committed_length: "committed p sha B s n \<Longrightarrow> coll_inv p sha B s h \<Longrightarrow> n \<le> length h"
  unfolding committed_def coll_inv_def using inv_map_length_unique by metis

lemma occupied_committed:
  assumes "coll_ok p sha B s" "lookup s (logObjectKey p n) \<noteq> None"
  shows "committed p sha B s (Suc n)"
proof -
  from assms(1) obtain h where h: "coll_inv p sha B s h" by (auto simp: coll_ok_def)
  then have i: "inv_map p sha B (lookup s) h" by (simp add: coll_inv_def)
  have "slot p (lookup s) n \<noteq> None" using assms(2) by (simp add: slot_def)
  with inv_map_slot [OF i, of n] inv_map_floors [OF i] have "n < length h"
    by (cases "delete_floor p (lookup s) \<le> n") (auto split: if_splits)
  with h show ?thesis by (auto simp: committed_def)
qed

lemma coll_ok_valid: "coll_ok p sha B s \<Longrightarrow> valid_key p"
  by (auto simp: coll_ok_def coll_inv_def inv_map_def config_ok_def)

text \<open>The tail search of the writer runs against this collection.\<close>

interpretation tail: append_only_log "sys_rel p sha B" "allowed B" p "coll_ok p sha B" "committed p sha B"
  for p sha B
proof unfold_locales
  show "coll_ok p sha B s \<Longrightarrow> lookup s (logObjectKey p n) \<noteq> None \<Longrightarrow> committed p sha B s (Suc n)" for s n
    by (rule occupied_committed)
qed (use coll_ok_valid coll_ok_stable committed_stable in blast)+

lemma slot_persist:
  assumes "coll_ok p sha B s" "sys_rel p sha B s s'" "slot p (lookup s) n = Some b"
    and "delete_floor p (lookup s') \<le> n"
  shows "slot p (lookup s') n = Some b"
proof -
  from assms(1) obtain h where h: "coll_inv p sha B s h" by (auto simp: coll_ok_def)
  with assms(2) obtain ext where e: "coll_inv p sha B s' (h @ ext)" using coll_inv_stable by blast
  have "delete_floor p (lookup s) \<le> delete_floor p (lookup s')"
    using h assms(2) by (auto simp: coll_inv_def sys_rel_def rel_map_def)
  then have "n < length h \<and> b = BLog (h ! n)"
    using assms(3,4) inv_map_slot [of p sha B "lookup s" h n] h
    by (auto simp: coll_inv_def split: if_splits)
  then show ?thesis
    using inv_map_slot [of p sha B "lookup s'" "h @ ext" n] e assms(4)
    by (auto simp: coll_inv_def nth_append)
qed

lemma current_ofD:
  "current_of p L = Some (c, t) \<Longrightarrow> \<exists>v. L (currentKey p) = Some v \<and> decode_current (body v) = Inr c \<and> etag v = t"
  by (auto simp: current_of_def split: option.splits sum.splits)

lemma decode_current_valid: "decode_current b = Inr c \<Longrightarrow> valid_current c"
  by (auto simp: decode_current_def assertCurrentJson_valid split: blob.splits)

lemma current_of_valid: "current_of p L = Some (c, t) \<Longrightarrow> valid_current c"
  by (auto dest!: current_ofD intro: decode_current_valid)

text \<open>An ETag of the manifest names one manifest; while it is in place nothing came between.\<close>

lemma current_same_version:
  assumes "coll_ok p sha B s" "current_of p (lookup s) = Some (c, t)"
    and "sys_rel p sha B s s'" "lookup s' (currentKey p) = Some v'" "etag v' = t"
  shows "current_of p (lookup s') = Some (c, t)"
proof -
  from assms(2) obtain v where v: "lookup s (currentKey p) = Some v" "decode_current (body v) = Inr c" "etag v = t"
    using current_ofD by blast
  have "wf_storage s" using assms(1) by (auto simp: coll_ok_def coll_inv_def)
  then have "v' = v"
    using etag_identifies_version [OF _ v(1) _ assms(4)] assms(3,5) v(3) by (auto simp: sys_rel_def)
  with v assms(4) show ?thesis by (simp add: current_of_def)
qed

lemma current_between:
  assumes "coll_ok p sha B s" "current_of p (lookup s) = Some (c, t)"
    and "sys_rel p sha B s s1" "sys_rel p sha B s1 s2" "current_of p (lookup s2) = Some (c', t)"
  shows "current_of p (lookup s1) = Some (c, t)"
proof -
  from assms(2) obtain v where v: "lookup s (currentKey p) = Some v" "decode_current (body v) = Inr c" "etag v = t"
    using current_ofD by blast
  from assms(5) obtain v2 where v2: "lookup s2 (currentKey p) = Some v2" "etag v2 = t" using current_ofD by blast
  have wf: "wf_storage s" using assms(1) by (auto simp: coll_ok_def coll_inv_def)
  have rel: "store_rel s s1" "store_rel s1 s2" using assms(3,4) by (simp_all add: sys_rel_def)
  have "v2 = v" using etag_identifies_version [OF wf v(1) store_rel_trans [OF rel] v2(1)] v2(2) v(3) by simp
  then have "lookup s1 (currentKey p) = Some v" using version_between [OF wf v(1) rel] v2(1) by simp
  with v show ?thesis by (simp add: current_of_def)
qed

section \<open>Steps that keep the invariant\<close>

lemma current_of_frame: "L' (currentKey p) = L (currentKey p) \<Longrightarrow> current_of p L' = current_of p L"
  by (simp add: current_of_def)

lemma floors_frame:
  assumes "current_of p L' = current_of p L"
  shows "seq_floor p L' = seq_floor p L" "delete_floor p L' = delete_floor p L" "hint_of p L' = hint_of p L"
  using assms by (simp_all add: seq_floor_def delete_floor_def hint_of_def)

text \<open>The pointed-to snapshot is among those that persist.\<close>

lemma snapshot_ok_persist:
  assumes "snapshot_ok p sha B L c h" "snapshots_persist p sha B L L'" "seq_floor p L' \<le> log_seq_start c"
    and "take (log_seq_start c) h' = take (log_seq_start c) h"
  shows "snapshot_ok p sha B L' c h'"
proof (cases "cj_snapshot c")
  case (Some k)
  let ?b = "snap_of (collection_of p) h (log_seq_start c)"
  have same: "snap_of (collection_of p) h' (log_seq_start c) = ?b" by (simp add: snap_of_def assms(4))
  from assms(1) Some obtain v where "?b \<in> B" "snap_key p sha ?b = Inr k" "L k = Some v" "body v = BSnap ?b"
    by (auto simp: snapshot_ok_def Let_def)
  moreover have "sn_max_seq ?b = log_seq_start c" by (simp add: snap_of_def canonical_body_def)
  ultimately show ?thesis
    using assms(2,3) Some same unfolding snapshots_persist_def snapshot_ok_def Let_def by auto
qed (use assms in \<open>simp add: snapshot_ok_def\<close>)

text \<open>A step that leaves the manifest and the live slots alone.\<close>

lemma rel_map_frame:
  assumes cur: "L' (currentKey p) = L (currentKey p)"
    and slots: "\<And>n. delete_floor p L \<le> n \<Longrightarrow> slot p L' n = slot p L n"
    and ledger: "ledger_ok p L \<Longrightarrow> ledger_ok p L'"
    and snaps: "config_ok p sha B \<Longrightarrow> snapshots_persist p sha B L L'"
    and bodies: "snaps_in p B L \<Longrightarrow> snaps_in p B L'"
  shows "rel_map p sha B L L'"
  unfolding rel_map_def
proof (intro allI impI)
  fix h assume inv: "inv_map p sha B L h"
  have c: "current_of p L' = current_of p L" using cur by (rule current_of_frame)
  have persist: "snapshots_persist p sha B L L'" using inv snaps by (simp add: inv_map_def)
  have snap: "snapshot_ok p sha B L' cj h" if "current_of p L = Some (cj, t)" for cj t
    using snapshot_ok_persist [OF _ persist _ refl, of cj h] inv that
    by (auto simp: inv_map_def seq_floor_def c)
  have "inv_map p sha B L' h"
    using inv slots ledger snap cur bodies by (auto simp: inv_map_def slots_ok_def floors_frame [OF c] c)
  then have "inv_map p sha B L' (h @ [])" by simp
  then show "(\<exists>ext. inv_map p sha B L' (h @ ext)) \<and> seq_floor p L \<le> seq_floor p L' \<and>
      delete_floor p L \<le> delete_floor p L' \<and> (current_of p L \<noteq> None \<longrightarrow> current_of p L' \<noteq> None) \<and>
      snapshots_persist p sha B L L'"
    using persist floors_frame [OF c] c by (metis order_refl)
qed

lemma snaps_in_same: "(\<And>x. L' (snapshotPrefix p @ x) = L (snapshotPrefix p @ x)) \<Longrightarrow> snaps_in p B L \<Longrightarrow> snaps_in p B L'"
  by (simp add: snaps_in_def)

lemma snaps_in_upd: "snaps_in p B L \<Longrightarrow> (\<And>v b. o' = Some v \<Longrightarrow> body v = BSnap b \<Longrightarrow> b \<in> B) \<Longrightarrow> snaps_in p B (L(k := o'))"
  by (auto simp: snaps_in_def split: if_splits)

lemma snapshots_persist_same:
  "(\<And>x. L' (snapshotPrefix p @ x) = L (snapshotPrefix p @ x)) \<Longrightarrow> snapshots_persist p sha B L L'"
  unfolding snapshots_persist_def snap_key_def by (metis snapshotKey_prefix)

text \<open>A write outside the collection's own objects, such as an index marker.\<close>

lemma rel_map_elsewhere:
  assumes "\<And>k. k = currentKey p \<or> (\<exists>n. k = logObjectKey p n) \<or> k = gcPendingKey p \<or> (\<exists>x. k = snapshotPrefix p @ x) \<Longrightarrow>
      L' k = L k"
  shows "rel_map p sha B L L'"
  by (rule rel_map_frame)
    (use assms in \<open>auto simp: slot_def ledger_ok_def intro!: snapshots_persist_same elim!: snaps_in_same [rotated]\<close>)

text \<open>Writing a snapshot.\<close>

lemma rel_map_snapshot_put:
  assumes "b \<in> B" "snap_key p sha b = Inr k" "body v = BSnap b"
  shows "rel_map p sha B L (L(k \<mapsto> v))"
proof (rule rel_map_frame)
  obtain x where k: "k = snapshotPrefix p @ x" using assms(2) snapshotKey_prefix unfolding snap_key_def by blast
  show "(L(k \<mapsto> v)) (currentKey p) = L (currentKey p)" by (simp add: k)
  show "slot p (L(k \<mapsto> v)) n = slot p L n" for n by (simp add: k slot_def)
  show "ledger_ok p L \<Longrightarrow> ledger_ok p (L(k \<mapsto> v))" by (simp add: k ledger_ok_def)
  show "snaps_in p B L \<Longrightarrow> snaps_in p B (L(k \<mapsto> v))" using assms(1,3) by (auto intro: snaps_in_upd)
  assume "config_ok p sha B"
  then have inj: "inj_on (\<lambda>b. sha (BSnap b)) B" by (simp add: config_ok_def)
  have same: "b' = b" if "b' \<in> B" "snap_key p sha b' = Inr k" for b'
    using snapshotKey_inj [OF that(2) [unfolded snap_key_def] assms(2) [unfolded snap_key_def]]
      inj_onD [OF inj _ that(1) assms(1)] by simp
  show "snapshots_persist p sha B L (L(k \<mapsto> v))"
    unfolding snapshots_persist_def
  proof (intro ballI allI impI)
    fix b' k' v' assume b': "b' \<in> B" "snap_key p sha b' = Inr k'" "L k' = Some v'" "body v' = BSnap b'"
    then show "\<exists>v'. (L(k \<mapsto> v)) k' = Some v' \<and> body v' = BSnap b'"
      using same [OF b'(1)] assms(3) by (cases "k' = k") auto
  qed
qed

text \<open>Deleting a snapshot below the live floor.\<close>

lemma rel_map_snapshot_delete:
  assumes "parseMaxSeqFromCanonicalSnapshotKey k p = Some m" "m < seq_floor p L"
  shows "rel_map p sha B L (L(k := None))"
proof (rule rel_map_frame)
  obtain x where k: "k = snapshotPrefix p @ x" using assms(1) parse_prefix by blast
  show c: "(L(k := None)) (currentKey p) = L (currentKey p)" by (simp add: k)
  show "slot p (L(k := None)) n = slot p L n" for n by (simp add: k slot_def)
  show "ledger_ok p L \<Longrightarrow> ledger_ok p (L(k := None))" by (simp add: k ledger_ok_def)
  show "snaps_in p B L \<Longrightarrow> snaps_in p B (L(k := None))" by (auto intro: snaps_in_upd)
  have floor: "seq_floor p (L(k := None)) = seq_floor p L" 
    by (rule floors_frame(1), rule current_of_frame, rule c)
  show "snapshots_persist p sha B L (L(k := None))"
    unfolding snapshots_persist_def
  proof (intro ballI allI impI)
    fix b k' v
    assume b: "snap_key p sha b = Inr k'" "L k' = Some v" "body v = BSnap b" "seq_floor p (L(k := None)) \<le> sn_max_seq b"
    have "parseMaxSeqFromCanonicalSnapshotKey k' p = Some (sn_max_seq b)"
      using b(1) parse_snapshotKey unfolding snap_key_def by blast
    then have "k' \<noteq> k" using assms b(4) floor by auto
    then show "\<exists>v'. (L(k := None)) k' = Some v' \<and> body v' = BSnap b" using b by simp
  qed
qed

text \<open>Deleting a log object below the delete floor.\<close>

lemma rel_map_retire:
  assumes "n < delete_floor p L"
  shows "rel_map p sha B L (L(logObjectKey p n := None))"
  by (rule rel_map_frame)
    (use assms in \<open>auto simp: slot_def ledger_ok_def intro!: snapshots_persist_same elim!: snaps_in_same [rotated]\<close>)

text \<open>Writing the ledger.\<close>

lemma rel_map_ledger:
  assumes "\<And>l c. decode_pending (body v) = Inr l \<Longrightarrow> c \<in> set (candidates l) \<Longrightarrow> cand_reason c \<noteq> StaleLog"
  shows "rel_map p sha B L (L(gcPendingKey p \<mapsto> v))"
  by (rule rel_map_frame)
    (use assms in \<open>auto simp: slot_def ledger_ok_def intro!: snapshots_persist_same elim!: snaps_in_same [rotated]\<close>)

text \<open>Committing: creating a log object in an empty slot not past the committed history.\<close>

lemma rel_map_commit:
  assumes empty: "L (logObjectKey p n) = None" and v: "body v = BLog e" "le_seq e = n" "entry_ok e"
    and cur: "current_of p L \<noteq> None" and bound: "\<And>h. inv_map p sha B L h \<Longrightarrow> n \<le> length h"
  shows "rel_map p sha B L (L(logObjectKey p n \<mapsto> v))"
  unfolding rel_map_def
proof (intro allI impI)
  let ?L' = "L(logObjectKey p n \<mapsto> v)"
  fix h assume inv: "inv_map p sha B L h"
  have c: "current_of p ?L' = current_of p L" by (rule current_of_frame) simp
  have persist: "snapshots_persist p sha B L ?L'" by (rule snapshots_persist_same) simp
  have slots: "slot p ?L' m = (if m = n then Some (BLog e) else slot p L m)" for m
    using v by (simp add: slot_def)
  have ledger: "ledger_ok p ?L'" using inv by (simp add: inv_map_def ledger_ok_def)
  have bodies: "snaps_in p B ?L'" using inv by (simp add: inv_map_def snaps_in_def)
  define ext where "ext = (if n = length h then [e] else [])"
  have dead: "n < delete_floor p L" if "n \<noteq> length h"
    using inv_map_slot [OF inv, of n] bound [OF inv] that empty by (fastforce simp: slot_def not_le)
  have "slots_ok p ?L' (h @ ext)"
    using inv_map_slot [OF inv] dead inv_map_floors [OF inv]
    by (auto simp: slots_ok_def slots floors_frame [OF c] ext_def nth_append)
  moreover have "\<forall>m < length (h @ ext). le_seq ((h @ ext) ! m) = m" "\<forall>x \<in> set (h @ ext). entry_ok x"
    using inv v(2,3) by (auto simp: inv_map_def ext_def nth_append)
  moreover have "snapshot_ok p sha B ?L' cj (h @ ext)" if "current_of p L = Some (cj, t)" for cj t
  proof (rule snapshot_ok_persist [OF _ persist])
    show "snapshot_ok p sha B L cj h" using inv that by (simp add: inv_map_def)
    show "seq_floor p ?L' \<le> log_seq_start cj" using that c by (simp add: seq_floor_def)
    show "take (log_seq_start cj) (h @ ext) = take (log_seq_start cj) h"
      using inv_map_floors [OF inv] that by (simp add: seq_floor_def)
  qed
  ultimately have "inv_map p sha B ?L' (h @ ext)"
    using inv cur ledger bodies c floors_frame [OF c] by (auto simp: inv_map_def)
  then show "(\<exists>ext. inv_map p sha B ?L' (h @ ext)) \<and> seq_floor p L \<le> seq_floor p ?L' \<and>
      delete_floor p L \<le> delete_floor p ?L' \<and> (current_of p L \<noteq> None \<longrightarrow> current_of p ?L' \<noteq> None) \<and>
      snapshots_persist p sha B L ?L'"
    using persist floors_frame [OF c] c by auto
qed

text \<open>Replacing the manifest: floors go up, the hint stays within the history, the snapshot is right.\<close>

lemma rel_map_current:
  assumes old: "current_of p L = Some (c, t)" and new: "decode_current (body v) = Inr c'"
    and trans: "assertCurrentJsonTransition c c' = Inr ()"
    and hint: "\<And>h. inv_map p sha B L h \<Longrightarrow> tail_hint c' \<le> length h"
    and snap: "\<And>h. inv_map p sha B L h \<Longrightarrow> snapshot_ok p sha B L c' h"
  shows "rel_map p sha B L (L(currentKey p \<mapsto> v))"
  unfolding rel_map_def
proof (intro allI impI)
  let ?L' = "L(currentKey p \<mapsto> v)"
  fix h assume inv: "inv_map p sha B L h"
  have c': "current_of p ?L' = Some (c', etag v)" using new by (simp add: current_of_def)
  have t: "log_seq_start c \<le> log_seq_start c'" "logDeleteFloorOf c \<le> logDeleteFloorOf c'"
    "logDeleteFloorOf c' \<le> log_seq_start c'"
    using trans by (auto simp: assertCurrentJsonTransition_def split: if_splits)
  have le: "log_seq_start c' \<le> tail_hint c'" using decode_current_valid [OF new] by (simp add: valid_current_def)
  have floors: "delete_floor p L \<le> delete_floor p ?L'" "seq_floor p L \<le> seq_floor p ?L'"
    using t old c' by (simp_all add: delete_floor_def seq_floor_def)
  have persist: "snapshots_persist p sha B L ?L'" by (rule snapshots_persist_same) simp
  have "slots_ok p ?L' h"
    using inv_map_slot [OF inv] floors(1) by (simp add: slots_ok_def slot_def)
  moreover have "snapshot_ok p sha B ?L' c' h"
    using snap [OF inv] by (rule snapshot_ok_persist [OF _ persist _ refl]) (simp add: seq_floor_def c')
  ultimately have "inv_map p sha B ?L' (h @ [])"
    using inv t le hint [OF inv] old c'
    by (auto simp: inv_map_def ledger_ok_def snaps_in_def delete_floor_def seq_floor_def hint_of_def)
  then show "(\<exists>ext. inv_map p sha B ?L' (h @ ext)) \<and> seq_floor p L \<le> seq_floor p ?L' \<and>
      delete_floor p L \<le> delete_floor p ?L' \<and> (current_of p L \<noteq> None \<longrightarrow> current_of p ?L' \<noteq> None) \<and>
      snapshots_persist p sha B L ?L'"
    using floors persist c' by blast
qed

text \<open>Provisioning: the first manifest of a collection.\<close>

lemma rel_map_provision:
  assumes absent: "L (currentKey p) = None" and new: "decode_current (body v) = Inr c"
    and c: "cj_snapshot c = None" "tail_hint c = 0" "log_delete_floor c = None"
  shows "rel_map p sha B L (L(currentKey p \<mapsto> v))"
  unfolding rel_map_def
proof (intro allI impI)
  let ?L' = "L(currentKey p \<mapsto> v)"
  fix h assume inv: "inv_map p sha B L h"
  have none: "current_of p L = None" using absent by (simp add: current_of_def)
  then have h: "h = []" using inv by (simp add: inv_map_def)
  have c': "current_of p ?L' = Some (c, etag v)" using new by (simp add: current_of_def)
  have start: "log_seq_start c = 0" using decode_current_valid [OF new] c(2) by (simp add: valid_current_def)
  have persist: "snapshots_persist p sha B L ?L'" by (rule snapshots_persist_same) simp
  have "slots_ok p ?L' []"
    using inv_map_slot [OF inv] h none by (simp add: slots_ok_def slot_def delete_floor_def)
  then have "inv_map p sha B ?L' (h @ [])"
    using inv c start c' h
    by (auto simp: inv_map_def ledger_ok_def snaps_in_def delete_floor_def seq_floor_def hint_of_def snapshot_ok_def logDeleteFloorOf_def)
  then have "\<exists>ext. inv_map p sha B ?L' (h @ ext)" by blast
  then show "(\<exists>ext. inv_map p sha B ?L' (h @ ext)) \<and> seq_floor p L \<le> seq_floor p ?L' \<and>
      delete_floor p L \<le> delete_floor p ?L' \<and> (current_of p L \<noteq> None \<longrightarrow> current_of p ?L' \<noteq> None) \<and>
      snapshots_persist p sha B L ?L'"
    using persist none by (auto simp: seq_floor_def delete_floor_def)
qed

end
