(* ===== verification/Compaction.thy ===== *)
theory Compaction
  imports Collection
begin

text \<open>
  Compaction and log retention among other threads: every call they issue keeps the collection's
  invariant, whatever the other threads do in between and whichever calls fail. The facts a run
  gathers from the bucket hold for as long as the manifest it read is in place, which is what its
  conditional write checks.
\<close>

section \<open>Manifest reads and writes\<close>

lemma sys_rel_put:
  assumes "valid_key k \<Longrightarrow> put_allowed opts (lookup s k) \<Longrightarrow>
      rel_map p sha B (lookup s) ((lookup s)(k \<mapsto> \<lparr>body = b, etag = etag_of (etagCounter s + 1)\<rparr>))"
  shows "sys_rel p sha B s (snd (memory_put k b opts s))"
proof (cases "valid_key k \<and> put_allowed opts (lookup s k)")
  case True
  then show ?thesis
    using store_rel_put [of s k b opts] assms by (simp add: sys_rel_def memory_put_cases)
next
  case False
  then have "snd (memory_put k b opts s) = s"
    by (cases "valid_key k") (simp_all add: memory_put_cases memory_put_invalid)
  then show ?thesis by (simp add: col.R_refl)
qed

lemma memory_put_Inr:
  assumes "memory_put k b opts s = (Inr t, s')"
  shows "lookup s' = (lookup s)(k \<mapsto> \<lparr>body = b, etag = t\<rparr>) \<and> put_allowed opts (lookup s k)"
proof -
  have "valid_key k"
    using assms by (cases "assertValidStorageKey k") (simp_all add: memory_put_def)
  then show ?thesis using assms by (auto simp: memory_put_cases split: if_splits)
qed

lemma sys_rel_delete:
  assumes "rel_map p sha B (lookup s) ((lookup s)(k := None))"
  shows "sys_rel p sha B s (snd (memory_delete k s))"
  using assms store_rel_delete [of s k]
  by (auto simp: sys_rel_def memory_delete_def split: sum.splits)

lemma wp_readCurrent:
  assumes "coll_ok p sha B s"
  shows "wp (sys_rel p sha B) (allowed B) (readCurrentJson (currentKey p))
    (\<lambda>r s'. \<forall>x. r = Inr x \<longrightarrow> x = current_of p (lookup s')) s"
  unfolding readCurrentJson_def
proof (rule wp_io_bind, rule col.wp_get, goal_cases)
  case (2 s1)
  then obtain h where "inv_map p sha B (lookup s1) h"
    using coll_ok_stable [OF assms] by (auto simp: coll_ok_def coll_inv_def)
  then have "lookup s1 (currentKey p) \<noteq> None \<longrightarrow> current_of p (lookup s1) \<noteq> None"
    by (simp add: inv_map_def)
  then show ?case
    by (auto simp: current_of_def io_lift_def io_bind_def split: option.splits sum.splits)
qed (use coll_ok_valid [OF assms] in auto)

text \<open>
  Replacing the manifest \<open>c\<close> that was read under ETag \<open>t\<close>: it is enough that the new one is right in
  every state in which the old one is still in place.
\<close>

lemma wp_replace_current:
  assumes s0: "coll_ok p sha B s0" "current_of p (lookup s0) = Some (c, t)" "sys_rel p sha B s0 s"
    and valid: "valid_current c'" and trans: "assertCurrentJsonTransition c c' = Inr ()"
    and right: "\<And>s1 h. sys_rel p sha B s s1 \<Longrightarrow> current_of p (lookup s1) = Some (c, t) \<Longrightarrow>
      coll_inv p sha B s1 h \<Longrightarrow> tail_hint c' \<le> length h \<and> snapshot_ok p sha B (lookup s1) c' h"
  shows "wp (sys_rel p sha B) (allowed B) (io_put (currentKey p) (BJson (encode_current c')) (if_match t))
    (\<lambda>r s'. \<forall>t'. r = Inr t' \<longrightarrow> current_of p (lookup s') = Some (c', t')) s"
proof (rule col.wp_put)
  fix s1 r s2
  assume rel: "sys_rel p sha B s s1" and put: "memory_put (currentKey p) (BJson (encode_current c')) (if_match t) s1 = (r, s2)"
  have s1: "sys_rel p sha B s0 s1" using s0(3) rel by (rule col.R_trans)
  have wf: "wf_storage s1" using coll_ok_stable [OF s0(1) s1] by (auto simp: coll_ok_def coll_inv_def)
  have "rel_map p sha B (lookup s1) ((lookup s1)(currentKey p \<mapsto> \<lparr>body = BJson (encode_current c'), etag = e\<rparr>))"
    if "put_allowed (if_match t) (lookup s1 (currentKey p))" for e
  proof -
    from that obtain v where v: "lookup s1 (currentKey p) = Some v" "etag v = t"
      by (auto simp: put_allowed_def)
    then have cur: "current_of p (lookup s1) = Some (c, t)"
      using current_same_version [OF s0(1,2) s1] by simp
    show ?thesis
    proof (rule rel_map_current [OF cur _ trans])
      show "decode_current (body \<lparr>body = BJson (encode_current c'), etag = e\<rparr>) = Inr c'"
        using valid by (simp add: decode_current_def)
    qed (use right [OF rel cur] wf in \<open>auto simp: coll_inv_def\<close>)
  qed
  then have "sys_rel p sha B s1 s2" using sys_rel_put [of "currentKey p" "if_match t" s1] put by (metis snd_conv)
  moreover have "current_of p (lookup s2) = Some (c', t')" if "r = Inr t'" for t'
    using memory_put_Inr [of "currentKey p"] put that valid by (fastforce simp: current_of_def decode_current_def)
  ultimately show "sys_rel p sha B s1 s2 \<and> (\<forall>t'. r = Inr t' \<longrightarrow> current_of p (lookup s2) = Some (c', t')) \<and>
    (\<forall>e. may_lose_ack e \<longrightarrow> (\<forall>t'. Inl e = Inr t' \<longrightarrow> current_of p (lookup s2) = Some (c', t')))" by simp
qed simp

text \<open>Replacements that keep the snapshot and the live floor.\<close>

lemma wp_cas_put:
  assumes "wp R A (io_put k (BJson (encode_current c)) opts) (\<lambda>r s'. \<forall>t'. r = Inr t' \<longrightarrow> X t' s') s"
  shows "wp R A (cas_put k c opts) (\<lambda>r s'. \<forall>t'. r = Inr t' \<longrightarrow> X t' s') s"
  unfolding cas_put_def
  by (rule wp_io_catch, rule wp_mono [OF assms]) (auto split: sum.splits)

lemma right_same_snapshot:
  assumes "cj_snapshot c' = cj_snapshot c" "log_seq_start c' = log_seq_start c"
    and "tail_hint c' \<le> max (tail_hint c) n" "committed p sha B s1 n"
    and "current_of p (lookup s1) = Some (c, t)" "coll_inv p sha B s1 h"
  shows "tail_hint c' \<le> length h \<and> snapshot_ok p sha B (lookup s1) c' h"
proof -
  have inv: "inv_map p sha B (lookup s1) h" using assms(6) by (simp add: coll_inv_def)
  have "tail_hint c \<le> length h" using inv_map_floors [OF inv] assms(5) by (simp add: hint_of_def)
  moreover have "n \<le> length h" using committed_length [OF assms(4,6)] .
  moreover have "snapshot_ok p sha B (lookup s1) c h" using inv assms(5) by (simp add: inv_map_def)
  moreover have "snapshot_ok p sha B (lookup s1) c' h = snapshot_ok p sha B (lookup s1) c h"
    by (simp only: snapshot_ok_def assms(1,2))
  ultimately show ?thesis using assms(3) by auto
qed

section \<open>Read-modify-write of the manifest\<close>

text \<open>A mutator that keeps the snapshot and the live floor and raises the hint to \<open>n\<close> at most.\<close>

definition benign :: "nat \<Rightarrow> (current_json \<Rightarrow> (current_json \<times> 'a) result) \<Rightarrow> bool" where
  "benign n f \<longleftrightarrow> (\<forall>c c' a. f c = Inr (c', a) \<longrightarrow>
     cj_snapshot c' = cj_snapshot c \<and> log_seq_start c' = log_seq_start c \<and> tail_hint c' \<le> max (tail_hint c) n)"

abbreviation safe :: "string \<Rightarrow> (blob \<Rightarrow> string) \<Rightarrow> snapshot_body set \<Rightarrow> 'a prog \<Rightarrow> store \<Rightarrow> bool" where
  "safe p sha B m s \<equiv> wp (sys_rel p sha B) (allowed B) m (\<lambda>_ _. True) s"

lemma wp_replace_benign:
  assumes s0: "coll_ok p sha B s0" "current_of p (lookup s0) = Some (c, t)" "sys_rel p sha B s0 s"
    and same: "cj_snapshot c' = cj_snapshot c" "log_seq_start c' = log_seq_start c" "tail_hint c' \<le> max (tail_hint c) n"
    and n: "committed p sha B s n" and valid: "valid_current c'" and trans: "assertCurrentJsonTransition c c' = Inr ()"
  shows "wp (sys_rel p sha B) (allowed B) (cas_put (currentKey p) c' (if_match t))
    (\<lambda>r s'. \<forall>t'. r = Inr t' \<longrightarrow> current_of p (lookup s') = Some (c', t')) s"
proof (rule wp_cas_put, rule wp_replace_current [OF s0 valid trans])
  fix s1 h assume "sys_rel p sha B s s1" "current_of p (lookup s1) = Some (c, t)" "coll_inv p sha B s1 h"
  then show "tail_hint c' \<le> length h \<and> snapshot_ok p sha B (lookup s1) c' h"
    using right_same_snapshot [OF same] committed_stable [OF _ n] by blast
qed

lemma wp_casUpdateCurrentJson:
  assumes ok: "coll_ok p sha B s" and f: "benign n f" and n: "committed p sha B s n"
  shows "wp (sys_rel p sha B) (allowed B) (casUpdateCurrentJson (currentKey p) f)
    (\<lambda>r s'. \<forall>x. r = Inr x \<longrightarrow> (case x of (c', t', a) \<Rightarrow>
       current_of p (lookup s') = Some (c', t') \<and> (\<exists>c. f c = Inr (c', a)))) s"
  unfolding casUpdateCurrentJson_def
proof (rule col.wp_seq [OF wp_readCurrent [OF ok]])
  fix x s1 assume rel: "sys_rel p sha B s s1" and x: "x = current_of p (lookup s1)"
  let ?Q = "\<lambda>r s'. \<forall>x. r = Inr x \<longrightarrow> (case x of (c', t', a) \<Rightarrow>
       current_of p (lookup s') = Some (c', t') \<and> (\<exists>c. f c = Inr (c', a)))"
  have ok1: "coll_ok p sha B s1" using coll_ok_stable [OF ok rel] .
  show "wp (sys_rel p sha B) (allowed B)
      (case x of None \<Rightarrow> io_throw InvalidResponse
       | Some (c, t) \<Rightarrow> io_bind (io_lift (f c)) (\<lambda>(next, out).
           io_bind (io_lift (assertCurrentJson (encode_current next))) (\<lambda>_.
           io_bind (io_lift (assertCurrentJsonTransition c next)) (\<lambda>_.
           io_bind (cas_put (currentKey p) next (if_match t)) (\<lambda>t'. io_return (next, t', out)))))) ?Q s1"
  proof (cases x)
    case (Some ct)
    obtain c t where ct: "ct = (c, t)" by fastforce
    have cur: "current_of p (lookup s1) = Some (c, t)" using x Some ct by simp
    have step: "wp (sys_rel p sha B) (allowed B)
        (io_bind (cas_put (currentKey p) c' (if_match t)) (\<lambda>t'. io_return (c', t', a))) ?Q s1"
      if c': "f c = Inr (c', a)" "valid_current c'" "assertCurrentJsonTransition c c' = Inr ()" for c' a
    proof (rule col.wp_seq [OF wp_replace_benign [OF ok1 cur col.R_refl _ _ _ committed_stable [OF rel n] c'(2,3)]])
      show "cj_snapshot c' = cj_snapshot c" "log_seq_start c' = log_seq_start c" "tail_hint c' \<le> max (tail_hint c) n"
        using f c'(1) unfolding benign_def by blast+
    qed (use c' in auto)
    show ?thesis
      using Some ct step assertCurrentJson_encode_valid
      by (auto simp: io_lift_def io_bind_def [of "Ret _"] split: sum.splits)
  qed simp
qed simp

section \<open>Retention\<close>

lemma delete_floor_mono:
  "coll_ok p sha B s \<Longrightarrow> sys_rel p sha B s s' \<Longrightarrow> delete_floor p (lookup s) \<le> delete_floor p (lookup s')"
  by (auto simp: coll_ok_def coll_inv_def sys_rel_def rel_map_def)

lemma committed_0: "coll_ok p sha B s \<Longrightarrow> committed p sha B s 0"
  by (auto simp: coll_ok_def committed_def)

lemma wp_delete_slots:
  assumes "coll_ok p sha B s" "\<forall>n \<in> set ns. n < delete_floor p (lookup s)"
  shows "safe p sha B (delete_slots p ns) s"
  unfolding delete_slots_def
proof (rule col.wp_delete_all)
  fix k s1 r s2
  assume "k \<in> set (map (logObjectKey p) ns)" and s1: "sys_rel p sha B s s1" and del: "memory_delete k s1 = (r, s2)"
  then obtain n where "k = logObjectKey p n" "n \<in> set ns" by auto
  moreover from this have "n < delete_floor p (lookup s1)"
    using assms delete_floor_mono [OF assms(1) s1] by fastforce
  ultimately show "sys_rel p sha B s1 s2"
    using sys_rel_delete [OF rel_map_retire, of n p s1] del by (metis snd_conv)
qed

lemma dirname_currentKey [simp]: "dirname (currentKey p) = p"
proof -
  have "after_last (CHR ''/'') (p @ ''/current.json'') = ''current.json''"
    using split_on_append_sep [of "CHR ''/''" p "''current.json''"] by (simp add: after_last_def)
  then show ?thesis by (simp add: dirname_def currentKey_def)
qed

lemma benign_retire: "benign 0 (retire_mutator opts)"
  by (auto simp: benign_def retire_mutator_def split: prod.splits if_splits)

lemma retire_mutator_floor:
  "retire_mutator opts c = Inr (c', start, stop) \<Longrightarrow> logDeleteFloorOf c' = stop \<and> start < stop"
  by (auto simp: retire_mutator_def logDeleteFloorOf_def split: prod.splits if_splits)

lemma wp_retireLogRange:
  assumes "coll_ok p sha B s"
  shows "safe p sha B (retireLogRange (currentKey p) opts) s"
  unfolding retireLogRange_def
proof (rule col.wp_seq [OF wp_readCurrent [OF assms]])
  fix x s1 assume rel: "sys_rel p sha B s s1"
  have ok1: "coll_ok p sha B s1" using coll_ok_stable [OF assms rel] .
  have cas: "safe p sha B (io_bind (casUpdateCurrentJson (currentKey p) (retire_mutator opts))
      (\<lambda>(published, _, start, stop). if logDeleteFloorOf published \<noteq> stop then io_throw Internal
        else io_bind (delete_slots (dirname (currentKey p)) [start ..< stop]) (\<lambda>_. io_return (stop - start)))) s1"
  proof (rule col.wp_seq [OF wp_casUpdateCurrentJson [OF ok1 benign_retire committed_0 [OF ok1]]], clarsimp)
    fix c t start s2 c0
    assume rel2: "sys_rel p sha B s1 s2" and cur: "current_of p (lookup s2) = Some (c, t)"
      and mut: "retire_mutator opts c0 = Inr (c, start, logDeleteFloorOf c)"
    have "\<forall>n \<in> set [start ..< logDeleteFloorOf c]. n < delete_floor p (lookup s2)"
      using cur by (simp add: delete_floor_def)
    then show "safe p sha B (io_bind (delete_slots p [start ..< logDeleteFloorOf c])
        (\<lambda>_. io_return (logDeleteFloorOf c - start))) s2"
      by (intro col.wp_seq [where X = "\<lambda>_ _. True"] wp_mono [OF wp_delete_slots [OF coll_ok_stable [OF ok1 rel2]]]) auto
  qed simp
  show "safe p sha B (case x of None \<Rightarrow> io_return 0
      | Some (json, _) \<Rightarrow> (let (gstart, gend) = computeRetirableRange json opts in
          if gstart \<ge> gend then io_return 0
          else io_bind (casUpdateCurrentJson (currentKey p) (retire_mutator opts))
            (\<lambda>(published, _, start, stop). if logDeleteFloorOf published \<noteq> stop then io_throw Internal
              else io_bind (delete_slots (dirname (currentKey p)) [start ..< stop]) (\<lambda>_. io_return (stop - start))))) s1"
    using cas by (auto split: option.splits prod.splits)
qed simp

section \<open>The writer fence\<close>

lemma wp_claimWriter:
  assumes "coll_ok p sha B s"
  shows "safe p sha B (claimWriter (currentKey p) own date) s"
  unfolding claimWriter_def Let_def
proof (rule col.wp_seq [OF wp_readCurrent [OF assms]])
  fix x s1 assume rel: "sys_rel p sha B s s1" and x: "x = current_of p (lookup s1)"
  have ok1: "coll_ok p sha B s1" using coll_ok_stable [OF assms rel] .
  have stamp: "safe p sha B (io_bind (cas_put (currentKey p) (stamp_claim d (provisional_claim own c)) (if_match t1))
      (\<lambda>t2. io_return (stamp_claim d (provisional_claim own c), t2))) s2"
    if "coll_ok p sha B s2" "current_of p (lookup s2) = Some (provisional_claim own c, t1)"
      "assertCurrentJsonTransition (provisional_claim own c) (stamp_claim d (provisional_claim own c)) = Inr ()" for d c t1 s2
    using current_of_valid [OF that(2)]
    by (intro col.wp_seq [OF wp_replace_benign [OF that(1,2) col.R_refl _ _ _ committed_0 [OF that(1)] _ that(3)]])
      (auto simp: stamp_claim_def valid_current_def)
  have claim: "safe p sha B (io_bind (cas_put (currentKey p) (provisional_claim own c) (if_match t)) (\<lambda>t1.
      case date of None \<Rightarrow> io_return (provisional_claim own c, t1)
      | Some d \<Rightarrow> io_bind (io_lift (assertCurrentJsonTransition (provisional_claim own c) (stamp_claim d (provisional_claim own c))))
          (\<lambda>_. io_bind (cas_put (currentKey p) (stamp_claim d (provisional_claim own c)) (if_match t1))
            (\<lambda>t2. io_return (stamp_claim d (provisional_claim own c), t2))))) s1"
    if "x = Some (c, t)" "assertCurrentJsonTransition c (provisional_claim own c) = Inr ()" for c t
  proof (rule col.wp_seq [OF wp_replace_benign [OF ok1 _ col.R_refl _ _ _ committed_0 [OF ok1] _ that(2)]])
    show "current_of p (lookup s1) = Some (c, t)" using x that(1) by simp
    then show "valid_current (provisional_claim own c)"
      using current_of_valid by (fastforce simp: provisional_claim_def valid_current_def)
    fix t1 s2 assume "sys_rel p sha B s1 s2" "current_of p (lookup s2) = Some (provisional_claim own c, t1)"
    then show "safe p sha B (case date of None \<Rightarrow> io_return (provisional_claim own c, t1)
      | Some d \<Rightarrow> io_bind (io_lift (assertCurrentJsonTransition (provisional_claim own c) (stamp_claim d (provisional_claim own c))))
          (\<lambda>_. io_bind (cas_put (currentKey p) (stamp_claim d (provisional_claim own c)) (if_match t1))
            (\<lambda>t2. io_return (stamp_claim d (provisional_claim own c), t2)))) s2"
      using stamp coll_ok_stable [OF ok1]
      by (auto simp: io_lift_def io_bind_def [of "Ret _"] split: option.splits sum.splits)
  qed (simp_all add: provisional_claim_def)
  then show "safe p sha B (case x of None \<Rightarrow> io_throw InvalidResponse
     | Some (c, t) \<Rightarrow>
         io_bind (io_lift (assertCurrentJsonTransition c (provisional_claim own c))) (\<lambda>_.
         io_bind (cas_put (currentKey p) (provisional_claim own c) (if_match t)) (\<lambda>t1.
         case date of None \<Rightarrow> io_return (provisional_claim own c, t1)
         | Some d \<Rightarrow>
             io_bind (io_lift (assertCurrentJsonTransition (provisional_claim own c) (stamp_claim d (provisional_claim own c))))
               (\<lambda>_. io_bind (cas_put (currentKey p) (stamp_claim d (provisional_claim own c)) (if_match t1))
                 (\<lambda>t2. io_return (stamp_claim d (provisional_claim own c), t2)))))) s1"
    by (auto simp: io_lift_def io_bind_def [of "Ret _"] split: option.splits sum.splits)
qed simp

section \<open>Compaction\<close>

text \<open>The compactor's own fold is the fold of the read path on the prefix it applies.\<close>

lemma compact_fold_entry:
  "(if le_collection e \<noteq> coll then base
    else (case le_doc_id e of
       None \<Rightarrow> base
     | Some d \<Rightarrow> (case le_op e of
         OpD \<Rightarrow> obj_del d base
       | _ \<Rightarrow> (case le_after e of None \<Rightarrow> base | Some a \<Rightarrow> obj_set d a base)))) = fold_entry coll None e base"
  by (auto simp: fold_entry_def split: option.splits)

lemma compact_fold_prefix:
  "\<exists>a \<le> length es. compact_fold coll ceil es base n = (foldLogEntriesOnto base (take a es) coll None, n + a)"
proof (induction coll ceil es base n rule: compact_fold.induct)
  case (2 coll ceil e es base n)
  show ?case
  proof (cases "(case le_doc_id e of None \<Rightarrow> False
          | Some d \<Rightarrow> le_collection e = coll \<and> le_op e \<noteq> OpD \<and> le_after e \<noteq> None \<and>
              d \<notin> set (obj_keys base) \<and> \<not> below_limit (length base) ceil)")
    case True
    then show ?thesis by (intro exI [of _ 0]) (simp add: foldLogEntriesOnto_def)
  next
    case False
    from 2 [OF False refl] obtain a where "a \<le> length es"
      "compact_fold coll ceil es (fold_entry coll None e base) (Suc n) =
        (foldLogEntriesOnto (fold_entry coll None e base) (take a es) coll None, Suc n + a)"
      unfolding compact_fold_entry by blast
    then show ?thesis
      using False unfolding compact_fold.simps compact_fold_entry Let_def
      by (intro exI [of _ "Suc a"]) (simp add: foldLogEntriesOnto_def)
  qed
qed (simp add: foldLogEntriesOnto_def)

text \<open>What the loaded base and the fetched entries say about the bucket while \<open>c\<close> is in place.\<close>

definition base_loaded :: "current_json \<Rightarrow> (string \<times> doc) list \<Rightarrow> objmap \<Rightarrow> bool" where
  "base_loaded c base L =
     (case cj_snapshot c of
        None \<Rightarrow> base = []
      | Some k \<Rightarrow> \<exists>v b. L k = Some v \<and> body v = BSnap b \<and> base = rows_to_map (sn_docs b))"

definition entries_read :: "string \<Rightarrow> nat list \<Rightarrow> (log_entry \<times> nat) list \<Rightarrow> objmap \<Rightarrow> bool" where
  "entries_read p ns xs L \<longleftrightarrow> length xs = length ns \<and>
     (\<forall>i < length ns. slot p L (ns ! i) = Some (BLog (fst (xs ! i))))"

lemma entries_read_slice:
  assumes "coll_inv p sha B s h" "entries_read p [from ..< to] xs (lookup s)" "delete_floor p (lookup s) \<le> from"
    and "from \<le> to"
  shows "map fst xs = take (to - from) (drop from h) \<and> (to \<le> length h \<or> to = from)"
proof -
  have inv: "inv_map p sha B (lookup s) h" using assms(1) by (simp add: coll_inv_def)
  have len: "length xs = to - from" using assms(2) by (simp add: entries_read_def)
  have each: "from + i < length h \<and> fst (xs ! i) = h ! (from + i)" if "i < to - from" for i
    using inv_map_slot [OF inv, of "from + i"] assms(2,3) that
    by (auto simp: entries_read_def split: if_splits)
  have "to \<le> length h \<or> to = from"
  proof (cases "from = to")
    case False
    then have "to - from - 1 < to - from" using assms(4) by simp
    from each [OF this] show ?thesis using False assms(4) by linarith
  qed simp
  then show ?thesis using each len by (auto intro!: nth_equalityI)
qed

lemma base_loaded_view:
  assumes "coll_inv p sha B s h" "current_of p (lookup s) = Some (c, t)" "base_loaded c base (lookup s)"
  shows "distinct (obj_keys base) \<and> map_of base = map_of (view (collection_of p) (take (log_seq_start c) h))"
proof -
  let ?m = "view (collection_of p) (take (log_seq_start c) h)"
  have ok: "snapshot_ok p sha B (lookup s) c h" using assms(1,2) by (simp add: coll_inv_def inv_map_def)
  have d: "distinct (obj_keys ?m)" unfolding view_def by (rule fold_distinct) simp
  show ?thesis
  proof (cases "cj_snapshot c")
    case None
    then show ?thesis using ok assms(3) by (simp add: snapshot_ok_def base_loaded_def view_def foldLogEntriesOnto_def)
  next
    case (Some k)
    then have "base = sort_key fst ?m"
      using ok assms(3) canonical_rows(1) [OF d] by (auto simp: snapshot_ok_def base_loaded_def Let_def snap_of_def)
    then show ?thesis using canonical_rows(2,3) [OF d] by simp
  qed
qed

text \<open>The rebuilt body is the snapshot of the longer prefix.\<close>

lemma rebuilt_snapshot:
  assumes "coll_inv p sha B s h" "current_of p (lookup s) = Some (c, t)" "base_loaded c base (lookup s)"
    and "entries_read p [log_seq_start c ..< to] xs (lookup s)" "log_seq_start c \<le> to" "a \<le> length xs"
  shows "canonical_body (collection_of p) (log_seq_start c + a)
      (foldLogEntriesOnto base (take a (map fst xs)) (collection_of p) None) =
    snap_of (collection_of p) h (log_seq_start c + a) \<and> log_seq_start c + a \<le> length h"
proof -
  let ?s = "log_seq_start c" and ?coll = "collection_of p"
  have inv: "inv_map p sha B (lookup s) h" using assms(1) by (simp add: coll_inv_def)
  have floors: "delete_floor p (lookup s) \<le> ?s" "?s \<le> length h"
    using inv_map_floors [OF inv] assms(2) by (simp_all add: seq_floor_def)
  have slice: "map fst xs = take (to - ?s) (drop ?s h)" "to \<le> length h \<or> to = ?s"
    using entries_read_slice [OF assms(1,4) floors(1) assms(5)] by auto
  have len: "length xs = to - ?s" using assms(4) by (simp add: entries_read_def)
  have le: "?s + a \<le> length h" using slice(2) assms(5,6) len floors(2) by auto
  have base: "distinct (obj_keys base)" "map_of base = map_of (view ?coll (take ?s h))"
    using base_loaded_view [OF assms(1-3)] by auto
  have "take (?s + a) h = take ?s h @ take a (map fst xs)"
    using slice(1) assms(6) len by (simp add: take_add min_def)
  then have "view ?coll (take (?s + a) h) = foldLogEntriesOnto (view ?coll (take ?s h)) (take a (map fst xs)) ?coll None"
    by (simp add: view_def fold_append)
  then have "map_of (foldLogEntriesOnto base (take a (map fst xs)) ?coll None) = map_of (view ?coll (take (?s + a) h))"
    using base(2) by (auto simp: fold_map)
  moreover have "distinct (obj_keys (view ?coll (take (?s + a) h)))" unfolding view_def by (rule fold_distinct) simp
  ultimately show ?thesis
    using canonical_body_unique [OF fold_distinct [OF base(1)]] le by (simp add: snap_of_def)
qed

text \<open>The entries of a history went through JSON, so encoding its snapshot again changes nothing.\<close>

lemma snap_of_encoded:
  assumes "coll_inv p sha B s h"
  shows "encodeSnapshotBody (snap_of coll h n) = BSnap (snap_of coll h n)"
proof (rule encode_decoded)
  have "\<forall>e \<in> set (take n h). \<forall>d. le_after e = Some d \<longrightarrow> doc_wire d = d"
    using assms by (auto simp: coll_inv_def inv_map_def entry_ok_def dest: in_set_takeD)
  then have "wire_rows (view coll (take n h))"
    unfolding view_def by (rule wire_rows_fold) (simp add: wire_rows_def)
  then show "wire_rows (sn_docs (snap_of coll h n))" by (simp add: snap_of_def canonical_body_def wire_rows_def)
qed

lemma delete_floor_current:
  "coll_ok p sha B s \<Longrightarrow> current_of p (lookup s) = Some (c, t) \<Longrightarrow> delete_floor p (lookup s) \<le> log_seq_start c"
  using inv_map_floors by (fastforce simp: coll_ok_def coll_inv_def seq_floor_def)

lemma wp_load_base:
  assumes s0: "coll_ok p sha B s0" "current_of p (lookup s0) = Some (c, t)" "sys_rel p sha B s0 s"
  shows "wp (sys_rel p sha B) (allowed B)
    (case cj_snapshot c of None \<Rightarrow> io_return [] | Some k \<Rightarrow> loadSnapshotAsMap sha k coll)
    (\<lambda>r s'. \<forall>base. r = Inr base \<longrightarrow> base_loaded c base (lookup s')) s"
proof (cases "cj_snapshot c")
  case (Some k)
  from s0(1) obtain h where "coll_inv p sha B s0 h" by (auto simp: coll_ok_def)
  then have "snapshot_ok p sha B (lookup s0) c h" using s0(2) by (simp add: coll_inv_def inv_map_def)
  then have "valid_key k"
    using Some snapshotKey_valid [OF coll_ok_valid [OF s0(1)]]
    by (auto simp: snapshot_ok_def Let_def snap_key_def)
  then show ?thesis
    unfolding Some option.case loadSnapshotAsMap_def
    by (intro wp_io_bind col.wp_get)
      (auto simp: base_loaded_def Some split: option.splits blob.splits)
qed (simp add: base_loaded_def)

lemma base_loaded_stable:
  assumes "coll_ok p sha B s1" "current_of p (lookup s1) = Some (c, t)" "base_loaded c base (lookup s1)"
    and "sys_rel p sha B s1 s2" "current_of p (lookup s2) = Some (c, t)"
  shows "base_loaded c base (lookup s2)"
proof (cases "cj_snapshot c")
  case (Some k)
  from assms(1) obtain h where h: "coll_inv p sha B s1 h" by (auto simp: coll_ok_def)
  let ?b = "snap_of (collection_of p) h (log_seq_start c)"
  from h assms(2) Some obtain v where b: "?b \<in> B" "snap_key p sha ?b = Inr k" "lookup s1 k = Some v" "body v = BSnap ?b"
    by (auto simp: coll_inv_def inv_map_def snapshot_ok_def Let_def)
  have "snapshots_persist p sha B (lookup s1) (lookup s2)"
    using h assms(4) by (auto simp: coll_inv_def sys_rel_def rel_map_def)
  moreover have "seq_floor p (lookup s2) \<le> sn_max_seq ?b"
    using assms(5) by (simp add: seq_floor_def snap_of_def canonical_body_def)
  ultimately obtain v' where "lookup s2 k = Some v'" "body v' = BSnap ?b"
    using b unfolding snapshots_persist_def by blast
  then show ?thesis using b assms(3) Some by (auto simp: base_loaded_def)
qed (use assms in \<open>simp add: base_loaded_def\<close>)

lemma entries_read_stable:
  assumes "coll_ok p sha B s1" "entries_read p ns xs (lookup s1)" "sys_rel p sha B s1 s2"
    and "\<forall>n \<in> set ns. delete_floor p (lookup s2) \<le> n"
  shows "entries_read p ns xs (lookup s2)"
  using assms slot_persist [OF assms(1,3)] by (auto simp: entries_read_def)

lemma wp_read_slots:
  assumes "coll_ok p sha B s" "\<forall>n \<in> set ns. log_seq_start c \<le> n"
  shows "wp (sys_rel p sha B) (allowed B) (read_slots bytes p ns)
    (\<lambda>r s'. \<forall>xs. r = Inr xs \<longrightarrow> length xs = length ns \<and>
      (current_of p (lookup s') = Some (c, t) \<longrightarrow> entries_read p ns xs (lookup s'))) s"
  using assms
proof (induction ns arbitrary: s)
  case (Cons n ns)
  let ?here = "\<lambda>(x :: log_entry \<times> nat) s'. slot p (lookup s') n = Some (BLog (fst x))"
  have one: "wp (sys_rel p sha B) (allowed B) (readLogEntryWithBytes bytes (logObjectKey p n))
      (\<lambda>r s'. \<forall>x. r = Inr x \<longrightarrow> ?here x s') s"
    unfolding readLogEntryWithBytes_def
    by (intro wp_io_bind col.wp_get)
      (use coll_ok_valid [OF Cons.prems(1)] in \<open>auto simp: slot_def split: option.splits elim!: decode_log_entry.elims\<close>)
  show ?case
    unfolding read_slots.simps
  proof (rule col.wp_seq [OF one])
    fix x s1 assume rel: "sys_rel p sha B s s1" and x: "?here x s1"
    have ok1: "coll_ok p sha B s1" using coll_ok_stable [OF Cons.prems(1) rel] .
    have rest: "wp (sys_rel p sha B) (allowed B) (read_slots bytes p ns)
        (\<lambda>r s'. \<forall>xs. r = Inr xs \<longrightarrow> length xs = length ns \<and>
      (current_of p (lookup s') = Some (c, t) \<longrightarrow> entries_read p ns xs (lookup s'))) s1"
      using Cons.IH [OF ok1] Cons.prems(2) by simp
    show "wp (sys_rel p sha B) (allowed B) (io_bind (read_slots bytes p ns) (\<lambda>xs. io_return (x # xs)))
        (\<lambda>r s'. \<forall>xs. r = Inr xs \<longrightarrow> length xs = length (n # ns) \<and>
          (current_of p (lookup s') = Some (c, t) \<longrightarrow> entries_read p (n # ns) xs (lookup s'))) s1"
    proof (rule col.wp_seq [OF rest], clarsimp)
      fix xs s2 assume rel2: "sys_rel p sha B s1 s2" and cur: "current_of p (lookup s2) = Some (c, t)"
        and xs: "entries_read p ns xs (lookup s2)"
      have "delete_floor p (lookup s2) \<le> n"
        using delete_floor_current [OF coll_ok_stable [OF ok1 rel2] cur] Cons.prems(2) by simp
      then have "slot p (lookup s2) n = Some (BLog (fst x))" using slot_persist [OF ok1 rel2 x] by simp
      then show "entries_read p (n # ns) (x # xs) (lookup s2)"
        using xs by (auto simp: entries_read_def nth_Cons split: nat.splits)
    qed simp
  qed simp
qed (simp add: entries_read_def)

lemma wp_publish:
  assumes s0: "coll_ok p sha B s0" "current_of p (lookup s0) = Some (c, t)" "sys_rel p sha B s0 s"
    and valid: "valid_current c'"
    and right: "\<And>s1 h. sys_rel p sha B s s1 \<Longrightarrow> current_of p (lookup s1) = Some (c, t) \<Longrightarrow>
      coll_inv p sha B s1 h \<Longrightarrow> tail_hint c' \<le> length h \<and> snapshot_ok p sha B (lookup s1) c' h"
  shows "safe p sha B (publish (currentKey p) c t c' lost fin) s"
proof (cases "assertCurrentJsonTransition c c'")
  case (Inr u)
  have put: "wp (sys_rel p sha B) (allowed B) (io_put (currentKey p) (BJson (encode_current c')) (if_match t))
      (\<lambda>r s'. case r of Inl e \<Rightarrow> True | Inr x \<Rightarrow> True) s"
    by (rule wp_mono [OF wp_replace_current [OF s0 valid _ right]]) (use Inr in \<open>auto split: sum.splits\<close>)
  have "safe p sha B (io_catch (io_bind (io_put (currentKey p) (BJson (encode_current c')) (if_match t)) (\<lambda>_. io_return fin))
      (\<lambda>e. if isWriteConflict e then io_return lost else Ret (Inl e))) s"
    by (intro wp_io_catch wp_io_bind wp_mono [OF put]) (auto split: sum.splits)
  then show ?thesis using Inr by (simp add: publish_def io_lift_def io_bind_def [of "Ret _"])
qed (simp add: publish_def io_lift_def io_bind_def [of "Ret _"])

lemma wp_put_snapshot:
  assumes "snap_key p sha b = Inr k"
  shows "wp (sys_rel p sha B) (allowed B) (io_put k (BSnap b) unconditional)
    (\<lambda>r s'. \<forall>x. r = Inr x \<longrightarrow> b \<in> B \<and> (\<exists>v. lookup s' k = Some v \<and> body v = BSnap b)) s"
proof (rule col.wp_put)
  fix s1 r s2
  assume A: "allowed B (Put k (BSnap b) unconditional)" and put: "memory_put k (BSnap b) unconditional s1 = (r, s2)"
  have B: "b \<in> B" using A by (simp add: allowed_def)
  have "sys_rel p sha B s1 (snd (memory_put k (BSnap b) unconditional s1))"
    by (rule sys_rel_put, rule rel_map_snapshot_put [OF B assms]) simp
  then show "sys_rel p sha B s1 s2 \<and> (\<forall>x. r = Inr x \<longrightarrow> b \<in> B \<and> (\<exists>v. lookup s2 k = Some v \<and> body v = BSnap b)) \<and>
      (\<forall>e. may_lose_ack e \<longrightarrow> (\<forall>x. Inl e = Inr x \<longrightarrow> b \<in> B \<and> (\<exists>v. lookup s2 k = Some v \<and> body v = BSnap b)))"
    using put memory_put_Inr [of k "BSnap b" unconditional s1] B by auto
qed simp

lemma snapshot_present_stable:
  assumes "coll_ok p sha B s1" "b \<in> B" "snap_key p sha b = Inr k" "lookup s1 k = Some v" "body v = BSnap b"
    and "sys_rel p sha B s1 s2" "seq_floor p (lookup s2) \<le> sn_max_seq b"
  shows "\<exists>v'. lookup s2 k = Some v' \<and> body v' = BSnap b"
proof -
  have "snapshots_persist p sha B (lookup s1) (lookup s2)"
    using assms(1,6) by (auto simp: coll_ok_def coll_inv_def sys_rel_def rel_map_def)
  then show ?thesis using assms(2-5,7) unfolding snapshots_persist_def by blast
qed

text \<open>The manifest of step 7 is right wherever the old one is still in place.\<close>

lemma wp_compact_write:
  assumes s0: "coll_ok p sha B s0" "current_of p (lookup s0) = Some (c, t)" "sys_rel p sha B s0 s"
    and body: "\<And>s1 h. sys_rel p sha B s s1 \<Longrightarrow> current_of p (lookup s1) = Some (c, t) \<Longrightarrow> coll_inv p sha B s1 h \<Longrightarrow>
      canonical_body (collection_of p) foldEnd base = snap_of (collection_of p) h foldEnd"
    and range: "log_seq_start c \<le> foldEnd" "foldEnd \<le> disc" and disc: "committed p sha B s disc"
  shows "safe p sha B (compact_write bytes sha (currentKey p) (collection_of p) cB cE c t disc base foldEnd sz) s"
proof -
  let ?sb = "canonical_body (collection_of p) foldEnd (map (\<lambda>(i, d). (i, doc_wire d)) base)"
  have max: "sn_max_seq ?sb = foldEnd" by (simp add: canonical_body_def)
  have ok: "coll_ok p sha B s" using coll_ok_stable [OF s0(1,3)] .
  have pub: "safe p sha B (publish (currentKey p) c t (c\<lparr>cj_snapshot := Some k, log_seq_start := foldEnd,
        tail_hint := max (tail_hint c) disc, snapshot_bytes := x, snapshot_rows := y, mean_entry_bytes := z\<rparr>) lost fin) s1"
    (is "safe p sha B (publish _ c t ?c' lost fin) s1")
    if k: "snap_key p sha ?sb = Inr k" and rel: "sys_rel p sha B s s1"
      and put: "?sb \<in> B" "\<exists>v. lookup s1 k = Some v \<and> body v = BSnap ?sb" for k x y z lost fin s1
  proof (rule wp_publish [OF s0(1,2) col.R_trans [OF s0(3) rel]])
    show "valid_current ?c'"
      using current_of_valid [OF s0(2)] range by (auto simp: valid_current_def)
    fix s2 h assume rel2: "sys_rel p sha B s1 s2" and cur: "current_of p (lookup s2) = Some (c, t)"
      and inv: "coll_inv p sha B s2 h"
    have rel': "sys_rel p sha B s s2" using col.R_trans [OF rel rel2] .
    obtain v where v: "lookup s2 k = Some v" "body v = BSnap ?sb"
      using snapshot_present_stable [OF coll_ok_stable [OF ok rel] put(1) k _ _ rel2] put(2) range(1) cur max
      by (auto simp: seq_floor_def)
    have eq: "?sb = snap_of (collection_of p) h foldEnd"
      using body [OF rel' cur inv] encode_canonical [of "collection_of p" foldEnd base] snap_of_encoded [OF inv] by simp
    have "tail_hint c \<le> length h" "disc \<le> length h"
      using inv_map_floors [of p sha B "lookup s2" h] inv cur committed_length [OF committed_stable [OF rel' disc] inv]
      by (simp_all add: coll_inv_def hint_of_def)
    then show "tail_hint ?c' \<le> length h \<and> snapshot_ok p sha B (lookup s2) ?c' h"
      using eq k put(1) v by (simp add: snapshot_ok_def Let_def)
  qed
  have storing: "safe p sha B (io_bind (io_put k (BSnap ?sb) unconditional) (\<lambda>_.
      publish (currentKey p) c t (c\<lparr>cj_snapshot := Some k, log_seq_start := foldEnd,
        tail_hint := max (tail_hint c) disc, snapshot_bytes := x, snapshot_rows := y, mean_entry_bytes := z\<rparr>) lost fin)) s"
    if "snap_key p sha ?sb = Inr k" for k x y z lost fin
    by (rule col.wp_seq [OF wp_put_snapshot [OF that]]) (use pub [OF that] in auto)
  have "snapshotKey p 0 foldEnd (sha (BSnap ?sb)) = snap_key p sha ?sb"
    by (simp add: snap_key_def canonical_body_def)
  then show ?thesis
    using storing by (auto simp: compact_write_def encode_canonical Let_def io_lift_def io_bind_def [of "Ret _"] split: sum.splits)
qed

lemma wp_compact_range:
  assumes s0: "coll_ok p sha B s0" "current_of p (lookup s0) = Some (c, t)" "sys_rel p sha B s0 s"
    and disc: "committed p sha B s disc" "log_seq_start c \<le> disc" and to: "log_seq_start c \<le> to" "to \<le> disc"
  shows "safe p sha B (compact_range bytes sha (currentKey p) (collection_of p) cB cE c t disc to) s"
  unfolding compact_range_def logSeqStartOf_def dirname_currentKey walkLogRangeWithBytes_plain
proof (rule col.wp_seq [OF wp_load_base [OF s0]])
  fix base s1 assume rel: "sys_rel p sha B s s1" and base: "base_loaded c base (lookup s1)"
  have ok: "coll_ok p sha B s" using coll_ok_stable [OF s0(1,3)] .
  have ok1: "coll_ok p sha B s1" using coll_ok_stable [OF ok rel] .
  have "\<forall>n \<in> set [log_seq_start c ..< to]. log_seq_start c \<le> n" by simp
  note reads = wp_read_slots [OF ok1 this, of bytes t]
  show "safe p sha B (io_bind (read_slots bytes p [log_seq_start c ..< to])
      (compact_apply bytes sha (currentKey p) (collection_of p) cB cE c t disc base)) s1"
  proof (rule col.wp_seq [OF reads], elim conjE)
    fix xs s2 assume rel2: "sys_rel p sha B s1 s2" and len: "length xs = length [log_seq_start c ..< to]"
      and xs: "current_of p (lookup s2) = Some (c, t) \<longrightarrow> entries_read p [log_seq_start c ..< to] xs (lookup s2)"
    have rels: "sys_rel p sha B s0 s1" "sys_rel p sha B s0 s2" "sys_rel p sha B s s2"
      using s0(3) rel rel2 col.R_trans by blast+
    obtain a where a: "a \<le> length xs"
      "compact_fold (collection_of p) cE (map fst xs) base 0 =
        (foldLogEntriesOnto base (take a (map fst xs)) (collection_of p) None, a)"
      using compact_fold_prefix [of "map fst xs" "collection_of p" cE base 0] by auto
    have "safe p sha B (compact_write bytes sha (currentKey p) (collection_of p) cB cE c t disc
        (foldLogEntriesOnto base (take a (map fst xs)) (collection_of p) None) (log_seq_start c + a) sz) s2" for sz
    proof (rule wp_compact_write [OF s0(1,2) rels(2)])
      fix s3 h assume rel3: "sys_rel p sha B s2 s3" and cur: "current_of p (lookup s3) = Some (c, t)"
        and inv: "coll_inv p sha B s3 h"
      have cur1: "current_of p (lookup s1) = Some (c, t)"
        using current_between [OF s0(1,2) rels(1) col.R_trans [OF rel2 rel3] cur] .
      have cur2: "current_of p (lookup s2) = Some (c, t)" using current_between [OF s0(1,2) rels(2) rel3 cur] .
      have ok2: "coll_ok p sha B s2" using coll_ok_stable [OF ok1 rel2] .
      have "base_loaded c base (lookup s3)"
        using base_loaded_stable [OF ok1 cur1 base col.R_trans [OF rel2 rel3] cur] .
      moreover have "entries_read p [log_seq_start c ..< to] xs (lookup s3)"
      proof (rule entries_read_stable [OF ok2 _ rel3])
        show "\<forall>n \<in> set [log_seq_start c ..< to]. delete_floor p (lookup s3) \<le> n"
          using delete_floor_current [OF coll_ok_stable [OF ok2 rel3] cur] by auto
      qed (use xs cur2 in simp)
      ultimately show "canonical_body (collection_of p) (log_seq_start c + a)
          (foldLogEntriesOnto base (take a (map fst xs)) (collection_of p) None) = snap_of (collection_of p) h (log_seq_start c + a)"
        using rebuilt_snapshot [OF inv cur _ _ to(1) a(1)] by blast
    qed (use a len to disc committed_stable [OF rels(3) disc(1)] in auto)
    then show "safe p sha B (compact_apply bytes sha (currentKey p) (collection_of p) cB cE c t disc base xs) s2"
      using a(2) by (simp add: compact_apply_def Let_def logSeqStartOf_def)
  qed simp
qed simp

lemma current_committed:
  assumes "coll_ok p sha B s" "current_of p (lookup s) = Some (c, t)"
  shows "committed p sha B s (max (log_seq_start c) (tail_hint c))"
proof -
  from assms(1) obtain h where h: "coll_inv p sha B s h" by (auto simp: coll_ok_def)
  then show ?thesis
    using inv_map_floors [of p sha B "lookup s" h] assms(2)
    by (auto simp: committed_def coll_inv_def seq_floor_def hint_of_def intro!: exI [of _ h])
qed

lemma committed_max: "committed p sha B s m \<Longrightarrow> committed p sha B s n \<Longrightarrow> committed p sha B s (max m n)"
  by (simp add: max_def)

lemma wp_compact_probe:
  assumes "coll_ok p sha B s" "committed p sha B s hint"
  shows "wp (sys_rel p sha B) (allowed B) (compact_probe p maxProbe hint)
    (\<lambda>r s'. \<forall>x. r = Inr x \<longrightarrow> hint \<le> chunk_bound x \<and> committed p sha B s' (chunk_bound x)) s"
proof (cases maxProbe)
  case None
  then show ?thesis
    unfolding compact_probe_def None option.case
    by (intro col.wp_seq [OF tail.wp_probeTailFrom [OF assms]]) (auto split: prod.splits)
next
  case (Some cap)
  then show ?thesis using tail.wp_probeTailChunk [OF assms] by (simp add: compact_probe_def)
qed

lemma chunk_bound_case: "(case x of Exact n _ _ \<Rightarrow> n | AtLeast n _ _ \<Rightarrow> n) = chunk_bound x"
  by (cases x) simp_all

lemma wp_compact_after_probe:
  assumes s0: "coll_ok p sha B s0" "current_of p (lookup s0) = Some (c, t)" "sys_rel p sha B s0 s"
    and probe: "committed p sha B s (chunk_bound x)" "log_seq_start c \<le> chunk_bound x"
  shows "safe p sha B (compact_after_probe bytes sha (currentKey p) (collection_of p) opts maxPer c t x) s"
proof -
  have "safe p sha B (publish (currentKey p) c t (c\<lparr>tail_hint := max (tail_hint c) (chunk_bound x)\<rparr>) lost fin) s" for lost fin
  proof (rule wp_publish [OF s0])
    fix s1 h assume s1: "sys_rel p sha B s s1" "current_of p (lookup s1) = Some (c, t)" "coll_inv p sha B s1 h"
    show "tail_hint (c\<lparr>tail_hint := max (tail_hint c) (chunk_bound x)\<rparr>) \<le> length h \<and>
        snapshot_ok p sha B (lookup s1) (c\<lparr>tail_hint := max (tail_hint c) (chunk_bound x)\<rparr>) h"
      by (rule right_same_snapshot [OF _ _ _ committed_stable [OF s1(1) probe(1)] s1(2,3)]) simp_all
  qed (use current_of_valid [OF s0(2)] in \<open>auto simp: valid_current_def\<close>)
  moreover have "safe p sha B (compact_range bytes sha (currentKey p) (collection_of p) cB cE c t (chunk_bound x)
      (min (chunk_bound x) (log_seq_start c + maxPer))) s" for cB cE
    using probe by (intro wp_compact_range [OF s0]) auto
  ultimately show ?thesis
    by (simp add: compact_after_probe_def Let_def chunk_bound_case logSeqStartOf_def)
qed

lemma wp_compact:
  assumes ok: "coll_ok p sha B s"
    and known: "\<And>v n. knownTail opts = Some v \<Longrightarrow> requireIntegerOption v 0 = Inr n \<Longrightarrow> committed p sha B s n"
  shows "safe p sha B (compact bytes sha (currentKey p) opts) s"
proof -
  have main: "safe p sha B (io_bind (readCurrentJson (currentKey p)) (\<lambda>rd.
      case rd of None \<Rightarrow> io_return (skipped CurrentJsonMissing None 0)
      | Some (current, baseEtag) \<Rightarrow>
          io_bind (compact_probe p maxProbe (max (max (logSeqStartOf current) (tail_hint current)) known)) (\<lambda>probe.
          compact_after_probe bytes sha (currentKey p) (collection_of p) opts maxPer current baseEtag probe))) s"
    if n: "committed p sha B s known" for maxProbe known maxPer
  proof (rule col.wp_seq [OF wp_readCurrent [OF ok]])
    fix x s1 assume rel: "sys_rel p sha B s s1" and x: "x = current_of p (lookup s1)"
    have ok1: "coll_ok p sha B s1" using coll_ok_stable [OF ok rel] .
    show "safe p sha B (case x of None \<Rightarrow> io_return (skipped CurrentJsonMissing None 0)
      | Some (current, baseEtag) \<Rightarrow>
          io_bind (compact_probe p maxProbe (max (max (logSeqStartOf current) (tail_hint current)) known)) (\<lambda>probe.
          compact_after_probe bytes sha (currentKey p) (collection_of p) opts maxPer current baseEtag probe)) s1"
    proof (cases x)
      case (Some ct)
      obtain c t where ct: "ct = (c, t)" by fastforce
      have cur: "current_of p (lookup s1) = Some (c, t)" using x Some ct by simp
      have "committed p sha B s1 (max (max (logSeqStartOf c) (tail_hint c)) known)"
        using committed_max [OF current_committed [OF ok1 cur] committed_stable [OF rel n]] by (simp add: logSeqStartOf_def)
      note probe = wp_compact_probe [OF ok1 this, of maxProbe]
      have "safe p sha B (io_bind (compact_probe p maxProbe (max (max (logSeqStartOf c) (tail_hint c)) known))
          (compact_after_probe bytes sha (currentKey p) (collection_of p) opts maxPer c t)) s1"
      proof (rule col.wp_seq [OF probe], elim conjE)
        fix y s2 assume "sys_rel p sha B s1 s2" "max (max (logSeqStartOf c) (tail_hint c)) known \<le> chunk_bound y"
          "committed p sha B s2 (chunk_bound y)"
        then show "safe p sha B (compact_after_probe bytes sha (currentKey p) (collection_of p) opts maxPer c t y) s2"
          by (intro wp_compact_after_probe [OF ok1 cur]) (auto simp: logSeqStartOf_def)
      qed simp
      then show ?thesis using Some ct by simp
    qed simp
  qed simp
  have "committed p sha B s n" if "(case knownTail opts of None \<Rightarrow> Inr 0 | Some v \<Rightarrow> requireIntegerOption v 0) = Inr n" for n
    using that known committed_0 [OF ok] by (auto split: option.splits)
  with main show ?thesis
    by (auto simp: compact_def Let_def io_lift_def io_bind_def [of "Ret _"] collection_of_def [symmetric] split: sum.splits)
qed

end
