(* ===== verification/Gc.thy ===== *)
theory Gc
  imports Compaction
begin

text \<open>
  \<^verbatim>\<open>packages/server/src/gc.ts\<close>: one garbage-collection pass (mark orphan snapshots, re-check every
  candidate, sweep what is due, merge the ledger), and its safety among the other threads. The clock
  is a parameter: the \<open>i\<close>-th call of \<^verbatim>\<open>now()\<close> in milliseconds, \<^verbatim>\<open>toISOString\<close> and \<^verbatim>\<open>Date.parse\<close>
  (\<open>None\<close> for NaN).
\<close>

section \<open>The pass\<close>

definition GC_GRACE_PERIOD_MILLIS :: int where "GC_GRACE_PERIOD_MILLIS = 7 * 24 * 60 * 60 * 1000"

record gc_clock =
  now_call :: "nat \<Rightarrow> int"
  toISOString :: "int \<Rightarrow> string"
  parseDate :: "string \<Rightarrow> int option"

record gc_options =
  graceMillis :: "int option"
  maxMarksPerRun :: "nat option"
  maxSweepsPerRun :: "nat option"

record gc_result =
  marked_orphan_snapshot :: nat
  swept :: nat
  dropped_stale_generation :: nat
  dropped_still_live :: nat
  pendingDepth :: nat

definition zeroGcResult :: gc_result where
  "zeroGcResult = \<lparr>marked_orphan_snapshot = 0, swept = 0, dropped_stale_generation = 0,
     dropped_still_live = 0, pendingDepth = 0\<rparr>"

definition parseSeqFromCanonicalLogKey :: "string \<Rightarrow> string \<Rightarrow> nat option" where
  "parseSeqFromCanonicalLogKey key collectionPrefix =
     (let logPrefix = collectionPrefix @ ''/log/'' in
      if \<not> startsWith key logPrefix then None
      else
        (let rest = drop (length logPrefix) key; digits = take (length rest - 5) rest in
         if length rest > 5 \<and> is_digits (length digits) digits \<and> drop (length rest - 5) rest = ''.json''
         then (let n = parse_digits 10 0 digits in
               if n \<le> MAX_SAFE_INTEGER \<and> logObjectKey collectionPrefix n = key then Some n else None)
         else None))"

definition computeDueAt :: "gc_clock \<Rightarrow> nat \<Rightarrow> int \<Rightarrow> string" where
  "computeDueAt clk i graceMs = toISOString clk (now_call clk i + graceMs)"

definition is_due :: "gc_clock \<Rightarrow> int \<Rightarrow> gc_candidate \<Rightarrow> bool" where
  "is_due clk nowMs c = (case parseDate clk (due_at c) of None \<Rightarrow> False | Some t \<Rightarrow> t \<le> nowMs)"

text \<open>Step 2: read the ledger, or create it and on a lost race read the winner's.\<close>

definition gc_ledger :: "string \<Rightarrow> (gc_pending \<times> string) io" where
  "gc_ledger pendingKey =
     io_bind (readGcPending pendingKey) (\<lambda>pending.
     case pending of Some l \<Rightarrow> io_return l
     | None \<Rightarrow>
         io_catch (createGcPending pendingKey \<lparr>candidates = [], last_swept_at = []\<rparr>) (\<lambda>e.
           if isWriteConflict e
           then io_bind (readGcPending pendingKey) (\<lambda>again.
             case again of None \<Rightarrow> Ret (Inl e) | Some l \<Rightarrow> io_return l)
           else Ret (Inl e)))"

text \<open>Step 3: the marks of the listed keys, the \<open>i\<close>-th mark taking the \<open>i\<close>-th clock reading.\<close>

fun gc_mark ::
  "gc_clock \<Rightarrow> int \<Rightarrow> string \<Rightarrow> current_json \<Rightarrow> string set \<Rightarrow> nat \<Rightarrow> string list \<Rightarrow> gc_candidate list" where
  "gc_mark clk grace collectionPrefix current known i [] = []"
| "gc_mark clk grace collectionPrefix current known i (k # ks) =
     (if cj_snapshot current = Some k \<or> parseMaxSeqFromCanonicalSnapshotKey k collectionPrefix = None \<or> k \<in> known
      then gc_mark clk grace collectionPrefix current known i ks
      else \<lparr>cand_key = k, due_at = computeDueAt clk i grace, cand_reason = OrphanSnapshot,
             cand_generation = cj_generation current\<rparr>
           # gc_mark clk grace collectionPrefix current known (Suc i) ks)"

text \<open>Step 4: the arms that resolve a candidate without a DELETE, in the source's order.\<close>

datatype gc_arm = Evicted | StaleGeneration | Rescued | Kept

definition gc_resolve :: "string \<Rightarrow> current_json \<Rightarrow> current_json option \<Rightarrow> gc_candidate \<Rightarrow> gc_arm" where
  "gc_resolve collectionPrefix fenceCurrent freshCurrent c =
     (let gen = (\<lambda>g. case g of None \<Rightarrow> NO_GENERATION | Some x \<Rightarrow> x) in
      if cand_reason c = OrphanContent then Evicted
      else if cand_reason c = StaleLog \<and> parseSeqFromCanonicalLogKey (cand_key c) collectionPrefix = None then Evicted
      else if cand_reason c = OrphanSnapshot \<and>
        parseMaxSeqFromCanonicalSnapshotKey (cand_key c) collectionPrefix = None then Evicted
      else if gen (cand_generation c) \<noteq> gen (cj_generation fenceCurrent) then StaleGeneration
      else if cand_reason c = OrphanSnapshot \<and>
        (case freshCurrent of None \<Rightarrow> False | Some f \<Rightarrow> cj_snapshot f = Some (cand_key c)) then Rescued
      else if cand_reason c = StaleLog \<and>
        (case parseSeqFromCanonicalLogKey (cand_key c) collectionPrefix of
           None \<Rightarrow> False | Some n \<Rightarrow> logSeqStartOf fenceCurrent \<le> n) then Rescued
      else Kept)"

definition arm_keys :: "string \<Rightarrow> current_json \<Rightarrow> current_json option \<Rightarrow> gc_arm \<Rightarrow> gc_candidate list \<Rightarrow> string list" where
  "arm_keys collectionPrefix fence fresh arm cs =
     map cand_key (filter (\<lambda>c. gc_resolve collectionPrefix fence fresh c = arm) cs)"

fun gc_sweep ::
  "gc_clock \<Rightarrow> int \<Rightarrow> nat \<Rightarrow> string \<Rightarrow> current_json option \<Rightarrow> string list \<Rightarrow> gc_candidate list \<Rightarrow>
   gc_candidate list \<Rightarrow> gc_candidate list \<Rightarrow> gc_candidate list \<times> gc_candidate list" where
  "gc_sweep clk nowMs maxSweeps collectionPrefix fresh dropped [] toSweep remaining = (toSweep, remaining)"
| "gc_sweep clk nowMs maxSweeps collectionPrefix fresh dropped (c # cs) toSweep remaining =
     (if cand_key c \<in> set dropped
      then gc_sweep clk nowMs maxSweeps collectionPrefix fresh dropped cs toSweep remaining
      else if length toSweep < maxSweeps \<and> is_due clk nowMs c \<and>
        \<not> (cand_reason c = OrphanSnapshot \<and>
           (case parseMaxSeqFromCanonicalSnapshotKey (cand_key c) collectionPrefix of
              None \<Rightarrow> True
            | Some m \<Rightarrow> (case fresh of None \<Rightarrow> 0 | Some f \<Rightarrow> log_seq_start f) \<le> m))
      then gc_sweep clk nowMs maxSweeps collectionPrefix fresh dropped cs (toSweep @ [c]) remaining
      else gc_sweep clk nowMs maxSweeps collectionPrefix fresh dropped cs toSweep (remaining @ [c]))"

text \<open>Step 5: merge the pass into the latest ledger; a lost ledger CAS is not an error.\<close>

definition gc_record :: "string \<Rightarrow> gc_pass \<Rightarrow> nat \<Rightarrow> nat io" where
  "gc_record pendingKey pass remainingDepth =
     io_catch
       (io_bind (casUpdateGcPending pendingKey (\<lambda>latest. mergeGcPending latest pass)) (\<lambda>(l, _).
          io_return (length (candidates l))))
       (\<lambda>e. if isWriteConflict e then io_return remainingDepth else Ret (Inl e))"

definition gc_finish ::
  "gc_clock \<Rightarrow> string \<Rightarrow> nat \<Rightarrow> current_json \<Rightarrow> current_json option \<Rightarrow> gc_candidate list \<Rightarrow> gc_candidate list \<Rightarrow>
   gc_result io" where
  "gc_finish clk collectionPrefix maxSweeps current fresh pending marks =
     (let nowMs = now_call clk (length marks);
          cs = pending @ marks;
          fence = (case fresh of None \<Rightarrow> current | Some f \<Rightarrow> f);
          keysOf = (\<lambda>arm. arm_keys collectionPrefix fence fresh arm cs);
          dropped = keysOf StaleGeneration @ keysOf Rescued @ keysOf Evicted;
          (toSweep, remaining) = gc_sweep clk nowMs maxSweeps collectionPrefix fresh dropped cs [] []
      in io_bind (delete_all (map cand_key toSweep)) (\<lambda>_.
         io_bind (gc_record (gcPendingKey collectionPrefix)
             \<lparr>sweptKeys = set (map cand_key toSweep) \<union> set dropped, newCandidates = marks,
              lastSweptAt = (if toSweep \<noteq> [] then toISOString clk (now_call clk (Suc (length marks))) else []),
              maxCandidates = GC_MAX_PENDING_CANDIDATES\<rparr> (length remaining)) (\<lambda>depth.
         io_return \<lparr>marked_orphan_snapshot = length marks, swept = length toSweep,
           dropped_stale_generation = length (remdups (keysOf StaleGeneration)),
           dropped_still_live = length (remdups (keysOf Rescued)), pendingDepth = depth\<rparr>)))"

definition runGc :: "gc_clock \<Rightarrow> string \<Rightarrow> gc_options \<Rightarrow> gc_result io" where
  "runGc clk currentJsonKey opts =
     (let grace = (case graceMillis opts of None \<Rightarrow> GC_GRACE_PERIOD_MILLIS | Some g \<Rightarrow> g);
          maxMarks = (case maxMarksPerRun opts of None \<Rightarrow> MAX_SAFE_INTEGER | Some n \<Rightarrow> n);
          maxSweeps = (case maxSweepsPerRun opts of None \<Rightarrow> MAX_SAFE_INTEGER | Some n \<Rightarrow> n);
          collectionPrefix = dirname currentJsonKey
      in
      io_bind (readCurrentJson currentJsonKey) (\<lambda>cur.
      case cur of None \<Rightarrow> io_return zeroGcResult
      | Some (current, _) \<Rightarrow>
          io_bind (gc_ledger (gcPendingKey collectionPrefix)) (\<lambda>(pending, _).
          io_bind (io_list (snapshotPrefix collectionPrefix) None (Some maxMarks)) (\<lambda>entries.
          let marks = gc_mark clk grace collectionPrefix current (set (map cand_key (candidates pending))) 0
                (map fst entries);
              nowMs = now_call clk (length marks)
          in io_bind
               (if \<exists>c\<in>set (candidates pending @ marks). cand_reason c = OrphanSnapshot \<and> is_due clk nowMs c
                then io_bind (readCurrentJson currentJsonKey) (\<lambda>f. io_return (map_option fst f))
                else io_return None) (\<lambda>fresh.
             gc_finish clk collectionPrefix maxSweeps current fresh (candidates pending) marks)))))"

section \<open>Safety of the pass\<close>

lemma wp_keep_ok:
  assumes "wp (sys_rel p sha B) (allowed B) m Q s" "coll_ok p sha B s"
  shows "wp (sys_rel p sha B) (allowed B) m (\<lambda>x s'. Q x s' \<and> coll_ok p sha B s') s"
  by (rule col.wp_frame [where I = "coll_ok p sha B", OF assms coll_ok_stable])

definition no_stale_log :: "gc_pending \<Rightarrow> bool" where
  "no_stale_log l \<longleftrightarrow> (\<forall>c \<in> set (candidates l). cand_reason c \<noteq> StaleLog)"

lemma encoded_ledger:
  assumes "assertGcPending (encode_pending l) = Inr l'"
  shows "decode_pending (BJson (encode_pending l)) = Inr l"
proof -
  have "assertCandidate (encode_candidate c) = (if cand_key c = [] then throw InvalidResponse else Inr c)" for c
  proof (cases "cand_key c = []")
    case True
    then show ?thesis
      by (simp add: assertCandidate_def encode_candidate_def is_object_def require_def nonempty_string_def)
  qed simp
  moreover have "\<exists>ys. result_map assertCandidate (map encode_candidate (candidates l)) = Inr ys"
    using assms by (auto simp: assertGcPending_def encode_pending_def is_object_def require_def result_bind_def
        split: sum.splits)
  moreover have "\<exists>ys. result_map assertCandidate (map encode_candidate cs) = Inr ys \<Longrightarrow> \<forall>c\<in>set cs. cand_key c \<noteq> []" for cs
    by (induction cs) (auto simp: calculation(1) result_bind_def split: sum.splits if_splits)
  ultimately have "valid_pending l" by (simp add: valid_pending_def)
  then show ?thesis by (simp add: decode_pending_def)
qed

lemma wp_readGcPending:
  assumes "coll_ok p sha B s"
  shows "wp (sys_rel p sha B) (allowed B) (readGcPending (gcPendingKey p))
    (\<lambda>r s'. \<forall>x. r = Inr x \<longrightarrow> (\<forall>l t. x = Some (l, t) \<longrightarrow> no_stale_log l)) s"
  unfolding readGcPending_def
proof (rule wp_io_bind, rule col.wp_get, goal_cases)
  case (2 s1)
  then have "ledger_ok p (lookup s1)"
    using coll_ok_stable [OF assms] by (auto simp: coll_ok_def coll_inv_def inv_map_def)
  then show ?case
    by (auto simp: ledger_ok_def no_stale_log_def io_lift_def io_bind_def split: option.splits sum.splits)
qed (use coll_ok_valid [OF assms] in auto)

lemma wp_put_ledger:
  assumes "assertGcPending (encode_pending l) = Inr l'" "no_stale_log l"
  shows "safe p sha B (io_put (gcPendingKey p) (BJson (encode_pending l)) opts) s"
proof (rule col.wp_put)
  fix s1 r s2 assume put: "memory_put (gcPendingKey p) (BJson (encode_pending l)) opts s1 = (r, s2)"
  have "sys_rel p sha B s1 (snd (memory_put (gcPendingKey p) (BJson (encode_pending l)) opts s1))"
    by (rule sys_rel_put, rule rel_map_ledger)
      (use encoded_ledger [OF assms(1)] assms(2) in \<open>auto simp: no_stale_log_def\<close>)
  then show "sys_rel p sha B s1 s2 \<and> True \<and> (\<forall>e. may_lose_ack e \<longrightarrow> True)" using put by simp
qed simp

lemma wp_gc_ledger:
  assumes ok: "coll_ok p sha B s"
  shows "wp (sys_rel p sha B) (allowed B) (gc_ledger (gcPendingKey p))
    (\<lambda>r s'. \<forall>x. r = Inr x \<longrightarrow> no_stale_log (fst x)) s"
proof -
  let ?Q = "\<lambda>(r :: (gc_pending \<times> string) result) (s' :: store). \<forall>x. r = Inr x \<longrightarrow> no_stale_log (fst x)"
  let ?init = "\<lparr>candidates = [], last_swept_at = []\<rparr> :: gc_pending"
  have reread: "wp (sys_rel p sha B) (allowed B) (io_bind (readGcPending (gcPendingKey p)) (\<lambda>again.
      case again of None \<Rightarrow> Ret (Inl e) | Some l \<Rightarrow> io_return l)) ?Q s1" if "coll_ok p sha B s1" for e s1
    by (rule col.wp_seq [OF wp_readGcPending [OF that]]) (auto split: option.splits)
  have create: "wp (sys_rel p sha B) (allowed B) (createGcPending (gcPendingKey p) ?init)
      (\<lambda>r s'. (case r of Inl e \<Rightarrow> True | Inr x \<Rightarrow> fst x = ?init) \<and> coll_ok p sha B s') s1"
    if "coll_ok p sha B s1" for s1
  proof (rule wp_keep_ok [OF _ that])
    have "assertGcPending (encode_pending ?init) = Inr ?init"
      by (rule assertGcPending_encode) (simp add: valid_pending_def)
    then show "wp (sys_rel p sha B) (allowed B) (createGcPending (gcPendingKey p) ?init)
        (\<lambda>r s'. case r of Inl e \<Rightarrow> True | Inr x \<Rightarrow> fst x = ?init) s1"
      unfolding createGcPending_def
      by (intro wp_io_bind wp_io_catch)
        (auto simp: io_lift_def split: sum.splits intro!: wp_io_bind wp_io_catch
          wp_mono [OF wp_put_ledger [where l = ?init and l' = ?init]] simp: no_stale_log_def)
  qed
  show ?thesis
    unfolding gc_ledger_def
  proof (rule col.wp_seq [OF wp_readGcPending [OF ok]])
    fix x :: "(gc_pending \<times> string) option" and s1
    assume "sys_rel p sha B s s1" and x: "\<forall>l t. x = Some (l, t) \<longrightarrow> no_stale_log l"
    then have ok1: "coll_ok p sha B s1" using coll_ok_stable [OF ok] by blast
    show "wp (sys_rel p sha B) (allowed B) (case x of Some l \<Rightarrow> io_return l
      | None \<Rightarrow> io_catch (createGcPending (gcPendingKey p) ?init) (\<lambda>e.
           if isWriteConflict e
           then io_bind (readGcPending (gcPendingKey p)) (\<lambda>again.
             case again of None \<Rightarrow> Ret (Inl e) | Some l \<Rightarrow> io_return l)
           else Ret (Inl e))) ?Q s1"
    proof (cases x)
      case None
      then show ?thesis
        using reread by (auto intro!: wp_io_catch wp_mono [OF create [OF ok1]] simp: no_stale_log_def split: sum.splits)
    qed (use x in auto)
  qed simp
qed

lemma wp_cas_pending_loop:
  assumes "coll_ok p sha B s" "\<And>l. no_stale_log l \<Longrightarrow> no_stale_log (f l)"
  shows "safe p sha B (cas_pending_loop (gcPendingKey p) f e n) s"
  using assms(1)
proof (induction n arbitrary: e s)
  case (Suc n)
  show ?case
    unfolding cas_pending_loop.simps
  proof (rule col.wp_seq [OF wp_readGcPending [OF Suc.prems]])
    fix x :: "(gc_pending \<times> string) option" and s1
    assume "sys_rel p sha B s s1" and x: "\<forall>l t. x = Some (l, t) \<longrightarrow> no_stale_log l"
    then have ok1: "coll_ok p sha B s1" using coll_ok_stable [OF Suc.prems] by blast
    have put: "wp (sys_rel p sha B) (allowed B) (io_put (gcPendingKey p) (BJson (encode_pending (f l))) (if_match t))
        (\<lambda>_ s'. True \<and> coll_ok p sha B s') s1"
      if "x = Some (l, t)" "assertGcPending (encode_pending (f l)) = Inr l'" for l l' and t :: string
      by (rule wp_keep_ok [OF wp_put_ledger [OF that(2)] ok1]) (use x that assms(2) in auto)
    show "safe p sha B (case x of None \<Rightarrow> io_throw WriteConflict
     | Some (l, t) \<Rightarrow>
         io_bind (io_lift (assertGcPending (encode_pending (f l)))) (\<lambda>_.
         prog_bind (io_put (gcPendingKey p) (BJson (encode_pending (f l))) (if_match t)) (\<lambda>r.
         case r of Inr t' \<Rightarrow> io_return (f l, t')
         | Inl e \<Rightarrow> if isWriteConflict (translateCasError e)
             then cas_pending_loop (gcPendingKey p) f (translateCasError e) n
             else Ret (Inl (translateCasError e))))) s1"
      using Suc.IH
      by (auto simp: io_lift_def io_bind_def [of "Ret _"] split: option.splits sum.splits
          intro!: wp_bind wp_mono [OF put])
  qed simp
qed simp

lemma gc_mark_reason: "c \<in> set (gc_mark clk g p cur known i ks) \<Longrightarrow> cand_reason c = OrphanSnapshot"
  by (induction clk g p cur known i ks rule: gc_mark.induct) (auto split: if_splits)

lemma merge_no_stale:
  "no_stale_log l \<Longrightarrow> \<forall>c\<in>set (newCandidates pass). cand_reason c \<noteq> StaleLog \<Longrightarrow> no_stale_log (mergeGcPending l pass)"
  using merge_candidates_sub [of l pass] by (auto simp: no_stale_log_def)

text \<open>What the sweep deletes: a canonical snapshot wholly below the live floor of the fresh read.\<close>

lemma gc_sweep_sub:
  "gc_sweep clk nowMs n p fresh dropped cs ts rem = (ts', rem') \<Longrightarrow> c \<in> set ts' \<Longrightarrow>
     c \<in> set ts \<or> (c \<in> set cs \<and> cand_key c \<notin> set dropped \<and> is_due clk nowMs c \<and>
       (cand_reason c = OrphanSnapshot \<longrightarrow> (\<exists>m f. parseMaxSeqFromCanonicalSnapshotKey (cand_key c) p = Some m \<and>
          fresh = Some f \<and> m < log_seq_start f)))"
proof (induction clk nowMs n p fresh dropped cs ts rem rule: gc_sweep.induct)
  case (2 clk nowMs n p fresh dropped d ds ts rem)
  show ?case
    using 2(4,5) 2(1-3)
    by (auto split: if_splits option.splits simp: not_le)
qed simp

lemma swept_below_floor:
  assumes "gc_sweep clk nowMs n p fresh (arm_keys p fence fresh StaleGeneration cs @ arm_keys p fence fresh Rescued cs @
      arm_keys p fence fresh Evicted cs) cs [] [] = (ts, rem)"
    and "\<forall>c\<in>set cs. cand_reason c \<noteq> StaleLog" and "c \<in> set ts"
  shows "\<exists>m f. parseMaxSeqFromCanonicalSnapshotKey (cand_key c) p = Some m \<and> fresh = Some f \<and> m < log_seq_start f"
proof -
  from gc_sweep_sub [OF assms(1,3)] have c: "c \<in> set cs" "gc_resolve p fence fresh c \<noteq> Evicted"
    "cand_reason c = OrphanSnapshot \<longrightarrow> (\<exists>m f. parseMaxSeqFromCanonicalSnapshotKey (cand_key c) p = Some m \<and>
          fresh = Some f \<and> m < log_seq_start f)" by (auto simp: arm_keys_def)
  have "cand_reason c \<noteq> OrphanContent" using c(2) by (auto simp: gc_resolve_def)
  then show ?thesis using c assms(2) by (cases "cand_reason c") auto
qed

lemma seq_floor_mono:
  "coll_ok p sha B s \<Longrightarrow> sys_rel p sha B s s' \<Longrightarrow> seq_floor p (lookup s) \<le> seq_floor p (lookup s')"
  by (auto simp: coll_ok_def coll_inv_def sys_rel_def rel_map_def)

lemma wp_gc_finish:
  assumes ok: "coll_ok p sha B s" and pending: "\<forall>c\<in>set pending. cand_reason c \<noteq> StaleLog"
    and marks: "\<forall>c\<in>set marks. cand_reason c = OrphanSnapshot"
    and fresh: "\<And>f. fresh = Some f \<Longrightarrow> log_seq_start f \<le> seq_floor p (lookup s)"
  shows "safe p sha B (gc_finish clk p n current fresh pending marks) s"
proof -
  define fence where "fence = (case fresh of None \<Rightarrow> current | Some f \<Rightarrow> f)"
  define dropped where "dropped = arm_keys p fence fresh StaleGeneration (pending @ marks) @
    arm_keys p fence fresh Rescued (pending @ marks) @ arm_keys p fence fresh Evicted (pending @ marks)"
  obtain ts rem where sweep: "gc_sweep clk (now_call clk (length marks)) n p fresh dropped (pending @ marks) [] [] = (ts, rem)"
    by fastforce
  have stale: "\<forall>c\<in>set (pending @ marks). cand_reason c \<noteq> StaleLog" using pending marks by auto
  have del: "wp (sys_rel p sha B) (allowed B) (delete_all (map cand_key ts)) (\<lambda>_ _. True) s"
  proof (rule col.wp_delete_all)
    fix k s1 r s2 assume "k \<in> set (map cand_key ts)" and rel: "sys_rel p sha B s s1" and d: "memory_delete k s1 = (r, s2)"
    then obtain c where "c \<in> set ts" "k = cand_key c" by auto
    then obtain m f where "parseMaxSeqFromCanonicalSnapshotKey k p = Some m" "fresh = Some f" "m < log_seq_start f"
      using swept_below_floor [OF sweep [unfolded dropped_def] stale] by blast
    moreover from this have "m < seq_floor p (lookup s1)" using fresh seq_floor_mono [OF ok rel] by fastforce
    ultimately show "sys_rel p sha B s1 s2"
      using sys_rel_delete [OF rel_map_snapshot_delete, of k p m s1] d by (metis snd_conv)
  qed
  have rec: "safe p sha B (gc_record (gcPendingKey p) \<lparr>sweptKeys = K, newCandidates = marks, lastSweptAt = t,
      maxCandidates = mx\<rparr> d) s1" if "coll_ok p sha B s1" for K t mx d s1
    unfolding gc_record_def casUpdateGcPending_def
    by (intro wp_io_catch wp_io_bind wp_mono [OF wp_cas_pending_loop [OF that]])
      (auto intro!: merge_no_stale simp: marks split: sum.splits)
  show ?thesis
    unfolding gc_finish_def Let_def fence_def [symmetric] dropped_def [symmetric] sweep prod.case
  proof (rule col.wp_seq [where X = "\<lambda>_ _. True"])
    fix x s1 assume "sys_rel p sha B s s1"
    then have "coll_ok p sha B s1" using coll_ok_stable [OF ok] by blast
    then show "safe p sha B (io_bind (gc_record (gcPendingKey p)
             \<lparr>sweptKeys = set (map cand_key ts) \<union> set dropped, newCandidates = marks,
              lastSweptAt = (if ts \<noteq> [] then toISOString clk (now_call clk (Suc (length marks))) else []),
              maxCandidates = GC_MAX_PENDING_CANDIDATES\<rparr> (length rem)) (\<lambda>depth.
         io_return \<lparr>marked_orphan_snapshot = length marks, swept = length ts,
           dropped_stale_generation = length (remdups (arm_keys p fence fresh StaleGeneration (pending @ marks))),
           dropped_still_live = length (remdups (arm_keys p fence fresh Rescued (pending @ marks))), pendingDepth = depth\<rparr>)) s1"
      by (intro wp_io_bind wp_mono [OF rec]) (auto split: sum.splits)
  qed (use del in \<open>auto elim: wp_mono\<close>)
qed

lemma wp_runGc:
  assumes ok: "coll_ok p sha B s"
  shows "safe p sha B (runGc clk (currentKey p) opts) s"
  unfolding runGc_def Let_def dirname_currentKey
proof (rule col.wp_seq [OF wp_readCurrent [OF ok]])
  fix cur s1 assume "sys_rel p sha B s s1"
  then have ok1: "coll_ok p sha B s1" using coll_ok_stable [OF ok] by blast
  show "safe p sha B (case cur of None \<Rightarrow> io_return zeroGcResult
      | Some (current, _) \<Rightarrow>
          io_bind (gc_ledger (gcPendingKey p)) (\<lambda>(pending, _).
          io_bind (io_list (snapshotPrefix p) None (Some (case maxMarksPerRun opts of None \<Rightarrow> MAX_SAFE_INTEGER | Some n \<Rightarrow> n))) (\<lambda>entries.
          io_bind
               (if \<exists>c\<in>set (candidates pending @ gc_mark clk (case graceMillis opts of None \<Rightarrow> GC_GRACE_PERIOD_MILLIS | Some g \<Rightarrow> g) p current
                    (set (map cand_key (candidates pending))) 0 (map fst entries)).
                  cand_reason c = OrphanSnapshot \<and> is_due clk (now_call clk (length (gc_mark clk (case graceMillis opts of None \<Rightarrow> GC_GRACE_PERIOD_MILLIS | Some g \<Rightarrow> g) p current
                    (set (map cand_key (candidates pending))) 0 (map fst entries)))) c
                then io_bind (readCurrentJson (currentKey p)) (\<lambda>f. io_return (map_option fst f))
                else io_return None) (\<lambda>fresh.
             gc_finish clk p (case maxSweepsPerRun opts of None \<Rightarrow> MAX_SAFE_INTEGER | Some n \<Rightarrow> n) current fresh (candidates pending)
               (gc_mark clk (case graceMillis opts of None \<Rightarrow> GC_GRACE_PERIOD_MILLIS | Some g \<Rightarrow> g) p current
                    (set (map cand_key (candidates pending))) 0 (map fst entries)))))) s1"
  proof (cases cur)
    case (Some ct)
    have "safe p sha B (io_bind (io_list (snapshotPrefix p) None mx) (\<lambda>entries.
          io_bind (if due entries then io_bind (readCurrentJson (currentKey p)) (\<lambda>f. io_return (map_option fst f))
                else io_return None) (\<lambda>fresh.
             gc_finish clk p n current fresh (candidates l) (gc_mark clk g p current known 0 (map fst entries))))) s2"
      if ok2: "coll_ok p sha B s2" and l: "no_stale_log l" for mx due n current g known l s2
    proof (rule col.wp_seq [where X = "\<lambda>_ _. True"])
      fix entries s3 assume "sys_rel p sha B s2 s3"
      then have ok3: "coll_ok p sha B s3" using coll_ok_stable [OF ok2] by blast
      have read: "wp (sys_rel p sha B) (allowed B)
          (if due entries then io_bind (readCurrentJson (currentKey p)) (\<lambda>f. io_return (map_option fst f)) else io_return None)
          (\<lambda>r s'. \<forall>x. r = Inr x \<longrightarrow> (\<forall>f. x = Some f \<longrightarrow> log_seq_start f \<le> seq_floor p (lookup s'))) s3"
        by (auto intro!: col.wp_seq [OF wp_readCurrent [OF ok3]] simp: seq_floor_def split: option.splits)
      show "safe p sha B (io_bind (if due entries then io_bind (readCurrentJson (currentKey p)) (\<lambda>f. io_return (map_option fst f))
                else io_return None) (\<lambda>fresh.
             gc_finish clk p n current fresh (candidates l) (gc_mark clk g p current known 0 (map fst entries)))) s3"
        by (rule col.wp_seq [OF read], rule wp_gc_finish)
          (use coll_ok_stable [OF ok3] l gc_mark_reason in \<open>auto simp: no_stale_log_def\<close>)
    qed (auto intro!: col.wp_list)
    then show ?thesis
      using Some coll_ok_stable [OF ok1]
      by (auto intro!: col.wp_seq [OF wp_gc_ledger [OF ok1]] split: prod.splits)
  qed simp
qed simp

end
