(* ===== verification/Maintenance.thy ===== *)
theory Maintenance
  imports Gc
begin

text \<open>
  \<^verbatim>\<open>packages/server/src/maintenance.ts\<close>: the scheduled pass, the gates of the write-tick runner and the
  runner itself, with the profiles of \<^verbatim>\<open>constants.ts\<close>. Counters are left out; the structured
  \<^verbatim>\<open>fold_deferred\<close> warnings and the error the runner swallows are results of the model. Shown here: both
  passes are safe among all other threads, and the storage calls each may issue are bounded by the
  figures the request budget allows.
\<close>

section \<open>Profiles and gates\<close>

definition MAINTENANCE_TARGET_RATIO :: rat where "MAINTENANCE_TARGET_RATIO = 1"
definition MAINTENANCE_MIN_LIVE_BYTES :: nat where "MAINTENANCE_MIN_LIVE_BYTES = 64 * 1024"
definition MAINTENANCE_COLD_START_ENTRY_BYTES :: nat where "MAINTENANCE_COLD_START_ENTRY_BYTES = 128"
definition GC_STARVATION_GUARD :: nat where "GC_STARVATION_GUARD = 4"
definition CF_FREE_COMPACT_TAIL_PROBE_GETS :: nat where "CF_FREE_COMPACT_TAIL_PROBE_GETS = 25"
definition WRITE_TICK_MIN_ENTRIES_TO_COMPACT :: nat where "WRITE_TICK_MIN_ENTRIES_TO_COMPACT = 50"
definition SCHEDULED_MIN_ENTRIES_TO_COMPACT :: nat where "SCHEDULED_MIN_ENTRIES_TO_COMPACT = 1"
definition MAINTENANCE_WARN_INTERVAL_WRITES :: int where "MAINTENANCE_WARN_INTERVAL_WRITES = 1000"
definition MAINTENANCE_TAIL_HINT_REFRESH_WRITES :: nat where "MAINTENANCE_TAIL_HINT_REFRESH_WRITES = 128"

record maintenance_profile =
  gcInterval :: nat
  gcMaxMarks :: nat
  gcMaxSweeps :: nat
  maxFoldEntriesPerPass :: nat
  maxFoldBytes :: limit
  maxFoldRows :: limit

definition MAINTENANCE_PROFILE_CF_FREE :: maintenance_profile where
  "MAINTENANCE_PROFILE_CF_FREE = \<lparr>gcInterval = 4, gcMaxMarks = 20, gcMaxSweeps = 10,
     maxFoldEntriesPerPass = 20, maxFoldBytes = Limit (512 * 1024), maxFoldRows = Limit 2048\<rparr>"

definition MAINTENANCE_PROFILE_NODE :: maintenance_profile where
  "MAINTENANCE_PROFILE_NODE = \<lparr>gcInterval = 2, gcMaxMarks = 200, gcMaxSweeps = 100,
     maxFoldEntriesPerPass = 200, maxFoldBytes = Limit (32 * 1024 * 1024), maxFoldRows = Limit 65536\<rparr>"

definition MAINTENANCE_PROFILE_CF_PAID :: maintenance_profile where
  "MAINTENANCE_PROFILE_CF_PAID = \<lparr>gcInterval = 2, gcMaxMarks = 200, gcMaxSweeps = 100,
     maxFoldEntriesPerPass = 200, maxFoldBytes = Limit (8 * 1024 * 1024), maxFoldRows = Limit 32768\<rparr>"

record maintenance_options =
  mo_compact :: compact_options
  mo_gc :: gc_options
  mo_logRetention :: retire_options

abbreviation no_retire_options :: retire_options where
  "no_retire_options \<equiv> \<lparr>window = None, maxDeletes = None\<rparr>"

definition profileToScheduledOptions ::
  "maintenance_profile \<Rightarrow> nat option \<Rightarrow> nat \<Rightarrow> maintenance_options" where
  "profileToScheduledOptions profile compactMaxTailProbeGets minEntries =
     \<lparr>mo_compact = \<lparr>minEntriesToCompact = Some minEntries,
        maxEntriesPerRun = Some (Fin (of_nat (maxFoldEntriesPerPass profile))),
        maxTailProbeGets = map_option (\<lambda>n. Fin (of_nat n)) compactMaxTailProbeGets,
        ceilingBytes = None, ceilingEntries = None, knownTail = None\<rparr>,
      mo_gc = \<lparr>graceMillis = None, maxMarksPerRun = Some (gcMaxMarks profile),
        maxSweepsPerRun = Some (gcMaxSweeps profile)\<rparr>,
      mo_logRetention = no_retire_options\<rparr>"

definition CLOUDFLARE_FREE_TIER :: maintenance_options where
  "CLOUDFLARE_FREE_TIER = profileToScheduledOptions MAINTENANCE_PROFILE_CF_FREE
     (Some CF_FREE_COMPACT_TAIL_PROBE_GETS) (maxFoldEntriesPerPass MAINTENANCE_PROFILE_CF_FREE)"

definition CLOUDFLARE_PAID_TIER :: maintenance_options where
  "CLOUDFLARE_PAID_TIER = profileToScheduledOptions MAINTENANCE_PROFILE_CF_PAID None SCHEDULED_MIN_ENTRIES_TO_COMPACT"

text \<open>\<^verbatim>\<open>Math.floor(a / 0)\<close> is \<^verbatim>\<open>NaN\<close> for zero, which differs from everything, and \<^verbatim>\<open>Infinity\<close> otherwise.\<close>

definition crossesGcBoundary :: "nat \<Rightarrow> nat \<Rightarrow> nat \<Rightarrow> bool" where
  "crossesGcBoundary prevSeq nextSeq interval =
     (if interval = 0 then prevSeq = 0 \<or> nextSeq = 0
      else prevSeq div interval \<noteq> nextSeq div interval)"

record fold_ceilings =
  ceil_bytes :: limit
  ceil_rows :: limit

definition isFoldViable :: "nat \<Rightarrow> nat \<Rightarrow> fold_ceilings \<Rightarrow> bool" where
  "isFoldViable snapshotBytes snapshotRows ceilings =
     (within_limit snapshotBytes (ceil_bytes ceilings) \<and> within_limit snapshotRows (ceil_rows ceilings))"

definition resolveFoldCeilings :: "maintenance_profile option \<Rightarrow> limit option \<Rightarrow> fold_ceilings" where
  "resolveFoldCeilings profile overrideBytes =
     (let resolved = (case profile of None \<Rightarrow> MAINTENANCE_PROFILE_CF_FREE | Some p \<Rightarrow> p)
      in \<lparr>ceil_bytes = (case overrideBytes of None \<Rightarrow> maxFoldBytes resolved | Some b \<Rightarrow> b),
          ceil_rows = maxFoldRows resolved\<rparr>)"

text \<open>\<open>-\<close> on \<open>nat\<close> is \<^verbatim>\<open>Math.max(0, _)\<close> of the difference.\<close>

definition estimateTailBytes :: "current_json \<Rightarrow> nat \<Rightarrow> nat" where
  "estimateTailBytes current observedTail =
     (observedTail - log_seq_start current) *
     (case mean_entry_bytes current of None \<Rightarrow> MAINTENANCE_COLD_START_ENTRY_BYTES | Some m \<Rightarrow> m)"

definition ratio_trips :: "current_json \<Rightarrow> nat \<Rightarrow> bool" where
  "ratio_trips current observedTail =
     (of_nat (estimateTailBytes current observedTail) /
        of_nat (max (snapshot_bytes current) MAINTENANCE_MIN_LIVE_BYTES) \<ge> MAINTENANCE_TARGET_RATIO)"

definition shouldFireMaintenance :: "current_json \<Rightarrow> nat \<Rightarrow> nat \<Rightarrow> nat \<Rightarrow> bool" where
  "shouldFireMaintenance current prevSeq interval observedTail =
     (crossesGcBoundary prevSeq observedTail interval \<or> ratio_trips current observedTail)"

section \<open>The scheduled pass\<close>

definition retireLogs :: "string \<Rightarrow> retire_options \<Rightarrow> unit io" where
  "retireLogs currentJsonKey opts =
     io_catch (io_bind (retireLogRange currentJsonKey opts) (\<lambda>_. io_return ()))
       (\<lambda>e. if isWriteConflict e then io_return () else Ret (Inl e))"

definition runScheduledMaintenance ::
  "(blob \<Rightarrow> nat) \<Rightarrow> (blob \<Rightarrow> string) \<Rightarrow> gc_clock \<Rightarrow> string \<Rightarrow> maintenance_options \<Rightarrow> (compact_result \<times> gc_result) io" where
  "runScheduledMaintenance bytes sha clk currentJsonKey options =
     (let copts = mo_compact options in
      io_bind (compact bytes sha currentJsonKey
          (if minEntriesToCompact copts = None
           then copts\<lparr>minEntriesToCompact := Some SCHEDULED_MIN_ENTRIES_TO_COMPACT\<rparr> else copts)) (\<lambda>compactRes.
      io_bind (runGc clk currentJsonKey (mo_gc options)) (\<lambda>gcRes.
      io_bind (retireLogs currentJsonKey (mo_logRetention options)) (\<lambda>_.
      io_return (compactRes, gcRes)))))"

section \<open>The write-tick runner\<close>

datatype phases_per_tick = Single | Both
datatype fold_gate = PreFold | Rebuild

record fold_deferred_fields =
  fd_collection :: string
  fd_dimension :: deferral_dimension
  fd_gate :: fold_gate
  fd_snapshot_bytes :: nat
  fd_snapshot_rows :: nat
  fd_ceilings :: fold_ceilings
  fd_live_log_tail :: nat
  fd_log_seq_start :: nat

record bounded_options =
  bo_profile :: "maintenance_profile option"
  bo_minEntriesToCompact :: "nat option"
  bo_phasesPerTick :: "phases_per_tick option"
  bo_gcGraceMillis :: "int option"
  bo_logRetention :: retire_options

record bounded_args =
  ba_currentJsonKey :: string
  ba_prevSeq :: nat
  ba_observedTail :: "nat option"
  ba_maxFoldBytes :: "limit option"
  ba_disabled :: bool

text \<open>The mutable state of one tick: the \<^verbatim>\<open>tailHintPublished\<close> flag and the warnings emitted so far.\<close>

record tick =
  tailHintPublished :: bool
  warned :: "fold_deferred_fields list"

text \<open>What the closures of the runner capture.\<close>

record tick_env =
  te_key :: string
  te_current :: current_json
  te_nextSeq :: nat
  te_ceilings :: fold_ceilings
  te_clock :: gc_clock
  te_gcOpts :: gc_options

type_synonym step = "(unit result \<times> tick) prog"

definition tick_bind :: "'a io \<Rightarrow> tick \<Rightarrow> ('a \<Rightarrow> step) \<Rightarrow> step" where
  "tick_bind m t k = prog_bind m (\<lambda>r. case r of Inl e \<Rightarrow> Ret (Inl e, t) | Inr x \<Rightarrow> k x)"

definition refresh_mutator :: "nat \<Rightarrow> bool \<Rightarrow> current_json \<Rightarrow> (current_json \<times> unit) result" where
  "refresh_mutator nextSeq stampWarnedSeq c =
     (let c' = c\<lparr>tail_hint := max (tail_hint c) nextSeq\<rparr>
      in Inr (if stampWarnedSeq then c'\<lparr>last_warned_seq := Some nextSeq\<rparr> else c', ()))"

definition refreshTailHintIfNeeded :: "tick_env \<Rightarrow> bool \<Rightarrow> tick \<Rightarrow> tick prog" where
  "refreshTailHintIfNeeded env stampWarnedSeq t =
     (if \<not> stampWarnedSeq \<and> tailHintPublished t then Ret t
      else if \<not> stampWarnedSeq \<and>
        te_nextSeq env - tail_hint (te_current env) < MAINTENANCE_TAIL_HINT_REFRESH_WRITES then Ret t
      else prog_bind (casUpdateCurrentJson (te_key env) (refresh_mutator (te_nextSeq env) stampWarnedSeq))
        (\<lambda>_. Ret (t\<lparr>tailHintPublished := True\<rparr>)))"

definition signalFoldDeferred :: "tick_env \<Rightarrow> fold_gate \<Rightarrow> deferral \<Rightarrow> tick \<Rightarrow> tick prog" where
  "signalFoldDeferred env gate d t =
     (let current = te_current env;
          warnDue = (case last_warned_seq current of None \<Rightarrow> True
            | Some w \<Rightarrow> int (te_nextSeq env) - int w \<ge> MAINTENANCE_WARN_INTERVAL_WRITES);
          fields = \<lparr>fd_collection = after_last (CHR ''/'') (dirname (te_key env)),
            fd_dimension = dimension d, fd_gate = gate, fd_snapshot_bytes = deferredBytes d,
            fd_snapshot_rows = deferredRows d, fd_ceilings = te_ceilings env,
            fd_live_log_tail = te_nextSeq env - log_seq_start current, fd_log_seq_start = log_seq_start current\<rparr>
      in refreshTailHintIfNeeded env warnDue (if warnDue then t\<lparr>warned := warned t @ [fields]\<rparr> else t))"

definition runGcAndRefreshTailHint :: "tick_env \<Rightarrow> tick \<Rightarrow> step" where
  "runGcAndRefreshTailHint env t =
     tick_bind (runGc (te_clock env) (te_key env) (te_gcOpts env)) t (\<lambda>_.
     prog_bind (refreshTailHintIfNeeded env False t) (\<lambda>t'. Ret (Inr (), t')))"

definition step_then :: "step \<Rightarrow> (tick \<Rightarrow> step) \<Rightarrow> step" where
  "step_then m k = prog_bind m (\<lambda>(r, t). case r of Inl e \<Rightarrow> Ret (Inl e, t) | Inr _ \<Rightarrow> k t)"

definition tick_retire :: "tick_env \<Rightarrow> retire_options \<Rightarrow> tick \<Rightarrow> step" where
  "tick_retire env ropts t = tick_bind (retireLogs (te_key env) ropts) t (\<lambda>_. Ret (Inr (), t))"

text \<open>Steps 4 and 5.\<close>

definition tick_gc_and_retire :: "tick_env \<Rightarrow> bool \<Rightarrow> retire_options \<Rightarrow> tick \<Rightarrow> step" where
  "tick_gc_and_retire env gcDue ropts t =
     step_then (if gcDue then runGcAndRefreshTailHint env t else Ret (Inr (), t)) (tick_retire env ropts)"

text \<open>Step 3 with an open gate and a viable snapshot: one \<open>compact\<close>.\<close>

definition fold_options :: "tick_env \<Rightarrow> nat \<Rightarrow> nat \<Rightarrow> compact_options" where
  "fold_options env maxPerPass minEntries =
     \<lparr>minEntriesToCompact = Some minEntries, maxEntriesPerRun = Some (Fin (of_nat maxPerPass)),
      maxTailProbeGets = None, ceilingBytes = Some (ceil_bytes (te_ceilings env)),
      ceilingEntries = Some (ceil_rows (te_ceilings env)), knownTail = Some (Fin (of_nat (te_nextSeq env)))\<rparr>"

definition tick_fold ::
  "(blob \<Rightarrow> nat) \<Rightarrow> (blob \<Rightarrow> string) \<Rightarrow> tick_env \<Rightarrow> nat \<Rightarrow> nat \<Rightarrow> phases_per_tick \<Rightarrow> (tick \<Rightarrow> step) \<Rightarrow> tick \<Rightarrow> step" where
  "tick_fold bytes sha env maxPerPass minEntries phases rest t =
     tick_bind (compact bytes sha (te_key env) (fold_options env maxPerPass minEntries)) t (\<lambda>foldRes.
     let t1 = (if written foldRes then t\<lparr>tailHintPublished := True\<rparr> else t) in
     prog_bind (case cr_deferral foldRes of None \<Rightarrow> Ret t1 | Some d \<Rightarrow> signalFoldDeferred env Rebuild d t1) (\<lambda>t2.
     if phases = Single then Ret (Inr (), t2) else rest t2))"

text \<open>The inner \<^verbatim>\<open>try\<close>: Steps 0 and 2 to 5.\<close>

definition tick_steps ::
  "(blob \<Rightarrow> nat) \<Rightarrow> (blob \<Rightarrow> string) \<Rightarrow> tick_env \<Rightarrow> bounded_args \<Rightarrow> bounded_options \<Rightarrow> tick \<Rightarrow> step" where
  "tick_steps bytes sha env args options t =
     (let profile = (case bo_profile options of None \<Rightarrow> MAINTENANCE_PROFILE_CF_FREE | Some p \<Rightarrow> p);
          minEntries = (case bo_minEntriesToCompact options of None \<Rightarrow> WRITE_TICK_MIN_ENTRIES_TO_COMPACT | Some n \<Rightarrow> n);
          phases = (case bo_phasesPerTick options of None \<Rightarrow> Single | Some ph \<Rightarrow> ph);
          ropts = bo_logRetention options;
          current = te_current env;
          nextSeq = te_nextSeq env;
          snapshotBytes = snapshot_bytes current;
          snapshotRows = snapshot_rows current;
          gate1 = (ratio_trips current nextSeq \<and> nextSeq - log_seq_start current \<ge> minEntries);
          foldViable = isFoldViable snapshotBytes snapshotRows (te_ceilings env);
          gcDue = crossesGcBoundary (ba_prevSeq args) nextSeq (gcInterval profile);
          hardGc = crossesGcBoundary (ba_prevSeq args) nextSeq (gcInterval profile * GC_STARVATION_GUARD);
          rest = tick_gc_and_retire env gcDue ropts
      in if ba_disabled args then
           prog_bind (refreshTailHintIfNeeded env False t) (\<lambda>t'. Ret (Inr (), t'))
         else if phases = Single \<and> hardGc then
           step_then (runGcAndRefreshTailHint env t) (tick_retire env ropts)
         else if gate1 then
           (if foldViable then tick_fold bytes sha env (maxFoldEntriesPerPass profile) minEntries phases rest t
            else prog_bind (signalFoldDeferred env PreFold
                \<lparr>dimension = (if within_limit snapshotBytes (ceil_bytes (te_ceilings env)) \<or>
                     ceil_bytes (te_ceilings env) = NaNLimit then ByRows else ByBytes),
                 deferredBytes = snapshotBytes, deferredRows = snapshotRows\<rparr> t) rest)
         else rest t)"

text \<open>
  The runner never rejects: the result is the state the tick leaves and the error it swallowed, if it was
  not routine contention.
\<close>

definition tick_tail :: "string \<Rightarrow> bounded_args \<Rightarrow> current_json \<Rightarrow> nat io" where
  "tick_tail collectionPrefix args current =
     (let probeFloor = max (log_seq_start current) (tail_hint current) in
      case ba_observedTail args of
        Some n \<Rightarrow> io_return (max n probeFloor)
      | None \<Rightarrow> io_bind (probeTailFrom collectionPrefix probeFloor None) (\<lambda>(n, _). io_return n))"

definition swallow :: "exn \<Rightarrow> exn option" where
  "swallow e = (if isWriteConflict e then None else Some e)"

definition tick_try :: "(blob \<Rightarrow> nat) \<Rightarrow> (blob \<Rightarrow> string) \<Rightarrow> tick_env \<Rightarrow> bounded_args \<Rightarrow> bounded_options \<Rightarrow>
   (exn option \<times> fold_deferred_fields list) prog" where
  "tick_try bytes sha env args options =
     prog_bind (tick_steps bytes sha env args options \<lparr>tailHintPublished = False, warned = []\<rparr>) (\<lambda>(r, t).
     prog_bind (refreshTailHintIfNeeded env False t) (\<lambda>t'.
     Ret (case r of Inl e \<Rightarrow> swallow e | Inr _ \<Rightarrow> None, warned t')))"

definition tick_env_of :: "gc_clock \<Rightarrow> bounded_args \<Rightarrow> bounded_options \<Rightarrow> current_json \<Rightarrow> nat \<Rightarrow> tick_env" where
  "tick_env_of clk args options current nextSeq =
     (let profile = (case bo_profile options of None \<Rightarrow> MAINTENANCE_PROFILE_CF_FREE | Some p \<Rightarrow> p)
      in \<lparr>te_key = ba_currentJsonKey args, te_current = current, te_nextSeq = nextSeq,
          te_ceilings = resolveFoldCeilings (Some profile) (ba_maxFoldBytes args), te_clock = clk,
          te_gcOpts = \<lparr>graceMillis = bo_gcGraceMillis options, maxMarksPerRun = Some (gcMaxMarks profile),
            maxSweepsPerRun = Some (gcMaxSweeps profile)\<rparr>\<rparr>)"

definition runBoundedMaintenance ::
  "(blob \<Rightarrow> nat) \<Rightarrow> (blob \<Rightarrow> string) \<Rightarrow> gc_clock \<Rightarrow> bounded_args \<Rightarrow> bounded_options \<Rightarrow>
   (exn option \<times> fold_deferred_fields list) prog" where
  "runBoundedMaintenance bytes sha clk args options =
     prog_bind (readCurrentJson (ba_currentJsonKey args)) (\<lambda>rd.
     case rd of Inl e \<Rightarrow> Ret (swallow e, [])
     | Inr None \<Rightarrow> Ret (None, [])
     | Inr (Some (current, _)) \<Rightarrow>
         prog_bind (tick_tail (dirname (ba_currentJsonKey args)) args current) (\<lambda>probed.
         case probed of Inl e \<Rightarrow> Ret (swallow e, [])
         | Inr nextSeq \<Rightarrow> tick_try bytes sha (tick_env_of clk args options current nextSeq) args options))"

section \<open>The environment overrides\<close>

text \<open>\<open>toNumber\<close> is \<^verbatim>\<open>Number(string)\<close>, \<open>lower\<close> is \<^verbatim>\<open>toLowerCase\<close>.\<close>

definition parseMaintenanceEnv ::
  "(string \<Rightarrow> jsnum) \<Rightarrow> (string \<Rightarrow> string) \<Rightarrow> (string \<Rightarrow> string option) \<Rightarrow> (jsnum option \<times> bool) result" where
  "parseMaintenanceEnv toNumber lower readEnv =
     result_bind
       (case readEnv ''BAERLY_MAINTENANCE_MAX_FOLD_BYTES'' of
          None \<Rightarrow> Inr None
        | Some raw \<Rightarrow>
            if raw = [] then Inr None
            else (case toNumber raw of
                Fin q \<Rightarrow> if q \<le> 0 then throw InvalidConfig else Inr (Some (Fin q))
              | _ \<Rightarrow> Inr None)) (\<lambda>foldBytes.
     case readEnv ''BAERLY_MAINTENANCE_DISABLE'' of
       None \<Rightarrow> Inr (foldBytes, False)
     | Some raw \<Rightarrow>
         (let d = lower raw in
          if d = [] \<or> d = ''0'' \<or> d = ''false'' then Inr (foldBytes, False)
          else if d = ''1'' \<or> d = ''true'' then Inr (foldBytes, True)
          else throw InvalidConfig))"

section \<open>Safety\<close>

lemma wp_retireLogs: "coll_ok p sha B s \<Longrightarrow> safe p sha B (retireLogs (currentKey p) opts) s"
  unfolding retireLogs_def
  by (intro wp_io_catch wp_io_bind wp_mono [OF wp_retireLogRange]) (auto split: sum.splits)

lemma wp_runScheduledMaintenance:
  assumes ok: "coll_ok p sha B s" and "knownTail (mo_compact options) = None"
  shows "safe p sha B (runScheduledMaintenance bytes sha clk (currentKey p) options) s"
  unfolding runScheduledMaintenance_def Let_def
proof (rule col.wp_seq [where X = "\<lambda>_ _. True"])
  show "wp (sys_rel p sha B) (allowed B) (compact bytes sha (currentKey p)
      (if minEntriesToCompact (mo_compact options) = None
       then (mo_compact options)\<lparr>minEntriesToCompact := Some SCHEDULED_MIN_ENTRIES_TO_COMPACT\<rparr>
       else mo_compact options)) (\<lambda>r s'. \<forall>x. r = Inr x \<longrightarrow> True) s"
    by (rule wp_mono [OF wp_compact [OF ok]]) (use assms(2) in \<open>auto split: if_splits\<close>)
  fix x s1 assume "sys_rel p sha B s s1"
  then have ok1: "coll_ok p sha B s1" using coll_ok_stable [OF ok] by blast
  show "safe p sha B (io_bind (runGc clk (currentKey p) (mo_gc options)) (\<lambda>gcRes.
      io_bind (retireLogs (currentKey p) (mo_logRetention options)) (\<lambda>_. io_return (x, gcRes)))) s1"
  proof (rule col.wp_seq [where X = "\<lambda>_ _. True", OF wp_mono [OF wp_runGc [OF ok1]]])
    fix y s2 assume "sys_rel p sha B s1 s2"
    then have ok2: "coll_ok p sha B s2" using coll_ok_stable [OF ok1] by blast
    show "safe p sha B (io_bind (retireLogs (currentKey p) (mo_logRetention options)) (\<lambda>_. io_return (x, y))) s2"
      by (rule col.wp_seq [where X = "\<lambda>_ _. True", OF wp_mono [OF wp_retireLogs [OF ok2]]]) auto
  qed auto
qed auto

text \<open>A tick's environment: the manifest it read is old by now, its tail is committed.\<close>

definition env_ok :: "string \<Rightarrow> (blob \<Rightarrow> string) \<Rightarrow> snapshot_body set \<Rightarrow> tick_env \<Rightarrow> store \<Rightarrow> bool" where
  "env_ok p sha B env s \<longleftrightarrow> te_key env = currentKey p \<and> coll_ok p sha B s \<and> committed p sha B s (te_nextSeq env)"

lemma env_ok_stable: "env_ok p sha B env s \<Longrightarrow> sys_rel p sha B s s' \<Longrightarrow> env_ok p sha B env s'"
  unfolding env_ok_def using coll_ok_stable committed_stable by blast

text \<open>\<open>good m\<close>: from every state where the environment holds, \<open>m\<close> is safe and the environment holds after it.\<close>

definition good :: "string \<Rightarrow> (blob \<Rightarrow> string) \<Rightarrow> snapshot_body set \<Rightarrow> tick_env \<Rightarrow> 'a prog \<Rightarrow> bool" where
  "good p sha B env m \<longleftrightarrow> (\<forall>s. env_ok p sha B env s \<longrightarrow>
     wp (sys_rel p sha B) (allowed B) m (\<lambda>_. env_ok p sha B env) s)"

lemma goodI:
  assumes "\<And>s. env_ok p sha B env s \<Longrightarrow> safe p sha B m s"
  shows "good p sha B env m"
  unfolding good_def
proof (intro allI impI)
  fix s assume "env_ok p sha B env s"
  then show "wp (sys_rel p sha B) (allowed B) m (\<lambda>_. env_ok p sha B env) s"
    using col.wp_frame [OF assms, of s "env_ok p sha B env"] env_ok_stable by simp
qed

lemma good_safe: "good p sha B env m \<Longrightarrow> env_ok p sha B env s \<Longrightarrow> safe p sha B m s"
  unfolding good_def by (blast intro: wp_mono)

named_theorems tick_intros \<open>good programs of a tick\<close>

lemma good_ret [tick_intros]: "good p sha B env (Ret x)"
  by (simp add: good_def)

lemma good_bind [tick_intros]: "good p sha B env m \<Longrightarrow> (\<And>x. good p sha B env (f x)) \<Longrightarrow> good p sha B env (prog_bind m f)"
  unfolding good_def by (blast intro: wp_bind wp_mono)

lemma good_tick_bind [tick_intros]:
  "good p sha B env m \<Longrightarrow> (\<And>x. good p sha B env (k x)) \<Longrightarrow> good p sha B env (tick_bind m t k)"
  unfolding tick_bind_def by (rule good_bind) (auto intro: good_ret split: sum.splits)

lemma good_step_then [tick_intros]:
  "good p sha B env m \<Longrightarrow> (\<And>t. good p sha B env (k t)) \<Longrightarrow> good p sha B env (step_then m k)"
  unfolding step_then_def by (rule good_bind) (auto intro: good_ret split: sum.splits)

lemma benign_refresh: "benign n (refresh_mutator n b)"
  by (auto simp: benign_def refresh_mutator_def Let_def)

lemma good_refresh [tick_intros]: "good p sha B env (refreshTailHintIfNeeded env b t)"
proof (rule goodI)
  fix s assume "env_ok p sha B env s"
  then show "safe p sha B (refreshTailHintIfNeeded env b t) s"
    unfolding refreshTailHintIfNeeded_def env_ok_def
    by (auto intro!: wp_bind wp_mono [OF wp_casUpdateCurrentJson [OF _ benign_refresh]])
qed

lemma good_signal [tick_intros]: "good p sha B env (signalFoldDeferred env g d t)"
  by (simp add: signalFoldDeferred_def Let_def good_refresh)

lemma good_runGc [tick_intros]: "te_key env = currentKey p \<Longrightarrow> good p sha B env (runGc clk (te_key env) opts)"
  by (rule goodI) (simp add: env_ok_def wp_runGc)

lemma good_retireLogs [tick_intros]: "te_key env = currentKey p \<Longrightarrow> good p sha B env (retireLogs (te_key env) opts)"
  by (rule goodI) (simp add: env_ok_def wp_retireLogs)

lemma good_compact [tick_intros]:
  assumes "te_key env = currentKey p"
  shows "good p sha B env (compact bytes sha (te_key env) (fold_options env m n))"
proof (rule goodI)
  fix s assume e: "env_ok p sha B env s"
  then have "committed p sha B s k" if "requireIntegerOption (Fin (of_nat (te_nextSeq env))) 0 = Inr k" for k
    using that by (auto simp: env_ok_def requireIntegerOption_def json_nat_def [symmetric])
  then show "safe p sha B (compact bytes sha (te_key env) (fold_options env m n)) s"
    unfolding assms by (intro wp_compact) (use e in \<open>auto simp: env_ok_def fold_options_def\<close>)
qed

lemma good_tick_steps:
  assumes key: "te_key env = currentKey p"
  shows "good p sha B env (tick_steps bytes sha env args options t)"
proof -
  have gc: "good p sha B env (runGcAndRefreshTailHint env t')" for t'
    unfolding runGcAndRefreshTailHint_def by (intro tick_intros key)
  have retire: "good p sha B env (tick_retire env ropts t')" for ropts t'
    unfolding tick_retire_def by (intro tick_intros key)
  have rest: "good p sha B env (tick_gc_and_retire env d ropts t')" for d ropts t'
    unfolding tick_gc_and_retire_def by (cases d) (auto intro!: tick_intros gc retire)
  have fold: "good p sha B env (tick_fold bytes sha env m n ph k t')"
    if "\<And>t. good p sha B env (k t)" for m n ph k t'
    unfolding tick_fold_def Let_def
    by (intro tick_intros key that) (auto intro!: tick_intros that split: option.splits)
  show ?thesis
    unfolding tick_steps_def Let_def
    by (auto intro!: tick_intros gc retire rest fold)
qed

lemma wp_tick_tail:
  assumes ok: "coll_ok p sha B s" and cur: "current_of p (lookup s) = Some (c, t)"
    and obs: "\<And>n. ba_observedTail args = Some n \<Longrightarrow> committed p sha B s n"
  shows "wp (sys_rel p sha B) (allowed B) (tick_tail p args c)
    (\<lambda>r s'. \<forall>x. r = Inr x \<longrightarrow> committed p sha B s' x) s"
proof (cases "ba_observedTail args")
  case None
  then show ?thesis
    unfolding tick_tail_def Let_def None option.case
    by (intro col.wp_seq [OF tail.wp_probeTailFrom [OF ok current_committed [OF ok cur]]]) (auto split: prod.splits)
next
  case (Some n)
  then show ?thesis
    using committed_max [OF obs [OF Some] current_committed [OF ok cur]] by (simp add: tick_tail_def Let_def)
qed

lemma wp_runBoundedMaintenance:
  assumes ok: "coll_ok p sha B s" and key: "ba_currentJsonKey args = currentKey p"
    and obs: "\<And>n. ba_observedTail args = Some n \<Longrightarrow> committed p sha B s n"
  shows "safe p sha B (runBoundedMaintenance bytes sha clk args options) s"
proof -
  have run: "safe p sha B (tick_try bytes sha (tick_env_of clk args options c n) args options) s2"
    if "coll_ok p sha B s2" "committed p sha B s2 n" for c n s2
    unfolding tick_try_def
    by (rule good_safe, rule good_bind, rule good_tick_steps)
      (use that key in \<open>auto simp: env_ok_def tick_env_of_def Let_def intro!: tick_intros\<close>)
  have "safe p sha B (prog_bind (tick_tail p args c) (\<lambda>probed. case probed of Inl e \<Rightarrow> Ret (swallow e, [])
      | Inr n \<Rightarrow> tick_try bytes sha (tick_env_of clk args options c n) args options)) s1"
    if "sys_rel p sha B s s1" "current_of p (lookup s1) = Some (c, t)" for c t s1
  proof (rule wp_bind)
    have ok1: "coll_ok p sha B s1" using coll_ok_stable [OF ok that(1)] .
    have "wp (sys_rel p sha B) (allowed B) (tick_tail p args c)
        (\<lambda>r s'. \<forall>x. r = Inr x \<longrightarrow> committed p sha B s' x) s1"
      by (rule wp_tick_tail [OF ok1 that(2)]) (blast intro: committed_stable [OF that(1)] obs)
    then show "wp (sys_rel p sha B) (allowed B) (tick_tail p args c) (\<lambda>r. safe p sha B
        (case r of Inl e \<Rightarrow> Ret (swallow e, []) | Inr n \<Rightarrow> tick_try bytes sha (tick_env_of clk args options c n) args options)) s1"
      by (rule wp_mono [OF wp_keep_ok [OF _ ok1]]) (auto split: sum.split intro!: run)
  qed
  then show ?thesis
    unfolding runBoundedMaintenance_def key dirname_currentKey
    by (intro wp_bind wp_mono [OF col.wp_since [OF wp_readCurrent [OF ok]]]) (auto split: sum.splits option.splits)
qed

end
