(* ===== verification/Query.thy ===== *)
theory Query
  imports Json Codec
begin

text \<open>
  The predicate algebra of \<^verbatim>\<open>packages/protocol/src/query\<close>: the wire form, the evaluator
  (\<^verbatim>\<open>matches.ts\<close>), the wire-arrival validator (\<^verbatim>\<open>validate.ts\<close>), the per-field satisfiability check
  (\<^verbatim>\<open>satisfiable.ts\<close>), the AND-merge (\<^verbatim>\<open>merge.ts\<close>) and the object-form normaliser
  (\<^verbatim>\<open>normalize.ts\<close>). A document or an object is looked up through its own properties; the members
  it inherits from \<^verbatim>\<open>Object.prototype\<close> are not modelled. The theorems show that a refused predicate of
  scalars is one that no document satisfies, that the merge is conjunction, and that the
  normaliser means the same as matching the object itself.
\<close>

section \<open>Wire form\<close>

datatype predicate_op = PEq | PGt | PGte | PLt | PLte | PIn

record predicate_clause =
  pc_op :: predicate_op
  pc_field :: string
  pc_value :: json

type_synonym predicate_wire = "predicate_clause list"

text \<open>The members of an \<^verbatim>\<open>in\<close> clause, an array in every validated wire.\<close>

fun members_of :: "json \<Rightarrow> json list" where
  "members_of (JArr xs) = xs"
| "members_of _ = []"

section \<open>Evaluation\<close>

fun walk_path :: "json option \<Rightarrow> string list \<Rightarrow> json option" where
  "walk_path cursor [] = cursor"
| "walk_path (Some (JObj xs)) (segment # rest) = walk_path (map_of xs segment) rest"
| "walk_path _ (segment # rest) = None"

definition lookupPath :: "doc \<Rightarrow> string \<Rightarrow> json option" where
  "lookupPath d field =
     (if CHR ''.'' \<notin> set field then map_of d field
      else walk_path (Some (JObj d)) (split_on (CHR ''.'') field))"

text \<open>
  An expected value of type \<^verbatim>\<open>"object"\<close> is a sub-predicate over its own keys; \<^verbatim>\<open>null\<close> has that type
  too, and \<^verbatim>\<open>Object.keys(null)\<close> throws.
\<close>

function matchesEq :: "json \<Rightarrow> json option \<Rightarrow> bool result" where
  "matchesEq expected actual =
     (if is_compound expected \<or> expected = JNull then
        (case actual of
           Some (JObj members) \<Rightarrow>
             if expected = JNull then Inl TypeError
             else all_results (map (\<lambda>p. matchesEq (snd p) (map_of members (fst p))) (own_entries expected))
         | _ \<Rightarrow> Inr False)
      else Inr (case actual of None \<Rightarrow> False | Some v \<Rightarrow> strict_eq expected v))"
  by pat_completeness auto
termination
  by (relation "measure (\<lambda>(e, a). size e)") (auto dest: own_entries_size)

declare matchesEq.simps [simp del]

definition matchesIn :: "json list \<Rightarrow> json option \<Rightarrow> bool result" where
  "matchesIn ms actual = any_results (map (\<lambda>m.
     if is_compound m \<or> m = JNull then matchesEq m actual
     else Inr (case actual of None \<Rightarrow> False | Some v \<Rightarrow> strict_eq m v)) ms)"

definition compareGT :: "json option \<Rightarrow> json \<Rightarrow> bool \<Rightarrow> bool" where
  "compareGT actual bound inclusive =
     (case (bound, actual) of
        (JStr b, Some (JStr a)) \<Rightarrow> if inclusive then a \<ge> b else a > b
      | (JNum b, Some (JNum a)) \<Rightarrow> if inclusive then num_less b a \<or> num_eq a b else num_less b a
      | _ \<Rightarrow> False)"

definition compareLT :: "json option \<Rightarrow> json \<Rightarrow> bool \<Rightarrow> bool" where
  "compareLT actual bound inclusive =
     (case (bound, actual) of
        (JStr b, Some (JStr a)) \<Rightarrow> if inclusive then a \<le> b else a < b
      | (JNum b, Some (JNum a)) \<Rightarrow> if inclusive then num_less a b \<or> num_eq a b else num_less a b
      | _ \<Rightarrow> False)"

definition matchesClause :: "predicate_clause \<Rightarrow> json option \<Rightarrow> bool result" where
  "matchesClause c actual =
     (case pc_op c of
        PEq \<Rightarrow> matchesEq (pc_value c) actual
      | PIn \<Rightarrow> matchesIn (members_of (pc_value c)) actual
      | PGt \<Rightarrow> Inr (compareGT actual (pc_value c) False)
      | PGte \<Rightarrow> Inr (compareGT actual (pc_value c) True)
      | PLt \<Rightarrow> Inr (compareLT actual (pc_value c) False)
      | PLte \<Rightarrow> Inr (compareLT actual (pc_value c) True))"

definition matchesWire :: "predicate_wire \<Rightarrow> doc \<Rightarrow> bool result" where
  "matchesWire wire d = all_results (map (\<lambda>c. matchesClause c (lookupPath d (pc_field c))) wire)"

section \<open>Satisfiability\<close>

text \<open>The sign of \<^verbatim>\<open>a - b\<close>; \<open>None\<close> when the difference is NaN.\<close>

fun num_diff :: "jsnum \<Rightarrow> jsnum \<Rightarrow> int option" where
  "num_diff (Fin a) (Fin b) = Some (if a < b then - 1 else if a = b then 0 else 1)"
| "num_diff NaN _ = None"
| "num_diff _ NaN = None"
| "num_diff PosInf PosInf = None"
| "num_diff NegInf NegInf = None"
| "num_diff PosInf _ = Some 1"
| "num_diff NegInf _ = Some (- 1)"
| "num_diff (Fin _) PosInf = Some (- 1)"
| "num_diff (Fin _) NegInf = Some 1"

definition compareScalar :: "json \<Rightarrow> json \<Rightarrow> int option" where
  "compareScalar a b =
     (case (a, b) of
        (JNum x, JNum y) \<Rightarrow> num_diff x y
      | (JStr x, JStr y) \<Rightarrow> Some (if x < y then - 1 else if x > y then 1 else 0)
      | _ \<Rightarrow> Some 0)"

definition sameComparableType :: "json \<Rightarrow> json \<Rightarrow> bool" where
  "sameComparableType a b =
     (case (a, b) of (JStr _, JStr _) \<Rightarrow> True | (JNum _, JNum _) \<Rightarrow> True | _ \<Rightarrow> False)"

definition gt0 :: "int option \<Rightarrow> bool" where "gt0 c = (case c of None \<Rightarrow> False | Some n \<Rightarrow> n > 0)"
definition lt0 :: "int option \<Rightarrow> bool" where "lt0 c = (case c of None \<Rightarrow> False | Some n \<Rightarrow> n < 0)"

record field_group =
  fg_eqs :: "json list"
  fg_ins :: "json list list"
  fg_lo :: "(json \<times> bool) option"
  fg_hi :: "(json \<times> bool) option"

definition empty_group :: field_group where
  "empty_group = \<lparr>fg_eqs = [], fg_ins = [], fg_lo = None, fg_hi = None\<rparr>"

definition tightenLower :: "json \<Rightarrow> bool \<Rightarrow> field_group \<Rightarrow> field_group result" where
  "tightenLower v inclusive g =
     (case fg_lo g of
        None \<Rightarrow> Inr (g\<lparr>fg_lo := Some (v, inclusive)\<rparr>)
      | Some (lo, loInc) \<Rightarrow>
          if \<not> sameComparableType lo v then throw UnsatisfiablePredicate
          else if lt0 (compareScalar lo v) \<or> (compareScalar lo v = Some 0 \<and> \<not> inclusive \<and> loInc)
            then Inr (g\<lparr>fg_lo := Some (v, inclusive)\<rparr>) else Inr g)"

definition tightenUpper :: "json \<Rightarrow> bool \<Rightarrow> field_group \<Rightarrow> field_group result" where
  "tightenUpper v inclusive g =
     (case fg_hi g of
        None \<Rightarrow> Inr (g\<lparr>fg_hi := Some (v, inclusive)\<rparr>)
      | Some (hi, hiInc) \<Rightarrow>
          if \<not> sameComparableType hi v then throw UnsatisfiablePredicate
          else if gt0 (compareScalar hi v) \<or> (compareScalar hi v = Some 0 \<and> \<not> inclusive \<and> hiInc)
            then Inr (g\<lparr>fg_hi := Some (v, inclusive)\<rparr>) else Inr g)"

definition applyClause :: "field_group \<Rightarrow> predicate_clause \<Rightarrow> field_group result" where
  "applyClause g c =
     (case pc_op c of
        PEq \<Rightarrow> Inr (g\<lparr>fg_eqs := fg_eqs g @ [pc_value c]\<rparr>)
      | PIn \<Rightarrow> Inr (g\<lparr>fg_ins := fg_ins g @ [members_of (pc_value c)]\<rparr>)
      | PGt \<Rightarrow> tightenLower (pc_value c) False g
      | PGte \<Rightarrow> tightenLower (pc_value c) True g
      | PLt \<Rightarrow> tightenUpper (pc_value c) False g
      | PLte \<Rightarrow> tightenUpper (pc_value c) True g)"

fun group_loop :: "predicate_clause list \<Rightarrow> (string \<times> field_group) list \<Rightarrow> (string \<times> field_group) list result" where
  "group_loop [] out = Inr out"
| "group_loop (c # cs) out =
     (let g = (case map_of out (pc_field c) of None \<Rightarrow> empty_group | Some g \<Rightarrow> g)
      in result_bind (applyClause g c) (\<lambda>g'. group_loop cs (obj_set (pc_field c) g' out)))"

definition groupByField :: "predicate_wire \<Rightarrow> (string \<times> field_group) list result" where
  "groupByField wire = group_loop wire []"

definition in_set :: "json \<Rightarrow> json list \<Rightarrow> bool" where
  "in_set v ms = (\<exists>m\<in>set ms. deepEqualDocumentValue v m)"

fun intersectInSets :: "json list list \<Rightarrow> json list" where
  "intersectInSets [] = []"
| "intersectInSets (s # rest) = foldl (\<lambda>acc t. filter (\<lambda>a. in_set a t) acc) s rest"

text \<open>The check of one field group, in the order the source throws.\<close>

definition check_group :: "field_group \<Rightarrow> unit result" where
  "check_group g =
     (if \<exists>e\<in>set (drop 1 (fg_eqs g)). \<not> deepEqualDocumentValue (hd (fg_eqs g)) e then throw InvalidConfig
      else if (case (fg_lo g, fg_hi g) of
          (Some (lo, loInc), Some (hi, hiInc)) \<Rightarrow> sameComparableType lo hi \<and>
            (gt0 (compareScalar lo hi) \<or> (compareScalar lo hi = Some 0 \<and> (\<not> loInc \<or> \<not> hiInc)))
        | _ \<Rightarrow> False) then throw UnsatisfiablePredicate
      else if fg_eqs g \<noteq> [] \<and>
          (let e = hd (fg_eqs g) in
            (case fg_lo g of None \<Rightarrow> False | Some (lo, loInc) \<Rightarrow>
               \<not> sameComparableType e lo \<or> lt0 (compareScalar e lo) \<or>
               (compareScalar e lo = Some 0 \<and> \<not> loInc)) \<or>
            (case fg_hi g of None \<Rightarrow> False | Some (hi, hiInc) \<Rightarrow>
               \<not> sameComparableType e hi \<or> gt0 (compareScalar e hi) \<or>
               (compareScalar e hi = Some 0 \<and> \<not> hiInc)) \<or>
            (\<exists>ms\<in>set (fg_ins g). \<not> in_set e ms)) then throw UnsatisfiablePredicate
      else if length (fg_ins g) > 1 \<and> intersectInSets (fg_ins g) = [] then throw UnsatisfiablePredicate
      else Inr ())"

fun check_groups :: "(string \<times> field_group) list \<Rightarrow> unit result" where
  "check_groups [] = Inr ()"
| "check_groups ((_, g) # gs) = result_bind (check_group g) (\<lambda>_. check_groups gs)"

definition assertWireSatisfiable :: "predicate_wire \<Rightarrow> unit result" where
  "assertWireSatisfiable wire = result_bind (groupByField wire) check_groups"

definition mergePredicateWires :: "predicate_wire \<Rightarrow> predicate_wire \<Rightarrow> predicate_wire result" where
  "mergePredicateWires a b = result_bind (assertWireSatisfiable (a @ b)) (\<lambda>_. Inr (a @ b))"

section \<open>Validation on arrival\<close>

definition OP_NAMES :: "(string \<times> predicate_op) list" where
  "OP_NAMES = [(''eq'', PEq), (''gt'', PGt), (''gte'', PGte), (''lt'', PLt), (''lte'', PLte), (''in'', PIn)]"

text \<open>The value checks; \<open>None\<close> is a missing \<^verbatim>\<open>value\<close> property.\<close>

fun validateMemberValue :: "json \<Rightarrow> unit result" where
  "validateMemberValue JNull = throw InvalidConfig"
| "validateMemberValue (JArr _) = throw InvalidConfig"
| "validateMemberValue (JNum n) = (if isFinite n then Inr () else throw InvalidConfig)"
| "validateMemberValue _ = Inr ()"

fun validateScalar :: "json option \<Rightarrow> unit result" where
  "validateScalar None = throw InvalidConfig"
| "validateScalar (Some JNull) = throw InvalidConfig"
| "validateScalar (Some (JNum n)) = (if isFinite n then Inr () else throw InvalidConfig)"
| "validateScalar (Some _) = Inr ()"

fun validateRangeBound :: "json option \<Rightarrow> unit result" where
  "validateRangeBound (Some (JStr _)) = Inr ()"
| "validateRangeBound (Some (JNum n)) = (if isFinite n then Inr () else throw InvalidConfig)"
| "validateRangeBound _ = throw InvalidConfig"

definition validateClause :: "json \<Rightarrow> predicate_clause result" where
  "validateClause clause =
     (case clause of
        JObj ms \<Rightarrow>
          (case map_of ms ''op'' of
             Some (JStr opName) \<Rightarrow>
               (case map_of OP_NAMES opName of
                  None \<Rightarrow> throw InvalidConfig
                | Some op \<Rightarrow>
                    (case map_of ms ''field'' of
                       Some (JStr field) \<Rightarrow>
                         if field = [] then throw InvalidConfig
                         else if field = ''_id'' \<or> take 4 field = ''_id.'' then throw InvalidConfig
                         else
                           (let v = map_of ms ''value'';
                                ok = Inr \<lparr>pc_op = op, pc_field = field,
                                       pc_value = (case v of None \<Rightarrow> JNull | Some x \<Rightarrow> x)\<rparr>
                            in if op = PIn then
                                 (case v of
                                    Some (JArr []) \<Rightarrow> throw UnsatisfiablePredicate
                                  | Some (JArr xs) \<Rightarrow> result_bind (result_map validateMemberValue xs) (\<lambda>_. ok)
                                  | _ \<Rightarrow> throw InvalidConfig)
                               else
                                 (case v of
                                    Some (JArr _) \<Rightarrow> throw InvalidConfig
                                  | _ \<Rightarrow> result_bind
                                      (if op = PEq then validateScalar v else validateRangeBound v) (\<lambda>_. ok)))
                     | _ \<Rightarrow> throw InvalidConfig))
           | _ \<Rightarrow> throw InvalidConfig)
      | _ \<Rightarrow> throw InvalidConfig)"

definition validateWire :: "json \<Rightarrow> predicate_wire result" where
  "validateWire wire =
     (case wire of
        JObj ms \<Rightarrow>
          (case map_of ms ''clauses'' of
             Some (JArr cs) \<Rightarrow>
               result_bind (result_map validateClause cs) (\<lambda>clauses.
               result_bind (assertWireSatisfiable clauses) (\<lambda>_. Inr clauses))
           | _ \<Rightarrow> throw InvalidConfig)
      | _ \<Rightarrow> throw InvalidConfig)"

section \<open>Normalisation of the object form\<close>

fun join_path :: "string list \<Rightarrow> string" where
  "join_path [] = []"
| "join_path [s] = s"
| "join_path (s # t # r) = s @ CHR ''.'' # join_path (t # r)"

definition RESERVED_PREDICATE_KEYS :: "string list" where
  "RESERVED_PREDICATE_KEYS = [''__proto__'', ''constructor'', ''prototype'']"

function normalizeObject :: "doc \<Rightarrow> string list \<Rightarrow> predicate_clause list result" where
  "normalizeObject [] basePath = Inr []"
| "normalizeObject ((key, v) # rest) basePath =
     (if take 1 key = ''$'' then throw InvalidConfig
      else if key \<in> set RESERVED_PREDICATE_KEYS then throw InvalidConfig
      else
        (let leaf = Inr [\<lparr>pc_op = PEq, pc_field = join_path (basePath @ [key]), pc_value = v\<rparr>]
         in result_bind
           (case v of
              JNull \<Rightarrow> throw InvalidConfig
            | JArr _ \<Rightarrow> throw InvalidConfig
            | JObj members \<Rightarrow> normalizeObject members (basePath @ [key])
            | JNum n \<Rightarrow> if isFinite n then leaf else throw InvalidConfig
            | _ \<Rightarrow> leaf) (\<lambda>inner.
         result_bind (normalizeObject rest basePath) (\<lambda>out. Inr (inner @ out)))))"
  by pat_completeness auto
termination
  by (relation "measure (\<lambda>(xs, _). fields_size xs)") auto

section \<open>Facts on evaluation\<close>

lemma matchesEq_prim:
  "\<not> is_compound e \<Longrightarrow> e \<noteq> JNull \<Longrightarrow>
     matchesEq e a = Inr (case a of None \<Rightarrow> False | Some v \<Rightarrow> strict_eq e v)"
  by (simp add: matchesEq.simps [of e a])

lemma matchesEq_obj:
  "matchesEq (JObj es) (Some (JObj members)) =
     all_results (map (\<lambda>p. matchesEq (snd p) (map_of members (fst p))) es)"
  by (simp add: matchesEq.simps [of "JObj es"])

lemma matchesEq_obj_miss:
  "\<not> (\<exists>members. a = Some (JObj members)) \<Longrightarrow> matchesEq (JObj es) a = Inr False"
  by (auto simp: matchesEq.simps [of "JObj es"] split: option.splits json.splits)

lemma matchesWire_Cons:
  "matchesWire (c # cs) d = Inr True \<longleftrightarrow>
     matchesClause c (lookupPath d (pc_field c)) = Inr True \<and> matchesWire cs d = Inr True"
  by (simp add: matchesWire_def del: all_results_True split: sum.splits if_splits)

lemma matchesWire_append:
  "matchesWire (a @ b) d =
     (case matchesWire a d of Inl e \<Rightarrow> Inl e | Inr r \<Rightarrow> if r then matchesWire b d else Inr False)"
  unfolding matchesWire_def map_append all_results_append ..

section \<open>A refused predicate has no model\<close>

definition scalar :: "json \<Rightarrow> bool" where
  "scalar v = (\<not> is_compound v \<and> v \<noteq> JNull)"

definition range_bound :: "json \<Rightarrow> bool" where
  "range_bound v = (case v of JStr _ \<Rightarrow> True | JNum n \<Rightarrow> isFinite n | _ \<Rightarrow> False)"

definition scalar_clause :: "predicate_clause \<Rightarrow> bool" where
  "scalar_clause c =
     (case pc_op c of
        PEq \<Rightarrow> scalar (pc_value c)
      | PIn \<Rightarrow> \<forall>m\<in>set (members_of (pc_value c)). scalar m
      | _ \<Rightarrow> range_bound (pc_value c))"

text \<open>What a field group asks of the value found at its field.\<close>

definition group_holds :: "field_group \<Rightarrow> json option \<Rightarrow> bool" where
  "group_holds g a =
     ((\<forall>e\<in>set (fg_eqs g). \<exists>x. a = Some x \<and> scalar e \<and> strict_eq e x) \<and>
      (\<forall>ms\<in>set (fg_ins g). \<exists>x. a = Some x \<and> (\<exists>m\<in>set ms. scalar m \<and> strict_eq m x)) \<and>
      (case fg_lo g of None \<Rightarrow> True | Some (b, inc) \<Rightarrow> range_bound b \<and> compareGT a b inc) \<and>
      (case fg_hi g of None \<Rightarrow> True | Some (b, inc) \<Rightarrow> range_bound b \<and> compareLT a b inc))"

lemma empty_group_holds: "group_holds empty_group a"
  by (simp add: group_holds_def empty_group_def)

lemma matchesIn_scalar:
  assumes "\<forall>m\<in>set ms. scalar m" and "matchesIn ms a = Inr True"
  shows "\<exists>x. a = Some x \<and> (\<exists>m\<in>set ms. strict_eq m x)"
  using any_results_True [OF assms(2) [unfolded matchesIn_def]] assms(1)
  by (auto simp: scalar_def split: option.splits)

lemma compareGT_cases:
  assumes "compareGT a b inc" and "range_bound b"
  obtains x y where "b = JStr y" "a = Some (JStr x)" "x > y \<or> x = y \<and> inc"
  | x y where "b = JNum (Fin y)" "a = Some (JNum (Fin x))" "x > y \<or> x = y \<and> inc"
  | y where "b = JNum (Fin y)" "a = Some (JNum PosInf)"
  using assms
  by (auto simp: compareGT_def range_bound_def isFinite_def order_le_less
      split: json.splits option.splits if_splits jsnum.splits elim!: num_less.elims num_eq.elims)

lemma compareLT_cases:
  assumes "compareLT a b inc" and "range_bound b"
  obtains x y where "b = JStr y" "a = Some (JStr x)" "x < y \<or> x = y \<and> inc"
  | x y where "b = JNum (Fin y)" "a = Some (JNum (Fin x))" "x < y \<or> x = y \<and> inc"
  | y where "b = JNum (Fin y)" "a = Some (JNum NegInf)"
  using assms
  by (auto simp: compareLT_def range_bound_def isFinite_def order_le_less
      split: json.splits option.splits if_splits jsnum.splits elim!: num_less.elims num_eq.elims)

lemma tightenLower_holds:
  assumes "group_holds g a" and "compareGT a v inc" and "range_bound v"
  shows "\<exists>g'. tightenLower v inc g = Inr g' \<and> group_holds g' a"
proof (cases "fg_lo g")
  case None
  with assms show ?thesis by (auto simp: tightenLower_def group_holds_def)
next
  case (Some p)
  then obtain lo loInc where lo: "fg_lo g = Some (lo, loInc)" by (cases p) auto
  with assms(1) have "range_bound lo" "compareGT a lo loInc" by (auto simp: group_holds_def)
  then have "sameComparableType lo v"
    using assms(2,3) by (auto simp: sameComparableType_def elim!: compareGT_cases)
  with lo assms show ?thesis by (auto simp: tightenLower_def group_holds_def)
qed

lemma tightenUpper_holds:
  assumes "group_holds g a" and "compareLT a v inc" and "range_bound v"
  shows "\<exists>g'. tightenUpper v inc g = Inr g' \<and> group_holds g' a"
proof (cases "fg_hi g")
  case None
  with assms show ?thesis by (auto simp: tightenUpper_def group_holds_def)
next
  case (Some p)
  then obtain hi hiInc where hi: "fg_hi g = Some (hi, hiInc)" by (cases p) auto
  with assms(1) have "range_bound hi" "compareLT a hi hiInc" by (auto simp: group_holds_def)
  then have "sameComparableType hi v"
    using assms(2,3) by (auto simp: sameComparableType_def elim!: compareLT_cases)
  with hi assms show ?thesis by (auto simp: tightenUpper_def group_holds_def)
qed

lemma applyClause_holds:
  assumes "group_holds g a" and "matchesClause c a = Inr True" and "scalar_clause c"
  shows "\<exists>g'. applyClause g c = Inr g' \<and> group_holds g' a"
proof (cases "pc_op c")
  case PEq
  with assms show ?thesis
    by (auto simp: applyClause_def matchesClause_def scalar_clause_def scalar_def matchesEq_prim
        group_holds_def split: option.splits)
next
  case PIn
  with assms matchesIn_scalar [of "members_of (pc_value c)" a] show ?thesis
    by (auto simp: applyClause_def matchesClause_def scalar_clause_def group_holds_def)
qed (use assms tightenLower_holds tightenUpper_holds in
    \<open>auto simp: applyClause_def matchesClause_def scalar_clause_def\<close>)

lemma group_loop_holds:
  assumes "\<forall>c\<in>set cs. scalar_clause c" and "matchesWire cs d = Inr True"
    and "\<forall>f g. map_of out f = Some g \<longrightarrow> group_holds g (lookupPath d f)" and "distinct (map fst out)"
  shows "\<exists>res. group_loop cs out = Inr res \<and> (\<forall>(f, g)\<in>set res. group_holds g (lookupPath d f))"
  using assms
proof (induction cs arbitrary: out)
  case Nil
  then show ?case by (auto simp: map_of_eq_Some_iff)
next
  case (Cons c cs)
  let ?g = "case map_of out (pc_field c) of None \<Rightarrow> empty_group | Some g \<Rightarrow> g"
  have "group_holds ?g (lookupPath d (pc_field c))"
    using Cons.prems(3) empty_group_holds by (auto split: option.splits)
  with Cons.prems obtain g' where g': "applyClause ?g c = Inr g'" "group_holds g' (lookupPath d (pc_field c))"
    using applyClause_holds [of ?g "lookupPath d (pc_field c)" c] by (auto simp: matchesWire_Cons)
  have "\<forall>f g. map_of (obj_set (pc_field c) g' out) f = Some g \<longrightarrow> group_holds g (lookupPath d f)"
    using Cons.prems(3) g'(2) by (auto simp: map_of_obj_set split: if_splits)
  with Cons.IH [of "obj_set (pc_field c) g' out"] Cons.prems g'(1) show ?case
    by (simp add: matchesWire_Cons distinct_obj_set)
qed

lemma compareScalar_scalar:
  "compareScalar (JStr x) (JStr y) = Some (if x < y then - 1 else if x > y then 1 else 0)"
  "compareScalar (JNum m) (JNum n) = num_diff m n"
  by (simp_all add: compareScalar_def)

lemma in_set_strict: "m \<in> set ms \<Longrightarrow> scalar m \<Longrightarrow> strict_eq m x \<Longrightarrow> in_set x ms \<and> m = x"
  using strict_eq_imp_eq [of m x] by (auto simp: in_set_def scalar_def deepEqual_prim intro!: bexI [of _ m])

lemma foldl_filter_mem:
  "x \<in> set s \<Longrightarrow> \<forall>t\<in>set rest. in_set x t \<Longrightarrow> x \<in> set (foldl (\<lambda>acc t. filter (\<lambda>a. in_set a t) acc) s rest)"
  by (induction rest arbitrary: s) auto

lemma interval_nonempty:
  assumes "range_bound lo" "compareGT a lo li" "range_bound hi" "compareLT a hi ui"
  shows "\<not> (gt0 (compareScalar lo hi) \<or> (compareScalar lo hi = Some 0 \<and> (\<not> li \<or> \<not> ui)))"
  using assms by (auto elim!: compareGT_cases compareLT_cases simp: compareScalar_scalar gt0_def split: if_splits)

lemma eq_above:
  assumes "range_bound lo" "compareGT (Some x) lo li" "strict_eq e x"
  shows "sameComparableType e lo \<and> \<not> lt0 (compareScalar e lo) \<and> \<not> (compareScalar e lo = Some 0 \<and> \<not> li)"
  using assms strict_eq_imp_eq [of e x]
  by (auto elim!: compareGT_cases simp: compareScalar_scalar sameComparableType_def lt0_def split: if_splits)

lemma eq_below:
  assumes "range_bound hi" "compareLT (Some x) hi ui" "strict_eq e x"
  shows "sameComparableType e hi \<and> \<not> gt0 (compareScalar e hi) \<and> \<not> (compareScalar e hi = Some 0 \<and> \<not> ui)"
  using assms strict_eq_imp_eq [of e x]
  by (auto elim!: compareLT_cases simp: compareScalar_scalar sameComparableType_def gt0_def split: if_splits)

lemma eqs_agree:
  "group_holds g a \<Longrightarrow> e \<in> set (fg_eqs g) \<Longrightarrow> f \<in> set (fg_eqs g) \<Longrightarrow> deepEqualDocumentValue e f"
  unfolding group_holds_def scalar_def using deepEqual_prim strict_eq_imp_eq by (metis option.inject)

lemma ins_meet:
  assumes "group_holds g a" and "length (fg_ins g) > 1"
  shows "intersectInSets (fg_ins g) \<noteq> []"
proof -
  obtain s rest where ins: "fg_ins g = s # rest" using assms(2) by (cases "fg_ins g") auto
  then obtain x m where x: "a = Some x" "m \<in> set s" "scalar m" "strict_eq m x"
    using assms(1) by (auto simp: group_holds_def)
  have "\<forall>t\<in>set rest. in_set x t"
    using assms(1) ins x(1) in_set_strict by (fastforce simp: group_holds_def)
  moreover have "x \<in> set s" using x in_set_strict by blast
  ultimately show ?thesis using foldl_filter_mem [of x s rest] ins by auto
qed

lemma check_group_holds:
  assumes h: "group_holds g a"
  shows "check_group g = Inr ()"
proof -
  have eqs: "\<not> (\<exists>e\<in>set (drop 1 (fg_eqs g)). \<not> deepEqualDocumentValue (hd (fg_eqs g)) e)"
    using eqs_agree [OF h] by (cases "fg_eqs g") auto
  have lo: "range_bound lo \<and> compareGT a lo li" if "fg_lo g = Some (lo, li)" for lo li
    using h that by (simp add: group_holds_def)
  have hi: "range_bound hi \<and> compareLT a hi ui" if "fg_hi g = Some (hi, ui)" for hi ui
    using h that by (simp add: group_holds_def)
  have eq: "\<exists>x. a = Some x \<and> strict_eq (hd (fg_eqs g)) x \<and> (\<forall>ms\<in>set (fg_ins g). in_set (hd (fg_eqs g)) ms)"
    if "fg_eqs g \<noteq> []"
  proof -
    have "hd (fg_eqs g) \<in> set (fg_eqs g)" using that by simp
    then obtain x where x: "a = Some x" "strict_eq (hd (fg_eqs g)) x"
      using h unfolding group_holds_def by blast
    moreover have "in_set x ms" if "ms \<in> set (fg_ins g)" for ms
      using h that x(1) in_set_strict unfolding group_holds_def by blast
    ultimately show ?thesis using strict_eq_imp_eq by blast
  qed
  have interval: "\<not> (case (fg_lo g, fg_hi g) of
          (Some (lo, loInc), Some (hi, hiInc)) \<Rightarrow> sameComparableType lo hi \<and>
            (gt0 (compareScalar lo hi) \<or> (compareScalar lo hi = Some 0 \<and> (\<not> loInc \<or> \<not> hiInc)))
        | _ \<Rightarrow> False)"
    using lo hi interval_nonempty by (simp split: option.splits prod.splits) blast
  have above: "\<not> (case fg_lo g of None \<Rightarrow> False | Some (lo, loInc) \<Rightarrow>
      \<not> sameComparableType (hd (fg_eqs g)) lo \<or> lt0 (compareScalar (hd (fg_eqs g)) lo) \<or>
      (compareScalar (hd (fg_eqs g)) lo = Some 0 \<and> \<not> loInc))" if "fg_eqs g \<noteq> []"
    using eq [OF that] lo eq_above by (simp split: option.splits prod.splits) blast
  have below: "\<not> (case fg_hi g of None \<Rightarrow> False | Some (hi, hiInc) \<Rightarrow>
      \<not> sameComparableType (hd (fg_eqs g)) hi \<or> gt0 (compareScalar (hd (fg_eqs g)) hi) \<or>
      (compareScalar (hd (fg_eqs g)) hi = Some 0 \<and> \<not> hiInc))" if "fg_eqs g \<noteq> []"
    using eq [OF that] hi eq_below by (simp split: option.splits prod.splits) blast
  have ins: "\<not> (fg_eqs g \<noteq> [] \<and> (\<exists>ms\<in>set (fg_ins g). \<not> in_set (hd (fg_eqs g)) ms))" using eq by blast
  have skip: "(if b then x else y) = z" if "\<not> b" and "y = z" for b and x y z :: "unit result"
    using that by simp
  show ?thesis
    unfolding check_group_def Let_def
    by (rule skip, rule eqs, rule skip, rule interval, rule skip, use above below ins in blast)
      (use ins_meet [OF h] in auto)
qed

lemma check_groups_holds: "\<forall>(f, g)\<in>set gs. check_group g = Inr () \<Longrightarrow> check_groups gs = Inr ()"
  by (induction gs rule: check_groups.induct) auto

lemma satisfied_accepted:
  assumes "\<forall>c\<in>set wire. scalar_clause c" and "matchesWire wire d = Inr True"
  shows "assertWireSatisfiable wire = Inr ()"
proof -
  obtain res where "group_loop wire [] = Inr res" "\<forall>(f, g)\<in>set res. group_holds g (lookupPath d f)"
    using group_loop_holds [of wire d "[]"] assms by auto
  then show ?thesis
    using check_group_holds check_groups_holds [of res]
    by (fastforce simp: assertWireSatisfiable_def groupByField_def)
qed

section \<open>The object form and the wire form agree\<close>

text \<open>Object forms whose paths the dotted notation can name: no dot in a key, no empty sub-object.\<close>

function nameable :: "doc \<Rightarrow> bool" where
  "nameable [] = True"
| "nameable ((k, v) # rest) =
     (CHR ''.'' \<notin> set k \<and> (case v of JObj ms \<Rightarrow> ms \<noteq> [] \<and> nameable ms | _ \<Rightarrow> True) \<and> nameable rest)"
  by pat_completeness auto
termination
  by (relation "measure fields_size") auto

lemma walk_path_append: "walk_path a (p @ q) = walk_path (walk_path a p) q"
proof (induction p arbitrary: a)
  case (Cons s p)
  show ?case
    using Cons by (cases "(a, s # p)" rule: walk_path.cases) (auto, (cases q; simp)+)
qed simp

lemma split_join_path: "p \<noteq> [] \<Longrightarrow> \<forall>s\<in>set p. CHR ''.'' \<notin> set s \<Longrightarrow> split_on (CHR ''.'') (join_path p) = p"
  by (induction p rule: join_path.induct) (auto simp: split_on_append split_on_notin)

lemma lookup_join_path:
  assumes "p \<noteq> []" and "\<forall>s\<in>set p. CHR ''.'' \<notin> set s"
  shows "lookupPath d (join_path p) = walk_path (Some (JObj d)) p"
proof (cases p rule: join_path.cases)
  case (3 s t r)
  then show ?thesis using split_join_path [OF assms] by (simp add: lookupPath_def)
qed (use assms in \<open>auto simp: lookupPath_def\<close>)

abbreviation match_entries :: "doc \<Rightarrow> doc \<Rightarrow> bool result" where
  "match_entries es members \<equiv> all_results (map (\<lambda>p. matchesEq (snd p) (map_of members (fst p))) es)"

lemma normalize_leaf:
  assumes "\<not> is_compound v" "v \<noteq> JNull" "\<forall>s\<in>set (base @ [k]). CHR ''.'' \<notin> set s"
  shows "matchesWire [\<lparr>pc_op = PEq, pc_field = join_path (base @ [k]), pc_value = v\<rparr>] d =
    matchesEq v (walk_path (walk_path (Some (JObj d)) base) [k])"
  using assms lookup_join_path [of "base @ [k]" d]
  by (simp add: matchesWire_def matchesClause_def matchesEq_prim walk_path_append del: all_results_True)

lemma walk_path_single:
  "walk_path a [k] = (case a of Some (JObj ms) \<Rightarrow> map_of ms k | _ \<Rightarrow> None)"
  by (cases "(a, [k])" rule: walk_path.cases) auto

text \<open>The clauses of an object form decide it against the object reached by the base path.\<close>

lemma normalize_matches:
  assumes "normalizeObject obj base = Inr cs" and "nameable obj" and "\<forall>s\<in>set base. CHR ''.'' \<notin> set s"
  shows "matchesWire cs d =
    (case walk_path (Some (JObj d)) base of
       Some (JObj members) \<Rightarrow> match_entries obj members
     | _ \<Rightarrow> if obj = [] then Inr True else Inr False)"
  using assms
proof (induction obj base arbitrary: cs rule: normalizeObject.induct)
  case (1 base)
  then show ?case by (auto simp: matchesWire_def split: option.splits json.splits)
next
  case (2 key v rest base)
  let ?a = "walk_path (Some (JObj d)) base"
  have guards: "take 1 key \<noteq> ''$''" "key \<notin> set RESERVED_PREDICATE_KEYS"
    using 2(3) by (auto split: if_splits)
  obtain inner out where cs: "cs = inner @ out" and out: "normalizeObject rest base = Inr out"
    and inner: "(case v of JNull \<Rightarrow> throw InvalidConfig | JArr _ \<Rightarrow> throw InvalidConfig
      | JObj members \<Rightarrow> normalizeObject members (base @ [key])
      | JNum n \<Rightarrow> if isFinite n then Inr [\<lparr>pc_op = PEq, pc_field = join_path (base @ [key]), pc_value = v\<rparr>]
          else throw InvalidConfig
      | _ \<Rightarrow> Inr [\<lparr>pc_op = PEq, pc_field = join_path (base @ [key]), pc_value = v\<rparr>]) = Inr inner"
    using 2(3) guards by (auto simp: Let_def result_bind_def split: sum.splits)
  have path: "\<forall>s\<in>set (base @ [key]). CHR ''.'' \<notin> set s" using 2(4,5) by simp
  have first: "matchesWire inner d = matchesEq v (walk_path ?a [key])"
  proof (cases "\<exists>ms. v = JObj ms")
    case True
    then obtain ms where v: "v = JObj ms" by auto
    have "matchesWire inner d = (case walk_path (Some (JObj d)) (base @ [key]) of
       Some (JObj members) \<Rightarrow> match_entries ms members | _ \<Rightarrow> if ms = [] then Inr True else Inr False)"
      using 2(1) [OF guards refl v, of inner] inner 2(4) path v by simp
    then show ?thesis
      using 2(4) v by (auto simp: walk_path_append matchesEq_obj matchesEq_obj_miss
          split: option.splits json.splits simp del: all_results_True)
  next
    case False
    then have "inner = [\<lparr>pc_op = PEq, pc_field = join_path (base @ [key]), pc_value = v\<rparr>]"
      "\<not> is_compound v" "v \<noteq> JNull"
      using inner by (cases v; auto split: if_splits)+
    then show ?thesis using normalize_leaf path by metis
  qed
  have rest: "matchesWire out d = (case ?a of Some (JObj members) \<Rightarrow> match_entries rest members
     | _ \<Rightarrow> if rest = [] then Inr True else Inr False)"
  proof -
    have "\<exists>x. (case v of JNull \<Rightarrow> throw InvalidConfig | JArr _ \<Rightarrow> throw InvalidConfig
      | JObj members \<Rightarrow> normalizeObject members (base @ [key])
      | JNum n \<Rightarrow> if isFinite n then Inr [\<lparr>pc_op = PEq, pc_field = join_path (base @ [key]), pc_value = v\<rparr>]
          else throw InvalidConfig
      | _ \<Rightarrow> Inr [\<lparr>pc_op = PEq, pc_field = join_path (base @ [key]), pc_value = v\<rparr>]) = Inr x" using inner by blast
    then show ?thesis using 2(2) [OF guards refl] out 2(4,5) by simp
  qed
  show ?case
  proof (cases "\<exists>ms. ?a = Some (JObj ms)")
    case True
    then show ?thesis
      using first rest cs by (auto simp: matchesWire_append simp del: all_results_True split: sum.splits)
  next
    case False
    then have "walk_path ?a [key] = None" by (auto simp: walk_path_single split: option.splits json.splits)
    moreover have "matchesEq v None = Inr False" by (simp add: matchesEq.simps [of v None])
    ultimately show ?thesis
      using first False cs by (auto simp: matchesWire_append split: option.splits json.splits)
  qed
qed

section \<open>Properties\<close>

text \<open>
  (C29) A predicate over scalar values that \<^verbatim>\<open>assertWireSatisfiable\<close> refuses is one no document
  satisfies, so refusing it early never hides a row. Every throw of the check is covered: clashing
  equalities, an empty interval, an equality outside the interval or outside an \<^verbatim>\<open>in\<close> set,
  type-incompatible bounds and disjoint \<^verbatim>\<open>in\<close> sets.
\<close>

theorem refused_predicate_has_no_match:
  assumes "\<forall>c\<in>set wire. scalar_clause c" and "assertWireSatisfiable wire = Inl e"
  shows "matchesWire wire d \<noteq> Inr True"
  using satisfied_accepted [OF assms(1)] assms(2) by force

theorem refused_predicate_has_no_match_witness:
  "matchesWire [\<lparr>pc_op = PGt, pc_field = ''x'', pc_value = JNum (Fin 10)\<rparr>,
      \<lparr>pc_op = PLt, pc_field = ''x'', pc_value = JNum (Fin 5)\<rparr>] [(''x'', JNum (Fin 7))] \<noteq> Inr True"
  by (rule refused_predicate_has_no_match [where e = "BaerlyError UnsatisfiablePredicate False"])
    (simp_all add: scalar_clause_def range_bound_def isFinite_def assertWireSatisfiable_def
      groupByField_def applyClause_def tightenLower_def tightenUpper_def empty_group_def check_group_def
      sameComparableType_def compareScalar_def gt0_def)

text \<open>
  The same is false of object values: equality with an object is a sub-predicate that allows
  extra keys, and the check compares the objects as a whole. The predicate that asks for
  \<^verbatim>\<open>{a: 1}\<close> and for membership in \<^verbatim>\<open>[{b: 2}]\<close> is refused as unsatisfiable, and the document with
  both keys satisfies it.
\<close>

theorem refused_object_predicate_matches:
  "let wire = [\<lparr>pc_op = PEq, pc_field = ''x'', pc_value = JObj [(''a'', JNum (Fin 1))]\<rparr>,
       \<lparr>pc_op = PIn, pc_field = ''x'', pc_value = JArr [JObj [(''b'', JNum (Fin 2))]]\<rparr>];
     d = [(''x'', JObj [(''a'', JNum (Fin 1)), (''b'', JNum (Fin 2))])]
   in assertWireSatisfiable wire = throw UnsatisfiablePredicate \<and> matchesWire wire d = Inr True"
  by (simp add: Let_def assertWireSatisfiable_def groupByField_def applyClause_def empty_group_def
      check_group_def in_set_def deepEqualDocumentValue.simps matchesWire_def matchesClause_def
      lookupPath_def matchesEq_obj matchesEq_prim matchesIn_def)

text \<open>
  Chaining two \<^verbatim>\<open>where\<close> calls is conjunction. If \<^verbatim>\<open>mergePredicateWires\<close> accepts, the merged
  predicate holds of exactly the documents both hold of; if it throws, no document satisfies both.
\<close>

theorem merge_is_conjunction:
  assumes "\<forall>c\<in>set (a @ b). scalar_clause c"
  shows "case mergePredicateWires a b of
      Inr m \<Rightarrow> matchesWire m d = Inr True \<longleftrightarrow> matchesWire a d = Inr True \<and> matchesWire b d = Inr True
    | Inl e \<Rightarrow> \<not> (matchesWire a d = Inr True \<and> matchesWire b d = Inr True)"
proof (cases "assertWireSatisfiable (a @ b)")
  case (Inl e)
  then show ?thesis
    using satisfied_accepted [OF assms, of d] by (auto simp: mergePredicateWires_def matchesWire_append)
next
  case (Inr u)
  then show ?thesis
    by (auto simp: mergePredicateWires_def matchesWire_append split: sum.splits if_splits)
qed

theorem merge_is_conjunction_witness:
  "case mergePredicateWires [\<lparr>pc_op = PEq, pc_field = ''s'', pc_value = JStr ''open''\<rparr>]
       [\<lparr>pc_op = PGte, pc_field = ''n'', pc_value = JNum (Fin 1)\<rparr>] of
      Inr m \<Rightarrow> matchesWire m [(''s'', JStr ''open''), (''n'', JNum (Fin 2))] = Inr True \<longleftrightarrow>
        matchesWire [\<lparr>pc_op = PEq, pc_field = ''s'', pc_value = JStr ''open''\<rparr>]
          [(''s'', JStr ''open''), (''n'', JNum (Fin 2))] = Inr True \<and>
        matchesWire [\<lparr>pc_op = PGte, pc_field = ''n'', pc_value = JNum (Fin 1)\<rparr>]
          [(''s'', JStr ''open''), (''n'', JNum (Fin 2))] = Inr True
    | Inl e \<Rightarrow> \<not> (matchesWire [\<lparr>pc_op = PEq, pc_field = ''s'', pc_value = JStr ''open''\<rparr>]
          [(''s'', JStr ''open''), (''n'', JNum (Fin 2))] = Inr True \<and>
        matchesWire [\<lparr>pc_op = PGte, pc_field = ''n'', pc_value = JNum (Fin 1)\<rparr>]
          [(''s'', JStr ''open''), (''n'', JNum (Fin 2))] = Inr True)"
  by (rule merge_is_conjunction) (simp add: scalar_clause_def scalar_def range_bound_def isFinite_def)

text \<open>
  (C31) The normaliser keeps the meaning of an object-form predicate: the dotted-path clauses it
  emits hold of a document exactly when the object itself, read as an open-world sub-predicate,
  matches the document, at every nesting depth. Keys with a dot and empty sub-objects are outside:
  the dotted path does not name them.
\<close>

theorem normalize_keeps_meaning:
  assumes "normalizeObject obj [] = Inr cs" and "nameable obj"
  shows "matchesWire cs d = matchesEq (JObj obj) (Some (JObj d))"
  using normalize_matches [OF assms] by (simp add: matchesEq_obj del: all_results_True)

theorem normalize_keeps_meaning_witness:
  "matchesWire [\<lparr>pc_op = PEq, pc_field = ''a.b'', pc_value = JBool True\<rparr>] [(''a'', JObj [(''b'', JBool True)])] =
     matchesEq (JObj [(''a'', JObj [(''b'', JBool True)])]) (Some (JObj [(''a'', JObj [(''b'', JBool True)])]))"
  by (rule normalize_keeps_meaning) (simp_all add: RESERVED_PREDICATE_KEYS_def)

text \<open>
  A predicate that passed \<^verbatim>\<open>validateWire\<close> can still make the evaluator throw: the validator
  does not look inside an object value, and a nested \<^verbatim>\<open>null\<close> there meets an object in the document.
\<close>

theorem validated_predicate_can_throw:
  "let wire = JObj [(''clauses'', JArr [JObj [(''op'', JStr ''eq''), (''field'', JStr ''x''),
       (''value'', JObj [(''a'', JNull)])]])];
     c = \<lparr>pc_op = PEq, pc_field = ''x'', pc_value = JObj [(''a'', JNull)]\<rparr>
   in validateWire wire = Inr [c] \<and> matchesWire [c] [(''x'', JObj [(''a'', JObj [])])] = Inl TypeError"
  by (simp add: Let_def validateWire_def validateClause_def OP_NAMES_def assertWireSatisfiable_def
      groupByField_def applyClause_def empty_group_def check_group_def matchesWire_def matchesClause_def
      lookupPath_def matchesEq.simps)

end
