(* ===== verification/Indexes.thy ===== *)
theory Indexes
  imports Query Storage "HOL-Library.Word"
begin

text \<open>
  Secondary indexes: \<^verbatim>\<open>packages/server/src/indexes.ts\<close> with the segment guards it shares with the
  writer (\<^verbatim>\<open>names.ts\<close>, \<^verbatim>\<open>path-segment.ts\<close>, \<^verbatim>\<open>key-limit.ts\<close>). An indexed value becomes a tagged byte
  string, then base 32 by a shift-and-mask loop over 32-bit integers. The theorem is the contract
  the range walks of the planner rest on: the text order of the encoded segments is the order of
  the values.
\<close>

unbundle bit_operations_syntax

section \<open>Guards on names and keys\<close>

definition MAX_SEGMENT_BYTES :: nat where "MAX_SEGMENT_BYTES = 256"
definition MAX_KEY_BYTES :: nat where "MAX_KEY_BYTES = 1024"

definition assertNameNotReserved :: "string \<Rightarrow> unit result" where
  "assertNameNotReserved name = (if take 1 name = ''_'' then throw InvalidConfig else Inr ())"

definition is_control :: "char \<Rightarrow> bool" where
  "is_control c = (let k = (of_char c :: nat) in k \<le> 31 \<or> (127 \<le> k \<and> k \<le> 159))"

definition assertPathSegment :: "string \<Rightarrow> unit result" where
  "assertPathSegment v =
     (if v = [] then throw InvalidConfig
      else if CHR ''/'' \<in> set v then throw InvalidConfig
      else if v = ''.'' \<or> v = ''..'' then throw InvalidConfig
      else if \<exists>c\<in>set v. is_control c then throw InvalidConfig
      else if length (utf8_encode v) > MAX_SEGMENT_BYTES then throw InvalidConfig
      else assertNameNotReserved v)"

definition assertKeyWithinLimit :: "string \<Rightarrow> unit result" where
  "assertKeyWithinLimit key =
     (if length (utf8_encode key) > MAX_KEY_BYTES then throw InvalidConfig else Inr ())"

section \<open>Index definitions\<close>

datatype index_on = OnField string | OnFields "string list"

record index_definition =
  ix_name :: string
  ix_on :: index_on
  ix_predicate :: "predicate_wire option"

fun on_fields :: "index_on \<Rightarrow> string list" where
  "on_fields (OnField f) = [f]"
| "on_fields (OnFields fs) = fs"

definition INDEX_NAME_RE :: "string \<Rightarrow> bool" where
  "INDEX_NAME_RE s = (case s of [] \<Rightarrow> False
     | c # cs \<Rightarrow> (CHR ''a'' \<le> c \<and> c \<le> CHR ''z'') \<and>
         (\<forall>d\<in>set cs. (CHR ''a'' \<le> d \<and> d \<le> CHR ''z'') \<or> (CHR ''0'' \<le> d \<and> d \<le> CHR ''9'') \<or> d = CHR ''_''))"

text \<open>The declared predicate as the JSON object the validator receives.\<close>

definition op_name :: "predicate_op \<Rightarrow> string" where
  "op_name op = (case op of PEq \<Rightarrow> ''eq'' | PGt \<Rightarrow> ''gt'' | PGte \<Rightarrow> ''gte'' | PLt \<Rightarrow> ''lt''
     | PLte \<Rightarrow> ''lte'' | PIn \<Rightarrow> ''in'')"

definition encode_wire :: "predicate_wire \<Rightarrow> json" where
  "encode_wire w = JObj [(''clauses'', JArr (map (\<lambda>c. JObj [(''op'', JStr (op_name (pc_op c))),
     (''field'', JStr (pc_field c)), (''value'', pc_value c)]) w))]"

definition validateIndexDefinition :: "index_definition \<Rightarrow> unit result" where
  "validateIndexDefinition def =
     result_bind (assertNameNotReserved (ix_name def)) (\<lambda>_.
       if \<not> INDEX_NAME_RE (ix_name def) then throw SchemaError
       else if (case ix_on def of OnField f \<Rightarrow> f = [] | OnFields fs \<Rightarrow> fs = []) then throw SchemaError
       else (case ix_predicate def of
               None \<Rightarrow> Inr ()
             | Some p \<Rightarrow> (case validateWire (encode_wire p) of
                 Inl e \<Rightarrow> (case e of BaerlyError _ _ \<Rightarrow> throw SchemaError | _ \<Rightarrow> Inl e)
               | Inr _ \<Rightarrow> Inr ())))"

section \<open>Value encoding\<close>

text \<open>
  The IEEE 754 pattern of a double. Every finite double is a natural multiple of the least subnormal
  \<open>2 ^ - 1074\<close>; for the multiple \<open>m\<close> the exponent and fraction fields together are
  \<open>double_bits m\<close>.
\<close>

fun nat_log2 :: "nat \<Rightarrow> nat" where
  "nat_log2 n = (if n < 2 then 0 else Suc (nat_log2 (n div 2)))"

declare nat_log2.simps [simp del]

definition double_bits :: "nat \<Rightarrow> nat" where
  "double_bits m = (let j = nat_log2 m - 52 in j * 2 ^ 52 + m div 2 ^ j)"

definition subnormal_units :: "rat \<Rightarrow> nat" where
  "subnormal_units x = nat \<lfloor>\<bar>x\<bar> * 2 ^ 1074\<rfloor>"

definition INF_BITS :: nat where "INF_BITS = 2047 * 2 ^ 52"

text \<open>\<^verbatim>\<open>setFloat64(0, n === 0 ? 0 : n, false)\<close>: the 64 bits as a number; NaN is excluded by the caller.\<close>

fun float64 :: "jsnum \<Rightarrow> nat" where
  "float64 (Fin x) = (if x < 0 then 2 ^ 63 else 0) + double_bits (subnormal_units x)"
| "float64 PosInf = INF_BITS"
| "float64 NegInf = 2 ^ 63 + INF_BITS"
| "float64 NaN = 0"

fun big_endian :: "nat \<Rightarrow> nat \<Rightarrow> nat list" where
  "big_endian 0 n = []"
| "big_endian (Suc k) n = (n div 256 ^ k) mod 256 # big_endian k n"

definition encodeNumberPayload :: "jsnum \<Rightarrow> nat list result" where
  "encodeNumberPayload n =
     (if n = NaN then throw SchemaError
      else
        (let bytes = big_endian 8 (float64 n)
         in Inr (if hd bytes AND 128 = 0 then (hd bytes XOR 128) # tl bytes
                 else map (\<lambda>b. b XOR 255) bytes)))"

text \<open>\<open>stringify\<close> stands for the bytes of \<^verbatim>\<open>JSON.stringify\<close> of an object or array.\<close>

fun encodeBytes :: "(json \<Rightarrow> nat list) \<Rightarrow> json \<Rightarrow> nat list result" where
  "encodeBytes stringify JNull = Inr [16]"
| "encodeBytes stringify (JBool b) = Inr [if b then 33 else 32]"
| "encodeBytes stringify (JNum n) = result_bind (encodeNumberPayload n) (\<lambda>p. Inr (48 # p))"
| "encodeBytes stringify (JStr s) = Inr (64 # utf8_encode s)"
| "encodeBytes stringify v = Inr (80 # stringify v)"

definition b32_char :: "32 word \<Rightarrow> char" where
  "b32_char w = digit_char (unat (w AND 31))"

text \<open>The inner \<^verbatim>\<open>while (bits >= 5)\<close>, then the loop over the bytes; \<^verbatim>\<open>>>\<close> keeps the sign.\<close>

fun b32_inner :: "32 word \<Rightarrow> nat \<Rightarrow> string \<times> nat" where
  "b32_inner val bits =
     (if bits \<ge> 5 then
        (let (out, rest) = b32_inner val (bits - 5)
         in (b32_char (signed_drop_bit (bits - 5) val) # out, rest))
      else ([], bits))"

declare b32_inner.simps [simp del]

fun b32_loop :: "nat list \<Rightarrow> 32 word \<Rightarrow> nat \<Rightarrow> string" where
  "b32_loop [] val bits = (if bits > 0 then [b32_char (push_bit (5 - bits) val)] else [])"
| "b32_loop (b # bs) val bits =
     (let val' = push_bit 8 val OR of_nat b;
          (out, bits') = b32_inner val' (bits + 8)
      in out @ b32_loop bs val' bits')"

definition encodeIndexValue :: "(json \<Rightarrow> nat list) \<Rightarrow> json \<Rightarrow> string result" where
  "encodeIndexValue stringify v = result_bind (encodeBytes stringify v) (\<lambda>bytes. Inr (b32_loop bytes 0 0))"

section \<open>Keys\<close>

definition indexKeyPrefix :: "string \<Rightarrow> string \<Rightarrow> string" where
  "indexKeyPrefix logPrefix name = logPrefix @ ''/index/'' @ name @ ''/''"

fun join_slash :: "string list \<Rightarrow> string" where
  "join_slash [] = []"
| "join_slash [s] = s"
| "join_slash (s # t # r) = s @ CHR ''/'' # join_slash (t # r)"

definition indexKeyFor ::
  "(json \<Rightarrow> nat list) \<Rightarrow> string \<Rightarrow> index_definition \<Rightarrow> json list \<Rightarrow> string \<Rightarrow> string result" where
  "indexKeyFor stringify logPrefix def vals docId =
     result_bind (result_map (encodeIndexValue stringify) vals) (\<lambda>segments.
       Inr (logPrefix @ ''/index/'' @ ix_name def @ ''/'' @ join_slash segments @ ''/'' @ docId @ ''.json''))"

fun project_fields :: "string list \<Rightarrow> doc \<Rightarrow> json list option result" where
  "project_fields [] post = Inr (Some [])"
| "project_fields (field # fs) post =
     (if CHR ''.'' \<in> set field then throw SchemaError
      else (case map_of post field of
              None \<Rightarrow> Inr None
            | Some JNull \<Rightarrow> Inr None
            | Some (JArr _) \<Rightarrow> throw SchemaError
            | Some v \<Rightarrow> result_bind (project_fields fs post) (\<lambda>r. Inr (map_option ((#) v) r))))"

definition projectIndexValues :: "index_definition \<Rightarrow> doc option \<Rightarrow> json list option result" where
  "projectIndexValues def post =
     (case post of None \<Rightarrow> Inr None | Some b \<Rightarrow> project_fields (on_fields (ix_on def)) b)"

fun allIndexKeysFor ::
  "(json \<Rightarrow> nat list) \<Rightarrow> string \<Rightarrow> index_definition list \<Rightarrow> doc option \<Rightarrow> string \<Rightarrow> string list result" where
  "allIndexKeysFor stringify logPrefix [] post docId = Inr []"
| "allIndexKeysFor stringify logPrefix (def # defs) post docId =
     result_bind
       (case (ix_predicate def, post) of (Some p, Some b) \<Rightarrow> matchesWire p b | _ \<Rightarrow> Inr True) (\<lambda>keep.
     if \<not> keep then allIndexKeysFor stringify logPrefix defs post docId
     else result_bind (projectIndexValues def post) (\<lambda>vals.
       case vals of
         None \<Rightarrow> allIndexKeysFor stringify logPrefix defs post docId
       | Some vs \<Rightarrow>
           result_bind (indexKeyFor stringify logPrefix def vs docId) (\<lambda>k.
           result_bind (allIndexKeysFor stringify logPrefix defs post docId) (\<lambda>ks. Inr (k # ks)))))"

section \<open>The base 32 loop keeps byte order\<close>

text \<open>The same loop over numbers: the pending bits \<open>p\<close> and their count \<open>k\<close>.\<close>

fun groups :: "nat \<Rightarrow> nat \<Rightarrow> nat list" where
  "groups n bits = (if bits \<ge> 5 then take_bit 5 (drop_bit (bits - 5) n) # groups n (bits - 5) else [])"

declare groups.simps [simp del]

fun b32_ref :: "nat list \<Rightarrow> nat \<Rightarrow> nat \<Rightarrow> nat list" where
  "b32_ref [] p k = (if k > 0 then [p * 2 ^ (5 - k)] else [])"
| "b32_ref (b # bs) p k =
     groups (p * 256 + b) (k + 8) @ b32_ref bs (take_bit ((k + 8) mod 5) (p * 256 + b)) ((k + 8) mod 5)"

lemma and_31: "(w :: 32 word) AND 31 = take_bit 5 w"
  by (simp add: take_bit_eq_mask mask_eq_exp_minus_1)

lemma unat_shift_group:
  assumes "n + 5 \<le> 32"
  shows "unat (signed_drop_bit n (w :: 32 word) AND 31) = take_bit 5 (drop_bit n (unat w))"
proof -
  have "take_bit 5 (signed_drop_bit n w) = take_bit 5 (drop_bit n w)"
    using assms by (intro bit_word_eqI) (auto simp: bit_simps)
  then show ?thesis by (simp add: and_31 unsigned_take_bit_eq unat_drop_bit_eq)
qed

lemma byte_appended:
  fixes n b :: nat
  assumes "b < 256"
  shows "push_bit 8 n OR b = n * 256 + b"
proof -
  have "b = take_bit 8 b" using assms by (simp add: take_bit_nat_eq_self)
  then have "push_bit 8 n AND b = push_bit 8 n AND take_bit 8 b" by (rule arg_cong)
  also have "\<dots> = 0" by (rule bit_eqI) (auto simp: bit_simps)
  finally show ?thesis by (simp add: disjunctive_add_eq_or [symmetric] push_bit_eq_mult)
qed

lemma shifted_value:
  assumes "k + 8 \<le> 32" and "b < 256"
  shows "take_bit (k + 8) (unat (push_bit 8 (w :: 32 word) OR of_nat b)) = take_bit k (unat w) * 256 + b"
proof -
  have "take_bit (k + 8) (unat (push_bit 8 w OR of_nat b)) =
      take_bit (k + 8) (push_bit 8 (unat w)) OR take_bit (k + 8) b"
    using assms by (simp add: unsigned_or_eq unsigned_push_bit_eq take_bit_or unsigned_of_nat min_def)
  also have "\<dots> = push_bit 8 (take_bit k (unat w)) OR b"
  proof -
    have "b < 2 ^ k * 256" by (rule less_le_trans [OF assms(2)]) simp
    then have "b < 2 ^ (k + 8)" by (simp add: power_add)
    then show ?thesis by (simp add: take_bit_push_bit take_bit_nat_eq_self)
  qed
  finally show ?thesis using byte_appended [OF assms(2)] by simp
qed

lemma take_drop_low:
  fixes m n :: nat
  assumes "take_bit bits m = take_bit bits n" and "5 \<le> bits"
  shows "take_bit 5 (drop_bit (bits - 5) m) = take_bit 5 (drop_bit (bits - 5) n)"
  using assms by (simp add: take_bit_drop_bit)

lemma take_bit_below: "take_bit b m = take_bit b n \<Longrightarrow> a \<le> b \<Longrightarrow> take_bit a m = take_bit a (n :: nat)"
  by (metis min.absorb1 take_bit_take_bit)

lemma groups_low: "take_bit bits m = take_bit bits n \<Longrightarrow> groups m bits = groups n bits"
proof (induction m bits rule: groups.induct)
  case (1 m bits)
  then show ?case
    using take_drop_low [of bits m n] take_bit_below [of bits m n "bits - 5"]
    by (subst (1 2) groups.simps) simp
qed

lemma b32_inner_groups:
  "bits \<le> 32 \<Longrightarrow> b32_inner w bits = (map digit_char (groups (unat w) bits), bits mod 5)"
proof (induction w bits rule: b32_inner.induct)
  case (1 w bits)
  show ?case
  proof (cases "bits \<ge> 5")
    case True
    then show ?thesis
      using 1 unat_shift_group [of "bits - 5" w]
      by (subst b32_inner.simps, subst groups.simps) (simp add: b32_char_def le_mod_geq)
  next
    case False
    then show ?thesis by (subst b32_inner.simps, subst groups.simps) simp
  qed
qed

text \<open>The pad character: the pending bits moved to the top of a group.\<close>

lemma pad_char:
  assumes "0 < k" and "k < 5"
  shows "b32_char (push_bit (5 - k) w) = digit_char (take_bit k (unat w) * 2 ^ (5 - k))"
proof -
  have "take_bit 5 (push_bit (5 - k) (unat w)) = push_bit (5 - k) (take_bit k (unat w))"
    using assms by (simp add: take_bit_push_bit)
  then have "unat (push_bit (5 - k) w AND 31) = push_bit (5 - k) (take_bit k (unat w))"
    by (simp add: and_31 unsigned_take_bit_eq unsigned_push_bit_eq)
  then show ?thesis by (simp add: b32_char_def push_bit_eq_mult)
qed

lemma b32_loop_ref:
  "k < 5 \<Longrightarrow> \<forall>b\<in>set bs. b < 256 \<Longrightarrow>
     b32_loop bs w k = map digit_char (b32_ref bs (take_bit k (unat w)) k)"
proof (induction bs arbitrary: w k)
  case Nil
  then show ?case by (simp add: pad_char)
next
  case (Cons b bs)
  let ?w = "push_bit 8 w OR of_nat b" and ?v = "take_bit k (unat w) * 256 + b" and ?k = "(k + 8) mod 5"
  have v: "take_bit (k + 8) (unat ?w) = take_bit (k + 8) ?v"
    using arg_cong [OF shifted_value [of k b w], of "take_bit (k + 8)"] Cons.prems by simp
  have "take_bit ?k (unat ?w) = take_bit ?k ?v"
    using take_bit_below [OF v] by simp
  moreover have "groups (unat ?w) (k + 8) = groups ?v (k + 8)" using groups_low [OF v] .
  ultimately show ?case
    using Cons b32_inner_groups [of "k + 8" ?w] by simp
qed

text \<open>The groups of a value spell it in base 32 above its last \<open>bits mod 5\<close> bits.\<close>

lemma groups_unfold:
  "groups n bits = (if bits \<ge> 5 then take_bit 5 (drop_bit (bits - 5) n) # groups n (bits - 5) else [])"
  by (rule groups.simps)

lemma groups_order:
  "m < n \<Longrightarrow> n < 2 ^ bits \<Longrightarrow> groups m bits < groups n bits \<or>
    groups m bits = groups n bits \<and> take_bit (bits mod 5) m < take_bit (bits mod 5) n"
proof (induction bits arbitrary: m n rule: less_induct)
  case (less bits)
  show ?case
  proof (cases "bits \<ge> 5")
    case False
    then have "groups m bits = []" "groups n bits = []" by (simp_all add: groups_unfold)
    with less False show ?thesis by (simp add: take_bit_nat_eq_self)
  next
    case True
    let ?b = "bits - 5"
    let ?gm = "drop_bit ?b m" and ?gn = "drop_bit ?b n"
    have "(2 :: nat) ^ bits = 2 ^ 5 * 2 ^ ?b" using True by (metis le_add_diff_inverse power_add)
    then have small: "?gm < 32" "?gn < 32"
      using less.prems by (simp_all add: drop_bit_eq_div less_mult_imp_div_less)
    have g: "groups x bits = take_bit 5 (drop_bit ?b x) # groups x ?b" for x
      using True by (subst groups_unfold) simp
    have le: "?gm \<le> ?gn" using less.prems by (simp add: drop_bit_eq_div div_le_mono)
    show ?thesis
    proof (cases "?gm = ?gn")
      case False
      then show ?thesis using le small by (simp add: g take_bit_nat_eq_self)
    next
      case eq: True
      have "m = ?gm * 2 ^ ?b + take_bit ?b m" "n = ?gn * 2 ^ ?b + take_bit ?b n"
        unfolding drop_bit_eq_div take_bit_eq_mod by (simp_all only: div_mult_mod_eq)
      then have lt: "take_bit ?b m < take_bit ?b n" using less.prems(1) eq by (metis add_less_cancel_left)
      have low: "groups (take_bit ?b x) ?b = groups x ?b" for x by (rule groups_low) simp
      have same: "bits mod 5 = ?b mod 5" using True by (simp add: le_mod_geq)
      have tb: "take_bit (?b mod 5) (take_bit ?b x) = take_bit (?b mod 5) x" for x :: nat
        by (simp add: min_def)
      show ?thesis
        using less.IH [of ?b "take_bit ?b m" "take_bit ?b n"] True lt eq by (simp add: g low same tb)
    qed
  qed
qed

text \<open>What the loop writes next is governed by the pending bits.\<close>

lemma groups_first:
  assumes "p < 2 ^ k" and "k < 5" and "b < 256"
  shows "\<exists>c cs. groups (p * 256 + b) (k + 8) = c # cs \<and> p * 2 ^ (5 - k) \<le> c \<and> c < (p + 1) * 2 ^ (5 - k)"
proof -
  let ?c = "drop_bit (k + 3) (p * 256 + b)"
  have "p * 256 + b < 2 ^ k * 256" using assms by simp
  then have c32: "?c < 32" by (simp add: drop_bit_eq_div power_add less_mult_imp_div_less mult.commute mult.assoc)
  have pow: "(256 :: nat) = 2 ^ (5 - k) * 2 ^ (k + 3)" using assms(2) by (simp flip: power_add)
  have "?c = p * 2 ^ (5 - k) + b div 2 ^ (k + 3)"
    unfolding drop_bit_eq_div pow by (simp add: mult.assoc [symmetric] div_mult_self3 del: power_add)
  moreover have "b div 2 ^ (k + 3) < 2 ^ (5 - k)"
    using assms(3) pow by (simp add: less_mult_imp_div_less)
  ultimately show ?thesis
    using c32 by (subst groups_unfold) (simp add: take_bit_nat_eq_self algebra_simps)
qed

lemma b32_first:
  assumes "0 < k" and "k < 5" and "p < 2 ^ k" and "\<forall>b\<in>set bs. b < 256"
  shows "\<exists>c cs. b32_ref bs p k = c # cs \<and> p * 2 ^ (5 - k) \<le> c \<and> c < (p + 1) * 2 ^ (5 - k)"
proof (cases bs)
  case Nil
  then show ?thesis using assms(1) by simp
next
  case (Cons b bs')
  then show ?thesis using groups_first [of p k b] assms by auto
qed

lemma b32_pending:
  assumes "p < q" and "q < 2 ^ k" and "0 < k" and "k < 5" "\<forall>b\<in>set bs. b < 256" "\<forall>b\<in>set cs. b < 256"
  shows "b32_ref bs p k < b32_ref cs q k"
proof -
  obtain c r where c: "b32_ref bs p k = c # r" "c < (p + 1) * 2 ^ (5 - k)"
    using b32_first [of k p bs] assms by auto
  obtain d s where d: "b32_ref cs q k = d # s" "q * 2 ^ (5 - k) \<le> d"
    using b32_first [of k q cs] assms by auto
  have "(p + 1) * 2 ^ (5 - k) \<le> q * (2 :: nat) ^ (5 - k)" using assms(1) by (intro mult_le_mono1) simp
  with c d show ?thesis by simp
qed

lemma append_less: "length xs = length ys \<Longrightarrow> xs < ys \<Longrightarrow> xs @ us < ys @ (vs :: nat list)"
  by (induction xs ys rule: list_induct2) auto

lemma append_less_same: "us < vs \<Longrightarrow> xs @ us < xs @ (vs :: nat list)"
  by (induction xs) auto

lemma length_groups: "length (groups n bits) = bits div 5"
  by (induction n bits rule: groups.induct) (subst groups_unfold, simp add: le_div_geq)

lemma b32_ref_order:
  "bs < cs \<Longrightarrow> k < 5 \<Longrightarrow> p < 2 ^ k \<Longrightarrow> \<forall>b\<in>set bs. b < 256 \<Longrightarrow> \<forall>c\<in>set cs. c < 256 \<Longrightarrow>
     b32_ref bs p k < b32_ref cs p k"
proof (induction bs arbitrary: cs p k)
  case Nil
  then obtain c cs' where cs: "cs = c # cs'" by (cases cs) auto
  then obtain d r where d: "groups (p * 256 + c) (k + 8) = d # r" "p * 2 ^ (5 - k) \<le> d"
    using groups_first [of p k c] Nil by auto
  show ?case
  proof (cases "k = 0")
    case False
    then have "r @ b32_ref cs' (take_bit ((k + 8) mod 5) (p * 256 + c)) ((k + 8) mod 5) \<noteq> []"
      using b32_first [of "(k + 8) mod 5" "take_bit ((k + 8) mod 5) (p * 256 + c)" cs'] Nil(5) cs
        length_groups [of "p * 256 + c" "k + 8"] d(1) by (cases "(k + 8) mod 5 = 0") (auto simp: take_bit_nat_less_exp)
    then have "[] < r @ b32_ref cs' (take_bit ((k + 8) mod 5) (p * 256 + c)) ((k + 8) mod 5)"
      by (metis Nil_less_Cons neq_Nil_conv)
    with d cs False show ?thesis by auto
  qed (use d cs in simp)
next
  case (Cons b bs)
  then obtain c cs' where cs: "cs = c # cs'" by (cases cs) auto
  let ?k = "(k + 8) mod 5"
  show ?case
  proof (cases "b = c")
    case True
    then show ?thesis
      using Cons.IH [of cs' ?k "take_bit ?k (p * 256 + b)"] Cons.prems cs by (simp add: take_bit_nat_less_exp append_less_same)
  next
    case False
    then have "b < c" using Cons.prems(1) cs by simp
    moreover have "p * 256 + c < 2 ^ (k + 8)"
      using Cons.prems cs by (simp add: power_add)
    ultimately consider "groups (p * 256 + b) (k + 8) < groups (p * 256 + c) (k + 8)"
      | "groups (p * 256 + b) (k + 8) = groups (p * 256 + c) (k + 8)"
        "take_bit ?k (p * 256 + b) < take_bit ?k (p * 256 + c)"
      using groups_order [of "p * 256 + b" "p * 256 + c" "k + 8"] by auto
    then show ?thesis
    proof cases
      case 1
      then show ?thesis using cs by (simp add: append_less length_groups)
    next
      case 2
      then have "0 < ?k" by (cases "?k = 0") auto
      with 2 cs Cons.prems show ?thesis
        using b32_pending [of "take_bit ?k (p * 256 + b)" "take_bit ?k (p * 256 + c)" ?k bs cs']
        by (simp add: take_bit_nat_less_exp append_less_same)
    qed
  qed
qed

section \<open>Doubles keep their order as bytes\<close>

text \<open>A rational that is the value of a double, and numbers that are doubles.\<close>

definition is_double :: "rat \<Rightarrow> bool" where
  "is_double x =
     (\<bar>x\<bar> * 2 ^ 1074 = of_nat (subnormal_units x) \<and> subnormal_units x < 2 ^ 2098 \<and>
      2 ^ (nat_log2 (subnormal_units x) - 52) dvd subnormal_units x)"

fun is_number :: "jsnum \<Rightarrow> bool" where
  "is_number (Fin x) = is_double x"
| "is_number NaN = False"
| "is_number _ = True"

lemma nat_log2_bounds: "0 < n \<Longrightarrow> 2 ^ nat_log2 n \<le> n \<and> n < 2 ^ Suc (nat_log2 n)"
proof (induction n rule: nat_log2.induct)
  case (1 n)
  show ?case
  proof (cases "n < 2")
    case True
    with 1 show ?thesis by (simp add: nat_log2.simps [of n])
  next
    case False
    then have "2 ^ nat_log2 (n div 2) \<le> n div 2 \<and> n div 2 < 2 ^ Suc (nat_log2 (n div 2))" using 1 by simp
    then show ?thesis using False by (simp add: nat_log2.simps [of n]) linarith
  qed
qed

lemma nat_log2_mono: "0 < m \<Longrightarrow> m \<le> n \<Longrightarrow> nat_log2 m \<le> nat_log2 n"
  using nat_log2_bounds [of m] nat_log2_bounds [of n]
  by (meson le_less_trans less_le_trans not_less_eq_eq nat_power_less_imp_less not_less pos2)

lemma double_bits_step:
  assumes "m < n" and "2 ^ (nat_log2 m - 52) dvd m" and "2 ^ (nat_log2 n - 52) dvd n"
  shows "double_bits m < double_bits n"
proof (cases "m = 0")
  case True
  have "0 < n div 2 ^ (nat_log2 n - 52)"
    using assms(1,3) by (simp add: div_greater_zero_iff dvd_imp_le)
  then show ?thesis using True by (simp add: double_bits_def Let_def nat_log2.simps [of 0] trans_less_add2)
next
  case False
  define i j where ij: "i = nat_log2 m - 52" "j = nat_log2 n - 52"
  have bm: "2 ^ nat_log2 m \<le> m" "m < 2 ^ Suc (nat_log2 m)" using nat_log2_bounds [of m] False by auto
  have bn: "2 ^ nat_log2 n \<le> n" "n < 2 ^ Suc (nat_log2 n)" using nat_log2_bounds [of n] assms(1) by auto
  have "i \<le> j" using nat_log2_mono [of m n] False assms(1) ij by simp
  moreover have "m div 2 ^ i < n div 2 ^ j" if "i = j"
    using that assms ij by (metis div_less_mono dvd_imp_mod_0 zero_less_numeral zero_less_power mod_less_eq_dividend div_mult_mod_eq add.right_neutral dvd_div_mult_self nat_mult_less_cancel_disj mult.commute)
  moreover have "i * 2 ^ 52 + m div 2 ^ i < j * 2 ^ 52 + n div 2 ^ j" if "i < j"
  proof -
    have "m < 2 ^ (53 + i)"
      by (rule less_le_trans [OF bm(2)]) (simp only: ij, intro power_increasing, auto)
    then have "m div 2 ^ i < 2 ^ 53" by (simp add: power_add less_mult_imp_div_less)
    moreover have "2 ^ 52 \<le> n div 2 ^ j"
    proof -
      have "nat_log2 n = 52 + j" using that ij by simp
      then have "2 ^ 52 * 2 ^ j \<le> n" using bn(1) by (simp add: power_add)
      then show ?thesis by (simp add: less_eq_div_iff_mult_less_eq)
    qed
    moreover have "(i + 1) * 2 ^ 52 \<le> j * (2 :: nat) ^ 52" using that by (intro mult_le_mono1) simp
    ultimately show ?thesis by simp
  qed
  ultimately show ?thesis
    unfolding double_bits_def Let_def ij [symmetric] by (cases "i = j") auto
qed

lemma double_bits_bound: "m < 2 ^ 2098 \<Longrightarrow> double_bits m < INF_BITS"
proof (cases "m = 0")
  case False
  assume "m < 2 ^ 2098"
  moreover have b: "2 ^ nat_log2 m \<le> m" "m < 2 ^ Suc (nat_log2 m)" using nat_log2_bounds [of m] False by auto
  ultimately have l: "nat_log2 m < 2098" by (meson le_less_trans nat_power_less_imp_less pos2)
  let ?j = "nat_log2 m - 52"
  have "m < 2 ^ (53 + ?j)"
    by (rule less_le_trans [OF b(2)]) (intro power_increasing, auto)
  then have "m div 2 ^ ?j < 2 ^ 53" by (simp add: power_add less_mult_imp_div_less)
  moreover have "?j * 2 ^ 52 \<le> 2045 * (2 :: nat) ^ 52" using l by (intro mult_le_mono1) simp
  ultimately show ?thesis by (simp add: double_bits_def Let_def INF_BITS_def)
qed (simp add: double_bits_def nat_log2.simps [of 0] INF_BITS_def)

lemma big_endian_bytes: "\<forall>b\<in>set (big_endian k n). b < 256" "length (big_endian k n) = k"
  by (induction k) auto

lemma big_endian_low: "n mod 256 ^ k = m mod 256 ^ k \<Longrightarrow> big_endian k n = big_endian k m"
proof (induction k)
  case (Suc k)
  have "n mod 256 ^ k = m mod 256 ^ k"
    using arg_cong [OF Suc.prems, of "\<lambda>x. x mod 256 ^ k"] by (simp add: mod_mod_cancel)
  moreover have "(x div 256 ^ k) mod 256 = (x mod 256 ^ Suc k) div 256 ^ k" for x :: nat
    by (simp add: mod_mult2_eq mult.commute [of 256])
  ultimately show ?case using Suc by simp
qed simp

lemma big_endian_order: "n < m \<Longrightarrow> m < 256 ^ k \<Longrightarrow> big_endian k n < big_endian k m"
proof (induction k arbitrary: n m)
  case (Suc k)
  let ?n = "n div 256 ^ k" and ?m = "m div 256 ^ k"
  have "?m < 256" "?n < 256" using Suc.prems by (simp_all add: less_mult_imp_div_less)
  moreover have le: "?n \<le> ?m" using Suc.prems by (simp add: div_le_mono)
  moreover have "big_endian k n < big_endian k m" if "?n = ?m"
  proof -
    have "n mod 256 ^ k < m mod 256 ^ k"
      using Suc.prems(1) that by (metis add_less_cancel_left div_mult_mod_eq)
    then have "big_endian k (n mod 256 ^ k) < big_endian k (m mod 256 ^ k)" using Suc.IH by simp
    then show ?thesis using big_endian_low [of _ k] by (metis mod_mod_trivial)
  qed
  ultimately show ?case by (cases "?n = ?m") auto
qed simp

lemma flip_byte: "b < 256 \<Longrightarrow> b XOR 255 = 255 - (b :: nat)"
proof -
  assume "b < 256"
  then have b: "b = take_bit 8 b" by (simp add: take_bit_nat_eq_self)
  have "b AND (b XOR mask 8) = 0" "b OR (b XOR mask 8) = mask 8"
    by (subst (1 2) b, rule bit_eqI, auto simp: bit_simps)+
  then have "b + (b XOR mask 8) = mask 8" by (simp add: disjunctive_add_eq_or)
  then show ?thesis by (simp add: mask_eq_exp_minus_1)
qed

lemma top_bit: "b < 256 \<Longrightarrow> b AND 128 = 0 \<longleftrightarrow> b < (128 :: nat)"
proof -
  assume "b < 256"
  have "b AND 128 = 0 \<longleftrightarrow> \<not> bit b 7" using and_exp_eq_0_iff_not_bit [of b 7] by simp
  moreover have "b div 128 < 2" using \<open>b < 256\<close> by (simp add: less_mult_imp_div_less)
  then have "b div 128 = 0 \<or> b div 128 = 1" by linarith
  then have "\<not> bit b 7 \<longleftrightarrow> b < 128" by (auto simp: bit_iff_odd div_eq_0_iff)
  ultimately show ?thesis by simp
qed

lemma set_top_bit: "b < 128 \<Longrightarrow> b XOR 128 = b + (128 :: nat)"
proof -
  assume "b < 128"
  then have "b AND 128 = 0" using top_bit [of b] by simp
  then show ?thesis by (simp add: disjunctive_add_eq_xor)
qed

lemma flip_bytes_reverse:
  "length xs = length ys \<Longrightarrow> \<forall>b\<in>set xs. b < 256 \<Longrightarrow> \<forall>b\<in>set ys. b < 256 \<Longrightarrow> xs < ys \<Longrightarrow>
     map (\<lambda>b. b XOR 255) ys < map (\<lambda>b. b XOR 255 :: nat) xs"
  by (induction xs ys rule: list_induct2) (auto simp: flip_byte)

text \<open>The payload in closed form, by the sign bit.\<close>

definition payload :: "jsnum \<Rightarrow> nat list" where
  "payload n = (let bytes = big_endian 8 (float64 n)
     in if float64 n < 2 ^ 63 then (hd bytes + 128) # tl bytes else map (\<lambda>b. b XOR 255) bytes)"

lemma hd_big_endian:
  assumes "n < 2 ^ 64"
  shows "hd (big_endian 8 n) = n div 256 ^ 7" and "n div 256 ^ 7 < 128 \<longleftrightarrow> n < 2 ^ 63"
proof -
  have "big_endian (Suc 7) n = n div 256 ^ 7 mod 256 # big_endian 7 n" by (rule big_endian.simps)
  moreover have "n div 256 ^ 7 < 256" using assms by (simp add: less_mult_imp_div_less)
  ultimately show "hd (big_endian 8 n) = n div 256 ^ 7" by simp
  show "n div 256 ^ 7 < 128 \<longleftrightarrow> n < 2 ^ 63" by (simp add: div_less_iff_less_mult)
qed

lemma is_double_bits: "is_double x \<Longrightarrow> double_bits (subnormal_units x) < INF_BITS"
  unfolding is_double_def using double_bits_bound by blast

lemma float64_bound: "is_number n \<Longrightarrow> float64 n < 2 ^ 64"
  by (cases n) (auto simp: INF_BITS_def dest!: is_double_bits)

lemma encodeNumberPayload_eq: "is_number n \<Longrightarrow> encodeNumberPayload n = Inr (payload n)"
  using float64_bound [of n] hd_big_endian [of "float64 n"] top_bit [of "hd (big_endian 8 (float64 n))"]
    big_endian_bytes [of 8 "float64 n"]
  by (cases "big_endian 8 (float64 n)")
    (auto simp: encodeNumberPayload_def payload_def Let_def set_top_bit)

fun negative :: "jsnum \<Rightarrow> bool" where
  "negative (Fin x) = (x < 0)"
| "negative NegInf = True"
| "negative _ = False"

lemma float64_sign: "is_number n \<Longrightarrow> float64 n < 2 ^ 63 \<longleftrightarrow> \<not> negative n"
  by (cases n) (auto simp: INF_BITS_def dest!: is_double_bits)

lemma units_order:
  assumes "is_double x" "is_double y" "\<bar>x\<bar> < \<bar>y\<bar>"
  shows "double_bits (subnormal_units x) < double_bits (subnormal_units y)"
proof -
  have "(of_nat (subnormal_units x) :: rat) < of_nat (subnormal_units y)"
    using assms unfolding is_double_def by (metis mult_less_cancel_right_pos zero_less_numeral zero_less_power)
  then show ?thesis using assms double_bits_step by (simp add: is_double_def)
qed

lemma float64_order:
  assumes "num_less x y" "is_number x" "is_number y"
  shows "negative x \<and> \<not> negative y \<or> \<not> negative x \<and> \<not> negative y \<and> float64 x < float64 y \<or>
     negative x \<and> negative y \<and> float64 y < float64 x"
  using assms units_order by (cases x; cases y) (auto dest: is_double_bits)

lemma payload_bytes: "is_number n \<Longrightarrow> \<forall>b\<in>set (payload n). b < 256"
  using big_endian_bytes [of 8 "float64 n"] hd_big_endian [of "float64 n"] float64_bound [of n]
  by (cases "big_endian 8 (float64 n)") (auto simp: payload_def Let_def flip_byte)

lemma payload_order:
  assumes "num_less x y" "is_number x" "is_number y"
  shows "payload x < payload y"
proof -
  note fx = float64_bound [OF assms(2)] and fy = float64_bound [OF assms(3)]
  note hx = hd_big_endian [OF fx] and hy = hd_big_endian [OF fy]
  obtain a as where a: "big_endian 8 (float64 x) = a # as" using big_endian_bytes(2) [of 8 "float64 x"]
    by (cases "big_endian 8 (float64 x)") auto
  obtain b bs where b: "big_endian 8 (float64 y) = b # bs" using big_endian_bytes(2) [of 8 "float64 y"]
    by (cases "big_endian 8 (float64 y)") auto
  note sx = float64_sign [OF assms(2)] and sy = float64_sign [OF assms(3)]
  consider (split) "negative x" "\<not> negative y" | (pos) "\<not> negative x" "\<not> negative y" "float64 x < float64 y"
    | (neg) "negative x" "negative y" "float64 y < float64 x" using float64_order [OF assms] by blast
  then show ?thesis
  proof cases
    case split
    have "a < 256" using big_endian_bytes(1) [of 8 "float64 x"] a by simp
    then show ?thesis using split sx sy a b hx hy by (auto simp: payload_def flip_byte)
  next
    case pos
    then have "a # as < b # bs" using big_endian_order [of "float64 x" "float64 y" 8] fy a b by simp
    then show ?thesis using pos sx sy a b by (auto simp: payload_def)
  next
    case neg
    then have "b # bs < a # as" using big_endian_order [of "float64 y" "float64 x" 8] fx a b by simp
    then show ?thesis
      using neg sx sy flip_bytes_reverse [of "b # bs" "a # as"] big_endian_bytes [of 8 "float64 x"]
        big_endian_bytes [of 8 "float64 y"] a b by (simp add: payload_def)
  qed
qed

section \<open>Encoded segments keep value order\<close>

text \<open>The value order the planner's range walks assume, on the values an index admits.\<close>

fun value_rank :: "json \<Rightarrow> nat" where
  "value_rank JNull = 0"
| "value_rank (JBool b) = (if b then 2 else 1)"
| "value_rank (JNum _) = 3"
| "value_rank (JStr _) = 4"
| "value_rank _ = 5"

definition value_less :: "json \<Rightarrow> json \<Rightarrow> bool" where
  "value_less v w = (value_rank v < value_rank w \<or>
     (case (v, w) of (JNum x, JNum y) \<Rightarrow> num_less x y | (JStr s, JStr u) \<Rightarrow> s < u | _ \<Rightarrow> False))"

fun indexable :: "json \<Rightarrow> bool" where
  "indexable (JNum n) = is_number n"
| "indexable (JArr _) = False"
| "indexable (JObj _) = False"
| "indexable _ = True"

lemma value_total: "indexable v \<Longrightarrow> indexable w \<Longrightarrow> v = w \<or> value_less v w \<or> value_less w v"
proof (cases "\<exists>x y. v = JNum x \<and> w = JNum y")
  case True
  moreover assume "indexable v" "indexable w"
  ultimately show ?thesis
    by (auto simp: value_less_def) (metis is_number.simps(2) jsnum.exhaust linorder_neqE num_less.simps(1-4))
qed (cases v; cases w; auto simp: value_less_def split: if_splits)

lemma compare_bytes_less: "compare_bytes xs ys < 0 \<longleftrightarrow> xs < ys"
  by (induction xs ys rule: compare_bytes.induct) (auto, case_tac bs, auto)

lemma utf8_bytes: "\<forall>b\<in>set (utf8_encode s). b < 256"
proof (induction s)
  case (Cons c s)
  have "(of_char c :: nat) div 64 < 4"
    using nat_of_char_less_256 [of c] by (simp add: less_mult_imp_div_less)
  with Cons show ?case by (auto simp: Let_def)
qed simp

lemma encoded_bytes:
  assumes "indexable v"
  obtains bytes where "encodeBytes st v = Inr bytes" "\<forall>b\<in>set bytes. b < 256"
    "encodeIndexValue st v = Inr (map digit_char (b32_ref bytes 0 0))"
proof -
  obtain bytes where b: "encodeBytes st v = Inr bytes" "\<forall>b\<in>set bytes. b < 256"
    using assms utf8_bytes payload_bytes by (cases v) (auto simp: encodeNumberPayload_eq)
  then show thesis using that b32_loop_ref [of 0 bytes 0] by (simp add: encodeIndexValue_def)
qed

lemma bytes_order:
  assumes "indexable v" "indexable w" "value_less v w" "encodeBytes st v = Inr a" "encodeBytes st w = Inr b"
  shows "a < b"
  using assms payload_order
  by (cases v; cases w)
    (auto simp: value_less_def encodeNumberPayload_eq compare_bytes_utf8 compare_bytes_less [symmetric] split: if_splits)

lemma map_digit_order:
  "xs < ys \<Longrightarrow> \<forall>x\<in>set xs. x < 32 \<Longrightarrow> \<forall>y\<in>set ys. y < 32 \<Longrightarrow> map digit_char xs < map digit_char ys"
proof (induction xs arbitrary: ys)
  case Nil
  then show ?case by (cases ys) auto
next
  case (Cons x xs)
  then show ?case using digit_char_mono [of x "hd ys"] by (cases ys) auto
qed

lemma groups_small: "\<forall>g\<in>set (groups n bits). g < 32"
proof (induction n bits rule: groups.induct)
  case (1 n bits)
  then show ?case
    using take_bit_nat_less_exp [of 5 "drop_bit (bits - 5) n"] by (subst groups_unfold) auto
qed

lemma b32_ref_small: "k < 5 \<Longrightarrow> p < 2 ^ k \<Longrightarrow> \<forall>g\<in>set (b32_ref bs p k). g < 32"
proof (induction bs arbitrary: p k)
  case Nil
  have "p * 2 ^ (5 - k) < 2 ^ k * 2 ^ (5 - k)" using Nil by (intro mult_strict_right_mono) auto
  also have "\<dots> = 32" using Nil by (simp flip: power_add)
  finally show ?case by simp
next
  case (Cons b bs)
  then show ?case
    using groups_small Cons.IH [of "(k + 8) mod 5" "take_bit ((k + 8) mod 5) (p * 256 + b)"]
    by (auto simp: take_bit_nat_less_exp)
qed

lemma encoded_less:
  assumes "indexable v" "indexable w" "value_less v w" "encodeIndexValue st v = Inr a" "encodeIndexValue st w = Inr b"
  shows "a < b"
proof -
  obtain x where x: "encodeBytes st v = Inr x" "\<forall>b\<in>set x. b < 256" "a = map digit_char (b32_ref x 0 0)"
    using encoded_bytes [OF assms(1), of st] assms(4) by (metis sum.inject(2))
  obtain y where y: "encodeBytes st w = Inr y" "\<forall>b\<in>set y. b < 256" "b = map digit_char (b32_ref y 0 0)"
    using encoded_bytes [OF assms(2), of st] assms(5) by (metis sum.inject(2))
  have "b32_ref x 0 0 < b32_ref y 0 0"
    using bytes_order [OF assms(1-3) x(1) y(1)] x(2) y(2) b32_ref_order [of x y 0 0] by simp
  then show ?thesis using x(3) y(3) map_digit_order b32_ref_small [of 0 0] by simp
qed

lemma value_irrefl: "indexable v \<Longrightarrow> \<not> value_less v v"
  by (cases v) (auto simp: value_less_def elim: num_less.elims)

section \<open>Properties\<close>

text \<open>
  (C32) Index segments order like the values they encode, so a lexicographic \<^verbatim>\<open>list\<close> over a range of
  segments visits exactly the values in the range, and equal segments mean equal values. The type
  order is \<^verbatim>\<open>null < false < true < number < string\<close>; numbers compare as doubles (both infinities
  included, the two zeros being one), strings by their UTF-8 bytes. The 32-bit accumulator of the
  base 32 loop overflows on every value longer than a few bytes, without effect on the output.
\<close>

theorem encodeIndexValue_keeps_order:
  assumes "indexable v" and "indexable w"
  shows "\<exists>a b. encodeIndexValue st v = Inr a \<and> encodeIndexValue st w = Inr b \<and>
    (a < b \<longleftrightarrow> value_less v w) \<and> (a = b \<longleftrightarrow> v = w)"
proof -
  obtain a where a: "encodeIndexValue st v = Inr a" using encoded_bytes [OF assms(1)] by metis
  obtain b where b: "encodeIndexValue st w = Inr b" using encoded_bytes [OF assms(2)] by metis
  have "value_less v w \<Longrightarrow> a < b" "value_less w v \<Longrightarrow> b < a" "v = w \<Longrightarrow> a = b"
    using encoded_less [OF assms _ a b] encoded_less [OF assms(2,1) _ b a] a b by auto
  then show ?thesis
    using a b value_total [OF assms] value_irrefl [OF assms(1)] by (metis order.asym order.irrefl)
qed

theorem encodeIndexValue_keeps_order_witness:
  "\<exists>a b. encodeIndexValue (\<lambda>_. []) (JNum (Fin 0)) = Inr a \<and> encodeIndexValue (\<lambda>_. []) (JNum PosInf) = Inr b \<and>
    (a < b \<longleftrightarrow> value_less (JNum (Fin 0)) (JNum PosInf)) \<and> (a = b \<longleftrightarrow> JNum (Fin 0) = JNum PosInf)"
  by (rule encodeIndexValue_keeps_order)
    (simp_all add: is_double_def subnormal_units_def nat_log2.simps [of 0])

end
