(* ===== verification/Planner.thy ===== *)
theory Planner
  imports Indexes
begin

text \<open>
  \<^verbatim>\<open>packages/server/src/query-planner.ts\<close> and \<^verbatim>\<open>query-planner-implies.ts\<close>: when a filtered index is
  complete for a query, and which index a query walks. Shown here: the implication check is sound on
  predicates that keep one kind of condition per field, and two shapes on which it is not.
\<close>

section \<open>Relational comparison\<close>

text \<open>
  JavaScript's \<^verbatim>\<open><\<close> on any two values. The conversions of objects to primitives and of strings to numbers
  belong to the runtime.
\<close>

record coercions =
  co_primitive :: "json \<Rightarrow> string"
  co_number :: "string \<Rightarrow> jsnum"

definition to_primitive :: "coercions \<Rightarrow> json \<Rightarrow> json" where
  "to_primitive co v = (if is_compound v then JStr (co_primitive co v) else v)"

fun to_number :: "coercions \<Rightarrow> json \<Rightarrow> jsnum" where
  "to_number co (JNum n) = n"
| "to_number co (JBool b) = Fin (if b then 1 else 0)"
| "to_number co (JStr s) = co_number co s"
| "to_number co JNull = Fin 0"
| "to_number co _ = NaN"

definition js_less :: "coercions \<Rightarrow> json \<Rightarrow> json \<Rightarrow> bool" where
  "js_less co a b =
     (case (to_primitive co a, to_primitive co b) of
        (JStr x, JStr y) \<Rightarrow> x < y
      | (x, y) \<Rightarrow> num_less (to_number co x) (to_number co y))"

fun typeof :: "json \<Rightarrow> string" where
  "typeof (JNum _) = ''number''"
| "typeof (JBool _) = ''boolean''"
| "typeof (JStr _) = ''string''"
| "typeof _ = ''object''"

section \<open>Implication of a filter\<close>

type_synonym range_info = "json \<times> bool"

record operator_bundle =
  ob_eq :: "json option"
  ob_lo :: "range_info option"
  ob_hi :: "range_info option"
  ob_in :: "json list option"

definition group_clauses :: "predicate_wire \<Rightarrow> (string \<times> predicate_clause list) list" where
  "group_clauses wire = fold (\<lambda>c groups.
     obj_set (pc_field c) (case map_of groups (pc_field c) of None \<Rightarrow> [c] | Some bucket \<Rightarrow> bucket @ [c]) groups) wire []"

fun tightestLo :: "coercions \<Rightarrow> range_info option \<Rightarrow> range_info \<Rightarrow> range_info" where
  "tightestLo co None next = next"
| "tightestLo co (Some (ev, ei)) (nv, ni) =
     (if typeof ev \<noteq> typeof nv then (ev, ei)
      else if js_less co ev nv then (nv, ni)
      else if js_less co nv ev then (ev, ei)
      else if \<not> ni \<and> ei then (nv, ni) else (ev, ei))"

fun tightestHi :: "coercions \<Rightarrow> range_info option \<Rightarrow> range_info \<Rightarrow> range_info" where
  "tightestHi co None next = next"
| "tightestHi co (Some (ev, ei)) (nv, ni) =
     (if typeof ev \<noteq> typeof nv then (ev, ei)
      else if js_less co nv ev then (nv, ni)
      else if js_less co ev nv then (ev, ei)
      else if \<not> ni \<and> ei then (nv, ni) else (ev, ei))"

text \<open>\<open>None\<close> is \<^verbatim>\<open>"unknown-shape"\<close>.\<close>

fun decode_clauses :: "coercions \<Rightarrow> predicate_clause list \<Rightarrow> operator_bundle \<Rightarrow> operator_bundle option" where
  "decode_clauses co [] b = Some b"
| "decode_clauses co (c # cs) b =
     (case pc_op c of
        PEq \<Rightarrow> decode_clauses co cs (b\<lparr>ob_eq := Some (pc_value c)\<rparr>)
      | PGte \<Rightarrow> decode_clauses co cs (b\<lparr>ob_lo := Some (tightestLo co (ob_lo b) (pc_value c, True))\<rparr>)
      | PGt \<Rightarrow> decode_clauses co cs (b\<lparr>ob_lo := Some (tightestLo co (ob_lo b) (pc_value c, False))\<rparr>)
      | PLte \<Rightarrow> decode_clauses co cs (b\<lparr>ob_hi := Some (tightestHi co (ob_hi b) (pc_value c, True))\<rparr>)
      | PLt \<Rightarrow> decode_clauses co cs (b\<lparr>ob_hi := Some (tightestHi co (ob_hi b) (pc_value c, False))\<rparr>)
      | PIn \<Rightarrow> if ob_in b \<noteq> None then None
               else (case pc_value c of JArr xs \<Rightarrow> decode_clauses co cs (b\<lparr>ob_in := Some xs\<rparr>) | _ \<Rightarrow> None))"

definition empty_bundle :: operator_bundle where
  "empty_bundle = \<lparr>ob_eq = None, ob_lo = None, ob_hi = None, ob_in = None\<rparr>"

definition decodeGroup :: "coercions \<Rightarrow> predicate_clause list \<Rightarrow> operator_bundle option" where
  "decodeGroup co cs = decode_clauses co cs empty_bundle"

fun lowerBoundImplies :: "coercions \<Rightarrow> range_info \<Rightarrow> range_info option \<Rightarrow> bool" where
  "lowerBoundImplies co f None = False"
| "lowerBoundImplies co (fv, fi) (Some (qv, qi)) =
     (if typeof fv \<noteq> typeof qv then False
      else if js_less co fv qv then True
      else if js_less co qv fv then False
      else if fi then True else \<not> qi)"

fun upperBoundImplies :: "coercions \<Rightarrow> range_info \<Rightarrow> range_info option \<Rightarrow> bool" where
  "upperBoundImplies co f None = False"
| "upperBoundImplies co (fv, fi) (Some (qv, qi)) =
     (if typeof fv \<noteq> typeof qv then False
      else if js_less co qv fv then True
      else if js_less co fv qv then False
      else if fi then True else \<not> qi)"

definition loFromQuery :: "coercions \<Rightarrow> operator_bundle \<Rightarrow> range_info option" where
  "loFromQuery co q =
     (case ob_eq q of Some v \<Rightarrow> Some (v, True)
      | None \<Rightarrow> (case ob_in q of
          Some (x # xs) \<Rightarrow> Some (foldl (\<lambda>acc v. if js_less co v acc then v else acc) x (x # xs), True)
        | _ \<Rightarrow> ob_lo q))"

definition hiFromQuery :: "coercions \<Rightarrow> operator_bundle \<Rightarrow> range_info option" where
  "hiFromQuery co q =
     (case ob_eq q of Some v \<Rightarrow> Some (v, True)
      | None \<Rightarrow> (case ob_in q of
          Some (x # xs) \<Rightarrow> Some (foldl (\<lambda>acc v. if js_less co acc v then v else acc) x (x # xs), True)
        | _ \<Rightarrow> ob_hi q))"

text \<open>One field of the filter against the query's bundle for it.\<close>

definition bundle_implies :: "coercions \<Rightarrow> operator_bundle \<Rightarrow> operator_bundle \<Rightarrow> bool" where
  "bundle_implies co f q =
     (case ob_eq f of
        Some fe \<Rightarrow> (case ob_eq q of None \<Rightarrow> False | Some qe \<Rightarrow> deepEqualDocumentValue qe fe)
      | None \<Rightarrow>
          (case ob_in f of
             Some ms \<Rightarrow>
               (let contains = (\<lambda>v. \<exists>m\<in>set ms. deepEqualDocumentValue m v) in
                case ob_eq q of Some qe \<Rightarrow> contains qe
                | None \<Rightarrow> (case ob_in q of None \<Rightarrow> False | Some vs \<Rightarrow> \<forall>v\<in>set vs. contains v))
           | None \<Rightarrow>
               (case ob_lo f of None \<Rightarrow> True | Some lo \<Rightarrow> lowerBoundImplies co lo (loFromQuery co q)) \<and>
               (case ob_hi f of None \<Rightarrow> True | Some hi \<Rightarrow> upperBoundImplies co hi (hiFromQuery co q))))"

definition predicateImplies :: "coercions \<Rightarrow> predicate_wire \<Rightarrow> predicate_wire \<Rightarrow> bool" where
  "predicateImplies co indexFilterWire queryWire =
     (\<forall>(field, filterClauses)\<in>set (group_clauses indexFilterWire).
        case decodeGroup co filterClauses of None \<Rightarrow> False
        | Some f \<Rightarrow>
            (case map_of (group_clauses queryWire) field of None \<Rightarrow> False
             | Some queryClauses \<Rightarrow>
                 (case decodeGroup co queryClauses of None \<Rightarrow> False | Some q \<Rightarrow> bundle_implies co f q)))"

section \<open>The plan\<close>

definition IN_FANOUT_THRESHOLD :: nat where "IN_FANOUT_THRESHOLD = 50"

record range_op_info =
  ro_lo :: "json option"
  ro_hi :: "json option"
  loInclusive :: bool
  hiInclusive :: bool

datatype scan_reason = NoPredicate | NoIndexesDeclared | NoMatchingIndex | PredicateUsesOperatorsOnly

datatype query_plan =
    FullScan scan_reason
  | IndexWalk string "json list" "(string \<times> range_op_info) option" "(string \<times> json list) option"

record partition =
  pt_equality :: "(string \<times> json) list"
  pt_range :: "(string \<times> range_op_info) list"
  pt_in :: "(string \<times> json list) list"
  pt_unroutable :: "string list"

definition make_unroutable :: "string \<Rightarrow> partition \<Rightarrow> partition" where
  "make_unroutable f p = \<lparr>pt_equality = obj_del f (pt_equality p), pt_range = obj_del f (pt_range p),
     pt_in = obj_del f (pt_in p), pt_unroutable = f # pt_unroutable p\<rparr>"

definition tighten_range :: "coercions \<Rightarrow> predicate_op \<Rightarrow> json \<Rightarrow> range_op_info \<Rightarrow> range_op_info" where
  "tighten_range co op v acc =
     (let up = (case ro_lo acc of None \<Rightarrow> True | Some lo \<Rightarrow> js_less co lo v);
          same_lo = (case ro_lo acc of None \<Rightarrow> False | Some lo \<Rightarrow> strict_eq v lo);
          down = (case ro_hi acc of None \<Rightarrow> True | Some hi \<Rightarrow> js_less co v hi);
          same_hi = (case ro_hi acc of None \<Rightarrow> False | Some hi \<Rightarrow> strict_eq v hi)
      in case op of
           PGte \<Rightarrow> if up then acc\<lparr>ro_lo := Some v, loInclusive := True\<rparr> else acc
         | PGt \<Rightarrow> if up then acc\<lparr>ro_lo := Some v, loInclusive := False\<rparr>
                  else if same_lo then acc\<lparr>loInclusive := False\<rparr> else acc
         | PLte \<Rightarrow> if down then acc\<lparr>ro_hi := Some v, hiInclusive := True\<rparr> else acc
         | PLt \<Rightarrow> if down then acc\<lparr>ro_hi := Some v, hiInclusive := False\<rparr>
                  else if same_hi then acc\<lparr>hiInclusive := False\<rparr> else acc
         | _ \<Rightarrow> acc)"

definition has_key :: "string \<Rightarrow> (string \<times> 'a) list \<Rightarrow> bool" where
  "has_key f m = (map_of m f \<noteq> None)"

definition partition_clause :: "coercions \<Rightarrow> predicate_clause \<Rightarrow> partition \<Rightarrow> partition" where
  "partition_clause co c p =
     (let f = pc_field c; v = pc_value c in
      if f \<in> set (pt_unroutable p) then p
      else if pc_op c = PEq then
        (if has_key f (pt_in p) \<or> has_key f (pt_range p) then make_unroutable f p
         else p\<lparr>pt_equality := obj_set f v (pt_equality p)\<rparr>)
      else if pc_op c = PIn then
        (if has_key f (pt_equality p) \<or> has_key f (pt_range p) \<or> has_key f (pt_in p) then make_unroutable f p
         else (case v of JArr xs \<Rightarrow> p\<lparr>pt_in := obj_set f xs (pt_in p)\<rparr>
               | _ \<Rightarrow> p\<lparr>pt_unroutable := f # pt_unroutable p\<rparr>))
      else
        (if has_key f (pt_equality p) \<or> has_key f (pt_in p) then make_unroutable f p
         else
           (let acc = (case map_of (pt_range p) f of Some a \<Rightarrow> a
                | None \<Rightarrow> \<lparr>ro_lo = None, ro_hi = None, loInclusive = False, hiInclusive = False\<rparr>)
            in p\<lparr>pt_range := obj_set f (tighten_range co (pc_op c) v acc) (pt_range p)\<rparr>)))"

definition partition_wire :: "coercions \<Rightarrow> predicate_wire \<Rightarrow> partition" where
  "partition_wire co wire =
     fold (partition_clause co) wire \<lparr>pt_equality = [], pt_range = [], pt_in = [], pt_unroutable = []\<rparr>"

datatype tail_slot = RangeTail string range_op_info | InTail string "json list"

text \<open>Left to right over an index's fields: equalities, then at most one tail slot.\<close>

fun consume :: "partition \<Rightarrow> string list \<Rightarrow> json list \<times> tail_slot option" where
  "consume p [] = ([], None)"
| "consume p (f # fs) =
     (case map_of (pt_equality p) f of
        Some v \<Rightarrow> (let (ks, t) = consume p fs in (v # ks, t))
      | None \<Rightarrow>
          ([], case map_of (pt_range p) f of Some r \<Rightarrow> Some (RangeTail f r)
               | None \<Rightarrow> map_option (InTail f) (map_of (pt_in p) f)))"

record candidate =
  cd_def :: index_definition
  cd_defIndex :: nat
  cd_prefixLen :: nat
  cd_equalityKeys :: "json list"
  cd_tail :: "tail_slot option"

definition candidate_of :: "partition \<Rightarrow> nat \<Rightarrow> index_definition \<Rightarrow> candidate" where
  "candidate_of p i d =
     (let (ks, t) = consume p (on_fields (ix_on d))
      in \<lparr>cd_def = d, cd_defIndex = i, cd_prefixLen = length ks + (if t = None then 0 else 1),
          cd_equalityKeys = ks, cd_tail = t\<rparr>)"

definition candidates_of :: "partition \<Rightarrow> index_definition list \<Rightarrow> candidate list" where
  "candidates_of p indexes =
     filter (\<lambda>c. cd_prefixLen c \<noteq> 0) (map (\<lambda>(i, d). candidate_of p i d) (enumerate 0 indexes))"

definition rank :: "coercions \<Rightarrow> predicate_wire \<Rightarrow> candidate \<Rightarrow> nat" where
  "rank co wire c = (case ix_predicate (cd_def c) of None \<Rightarrow> 1
     | Some f \<Rightarrow> if predicateImplies co f wire then 0 else 2)"

text \<open>The comparator of the sort is a total order, so the head of the sorted list is its minimum.\<close>

definition ranks_before :: "coercions \<Rightarrow> predicate_wire \<Rightarrow> candidate \<Rightarrow> candidate \<Rightarrow> bool" where
  "ranks_before co wire a b =
     (if rank co wire a \<noteq> rank co wire b then rank co wire a < rank co wire b
      else if cd_prefixLen b \<noteq> cd_prefixLen a then cd_prefixLen b < cd_prefixLen a
      else cd_defIndex a < cd_defIndex b)"

definition best_candidate :: "coercions \<Rightarrow> predicate_wire \<Rightarrow> candidate \<Rightarrow> candidate list \<Rightarrow> candidate" where
  "best_candidate co wire c cs = foldl (\<lambda>best c. if ranks_before co wire c best then c else best) c cs"

definition planQuery :: "coercions \<Rightarrow> predicate_wire option \<Rightarrow> index_definition list \<Rightarrow> query_plan" where
  "planQuery co wire indexes =
     (case wire of None \<Rightarrow> FullScan NoPredicate
      | Some w \<Rightarrow>
          if w = [] then FullScan NoPredicate
          else if indexes = [] then FullScan NoIndexesDeclared
          else
            (let p = partition_wire co w in
             if pt_equality p = [] \<and> pt_range p = [] \<and> pt_in p = [] then FullScan PredicateUsesOperatorsOnly
             else (case candidates_of p indexes of
                [] \<Rightarrow> FullScan NoMatchingIndex
              | c # cs \<Rightarrow>
                  (let best = best_candidate co w c cs in
                   case cd_tail best of
                     Some (InTail f vs) \<Rightarrow>
                       if length vs > IN_FANOUT_THRESHOLD then FullScan NoMatchingIndex
                       else IndexWalk (ix_name (cd_def best)) (cd_equalityKeys best) None (Some (f, vs))
                   | Some (RangeTail f r) \<Rightarrow>
                       IndexWalk (ix_name (cd_def best)) (cd_equalityKeys best) (Some (f, r)) None
                   | None \<Rightarrow> IndexWalk (ix_name (cd_def best)) (cd_equalityKeys best) None None))))"

section \<open>Soundness of the implication\<close>

abbreviation clauses_on :: "string \<Rightarrow> predicate_wire \<Rightarrow> predicate_clause list" where
  "clauses_on f w \<equiv> filter (\<lambda>c. pc_field c = f) w"

lemma group_clauses_map:
  "map_of (group_clauses w) f = (if clauses_on f w = [] then None else Some (clauses_on f w))"
proof -
  have "map_of (fold (\<lambda>c groups. obj_set (pc_field c)
          (case map_of groups (pc_field c) of None \<Rightarrow> [c] | Some b \<Rightarrow> b @ [c]) groups) w m) f =
      (case map_of m f of None \<Rightarrow> (if clauses_on f w = [] then None else Some (clauses_on f w))
       | Some b \<Rightarrow> Some (b @ clauses_on f w))" for m
  proof (induction w arbitrary: m)
    case (Cons c w)
    show ?case by (simp add: Cons.IH split: option.splits)
  qed (simp split: option.splits)
  then show ?thesis by (simp add: group_clauses_def)
qed

lemma group_clauses_distinct: "distinct (map fst (group_clauses w))"
proof -
  have "distinct (map fst m) \<Longrightarrow> distinct (map fst (fold (\<lambda>c groups. obj_set (pc_field c)
          (case map_of groups (pc_field c) of None \<Rightarrow> [c] | Some b \<Rightarrow> b @ [c]) groups) w m))" for m
    by (induction w arbitrary: m) simp_all
  then show ?thesis by (simp add: group_clauses_def)
qed

text \<open>Every slot of a bundle comes from a clause.\<close>

definition lower :: "predicate_clause \<Rightarrow> bool" where "lower c \<longleftrightarrow> pc_op c = PGt \<or> pc_op c = PGte"
definition upper :: "predicate_clause \<Rightarrow> bool" where "upper c \<longleftrightarrow> pc_op c = PLt \<or> pc_op c = PLte"

definition origin :: "predicate_clause set \<Rightarrow> operator_bundle \<Rightarrow> bool" where
  "origin S b \<longleftrightarrow>
     (\<forall>v. ob_eq b = Some v \<longrightarrow> (\<exists>c\<in>S. pc_op c = PEq \<and> pc_value c = v)) \<and>
     (\<forall>ms. ob_in b = Some ms \<longrightarrow> (\<exists>c\<in>S. pc_op c = PIn \<and> pc_value c = JArr ms)) \<and>
     (\<forall>v i. ob_lo b = Some (v, i) \<longrightarrow> (\<exists>c\<in>S. pc_op c = (if i then PGte else PGt) \<and> pc_value c = v)) \<and>
     (\<forall>v i. ob_hi b = Some (v, i) \<longrightarrow> (\<exists>c\<in>S. pc_op c = (if i then PLte else PLt) \<and> pc_value c = v))"

lemma tightestLo_cases: "tightestLo co b n = n \<or> b = Some (tightestLo co b n)"
  by (cases "(co, b, n)" rule: tightestLo.cases) auto

lemma tightestHi_cases: "tightestHi co b n = n \<or> b = Some (tightestHi co b n)"
  by (cases "(co, b, n)" rule: tightestHi.cases) auto

lemma decode_origin:
  "decode_clauses co cs b = Some q \<Longrightarrow> origin S b \<Longrightarrow> set cs \<subseteq> S \<Longrightarrow> origin S q"
proof (induction cs arbitrary: b)
  case (Cons c cs)
  have c: "c \<in> S" using Cons.prems(3) by simp
  show ?case
  proof (cases "pc_op c")
    case PEq
    have "origin S (b\<lparr>ob_eq := Some (pc_value c)\<rparr>)" using Cons.prems(2) c PEq by (auto simp: origin_def)
    with Cons PEq show ?thesis by simp
  next
    case PIn
    with Cons.prems(1) obtain xs where xs: "pc_value c = JArr xs" "decode_clauses co cs (b\<lparr>ob_in := Some xs\<rparr>) = Some q"
      by (auto split: if_splits json.splits)
    have "origin S (b\<lparr>ob_in := Some xs\<rparr>)" using Cons.prems(2) c PIn xs(1) by (auto simp: origin_def)
    with Cons xs(2) show ?thesis by simp
  next
    case PGt
    have "origin S (b\<lparr>ob_lo := Some (tightestLo co (ob_lo b) (pc_value c, False))\<rparr>)"
      using Cons.prems(2) c PGt tightestLo_cases [of co "ob_lo b" "(pc_value c, False)"] by (auto simp: origin_def)
    with Cons PGt show ?thesis by simp
  next
    case PGte
    have "origin S (b\<lparr>ob_lo := Some (tightestLo co (ob_lo b) (pc_value c, True))\<rparr>)"
      using Cons.prems(2) c PGte tightestLo_cases [of co "ob_lo b" "(pc_value c, True)"] by (auto simp: origin_def)
    with Cons PGte show ?thesis by simp
  next
    case PLt
    have "origin S (b\<lparr>ob_hi := Some (tightestHi co (ob_hi b) (pc_value c, False))\<rparr>)"
      using Cons.prems(2) c PLt tightestHi_cases [of co "ob_hi b" "(pc_value c, False)"] by (auto simp: origin_def)
    with Cons PLt show ?thesis by simp
  next
    case PLte
    have "origin S (b\<lparr>ob_hi := Some (tightestHi co (ob_hi b) (pc_value c, True))\<rparr>)"
      using Cons.prems(2) c PLte tightestHi_cases [of co "ob_hi b" "(pc_value c, True)"] by (auto simp: origin_def)
    with Cons PLte show ?thesis by simp
  qed
qed simp

lemma decodeGroup_origin: "decodeGroup co cs = Some q \<Longrightarrow> origin (set cs) q"
  by (rule decode_origin [of co cs empty_bundle]) (auto simp: decodeGroup_def origin_def empty_bundle_def)

text \<open>And every clause leaves its slot filled.\<close>

lemma decode_keeps:
  assumes "decode_clauses co cs b = Some q"
  shows "(ob_eq b \<noteq> None \<longrightarrow> ob_eq q \<noteq> None) \<and> (ob_in b \<noteq> None \<longrightarrow> ob_in q \<noteq> None) \<and>
    (ob_lo b \<noteq> None \<longrightarrow> ob_lo q \<noteq> None) \<and> (ob_hi b \<noteq> None \<longrightarrow> ob_hi q \<noteq> None)"
  using assms
proof (induction cs arbitrary: b)
  case (Cons c cs)
  then show ?case
    by (cases "pc_op c") (auto split: if_splits json.splits dest!: Cons.IH)
qed auto

lemma decode_fills:
  assumes "decode_clauses co cs b = Some q" "c \<in> set cs"
  shows "(pc_op c = PEq \<longrightarrow> ob_eq q \<noteq> None) \<and> (pc_op c = PIn \<longrightarrow> ob_in q \<noteq> None) \<and>
    (lower c \<longrightarrow> ob_lo q \<noteq> None) \<and> (upper c \<longrightarrow> ob_hi q \<noteq> None)"
  using assms
proof (induction cs arbitrary: b)
  case (Cons x cs)
  show ?case
  proof (cases "c = x")
    case True
    with Cons.prems(1) show ?thesis
      by (cases "pc_op x") (auto simp: lower_def upper_def split: if_splits json.splits dest!: decode_keeps)
  next
    case False
    with Cons.prems Cons.IH show ?thesis by (cases "pc_op x") (auto split: if_splits json.splits)
  qed
qed simp

lemma js_less_simps [simp]:
  "js_less co (JNum x) (JNum y) = num_less x y" "js_less co (JStr x') (JStr y') = (x' < y')"
  by (simp_all add: js_less_def to_primitive_def)

lemma typeof_eq:
  "typeof (JNum x) = typeof v \<longleftrightarrow> (\<exists>y. v = JNum y)" "typeof (JStr s) = typeof v \<longleftrightarrow> (\<exists>u. v = JStr u)"
  by (cases v; simp)+

lemma lower_implied:
  assumes "lowerBoundImplies co (fv, fi) (Some (qv, qi))" "range_bound fv" "compareGT a qv qi"
  shows "compareGT a fv fi"
proof (cases fv)
  case (JStr s)
  then obtain u where u: "qv = JStr u" using assms(1) by (cases qv) (auto split: if_splits)
  with assms(3) obtain x where "a = Some (JStr x)" by (auto simp: compareGT_def split: option.splits json.splits)
  then show ?thesis using assms JStr u by (auto simp: compareGT_def split: if_splits)
next
  case (JNum n)
  with assms(2) obtain r where n: "n = Fin r" by (cases n) (auto simp: range_bound_def isFinite_def)
  from JNum obtain m where m: "qv = JNum m" using assms(1) by (cases qv) (auto split: if_splits)
  with assms(3) obtain x where "a = Some (JNum x)" by (auto simp: compareGT_def split: option.splits json.splits)
  then show ?thesis using assms(1,3) JNum n m
    by (cases m; cases x) (auto simp: compareGT_def split: if_splits)
qed (use assms(2) in \<open>auto simp: range_bound_def\<close>)

lemma upper_implied:
  assumes "upperBoundImplies co (fv, fi) (Some (qv, qi))" "range_bound fv" "compareLT a qv qi"
  shows "compareLT a fv fi"
proof (cases fv)
  case (JStr s)
  then obtain u where u: "qv = JStr u" using assms(1) by (cases qv) (auto split: if_splits)
  with assms(3) obtain x where "a = Some (JStr x)" by (auto simp: compareLT_def split: option.splits json.splits)
  then show ?thesis using assms JStr u by (auto simp: compareLT_def split: if_splits)
next
  case (JNum n)
  with assms(2) obtain r where n: "n = Fin r" by (cases n) (auto simp: range_bound_def isFinite_def)
  from JNum obtain m where m: "qv = JNum m" using assms(1) by (cases qv) (auto split: if_splits)
  with assms(3) obtain x where "a = Some (JNum x)" by (auto simp: compareLT_def split: option.splits json.splits)
  then show ?thesis using assms(1,3) JNum n m
    by (cases m; cases x) (auto simp: compareLT_def split: if_splits)
qed (use assms(2) in \<open>auto simp: range_bound_def\<close>)

text \<open>The members of one \<open>in\<close> clause have one type.\<close>

definition one_type :: "json list \<Rightarrow> bool" where
  "one_type ms \<longleftrightarrow> (\<forall>m\<in>set ms. \<exists>s. m = JStr s) \<or> (\<forall>m\<in>set ms. \<exists>r. m = JNum (Fin r)) \<or> (\<forall>m\<in>set ms. \<exists>b. m = JBool b)"

lemma foldl_min_le: "x \<in> insert s (set us) \<Longrightarrow> foldl min s us \<le> (x :: 'a :: linorder)"
proof (induction us arbitrary: s x)
  case (Cons u us)
  show ?case
  proof (cases "x \<in> set us")
    case True
    then show ?thesis using Cons.IH [of x "min s u"] by simp
  next
    case False
    with Cons.prems have "x = s \<or> x = u" by auto
    then show ?thesis using Cons.IH [of "min s u" "min s u"] by auto
  qed
qed simp

lemma foldl_max_ge: "x \<in> insert s (set us) \<Longrightarrow> (x :: 'a :: linorder) \<le> foldl max s us"
proof (induction us arbitrary: s x)
  case (Cons u us)
  show ?case
  proof (cases "x \<in> set us")
    case True
    then show ?thesis using Cons.IH [of x "max s u"] by simp
  next
    case False
    with Cons.prems have "x = s \<or> x = u" by auto
    then show ?thesis using Cons.IH [of "max s u" "max s u"] by auto
  qed
qed simp

lemma reduce_least_str:
  "foldl (\<lambda>acc v. if js_less co v acc then v else acc) (JStr s) (map JStr us) = JStr (foldl min s us)"
proof (induction us arbitrary: s)
  case (Cons u us)
  have "min s u = (if u < s then u else s)" by (auto simp: min_def)
  then show ?case using Cons by (cases "u < s") simp_all
qed simp

lemma reduce_least_num:
  "foldl (\<lambda>acc v. if js_less co v acc then v else acc) (JNum (Fin s)) (map (\<lambda>x. JNum (Fin x)) us) = JNum (Fin (foldl min s us))"
proof (induction us arbitrary: s)
  case (Cons u us)
  have "min s u = (if u < s then u else s)" by (auto simp: min_def)
  then show ?case using Cons by (cases "u < s") simp_all
qed simp

lemma reduce_greatest_str:
  "foldl (\<lambda>acc v. if js_less co acc v then v else acc) (JStr s) (map JStr us) = JStr (foldl max s us)"
proof (induction us arbitrary: s)
  case (Cons u us)
  have "max s u = (if s < u then u else s)" by (auto simp: max_def)
  then show ?case using Cons by (cases "s < u") simp_all
qed simp

lemma reduce_greatest_num:
  "foldl (\<lambda>acc v. if js_less co acc v then v else acc) (JNum (Fin s)) (map (\<lambda>x. JNum (Fin x)) us) = JNum (Fin (foldl max s us))"
proof (induction us arbitrary: s)
  case (Cons u us)
  have "max s u = (if s < u then u else s)" by (auto simp: max_def)
  then show ?case using Cons by (cases "s < u") simp_all
qed simp

lemma one_type_cases:
  assumes "one_type ms" "range_bound fv" "v \<in> set ms" "typeof fv = typeof v"
  obtains us where "ms = map JStr us" | rs where "ms = map (\<lambda>x. JNum (Fin x)) rs"
proof -
  have "(\<exists>s. v = JStr s) \<or> (\<exists>n. v = JNum n)"
    using assms(2,4) by (cases fv; cases v) (auto simp: range_bound_def)
  then have "(\<forall>m\<in>set ms. \<exists>s. m = JStr s) \<or> (\<forall>m\<in>set ms. \<exists>r. m = JNum (Fin r))"
    using assms(1,3) by (auto simp: one_type_def)
  with that show thesis by (auto simp: ex_map_conv [symmetric])
qed

lemma reduce_mem: "foldl (\<lambda>acc v. if P v acc then v else acc) a ms \<in> insert a (set ms)"
proof (induction ms arbitrary: a)
  case (Cons m ms)
  then show ?case using Cons [of "if P m a then m else a"] by (auto split: if_splits)
qed simp

lemma in_lower:
  assumes "one_type (m # ms)" "range_bound fv" "x \<in> set (m # ms)"
    and "typeof fv = typeof (foldl (\<lambda>acc v. if js_less co v acc then v else acc) m (m # ms))" (is "_ = typeof ?y")
  shows "compareGT (Some x) ?y True"
proof -
  have "?y \<in> set (m # ms)" using reduce_mem [of "js_less co" m "m # ms"] by auto
  from one_type_cases [OF assms(1,2) this assms(4)] show ?thesis
  proof cases
    case (1 us)
    then obtain u us' where us: "us = u # us'" "m = JStr u" by (cases us) auto
    obtain s where s: "x = JStr s" "s \<in> set us" using assms(3) 1 by auto
    have "?y = JStr (foldl min u us)" by (rule reduce_least_str [of co u us, folded 1 us(2)])
    moreover have "foldl min u us \<le> s" by (rule foldl_min_le) (use s us in auto)
    ultimately show ?thesis using s by (simp add: compareGT_def)
  next
    case (2 rs)
    then obtain u us' where us: "rs = u # us'" "m = JNum (Fin u)" by (cases rs) auto
    obtain s where s: "x = JNum (Fin s)" "s \<in> set rs" using assms(3) 2 by auto
    have "?y = JNum (Fin (foldl min u rs))" by (rule reduce_least_num [of co u rs, folded 2 us(2)])
    moreover have "foldl min u rs \<le> s" by (rule foldl_min_le) (use s us in auto)
    ultimately show ?thesis using s by (auto simp: compareGT_def)
  qed
qed

lemma in_upper:
  assumes "one_type (m # ms)" "range_bound fv" "x \<in> set (m # ms)"
    and "typeof fv = typeof (foldl (\<lambda>acc v. if js_less co acc v then v else acc) m (m # ms))" (is "_ = typeof ?y")
  shows "compareLT (Some x) ?y True"
proof -
  have "?y \<in> set (m # ms)" using reduce_mem [of "\<lambda>v acc. js_less co acc v" m "m # ms"] by auto
  from one_type_cases [OF assms(1,2) this assms(4)] show ?thesis
  proof cases
    case (1 us)
    then obtain u us' where us: "us = u # us'" "m = JStr u" by (cases us) auto
    obtain s where s: "x = JStr s" "s \<in> set us" using assms(3) 1 by auto
    have "?y = JStr (foldl max u us)" by (rule reduce_greatest_str [of co u us, folded 1 us(2)])
    moreover have "s \<le> foldl max u us" by (rule foldl_max_ge) (use s us in auto)
    ultimately show ?thesis using s by (simp add: compareLT_def)
  next
    case (2 rs)
    then obtain u us' where us: "rs = u # us'" "m = JNum (Fin u)" by (cases rs) auto
    obtain s where s: "x = JNum (Fin s)" "s \<in> set rs" using assms(3) 2 by auto
    have "?y = JNum (Fin (foldl max u rs))" by (rule reduce_greatest_num [of co u rs, folded 2 us(2)])
    moreover have "s \<le> foldl max u rs" by (rule foldl_max_ge) (use s us in auto)
    ultimately show ?thesis using s by (auto simp: compareLT_def)
  qed
qed

text \<open>
  Filters with one condition per field and side, and queries whose \<open>in\<close> lists have one type.
\<close>

definition unmixed :: "predicate_wire \<Rightarrow> bool" where
  "unmixed w \<longleftrightarrow> (\<forall>c\<in>set w. \<forall>c'\<in>set w. pc_field c = pc_field c' \<longrightarrow>
     c = c' \<or> lower c \<and> upper c' \<or> upper c \<and> lower c')"

definition typed_lists :: "predicate_wire \<Rightarrow> bool" where
  "typed_lists w \<longleftrightarrow> (\<forall>c\<in>set w. pc_op c = PIn \<longrightarrow> one_type (members_of (pc_value c)))"

lemma matchesWire_iff: "matchesWire w d = Inr True \<longleftrightarrow> (\<forall>c\<in>set w. matchesClause c (lookupPath d (pc_field c)) = Inr True)"
proof (induction w)
  case Nil
  show ?case by (simp add: matchesWire_def)
qed (simp add: matchesWire_Cons)

lemma any_results_all_Inr: "\<forall>r\<in>set rs. \<exists>b. r = Inr b \<Longrightarrow> any_results rs = Inr (\<exists>r\<in>set rs. r = Inr True)"
  by (induction rs) auto

lemma matchesIn_scalars:
  assumes "\<forall>m\<in>set ms. scalar m"
  shows "matchesIn ms (Some x) = Inr (\<exists>m\<in>set ms. strict_eq m x)"
  unfolding matchesIn_def
  by (subst any_results_all_Inr) (use assms in \<open>auto simp: scalar_def\<close>)

text \<open>The value a matching document holds at a field, seen from the query's bundle.\<close>

lemma query_value:
  assumes q: "decodeGroup co cs = Some q" and m: "\<forall>c\<in>set cs. matchesClause c a = Inr True"
    and s: "\<forall>c\<in>set cs. scalar_clause c"
  shows "ob_eq q = Some e \<Longrightarrow> scalar e \<and> (\<exists>x. a = Some x \<and> strict_eq e x)"
    and "ob_in q = Some ms \<Longrightarrow> (\<forall>m\<in>set ms. scalar m) \<and> (\<exists>x. a = Some x \<and> (\<exists>m\<in>set ms. strict_eq m x))"
    and "ob_lo q = Some (v, i) \<Longrightarrow> compareGT a v i"
    and "ob_hi q = Some (v, i) \<Longrightarrow> compareLT a v i"
proof -
  note o = decodeGroup_origin [OF q]
  show "scalar e \<and> (\<exists>x. a = Some x \<and> strict_eq e x)" if "ob_eq q = Some e"
  proof -
    from o that obtain c where "c \<in> set cs" "pc_op c = PEq" "pc_value c = e" unfolding origin_def by blast
    with m s show ?thesis
      by (fastforce simp: matchesClause_def scalar_clause_def scalar_def matchesEq_prim split: option.splits)
  qed
  show "(\<forall>m\<in>set ms. scalar m) \<and> (\<exists>x. a = Some x \<and> (\<exists>m\<in>set ms. strict_eq m x))" if "ob_in q = Some ms"
  proof -
    from o that obtain c where c: "c \<in> set cs" "pc_op c = PIn" "pc_value c = JArr ms" unfolding origin_def by blast
    with s have sc: "\<forall>m\<in>set ms. scalar m" by (fastforce simp: scalar_clause_def)
    from c m have "matchesIn ms a = Inr True" by (fastforce simp: matchesClause_def)
    with sc matchesIn_scalar [of ms a] show ?thesis by blast
  qed
  show "compareGT a v i" if "ob_lo q = Some (v, i)"
  proof -
    from o that obtain c where "c \<in> set cs" "pc_op c = (if i then PGte else PGt)" "pc_value c = v"
      unfolding origin_def by blast
    with m show ?thesis by (cases i) (fastforce simp: matchesClause_def)+
  qed
  show "compareLT a v i" if "ob_hi q = Some (v, i)"
  proof -
    from o that obtain c where "c \<in> set cs" "pc_op c = (if i then PLte else PLt)" "pc_value c = v"
      unfolding origin_def by blast
    with m show ?thesis by (cases i) (fastforce simp: matchesClause_def)+
  qed
qed

lemma bound_typeof:
  "lowerBoundImplies co (fv, fi) (Some (qv, qi)) \<Longrightarrow> typeof fv = typeof qv"
  "upperBoundImplies co (fv, fi) (Some (qv, qi)) \<Longrightarrow> typeof fv = typeof qv"
  by (simp_all split: if_splits)

lemma self_bound:
  assumes "strict_eq e x" "range_bound fv" "typeof fv = typeof e"
  shows "compareGT (Some x) e True" "compareLT (Some x) e True"
  using assms by (cases e; cases x; cases fv; auto simp: compareGT_def compareLT_def range_bound_def num_eq_sym)+

lemma query_lower:
  assumes q: "decodeGroup co cs = Some q" "\<forall>c\<in>set cs. matchesClause c a = Inr True" "\<forall>c\<in>set cs. scalar_clause c"
    and ty: "typed_lists cs" and fv: "range_bound fv" and imp: "lowerBoundImplies co (fv, fi) (loFromQuery co q)"
  shows "compareGT a fv fi"
proof -
  obtain qv qi where lo: "loFromQuery co q = Some (qv, qi)" using imp by (cases "loFromQuery co q") auto
  have "compareGT a qv qi"
  proof (cases "ob_eq q")
    case (Some e)
    with lo have e: "qv = e" "qi" by (auto simp: loFromQuery_def)
    from query_value(1) [OF q Some] obtain x where "a = Some x" "strict_eq e x" by blast
    then show ?thesis using self_bound(1) fv bound_typeof(1) imp lo e by metis
  next
    case None
    show ?thesis
    proof (cases "\<exists>m ms. ob_in q = Some (m # ms)")
      case True
      then obtain m ms where ms: "ob_in q = Some (m # ms)" by blast
      let ?y = "foldl (\<lambda>acc v. if js_less co v acc then v else acc) m (m # ms)"
      have y: "qv = ?y" "qi" using lo ms None by (auto simp: loFromQuery_def)
      from decodeGroup_origin [OF q(1)] ms obtain c where "c \<in> set cs" "pc_op c = PIn" "pc_value c = JArr (m # ms)"
        unfolding origin_def by blast
      with ty have one: "one_type (m # ms)" by (auto simp: typed_lists_def)
      from query_value(2) [OF q ms] obtain x u where "a = Some x" "u \<in> set (m # ms)" "strict_eq u x" by blast
      moreover have "u = x" using strict_eq_imp_eq [OF \<open>strict_eq u x\<close>] .
      moreover have "typeof fv = typeof ?y" using bound_typeof(1) imp lo y by metis
      ultimately show ?thesis using in_lower [OF one fv _ \<open>typeof fv = typeof ?y\<close>] y by simp
    next
      case False
      then have "loFromQuery co q = ob_lo q"
        using None by (auto simp: loFromQuery_def split: option.splits list.splits)
      then show ?thesis using query_value(3) [OF q] lo by simp
    qed
  qed
  then show ?thesis using lower_implied imp lo fv by metis
qed

lemma query_upper:
  assumes q: "decodeGroup co cs = Some q" "\<forall>c\<in>set cs. matchesClause c a = Inr True" "\<forall>c\<in>set cs. scalar_clause c"
    and ty: "typed_lists cs" and fv: "range_bound fv" and imp: "upperBoundImplies co (fv, fi) (hiFromQuery co q)"
  shows "compareLT a fv fi"
proof -
  obtain qv qi where hi: "hiFromQuery co q = Some (qv, qi)" using imp by (cases "hiFromQuery co q") auto
  have "compareLT a qv qi"
  proof (cases "ob_eq q")
    case (Some e)
    with hi have e: "qv = e" "qi" by (auto simp: hiFromQuery_def)
    from query_value(1) [OF q Some] obtain x where "a = Some x" "strict_eq e x" by blast
    then show ?thesis using self_bound(2) fv bound_typeof(2) imp hi e by metis
  next
    case None
    show ?thesis
    proof (cases "\<exists>m ms. ob_in q = Some (m # ms)")
      case True
      then obtain m ms where ms: "ob_in q = Some (m # ms)" by blast
      let ?y = "foldl (\<lambda>acc v. if js_less co acc v then v else acc) m (m # ms)"
      have y: "qv = ?y" "qi" using hi ms None by (auto simp: hiFromQuery_def)
      from decodeGroup_origin [OF q(1)] ms obtain c where "c \<in> set cs" "pc_op c = PIn" "pc_value c = JArr (m # ms)"
        unfolding origin_def by blast
      with ty have one: "one_type (m # ms)" by (auto simp: typed_lists_def)
      from query_value(2) [OF q ms] obtain x u where "a = Some x" "u \<in> set (m # ms)" "strict_eq u x" by blast
      moreover have "u = x" using strict_eq_imp_eq [OF \<open>strict_eq u x\<close>] .
      moreover have "typeof fv = typeof ?y" using bound_typeof(2) imp hi y by metis
      ultimately show ?thesis using in_upper [OF one fv _ \<open>typeof fv = typeof ?y\<close>] y by simp
    next
      case False
      then have "hiFromQuery co q = ob_hi q"
        using None by (auto simp: hiFromQuery_def split: option.splits list.splits)
      then show ?thesis using query_value(4) [OF q] hi by simp
    qed
  qed
  then show ?thesis using upper_implied imp hi fv by metis
qed

text \<open>A filter clause on its own in its slot.\<close>

lemma filter_slots:
  assumes f: "decodeGroup co (clauses_on x w) = Some f" and c: "c \<in> set w" "pc_field c = x" and u: "unmixed w"
  shows "pc_op c = PEq \<Longrightarrow> ob_eq f = Some (pc_value c)"
    and "pc_op c = PIn \<Longrightarrow> ob_eq f = None \<and> ob_in f = Some (members_of (pc_value c))"
    and "lower c \<Longrightarrow> ob_eq f = None \<and> ob_in f = None \<and> ob_lo f = Some (pc_value c, pc_op c = PGte)"
    and "upper c \<Longrightarrow> ob_eq f = None \<and> ob_in f = None \<and> ob_hi f = Some (pc_value c, pc_op c = PLte)"
proof -
  have S: "c \<in> set (clauses_on x w)" using c by simp
  have only: "c' = c \<or> lower c \<and> upper c' \<or> upper c \<and> lower c'" if "c' \<in> set (clauses_on x w)" for c'
    using that u c unfolding unmixed_def by (metis (mono_tags, lifting) mem_Collect_eq set_filter)
  note o = decodeGroup_origin [OF f, unfolded origin_def] and fill = decode_fills [OF f [unfolded decodeGroup_def] S]
  have eq: "pc_value c = v \<and> pc_op c = PEq" if "ob_eq f = Some v" for v
  proof -
    from o that obtain c' where "c' \<in> set (clauses_on x w)" "pc_op c' = PEq" "pc_value c' = v" by blast
    with only [of c'] show ?thesis by (auto simp: lower_def upper_def)
  qed
  have inn: "pc_value c = JArr ms \<and> pc_op c = PIn" if "ob_in f = Some ms" for ms
  proof -
    from o that obtain c' where "c' \<in> set (clauses_on x w)" "pc_op c' = PIn" "pc_value c' = JArr ms" by blast
    with only [of c'] show ?thesis by (auto simp: lower_def upper_def)
  qed
  show "ob_eq f = Some (pc_value c)" if "pc_op c = PEq" using fill that eq by fastforce
  show "ob_eq f = None \<and> ob_in f = Some (members_of (pc_value c))" if "pc_op c = PIn"
    using fill that eq inn by (cases "ob_eq f") fastforce+
  show "ob_eq f = None \<and> ob_in f = None \<and> ob_lo f = Some (pc_value c, pc_op c = PGte)" if l: "lower c"
  proof -
    from fill l obtain v i where vi: "ob_lo f = Some (v, i)" by fastforce
    then obtain c' where "c' \<in> set (clauses_on x w)" "pc_op c' = (if i then PGte else PGt)" "pc_value c' = v"
      using o by blast
    with only [of c'] l have "v = pc_value c \<and> i = (pc_op c = PGte)"
      by (auto simp: lower_def upper_def split: if_splits)
    with vi eq inn l show ?thesis by (cases "ob_eq f"; cases "ob_in f") (auto simp: lower_def)
  qed
  show "ob_eq f = None \<and> ob_in f = None \<and> ob_hi f = Some (pc_value c, pc_op c = PLte)" if l: "upper c"
  proof -
    from fill l obtain v i where vi: "ob_hi f = Some (v, i)" by fastforce
    then obtain c' where "c' \<in> set (clauses_on x w)" "pc_op c' = (if i then PLte else PLt)" "pc_value c' = v"
      using o by blast
    with only [of c'] l have "v = pc_value c \<and> i = (pc_op c = PLte)"
      by (auto simp: lower_def upper_def split: if_splits)
    with vi eq inn l show ?thesis by (cases "ob_eq f"; cases "ob_in f") (auto simp: upper_def)
  qed
qed

lemma bundle_implies_clause:
  assumes f: "decodeGroup co (clauses_on x w) = Some f" "c \<in> set w" "pc_field c = x" "unmixed w" and sc: "scalar_clause c"
    and q: "decodeGroup co cs = Some q" "\<forall>c\<in>set cs. matchesClause c a = Inr True" "\<forall>c\<in>set cs. scalar_clause c"
    and ty: "typed_lists cs" and imp: "bundle_implies co f q"
  shows "matchesClause c a = Inr True"
proof (cases "pc_op c")
  case PEq
  then have "ob_eq f = Some (pc_value c)" by (rule filter_slots(1) [OF f])
  with imp obtain e where e: "ob_eq q = Some e" "deepEqualDocumentValue e (pc_value c)"
    by (auto simp: bundle_implies_def split: option.splits)
  from query_value(1) [OF q e(1)] obtain x where x: "a = Some x" "strict_eq e x" "scalar e" by blast
  then have "e = pc_value c" using e(2) strict_eq_imp_eq by (simp add: scalar_def deepEqual_prim)
  then show ?thesis using PEq x by (simp add: matchesClause_def scalar_def matchesEq_prim)
next
  case PIn
  let ?ms = "members_of (pc_value c)"
  have slots: "ob_eq f = None" "ob_in f = Some ?ms" using filter_slots(2) [OF f PIn] by auto
  have sm: "\<forall>m\<in>set ?ms. scalar m" using sc PIn by (simp add: scalar_clause_def)
  have "\<exists>x m. a = Some x \<and> m \<in> set ?ms \<and> strict_eq m x"
  proof (cases "ob_eq q")
    case (Some e)
    with imp slots obtain m where m: "m \<in> set ?ms" "deepEqualDocumentValue m e" by (auto simp: bundle_implies_def)
    from query_value(1) [OF q Some] obtain x where x: "a = Some x" "strict_eq e x" by blast
    have "m = e" using m sm strict_eq_imp_eq by (fastforce simp: scalar_def deepEqual_prim)
    with m(1) x show ?thesis by blast
  next
    case None
    with imp slots obtain vs where vs: "ob_in q = Some vs" "\<forall>v\<in>set vs. \<exists>m\<in>set ?ms. deepEqualDocumentValue m v"
      by (auto simp: bundle_implies_def split: option.splits)
    from query_value(2) [OF q vs(1)] obtain x v where x: "a = Some x" "v \<in> set vs" "strict_eq v x" by blast
    with vs(2) obtain m where m: "m \<in> set ?ms" "deepEqualDocumentValue m v" by blast
    have "m = v" using m sm strict_eq_imp_eq by (fastforce simp: scalar_def deepEqual_prim)
    with m(1) x show ?thesis by blast
  qed
  then show ?thesis using PIn matchesIn_scalars [OF sm] by (auto simp: matchesClause_def)
next
  case PGt
  then have "lower c" "range_bound (pc_value c)" using sc by (simp_all add: lower_def scalar_clause_def)
  with filter_slots(3) [OF f] imp PGt show ?thesis
    by (auto simp: bundle_implies_def matchesClause_def intro: query_lower [OF q ty])
next
  case PGte
  then have "lower c" "range_bound (pc_value c)" using sc by (simp_all add: lower_def scalar_clause_def)
  with filter_slots(3) [OF f] imp PGte show ?thesis
    by (auto simp: bundle_implies_def matchesClause_def intro: query_lower [OF q ty])
next
  case PLt
  then have "upper c" "range_bound (pc_value c)" using sc by (simp_all add: upper_def scalar_clause_def)
  with filter_slots(4) [OF f] imp PLt show ?thesis
    by (auto simp: bundle_implies_def matchesClause_def intro: query_upper [OF q ty])
next
  case PLte
  then have "upper c" "range_bound (pc_value c)" using sc by (simp_all add: upper_def scalar_clause_def)
  with filter_slots(4) [OF f] imp PLte show ?thesis
    by (auto simp: bundle_implies_def matchesClause_def intro: query_upper [OF q ty])
qed

lemma predicateImplies_sound:
  assumes "predicateImplies co w query" "matchesWire query d = Inr True"
    and "\<forall>c\<in>set w. scalar_clause c" "\<forall>c\<in>set query. scalar_clause c" "unmixed w" "typed_lists query"
  shows "matchesWire w d = Inr True"
  unfolding matchesWire_iff
proof
  fix c assume c: "c \<in> set w"
  let ?x = "pc_field c"
  have g: "map_of (group_clauses w) ?x = Some (clauses_on ?x w)"
    using c by (auto simp: group_clauses_map filter_empty_conv)
  obtain f cs q where f: "decodeGroup co (clauses_on ?x w) = Some f" and cs: "map_of (group_clauses query) ?x = Some cs"
    and q: "decodeGroup co cs = Some q" "bundle_implies co f q"
    using bspec [OF assms(1) [unfolded predicateImplies_def] map_of_SomeD [OF g]] that by (auto split: option.splits)
  have "cs = clauses_on ?x query" using cs by (simp add: group_clauses_map split: if_splits)
  then have cs': "\<forall>c'\<in>set cs. c' \<in> set query \<and> pc_field c' = ?x" by simp
  show "matchesClause c (lookupPath d ?x) = Inr True"
  proof (rule bundle_implies_clause [OF f c refl assms(5) _ q(1) _ _ _ q(2)])
    show "scalar_clause c" using assms(3) c by blast
    show "\<forall>c'\<in>set cs. matchesClause c' (lookupPath d ?x) = Inr True"
      using assms(2) cs' unfolding matchesWire_iff by fastforce
    show "\<forall>c'\<in>set cs. scalar_clause c'" using assms(4) cs' by blast
    show "typed_lists cs" using assms(6) cs' by (auto simp: typed_lists_def)
  qed
qed

section \<open>Properties\<close>

text \<open>
  (C36) The soundness contract of \<^verbatim>\<open>predicateImplies\<close> on its intended domain. For a filter with one condition
  per field and side and a query whose \<^verbatim>\<open>in\<close> lists hold values of one type, both scalar: when the check
  says the query implies the filter, the filter matches every document the query matches.
\<close>

theorem implied_filter_complete:
  assumes "predicateImplies co w query" "matchesWire query d = Inr True"
    and "\<forall>c\<in>set w. scalar_clause c" "\<forall>c\<in>set query. scalar_clause c" "unmixed w" "typed_lists query"
  shows "matchesWire w d = Inr True"
  by (rule predicateImplies_sound [OF assms])

definition clause :: "predicate_op \<Rightarrow> string \<Rightarrow> json \<Rightarrow> predicate_clause" where
  "clause op f v = \<lparr>pc_op = op, pc_field = f, pc_value = v\<rparr>"

definition num :: "int \<Rightarrow> json" where
  "num n = JNum (Fin (of_int n))"

definition nan_coercions :: coercions where
  "nan_coercions = \<lparr>co_primitive = (\<lambda>_. ''[object Object]''), co_number = (\<lambda>_. NaN)\<rparr>"

theorem implied_filter_complete_witness:
  "matchesWire [clause PGt ''x'' (num 2), clause PLt ''x'' (num 9)] [(''x'', num 5)] = Inr True"
proof -
  have "predicateImplies nan_coercions [clause PGt ''x'' (num 2), clause PLt ''x'' (num 9)]
      [clause PIn ''x'' (JArr [num 3, num 5])]"
    by code_simp
  moreover have "matchesWire [clause PIn ''x'' (JArr [num 3, num 5])] [(''x'', num 5)] = Inr True"
    by code_simp
  ultimately show ?thesis
    by (rule implied_filter_complete)
      (auto simp: scalar_clause_def clause_def num_def scalar_def range_bound_def isFinite_def unmixed_def
        lower_def upper_def typed_lists_def one_type_def)
qed

text \<open>
  A filter with an \<^verbatim>\<open>in\<close> list and a range on one field passes index validation, yet the implication
  check looks at the list alone. A query for a listed value outside the range is then planned over
  the filtered index, which holds no marker for a document the query matches.
\<close>

theorem filter_range_ignored:
  "let w = [clause PIn ''x'' (JArr [num 1, num 2, num 3]), clause PGt ''x'' (num 2)];
       idx = \<lparr>ix_name = ''hot'', ix_on = OnField ''y'', ix_predicate = Some w\<rparr>;
       query = [clause PEq ''y'' (num 5), clause PIn ''x'' (JArr [num 1])];
       d = [(''y'', num 5), (''x'', num 1)]
   in validateIndexDefinition idx = Inr () \<and> validateWire (encode_wire query) = Inr query \<and>
      planQuery nan_coercions (Some query) [idx] = IndexWalk ''hot'' [num 5] None None \<and>
      predicateImplies nan_coercions w query \<and>
      matchesWire query d = Inr True \<and> allIndexKeysFor (\<lambda>_. []) p [idx] (Some d) k = Inr []"
  by code_simp

text \<open>
  The implication check takes the least member of a mixed list to decide a range, so a list of a
  number and a string is held to imply a numeric filter that the string does not satisfy.
\<close>

theorem mixed_list_implies:
  "let w = [clause PGt ''x'' (num 3)];
       idx = \<lparr>ix_name = ''hot'', ix_on = OnField ''y'', ix_predicate = Some w\<rparr>;
       query = [clause PEq ''y'' (num 5), clause PIn ''x'' (JArr [num 5, JStr ''a''])];
       d = [(''y'', num 5), (''x'', JStr ''a'')]
   in validateIndexDefinition idx = Inr () \<and> validateWire (encode_wire query) = Inr query \<and>
      planQuery nan_coercions (Some query) [idx] = IndexWalk ''hot'' [num 5] None None \<and>
      predicateImplies nan_coercions w query \<and>
      matchesWire query d = Inr True \<and> allIndexKeysFor (\<lambda>_. []) p [idx] (Some d) k = Inr []"
  by code_simp

text \<open>
  A composite index is walked for an equality on its first field alone, although a document
  without the second field has no marker in it: the walk misses a document the query matches.
\<close>

theorem partial_prefix_misses:
  "let idx = \<lparr>ix_name = ''ab'', ix_on = OnFields [''a'', ''b''], ix_predicate = None\<rparr>;
       query = [clause PEq ''a'' (num 5)];
       d = [(''a'', num 5)]
   in validateIndexDefinition idx = Inr () \<and> validateWire (encode_wire query) = Inr query \<and>
      planQuery nan_coercions (Some query) [idx] = IndexWalk ''ab'' [num 5] None None \<and>
      matchesWire query d = Inr True \<and> allIndexKeysFor (\<lambda>_. []) p [idx] (Some d) k = Inr []"
  by code_simp

end
