(* ===== verification/Writer.thy ===== *)
theory Writer
  imports Maintenance Planner
begin

text \<open>
  \<^verbatim>\<open>packages/server/src/writer.ts\<close> with the helpers it calls in \<^verbatim>\<open>doc-id.ts\<close>,
  \<^verbatim>\<open>post-image-identity.ts\<close> and \<^verbatim>\<open>log-conflict-adoption.ts\<close>: one commit, from the checks before any
  I/O to the maintenance tick after it. The create of \<^verbatim>\<open>log/<seq>.json\<close> is the commit. The session id, the
  clock, the generation nonce, Unicode normalisation and \<^verbatim>\<open>JSON.stringify\<close> are fields of a runtime record.
\<close>

section \<open>Documents on the wire\<close>

definition entry_wire :: "log_entry \<Rightarrow> log_entry" where
  "entry_wire e = e\<lparr>le_after := map_option doc_wire (le_after e)\<rparr>"

section \<open>Document identity\<close>

record runtime =
  rt_normalize :: "string \<Rightarrow> string"
  rt_stringify :: "json \<Rightarrow> nat list"
  rt_session :: string
  rt_now :: int
  rt_iso :: "int \<Rightarrow> string"
  rt_generation :: string
  rt_clock :: gc_clock
  rt_bytes :: "blob \<Rightarrow> nat"
  rt_sha :: "blob \<Rightarrow> string"
  rt_coercions :: coercions
  rt_uuidv7 :: string

definition assertStoredDocId :: "string \<Rightarrow> unit result" where
  "assertStoredDocId i = assertPathSegment i"

definition assertDocId :: "(string \<Rightarrow> string) \<Rightarrow> string \<Rightarrow> unit result" where
  "assertDocId normalizeNFC i =
     result_bind (assertStoredDocId i) (\<lambda>_. if i \<noteq> normalizeNFC i then throw InvalidConfig else Inr ())"

text \<open>A document of the model is a plain object; \<open>None\<close> is \<^verbatim>\<open>undefined\<close>.\<close>

definition assertPostImageIdentity :: "string \<Rightarrow> doc option \<Rightarrow> error_code \<Rightarrow> unit result" where
  "assertPostImageIdentity docId aft code =
     (case aft of None \<Rightarrow> throw code
      | Some d \<Rightarrow> if map_of d ''_id'' = Some (JStr docId) then Inr () else throw code)"

definition insertReplaysRow :: "doc \<Rightarrow> doc option \<Rightarrow> bool" where
  "insertReplaysRow post stored =
     (case stored of None \<Rightarrow> False | Some d \<Rightarrow> jsonValueEqual (JObj (doc_wire post)) (JObj d))"

section \<open>The request\<close>

record insert_guard =
  absentBelowSeq :: jsnum
  replayIdentical :: bool

record commit_input =
  ci_op :: log_op
  ci_collection :: string
  ci_docId :: string
  ci_body :: "doc option"
  ci_origin :: "string option"
  ci_insertGuard :: "insert_guard option"

record commit_result =
  entry :: log_entry
  currentEtag :: string

text \<open>\<^verbatim>\<open>getCurrentContext()?.maintenance\<close>; a dispatch that is not inline runs the tick as a thread of its own.\<close>

record maintenance_dispatch =
  md_inline :: bool
  md_disabled :: bool
  md_maxFoldBytes :: "limit option"
  md_options :: "bounded_options option"

record writer =
  w_currentJsonKey :: string
  w_indexes :: "index_definition list"
  w_verifyLogIntegrityOnCommit :: bool

text \<open>The constructor: every index definition is validated.\<close>

definition new_writer :: "string \<Rightarrow> index_definition list \<Rightarrow> bool \<Rightarrow> writer result" where
  "new_writer key indexes verify =
     result_bind (result_map validateIndexDefinition indexes) (\<lambda>_.
     Inr \<lparr>w_currentJsonKey = key, w_indexes = indexes, w_verifyLogIntegrityOnCommit = verify\<rparr>)"

text \<open>\<^verbatim>\<open>Number.isSafeInteger(seq) && seq >= 0\<close>; the accepted sequence is returned.\<close>

definition safe_integer :: "jsnum \<Rightarrow> nat option" where
  "safe_integer v = (case nonneg_integer (Some (JNum v)) of
     None \<Rightarrow> None | Some n \<Rightarrow> if n \<le> MAX_SAFE_INTEGER then Some n else None)"

definition assertInsertGuardShape :: "commit_input \<Rightarrow> insert_guard \<Rightarrow> nat result" where
  "assertInsertGuardShape input guard =
     (if ci_op input \<noteq> OpI then throw InvalidConfig
      else (case safe_integer (absentBelowSeq guard) of None \<Rightarrow> throw InvalidConfig | Some n \<Rightarrow> Inr n))"

text \<open>The last entry of the window for this document decides.\<close>

definition decideInsertTarget :: "log_entry list \<Rightarrow> commit_input \<Rightarrow> log_entry option result" where
  "decideInsertTarget win input =
     (case find (\<lambda>e. le_collection e = ci_collection input \<and> le_doc_id e = Some (ci_docId input)) (rev win) of
        None \<Rightarrow> Inr None
      | Some e \<Rightarrow>
          if le_op e = OpD then Inr None
          else if (case ci_insertGuard input of None \<Rightarrow> False | Some g \<Rightarrow> replayIdentical g) \<and>
            (case ci_body input of None \<Rightarrow> False | Some b \<Rightarrow> insertReplaysRow b (le_after e))
          then Inr (Some e)
          else throw AlreadyExists)"

section \<open>Adoption\<close>

datatype adoption_decision = Adopt log_entry | ForeignSession | WrongSeq | IntentMismatch

definition tryAdoptOwnSessionLogEntry :: "log_entry \<Rightarrow> log_entry \<Rightarrow> adoption_decision" where
  "tryAdoptOwnSessionLogEntry self existing =
     (if le_session existing \<noteq> le_session self then ForeignSession
      else if le_seq existing \<noteq> le_seq self then WrongSeq
      else if entry_wire existing \<noteq> entry_wire self then IntentMismatch
      else Adopt existing)"

definition hasWriterIdentity :: "log_entry \<Rightarrow> bool" where
  "hasWriterIdentity e \<longleftrightarrow> le_session e \<noteq> [] \<and> le_seq e \<le> MAX_SAFE_INTEGER"

fun isDefinitiveCreateRejection :: "exn \<Rightarrow> bool" where
  "isDefinitiveCreateRejection (BaerlyError c _) = (c = AccessDenied \<or> c = InvalidConfig)"
| "isDefinitiveCreateRejection _ = False"

fun isCreateNotApplied :: "exn \<Rightarrow> bool" where
  "isCreateNotApplied (BaerlyError c notApplied) = (c = NetworkError \<and> notApplied)"
| "isCreateNotApplied _ = False"

definition readLogOccupant :: "string \<Rightarrow> log_entry io" where
  "readLogOccupant key =
     io_bind (io_get key) (\<lambda>got.
     case got of None \<Rightarrow> io_throw NotFound
     | Some (b, _) \<Rightarrow>
         (case decode_log_entry b of None \<Rightarrow> io_throw InvalidResponse
          | Some e \<Rightarrow> if hasWriterIdentity e then io_return e else io_throw InvalidResponse))"

section \<open>Before the create\<close>

definition provisionCurrentJson :: "string \<Rightarrow> string \<Rightarrow> (current_json \<times> string) io" where
  "provisionCurrentJson key generation =
     io_catch
       (createCurrentJson key
         \<lparr>cj_snapshot = None, tail_hint = 0, log_seq_start = 0,
          writer_fence = \<lparr>epoch = 0, owner = [], claimed_at = [], lease_until = None\<rparr>,
          snapshot_bytes = 0, snapshot_rows = 0, mean_entry_bytes = None, last_warned_seq = None,
          log_delete_floor = None, cj_generation = Some generation\<rparr>)
       (\<lambda>e. if \<not> isWriteConflict e then Ret (Inl e)
            else io_bind (readCurrentJson key) (\<lambda>recovered.
              case recovered of None \<Rightarrow> io_throw InvalidResponse | Some ct \<Rightarrow> io_return ct))"

text \<open>One chunk of \<open>readFoldedInsertWindow\<close>: the bodies, then the check of each in order.\<close>

fun get_bodies :: "string list \<Rightarrow> blob option list io" where
  "get_bodies [] = io_return []"
| "get_bodies (k # ks) =
     io_bind (io_get k) (\<lambda>got. io_bind (get_bodies ks) (\<lambda>bs. io_return (map_option fst got # bs)))"

fun check_bodies :: "blob option list \<Rightarrow> log_entry list result" where
  "check_bodies [] = Inr []"
| "check_bodies (None # bs) = throw WriteConflict"
| "check_bodies (Some b # bs) =
     (case decode_log_entry b of None \<Rightarrow> throw InvalidResponse
      | Some e \<Rightarrow> result_bind (check_bodies bs) (\<lambda>es. Inr (e # es)))"

function window_chunks :: "string \<Rightarrow> nat \<Rightarrow> nat \<Rightarrow> log_entry list \<Rightarrow> log_entry list io" where
  "window_chunks logPrefix chunk stop entries =
     (if chunk < stop then
        io_bind (get_bodies (map (logObjectKey logPrefix) [chunk ..< min (chunk + MAX_PARALLEL_LOG_READS) stop])) (\<lambda>bodies.
        io_bind (io_lift (check_bodies bodies)) (\<lambda>es.
        window_chunks logPrefix (chunk + MAX_PARALLEL_LOG_READS) stop (entries @ es)))
      else io_return entries)"
  by pat_completeness auto
termination
  by (relation "measure (\<lambda>(_, chunk, stop, _). stop - chunk)") (auto simp: MAX_PARALLEL_LOG_READS_def)

declare window_chunks.simps [simp del]

definition readFoldedInsertWindow :: "string \<Rightarrow> nat \<Rightarrow> nat \<Rightarrow> log_entry list io" where
  "readFoldedInsertWindow logPrefix fromSeq logSeqStart =
     (if fromSeq \<ge> logSeqStart then io_return []
      else if logSeqStart - fromSeq > LOG_FORWARD_PROBE_CAP then io_throw WriteConflict
      else window_chunks logPrefix fromSeq logSeqStart [])"

text \<open>Step 3: where to create, and what a guarded insert has seen.\<close>

datatype target = Replay log_entry | CreateAt nat "log_entry list option"

definition find_target :: "string \<Rightarrow> current_json \<Rightarrow> commit_input \<Rightarrow> nat option \<Rightarrow> target io" where
  "find_target logPrefix current input guard =
     (case guard of
        None \<Rightarrow> io_bind (findLogTail logPrefix (max (logSeqStartOf current) (tail_hint current))) (\<lambda>n.
          io_return (CreateAt n None))
      | Some absentBelow \<Rightarrow>
          io_bind (readFoldedInsertWindow logPrefix absentBelow (logSeqStartOf current)) (\<lambda>folded.
          io_bind (probeTailFrom logPrefix (max absentBelow (logSeqStartOf current)) None) (\<lambda>(n, es).
          io_bind (io_lift (decideInsertTarget (folded @ es) input)) (\<lambda>replayed.
          case replayed of Some e \<Rightarrow> io_return (Replay e)
          | None \<Rightarrow> io_return (CreateAt n (Some (folded @ es)))))))"

definition mintEntry :: "runtime \<Rightarrow> string \<Rightarrow> commit_input \<Rightarrow> nat \<Rightarrow> log_entry" where
  "mintEntry rt lsnTimestamp input atSeq =
     \<lparr>le_lsn = lsnTimestamp @ ''_'' @ rt_session rt @ ''_'' @ countKey (int atSeq),
      le_commit_ts = rt_iso rt (rt_now rt), le_op = ci_op input, le_collection = ci_collection input,
      le_doc_id = Some (ci_docId input),
      le_after = (if ci_op input \<noteq> OpD then ci_body input else None),
      le_origin = ci_origin input, le_session = rt_session rt, le_seq = atSeq\<rparr>"

text \<open>
  Step 4: the markers of the new value. The PUTs start as the keys are checked; a key over the limit
  stops the loop with those before it in flight, otherwise the first rejection is reported.
\<close>

fun put_markers :: "string list \<Rightarrow> unit io" where
  "put_markers [] = io_return ()"
| "put_markers (k # ks) =
     prog_bind (io_put k BEmpty create_only) (\<lambda>r.
     prog_bind (put_markers ks) (\<lambda>r'.
     Ret (case r of Inl e \<Rightarrow> if isWriteConflict e then r' else Inl e | Inr _ \<Rightarrow> r')))"

definition key_fits :: "string \<Rightarrow> bool" where
  "key_fits k \<longleftrightarrow> assertKeyWithinLimit k = Inr ()"

definition emit_markers :: "runtime \<Rightarrow> writer \<Rightarrow> string \<Rightarrow> commit_input \<Rightarrow> nat io" where
  "emit_markers rt w logPrefix input =
     (if w_indexes w = [] \<or> ci_op input = OpD then io_return 0
      else
        io_bind (io_lift (allIndexKeysFor (rt_stringify rt) logPrefix (w_indexes w) (ci_body input) (ci_docId input))) (\<lambda>newKeys.
        prog_bind (put_markers (takeWhile key_fits newKeys)) (\<lambda>r.
        case dropWhile key_fits newKeys of
          k # _ \<Rightarrow> Ret (case assertKeyWithinLimit k of Inl e \<Rightarrow> Inl e | Inr _ \<Rightarrow> Inr 0)
        | [] \<Rightarrow> Ret (case r of Inl e \<Rightarrow> Inl e | Inr _ \<Rightarrow> Inr (length newKeys)))))"

section \<open>The create\<close>

datatype created = CreatedAt nat log_entry | CreateReplayed log_entry

text \<open>One iteration: the slot's only send and, when its fate is open, the occupant read back.\<close>

datatype create_outcome = Won log_entry | Foreign log_entry

definition create_once :: "runtime \<Rightarrow> string \<Rightarrow> string \<Rightarrow> commit_input \<Rightarrow> nat \<Rightarrow> create_outcome io" where
  "create_once rt lsnTimestamp logPrefix input seq =
     (let self = mintEntry rt lsnTimestamp input seq;
          key = logObjectKey logPrefix seq in
      io_bind (io_lift (assertKeyWithinLimit key)) (\<lambda>_.
      prog_bind (io_put key (BLog (entry_wire self)) create_only) (\<lambda>r.
      case r of
        Inr _ \<Rightarrow> io_return (Won self)
      | Inl e \<Rightarrow>
          if \<not> isWriteConflict e \<and> (isDefinitiveCreateRejection e \<or> isCreateNotApplied e) then Ret (Inl e)
          else
            prog_bind (readLogOccupant key) (\<lambda>occ.
            case occ of
              Inl _ \<Rightarrow> io_throw AmbiguousCommit
            | Inr occupant \<Rightarrow>
                (case tryAdoptOwnSessionLogEntry self occupant of
                   Adopt e' \<Rightarrow> io_return (Won e')
                 | _ \<Rightarrow> io_return (Foreign occupant))))))"

text \<open>After a foreign occupant: the next empty slot, the window extended by what was passed.\<close>

definition forward_probe :: "string \<Rightarrow> commit_input \<Rightarrow> nat \<Rightarrow> log_entry list option \<Rightarrow> log_entry \<Rightarrow> target io" where
  "forward_probe logPrefix input seq win occupant =
     (case win of
        None \<Rightarrow> io_bind (findLogTail logPrefix (Suc seq)) (\<lambda>n. io_return (CreateAt n None))
      | Some es \<Rightarrow>
          io_bind (probeTailFrom logPrefix (Suc seq) None) (\<lambda>(n, passed).
          let win' = es @ [occupant] @ passed in
          io_bind (io_lift (decideInsertTarget win' input)) (\<lambda>replayed.
          case replayed of Some e \<Rightarrow> io_return (Replay e)
          | None \<Rightarrow> io_return (CreateAt n (Some win')))))"

text \<open>The loop of Step 5 with \<open>n\<close> forward probes left.\<close>

fun create_loop ::
  "nat \<Rightarrow> runtime \<Rightarrow> string \<Rightarrow> string \<Rightarrow> commit_input \<Rightarrow> nat \<Rightarrow> log_entry list option \<Rightarrow> created io" where
  "create_loop n rt lsnTimestamp logPrefix input seq win =
     io_bind (create_once rt lsnTimestamp logPrefix input seq) (\<lambda>out.
     case out of
       Won e \<Rightarrow> io_return (CreatedAt seq e)
     | Foreign occupant \<Rightarrow>
         (case n of 0 \<Rightarrow> io_throw Internal
          | Suc n' \<Rightarrow>
              io_bind (forward_probe logPrefix input seq win occupant) (\<lambda>tgt.
              case tgt of Replay e \<Rightarrow> io_return (CreateReplayed e)
              | CreateAt seq' win' \<Rightarrow> create_loop n' rt lsnTimestamp logPrefix input seq' win')))"

declare create_loop.simps [simp del]

section \<open>After the create\<close>

text \<open>
  Step 5a. \<open>True\<close>: the slot was checked against a manifest; \<open>False\<close>: the read failed and the check was
  skipped, which the code counts on \<^verbatim>\<open>db.write.delete_floor_check_skipped_total\<close>.
\<close>

fun isAbortError :: "exn \<Rightarrow> bool" where
  "isAbortError AbortError = True"
| "isAbortError _ = False"

definition assertCommitAboveDeleteFloor :: "string \<Rightarrow> string \<Rightarrow> nat \<Rightarrow> bool io" where
  "assertCommitAboveDeleteFloor currentJsonKey logPrefix seq =
     prog_bind (readCurrentJson currentJsonKey) (\<lambda>rd.
     case rd of
       Inl e \<Rightarrow> if isAbortError e then Ret (Inl e) else io_return False
     | Inr None \<Rightarrow> io_return True
     | Inr (Some (json, _)) \<Rightarrow>
         (let deleteFloor = certifiedDeleteFloor json in
          if deleteFloor = 0 \<or> seq \<ge> deleteFloor then io_return True
          else prog_bind (io_delete (logObjectKey logPrefix seq)) (\<lambda>_. io_throw AmbiguousCommit)))"

definition PREIMAGE_SCAN_MAX_GETS :: nat where "PREIMAGE_SCAN_MAX_GETS = 8"

fun scan_back :: "string \<Rightarrow> string \<Rightarrow> string \<Rightarrow> nat list \<Rightarrow> doc option io" where
  "scan_back logPrefix coll docId [] = io_return None"
| "scan_back logPrefix coll docId (s # rest) =
     io_bind (io_get (logObjectKey logPrefix s)) (\<lambda>got.
     case got of None \<Rightarrow> scan_back logPrefix coll docId rest
     | Some (b, _) \<Rightarrow>
         (case decode_log_entry b of None \<Rightarrow> scan_back logPrefix coll docId rest
          | Some e \<Rightarrow>
              if le_collection e \<noteq> coll \<or> le_doc_id e \<noteq> Some docId then scan_back logPrefix coll docId rest
              else if le_op e = OpD then io_return None
              else (case le_after e of Some d \<Rightarrow> io_return (Some d) | None \<Rightarrow> scan_back logPrefix coll docId rest)))"

definition readPreImage :: "string \<Rightarrow> string \<Rightarrow> string \<Rightarrow> nat \<Rightarrow> doc option io" where
  "readPreImage logPrefix coll docId currentNextSeq =
     scan_back logPrefix coll docId (rev [currentNextSeq - PREIMAGE_SCAN_MAX_GETS ..< currentNextSeq])"

fun delete_ignoring :: "string list \<Rightarrow> unit prog" where
  "delete_ignoring [] = Ret ()"
| "delete_ignoring (k # ks) = prog_bind (io_delete k) (\<lambda>_. delete_ignoring ks)"

definition stale_keys :: "runtime \<Rightarrow> writer \<Rightarrow> string \<Rightarrow> commit_input \<Rightarrow> nat \<Rightarrow> string list io" where
  "stale_keys rt w logPrefix input seq =
     (let keysFor = (\<lambda>d. allIndexKeysFor (rt_stringify rt) logPrefix (w_indexes w) d (ci_docId input)) in
      case ci_op input of
        OpI \<Rightarrow> io_return []
      | OpU \<Rightarrow> io_bind (readPreImage logPrefix (ci_collection input) (ci_docId input) seq) (\<lambda>preImage.
          io_bind (io_lift (keysFor preImage)) (\<lambda>oldKeys.
          io_bind (io_lift (keysFor (ci_body input))) (\<lambda>newKeys.
          io_return (filter (\<lambda>k. k \<notin> set newKeys) oldKeys))))
      | OpD \<Rightarrow> io_bind (readPreImage logPrefix (ci_collection input) (ci_docId input) seq) (\<lambda>preImage.
          io_lift (keysFor preImage)))"

definition cleanupStaleIndexKeysBestEffort :: "runtime \<Rightarrow> writer \<Rightarrow> string \<Rightarrow> commit_input \<Rightarrow> nat \<Rightarrow> nat prog" where
  "cleanupStaleIndexKeysBestEffort rt w logPrefix input seq =
     (if w_indexes w = [] then Ret 0
      else prog_bind (stale_keys rt w logPrefix input seq) (\<lambda>r.
        case r of Inl _ \<Rightarrow> Ret 0
        | Inr ks \<Rightarrow> prog_bind (delete_ignoring ks) (\<lambda>_. Ret (length ks))))"

text \<open>Step 6b.\<close>

definition no_bounded_options :: bounded_options where
  "no_bounded_options = \<lparr>bo_profile = None, bo_minEntriesToCompact = None, bo_phasesPerTick = None,
     bo_gcGraceMillis = None, bo_logRetention = no_retire_options\<rparr>"

definition maintenanceDue :: "maintenance_dispatch option \<Rightarrow> current_json \<Rightarrow> nat \<Rightarrow> nat \<Rightarrow> bool" where
  "maintenanceDue maint current prevSeq observedTail =
     (let profile = (case maint of None \<Rightarrow> None
            | Some m \<Rightarrow> (case md_options m of None \<Rightarrow> None | Some bo \<Rightarrow> bo_profile bo));
          interval = gcInterval (case profile of None \<Rightarrow> MAINTENANCE_PROFILE_CF_FREE | Some pr \<Rightarrow> pr)
      in if (case maint of None \<Rightarrow> False | Some m \<Rightarrow> md_disabled m)
         then int observedTail - int (tail_hint current) \<ge> int MAINTENANCE_TAIL_HINT_REFRESH_WRITES
         else shouldFireMaintenance current prevSeq interval observedTail)"

definition write_tick :: "runtime \<Rightarrow> string \<Rightarrow> maintenance_dispatch option \<Rightarrow> nat \<Rightarrow> nat \<Rightarrow>
   (exn option \<times> fold_deferred_fields list) prog" where
  "write_tick rt key maint prevSeq observedTail =
     runBoundedMaintenance (rt_bytes rt) (rt_sha rt) (rt_clock rt)
       \<lparr>ba_currentJsonKey = key, ba_prevSeq = prevSeq, ba_observedTail = Some observedTail,
        ba_maxFoldBytes = (case maint of None \<Rightarrow> None | Some m \<Rightarrow> md_maxFoldBytes m),
        ba_disabled = (case maint of None \<Rightarrow> False | Some m \<Rightarrow> md_disabled m)\<rparr>
       (case maint of None \<Rightarrow> no_bounded_options
        | Some m \<Rightarrow> (case md_options m of None \<Rightarrow> no_bounded_options | Some bo \<Rightarrow> bo))"

definition dispatch_maintenance :: "runtime \<Rightarrow> string \<Rightarrow> maintenance_dispatch option \<Rightarrow> current_json \<Rightarrow> nat \<Rightarrow> nat \<Rightarrow> unit prog" where
  "dispatch_maintenance rt key maint current prevSeq observedTail =
     (if maintenanceDue maint current prevSeq observedTail \<and>
         (case maint of None \<Rightarrow> True | Some m \<Rightarrow> md_inline m)
      then prog_bind (write_tick rt key maint prevSeq observedTail) (\<lambda>_. Ret ())
      else Ret ())"

section \<open>One attempt\<close>

datatype single_attempt =
    Replayed log_entry string
  | Committed log_entry string bool nat

definition finish_commit ::
  "runtime \<Rightarrow> writer \<Rightarrow> maintenance_dispatch option \<Rightarrow> string \<Rightarrow> commit_input \<Rightarrow> current_json \<Rightarrow> string \<Rightarrow> nat \<Rightarrow> nat \<Rightarrow>
   nat \<Rightarrow> log_entry \<Rightarrow> single_attempt io" where
  "finish_commit rt w maint logPrefix input current baseEtag preCommitTail newKeysClassA seq committedEntry =
     io_bind (assertCommitAboveDeleteFloor (w_currentJsonKey w) logPrefix seq) (\<lambda>checked.
     prog_bind (cleanupStaleIndexKeysBestEffort rt w logPrefix input seq) (\<lambda>staleKeysClassA.
     prog_bind (dispatch_maintenance rt (w_currentJsonKey w) maint current preCommitTail (Suc seq)) (\<lambda>_.
     io_return (Committed committedEntry baseEtag checked (1 + (newKeysClassA + staleKeysClassA))))))"

text \<open>From the target on: mint, markers, create, finish.\<close>

definition create_commit ::
  "runtime \<Rightarrow> writer \<Rightarrow> maintenance_dispatch option \<Rightarrow> string \<Rightarrow> commit_input \<Rightarrow> current_json \<Rightarrow> string \<Rightarrow> nat \<Rightarrow>
   log_entry list option \<Rightarrow> single_attempt io" where
  "create_commit rt w maint logPrefix input current baseEtag preCommitTail win =
     io_bind (io_lift (timestamp (rt_now rt))) (\<lambda>lsnTimestamp.
     io_bind (emit_markers rt w logPrefix input) (\<lambda>newKeysClassA.
     io_bind (create_loop LOG_FORWARD_PROBE_CAP rt lsnTimestamp logPrefix input preCommitTail win) (\<lambda>out.
     case out of CreateReplayed e \<Rightarrow> io_return (Replayed e baseEtag)
     | CreatedAt seq committedEntry \<Rightarrow>
         finish_commit rt w maint logPrefix input current baseEtag preCommitTail newKeysClassA seq committedEntry)))"

definition read_or_provision :: "string \<Rightarrow> string \<Rightarrow> (current_json \<times> string) io" where
  "read_or_provision key generation =
     io_bind (readCurrentJson key) (\<lambda>rd.
     case rd of Some ct \<Rightarrow> io_return ct | None \<Rightarrow> provisionCurrentJson key generation)"

definition walkLog :: "(blob \<Rightarrow> nat) \<Rightarrow> string \<Rightarrow> nat \<Rightarrow> nat \<Rightarrow> unit io" where
  "walkLog bytes logPrefix logSeqStart nextSeq =
     io_bind (walkLogRange bytes logPrefix logSeqStart nextSeq) (\<lambda>_. io_return ())"

definition singleAttemptCommit ::
  "runtime \<Rightarrow> writer \<Rightarrow> maintenance_dispatch option \<Rightarrow> commit_input \<Rightarrow> nat option \<Rightarrow> single_attempt io" where
  "singleAttemptCommit rt w maint input guard =
     (let key = w_currentJsonKey w; logPrefix = dirname key in
      io_bind (read_or_provision key (rt_generation rt)) (\<lambda>(current, baseEtag).
      io_bind (if w_verifyLogIntegrityOnCommit w
               then walkLog (rt_bytes rt) logPrefix (logSeqStartOf current) (tail_hint current)
               else io_return ()) (\<lambda>_.
      io_bind (find_target logPrefix current input guard) (\<lambda>tgt.
      case tgt of Replay e \<Rightarrow> io_return (Replayed e baseEtag)
      | CreateAt preCommitTail win \<Rightarrow> create_commit rt w maint logPrefix input current baseEtag preCommitTail win))))"

definition check_input :: "runtime \<Rightarrow> commit_input \<Rightarrow> nat option result" where
  "check_input rt input =
     result_bind (if ci_op input = OpD then assertStoredDocId (ci_docId input)
                  else assertDocId (rt_normalize rt) (ci_docId input)) (\<lambda>_.
     result_bind (if ci_op input \<noteq> OpD then assertPostImageIdentity (ci_docId input) (ci_body input) InvalidConfig
                  else Inr ()) (\<lambda>_.
     case ci_insertGuard input of None \<Rightarrow> Inr None
     | Some guard \<Rightarrow> result_bind (assertInsertGuardShape input guard) (\<lambda>n. Inr (Some n))))"

definition commit_attempt ::
  "runtime \<Rightarrow> writer \<Rightarrow> maintenance_dispatch option \<Rightarrow> commit_input \<Rightarrow> single_attempt io" where
  "commit_attempt rt w maint input =
     io_bind (io_lift (check_input rt input)) (singleAttemptCommit rt w maint input)"

definition commit :: "runtime \<Rightarrow> writer \<Rightarrow> maintenance_dispatch option \<Rightarrow> commit_input \<Rightarrow> commit_result io" where
  "commit rt w maint input =
     io_bind (commit_attempt rt w maint input) (\<lambda>success.
     io_return (case success of
         Replayed e t \<Rightarrow> \<lparr>entry = e, currentEtag = t\<rparr>
       | Committed e t _ _ \<Rightarrow> \<lparr>entry = e, currentEtag = t\<rparr>))"

end
