(* ===== verification/Commit.thy ===== *)
theory Commit
  imports Writer
begin

text \<open>
  The commit among the other threads: every call it issues keeps the collection's invariant, the entry it
  returns is in the committed history for good, and a guarded insert saw every entry between its
  caller's check and its own slot.
\<close>

section \<open>What a commit has seen\<close>

text \<open>Entry \<open>e\<close> was read at slot \<open>n\<close>: it is still there, or retirement has passed the slot.\<close>

definition seen :: "string \<Rightarrow> store \<Rightarrow> nat \<Rightarrow> log_entry \<Rightarrow> bool" where
  "seen p s n e \<longleftrightarrow> n < delete_floor p (lookup s) \<or> slot p (lookup s) n = Some (BLog e)"

definition seen_from :: "string \<Rightarrow> store \<Rightarrow> nat \<Rightarrow> log_entry list \<Rightarrow> bool" where
  "seen_from p s a es \<longleftrightarrow> (\<forall>i < length es. seen p s (a + i) (es ! i))"

lemma seen_stable:
  assumes "coll_ok p sha B s" "sys_rel p sha B s s'" "seen p s n e"
  shows "seen p s' n e"
  using assms slot_persist [OF assms(1,2)] delete_floor_mono [OF assms(1,2)]
  by (fastforce simp: seen_def not_less)

lemma seen_from_stable:
  "coll_ok p sha B s \<Longrightarrow> sys_rel p sha B s s' \<Longrightarrow> seen_from p s a es \<Longrightarrow> seen_from p s' a es"
  unfolding seen_from_def using seen_stable by blast

lemma seen_from_Nil [simp]: "seen_from p s a []"
  by (simp add: seen_from_def)

lemma seen_from_append:
  "seen_from p s a (xs @ ys) \<longleftrightarrow> seen_from p s a xs \<and> seen_from p s (a + length xs) ys"
  unfolding seen_from_def length_append
proof (intro iffI conjI allI impI; (elim conjE)?)
  fix i assume *: "\<forall>i < length xs + length ys. seen p s (a + i) ((xs @ ys) ! i)"
  { assume "i < length xs" with spec [OF *, of i] show "seen p s (a + i) (xs ! i)" by (simp add: nth_append) }
  { assume "i < length ys" with spec [OF *, of "length xs + i"] show "seen p s (a + length xs + i) (ys ! i)"
      by (simp add: nth_append add.assoc) }
next
  fix i assume "\<forall>i < length xs. seen p s (a + i) (xs ! i)" "\<forall>i < length ys. seen p s (a + length xs + i) (ys ! i)"
    "i < length xs + length ys"
  then show "seen p s (a + i) ((xs @ ys) ! i)"
    by (cases "i < length xs") (auto simp: nth_append dest!: spec [where x = "i - length xs"])
qed

lemma seen_from_Cons: "seen_from p s a (x # xs) \<longleftrightarrow> seen p s a x \<and> seen_from p s (Suc a) xs"
  using seen_from_append [of p s a "[x]" xs] by (simp add: seen_from_def)

text \<open>While retirement has not reached the slots, what was seen is the history.\<close>

lemma seen_from_history:
  assumes "coll_inv p sha B s h" "seen_from p s a es" "delete_floor p (lookup s) \<le> a"
  shows "\<forall>i < length es. a + i < length h \<and> es ! i = h ! (a + i)"
proof (intro allI impI)
  fix i assume "i < length es"
  then have "slot p (lookup s) (a + i) = Some (BLog (es ! i))"
    using assms(2,3) by (auto simp: seen_from_def seen_def)
  moreover have "slot p (lookup s) (a + i) = (if a + i < length h then Some (BLog (h ! (a + i))) else None)"
    using assms by (intro inv_map_slot) (auto simp: coll_inv_def)
  ultimately show "a + i < length h \<and> es ! i = h ! (a + i)" by (auto split: if_splits)
qed

lemma seen_committed:
  assumes "coll_ok p sha B s" "seen p s n e"
  shows "committed p sha B s (Suc n)"
proof (cases "slot p (lookup s) n = None")
  case False
  then show ?thesis using occupied_committed [OF assms(1)] by (auto simp: slot_def)
next
  case True
  with assms(2) have n: "n < delete_floor p (lookup s)" by (simp add: seen_def)
  from assms(1) obtain h where h: "coll_inv p sha B s h" by (auto simp: coll_ok_def)
  then show ?thesis
    using inv_map_floors [of p sha B "lookup s" h] n
    by (auto simp: committed_def coll_inv_def intro!: exI [of _ h])
qed

section \<open>The probe\<close>

lemma wp_probe_loop_seen:
  assumes "coll_ok p sha B s" "committed p sha B s seq"
  shows "wp (sys_rel p sha B) (allowed B) (probe_loop p False n seq entries c)
    (\<lambda>r s'. \<forall>x. r = Inr x \<longrightarrow> committed p sha B s' (chunk_bound x) \<and>
       (case x of AtLeast _ _ _ \<Rightarrow> True
        | Exact m es _ \<Rightarrow> \<exists>more. es = entries @ more \<and> m = seq + length more \<and> seen_from p s' seq more)) s"
  using assms
proof (induction n arbitrary: seq entries s)
  case (Suc n)
  let ?Q = "\<lambda>seq entries r s'. \<forall>x. r = Inr x \<longrightarrow> committed p sha B s' (chunk_bound x) \<and>
       (case x of AtLeast _ _ _ \<Rightarrow> True
        | Exact m es _ \<Rightarrow> \<exists>more. es = entries @ more \<and> m = seq + length more \<and> seen_from p s' seq more)"
  have rec: "wp (sys_rel p sha B) (allowed B) (probe_loop p False n (Suc seq) (entries @ [e]) c) (?Q seq entries) s1"
    if "coll_ok p sha B s1" "committed p sha B s1 (Suc seq)" "slot p (lookup s1) seq = Some (BLog e)" for s1 e
  proof (rule wp_mono [OF col.wp_since [OF Suc.IH [OF that(1,2)]]], intro allI impI, elim conjE)
    fix r s' x assume *: "?Q (Suc seq) (entries @ [e]) r s'" "sys_rel p sha B s1 s'" "r = Inr x"
    have "seen p s' seq e" by (rule seen_stable [OF that(1) *(2)]) (simp add: seen_def that(3))
    then show "committed p sha B s' (chunk_bound x) \<and> (case x of AtLeast _ _ _ \<Rightarrow> True
        | Exact m es _ \<Rightarrow> \<exists>more. es = entries @ more \<and> m = seq + length more \<and> seen_from p s' seq more)"
      using *(1,3) by (cases x) (auto simp: seen_from_Cons)
  qed
  show ?case
    unfolding probe_loop.simps
  proof (rule wp_io_bind, rule col.wp_get, goal_cases)
    case (2 s1)
    with Suc.prems have o: "coll_ok p sha B s1" "committed p sha B s1 seq"
      using coll_ok_stable committed_stable by blast+
    show ?case
    proof (cases "lookup s1 (logObjectKey p seq)")
      case (Some v)
      then have "committed p sha B s1 (Suc seq)" using occupied_committed [OF o(1)] by simp
      then show ?thesis using Some rec [OF o(1)]
        by (cases "body v") (auto simp: slot_def)
    qed (use o in auto)
  qed (use coll_ok_valid [OF Suc.prems(1)] in auto)
qed simp

lemma wp_probeTailFrom_seen:
  assumes "coll_ok p sha B s" "committed p sha B s hint"
  shows "wp (sys_rel p sha B) (allowed B) (probeTailFrom p hint None)
    (\<lambda>r s'. \<forall>x. r = Inr x \<longrightarrow> committed p sha B s' (fst x) \<and> fst x = hint + length (snd x) \<and> seen_from p s' hint (snd x)) s"
  unfolding probeTailFrom_def probeTailChunk_def
  by (rule col.wp_seq [OF wp_probe_loop_seen [OF assms]]) (auto split: tail_probe_chunk.splits)

lemma seen_here: "slot p (lookup s) n = Some (BLog e) \<Longrightarrow> seen p s n e"
  by (simp add: seen_def)

section \<open>The folded part of the window\<close>

lemma wp_get_bodies:
  assumes "coll_ok p sha B s"
  shows "wp (sys_rel p sha B) (allowed B) (get_bodies (map (logObjectKey p) [a ..< b]))
    (\<lambda>r s'. \<forall>x. r = Inr x \<longrightarrow> length x = b - a \<and> (\<forall>es. check_bodies x = Inr es \<longrightarrow> length es = b - a \<and> seen_from p s' a es)) s"
  using assms
proof (induction "b - a" arbitrary: a s)
  case (Suc n)
  let ?Q = "\<lambda>a r s'. \<forall>x. r = Inr x \<longrightarrow> length x = b - a \<and> (\<forall>es. check_bodies x = Inr es \<longrightarrow> length es = b - a \<and> seen_from p s' a es)"
  have up: "[a ..< b] = a # [Suc a ..< b]" using Suc.hyps(2) by (simp add: upt_conv_Cons)
  have one: "wp (sys_rel p sha B) (allowed B) (io_get (logObjectKey p a))
      (\<lambda>r s'. \<forall>x. r = Inr x \<longrightarrow> (\<forall>bl t. x = Some (bl, t) \<longrightarrow> slot p (lookup s') a = Some bl)) s"
    by (rule col.wp_get) (use coll_ok_valid [OF Suc.prems] in \<open>auto simp: slot_def\<close>)
  show ?case
    unfolding up list.map get_bodies.simps
  proof (rule col.wp_seq [OF one])
    fix got s1 assume rel: "sys_rel p sha B s s1" and got: "\<forall>bl t. got = Some (bl, t) \<longrightarrow> slot p (lookup s1) a = Some bl"
    have ok1: "coll_ok p sha B s1" using coll_ok_stable [OF Suc.prems rel] .
    have "wp (sys_rel p sha B) (allowed B) (get_bodies (map (logObjectKey p) [Suc a ..< b])) (?Q (Suc a)) s1"
      using Suc.hyps(1) [OF _ ok1, of "Suc a"] Suc.hyps(2) by simp
    note rest = col.wp_since [OF this]
    show "wp (sys_rel p sha B) (allowed B) (io_bind (get_bodies (map (logObjectKey p) [Suc a ..< b])) (\<lambda>bs. io_return (map_option fst got # bs)))
        (?Q a) s1"
    proof (rule wp_io_bind, rule wp_mono [OF rest], elim conjE)
      fix r s2 assume q: "?Q (Suc a) r s2" and rel2: "sys_rel p sha B s1 s2"
      show "case r of Inl e \<Rightarrow> ?Q a (Inl e) s2
         | Inr bs \<Rightarrow> wp (sys_rel p sha B) (allowed B) (io_return (map_option fst got # bs)) (?Q a) s2"
      proof (cases r)
        case (Inr bs)
        have len: "length bs = b - Suc a" using q Inr by simp
        have "length es = b - a \<and> seen_from p s2 a es" if es: "check_bodies (map_option fst got # bs) = Inr es" for es
        proof -
          obtain bl tg where g: "got = Some (bl, tg)" using es by (cases got) auto
          obtain e where e: "bl = BLog e" using es g by (cases bl) auto
          then obtain es' where es': "es = e # es'" "check_bodies bs = Inr es'"
            using es g by (cases "check_bodies bs") auto
          have "seen p s2 a e"
            by (rule seen_stable [OF ok1 rel2 seen_here]) (use got g e in simp)
          then show ?thesis using q Inr es' Suc.hyps(2) by (simp add: seen_from_Cons)
        qed
        then show ?thesis using Inr len Suc.hyps(2) by simp
      qed simp
    qed
  qed simp
qed simp

lemma wp_window_chunks:
  assumes "coll_ok p sha B s" "a + length entries = chunk" "seen_from p s a entries" "chunk \<le> stop"
  shows "wp (sys_rel p sha B) (allowed B) (window_chunks p chunk stop entries)
    (\<lambda>r s'. \<forall>es. r = Inr es \<longrightarrow> a + length es = stop \<and> seen_from p s' a es) s"
  using assms
proof (induction "stop - chunk" arbitrary: chunk entries s rule: less_induct)
  case less
  let ?to = "min (chunk + MAX_PARALLEL_LOG_READS) stop"
  show ?case
  proof (cases "chunk < stop")
    case True
    have lt: "chunk < ?to" using True by (simp add: MAX_PARALLEL_LOG_READS_def)
    have "wp (sys_rel p sha B) (allowed B) (io_bind (get_bodies (map (logObjectKey p) [chunk ..< ?to])) (\<lambda>bodies.
        io_bind (io_lift (check_bodies bodies)) (\<lambda>es.
        window_chunks p (chunk + MAX_PARALLEL_LOG_READS) stop (entries @ es))))
        (\<lambda>r s'. \<forall>es. r = Inr es \<longrightarrow> a + length es = stop \<and> seen_from p s' a es) s"
    proof (rule col.wp_seq [OF wp_get_bodies [OF less.prems(1)]])
      fix x s1 assume rel: "sys_rel p sha B s s1"
        and x: "length x = ?to - chunk \<and> (\<forall>es. check_bodies x = Inr es \<longrightarrow> length es = ?to - chunk \<and> seen_from p s1 chunk es)"
      have ok1: "coll_ok p sha B s1" using coll_ok_stable [OF less.prems(1) rel] .
      have "wp (sys_rel p sha B) (allowed B) (window_chunks p (chunk + MAX_PARALLEL_LOG_READS) stop (entries @ es))
        (\<lambda>r s'. \<forall>es. r = Inr es \<longrightarrow> a + length es = stop \<and> seen_from p s' a es) s1" if "check_bodies x = Inr es" for es
      proof (cases "chunk + MAX_PARALLEL_LOG_READS \<le> stop")
        case le: True
        show ?thesis
        proof (rule less.hyps [OF _ ok1])
          show "stop - (chunk + MAX_PARALLEL_LOG_READS) < stop - chunk" using lt le by simp
          show "seen_from p s1 a (entries @ es)"
            using seen_from_stable [OF less.prems(1) rel less.prems(3)] x that less.prems(2) by (simp add: seen_from_append)
        qed (use x that le less.prems in auto)
      next
        case False
        have "seen_from p s1 a (entries @ es)"
          using seen_from_stable [OF less.prems(1) rel less.prems(3)] x that less.prems(2) by (simp add: seen_from_append)
        then show ?thesis
          using False x that less.prems by (subst window_chunks.simps) auto
      qed
      then show "wp (sys_rel p sha B) (allowed B) (io_bind (io_lift (check_bodies x)) (\<lambda>es.
        window_chunks p (chunk + MAX_PARALLEL_LOG_READS) stop (entries @ es)))
        (\<lambda>r s'. \<forall>es. r = Inr es \<longrightarrow> a + length es = stop \<and> seen_from p s' a es) s1"
        by (cases "check_bodies x") (auto simp: io_lift_def io_bind_def [of "Ret _"])
    qed simp
    with True show ?thesis by (subst window_chunks.simps) (simp add: Let_def)
  qed (use less.prems in \<open>subst window_chunks.simps, simp\<close>)
qed

lemma wp_readFoldedInsertWindow:
  assumes "coll_ok p sha B s"
  shows "wp (sys_rel p sha B) (allowed B) (readFoldedInsertWindow p a stop)
    (\<lambda>r s'. \<forall>es. r = Inr es \<longrightarrow> a + length es = max a stop \<and> seen_from p s' a es) s"
  unfolding readFoldedInsertWindow_def
  using wp_window_chunks [OF assms, of a "[]" a stop] by (auto simp: max_def elim!: wp_mono)

section \<open>Index markers\<close>

definition index_key :: "string \<Rightarrow> string \<Rightarrow> bool" where
  "index_key p k \<longleftrightarrow> (\<exists>x. k = indexPrefix p @ x)"

lemma allIndexKeysFor_index_key:
  "allIndexKeysFor str p defs d docId = Inr ks \<Longrightarrow> k \<in> set ks \<Longrightarrow> index_key p k"
  by (induction defs arbitrary: ks)
    (auto simp: result_bind_def indexKeyFor_def index_key_def indexPrefix_def split: sum.splits if_splits option.splits)

lemma rel_map_marker:
  assumes "index_key p k"
  shows "rel_map p sha B L (L(k := v))"
proof (rule rel_map_elsewhere)
  fix k' assume "k' = currentKey p \<or> (\<exists>n. k' = logObjectKey p n) \<or> k' = gcPendingKey p \<or> (\<exists>x. k' = snapshotPrefix p @ x)"
  then show "(L(k := v)) k' = L k'" using assms by (auto simp: index_key_def)
qed

lemma wp_put_marker: "index_key p k \<Longrightarrow> safe p sha B (io_put k BEmpty opts) s"
proof (rule col.wp_put)
  fix s1 r s2 assume "index_key p k" and put: "memory_put k BEmpty opts s1 = (r, s2)"
  then have "sys_rel p sha B s1 (snd (memory_put k BEmpty opts s1))"
    by (intro sys_rel_put rel_map_marker)
  then show "sys_rel p sha B s1 s2 \<and> True \<and> (\<forall>e. may_lose_ack e \<longrightarrow> True)" using put by simp
qed simp

lemma wp_put_markers: "\<forall>k \<in> set ks. index_key p k \<Longrightarrow> safe p sha B (put_markers ks) s"
proof (induction ks arbitrary: s)
  case (Cons k ks)
  then show ?case
    unfolding put_markers.simps
    by (intro wp_bind wp_mono [OF wp_put_marker]) (auto intro!: wp_bind wp_mono [OF Cons.IH])
qed simp

lemma wp_delete_ignoring: "\<forall>k \<in> set ks. index_key p k \<Longrightarrow> safe p sha B (delete_ignoring ks) s"
proof (induction ks arbitrary: s)
  case (Cons k ks)
  have *: "safe p sha B (io_delete k) s" for s
  proof (rule col.wp_delete)
    fix s1 s2 :: store and r assume "memory_delete k s1 = (r, s2)"
    then show "sys_rel p sha B s1 s2 \<and> True \<and> (\<forall>e :: exn. True)"
      using sys_rel_delete [OF rel_map_marker, of p k sha B s1] Cons.prems by simp
  qed simp
  show ?case
    unfolding delete_ignoring.simps
    by (rule wp_bind, rule wp_mono [OF *]) (use Cons in auto)
qed simp

lemma wp_emit_markers: "safe p sha B (emit_markers rt w p input) s"
proof -
  have "safe p sha B (prog_bind (put_markers (takeWhile key_fits ks)) (\<lambda>r. case dropWhile key_fits ks of
          k # _ \<Rightarrow> Ret (case assertKeyWithinLimit k of Inl e \<Rightarrow> Inl e | Inr _ \<Rightarrow> Inr 0)
        | [] \<Rightarrow> Ret (case r of Inl e \<Rightarrow> Inl e | Inr _ \<Rightarrow> Inr (length ks)))) s"
    if "allIndexKeysFor (rt_stringify rt) p (w_indexes w) (ci_body input) (ci_docId input) = Inr ks" for ks
    by (intro wp_bind wp_mono [OF wp_put_markers])
      (use allIndexKeysFor_index_key [OF that] in \<open>auto dest!: set_takeWhileD split: list.splits\<close>)
  then show ?thesis
    unfolding emit_markers_def by (auto simp: io_lift_def io_bind_def [of "Ret _"] split: sum.splits)
qed

lemma wp_scan_back: "coll_ok p sha B s \<Longrightarrow> safe p sha B (scan_back p coll d ns) s"
proof (induction ns arbitrary: s)
  case (Cons n ns)
  have *: "safe p sha B (scan_back p coll d ns) s1" if "sys_rel p sha B s s1" for s1
    using Cons.IH coll_ok_stable [OF Cons.prems that] .
  show ?case
    unfolding scan_back.simps
    by (rule wp_io_bind, rule col.wp_get)
      (use coll_ok_valid [OF Cons.prems] * in \<open>auto split: option.splits\<close>)
qed simp

lemma wp_cleanup:
  assumes "coll_ok p sha B s"
  shows "safe p sha B (cleanupStaleIndexKeysBestEffort rt w p input seq) s"
proof -
  have "wp (sys_rel p sha B) (allowed B) (stale_keys rt w p input seq)
      (\<lambda>r s'. \<forall>ks. r = Inr ks \<longrightarrow> (\<forall>k \<in> set ks. index_key p k)) s"
    unfolding stale_keys_def Let_def readPreImage_def
    by (cases "ci_op input")
      (auto intro!: col.wp_seq [where X = "\<lambda>_ _. True"] wp_mono [OF wp_scan_back [OF assms]] wp_io_bind
        simp: io_lift_def split: sum.splits, (metis allIndexKeysFor_index_key)+)
  then show ?thesis
    unfolding cleanupStaleIndexKeysBestEffort_def
    by (auto intro!: wp_bind wp_mono [OF wp_delete_ignoring] elim!: wp_mono split: sum.splits)
qed

section \<open>The create\<close>

definition may_replay :: "commit_input \<Rightarrow> bool" where
  "may_replay input = (case ci_insertGuard input of None \<Rightarrow> False | Some g \<Rightarrow> replayIdentical g)"

lemma decide_replay: "decideInsertTarget win input = Inr (Some e) \<Longrightarrow> may_replay input"
  by (auto simp: decideInsertTarget_def may_replay_def split: option.splits if_splits)

definition live :: "string \<Rightarrow> (blob \<Rightarrow> string) \<Rightarrow> snapshot_body set \<Rightarrow> store \<Rightarrow> bool" where
  "live p sha B s \<longleftrightarrow> coll_ok p sha B s \<and> current_of p (lookup s) \<noteq> None"

lemma live_ok: "live p sha B s \<Longrightarrow> coll_ok p sha B s"
  by (simp add: live_def)

lemma live_stable: "live p sha B s \<Longrightarrow> sys_rel p sha B s s' \<Longrightarrow> live p sha B s'"
  unfolding live_def using coll_ok_stable by (meson coll_ok_def coll_inv_def sys_rel_def rel_map_def)

lemma wp_create:
  assumes live: "live p sha B s" and n: "committed p sha B s n" and e: "le_seq e = n" "entry_ok e"
  shows "wp (sys_rel p sha B) (allowed B) (io_put (logObjectKey p n) (BLog e) create_only)
    (\<lambda>r s'. \<forall>t. r = Inr t \<longrightarrow> seen p s' n e) s"
proof (rule col.wp_put)
  fix s1 r s2 assume rel: "sys_rel p sha B s s1" and put: "memory_put (logObjectKey p n) (BLog e) create_only s1 = (r, s2)"
  have l1: "live p sha B s1" using live_stable [OF live rel] .
  have bound: "n \<le> length h" if "inv_map p sha B (lookup s1) h" for h
    using committed_length [OF committed_stable [OF rel n]] that l1
    by (auto simp: live_def coll_ok_def coll_inv_def)
  have "sys_rel p sha B s1 (snd (memory_put (logObjectKey p n) (BLog e) create_only s1))"
    by (rule sys_rel_put, rule rel_map_commit)
      (use e l1 bound in \<open>auto simp: put_allowed_def live_def\<close>)
  moreover have "seen p s2 n e" if "r = Inr t" for t
  proof -
    from put that have "lookup s2 = (lookup s1)(logObjectKey p n \<mapsto> \<lparr>body = BLog e, etag = t\<rparr>)"
      using memory_put_Inr [of "logObjectKey p n" "BLog e" create_only s1 t s2] by simp
    then show ?thesis by (simp add: seen_def slot_def)
  qed
  ultimately show "sys_rel p sha B s1 s2 \<and> (\<forall>t. r = Inr t \<longrightarrow> seen p s2 n e) \<and>
      (\<forall>x. may_lose_ack x \<longrightarrow> (\<forall>t. Inl x = Inr t \<longrightarrow> seen p s2 n e))" using put by simp
qed simp

lemma wp_readLogOccupant:
  assumes "coll_ok p sha B s"
  shows "wp (sys_rel p sha B) (allowed B) (readLogOccupant (logObjectKey p n))
    (\<lambda>r s'. \<forall>e. r = Inr e \<longrightarrow> seen p s' n e \<and> committed p sha B s' (Suc n)) s"
  unfolding readLogOccupant_def
proof (rule wp_io_bind, rule col.wp_get, goal_cases)
  case (2 s1)
  then have "committed p sha B s1 (Suc n)" if "lookup s1 (logObjectKey p n) \<noteq> None"
    using occupied_committed [OF coll_ok_stable [OF assms] that] by blast
  then show ?case
    by (auto simp: seen_def slot_def split: option.splits elim!: decode_log_entry.elims)
qed (use coll_ok_valid [OF assms] in auto)

lemma entry_wire_seq [simp]: "le_seq (entry_wire e) = le_seq e"
  by (simp add: entry_wire_def)

lemma mintEntry_seq [simp]: "le_seq (mintEntry rt ts input n) = n"
  by (simp add: mintEntry_def)

lemma entry_wire_idem [simp]: "entry_wire (entry_wire e) = entry_wire e"
  by (simp add: entry_wire_def option.map_comp o_def)

text \<open>The window of a guarded insert up to slot \<open>n\<close>: seen in full, and the row is absent at its end.\<close>

definition window_clear :: "string \<Rightarrow> store \<Rightarrow> commit_input \<Rightarrow> nat option \<Rightarrow> log_entry list option \<Rightarrow> nat \<Rightarrow> bool" where
  "window_clear p s input guard win n =
     (case (guard, win) of
        (None, None) \<Rightarrow> True
      | (Some a, Some es) \<Rightarrow> a + length es = n \<and> seen_from p s a es \<and> decideInsertTarget es input = Inr None
      | _ \<Rightarrow> False)"

lemma window_clear_stable:
  "coll_ok p sha B s \<Longrightarrow> sys_rel p sha B s s' \<Longrightarrow> window_clear p s input guard win n \<Longrightarrow> window_clear p s' input guard win n"
  by (auto simp: window_clear_def intro: seen_from_stable split: option.splits)

definition created_ok ::
  "string \<Rightarrow> (blob \<Rightarrow> string) \<Rightarrow> snapshot_body set \<Rightarrow> runtime \<Rightarrow> string \<Rightarrow> commit_input \<Rightarrow> nat option \<Rightarrow> created result \<Rightarrow> store \<Rightarrow> bool" where
  "created_ok p sha B rt ts input guard r s \<longleftrightarrow> (\<forall>n e. r = Inr (CreatedAt n e) \<longrightarrow>
     entry_wire e = entry_wire (mintEntry rt ts input n) \<and>
     (\<exists>e0. seen p s n e0 \<and> entry_wire e0 = entry_wire e) \<and>
     (\<exists>win. window_clear p s input guard win n)) \<and>
     (\<forall>e. r = Inr (CreateReplayed e) \<longrightarrow> may_replay input)"

lemma created_ok_Inl [simp]: "created_ok p sha B rt ts input guard (Inl e) s"
  by (simp add: created_ok_def)

lemma created_ok_Replayed [simp]: "created_ok p sha B rt ts input guard (Inr (CreateReplayed e)) s \<longleftrightarrow> may_replay input"
  by (simp add: created_ok_def)

lemma adopt_eq: "tryAdoptOwnSessionLogEntry self occ = Adopt e \<Longrightarrow> e = occ \<and> entry_wire occ = entry_wire self"
  by (auto simp: tryAdoptOwnSessionLogEntry_def split: if_splits)

lemma entry_ok_minted: "timestamp ms = Inr ts \<Longrightarrow> entry_ok (entry_wire (mintEntry rt ts input n))"
  by (auto simp: entry_ok_def entry_wire_def mintEntry_def mint_lsn_def)

lemma wp_create_once:
  assumes live: "live p sha B s" and n: "committed p sha B s n" and ts: "timestamp ms = Inr ts"
  shows "wp (sys_rel p sha B) (allowed B) (create_once rt ts p input n)
    (\<lambda>r s'. \<forall>x. r = Inr x \<longrightarrow> (case x of
       Won e \<Rightarrow> entry_wire e = entry_wire (mintEntry rt ts input n) \<and> (\<exists>e0. seen p s' n e0 \<and> entry_wire e0 = entry_wire e)
     | Foreign occ \<Rightarrow> seen p s' n occ \<and> committed p sha B s' (Suc n))) s"
proof -
  let ?self = "mintEntry rt ts input n" and ?key = "logObjectKey p n"
  let ?Q = "\<lambda>r s'. \<forall>x. r = Inr x \<longrightarrow> (case x of
       Won e \<Rightarrow> entry_wire e = entry_wire ?self \<and> (\<exists>e0. seen p s' n e0 \<and> entry_wire e0 = entry_wire e)
     | Foreign occ \<Rightarrow> seen p s' n occ \<and> committed p sha B s' (Suc n))"
  have readback: "wp (sys_rel p sha B) (allowed B) (prog_bind (readLogOccupant ?key) (\<lambda>occ.
      case occ of Inl _ \<Rightarrow> io_throw AmbiguousCommit
      | Inr occupant \<Rightarrow> (case tryAdoptOwnSessionLogEntry ?self occupant of
           Adopt e' \<Rightarrow> io_return (Won e') | _ \<Rightarrow> io_return (Foreign occupant)))) ?Q s1" if "coll_ok p sha B s1" for s1
    by (rule wp_bind, rule wp_mono [OF wp_readLogOccupant [OF that]])
      (auto split: sum.splits adoption_decision.splits dest: adopt_eq)
  have put: "wp (sys_rel p sha B) (allowed B) (io_put ?key (BLog (entry_wire ?self)) create_only)
      (\<lambda>r s'. (\<forall>t. r = Inr t \<longrightarrow> seen p s' n (entry_wire ?self)) \<and> coll_ok p sha B s') s"
    by (rule wp_keep_ok [OF wp_create [OF live n]]) (use live entry_ok_minted [OF ts] in \<open>simp_all add: live_def\<close>)
  have "wp (sys_rel p sha B) (allowed B) (prog_bind (io_put ?key (BLog (entry_wire ?self)) create_only) (\<lambda>r.
      case r of Inr _ \<Rightarrow> io_return (Won ?self)
      | Inl e \<Rightarrow> if \<not> isWriteConflict e \<and> (isDefinitiveCreateRejection e \<or> isCreateNotApplied e) then Ret (Inl e)
          else prog_bind (readLogOccupant ?key) (\<lambda>occ. case occ of Inl _ \<Rightarrow> io_throw AmbiguousCommit
            | Inr occupant \<Rightarrow> (case tryAdoptOwnSessionLogEntry ?self occupant of
                   Adopt e' \<Rightarrow> io_return (Won e') | _ \<Rightarrow> io_return (Foreign occupant))))) ?Q s"
    by (rule wp_bind, rule wp_mono [OF put])
      (auto simp: readback split: sum.splits intro!: exI [of _ "entry_wire (mintEntry rt ts input n)"])
  then show ?thesis
    unfolding create_once_def Let_def
    by (cases "assertKeyWithinLimit ?key") (simp_all add: io_lift_def io_bind_def [of "Ret _"])
qed

lemma wp_forward_probe:
  assumes ok: "coll_ok p sha B s" and n: "committed p sha B s (Suc seq)" and occ: "seen p s seq occ"
    and win: "window_clear p s input guard win seq"
  shows "wp (sys_rel p sha B) (allowed B) (forward_probe p input seq win occ)
    (\<lambda>r s'. \<forall>x. r = Inr x \<longrightarrow> (case x of Replay e \<Rightarrow> may_replay input
      | CreateAt m win' \<Rightarrow> committed p sha B s' m \<and> window_clear p s' input guard win' m)) s"
proof (cases win)
  case None
  with win have "guard = None" by (auto simp: window_clear_def split: option.splits)
  with None show ?thesis
    unfolding forward_probe_def None option.case
    by (intro wp_io_bind wp_mono [OF tail.wp_findLogTail [OF ok n]])
      (auto simp: tail.found_def window_clear_def split: sum.splits)
next
  case (Some es)
  with win obtain a where a: "guard = Some a" "a + length es = seq" "seen_from p s a es"
    by (auto simp: window_clear_def split: option.splits)
  show ?thesis
    unfolding forward_probe_def Some option.case
  proof (rule col.wp_seq [OF wp_probeTailFrom_seen [OF ok n]])
    fix x s1 assume rel: "sys_rel p sha B s s1"
      and x: "committed p sha B s1 (fst x) \<and> fst x = Suc seq + length (snd x) \<and> seen_from p s1 (Suc seq) (snd x)"
    have "seen_from p s1 a (es @ [occ] @ snd x)"
      using seen_from_stable [OF ok rel a(3)] seen_stable [OF ok rel occ] x a(2)
      by (simp add: seen_from_append seen_from_Cons)
    then show "wp (sys_rel p sha B) (allowed B) (case x of (n, passed) \<Rightarrow>
        let win' = es @ [occ] @ passed in io_bind (io_lift (decideInsertTarget win' input)) (\<lambda>replayed.
          case replayed of Some e \<Rightarrow> io_return (Replay e) | None \<Rightarrow> io_return (CreateAt n (Some win'))))
      (\<lambda>r s'. \<forall>x. r = Inr x \<longrightarrow> (case x of Replay e \<Rightarrow> may_replay input
        | CreateAt m win' \<Rightarrow> committed p sha B s' m \<and> window_clear p s' input guard win' m)) s1"
      using x a(1,2)
      by (auto simp: io_lift_def io_bind_def [of "Ret _"] window_clear_def Let_def split: prod.splits sum.splits option.splits dest: decide_replay)
  qed simp
qed

lemma wp_create_loop:
  assumes ts: "timestamp ms = Inr ts" and "live p sha B s" "committed p sha B s seq" "window_clear p s input guard win seq"
  shows "wp (sys_rel p sha B) (allowed B) (create_loop n rt ts p input seq win) (created_ok p sha B rt ts input guard) s"
  using assms(2-4)
proof (induction n arbitrary: seq win s rule: less_induct)
  case (less n)
  have ok: "coll_ok p sha B s" using less.prems(1) by (rule live_ok)
  show ?case
    unfolding create_loop.simps [of n]
  proof (rule col.wp_seq [OF wp_create_once [OF less.prems(1,2) ts]])
    fix out s1 assume rel: "sys_rel p sha B s s1" and out: "case out of
       Won e \<Rightarrow> entry_wire e = entry_wire (mintEntry rt ts input seq) \<and> (\<exists>e0. seen p s1 seq e0 \<and> entry_wire e0 = entry_wire e)
     | Foreign occ \<Rightarrow> seen p s1 seq occ \<and> committed p sha B s1 (Suc seq)"
    have win1: "window_clear p s1 input guard win seq" by (rule window_clear_stable [OF ok rel less.prems(3)])
    have ok1: "coll_ok p sha B s1" by (rule coll_ok_stable [OF ok rel])
    show "wp (sys_rel p sha B) (allowed B) (case out of Won e \<Rightarrow> io_return (CreatedAt seq e)
     | Foreign occupant \<Rightarrow> (case n of 0 \<Rightarrow> io_throw Internal
          | Suc n' \<Rightarrow> io_bind (forward_probe p input seq win occupant) (\<lambda>tgt.
              case tgt of Replay e \<Rightarrow> io_return (CreateReplayed e)
              | CreateAt seq' win' \<Rightarrow> create_loop n' rt ts p input seq' win'))) (created_ok p sha B rt ts input guard) s1"
    proof (cases out)
      case (Won e)
      with out win1 show ?thesis by (auto simp: created_ok_def)
    next
      case (Foreign occ)
      show ?thesis
      proof (cases n)
        case (Suc n')
        have "wp (sys_rel p sha B) (allowed B) (io_bind (forward_probe p input seq win occ) (\<lambda>tgt.
              case tgt of Replay e \<Rightarrow> io_return (CreateReplayed e)
              | CreateAt seq' win' \<Rightarrow> create_loop n' rt ts p input seq' win')) (created_ok p sha B rt ts input guard) s1"
          by (rule col.wp_seq [OF wp_forward_probe [OF ok1 _ _ win1]])
            (use Foreign out Suc live_stable [OF live_stable [OF less.prems(1) rel]] in
              \<open>auto intro!: less.IH split: target.splits\<close>)
        then show ?thesis using Foreign Suc by simp
      qed (simp add: Foreign)
    qed
  qed simp
qed

section \<open>The whole commit\<close>

text \<open>An entry in the committed history at its own sequence, as stored.\<close>

definition logged :: "string \<Rightarrow> (blob \<Rightarrow> string) \<Rightarrow> snapshot_body set \<Rightarrow> store \<Rightarrow> log_entry \<Rightarrow> bool" where
  "logged p sha B s e \<longleftrightarrow> (\<exists>h. coll_inv p sha B s h \<and> le_seq e < length h \<and>
     entry_wire (h ! le_seq e) = entry_wire e)"

lemma logged_stable: "logged p sha B s e \<Longrightarrow> sys_rel p sha B s s' \<Longrightarrow> logged p sha B s' e"
proof -
  assume "logged p sha B s e" "sys_rel p sha B s s'"
  then obtain h where h: "coll_inv p sha B s h" "le_seq e < length h" "entry_wire (h ! le_seq e) = entry_wire e"
    by (auto simp: logged_def)
  obtain ext where "coll_inv p sha B s' (h @ ext)" using coll_inv_stable [OF h(1) \<open>sys_rel p sha B s s'\<close>] by blast
  with h show "logged p sha B s' e"
    by (auto simp: logged_def nth_append intro!: exI [of _ "h @ ext"])
qed

lemma seen_logged:
  assumes "coll_ok p sha B s" "seen p s (le_seq e) e0" "entry_wire e0 = entry_wire e"
    and "delete_floor p (lookup s) \<le> le_seq e"
  shows "logged p sha B s e"
proof -
  from assms(1) obtain h where h: "coll_inv p sha B s h" by (auto simp: coll_ok_def)
  then have "slot p (lookup s) (le_seq e) = (if le_seq e < length h then Some (BLog (h ! le_seq e)) else None)"
    using assms(4) by (intro inv_map_slot) (auto simp: coll_inv_def)
  with assms h show ?thesis by (auto simp: seen_def logged_def split: if_splits)
qed

text \<open>Step 5a: a slot that passes a performed check is above the delete floor at that moment.\<close>

lemma wp_floor_check:
  assumes live: "live p sha B s"
  shows "wp (sys_rel p sha B) (allowed B) (assertCommitAboveDeleteFloor (currentKey p) p n)
    (\<lambda>r s'. \<forall>x. r = Inr x \<longrightarrow> x \<longrightarrow> delete_floor p (lookup s') \<le> n) s"
proof -
  have ok: "coll_ok p sha B s" using live by (rule live_ok)
  have floor: "certifiedDeleteFloor c = delete_floor p (lookup s1)"
    if "sys_rel p sha B s s1" "current_of p (lookup s1) = Some (c, t)" for s1 c t
  proof -
    from coll_ok_stable [OF ok that(1)] obtain h where "inv_map p sha B (lookup s1) h"
      by (auto simp: coll_ok_def coll_inv_def)
    then have "delete_floor p (lookup s1) \<le> seq_floor p (lookup s1)" using inv_map_floors by blast
    then show ?thesis using that(2)
      by (simp add: certifiedDeleteFloor_def delete_floor_def seq_floor_def logSeqStartOf_def)
  qed
  have del: "safe p sha B (io_delete (logObjectKey p n)) s1"
    if "sys_rel p sha B s s1" "n < delete_floor p (lookup s1)" for s1
  proof (rule col.wp_delete)
    fix s2 s3 :: store and r assume rel: "sys_rel p sha B s1 s2" "memory_delete (logObjectKey p n) s2 = (r, s3)"
    have "n < delete_floor p (lookup s2)"
      using that(2) delete_floor_mono [OF coll_ok_stable [OF ok that(1)] rel(1)] by simp
    then show "sys_rel p sha B s2 s3 \<and> True \<and> (\<forall>e :: exn. True)"
      using sys_rel_delete [OF rel_map_retire, of n p s2] rel(2) by (metis snd_conv)
  qed simp
  show ?thesis
    unfolding assertCommitAboveDeleteFloor_def
  proof (rule wp_bind, rule wp_mono [OF col.wp_since [OF wp_readCurrent [OF ok]]], elim conjE)
    fix rd :: "(current_json \<times> string) option result" and s1 assume rd: "\<forall>x. rd = Inr x \<longrightarrow> x = current_of p (lookup s1)" and rel: "sys_rel p sha B s s1"
    have here: "current_of p (lookup s1) \<noteq> None" using live_stable [OF live rel] by (simp add: live_def)
    show "wp (sys_rel p sha B) (allowed B) (case rd of
          Inl e \<Rightarrow> if isAbortError e then Ret (Inl e) else io_return False
        | Inr None \<Rightarrow> io_return True
        | Inr (Some (json, _)) \<Rightarrow> (let deleteFloor = certifiedDeleteFloor json in
            if deleteFloor = 0 \<or> deleteFloor \<le> n then io_return True
            else prog_bind (io_delete (logObjectKey p n)) (\<lambda>_. io_throw AmbiguousCommit)))
        (\<lambda>r s'. \<forall>x. r = Inr x \<longrightarrow> x \<longrightarrow> delete_floor p (lookup s') \<le> n) s1"
    proof (cases rd)
      case (Inr x)
      with rd here obtain c t where x: "x = Some (c, t)" "current_of p (lookup s1) = Some (c, t)" by auto
      show ?thesis
        using Inr x floor [OF rel x(2)] del [OF rel]
        by (auto simp: Let_def not_le intro!: wp_bind elim!: wp_mono)
    qed simp
  qed
qed

definition attempt_ok ::
  "string \<Rightarrow> (blob \<Rightarrow> string) \<Rightarrow> snapshot_body set \<Rightarrow> runtime \<Rightarrow> commit_input \<Rightarrow> nat option \<Rightarrow> single_attempt result \<Rightarrow> store \<Rightarrow> bool" where
  "attempt_ok p sha B rt input guard r s \<longleftrightarrow> (\<forall>e t checked k. r = Inr (Committed e t checked k) \<longrightarrow>
     (\<exists>ts. entry_wire e = entry_wire (mintEntry rt ts input (le_seq e))) \<and>
     (\<exists>e0. seen p s (le_seq e) e0 \<and> entry_wire e0 = entry_wire e) \<and>
     (checked \<longrightarrow> logged p sha B s e) \<and>
     (\<exists>win. window_clear p s input guard win (le_seq e))) \<and>
     (\<forall>e t. r = Inr (Replayed e t) \<longrightarrow> may_replay input)"

lemma attempt_ok_stable:
  "coll_ok p sha B s \<Longrightarrow> sys_rel p sha B s s' \<Longrightarrow> attempt_ok p sha B rt input guard r s \<Longrightarrow>
   attempt_ok p sha B rt input guard r s'"
  unfolding attempt_ok_def by (metis logged_stable window_clear_stable seen_stable)

lemma wp_dispatch:
  assumes "coll_ok p (rt_sha rt) B s" "committed p (rt_sha rt) B s n"
  shows "safe p (rt_sha rt) B (dispatch_maintenance rt (currentKey p) maint current prev n) s"
proof -
  have "safe p (rt_sha rt) B (write_tick rt (currentKey p) maint prev n) s"
    unfolding write_tick_def by (rule wp_runBoundedMaintenance [OF assms(1)]) (simp_all add: assms(2))
  then have "safe p (rt_sha rt) B (prog_bind (write_tick rt (currentKey p) maint prev n) (\<lambda>_. Ret ())) s"
    by (rule wp_bind [OF wp_mono]) simp
  then show ?thesis by (simp add: dispatch_maintenance_def)
qed

lemma wp_keep_since:
  assumes "safe p sha B m s2" "coll_ok p sha B s2" "sys_rel p sha B s1 s2"
  shows "wp (sys_rel p sha B) (allowed B) m (\<lambda>_ s. coll_ok p sha B s \<and> sys_rel p sha B s1 s) s2"
proof -
  have "wp (sys_rel p sha B) (allowed B) m (\<lambda>_ s. True \<and> (coll_ok p sha B s \<and> sys_rel p sha B s1 s)) s2"
  proof (rule col.wp_frame [OF assms(1)])
    fix s s' assume "coll_ok p sha B s \<and> sys_rel p sha B s1 s" "sys_rel p sha B s s'"
    then show "coll_ok p sha B s' \<and> sys_rel p sha B s1 s'" using coll_ok_stable col.R_trans by blast
  qed (use assms in simp)
  then show ?thesis by simp
qed

lemma wp_finish_commit:
  assumes live: "live p (rt_sha rt) B s" and key: "w_currentJsonKey w = currentKey p"
    and mint: "entry_wire e = entry_wire (mintEntry rt ts input n)"
    and seen: "seen p s n e0" "entry_wire e0 = entry_wire e" and win: "window_clear p s input guard win n"
  shows "wp (sys_rel p (rt_sha rt) B) (allowed B)
    (finish_commit rt w maint p input current t prev ka n e) (attempt_ok p (rt_sha rt) B rt input guard) s"
proof -
  let ?sha = "rt_sha rt"
  have seq: "le_seq e = n" using arg_cong [OF mint, of le_seq] by simp
  have ok: "coll_ok p ?sha B s" using live by (rule live_ok)
  have tail: "wp (sys_rel p ?sha B) (allowed B) (prog_bind (cleanupStaleIndexKeysBestEffort rt w p input n) (\<lambda>stale.
      prog_bind (dispatch_maintenance rt (currentKey p) maint current prev (Suc n)) (\<lambda>_.
      io_return (Committed e t checked (1 + (ka + stale)))))) (attempt_ok p ?sha B rt input guard) s1"
    if s1: "sys_rel p ?sha B s s1" and floor: "checked \<longrightarrow> delete_floor p (lookup s1) \<le> n" for checked s1
  proof -
    have ok1: "coll_ok p ?sha B s1" by (rule coll_ok_stable [OF ok s1])
    have here: "attempt_ok p ?sha B rt input guard (Inr (Committed e t checked k)) s1" for k
      using mint floor seq seen_stable [OF ok s1 seen(1)] seen(2) window_clear_stable [OF ok s1 win]
        seen_logged [OF ok1, of e e0]
      by (auto simp: attempt_ok_def)
    show ?thesis
    proof (rule wp_bind, rule wp_mono [OF wp_keep_since [OF wp_cleanup [OF ok1] ok1 col.R_refl]], elim conjE)
      fix stale s2 assume s2: "coll_ok p ?sha B s2" "sys_rel p ?sha B s1 s2"
      have "committed p ?sha B s2 (Suc n)"
        by (rule committed_stable [OF s2(2) committed_stable [OF s1 seen_committed [OF ok seen(1)]]])
      then have "safe p ?sha B (dispatch_maintenance rt (currentKey p) maint current prev (Suc n)) s2"
        by (rule wp_dispatch [OF s2(1)])
      note this = wp_keep_since [OF this s2]
      then show "wp (sys_rel p ?sha B) (allowed B) (prog_bind (dispatch_maintenance rt (currentKey p) maint current prev (Suc n))
          (\<lambda>_. io_return (Committed e t checked (1 + (ka + stale))))) (attempt_ok p ?sha B rt input guard) s2"
        by (rule wp_bind [OF wp_mono]) (simp add: attempt_ok_stable [OF ok1 _ here])
    qed
  qed
  show ?thesis
    unfolding finish_commit_def key
    by (rule col.wp_seq [OF wp_floor_check [OF live]], rule tail) (auto simp: attempt_ok_def)
qed

text \<open>Step 1 on a fresh collection.\<close>

lemma wp_provision:
  assumes ok: "coll_ok p sha B s"
  shows "wp (sys_rel p sha B) (allowed B) (provisionCurrentJson (currentKey p) g)
    (\<lambda>r s'. \<forall>x. r = Inr x \<longrightarrow> current_of p (lookup s') = Some x) s"
proof -
  let ?init = "\<lparr>cj_snapshot = None, tail_hint = 0, log_seq_start = 0,
          writer_fence = \<lparr>epoch = 0, owner = [], claimed_at = [], lease_until = None\<rparr>,
          snapshot_bytes = 0, snapshot_rows = 0, mean_entry_bytes = None, last_warned_seq = None,
          log_delete_floor = None, cj_generation = Some g\<rparr> :: current_json"
  have put: "wp (sys_rel p sha B) (allowed B) (io_put (currentKey p) (BJson (encode_current ?init)) create_only)
      (\<lambda>r s'. \<forall>t. r = Inr t \<longrightarrow> current_of p (lookup s') = Some (?init, t)) s" if "valid_current ?init"
  proof (rule col.wp_put)
    fix s1 r s2 assume rel: "sys_rel p sha B s s1" and put: "memory_put (currentKey p) (BJson (encode_current ?init)) create_only s1 = (r, s2)"
    have dec: "decode_current (BJson (encode_current ?init)) = Inr ?init" using that by (simp add: decode_current_def)
    have "sys_rel p sha B s1 (snd (memory_put (currentKey p) (BJson (encode_current ?init)) create_only s1))"
      by (rule sys_rel_put, rule rel_map_provision [where c = ?init]) (use dec in \<open>auto simp: put_allowed_def\<close>)
    moreover have "current_of p (lookup s2) = Some (?init, t)" if "r = Inr t" for t
      using memory_put_Inr [of "currentKey p" _ create_only s1 t s2] put that dec by (fastforce simp: current_of_def)
    ultimately show "sys_rel p sha B s1 s2 \<and> (\<forall>t. r = Inr t \<longrightarrow> current_of p (lookup s2) = Some (?init, t)) \<and>
        (\<forall>e. may_lose_ack e \<longrightarrow> (\<forall>t. Inl e = Inr t \<longrightarrow> current_of p (lookup s2) = Some (?init, t)))" using put by simp
  qed simp
  have create: "wp (sys_rel p sha B) (allowed B) (createCurrentJson (currentKey p) ?init)
      (\<lambda>r s'. \<forall>x. r = Inr x \<longrightarrow> current_of p (lookup s') = Some x) s"
    unfolding createCurrentJson_def
    using assertCurrentJson_encode_valid [of ?init] put
    by (cases "assertCurrentJson (encode_current ?init)")
      (auto simp: io_lift_def io_bind_def [of "Ret _"] intro!: col.wp_seq [OF wp_cas_put])
  show ?thesis
    unfolding provisionCurrentJson_def
    by (rule wp_io_catch, rule wp_mono [OF wp_keep_ok [OF create ok]])
      (auto split: sum.splits option.splits intro!: col.wp_seq [OF wp_readCurrent])
qed

lemma wp_find_target:
  assumes ok: "coll_ok p sha B s" and cur: "committed p sha B s (max (log_seq_start c) (tail_hint c))"
    and guard: "\<And>a. guard = Some a \<Longrightarrow> committed p sha B s a"
  shows "wp (sys_rel p sha B) (allowed B) (find_target p c input guard)
    (\<lambda>r s'. \<forall>x. r = Inr x \<longrightarrow> (case x of Replay e \<Rightarrow> may_replay input
      | CreateAt m win \<Rightarrow> committed p sha B s' m \<and> window_clear p s' input guard win m)) s"
proof (cases guard)
  case None
  then show ?thesis
    unfolding find_target_def None option.case
    using cur
    by (intro wp_io_bind wp_mono [OF tail.wp_findLogTail [OF ok]])
      (auto simp: tail.found_def window_clear_def logSeqStartOf_def split: sum.splits)
next
  case (Some a)
  show ?thesis
    unfolding find_target_def Some option.case
  proof (rule col.wp_seq [OF wp_readFoldedInsertWindow [OF ok]])
    fix folded s1 assume rel: "sys_rel p sha B s s1"
      and folded: "a + length folded = max a (logSeqStartOf c) \<and> seen_from p s1 a folded"
    have ok1: "coll_ok p sha B s1" by (rule coll_ok_stable [OF ok rel])
    have "committed p sha B s (max a (log_seq_start c))"
      using committed_max [OF guard [OF Some] cur]
      by (auto simp: committed_def)
    then have "committed p sha B s1 (max a (logSeqStartOf c))"
      using committed_stable [OF rel] by (simp add: logSeqStartOf_def)
    note probe = wp_probeTailFrom_seen [OF ok1 this]
    show "wp (sys_rel p sha B) (allowed B) (io_bind (probeTailFrom p (max a (logSeqStartOf c)) None) (\<lambda>(n, es).
          io_bind (io_lift (decideInsertTarget (folded @ es) input)) (\<lambda>replayed.
          case replayed of Some e \<Rightarrow> io_return (Replay e)
          | None \<Rightarrow> io_return (CreateAt n (Some (folded @ es))))))
      (\<lambda>r s'. \<forall>x. r = Inr x \<longrightarrow> (case x of Replay e \<Rightarrow> may_replay input
        | CreateAt m win \<Rightarrow> committed p sha B s' m \<and> window_clear p s' input (Some a) win m)) s1"
    proof (rule col.wp_seq [OF probe])
      fix x s2 assume rel2: "sys_rel p sha B s1 s2" and x: "committed p sha B s2 (fst x) \<and>
        fst x = max a (logSeqStartOf c) + length (snd x) \<and> seen_from p s2 (max a (logSeqStartOf c)) (snd x)"
      have f: "seen_from p s2 a folded" using seen_from_stable [OF ok1 rel2] folded by blast
      have "a + length folded = max a (logSeqStartOf c)" using folded by blast
      with f x have "seen_from p s2 a (folded @ snd x)" "a + length (folded @ snd x) = fst x"
        by (simp_all add: seen_from_append)
      then show "wp (sys_rel p sha B) (allowed B) (case x of (n, es) \<Rightarrow>
          io_bind (io_lift (decideInsertTarget (folded @ es) input)) (\<lambda>replayed.
          case replayed of Some e \<Rightarrow> io_return (Replay e) | None \<Rightarrow> io_return (CreateAt n (Some (folded @ es)))))
        (\<lambda>r s'. \<forall>x. r = Inr x \<longrightarrow> (case x of Replay e \<Rightarrow> may_replay input
          | CreateAt m win \<Rightarrow> committed p sha B s' m \<and> window_clear p s' input (Some a) win m)) s2"
        using x
        by (auto simp: io_lift_def io_bind_def [of "Ret _"] window_clear_def dest: decide_replay split: prod.splits sum.splits option.splits)
    qed simp
  qed simp
qed

lemma wp_read_or_provision:
  assumes ok: "coll_ok p sha B s"
  shows "wp (sys_rel p sha B) (allowed B) (read_or_provision (currentKey p) g)
    (\<lambda>r s'. \<forall>x. r = Inr x \<longrightarrow> current_of p (lookup s') = Some x) s"
  unfolding read_or_provision_def
proof (rule col.wp_seq [OF wp_readCurrent [OF ok]])
  fix rd s1 assume rel: "sys_rel p sha B s s1" and rd: "rd = current_of p (lookup s1)"
  show "wp (sys_rel p sha B) (allowed B) (case rd of Some ct \<Rightarrow> io_return ct | None \<Rightarrow> provisionCurrentJson (currentKey p) g)
      (\<lambda>r s'. \<forall>x. r = Inr x \<longrightarrow> current_of p (lookup s') = Some x) s1"
    using wp_provision [OF coll_ok_stable [OF ok rel], of g] rd by (auto split: option.split)
qed simp

lemma wp_walkLog:
  assumes "coll_ok p sha B s"
  shows "safe p sha B (walkLog bytes p a b) s"
proof -
  let ?c = "\<lparr>cj_snapshot = None, tail_hint = 0, log_seq_start = 0, writer_fence = undefined, snapshot_bytes = 0,
    snapshot_rows = 0, mean_entry_bytes = None, last_warned_seq = None, log_delete_floor = None, cj_generation = None\<rparr>"
  have "safe p sha B (read_slots bytes p [a ..< b]) s"
    by (rule wp_mono [OF wp_read_slots [OF assms, of _ ?c]]) auto
  then show ?thesis
    unfolding walkLog_def walkLogRange_def walkLogRangeWithBytes_def walk_chunks_plain
    by (auto intro!: col.wp_seq [where X = "\<lambda>_ _. True"] elim!: wp_mono)
qed

lemma attempt_ok_simps [simp]:
  "attempt_ok p sha B rt input guard (Inl e) s"
  "attempt_ok p sha B rt input guard (Inr (Replayed en t)) s \<longleftrightarrow> may_replay input"
  by (simp_all add: attempt_ok_def)

lemma wp_create_commit:
  assumes s: "live p (rt_sha rt) B s" "committed p (rt_sha rt) B s n" "window_clear p s input guard win n"
    and key: "w_currentJsonKey w = currentKey p"
  shows "wp (sys_rel p (rt_sha rt) B) (allowed B) (create_commit rt w maint p input c t n win)
    (attempt_ok p (rt_sha rt) B rt input guard) s"
proof -
  let ?sha = "rt_sha rt" and ?Q = "attempt_ok p (rt_sha rt) B rt input guard"
  have loop: "wp (sys_rel p ?sha B) (allowed B) (io_bind (create_loop LOG_FORWARD_PROBE_CAP rt ts p input n win) (\<lambda>out.
       case out of CreateReplayed e \<Rightarrow> io_return (Replayed e t)
       | CreatedAt seq e \<Rightarrow> finish_commit rt w maint p input c t n ka seq e)) ?Q s1"
    if ts: "timestamp (rt_now rt) = Inr ts" and s1: "sys_rel p ?sha B s s1" for ts ka s1
  proof -
    have l1: "live p ?sha B s1" "committed p ?sha B s1 n" "window_clear p s1 input guard win n"
      using live_stable [OF s(1) s1] committed_stable [OF s1 s(2)] window_clear_stable [OF live_ok [OF s(1)] s1 s(3)]
      by auto
    have *: "case r of Inl e \<Rightarrow> ?Q (Inl e) s2
        | Inr out \<Rightarrow> wp (sys_rel p ?sha B) (allowed B) (case out of CreateReplayed e \<Rightarrow> io_return (Replayed e t)
            | CreatedAt seq e \<Rightarrow> finish_commit rt w maint p input c t n ka seq e) ?Q s2"
      if "created_ok p ?sha B rt ts input guard r s2" "sys_rel p ?sha B s1 s2" for r s2
      using that(1) wp_finish_commit [OF live_stable [OF l1(1) that(2)] key]
      by (auto simp: created_ok_def split: sum.splits created.splits)
    show ?thesis
      by (rule wp_io_bind, rule wp_mono [OF col.wp_since [OF wp_create_loop [OF ts l1]]]) (use * in blast)
  qed
  have "wp (sys_rel p ?sha B) (allowed B) (io_bind (emit_markers rt w p input) (\<lambda>ka.
       io_bind (create_loop LOG_FORWARD_PROBE_CAP rt ts p input n win) (\<lambda>out.
       case out of CreateReplayed e \<Rightarrow> io_return (Replayed e t)
       | CreatedAt seq e \<Rightarrow> finish_commit rt w maint p input c t n ka seq e))) ?Q s" if "timestamp (rt_now rt) = Inr ts" for ts
    by (rule col.wp_seq [where X = "\<lambda>_ _. True", OF wp_mono [OF wp_emit_markers]]) (simp_all add: loop [OF that])
  then show ?thesis
    unfolding create_commit_def
    by (cases "timestamp (rt_now rt)") (simp_all add: io_lift_def io_bind_def [of "Ret _"])
qed

lemma wp_singleAttemptCommit:
  assumes ok: "coll_ok p (rt_sha rt) B s" and key: "w_currentJsonKey w = currentKey p"
    and guard: "\<And>a. guard = Some a \<Longrightarrow> committed p (rt_sha rt) B s a"
  shows "wp (sys_rel p (rt_sha rt) B) (allowed B) (singleAttemptCommit rt w maint input guard)
    (attempt_ok p (rt_sha rt) B rt input guard) s"
  unfolding singleAttemptCommit_def key Let_def dirname_currentKey
proof (rule col.wp_seq [OF wp_read_or_provision [OF ok]])
  let ?sha = "rt_sha rt" and ?Q = "attempt_ok p (rt_sha rt) B rt input guard"
  fix ct s1 assume rel: "sys_rel p ?sha B s s1" and cur: "current_of p (lookup s1) = Some ct"
  obtain c t where ct: "ct = (c, t)" by fastforce
  have l1: "live p ?sha B s1" using coll_ok_stable [OF ok rel] cur by (simp add: live_def)
  have com: "committed p ?sha B s1 (max (log_seq_start c) (tail_hint c))"
    using current_committed [OF live_ok [OF l1]] cur ct by simp
  have target: "wp (sys_rel p ?sha B) (allowed B) (io_bind (find_target p c input guard) (\<lambda>tgt.
      case tgt of Replay e \<Rightarrow> io_return (Replayed e t)
      | CreateAt n win \<Rightarrow> create_commit rt w maint p input c t n win)) ?Q s2" if rel2: "sys_rel p ?sha B s1 s2" for s2
  proof (rule col.wp_seq [OF wp_find_target])
    show "coll_ok p ?sha B s2" using live_ok [OF live_stable [OF l1 rel2]] .
    show "committed p ?sha B s2 (max (log_seq_start c) (tail_hint c))" by (rule committed_stable [OF rel2 com])
    show "committed p ?sha B s2 a" if "guard = Some a" for a
      by (rule committed_stable [OF rel2 committed_stable [OF rel guard [OF that]]])
    fix tgt s3 assume "sys_rel p ?sha B s2 s3" and "case tgt of Replay e \<Rightarrow> may_replay input
      | CreateAt m win \<Rightarrow> committed p ?sha B s3 m \<and> window_clear p s3 input guard win m"
    then show "wp (sys_rel p ?sha B) (allowed B) (case tgt of Replay e \<Rightarrow> io_return (Replayed e t)
      | CreateAt n win \<Rightarrow> create_commit rt w maint p input c t n win) ?Q s3"
      using live_stable [OF live_stable [OF l1 rel2]] wp_create_commit [OF _ _ _ key] by (auto split: target.splits)
  qed simp
  show "wp (sys_rel p ?sha B) (allowed B) (case ct of (current, baseEtag) \<Rightarrow>
      io_bind (if w_verifyLogIntegrityOnCommit w
               then walkLog (rt_bytes rt) p (logSeqStartOf current) (tail_hint current) else io_return ()) (\<lambda>_.
      io_bind (find_target p current input guard) (\<lambda>tgt.
      case tgt of Replay e \<Rightarrow> io_return (Replayed e baseEtag)
      | CreateAt n win \<Rightarrow> create_commit rt w maint p input current baseEtag n win))) ?Q s1"
    unfolding ct split
    by (rule col.wp_seq [where X = "\<lambda>_ _. True"])
      (use target wp_mono [OF wp_walkLog [OF live_ok [OF l1]]] in auto)
qed simp

text \<open>A caller's guard names a tail it probed.\<close>

definition guard_probed :: "string \<Rightarrow> (blob \<Rightarrow> string) \<Rightarrow> snapshot_body set \<Rightarrow> store \<Rightarrow> commit_input \<Rightarrow> bool" where
  "guard_probed p sha B s input \<longleftrightarrow> (\<forall>g n. ci_insertGuard input = Some g \<longrightarrow> safe_integer (absentBelowSeq g) = Some n \<longrightarrow>
     committed p sha B s n)"

definition guard_of :: "commit_input \<Rightarrow> nat option" where
  "guard_of input = (case ci_insertGuard input of None \<Rightarrow> None | Some g \<Rightarrow> safe_integer (absentBelowSeq g))"

lemma check_input_guard: "check_input rt input = Inr guard \<Longrightarrow> guard = guard_of input"
  by (auto simp: check_input_def guard_of_def result_bind_def assertInsertGuardShape_def
      split: sum.splits if_splits option.splits)

lemma wp_commit_attempt:
  assumes ok: "coll_ok p (rt_sha rt) B s" and key: "w_currentJsonKey w = currentKey p"
    and guard: "guard_probed p (rt_sha rt) B s input"
  shows "wp (sys_rel p (rt_sha rt) B) (allowed B) (commit_attempt rt w maint input)
    (attempt_ok p (rt_sha rt) B rt input (guard_of input)) s"
proof -
  have "committed p (rt_sha rt) B s a" if "guard_of input = Some a" for a
    using guard that by (auto simp: guard_of_def guard_probed_def split: option.splits)
  note single = wp_singleAttemptCommit [OF ok key this]
  show ?thesis
    unfolding commit_attempt_def
    using single check_input_guard [of rt input]
    by (cases "check_input rt input") (auto simp: io_lift_def io_bind_def [of "Ret _"])
qed

end
