(* ===== verification/Capacity.thy ===== *)
theory Capacity
  imports Writer
begin

text \<open>
  \<^verbatim>\<open>packages/server/src/capacity.ts\<close>: the growth refusal the write verbs consult between their read and
  their first commit. It projects the row count and the encoded size of the snapshot over the pending
  tail and the planned writes. Shown here: what it admits, the compactor can fold.
\<close>

section \<open>Model\<close>

definition CAPACITY_BYTES_MARGIN :: nat where "CAPACITY_BYTES_MARGIN = 64"

record planned_write =
  pw_op :: log_op
  pw_docId :: string
  pw_after :: "doc option"
  pw_before :: "doc option"

definition currentFoldCeilings :: "maintenance_dispatch option \<Rightarrow> fold_ceilings" where
  "currentFoldCeilings maint =
     resolveFoldCeilings
       (case maint of None \<Rightarrow> None | Some m \<Rightarrow> (case md_options m of None \<Rightarrow> None | Some bo \<Rightarrow> bo_profile bo))
       (case maint of None \<Rightarrow> None | Some m \<Rightarrow> md_maxFoldBytes m)"

text \<open>
  Counts are integers: a stored figure that disagrees with the rows could drive them below zero.
  \<open>stringify\<close> is \<^verbatim>\<open>encodeJsonBytes\<close>, which omits an undefined member.
\<close>

fun int_below :: "int \<Rightarrow> limit \<Rightarrow> bool" where
  "int_below n (Limit m) = (n < int m)"
| "int_below n Unlimited = True"
| "int_below n NaNLimit = False"

fun int_within_margin :: "int \<Rightarrow> limit \<Rightarrow> bool" where
  "int_within_margin n (Limit m) = (n \<le> int m - int CAPACITY_BYTES_MARGIN)"
| "int_within_margin n Unlimited = True"
| "int_within_margin n NaNLimit = False"

definition rowBytes :: "(json \<Rightarrow> nat list) \<Rightarrow> string option \<Rightarrow> doc \<Rightarrow> nat" where
  "rowBytes stringify docId b =
     length (stringify (JObj ((case docId of None \<Rightarrow> [] | Some i \<Rightarrow> [(''_id'', JStr i)]) @ [(''body'', JObj b)]))) + 1"

definition emptySnapshotBytes :: "(blob \<Rightarrow> nat) \<Rightarrow> string \<Rightarrow> nat" where
  "emptySnapshotBytes bytes coll =
     bytes (BSnap \<lparr>sn_schema_version = SNAPSHOT_SCHEMA_VERSION, sn_min_seq = 0, sn_max_seq = 0,
       sn_collection = coll, sn_docs = []\<rparr>)"

definition isGrowth :: "(json \<Rightarrow> nat list) \<Rightarrow> planned_write \<Rightarrow> bool" where
  "isGrowth stringify w =
     (if pw_op w = OpI then True
      else (case (pw_op w, pw_after w) of
          (OpD, _) \<Rightarrow> False
        | (_, None) \<Rightarrow> False
        | (_, Some a) \<Rightarrow> (case pw_before w of None \<Rightarrow> True
            | Some b \<Rightarrow> rowBytes stringify (Some (pw_docId w)) a > rowBytes stringify (Some (pw_docId w)) b)))"

text \<open>The projection's mutable state; in \<open>overlay\<close>, \<open>None\<close> is \<^verbatim>\<open>null\<close>.\<close>

record projection =
  overlay :: "(string option \<times> nat option) list"
  pr_rows :: int
  pr_bytes :: int
  peakRows :: int
  peakBytes :: int

definition sizeOf :: "(json \<Rightarrow> nat list) \<Rightarrow> (string \<times> doc) list \<Rightarrow> projection \<Rightarrow> string option \<Rightarrow> nat option" where
  "sizeOf stringify base pr docId =
     (case map_of (overlay pr) docId of
        Some known \<Rightarrow> known
      | None \<Rightarrow> (case docId of None \<Rightarrow> None | Some i \<Rightarrow> map_option (rowBytes stringify docId) (map_of base i)))"

definition projectSnapshot :: "(blob \<Rightarrow> nat) \<Rightarrow> current_json \<Rightarrow> string \<Rightarrow> projection" where
  "projectSnapshot bytes head coll =
     (let startBytes = (if snapshot_bytes head = 0 then emptySnapshotBytes bytes coll else snapshot_bytes head)
      in \<lparr>overlay = [], pr_rows = int (snapshot_rows head), pr_bytes = int startBytes,
          peakRows = int (snapshot_rows head), peakBytes = int startBytes\<rparr>)"

definition addsRow :: "(json \<Rightarrow> nat list) \<Rightarrow> (string \<times> doc) list \<Rightarrow> projection \<Rightarrow> log_op \<Rightarrow> string option \<Rightarrow> doc option \<Rightarrow> bool" where
  "addsRow stringify base pr op docId aft \<longleftrightarrow> op \<noteq> OpD \<and> aft \<noteq> None \<and> sizeOf stringify base pr docId = None"

definition apply_write ::
  "(json \<Rightarrow> nat list) \<Rightarrow> (string \<times> doc) list \<Rightarrow> log_op \<Rightarrow> string option \<Rightarrow> doc option \<Rightarrow> projection \<Rightarrow> projection" where
  "apply_write stringify base op docId aft pr =
     (let before = sizeOf stringify base pr docId in
      if op = OpD then
        pr\<lparr>pr_rows := pr_rows pr - (if before = None then 0 else 1),
           pr_bytes := pr_bytes pr - (case before of None \<Rightarrow> 0 | Some b \<Rightarrow> int b),
           overlay := obj_set docId None (overlay pr)\<rparr>
      else (case aft of None \<Rightarrow> pr
        | Some a \<Rightarrow>
            (let next = rowBytes stringify docId a;
                 rows' = pr_rows pr + (if before = None then 1 else 0);
                 bytes' = pr_bytes pr + int next - (case before of None \<Rightarrow> 0 | Some b \<Rightarrow> int b)
             in \<lparr>overlay = obj_set docId (Some next) (overlay pr), pr_rows = rows', pr_bytes = bytes',
                 peakRows = max (peakRows pr) rows', peakBytes = max (peakBytes pr) bytes'\<rparr>)))"

text \<open>The two loops; \<open>None\<close> is the refusal.\<close>

fun project_tail ::
  "(json \<Rightarrow> nat list) \<Rightarrow> (string \<times> doc) list \<Rightarrow> string \<Rightarrow> limit \<Rightarrow> log_entry list \<Rightarrow> projection \<Rightarrow> projection option" where
  "project_tail stringify base coll maxRows [] pr = Some pr"
| "project_tail stringify base coll maxRows (e # es) pr =
     (if le_collection e \<noteq> coll then project_tail stringify base coll maxRows es pr
      else if addsRow stringify base pr (le_op e) (le_doc_id e) (le_after e) \<and> \<not> int_below (pr_rows pr) maxRows then None
      else project_tail stringify base coll maxRows es
             (apply_write stringify base (le_op e) (le_doc_id e) (le_after e) pr))"

fun project_writes ::
  "(json \<Rightarrow> nat list) \<Rightarrow> (string \<times> doc) list \<Rightarrow> fold_ceilings \<Rightarrow> planned_write list \<Rightarrow> projection \<Rightarrow> bool" where
  "project_writes stringify base ceilings [] pr = True"
| "project_writes stringify base ceilings (w # ws) pr =
     (let pr' = apply_write stringify base (pw_op w) (Some (pw_docId w)) (pw_after w) pr in
      if isGrowth stringify w \<and>
         (\<not> int_below (peakRows pr') (ceil_rows ceilings) \<or> \<not> int_within_margin (peakBytes pr') (ceil_bytes ceilings))
      then False
      else project_writes stringify base ceilings ws pr')"

definition capacityRefusal ::
  "(json \<Rightarrow> nat list) \<Rightarrow> (blob \<Rightarrow> nat) \<Rightarrow> string \<Rightarrow> current_json \<Rightarrow> (string \<times> doc) list \<Rightarrow> log_entry list \<Rightarrow>
   planned_write list \<Rightarrow> fold_ceilings \<Rightarrow> exn option" where
  "capacityRefusal stringify bytes coll head base tail_entries writes ceilings =
     (let refuse = Some (BaerlyError CapacityExceeded False) in
      if writes = [] then None
      else if \<not> isFoldViable (snapshot_bytes head) (snapshot_rows head) ceilings then refuse
      else (case project_tail stringify base coll (ceil_rows ceilings) tail_entries (projectSnapshot bytes head coll) of
          None \<Rightarrow> refuse
        | Some pr \<Rightarrow> if project_writes stringify base ceilings writes pr then None else refuse))"

section \<open>The projection follows the fold\<close>

definition tracks :: "(json \<Rightarrow> nat list) \<Rightarrow> (string \<times> doc) list \<Rightarrow> projection \<Rightarrow> (string \<times> doc) list \<Rightarrow> bool" where
  "tracks stringify base pr m \<longleftrightarrow> distinct (obj_keys m) \<and>
     (\<forall>d. sizeOf stringify base pr (Some d) \<noteq> None \<longleftrightarrow> d \<in> set (obj_keys m)) \<and>
     pr_rows pr = int (length m) + (if sizeOf stringify base pr None = None then 0 else 1)"

lemma length_obj_del:
  assumes "distinct (obj_keys m)"
  shows "length (obj_del d m) = (if d \<in> set (obj_keys m) then length m - 1 else length m)"
proof -
  have "obj_keys (obj_del d m) = remove1 d (obj_keys m)"
    by (simp add: obj_keys_del distinct_remove1_removeAll [OF assms] removeAll_filter_not_eq eq_commute)
  then have "length (obj_keys (obj_del d m)) = length (remove1 d (obj_keys m))" by (rule arg_cong)
  then show ?thesis by (simp add: length_remove1)
qed

lemma sizeOf_apply:
  "sizeOf stringify base (apply_write stringify base op d aft pr) d' =
     (if op \<noteq> OpD \<and> aft = None then sizeOf stringify base pr d'
      else if d' = d then (case op of OpD \<Rightarrow> None | _ \<Rightarrow> map_option (rowBytes stringify d) aft)
      else sizeOf stringify base pr d')"
  by (auto simp: sizeOf_def apply_write_def Let_def split: option.splits log_op.splits)

lemma set_obj_keys_del: "set (obj_keys (obj_del d m)) = set (obj_keys m) - {d}"
  by (auto simp: obj_keys_del)

lemma tracks_apply:
  assumes "tracks stringify base pr m" "le_collection e = coll"
  shows "tracks stringify base (apply_write stringify base (le_op e) (le_doc_id e) (le_after e) pr)
    (fold_entry coll None e m)"
proof (cases "le_op e \<noteq> OpD \<and> le_after e = None")
  case True
  then have "fold_entry coll None e m = m" by (auto simp: fold_entry_def split: option.splits log_op.splits)
  moreover have "apply_write stringify base (le_op e) (le_doc_id e) (le_after e) pr = pr"
    using True by (simp add: apply_write_def)
  ultimately show ?thesis using assms(1) by simp
next
  case False
  let ?pr = "apply_write stringify base (le_op e) (le_doc_id e) (le_after e) pr"
  have rows: "pr_rows ?pr = pr_rows pr + (case le_op e of
        OpD \<Rightarrow> if sizeOf stringify base pr (le_doc_id e) = None then 0 else - 1
      | _ \<Rightarrow> if sizeOf stringify base pr (le_doc_id e) = None then 1 else 0)"
    using False by (auto simp: apply_write_def Let_def split: option.splits log_op.splits)
  have dist: "distinct (obj_keys m)" and old: "\<And>d. sizeOf stringify base pr (Some d) \<noteq> None \<longleftrightarrow> d \<in> set (obj_keys m)"
    and n: "pr_rows pr = int (length m) + (if sizeOf stringify base pr None = None then 0 else 1)"
    using assms(1) by (auto simp: tracks_def)
  show ?thesis
  proof (cases "le_doc_id e")
    case None
    then have "fold_entry coll None e m = m" by (simp add: fold_entry_def)
    moreover have "sizeOf stringify base ?pr (Some d) = sizeOf stringify base pr (Some d)" for d
      using None by (simp add: sizeOf_apply)
    moreover have "sizeOf stringify base ?pr None = None \<longleftrightarrow> le_op e = OpD"
      using None False by (auto simp: sizeOf_apply split: log_op.splits)
    ultimately show ?thesis using dist old n rows None by (auto simp: tracks_def split: log_op.splits if_splits)
  next
    case (Some i)
    have none: "sizeOf stringify base ?pr None = sizeOf stringify base pr None" using Some by (simp add: sizeOf_apply)
    show ?thesis
    proof (cases "le_op e = OpD")
      case True
      have f: "fold_entry coll None e m = obj_del i m" using True Some assms(2) by (simp add: fold_entry_def)
      have len: "int (length m - 1) = int (length m) - 1" if "i \<in> set (obj_keys m)"
        using that by (cases m) auto
      show ?thesis
      proof (cases "i \<in> set (obj_keys m)")
        case here: True
        with old [of i] have "sizeOf stringify base pr (Some i) \<noteq> None" by simp
        then show ?thesis
          using here dist old n rows Some True none len [OF here]
          by (simp add: tracks_def f sizeOf_apply set_obj_keys_del length_obj_del del: set_map)
      next
        case away: False
        with old [of i] have "sizeOf stringify base pr (Some i) = None" by auto
        then show ?thesis
          using away dist old n rows Some True none
          by (auto simp: tracks_def f sizeOf_apply set_obj_keys_del length_obj_del simp del: set_map)
      qed
    next
      case op: False
      with False obtain a where a: "le_after e = Some a" by auto
      have f: "fold_entry coll None e m = obj_set i a m"
        using op Some assms(2) a by (auto simp: fold_entry_def split: log_op.splits)
      have z: "sizeOf stringify base pr (Some i) = None \<longleftrightarrow> i \<notin> set (obj_keys m)" using old [of i] by blast
      have k: "set (obj_keys (obj_set i a m)) = insert i (set (obj_keys m))" by simp
      show ?thesis
        using dist old z n rows Some op none a
        by (cases "le_op e"; cases "i \<in> set (obj_keys m)")
          (auto simp: tracks_def f k sizeOf_apply length_obj_set simp del: set_map)
    qed
  qed
qed

text \<open>Where the projection admits an entry, the compactor's fold takes it.\<close>

lemma below_of_tracks: "tracks stringify base pr m \<Longrightarrow> int_below (pr_rows pr) ceil \<Longrightarrow> below_limit (length m) ceil"
  by (cases ceil) (auto simp: tracks_def split: if_splits)

lemma compact_fold_step:
  assumes "\<And>d. le_doc_id e = Some d \<Longrightarrow> le_collection e = coll \<Longrightarrow> le_op e \<noteq> OpD \<Longrightarrow> le_after e \<noteq> None \<Longrightarrow>
      d \<notin> set (obj_keys m) \<Longrightarrow> below_limit (length m) ceil"
  shows "compact_fold coll ceil (e # es) m k = compact_fold coll ceil es (fold_entry coll None e m) (Suc k)"
  using assms by (auto simp: compact_fold_entry split: option.splits)

lemma tracks_adds:
  assumes "tracks stringify base pr m" "le_doc_id e = Some d" "le_op e \<noteq> OpD" "le_after e \<noteq> None" "d \<notin> set (obj_keys m)"
  shows "addsRow stringify base pr (le_op e) (le_doc_id e) (le_after e)"
  using assms by (auto simp: addsRow_def tracks_def)

lemma project_tail_folds:
  assumes "tracks stringify base pr m" "project_tail stringify base coll maxRows es pr = Some pr'"
  shows "compact_fold coll maxRows (es @ fs) m k =
      compact_fold coll maxRows fs (foldLogEntriesOnto m es coll None) (k + length es) \<and>
    tracks stringify base pr' (foldLogEntriesOnto m es coll None)"
  using assms
proof (induction es arbitrary: pr m k)
  case (Cons e es)
  let ?m = "fold_entry coll None e m"
  have fold: "foldLogEntriesOnto m (e # es) coll None = foldLogEntriesOnto ?m es coll None"
    by (simp add: foldLogEntriesOnto_def)
  obtain q where q: "tracks stringify base q ?m" "project_tail stringify base coll maxRows es q = Some pr'"
    and step: "compact_fold coll maxRows (e # es @ fs) m k = compact_fold coll maxRows (es @ fs) ?m (Suc k)" for k
  proof (cases "le_collection e = coll")
    case False
    then have "?m = m" by (simp add: fold_entry_def)
    with False Cons.prems that [of pr] show ?thesis
      by (simp add: compact_fold_step [of e coll] del: compact_fold.simps)
  next
    case True
    show ?thesis
    proof (rule that [OF tracks_apply [OF Cons.prems(1) True]])
      show "project_tail stringify base coll maxRows es
          (apply_write stringify base (le_op e) (le_doc_id e) (le_after e) pr) = Some pr'"
        using Cons.prems(2) True by (simp split: if_splits)
      show "compact_fold coll maxRows (e # es @ fs) m k = compact_fold coll maxRows (es @ fs) ?m (Suc k)" for k
      proof (rule compact_fold_step)
        fix d assume "le_doc_id e = Some d" "le_op e \<noteq> OpD" "le_after e \<noteq> None" "d \<notin> set (obj_keys m)"
        then have "addsRow stringify base pr (le_op e) (le_doc_id e) (le_after e)"
          by (rule tracks_adds [OF Cons.prems(1)])
        then show "below_limit (length m) maxRows"
          using Cons.prems True by (auto intro!: below_of_tracks split: if_splits)
      qed
    qed
  qed
  show ?case using Cons.IH [OF q, of "Suc k"] step fold by simp
qed (simp_all add: foldLogEntriesOnto_def)

text \<open>What a verb plans: an update only of a row that is there when its turn comes.\<close>

fun planned_live :: "string set \<Rightarrow> planned_write list \<Rightarrow> bool" where
  "planned_live rows [] = True"
| "planned_live rows (w # ws) =
     ((pw_op w = OpU \<longrightarrow> pw_docId w \<in> rows) \<and>
      planned_live (if pw_op w = OpD then rows - {pw_docId w}
                    else if pw_after w = None then rows else insert (pw_docId w) rows) ws)"

definition commits :: "string \<Rightarrow> planned_write \<Rightarrow> log_entry \<Rightarrow> bool" where
  "commits coll w e \<longleftrightarrow> le_collection e = coll \<and> le_op e = pw_op w \<and> le_doc_id e = Some (pw_docId w) \<and> le_after e = pw_after w"

lemma keys_fold_entry:
  assumes "commits coll w e"
  shows "set (obj_keys (fold_entry coll None e m)) =
    (if pw_op w = OpD then set (obj_keys m) - {pw_docId w}
     else if pw_after w = None then set (obj_keys m) else insert (pw_docId w) (set (obj_keys m)))"
  using assms by (cases "pw_op w") (auto simp: commits_def fold_entry_def obj_keys_del split: option.splits)

lemma peak_rows: "pr_rows pr \<le> peakRows pr \<Longrightarrow> pr_rows (apply_write str base op d aft pr) \<le> peakRows (apply_write str base op d aft pr)"
  by (auto simp: apply_write_def Let_def split: option.splits)

lemma int_below_mono: "int_below n l \<Longrightarrow> m \<le> n \<Longrightarrow> int_below m l"
  by (cases l) auto

lemma project_writes_fold:
  assumes "tracks stringify base pr m" "project_writes stringify base ceilings ws pr" "pr_rows pr \<le> peakRows pr"
    and "planned_live (set (obj_keys m)) ws" "list_all2 (commits coll) ws es"
  shows "compact_fold coll (ceil_rows ceilings) es m k = (foldLogEntriesOnto m es coll None, k + length es)"
  using assms
proof (induction ws arbitrary: pr m es k)
  case (Cons w ws)
  from Cons.prems(5) obtain e es' where es: "es = e # es'" "commits coll w e" "list_all2 (commits coll) ws es'"
    by (auto simp: list_all2_Cons1)
  then have e: "le_collection e = coll" "le_op e = pw_op w" "le_doc_id e = Some (pw_docId w)" "le_after e = pw_after w"
    by (simp_all add: commits_def)
  let ?pr = "apply_write stringify base (pw_op w) (Some (pw_docId w)) (pw_after w) pr" and ?m = "fold_entry coll None e m"
  have ok: "project_writes stringify base ceilings ws ?pr"
    and grow: "isGrowth stringify w \<Longrightarrow> int_below (peakRows ?pr) (ceil_rows ceilings)"
    using Cons.prems(2) by (auto simp: Let_def split: if_splits)
  have "below_limit (length m) (ceil_rows ceilings)"
    if "le_op e \<noteq> OpD" "le_after e \<noteq> None" "pw_docId w \<notin> set (obj_keys m)"
  proof -
    from that Cons.prems(4) e(2) have "pw_op w = OpI" by (cases "pw_op w") auto
    then have "int_below (peakRows ?pr) (ceil_rows ceilings)" by (intro grow) (simp add: isGrowth_def)
    moreover have "pr_rows pr \<le> peakRows ?pr"
      using that e Cons.prems(3) by (auto simp: apply_write_def Let_def)
    ultimately have "int_below (pr_rows pr) (ceil_rows ceilings)" by (rule int_below_mono)
    then show ?thesis by (rule below_of_tracks [OF Cons.prems(1)])
  qed
  then have "compact_fold coll (ceil_rows ceilings) (e # es') m k = compact_fold coll (ceil_rows ceilings) es' ?m (Suc k)"
    using e(3) by (intro compact_fold_step) auto
  also have "\<dots> = (foldLogEntriesOnto ?m es' coll None, Suc k + length es')"
  proof (rule Cons.IH [OF _ ok peak_rows [OF Cons.prems(3)] _ es(3)])
    show "tracks stringify base ?pr ?m" using tracks_apply [OF Cons.prems(1) e(1)] e by simp
    show "planned_live (set (obj_keys ?m)) ws"
      using Cons.prems(4) by (simp add: keys_fold_entry [OF es(2)] del: set_map)
  qed
  finally show ?case by (simp add: es(1) foldLogEntriesOnto_def)
qed (simp add: foldLogEntriesOnto_def)

lemma compact_fold_within:
  "within_limit (length base) ceil \<Longrightarrow> compact_fold coll ceil es base k = (m, n) \<Longrightarrow> within_limit (length m) ceil"
proof (induction es arbitrary: base k)
  case (Cons e es)
  have "within_limit (length (fold_entry coll None e base)) ceil"
    if "\<not> (case le_doc_id e of None \<Rightarrow> False | Some d \<Rightarrow> le_collection e = coll \<and> le_op e \<noteq> OpD \<and> le_after e \<noteq> None \<and>
              d \<notin> set (obj_keys base) \<and> \<not> below_limit (length base) ceil)"
    using that Cons.prems(1) order_trans [OF length_obj_del_le]
    by (cases ceil) (auto simp: fold_entry_def length_obj_set split: option.splits log_op.splits if_splits)
  with Cons show ?case by (auto simp: compact_fold_entry Let_def split: if_splits)
qed simp

lemma tracks_start:
  assumes "snapshot_rows head = length base" "distinct (obj_keys base)"
  shows "tracks stringify base (projectSnapshot bytes head coll) base"
  using assms by (auto simp: tracks_def projectSnapshot_def Let_def sizeOf_def map_of_eq_None_iff image_iff)

section \<open>The projection follows the encoded size\<close>

text \<open>
  What JSON says of the encoded body: its header of an empty snapshot, the digits of \<^verbatim>\<open>max_seq\<close> beyond
  the one of zero, and the rows as \<^verbatim>\<open>rowBytes\<close> counts them, each with a separator but the last.
\<close>

definition row_sum :: "(json \<Rightarrow> nat list) \<Rightarrow> (string \<times> doc) list \<Rightarrow> nat" where
  "row_sum stringify m = sum_list (map (\<lambda>(i, d). rowBytes stringify (Some i) d) m)"

definition snapshot_sizes :: "(json \<Rightarrow> nat list) \<Rightarrow> (blob \<Rightarrow> nat) \<Rightarrow> string \<Rightarrow> bool" where
  "snapshot_sizes stringify bytes coll \<longleftrightarrow>
     (\<forall>n m. bytes (BSnap (canonical_body coll n m)) + (if m = [] then 0 else 1) =
        emptySnapshotBytes bytes coll + (length (show_nat n) - 1) + row_sum stringify m)"

text \<open>The figures of a manifest whose snapshot holds the rows \<open>base\<close>, as the compactor stores them.\<close>

definition head_figures :: "(blob \<Rightarrow> nat) \<Rightarrow> string \<Rightarrow> current_json \<Rightarrow> (string \<times> doc) list \<Rightarrow> bool" where
  "head_figures bytes coll head base \<longleftrightarrow> snapshot_rows head = length base \<and>
     (if snapshot_bytes head = 0 then base = []
      else snapshot_bytes head = bytes (BSnap (canonical_body coll (log_seq_start head) base)))"

lemma row_sum_set:
  "int (row_sum stringify (obj_set i a m)) = int (row_sum stringify m) + int (rowBytes stringify (Some i) a)
     - (case map_of m i of None \<Rightarrow> 0 | Some b \<Rightarrow> int (rowBytes stringify (Some i) b))"
  by (induction m) (auto simp: row_sum_def)

lemma row_sum_del:
  assumes "distinct (obj_keys m)"
  shows "int (row_sum stringify (obj_del i m)) = int (row_sum stringify m)
     - (case map_of m i of None \<Rightarrow> 0 | Some b \<Rightarrow> int (rowBytes stringify (Some i) b))"
  using assms
proof (induction m)
  case (Cons r m)
  have "obj_del i m = m" if "i \<notin> fst ` set m"
    using that by (force simp: obj_del_def intro!: filter_True)
  with Cons show ?case by (cases r) (auto simp: row_sum_def obj_del_def split: option.splits)
qed (simp add: row_sum_def obj_del_def)

text \<open>The projection over a list of entries, and what it keeps: up to the constant \<open>K\<close> it counts the rows' bytes.\<close>

definition project_entry :: "(json \<Rightarrow> nat list) \<Rightarrow> (string \<times> doc) list \<Rightarrow> string \<Rightarrow> log_entry \<Rightarrow> projection \<Rightarrow> projection" where
  "project_entry stringify base coll e pr =
     (if le_collection e \<noteq> coll then pr else apply_write stringify base (le_op e) (le_doc_id e) (le_after e) pr)"

definition sized ::
  "int \<Rightarrow> (json \<Rightarrow> nat list) \<Rightarrow> (string \<times> doc) list \<Rightarrow> projection \<Rightarrow> (string \<times> doc) list \<Rightarrow> bool" where
  "sized K stringify base pr m \<longleftrightarrow> distinct (obj_keys m) \<and> pr_bytes pr \<le> peakBytes pr \<and>
     (\<forall>d. sizeOf stringify base pr (Some d) = map_option (rowBytes stringify (Some d)) (map_of m d)) \<and>
     pr_bytes pr = K + int (row_sum stringify m)
       + (case sizeOf stringify base pr None of None \<Rightarrow> 0 | Some b \<Rightarrow> int b)"

lemma bytes_apply:
  "pr_bytes (apply_write stringify base op d aft pr) = pr_bytes pr
     + (if op = OpD then 0 else case aft of None \<Rightarrow> 0 | Some a \<Rightarrow> int (rowBytes stringify d a))
     - (if op \<noteq> OpD \<and> aft = None then 0 else case sizeOf stringify base pr d of None \<Rightarrow> 0 | Some b \<Rightarrow> int b)"
  by (auto simp: apply_write_def Let_def split: option.splits)

lemma peak_bytes:
  "pr_bytes pr \<le> peakBytes pr \<Longrightarrow>
     pr_bytes (apply_write stringify base op d aft pr) \<le> peakBytes (apply_write stringify base op d aft pr)"
  by (auto simp: apply_write_def Let_def split: option.splits)

lemma peak_mono: "peakBytes pr \<le> peakBytes (project_entry stringify base coll e pr)"
  by (auto simp: project_entry_def apply_write_def Let_def split: option.splits)

lemma peak_mono_all: "peakBytes pr \<le> peakBytes (fold (project_entry stringify base coll) es pr)"
  by (induction es arbitrary: pr) (auto intro: order_trans [OF peak_mono])

lemma sized_entry:
  assumes "sized K stringify base pr m"
  shows "sized K stringify base (project_entry stringify base coll e pr) (fold_entry coll None e m)"
proof (cases "le_collection e \<noteq> coll \<or> le_op e \<noteq> OpD \<and> le_after e = None")
  case True
  then have "fold_entry coll None e m = m" by (auto simp: fold_entry_def split: option.splits log_op.splits)
  moreover have "project_entry stringify base coll e pr = pr"
    using True by (auto simp: project_entry_def apply_write_def)
  ultimately show ?thesis using assms by simp
next
  case False
  let ?pr = "apply_write stringify base (le_op e) (le_doc_id e) (le_after e) pr"
  have pr: "project_entry stringify base coll e pr = ?pr" using False by (simp add: project_entry_def)
  have dist: "distinct (obj_keys m)" and rows: "\<And>d. sizeOf stringify base pr (Some d) = map_option (rowBytes stringify (Some d)) (map_of m d)"
    and n: "pr_bytes pr = K + int (row_sum stringify m) + (case sizeOf stringify base pr None of None \<Rightarrow> 0 | Some b \<Rightarrow> int b)"
    and peak: "pr_bytes ?pr \<le> peakBytes ?pr"
    using assms peak_bytes by (auto simp: sized_def)
  show ?thesis
  proof (cases "le_doc_id e")
    case None
    then have "fold_entry coll None e m = m" by (simp add: fold_entry_def)
    then show ?thesis using dist rows n peak None False unfolding pr sized_def
      by (auto simp: sizeOf_apply bytes_apply split: option.splits log_op.splits)
  next
    case (Some i)
    show ?thesis
    proof (cases "le_op e = OpD")
      case True
      have f: "fold_entry coll None e m = obj_del i m" using True Some False by (simp add: fold_entry_def)
      show ?thesis using dist rows n peak Some True unfolding pr sized_def f
        by (auto simp: sizeOf_apply bytes_apply row_sum_del split: option.splits)
    next
      case op: False
      with False obtain a where a: "le_after e = Some a" by auto
      have f: "fold_entry coll None e m = obj_set i a m"
        using op Some False a by (auto simp: fold_entry_def split: log_op.splits)
      show ?thesis using dist rows n peak Some op a unfolding pr sized_def f
        by (auto simp: sizeOf_apply bytes_apply row_sum_set split: option.splits log_op.splits)
    qed
  qed
qed

lemma sized_entries:
  "sized K stringify base pr m \<Longrightarrow>
     sized K stringify base (fold (project_entry stringify base coll) es pr) (foldLogEntriesOnto m es coll None)"
  by (induction es arbitrary: pr m) (simp_all add: foldLogEntriesOnto_def sized_entry)

lemma project_tail_fold:
  "project_tail stringify base coll maxRows es pr = Some pr' \<Longrightarrow> pr' = fold (project_entry stringify base coll) es pr"
  by (induction es arbitrary: pr) (auto simp: project_entry_def split: if_splits)

lemma project_writes_peak:
  assumes "project_writes stringify base ceilings ws pr" "list_all2 (commits coll) ws es"
    and "j < length ws" "isGrowth stringify (ws ! j)"
  shows "int_within_margin (peakBytes (fold (project_entry stringify base coll) (take (Suc j) es) pr)) (ceil_bytes ceilings)"
  using assms
proof (induction ws arbitrary: pr es j)
  case (Cons w ws)
  from Cons.prems(2) obtain e es' where es: "es = e # es'" "commits coll w e" "list_all2 (commits coll) ws es'"
    by (auto simp: list_all2_Cons1)
  then have e: "project_entry stringify base coll e pr = apply_write stringify base (pw_op w) (Some (pw_docId w)) (pw_after w) pr"
    by (simp add: project_entry_def commits_def)
  show ?case
    using Cons.prems Cons.IH [OF _ es(3)] by (cases j) (auto simp: es(1) e Let_def split: if_splits)
qed simp

text \<open>A fold of at most \<open>MAX_SEQ\<close> entries writes a \<^verbatim>\<open>max_seq\<close> of at most twelve digits, well inside the margin.\<close>

lemma body_within:
  assumes sizes: "snapshot_sizes stringify bytes coll" and figures: "head_figures bytes coll head base"
    and m: "sized (pr_bytes (projectSnapshot bytes head coll) - int (row_sum stringify base)) stringify base pr m"
    and margin: "int_within_margin (peakBytes pr) ceil" and n: "n \<le> MAX_SEQ"
  shows "within_limit (bytes (BSnap (canonical_body coll n m))) ceil"
proof -
  have "length (show_nat n) \<le> 12"
    using show_nat_length [of 12 n] n by (simp add: MAX_SEQ_def SEQ_DIGITS_def)
  then have now: "bytes (BSnap (canonical_body coll n m)) \<le> emptySnapshotBytes bytes coll + 11 + row_sum stringify m"
    using sizes [unfolded snapshot_sizes_def, THEN spec, THEN spec, of n m] by (simp split: if_splits)
  have "int (emptySnapshotBytes bytes coll) + int (row_sum stringify base) \<le> pr_bytes (projectSnapshot bytes head coll) + 1"
    using figures sizes [unfolded snapshot_sizes_def, THEN spec, THEN spec, of "log_seq_start head" base]
    by (auto simp: head_figures_def projectSnapshot_def Let_def row_sum_def split: if_splits)
  moreover have "pr_bytes (projectSnapshot bytes head coll) - int (row_sum stringify base) + int (row_sum stringify m) \<le> peakBytes pr"
    using m by (auto simp: sized_def split: option.splits)
  ultimately show ?thesis using now margin by (cases ceil) (auto simp: CAPACITY_BYTES_MARGIN_def)
qed

lemma sized_start:
  "distinct (obj_keys base) \<Longrightarrow>
     sized (pr_bytes (projectSnapshot bytes head coll) - int (row_sum stringify base)) stringify base
       (projectSnapshot bytes head coll) base"
  by (auto simp: sized_def projectSnapshot_def Let_def sizeOf_def)

lemma admitted_bytes_within:
  assumes tl: "project_tail stringify base coll maxRows tail_entries (projectSnapshot bytes head coll) = Some pr"
    and ws: "project_writes stringify base ceilings ws pr"
    and head: "head_figures bytes coll head base" "distinct (obj_keys base)" "snapshot_sizes stringify bytes coll"
    and com: "list_all2 (commits coll) ws es" and j: "j < length ws" "isGrowth stringify (ws ! j)"
    and qr: "tail_entries @ take (Suc j) es = q @ r" and n: "n \<le> MAX_SEQ"
  shows "within_limit (bytes (BSnap (canonical_body coll n (foldLogEntriesOnto base q coll None)))) (ceil_bytes ceilings)"
proof -
  let ?p = "fold (project_entry stringify base coll)" and ?pr0 = "projectSnapshot bytes head coll"
  have "?p (take (Suc j) es) pr = ?p r (?p q ?pr0)"
    using arg_cong [OF qr, of "\<lambda>xs. ?p xs ?pr0"] by (simp add: project_tail_fold [OF tl])
  then have "int_within_margin (peakBytes (?p q ?pr0)) (ceil_bytes ceilings)"
    using project_writes_peak [OF ws com j] peak_mono_all [of "?p q ?pr0" stringify base coll r]
    by (cases "ceil_bytes ceilings") auto
  then show ?thesis
    using body_within [OF head(3,1) sized_entries [OF sized_start [OF head(2)]] _ n] by blast
qed

lemma project_tail_peak:
  "project_tail stringify base coll l xs q = Some q' \<Longrightarrow> pr_rows q \<le> peakRows q \<Longrightarrow> pr_rows q' \<le> peakRows q'"
  by (induction xs arbitrary: q) (auto simp: peak_rows split: if_splits)

section \<open>Properties\<close>

text \<open>
  (C40) Writes the capacity check admits never stall the compactor. Let the manifest's row and byte
  figures be those of its snapshot, and let the encoded size of a body be its header plus its rows, as
  JSON writes them. Then the compactor's row-bounded fold, run over the pending tail followed by the
  admitted writes, takes every entry, gives exactly the folded state the readers see, and ends within
  the row ceiling. And wherever a fold lands up to an admitted growing write (any prefix of the tail
  and the writes up to it, any \<^verbatim>\<open>max_seq\<close> of twelve digits), the body it would PUT encodes within the byte ceiling.
\<close>

theorem admitted_writes_fold:
  assumes "capacityRefusal stringify bytes coll head base tail_entries ws ceilings = None" "ws \<noteq> []"
    and "head_figures bytes coll head base" "distinct (obj_keys base)" "snapshot_sizes stringify bytes coll"
    and "planned_live (set (obj_keys (foldLogEntriesOnto base tail_entries coll None))) ws"
    and "list_all2 (commits coll) ws es"
  shows "compact_fold coll (ceil_rows ceilings) (tail_entries @ es) base 0 =
      (foldLogEntriesOnto base (tail_entries @ es) coll None, length tail_entries + length es) \<and>
    within_limit (length (foldLogEntriesOnto base (tail_entries @ es) coll None)) (ceil_rows ceilings) \<and>
    (\<forall>j < length ws. isGrowth stringify (ws ! j) \<longrightarrow>
      (\<forall>q r n. tail_entries @ take (Suc j) es = q @ r \<longrightarrow> n \<le> MAX_SEQ \<longrightarrow>
         within_limit (bytes (BSnap (canonical_body coll n (foldLogEntriesOnto base q coll None)))) (ceil_bytes ceilings)))"
proof -
  obtain pr where viable: "isFoldViable (snapshot_bytes head) (snapshot_rows head) ceilings"
    and tl: "project_tail stringify base coll (ceil_rows ceilings) tail_entries (projectSnapshot bytes head coll) = Some pr"
    and ws: "project_writes stringify base ceilings ws pr"
    using assms(1,2) by (auto simp: capacityRefusal_def Let_def split: if_splits option.splits)
  have rows: "snapshot_rows head = length base" using assms(3) by (simp add: head_figures_def)
  note tail_folds = project_tail_folds [OF tracks_start [OF rows assms(4)] tl]
  have "pr_rows pr \<le> peakRows pr" by (rule project_tail_peak [OF tl]) (simp add: projectSnapshot_def Let_def)
  note writes_fold = project_writes_fold [OF conjunct2 [OF tail_folds] ws this assms(6,7)]
  have f: "compact_fold coll (ceil_rows ceilings) (tail_entries @ es) base 0 =
      (foldLogEntriesOnto base (tail_entries @ es) coll None, length tail_entries + length es)"
    by (simp add: tail_folds writes_fold fold_append)
  moreover have "within_limit (length (foldLogEntriesOnto base (tail_entries @ es) coll None)) (ceil_rows ceilings)"
    by (rule compact_fold_within [OF _ f]) (use viable rows in \<open>simp add: isFoldViable_def\<close>)
  ultimately show ?thesis using admitted_bytes_within [OF tl ws assms(3-5,7)] by blast
qed

definition small_head :: current_json where
  "small_head = \<lparr>cj_snapshot = None, tail_hint = 0, log_seq_start = 0,
     writer_fence = \<lparr>epoch = 0, owner = [], claimed_at = [], lease_until = None\<rparr>,
     snapshot_bytes = 0, snapshot_rows = 0, mean_entry_bytes = None, last_warned_seq = None,
     log_delete_floor = None, cj_generation = None\<rparr>"

definition small_entry :: "log_op \<Rightarrow> string \<Rightarrow> nat \<Rightarrow> log_entry" where
  "small_entry op d n = \<lparr>le_lsn = [], le_commit_ts = [], le_op = op, le_collection = ''c'', le_doc_id = Some d,
     le_after = (if op = OpD then None else Some []), le_origin = None, le_session = ''s'', le_seq = n\<rparr>"

definition small_bytes :: "blob \<Rightarrow> nat" where
  "small_bytes b = (case b of
     BSnap sb \<Rightarrow> 70 + length (show_nat (sn_max_seq sb)) + 30 * length (sn_docs sb) - (if sn_docs sb = [] then 0 else 1)
   | _ \<Rightarrow> 0)"

theorem admitted_writes_fold_witness:
  "compact_fold ''c'' (Limit 3) ([small_entry OpI ''a'' 0] @ [small_entry OpI ''b'' 1]) [] 0 =
     (foldLogEntriesOnto [] ([small_entry OpI ''a'' 0] @ [small_entry OpI ''b'' 1]) ''c'' None, 1 + 1) \<and>
   small_bytes (BSnap (canonical_body ''c'' 2
     (foldLogEntriesOnto [] ([small_entry OpI ''a'' 0] @ [small_entry OpI ''b'' 1]) ''c'' None))) \<le> 200"
proof -
  let ?ws = "[\<lparr>pw_op = OpI, pw_docId = ''b'', pw_after = Some [], pw_before = None\<rparr>]" and ?es = "[small_entry OpI ''b'' 1]"
  let ?tl = "[small_entry OpI ''a'' 0]" and ?str = "\<lambda>_ :: json. replicate 29 (0 :: nat)" and ?c = "\<lparr>ceil_bytes = Limit 200, ceil_rows = Limit 3\<rparr>"
  have len: "0 < length (show_nat n)" for n by simp
  have empty: "emptySnapshotBytes small_bytes ''c'' = 71"
    by (simp add: emptySnapshotBytes_def small_bytes_def toString_radix.simps)
  have admit: "capacityRefusal ?str small_bytes ''c'' small_head [] ?tl ?ws ?c = None"
    by (simp add: capacityRefusal_def isFoldViable_def small_head_def small_entry_def projectSnapshot_def
      addsRow_def sizeOf_def apply_write_def rowBytes_def empty isGrowth_def CAPACITY_BYTES_MARGIN_def)
  have "sum_list (map (\<lambda>(i, d). 30) m) = 30 * length m" for m :: "(string \<times> doc) list" by (induction m) auto
  moreover have "sort_key fst m = [] \<longleftrightarrow> m = []" for m :: "(string \<times> doc) list" by (metis length_0_conv length_sort)
  ultimately have sizes: "snapshot_sizes ?str small_bytes ''c''"
    using len by (auto simp: snapshot_sizes_def empty row_sum_def rowBytes_def small_bytes_def canonical_body_def
        Suc_leI case_prod_unfold)
  have figures: "head_figures small_bytes ''c'' small_head []" by (simp add: head_figures_def small_head_def)
  have live: "planned_live (set (obj_keys (foldLogEntriesOnto [] ?tl ''c'' None))) ?ws" by simp
  have com: "list_all2 (commits ''c'') ?ws ?es" by (simp add: commits_def small_entry_def)
  note ok = admitted_writes_fold [OF admit _ figures _ sizes live com]
  have "isGrowth ?str (?ws ! 0)" by (simp add: isGrowth_def)
  then show ?thesis
    using ok conjunct2 [OF conjunct2 [OF ok], rule_format, of 0 "?tl @ ?es" "[]" 2] by (simp add: MAX_SEQ_def SEQ_DIGITS_def del: compact_fold.simps)
qed

end
