(* ===== verification/Reader.thy ===== *)
theory Reader
  imports Capacity
begin

text \<open>
  \<^verbatim>\<open>packages/server/src/query.ts\<close>: the read that folds snapshot and log, the index walk, and the four
  mutation verbs, each a read followed by checks and commits. A collection is named by its read
  context; the schema validator is a parameter of it (\<open>True\<close>: no issues).
\<close>

section \<open>Context and cursor\<close>

record read_context =
  ctx_prefix :: string
  ctx_name :: string
  ctx_schema :: "(doc \<Rightarrow> bool) option"
  ctx_indexes :: "index_definition list"

datatype direction = Asc | Desc

record query_state =
  qs_wire :: "predicate_wire option"
  qs_order :: "(string \<times> direction) list option"
  qs_limit :: "int option"

definition fnv_step :: "char \<Rightarrow> 64 word \<Rightarrow> 64 word" where
  "fnv_step c hash = semiring_bit_operations_class.xor hash (of_nat (of_char c)) * 1099511628211"

definition manifestPointerDigest :: "string \<Rightarrow> string" where
  "manifestPointerDigest seed =
     padStart 13 (CHR ''0'') (toString_radix 36 (unat (fold fnv_step seed 14695981039346656037)))"

definition MANIFEST_POINTER_EMPTY_SNAPSHOT :: string where
  "MANIFEST_POINTER_EMPTY_SNAPSHOT = ''none''"

definition serializeManifestPointer :: "current_json \<Rightarrow> nat \<Rightarrow> string" where
  "serializeManifestPointer json tailSeq =
     ''m1:'' @ manifestPointerDigest
       ((case cj_snapshot json of None \<Rightarrow> MANIFEST_POINTER_EMPTY_SNAPSHOT | Some k \<Rightarrow> k) @ ''|'' @
        show_nat (log_seq_start json) @ ''|'' @ show_nat (tail_hint json) @ ''|'' @
        show_nat (snapshot_bytes json) @ ''|'' @ show_nat (snapshot_rows json) @ ''|'' @ show_nat tailSeq)"

definition id_wire :: "string \<Rightarrow> predicate_wire" where
  "id_wire i = [\<lparr>pc_op = PEq, pc_field = ''_id'', pc_value = JStr i\<rparr>]"

definition singleIdFromPredicate :: "predicate_wire option \<Rightarrow> string option" where
  "singleIdFromPredicate wire =
     (case wire of
        Some [c] \<Rightarrow> if pc_op c \<noteq> PEq \<or> pc_field c \<noteq> ''_id'' then None
                   else (case pc_value c of JStr s \<Rightarrow> Some s | _ \<Rightarrow> None)
      | _ \<Rightarrow> None)"

section \<open>Filter, order, limit\<close>

fun filter_result :: "('a \<Rightarrow> bool result) \<Rightarrow> 'a list \<Rightarrow> 'a list result" where
  "filter_result f [] = Inr []"
| "filter_result f (x # xs) =
     result_bind (f x) (\<lambda>b. result_bind (filter_result f xs) (\<lambda>ys. Inr (if b then x # ys else ys)))"

fun compare_rows :: "coercions \<Rightarrow> (string \<times> direction) list \<Rightarrow> doc \<Rightarrow> doc \<Rightarrow> int" where
  "compare_rows co [] a b = 0"
| "compare_rows co ((field, dir) # rest) a b =
     (case (map_of a field, map_of b field) of
        (None, None) \<Rightarrow> compare_rows co rest a b
      | (None, Some _) \<Rightarrow> if dir = Desc then 1 else - 1
      | (Some _, None) \<Rightarrow> if dir = Desc then - 1 else 1
      | (Some av, Some bv) \<Rightarrow>
          if strict_eq av bv \<or> typeof av = ''object'' \<or> typeof bv = ''object'' then compare_rows co rest a b
          else (let cmp = (if js_less co av bv then - 1 else 1) in if dir = Desc then - cmp else cmp))"

text \<open>A stable sort; the comparator decides it when it is consistent.\<close>

fun insert_row :: "(doc \<Rightarrow> doc \<Rightarrow> int) \<Rightarrow> string \<times> doc \<Rightarrow> (string \<times> doc) list \<Rightarrow> (string \<times> doc) list" where
  "insert_row cmp x [] = [x]"
| "insert_row cmp x (y # ys) = (if cmp (snd x) (snd y) > 0 then y # insert_row cmp x ys else x # y # ys)"

definition sortByOrderSpec ::
  "coercions \<Rightarrow> (string \<times> doc) list \<Rightarrow> (string \<times> direction) list \<Rightarrow> (string \<times> doc) list" where
  "sortByOrderSpec co rows spec = foldr (insert_row (compare_rows co spec)) rows []"

text \<open>\<^verbatim>\<open>rows.slice(0, n)\<close> when \<^verbatim>\<open>n < rows.length\<close>; a negative end counts from the back.\<close>

definition apply_limit :: "int option \<Rightarrow> 'a list \<Rightarrow> 'a list" where
  "apply_limit n_max rows =
     (case n_max of None \<Rightarrow> rows
      | Some n \<Rightarrow> if n < int (length rows) then take (nat (if n < 0 then int (length rows) + n else n)) rows else rows)"

definition order_and_limit :: "coercions \<Rightarrow> query_state \<Rightarrow> (string \<times> doc) list \<Rightarrow> (string \<times> doc) list" where
  "order_and_limit co state rows =
     apply_limit (qs_limit state)
       (case qs_order state of None \<Rightarrow> rows | Some spec \<Rightarrow> sortByOrderSpec co rows spec)"

section \<open>The index walk\<close>

definition RANGE_EXCLUSIVE_LOWER_SENTINEL :: string where "RANGE_EXCLUSIVE_LOWER_SENTINEL = ''~''"

definition ends_json :: "string \<Rightarrow> bool" where
  "ends_json s \<longleftrightarrow> length s \<ge> 5 \<and> drop (length s - 5) s = ''.json''"

text \<open>The document id in the last segment of a key's tail.\<close>

definition doc_id_of_tail :: "string \<Rightarrow> string option" where
  "doc_id_of_tail rest =
     (if \<not> ends_json rest then None
      else (let last_seg = (if CHR ''/'' \<in> set rest then after_last (CHR ''/'') rest else rest);
                docId = take (length last_seg - 5) last_seg
            in if docId = [] then None else Some docId))"

definition walk_ids :: "string \<Rightarrow> string list \<Rightarrow> string list" where
  "walk_ids pre ks = List.map_filter (\<lambda>k. doc_id_of_tail (drop (length pre) k)) ks"

text \<open>The range loop: skip below the lower bound, stop past the upper one.\<close>

fun range_ids :: "string \<Rightarrow> string option \<Rightarrow> string option \<Rightarrow> bool \<Rightarrow> string list \<Rightarrow> string list" where
  "range_ids pre lo hi hiInc [] = []"
| "range_ids pre lo hi hiInc (k # ks) =
     (let rest = drop (length pre) k in
      if CHR ''/'' \<notin> set rest then range_ids pre lo hi hiInc ks
      else
        (let valueSeg = takeWhile (\<lambda>c. c \<noteq> CHR ''/'') rest in
         if (case lo of None \<Rightarrow> False | Some l \<Rightarrow> valueSeg < l) then range_ids pre lo hi hiInc ks
         else if (case hi of None \<Rightarrow> False | Some h \<Rightarrow> if hiInc then valueSeg > h else valueSeg \<ge> h) then []
         else
           (let last_seg = after_last (CHR ''/'') rest;
                docId = take (length last_seg - 5) last_seg
            in if \<not> ends_json last_seg \<or> docId = [] then range_ids pre lo hi hiInc ks
               else docId # range_ids pre lo hi hiInc ks)))"

fun in_ids :: "(json \<Rightarrow> nat list) \<Rightarrow> string \<Rightarrow> json list \<Rightarrow> string list io" where
  "in_ids stringify eqPrefix [] = io_return []"
| "in_ids stringify eqPrefix (v # vs) =
     io_bind (io_lift (encodeIndexValue stringify v)) (\<lambda>seg.
     let valPrefix = eqPrefix @ seg @ ''/'' in
     io_bind (io_list valPrefix None None) (\<lambda>es.
     io_bind (in_ids stringify eqPrefix vs) (\<lambda>ids.
     io_return (walk_ids valPrefix (map fst es) @ ids))))"

definition encode_bound :: "(json \<Rightarrow> nat list) \<Rightarrow> json option \<Rightarrow> string option result" where
  "encode_bound stringify v =
     (case v of None \<Rightarrow> Inr None | Some x \<Rightarrow> result_bind (encodeIndexValue stringify x) (\<lambda>s. Inr (Some s)))"

definition list_index ::
  "(json \<Rightarrow> nat list) \<Rightarrow> string \<Rightarrow> (string \<times> range_op_info) option \<Rightarrow> (string \<times> json list) option \<Rightarrow> string list io" where
  "list_index stringify eqPrefix rangeOn inOn =
     (case (rangeOn, inOn) of
        (Some (_, r), _) \<Rightarrow>
          io_bind (io_lift (encode_bound stringify (ro_lo r))) (\<lambda>lo.
          io_bind (io_lift (encode_bound stringify (ro_hi r))) (\<lambda>hi.
          io_bind (io_list eqPrefix
            (case lo of Some l \<Rightarrow> if \<not> loInclusive r then Some (eqPrefix @ l @ ''/'' @ RANGE_EXCLUSIVE_LOWER_SENTINEL) else None
             | None \<Rightarrow> None) None) (\<lambda>es.
          io_return (range_ids eqPrefix lo hi (hiInclusive r) (map fst es)))))
      | (None, Some (_, vs)) \<Rightarrow> in_ids stringify eqPrefix vs
      | (None, None) \<Rightarrow> io_bind (io_list eqPrefix None None) (\<lambda>es. io_return (walk_ids eqPrefix (map fst es))))"

definition dedup :: "'a list \<Rightarrow> 'a list" where
  "dedup xs = rev (fold (\<lambda>x acc. if x \<in> set acc then acc else x # acc) xs [])"

definition load_base :: "runtime \<Rightarrow> current_json \<Rightarrow> string \<Rightarrow> (string \<times> doc) list io" where
  "load_base rt head name =
     (case cj_snapshot head of None \<Rightarrow> io_return [] | Some k \<Rightarrow> loadSnapshotAsMap (rt_sha rt) k name)"

text \<open>The rows, the tail, and what was folded.\<close>

type_synonym walk_result =
  "(string \<times> doc) list \<times> nat \<times> ((string \<times> doc) list \<times> log_entry list) option"

definition match_rows :: "predicate_wire option \<Rightarrow> (string \<times> doc) list \<Rightarrow> (string \<times> doc) list result" where
  "match_rows wire rows =
     (case wire of None \<Rightarrow> Inr rows | Some w \<Rightarrow> filter_result (\<lambda>(_, d). matchesWire w d) rows)"

definition eq_prefix :: "string \<Rightarrow> string \<Rightarrow> string list \<Rightarrow> string" where
  "eq_prefix collectionPrefix indexName segments =
     collectionPrefix @ ''/index/'' @ indexName @ ''/'' @ (if segments = [] then [] else join_slash segments @ ''/'')"

definition runIndexWalkPlan ::
  "runtime \<Rightarrow> read_context \<Rightarrow> current_json \<Rightarrow> query_state \<Rightarrow> string \<Rightarrow> json list \<Rightarrow> (string \<times> range_op_info) option \<Rightarrow>
   (string \<times> json list) option \<Rightarrow> walk_result io" where
  "runIndexWalkPlan rt ctx head state indexName equalityKeys rangeOn inOn =
     io_bind (io_lift (result_map (encodeIndexValue (rt_stringify rt)) equalityKeys)) (\<lambda>encodedSegments.
     io_bind (list_index (rt_stringify rt) (eq_prefix (ctx_prefix ctx) indexName encodedSegments) rangeOn inOn) (\<lambda>found.
     io_bind (probeTailFrom (ctx_prefix ctx) (max (logSeqStartOf head) (tail_hint head)) None) (\<lambda>(tailSeq, probed).
     let matched = dedup found in
     if matched = [] then io_return ([], tailSeq, None)
     else
       io_bind (load_base rt head (ctx_name ctx)) (\<lambda>baseDocs.
       io_bind (walkLogRange (rt_bytes rt) (ctx_prefix ctx) (logSeqStartOf head) (tail_hint head)) (\<lambda>entries.
       let seeded = List.map_filter (\<lambda>i. map_option (Pair i) (map_of baseDocs i)) matched;
           docs = foldLogEntriesOnto (foldLogEntriesOnto seeded entries (ctx_name ctx) (Some (set matched)))
                    probed (ctx_name ctx) (Some (set matched))
       in io_bind (io_lift (match_rows (qs_wire state) docs)) (\<lambda>rows.
          io_return (rows, tailSeq, Some (baseDocs, entries @ probed))))))))"

section \<open>The read\<close>

record read_rows =
  rr_rows :: "(string \<times> doc) list"
  rr_manifestPointer :: string
  rr_tail :: nat
  rr_folded :: "(current_json \<times> (string \<times> doc) list \<times> log_entry list) option"

text \<open>Steps 2 to 4 of the full scan.\<close>

definition scan_rows :: "query_state \<Rightarrow> (string \<times> doc) list \<Rightarrow> (string \<times> doc) list result" where
  "scan_rows state docs =
     (case singleIdFromPredicate (qs_wire state) of
        Some i \<Rightarrow> Inr (case map_of docs i of None \<Rightarrow> [] | Some d \<Rightarrow> [(i, d)])
      | None \<Rightarrow> match_rows (qs_wire state) docs)"

definition full_scan :: "runtime \<Rightarrow> read_context \<Rightarrow> current_json \<Rightarrow> query_state \<Rightarrow> walk_result io" where
  "full_scan rt ctx head state =
     io_bind (load_base rt head (ctx_name ctx)) (\<lambda>baseDocs.
     io_bind (walkLogRange (rt_bytes rt) (ctx_prefix ctx) (logSeqStartOf head) (tail_hint head)) (\<lambda>entries.
     io_bind (probeTailFrom (ctx_prefix ctx) (max (logSeqStartOf head) (tail_hint head)) None) (\<lambda>(tailSeq, probed).
     let docs = foldLogEntriesOnto (foldLogEntriesOnto baseDocs entries (ctx_name ctx) None) probed (ctx_name ctx) None
     in io_bind (io_lift (scan_rows state docs)) (\<lambda>rows.
        io_return (rows, tailSeq, Some (baseDocs, entries @ probed))))))"

definition runReadRows :: "runtime \<Rightarrow> read_context \<Rightarrow> query_state \<Rightarrow> read_rows io" where
  "runReadRows rt ctx state =
     io_bind (readCurrentJson (ctx_prefix ctx @ ''/current.json'')) (\<lambda>rd.
     case rd of
       None \<Rightarrow> io_return \<lparr>rr_rows = [], rr_manifestPointer = ''m1:0000000000000'', rr_tail = 0, rr_folded = None\<rparr>
     | Some (head, _) \<Rightarrow>
         io_bind (case planQuery (rt_coercions rt) (qs_wire state) (ctx_indexes ctx) of
             IndexWalk indexName keys rangeOn inOn \<Rightarrow> runIndexWalkPlan rt ctx head state indexName keys rangeOn inOn
           | FullScan _ \<Rightarrow> full_scan rt ctx head state) (\<lambda>(rows, tailSeq, folded).
         io_return \<lparr>rr_rows = order_and_limit (rt_coercions rt) state rows,
           rr_manifestPointer = serializeManifestPointer head tailSeq, rr_tail = tailSeq,
           rr_folded = map_option (\<lambda>(base, es). (head, base, es)) folded\<rparr>))"

definition runRead :: "runtime \<Rightarrow> read_context \<Rightarrow> query_state \<Rightarrow> (doc list \<times> string) io" where
  "runRead rt ctx state =
     io_bind (runReadRows rt ctx state) (\<lambda>res. io_return (map snd (rr_rows res), rr_manifestPointer res))"

definition id_state :: "string \<Rightarrow> int option \<Rightarrow> query_state" where
  "id_state i n_max = \<lparr>qs_wire = Some (id_wire i), qs_order = None, qs_limit = n_max\<rparr>"

definition runByIdWithMeta :: "runtime \<Rightarrow> read_context \<Rightarrow> string \<Rightarrow> (doc list \<times> string) io" where
  "runByIdWithMeta rt ctx i = runRead rt ctx (id_state i (Some 1))"

section \<open>The chain\<close>

definition query_where :: "query_state \<Rightarrow> doc \<Rightarrow> query_state result" where
  "query_where state p =
     result_bind (normalizeObject p []) (\<lambda>clauses.
     result_bind (validateWire (encode_wire clauses)) (\<lambda>incoming.
     result_bind (case qs_wire state of None \<Rightarrow> Inr clauses | Some w \<Rightarrow> mergePredicateWires w clauses) (\<lambda>w.
     Inr (state\<lparr>qs_wire := Some w\<rparr>))))"

definition query_first :: "runtime \<Rightarrow> read_context \<Rightarrow> query_state \<Rightarrow> doc option io" where
  "query_first rt ctx state =
     io_bind (runRead rt ctx (state\<lparr>qs_limit := Some 1\<rparr>)) (\<lambda>(rows, _).
     io_return (case rows of [] \<Rightarrow> None | r # _ \<Rightarrow> Some r))"

definition query_all :: "runtime \<Rightarrow> read_context \<Rightarrow> query_state \<Rightarrow> doc list io" where
  "query_all rt ctx state = io_bind (runRead rt ctx state) (\<lambda>(rows, _). io_return rows)"

definition query_count :: "runtime \<Rightarrow> read_context \<Rightarrow> query_state \<Rightarrow> nat io" where
  "query_count rt ctx state = io_bind (runRead rt ctx state) (\<lambda>(rows, _). io_return (length rows))"

section \<open>Mutations\<close>

definition writerFor :: "read_context \<Rightarrow> writer result" where
  "writerFor ctx = new_writer (ctx_prefix ctx @ ''/current.json'') (ctx_indexes ctx) False"

definition validateOrThrow :: "(doc \<Rightarrow> bool) option \<Rightarrow> doc \<Rightarrow> unit result" where
  "validateOrThrow schema candidate =
     (case schema of None \<Rightarrow> Inr () | Some valid \<Rightarrow> if valid candidate then Inr () else throw SchemaError)"

definition refuseOverCapacity ::
  "runtime \<Rightarrow> maintenance_dispatch option \<Rightarrow> read_context \<Rightarrow>
   (current_json \<times> (string \<times> doc) list \<times> log_entry list) option \<Rightarrow> planned_write list \<Rightarrow> unit result" where
  "refuseOverCapacity rt maint ctx folded writes =
     (case folded of None \<Rightarrow> Inr ()
      | Some (head, base, es) \<Rightarrow>
          (case capacityRefusal (rt_stringify rt) (rt_bytes rt) (ctx_name ctx) head base es writes (currentFoldCeilings maint) of
             None \<Rightarrow> Inr () | Some e \<Rightarrow> Inl e))"

definition commit_one :: "runtime \<Rightarrow> maintenance_dispatch option \<Rightarrow> read_context \<Rightarrow> commit_input \<Rightarrow> commit_result io" where
  "commit_one rt maint ctx input = io_bind (io_lift (writerFor ctx)) (\<lambda>w. commit rt w maint input)"

definition insert_id :: "runtime \<Rightarrow> doc \<Rightarrow> string" where
  "insert_id rt d = (case map_of d ''_id'' of Some (JStr s) \<Rightarrow> if s \<noteq> [] then s else rt_uuidv7 rt | _ \<Rightarrow> rt_uuidv7 rt)"

text \<open>The checks before any I/O; the post-image is returned.\<close>

definition insert_checks :: "runtime \<Rightarrow> read_context \<Rightarrow> doc \<Rightarrow> string option \<Rightarrow> doc result" where
  "insert_checks rt ctx d mintedId =
     (let i = insert_id rt d; post = obj_set ''_id'' (JStr i) d in
      result_bind (assertDocId (rt_normalize rt) i) (\<lambda>_.
      if (case mintedId of None \<Rightarrow> False | Some m \<Rightarrow> m \<noteq> i) then throw InvalidConfig
      else result_bind (validateOrThrow (ctx_schema ctx) post) (\<lambda>_. Inr post)))"

definition insert_input :: "read_context \<Rightarrow> string \<Rightarrow> doc \<Rightarrow> nat \<Rightarrow> bool \<Rightarrow> commit_input" where
  "insert_input ctx i post tailSeq replay =
     \<lparr>ci_op = OpI, ci_collection = ctx_name ctx, ci_docId = i, ci_body = Some post, ci_origin = None,
      ci_insertGuard = Some \<lparr>absentBelowSeq = Fin (of_nat tailSeq), replayIdentical = replay\<rparr>\<rparr>"

definition runInsert :: "runtime \<Rightarrow> maintenance_dispatch option \<Rightarrow> read_context \<Rightarrow> doc \<Rightarrow> string option \<Rightarrow> string io" where
  "runInsert rt maint ctx d mintedId =
     (let i = insert_id rt d in
      io_bind (io_lift (insert_checks rt ctx d mintedId)) (\<lambda>post.
      io_bind (runReadRows rt (ctx\<lparr>ctx_indexes := []\<rparr>) (id_state i (Some 1))) (\<lambda>existing.
      case rr_rows existing of
        (_, live) # _ \<Rightarrow>
          if mintedId \<noteq> None \<and> insertReplaysRow post (Some live) then io_return i else io_throw AlreadyExists
      | [] \<Rightarrow>
          io_bind (io_lift (refuseOverCapacity rt maint ctx (rr_folded existing)
            [\<lparr>pw_op = OpI, pw_docId = i, pw_after = Some post, pw_before = None\<rparr>])) (\<lambda>_.
          io_bind (commit_one rt maint ctx (insert_input ctx i post (rr_tail existing) (mintedId \<noteq> None))) (\<lambda>_.
          io_return i)))))"

definition storedRowId :: "string \<times> doc \<Rightarrow> string result" where
  "storedRowId row = (if map_of (snd row) ''_id'' = Some (JStr (fst row)) then Inr (fst row) else throw InvalidResponse)"

definition assertPatchKeepsId :: "doc \<Rightarrow> string \<Rightarrow> unit result" where
  "assertPatchKeepsId patch docId =
     (case map_of patch ''_id'' of None \<Rightarrow> Inr ()
      | Some v \<Rightarrow> if v = JStr docId then Inr () else throw InvalidConfig)"

definition plan_update :: "runtime \<Rightarrow> read_context \<Rightarrow> doc \<Rightarrow> string \<times> doc \<Rightarrow> (string \<times> doc \<times> doc) result" where
  "plan_update rt ctx patch row =
     result_bind (storedRowId row) (\<lambda>docId.
     result_bind (assertPatchKeepsId patch docId) (\<lambda>_.
     result_bind (assertDocId (rt_normalize rt) docId) (\<lambda>_.
     case merge (Some (JObj (snd row))) (Some (JObj patch)) of
       Some (JObj merged) \<Rightarrow>
         result_bind (validateOrThrow (ctx_schema ctx) merged) (\<lambda>_. Inr (docId, snd row, merged))
     | _ \<Rightarrow> throw SchemaError)))"

definition update_input :: "read_context \<Rightarrow> string \<Rightarrow> doc \<Rightarrow> commit_input" where
  "update_input ctx i post =
     \<lparr>ci_op = OpU, ci_collection = ctx_name ctx, ci_docId = i, ci_body = Some post, ci_origin = None, ci_insertGuard = None\<rparr>"

definition delete_input :: "read_context \<Rightarrow> string \<Rightarrow> commit_input" where
  "delete_input ctx i =
     \<lparr>ci_op = OpD, ci_collection = ctx_name ctx, ci_docId = i, ci_body = None, ci_origin = None, ci_insertGuard = None\<rparr>"

fun commit_each :: "runtime \<Rightarrow> maintenance_dispatch option \<Rightarrow> read_context \<Rightarrow> commit_input list \<Rightarrow> nat \<Rightarrow> nat io" where
  "commit_each rt maint ctx [] n = io_return n"
| "commit_each rt maint ctx (input # inputs) n =
     io_bind (commit_one rt maint ctx input) (\<lambda>_. commit_each rt maint ctx inputs (Suc n))"

definition runUpdate :: "runtime \<Rightarrow> maintenance_dispatch option \<Rightarrow> read_context \<Rightarrow> query_state \<Rightarrow> doc \<Rightarrow> nat io" where
  "runUpdate rt maint ctx state patch =
     io_bind (runReadRows rt ctx state) (\<lambda>rd.
     io_bind (io_lift (result_map (plan_update rt ctx patch) (rr_rows rd))) (\<lambda>planned.
     io_bind (io_lift (refuseOverCapacity rt maint ctx (rr_folded rd)
       (map (\<lambda>(i, before, merged). \<lparr>pw_op = OpU, pw_docId = i, pw_after = Some merged, pw_before = Some before\<rparr>) planned))) (\<lambda>_.
     commit_each rt maint ctx (map (\<lambda>(i, _, merged). update_input ctx i merged) planned) 0)))"

definition runReplaceById :: "runtime \<Rightarrow> maintenance_dispatch option \<Rightarrow> read_context \<Rightarrow> string \<Rightarrow> doc \<Rightarrow> unit io" where
  "runReplaceById rt maint ctx i d =
     io_bind (io_lift (assertDocId (rt_normalize rt) i)) (\<lambda>_.
     io_bind (runReadRows rt ctx (id_state i None)) (\<lambda>rd.
     case rr_rows rd of
       [] \<Rightarrow> io_throw NotFound
     | (_, current) # _ \<Rightarrow>
         (let post = obj_set ''_id'' (JStr i) d in
          io_bind (io_lift (validateOrThrow (ctx_schema ctx) post)) (\<lambda>_.
          io_bind (io_lift (refuseOverCapacity rt maint ctx (rr_folded rd)
            [\<lparr>pw_op = OpU, pw_docId = i, pw_after = Some post, pw_before = Some current\<rparr>])) (\<lambda>_.
          io_bind (commit_one rt maint ctx (update_input ctx i post)) (\<lambda>_. io_return ()))))))"

definition runDelete :: "runtime \<Rightarrow> maintenance_dispatch option \<Rightarrow> read_context \<Rightarrow> query_state \<Rightarrow> nat io" where
  "runDelete rt maint ctx state =
     io_bind (runReadRows rt ctx state) (\<lambda>rd.
     io_bind (io_lift (result_map storedRowId (rr_rows rd))) (\<lambda>docIds.
     io_bind (io_lift (refuseOverCapacity rt maint ctx (rr_folded rd)
       (map (\<lambda>i. \<lparr>pw_op = OpD, pw_docId = i, pw_after = None, pw_before = None\<rparr>) docIds))) (\<lambda>_.
     commit_each rt maint ctx (map (delete_input ctx) docIds) 0)))"

end
