(* ===== verification/Reads.thy ===== *)
theory Reads
  imports Commit Reader
begin

text \<open>
  Reads among the other threads. A full scan returns the documents of one prefix of the committed
  history, at least as long as the history was when the read began; an index walk returns only rows of
  such a prefix. Both hold unless log retirement overtakes the manifest the read started from, which
  is what the retention window is for.
\<close>

section \<open>What the parts of a read return\<close>

lemma wp_conj: "wp R A m Q s \<Longrightarrow> wp R A m Q' s \<Longrightarrow> wp R A m (\<lambda>x s. Q x s \<and> Q' x s) s"
  by (induction m arbitrary: s) auto

lemma wp_lift_bind:
  "(\<And>x. r = Inr x \<Longrightarrow> wp R A (f x) Q s) \<Longrightarrow> (\<And>e. Q (Inl e) s) \<Longrightarrow> wp R A (io_bind (io_lift r) f) Q s"
  by (cases r) (simp_all add: io_lift_def io_bind_def)

definition base_view :: "string \<Rightarrow> (blob \<Rightarrow> string) \<Rightarrow> snapshot_body set \<Rightarrow> store \<Rightarrow> current_json \<Rightarrow> (string \<times> doc) list \<Rightarrow> bool" where
  "base_view p sha B s c base \<longleftrightarrow> distinct (obj_keys base) \<and>
     (\<forall>h. coll_inv p sha B s h \<longrightarrow> map_of base = map_of (view (collection_of p) (take (log_seq_start c) h)))"

lemma wp_reader_base:
  assumes s0: "coll_ok p sha B s0" "current_of p (lookup s0) = Some (c, t)" "sys_rel p sha B s0 s"
  shows "wp (sys_rel p sha B) (allowed B)
    (case cj_snapshot c of None \<Rightarrow> io_return [] | Some k \<Rightarrow> loadSnapshotAsMap sha k coll)
    (\<lambda>r s'. \<forall>base. r = Inr base \<longrightarrow> base_view p sha B s0 c base) s"
proof (cases "cj_snapshot c")
  case None
  have "log_seq_start c = 0" if "coll_inv p sha B s0 h" for h
    using that s0(2) None by (auto simp: coll_inv_def inv_map_def snapshot_ok_def)
  then show ?thesis by (simp add: None base_view_def view_def foldLogEntriesOnto_def)
next
  case (Some k)
  let ?b = "\<lambda>h. snap_of (collection_of p) h (log_seq_start c)"
  have key: "?b h \<in> B" "snap_key p sha (?b h) = Inr k" "valid_key k" if "coll_inv p sha B s0 h" for h
    using that s0(2) Some snapshotKey_valid [OF coll_ok_valid [OF s0(1)]]
    by (auto simp: coll_inv_def inv_map_def snapshot_ok_def Let_def snap_key_def)
  obtain h0 where h0: "coll_inv p sha B s0 h0" using s0(1) by (auto simp: coll_ok_def)
  have loaded: "base_view p sha B s0 c (rows_to_map (sn_docs b))"
    if s1: "sys_rel p sha B s s1" and v: "lookup s1 k = Some v" "body v = BSnap b" "sha (BSnap b) = expected_hash k" for s1 v b
  proof -
    have "coll_ok p sha B s1" using coll_ok_stable [OF s0(1) col.R_trans [OF s0(3) s1]] .
    then have "snaps_in p B (lookup s1)" by (auto simp: coll_ok_def coll_inv_def inv_map_def)
    moreover obtain x where "k = snapshotPrefix p @ x" using key(2) [OF h0] snapshotKey_prefix unfolding snap_key_def by blast
    ultimately have "b \<in> B" using v unfolding snaps_in_def by blast
    moreover have inj: "inj_on (\<lambda>b. sha (BSnap b)) B" using h0 by (simp add: coll_inv_def inv_map_def config_ok_def)
    ultimately have b: "b = ?b h" if "coll_inv p sha B s0 h" for h
      using expected_hash_key [OF key(2) [OF that, unfolded snap_key_def]] key(1) [OF that] v(3)
      by (auto dest: inj_onD)
    have d: "distinct (obj_keys (view (collection_of p) xs))" for xs unfolding view_def by (rule fold_distinct) simp
    show ?thesis
      unfolding base_view_def
    proof (intro conjI allI impI)
      show "distinct (obj_keys (rows_to_map (sn_docs b)))"
        unfolding b [OF h0] snap_of_def canonical_rows(1) [OF d] by (rule canonical_rows(3) [OF d])
      fix h assume "coll_inv p sha B s0 h"
      then show "map_of (rows_to_map (sn_docs b)) = map_of (view (collection_of p) (take (log_seq_start c) h))"
        using b canonical_rows(1,2) [OF d] by (simp add: snap_of_def)
    qed
  qed
  show ?thesis
    unfolding Some option.case loadSnapshotAsMap_def
    by (rule wp_io_bind, rule col.wp_get)
      (use key(3) [OF h0] loaded in \<open>auto split: option.splits blob.splits\<close>)
qed

lemma wp_walk_seen:
  assumes "coll_ok p sha B s"
  shows "wp (sys_rel p sha B) (allowed B) (walkLogRange bytes p a b)
    (\<lambda>r s'. \<forall>es. r = Inr es \<longrightarrow> length es = b - a \<and> seen_from p s' a es) s"
proof -
  have one: "wp (sys_rel p sha B) (allowed B) (readLogEntryWithBytes bytes (logObjectKey p n))
      (\<lambda>r s'. \<forall>x. r = Inr x \<longrightarrow> seen p s' n (fst x)) s" if "coll_ok p sha B s" for n s
    unfolding readLogEntryWithBytes_def
    by (intro wp_io_bind col.wp_get)
      (use coll_ok_valid [OF that] in \<open>auto simp: slot_def seen_def split: option.splits elim!: decode_log_entry.elims\<close>)
  have slots: "wp (sys_rel p sha B) (allowed B) (read_slots bytes p [a ..< b])
      (\<lambda>r s'. \<forall>xs. r = Inr xs \<longrightarrow> length xs = b - a \<and> seen_from p s' a (map fst xs)) s" for a
    using assms
  proof (induction "b - a" arbitrary: a s)
    case (Suc n)
    have up: "[a ..< b] = a # [Suc a ..< b]" using Suc.hyps(2) by (simp add: upt_conv_Cons)
    show ?case
      unfolding up read_slots.simps
    proof (rule col.wp_seq [OF one [OF Suc.prems]])
      fix x :: "log_entry \<times> nat" and s1 assume rel: "sys_rel p sha B s s1" and x: "seen p s1 a (fst x)"
      have ok1: "coll_ok p sha B s1" by (rule coll_ok_stable [OF Suc.prems rel])
      have rest: "wp (sys_rel p sha B) (allowed B) (read_slots bytes p [Suc a ..< b])
          (\<lambda>r s'. \<forall>xs. r = Inr xs \<longrightarrow> length xs = b - Suc a \<and> seen_from p s' (Suc a) (map fst xs)) s1"
        using Suc.hyps(1) [OF _ ok1, of "Suc a"] Suc.hyps(2) by simp
      show "wp (sys_rel p sha B) (allowed B) (io_bind (read_slots bytes p [Suc a ..< b]) (\<lambda>xs. io_return (x # xs)))
          (\<lambda>r s'. \<forall>xs. r = Inr xs \<longrightarrow> length xs = b - a \<and> seen_from p s' a (map fst xs)) s1"
        by (rule col.wp_seq [OF rest])
          (use seen_stable [OF ok1 _ x] Suc.hyps(2) in \<open>auto simp: seen_from_Cons\<close>)
    qed simp
  qed simp
  show ?thesis
    unfolding walkLogRange_def walkLogRangeWithBytes_plain
    by (rule col.wp_seq [OF slots]) auto
qed

text \<open>A probe that ends has reached everything committed when it began, or was overtaken by retirement.\<close>

definition reached :: "string \<Rightarrow> store \<Rightarrow> nat \<Rightarrow> nat \<Rightarrow> bool" where
  "reached p s m n \<longleftrightarrow> m \<le> n \<or> n < delete_floor p (lookup s)"

lemma reached_stable:
  "coll_ok p sha B s \<Longrightarrow> sys_rel p sha B s s' \<Longrightarrow> reached p s m n \<Longrightarrow> reached p s' m n"
  using delete_floor_mono by (fastforce simp: reached_def)

lemma wp_probe_loop_reached:
  assumes "coll_ok p sha B s" "committed p sha B s m"
  shows "wp (sys_rel p sha B) (allowed B) (probe_loop p False n seq entries c)
    (\<lambda>r s'. \<forall>k es b. r = Inr (Exact k es b) \<longrightarrow> reached p s' m k) s"
  using assms
proof (induction n arbitrary: seq entries s)
  case (Suc n)
  show ?case
    unfolding probe_loop.simps
  proof (rule wp_io_bind, rule col.wp_get, goal_cases)
    case (2 s1)
    with Suc.prems have o: "coll_ok p sha B s1" "committed p sha B s1 m"
      using coll_ok_stable committed_stable by blast+
    obtain h where h: "coll_inv p sha B s1 h" using o(1) by (auto simp: coll_ok_def)
    have "reached p s1 m seq" if "lookup s1 (logObjectKey p seq) = None"
    proof (cases "delete_floor p (lookup s1) \<le> seq")
      case True
      then have "slot p (lookup s1) seq = (if seq < length h then Some (BLog (h ! seq)) else None)"
        using h by (intro inv_map_slot) (auto simp: coll_inv_def)
      then have "length h \<le> seq" using that by (simp add: slot_def split: if_splits)
      then show ?thesis using committed_length [OF o(2) h] by (simp add: reached_def)
    qed (simp add: reached_def)
    then show ?case using Suc.IH [OF o] by (auto split: option.splits)
  qed (use coll_ok_valid [OF Suc.prems(1)] in auto)
qed simp

lemma wp_probe:
  assumes "coll_ok p sha B s" "committed p sha B s hint" "committed p sha B s m"
  shows "wp (sys_rel p sha B) (allowed B) (probeTailFrom p hint None)
    (\<lambda>r s'. \<forall>x. r = Inr x \<longrightarrow> committed p sha B s' (fst x) \<and> fst x = hint + length (snd x) \<and>
       seen_from p s' hint (snd x) \<and> reached p s' m (fst x)) s"
proof -
  have "wp (sys_rel p sha B) (allowed B) (probeTailFrom p hint None)
      (\<lambda>r s'. \<forall>x. r = Inr x \<longrightarrow> reached p s' m (fst x)) s"
    unfolding probeTailFrom_def probeTailChunk_def
    by (rule col.wp_seq [where X = "\<lambda>x s'. \<forall>k es b. x = Exact k es b \<longrightarrow> reached p s' m k"],
        rule wp_mono [OF wp_probe_loop_reached [OF assms(1,3)]])
      (auto split: tail_probe_chunk.splits)
  from wp_conj [OF wp_probeTailFrom_seen [OF assms(1,2)] this] show ?thesis
    by (rule wp_mono) blast
qed

section \<open>The full scan\<close>

text \<open>The history goes on from \<open>g\<close>.\<close>

definition extends :: "string \<Rightarrow> (blob \<Rightarrow> string) \<Rightarrow> snapshot_body set \<Rightarrow> store \<Rightarrow> log_entry list \<Rightarrow> bool" where
  "extends p sha B s g \<longleftrightarrow> (\<exists>x. coll_inv p sha B s (g @ x))"

lemma extends_stable: "sys_rel p sha B s s' \<Longrightarrow> extends p sha B s g \<Longrightarrow> extends p sha B s' g"
  unfolding extends_def using coll_inv_stable by (metis append_assoc)

lemma extends_committed: "extends p sha B s g \<Longrightarrow> committed p sha B s (length g)"
  by (auto simp: extends_def committed_def)

lemma extends_Nil: "coll_ok p sha B s \<Longrightarrow> extends p sha B s []"
  by (simp add: extends_def coll_ok_def)

text \<open>
  The state a read folded, seen from a later moment: as long as retirement has not passed the
  manifest it started from, the documents are those of the history up to the tail it found, and the
  history goes on from \<open>g\<close>, what was there when the read began.
\<close>

definition folded_prefix ::
  "string \<Rightarrow> (blob \<Rightarrow> string) \<Rightarrow> snapshot_body set \<Rightarrow> log_entry list \<Rightarrow> current_json \<Rightarrow> (string \<times> doc) list \<Rightarrow> log_entry list \<Rightarrow> nat \<Rightarrow> store \<Rightarrow> bool" where
  "folded_prefix p sha B g head base es n s \<longleftrightarrow> distinct (obj_keys base) \<and> committed p sha B s n \<and>
     (delete_floor p (lookup s) \<le> log_seq_start head \<longrightarrow> length g \<le> n \<and>
       (\<exists>x. coll_inv p sha B s (g @ x) \<and> n \<le> length (g @ x) \<and> log_seq_start head \<le> n \<and>
          map_of base = map_of (view (collection_of p) (take (log_seq_start head) (g @ x))) \<and>
          es = take (n - log_seq_start head) (drop (log_seq_start head) (g @ x))))"

lemma folded_prefix_committed: "folded_prefix p sha B g head base es n s \<Longrightarrow> committed p sha B s n"
  by (simp add: folded_prefix_def)

lemma folded_prefix_stable:
  assumes "coll_ok p sha B s" "sys_rel p sha B s s'" "folded_prefix p sha B g head base es n s"
  shows "folded_prefix p sha B g head base es n s'"
  unfolding folded_prefix_def
proof (intro conjI impI)
  show "distinct (obj_keys base)" using assms(3) by (simp add: folded_prefix_def)
  show "committed p sha B s' n" using assms(3) committed_stable [OF assms(2)] by (simp add: folded_prefix_def)
  assume "delete_floor p (lookup s') \<le> log_seq_start head"
  then have "delete_floor p (lookup s) \<le> log_seq_start head" using delete_floor_mono [OF assms(1,2)] by simp
  with assms(3) obtain x where h: "length g \<le> n" "coll_inv p sha B s (g @ x)" "n \<le> length (g @ x)" "log_seq_start head \<le> n"
      "map_of base = map_of (view (collection_of p) (take (log_seq_start head) (g @ x)))"
      "es = take (n - log_seq_start head) (drop (log_seq_start head) (g @ x))"
    unfolding folded_prefix_def by blast
  show "length g \<le> n" by (rule h(1))
  obtain y where y: "coll_inv p sha B s' ((g @ x) @ y)" using coll_inv_stable [OF h(2) assms(2)] by blast
  have "take (log_seq_start head) ((g @ x) @ y) = take (log_seq_start head) (g @ x)"
    "take (n - log_seq_start head) (drop (log_seq_start head) ((g @ x) @ y)) = es"
    using h(3,4,6) by (simp_all del: append_assoc)
  then show "\<exists>x. coll_inv p sha B s' (g @ x) \<and> n \<le> length (g @ x) \<and> log_seq_start head \<le> n \<and>
          map_of base = map_of (view (collection_of p) (take (log_seq_start head) (g @ x))) \<and>
          es = take (n - log_seq_start head) (drop (log_seq_start head) (g @ x))"
    using h y by (intro exI [of _ "x @ y"]) simp
qed

lemma folded_prefixI:
  assumes s0: "coll_ok p sha B s0" "current_of p (lookup s0) = Some (c, t)" and g: "extends p sha B s0 g"
    and base: "base_view p sha B s0 c base"
    and rel: "sys_rel p sha B s0 s" and n: "committed p sha B s n" "log_seq_start c + length es = n"
    and seen: "seen_from p s (log_seq_start c) es" and reached: "reached p s (length g) n"
  shows "folded_prefix p sha B g c base es n s"
  unfolding folded_prefix_def
proof (intro conjI impI)
  show "distinct (obj_keys base)" using base by (simp add: base_view_def)
  show "committed p sha B s n" by (rule n(1))
  assume floor: "delete_floor p (lookup s) \<le> log_seq_start c"
  with reached n(2) show "length g \<le> n" by (auto simp: reached_def)
  obtain x where h0: "coll_inv p sha B s0 (g @ x)" using g by (auto simp: extends_def)
  obtain y where h: "coll_inv p sha B s ((g @ x) @ y)" using coll_inv_stable [OF h0 rel] by blast
  have start: "log_seq_start c \<le> length (g @ x)"
    using h0 s0(2) inv_map_floors [of p sha B "lookup s0" "g @ x"] by (simp add: coll_inv_def seq_floor_def)
  have each: "\<forall>i < length es. log_seq_start c + i < length ((g @ x) @ y) \<and> es ! i = ((g @ x) @ y) ! (log_seq_start c + i)"
    by (rule seen_from_history [OF h seen floor])
  have len: "n \<le> length ((g @ x) @ y)" using committed_length [OF n(1) h] .
  have "map_of base = map_of (view (collection_of p) (take (log_seq_start c) ((g @ x) @ y)))"
    using base h0 start by (simp add: base_view_def del: append_assoc)
  moreover have "es = take (n - log_seq_start c) (drop (log_seq_start c) ((g @ x) @ y))"
    by (rule nth_equalityI) (use each n(2) len in \<open>simp_all del: take_append drop_append length_append append_assoc\<close>)
  ultimately show "\<exists>x. coll_inv p sha B s (g @ x) \<and> n \<le> length (g @ x) \<and> log_seq_start c \<le> n \<and>
          map_of base = map_of (view (collection_of p) (take (log_seq_start c) (g @ x))) \<and>
          es = take (n - log_seq_start c) (drop (log_seq_start c) (g @ x))"
    using h len n(2) by (intro exI [of _ "x @ y"]) (simp del: take_append drop_append length_append)
qed

text \<open>The documents of a folded prefix.\<close>

lemma folded_prefix_view:
  assumes "folded_prefix p sha B g head base es n s" "delete_floor p (lookup s) \<le> log_seq_start head"
  shows "\<exists>x. coll_inv p sha B s (g @ x) \<and> length g \<le> n \<and> n \<le> length (g @ x) \<and>
    map_of (foldLogEntriesOnto base es (collection_of p) None) = map_of (view (collection_of p) (take n (g @ x)))"
proof -
  let ?a = "log_seq_start head" and ?c = "collection_of p"
  from assms obtain x where h: "coll_inv p sha B s (g @ x)" "length g \<le> n" "n \<le> length (g @ x)" "?a \<le> n"
      "map_of base = map_of (view ?c (take ?a (g @ x)))" "es = take (n - ?a) (drop ?a (g @ x))"
    unfolding folded_prefix_def by blast
  have "take n (g @ x) = take ?a (g @ x) @ es" using h(4,6) by (metis le_add_diff_inverse take_add)
  then have "view ?c (take n (g @ x)) = foldLogEntriesOnto (view ?c (take ?a (g @ x))) es ?c None"
    by (simp only: view_def fold_append)
  then have "map_of (foldLogEntriesOnto base es ?c None) = map_of (view ?c (take n (g @ x)))"
    using h(5) by (intro ext) (simp only: fold_map)
  with h(1-3) show ?thesis by blast
qed

definition scan_ok ::
  "string \<Rightarrow> (blob \<Rightarrow> string) \<Rightarrow> snapshot_body set \<Rightarrow> log_entry list \<Rightarrow> query_state \<Rightarrow> current_json \<Rightarrow> walk_result \<Rightarrow> store \<Rightarrow> bool" where
  "scan_ok p sha B g state head res s =
     (case res of (rows, n, Some (base, es)) \<Rightarrow> folded_prefix p sha B g head base es n s \<and>
          scan_rows state (foldLogEntriesOnto base es (collection_of p) None) = Inr rows
      | _ \<Rightarrow> False)"

lemma wp_full_scan:
  assumes s0: "coll_ok p (rt_sha rt) B s0" "current_of p (lookup s0) = Some (c, t)" and g: "extends p (rt_sha rt) B s0 g"
    and ctx: "ctx_prefix ctx = p" "ctx_name ctx = collection_of p" and s: "sys_rel p (rt_sha rt) B s0 s"
  shows "wp (sys_rel p (rt_sha rt) B) (allowed B) (full_scan rt ctx c state)
    (\<lambda>r s'. \<forall>x. r = Inr x \<longrightarrow> scan_ok p (rt_sha rt) B g state c x s') s"
proof -
  let ?sha = "rt_sha rt" and ?R = "sys_rel p (rt_sha rt) B" and ?coll = "collection_of p"
  have le: "log_seq_start c \<le> tail_hint c" using current_of_valid [OF s0(2)] by (simp add: valid_current_def)
  note base = wp_reader_base [OF s0 s, of "?coll"]
  show ?thesis
    unfolding full_scan_def load_base_def ctx logSeqStartOf_def max_absorb2 [OF le]
  proof (rule col.wp_seq [OF base])
    fix b s1 assume s1: "?R s s1" and b: "base_view p ?sha B s0 c b"
    have r1: "?R s0 s1" by (rule col.R_trans [OF s s1])
    have ok1: "coll_ok p ?sha B s1" by (rule coll_ok_stable [OF s0(1) r1])
    show "wp ?R (allowed B) (io_bind (walkLogRange (rt_bytes rt) p (log_seq_start c) (tail_hint c)) (\<lambda>entries.
       io_bind (probeTailFrom p (tail_hint c) None) (\<lambda>(tailSeq, probed).
       let docs = foldLogEntriesOnto (foldLogEntriesOnto b entries ?coll None) probed ?coll None
       in io_bind (io_lift (scan_rows state docs)) (\<lambda>rows. io_return (rows, tailSeq, Some (b, entries @ probed))))))
      (\<lambda>r s'. \<forall>x. r = Inr x \<longrightarrow> scan_ok p ?sha B g state c x s') s1"
    proof (rule col.wp_seq [OF wp_walk_seen [OF ok1]])
      fix es s2 assume s2: "?R s1 s2" and es: "length es = tail_hint c - log_seq_start c \<and> seen_from p s2 (log_seq_start c) es"
      have r2: "?R s0 s2" by (rule col.R_trans [OF r1 s2])
      have ok2: "coll_ok p ?sha B s2" by (rule coll_ok_stable [OF s0(1) r2])
      have "committed p ?sha B s2 (tail_hint c)" "committed p ?sha B s2 (length g)"
        using committed_stable [OF r2] current_committed [OF s0] extends_committed [OF g] le by (simp_all add: max_def)
      note probe = wp_probe [OF ok2 this]
      show "wp ?R (allowed B) (io_bind (probeTailFrom p (tail_hint c) None) (\<lambda>(tailSeq, probed).
         let docs = foldLogEntriesOnto (foldLogEntriesOnto b es ?coll None) probed ?coll None
         in io_bind (io_lift (scan_rows state docs)) (\<lambda>rows. io_return (rows, tailSeq, Some (b, es @ probed)))))
        (\<lambda>r s'. \<forall>x. r = Inr x \<longrightarrow> scan_ok p ?sha B g state c x s') s2"
      proof (rule col.wp_seq [OF probe])
        fix x s3 assume s3: "?R s2 s3" and x: "committed p ?sha B s3 (fst x) \<and> fst x = tail_hint c + length (snd x) \<and>
          seen_from p s3 (tail_hint c) (snd x) \<and> reached p s3 (length g) (fst x)"
        have "seen_from p s3 (log_seq_start c) (es @ snd x)"
          using seen_from_stable [OF ok2 s3] es x le by (simp add: seen_from_append)
        then have "folded_prefix p ?sha B g c b (es @ snd x) (fst x) s3"
          using x es le by (intro folded_prefixI [OF s0 g b col.R_trans [OF r2 s3]]) auto
        then show "wp ?R (allowed B) (case x of (tailSeq, probed) \<Rightarrow>
           let docs = foldLogEntriesOnto (foldLogEntriesOnto b es ?coll None) probed ?coll None
           in io_bind (io_lift (scan_rows state docs)) (\<lambda>rows. io_return (rows, tailSeq, Some (b, es @ probed))))
          (\<lambda>r s'. \<forall>x. r = Inr x \<longrightarrow> scan_ok p ?sha B g state c x s') s3"
          by (cases x; cases "scan_rows state (foldLogEntriesOnto b (es @ snd x) ?coll None)")
            (simp_all add: Let_def io_lift_def io_bind_def [of "Ret _"] fold_append scan_ok_def)
      qed simp
    qed simp
  qed simp
qed

section \<open>The index walk\<close>

lemma filter_result_Inr:
  "filter_result f xs = Inr ys \<Longrightarrow> ys = filter (\<lambda>x. f x = Inr True) xs \<and> (\<forall>x \<in> set xs. \<exists>b. f x = Inr b)"
proof (induction xs arbitrary: ys)
  case (Cons x xs)
  then obtain b zs where "f x = Inr b" "filter_result f xs = Inr zs" "ys = (if b then x # zs else zs)"
    by (cases "f x"; cases "filter_result f xs") auto
  with Cons.IH [of zs] show ?case by auto
qed simp

lemma match_rows_sub: "match_rows wire docs = Inr rows \<Longrightarrow> set rows \<subseteq> set docs"
  by (auto simp: match_rows_def split: option.splits dest!: filter_result_Inr)

lemma map_of_seeded:
  "map_of (List.map_filter (\<lambda>i. map_option (Pair i) (map_of base i)) M) i = (if i \<in> set M then map_of base i else None)"
  by (induction M) (auto simp: List.map_filter_def split: option.splits)

lemma distinct_seeded:
  "distinct M \<Longrightarrow> distinct (obj_keys (List.map_filter (\<lambda>i. map_option (Pair i) (map_of base i)) M))"
proof (induction M)
  case (Cons j M)
  have "fst ` set (List.map_filter (\<lambda>i. map_option (Pair i) (map_of base i)) M) \<subseteq> set M"
    by (auto simp: List.map_filter_def)
  with Cons show ?case by (auto simp: List.map_filter_def split: option.splits)
qed (simp add: List.map_filter_def)

lemma dedup_distinct: "distinct (dedup xs)" "set (dedup xs) = set xs"
proof -
  have "distinct acc \<Longrightarrow> distinct (fold (\<lambda>x acc. if x \<in> set acc then acc else x # acc) xs acc) \<and>
      set (fold (\<lambda>x acc. if x \<in> set acc then acc else x # acc) xs acc) = set xs \<union> set acc" for acc
    by (induction xs arbitrary: acc) auto
  from this [of "[]"] show "distinct (dedup xs)" "set (dedup xs) = set xs" by (simp_all add: dedup_def)
qed

text \<open>Folding onto the matched rows alone gives them the values of the whole fold.\<close>

lemma last_effect_filter:
  "last_effect coll (Some X) i b es = (if i \<in> X then last_effect coll None i b es else b)"
  by (induction es arbitrary: b) (auto simp: entry_effect_def split: option.splits log_op.splits)

lemma matched_fold:
  assumes "(i, d) \<in> set (foldLogEntriesOnto (List.map_filter (\<lambda>i. map_option (Pair i) (map_of base i)) M) es coll (Some (set M)))"
    and "distinct M"
  shows "map_of (foldLogEntriesOnto base es coll None) i = Some d"
proof -
  let ?m = "foldLogEntriesOnto (List.map_filter (\<lambda>i. map_option (Pair i) (map_of base i)) M) es coll (Some (set M))"
  have "distinct (obj_keys ?m)" by (rule fold_distinct [OF distinct_seeded [OF assms(2)]])
  with assms(1) have "map_of ?m i = Some d" by simp
  then show ?thesis by (auto simp: fold_map last_effect_filter map_of_seeded split: if_splits)
qed

definition wire_accepts :: "predicate_wire option \<Rightarrow> doc \<Rightarrow> bool" where
  "wire_accepts wire d = (case wire of None \<Rightarrow> True | Some w \<Rightarrow> matchesWire w d = Inr True)"

lemma match_rows_accepts: "match_rows wire docs = Inr rows \<Longrightarrow> (i, d) \<in> set rows \<Longrightarrow> wire_accepts wire d"
  by (auto simp: match_rows_def wire_accepts_def split: option.splits dest!: filter_result_Inr)

definition walk_ok ::
  "string \<Rightarrow> (blob \<Rightarrow> string) \<Rightarrow> snapshot_body set \<Rightarrow> log_entry list \<Rightarrow> query_state \<Rightarrow> current_json \<Rightarrow> walk_result \<Rightarrow> store \<Rightarrow> bool" where
  "walk_ok p sha B g state head res s =
     (case res of
        (rows, n, None) \<Rightarrow> rows = [] \<and> committed p sha B s n
      | (rows, n, Some (base, es)) \<Rightarrow> folded_prefix p sha B g head base es n s \<and>
          (\<forall>(i, d) \<in> set rows. map_of (foldLogEntriesOnto base es (collection_of p) None) i = Some d \<and>
             wire_accepts (qs_wire state) d))"

lemma wp_in_ids: "safe p sha B (in_ids stringify pre vs) s"
proof (induction vs arbitrary: s)
  case (Cons v vs)
  have "safe p sha B (io_bind (io_list (pre @ seg @ ''/'') None None) (\<lambda>es.
     io_bind (in_ids stringify pre vs) (\<lambda>ids. io_return (walk_ids (pre @ seg @ ''/'') (map fst es) @ ids)))) s" for seg
    by (rule col.wp_seq [where X = "\<lambda>_ _. True"], rule col.wp_list)
      (auto intro!: col.wp_seq [where X = "\<lambda>_ _. True"] wp_mono [OF Cons.IH])
  then show ?case
    by (cases "encodeIndexValue stringify v") (simp_all add: io_lift_def io_bind_def [of "Ret _"] Let_def)
qed simp

lemma wp_list_index: "safe p sha B (list_index stringify pre rangeOn inOn) s"
proof -
  have l: "safe p sha B (io_bind (io_list pre a n) (\<lambda>es. io_return (f es))) s" for a n f
    by (rule col.wp_seq [where X = "\<lambda>_ _. True"]) (auto intro: col.wp_list)
  show ?thesis
    unfolding list_index_def
    using l wp_in_ids
    by (auto simp: io_lift_def io_bind_def [of "Ret _"] split: option.splits prod.splits sum.splits)
qed

lemma wp_runIndexWalkPlan:
  assumes s0: "coll_ok p (rt_sha rt) B s0" "current_of p (lookup s0) = Some (c, t)" and g: "extends p (rt_sha rt) B s0 g"
    and ctx: "ctx_prefix ctx = p" "ctx_name ctx = collection_of p" and s: "sys_rel p (rt_sha rt) B s0 s"
  shows "wp (sys_rel p (rt_sha rt) B) (allowed B) (runIndexWalkPlan rt ctx c state nm keys rangeOn inOn)
    (\<lambda>r s'. \<forall>x. r = Inr x \<longrightarrow> walk_ok p (rt_sha rt) B g state c x s') s"
proof -
  let ?sha = "rt_sha rt" and ?R = "sys_rel p (rt_sha rt) B" and ?coll = "collection_of p"
  let ?Q = "\<lambda>r s'. \<forall>x. r = Inr x \<longrightarrow> walk_ok p ?sha B g state c x s'"
  have le: "log_seq_start c \<le> tail_hint c" using current_of_valid [OF s0(2)] by (simp add: valid_current_def)
  have rest: "wp ?R (allowed B) (let matched = dedup found in
     if matched = [] then io_return ([], n, None)
     else
       io_bind (load_base rt c ?coll) (\<lambda>baseDocs.
       io_bind (walkLogRange (rt_bytes rt) p (log_seq_start c) (tail_hint c)) (\<lambda>entries.
       let seeded = List.map_filter (\<lambda>i. map_option (Pair i) (map_of baseDocs i)) matched;
           docs = foldLogEntriesOnto (foldLogEntriesOnto seeded entries ?coll (Some (set matched)))
                    probed ?coll (Some (set matched))
       in io_bind (io_lift (match_rows (qs_wire state) docs)) (\<lambda>rows.
          io_return (rows, n, Some (baseDocs, entries @ probed)))))) ?Q s1"
    if s1: "?R s0 s1" and x: "committed p ?sha B s1 n" "n = tail_hint c + length probed"
      "seen_from p s1 (tail_hint c) probed" "reached p s1 (length g) n" for found n probed s1
  proof (cases "dedup found = []")
    case False
    have "wp ?R (allowed B) (io_bind (load_base rt c ?coll) (\<lambda>baseDocs.
       io_bind (walkLogRange (rt_bytes rt) p (log_seq_start c) (tail_hint c)) (\<lambda>entries.
       io_bind (io_lift (match_rows (qs_wire state) (foldLogEntriesOnto (foldLogEntriesOnto
           (List.map_filter (\<lambda>i. map_option (Pair i) (map_of baseDocs i)) (dedup found)) entries ?coll (Some (set (dedup found))))
                    probed ?coll (Some (set (dedup found)))))) (\<lambda>rows.
          io_return (rows, n, Some (baseDocs, entries @ probed)))))) ?Q s1"
      unfolding load_base_def
    proof (rule col.wp_seq [OF wp_reader_base [OF s0 s1]])
      fix b s2 assume s2: "?R s1 s2" and b: "base_view p ?sha B s0 c b"
      have r2: "?R s0 s2" by (rule col.R_trans [OF s1 s2])
      show "wp ?R (allowed B) (io_bind (walkLogRange (rt_bytes rt) p (log_seq_start c) (tail_hint c)) (\<lambda>entries.
       io_bind (io_lift (match_rows (qs_wire state) (foldLogEntriesOnto (foldLogEntriesOnto
           (List.map_filter (\<lambda>i. map_option (Pair i) (map_of b i)) (dedup found)) entries ?coll (Some (set (dedup found))))
                    probed ?coll (Some (set (dedup found)))))) (\<lambda>rows.
          io_return (rows, n, Some (b, entries @ probed))))) ?Q s2"
      proof (rule col.wp_seq [OF wp_walk_seen [OF coll_ok_stable [OF s0(1) r2]]])
        fix es s3 assume s3: "?R s2 s3" and es: "length es = tail_hint c - log_seq_start c \<and> seen_from p s3 (log_seq_start c) es"
        have r13: "?R s1 s3" by (rule col.R_trans [OF s2 s3])
        have ok1: "coll_ok p ?sha B s1" by (rule coll_ok_stable [OF s0(1) s1])
        have "seen_from p s3 (log_seq_start c) (es @ probed)"
          using seen_from_stable [OF ok1 r13 x(3)] es le by (simp add: seen_from_append)
        then have "folded_prefix p ?sha B g c b (es @ probed) n s3"
          using committed_stable [OF r13 x(1)] x(2) es le reached_stable [OF ok1 r13 x(4)]
          by (intro folded_prefixI [OF s0 g b col.R_trans [OF s1 r13]]) auto
        moreover have "map_of (foldLogEntriesOnto b (es @ probed) ?coll None) i = Some d"
          if "match_rows (qs_wire state) (foldLogEntriesOnto (List.map_filter (\<lambda>i. map_option (Pair i) (map_of b i)) (dedup found))
              (es @ probed) ?coll (Some (set (dedup found)))) = Inr rows" "(i, d) \<in> set rows" for rows i d
          using match_rows_sub [OF that(1)] that(2) matched_fold [OF _ dedup_distinct(1)] by blast
        moreover note match_rows_accepts
        ultimately show "wp ?R (allowed B) (io_bind (io_lift (match_rows (qs_wire state) (foldLogEntriesOnto (foldLogEntriesOnto
           (List.map_filter (\<lambda>i. map_option (Pair i) (map_of b i)) (dedup found)) es ?coll (Some (set (dedup found))))
                    probed ?coll (Some (set (dedup found)))))) (\<lambda>rows.
          io_return (rows, n, Some (b, es @ probed)))) ?Q s3"
          by (auto simp: fold_append [symmetric] io_lift_def io_bind_def [of "Ret _"] walk_ok_def split: sum.splits)
      qed simp
    qed simp
    then show ?thesis using False by (simp add: Let_def)
  qed (simp add: walk_ok_def x(1))
  have probe: "wp ?R (allowed B) (io_bind (probeTailFrom p (tail_hint c) None) (\<lambda>(n, probed).
     let matched = dedup found in
     if matched = [] then io_return ([], n, None)
     else
       io_bind (load_base rt c ?coll) (\<lambda>baseDocs.
       io_bind (walkLogRange (rt_bytes rt) p (log_seq_start c) (tail_hint c)) (\<lambda>entries.
       let seeded = List.map_filter (\<lambda>i. map_option (Pair i) (map_of baseDocs i)) matched;
           docs = foldLogEntriesOnto (foldLogEntriesOnto seeded entries ?coll (Some (set matched)))
                    probed ?coll (Some (set matched))
       in io_bind (io_lift (match_rows (qs_wire state) docs)) (\<lambda>rows.
          io_return (rows, n, Some (baseDocs, entries @ probed))))))) ?Q s1"
    if s1: "?R s0 s1" for found s1
  proof (rule col.wp_seq [OF wp_probe])
    show "coll_ok p ?sha B s1" by (rule coll_ok_stable [OF s0(1) s1])
    show "committed p ?sha B s1 (tail_hint c)" "committed p ?sha B s1 (length g)"
      using committed_stable [OF s1] current_committed [OF s0] extends_committed [OF g] le by (simp_all add: max_def)
    fix x s2 assume s2: "?R s1 s2" and x: "committed p ?sha B s2 (fst x) \<and> fst x = tail_hint c + length (snd x) \<and>
      seen_from p s2 (tail_hint c) (snd x) \<and> reached p s2 (length g) (fst x)"
    note r = rest [OF col.R_trans [OF s1 s2], of "fst x" "snd x" found]
    show "wp ?R (allowed B) (case x of (n, probed) \<Rightarrow>
     let matched = dedup found in
     if matched = [] then io_return ([], n, None)
     else
       io_bind (load_base rt c ?coll) (\<lambda>baseDocs.
       io_bind (walkLogRange (rt_bytes rt) p (log_seq_start c) (tail_hint c)) (\<lambda>entries.
       let seeded = List.map_filter (\<lambda>i. map_option (Pair i) (map_of baseDocs i)) matched;
           docs = foldLogEntriesOnto (foldLogEntriesOnto seeded entries ?coll (Some (set matched)))
                    probed ?coll (Some (set matched))
       in io_bind (io_lift (match_rows (qs_wire state) docs)) (\<lambda>rows.
          io_return (rows, n, Some (baseDocs, entries @ probed)))))) ?Q s2"
      unfolding case_prod_beta by (rule r) (use x in blast)+
  qed simp
  have "wp ?R (allowed B) (io_bind (list_index (rt_stringify rt) pre rangeOn inOn) (\<lambda>found.
     io_bind (probeTailFrom p (tail_hint c) None) (\<lambda>(n, probed).
     let matched = dedup found in
     if matched = [] then io_return ([], n, None)
     else
       io_bind (load_base rt c ?coll) (\<lambda>baseDocs.
       io_bind (walkLogRange (rt_bytes rt) p (log_seq_start c) (tail_hint c)) (\<lambda>entries.
       let seeded = List.map_filter (\<lambda>i. map_option (Pair i) (map_of baseDocs i)) matched;
           docs = foldLogEntriesOnto (foldLogEntriesOnto seeded entries ?coll (Some (set matched)))
                    probed ?coll (Some (set matched))
       in io_bind (io_lift (match_rows (qs_wire state) docs)) (\<lambda>rows.
          io_return (rows, n, Some (baseDocs, entries @ probed)))))))) ?Q s" for pre
    by (rule col.wp_seq [where X = "\<lambda>_ _. True", OF wp_mono [OF wp_list_index]], simp,
        rule probe, rule col.R_trans [OF s], assumption, simp)
  then show ?thesis
    unfolding runIndexWalkPlan_def ctx logSeqStartOf_def max_absorb2 [OF le]
    by (cases "result_map (encodeIndexValue (rt_stringify rt)) keys") (simp_all add: io_lift_def io_bind_def [of "Ret _"])
qed

section \<open>The whole read\<close>

definition scans :: "runtime \<Rightarrow> read_context \<Rightarrow> query_state \<Rightarrow> bool" where
  "scans rt ctx state =
     (case planQuery (rt_coercions rt) (qs_wire state) (ctx_indexes ctx) of FullScan _ \<Rightarrow> True | _ \<Rightarrow> False)"

definition rows_ok ::
  "string \<Rightarrow> runtime \<Rightarrow> read_context \<Rightarrow> query_state \<Rightarrow> (string \<times> doc) list \<Rightarrow> log_entry list \<Rightarrow> (string \<times> doc) list \<Rightarrow> bool" where
  "rows_ok p rt ctx state base es out \<longleftrightarrow> (\<exists>rows. out = order_and_limit (rt_coercions rt) state rows \<and>
     (if scans rt ctx state
      then scan_rows state (foldLogEntriesOnto base es (collection_of p) None) = Inr rows
      else \<forall>(i, d) \<in> set rows. map_of (foldLogEntriesOnto base es (collection_of p) None) i = Some d \<and>
        wire_accepts (qs_wire state) d))"

lemma order_and_limit_Nil [simp]: "order_and_limit co state [] = []"
  by (auto simp: order_and_limit_def sortByOrderSpec_def apply_limit_def split: option.splits)

definition read_ok ::
  "string \<Rightarrow> runtime \<Rightarrow> snapshot_body set \<Rightarrow> nat \<Rightarrow> log_entry list \<Rightarrow> read_context \<Rightarrow> query_state \<Rightarrow> read_rows result \<Rightarrow> store \<Rightarrow> bool" where
  "read_ok p rt B a g ctx state r s \<longleftrightarrow> (\<forall>rd. r = Inr rd \<longrightarrow> committed p (rt_sha rt) B s (rr_tail rd) \<and>
     (case rr_folded rd of
        None \<Rightarrow> rr_rows rd = [] \<and> (scans rt ctx state \<longrightarrow> g = [] \<and> a = 0 \<and> rr_tail rd = 0)
      | Some (head, base, es) \<Rightarrow> a \<le> log_seq_start head \<and> folded_prefix p (rt_sha rt) B g head base es (rr_tail rd) s \<and>
          rows_ok p rt ctx state base es (rr_rows rd)))"

lemma read_ok_Inl [simp]: "read_ok p rt B a g ctx state (Inl e) s"
  by (simp add: read_ok_def)

lemma read_ok_stable:
  assumes "coll_ok p (rt_sha rt) B s" "sys_rel p (rt_sha rt) B s s'" "read_ok p rt B a g ctx state r s"
  shows "read_ok p rt B a g ctx state r s'"
  using assms(3) folded_prefix_stable [OF assms(1,2)] committed_stable [OF assms(2)]
  by (auto simp: read_ok_def split: option.splits)

lemma wp_runReadRows:
  assumes ok: "coll_ok p (rt_sha rt) B s" and g: "extends p (rt_sha rt) B s g"
    and a: "a \<le> seq_floor p (lookup s)"
    and ctx: "ctx_prefix ctx = p" "ctx_name ctx = collection_of p"
  shows "wp (sys_rel p (rt_sha rt) B) (allowed B) (runReadRows rt ctx state) (read_ok p rt B a g ctx state) s"
proof -
  let ?sha = "rt_sha rt" and ?R = "sys_rel p (rt_sha rt) B"
  have key: "ctx_prefix ctx @ ''/current.json'' = currentKey p" by (simp add: ctx currentKey_def)
  show ?thesis
    unfolding runReadRows_def key
  proof (rule col.wp_seq [OF wp_readCurrent [OF ok]])
    fix rd s1 assume rel: "?R s s1" and rd: "rd = current_of p (lookup s1)"
    have ok1: "coll_ok p ?sha B s1" by (rule coll_ok_stable [OF ok rel])
    have g1: "extends p ?sha B s1 g" by (rule extends_stable [OF rel g])
    show "wp ?R (allowed B) (case rd of
       None \<Rightarrow> io_return \<lparr>rr_rows = [], rr_manifestPointer = ''m1:0000000000000'', rr_tail = 0, rr_folded = None\<rparr>
     | Some (head, _) \<Rightarrow>
         io_bind (case planQuery (rt_coercions rt) (qs_wire state) (ctx_indexes ctx) of
             IndexWalk indexName keys rangeOn inOn \<Rightarrow> runIndexWalkPlan rt ctx head state indexName keys rangeOn inOn
           | FullScan _ \<Rightarrow> full_scan rt ctx head state) (\<lambda>(rows, tailSeq, folded).
         io_return \<lparr>rr_rows = order_and_limit (rt_coercions rt) state rows,
           rr_manifestPointer = serializeManifestPointer head tailSeq, rr_tail = tailSeq,
           rr_folded = map_option (\<lambda>(base, es). (head, base, es)) folded\<rparr>)) (read_ok p rt B a g ctx state) s1"
    proof (cases rd)
      case None
      obtain h where h: "coll_inv p ?sha B s1 h" using ok1 by (auto simp: coll_ok_def)
      with rd None have "h = []" by (simp add: coll_inv_def inv_map_def)
      then have "g = []" using committed_length [OF extends_committed [OF g1] h] by simp
      moreover have "a = 0" using a seq_floor_mono [OF ok rel] rd None by (simp add: seq_floor_def)
      ultimately show ?thesis using None committed_0 [OF ok1] by (simp add: read_ok_def)
    next
      case (Some ct)
      obtain c t where ct: "ct = (c, t)" by fastforce
      have cur: "current_of p (lookup s1) = Some (c, t)" using rd Some ct by simp
      have a1: "a \<le> log_seq_start c" using a seq_floor_mono [OF ok rel] cur by (simp add: seq_floor_def)
      let ?fin = "\<lambda>(rows, tailSeq, folded). io_return \<lparr>rr_rows = order_and_limit (rt_coercions rt) state rows,
           rr_manifestPointer = serializeManifestPointer c tailSeq, rr_tail = tailSeq,
           rr_folded = map_option (\<lambda>(base, es). (c, base, es)) folded\<rparr>"
      have scan: "wp ?R (allowed B) (io_bind (full_scan rt ctx c state) ?fin) (read_ok p rt B a g ctx state) s1"
        if "scans rt ctx state"
        by (rule col.wp_seq [OF wp_full_scan [OF ok1 cur g1 ctx col.R_refl]])
          (use that a1 in \<open>auto simp: scan_ok_def read_ok_def rows_ok_def dest: folded_prefix_committed split: prod.splits option.splits\<close>)
      have walk: "wp ?R (allowed B) (io_bind (runIndexWalkPlan rt ctx c state nm keys rangeOn inOn) ?fin) (read_ok p rt B a g ctx state) s1"
        if "\<not> scans rt ctx state" for nm keys rangeOn inOn
        by (rule col.wp_seq [OF wp_runIndexWalkPlan [OF ok1 cur g1 ctx col.R_refl]])
          (use that a1 in \<open>auto simp: walk_ok_def read_ok_def rows_ok_def dest: folded_prefix_committed split: prod.splits option.splits\<close>)
      show ?thesis
        unfolding Some ct option.case prod.case
        using scan walk by (cases "planQuery (rt_coercions rt) (qs_wire state) (ctx_indexes ctx)") (simp_all add: scans_def)
    qed
  qed simp
qed

end
