(* ===== verification/Verbs.thy ===== *)
theory Verbs
  imports Reads
begin

text \<open>
  The mutation verbs among the other threads: every one keeps the collection's invariant, and an
  insert that returns has put its row into the history at a point where no live row held its id.
\<close>

section \<open>A commit of a verb\<close>

definition commit_ok ::
  "string \<Rightarrow> runtime \<Rightarrow> snapshot_body set \<Rightarrow> commit_input \<Rightarrow> commit_result result \<Rightarrow> store \<Rightarrow> bool" where
  "commit_ok p rt B input r s \<longleftrightarrow> (\<forall>res. r = Inr res \<longrightarrow> may_replay input \<or>
     (let e = entry res in
       (\<exists>ts. entry_wire e = entry_wire (mintEntry rt ts input (le_seq e))) \<and>
       (\<exists>e0. seen p s (le_seq e) e0 \<and> entry_wire e0 = entry_wire e) \<and>
       (\<exists>win. window_clear p s input (guard_of input) win (le_seq e))))"

lemma new_writer_key: "new_writer key ixs v = Inr w \<Longrightarrow> w_currentJsonKey w = key"
  by (auto simp: new_writer_def result_bind_def split: sum.splits)

lemma wp_commit:
  assumes ok: "coll_ok p (rt_sha rt) B s" and key: "w_currentJsonKey w = currentKey p"
    and guard: "guard_probed p (rt_sha rt) B s input"
  shows "wp (sys_rel p (rt_sha rt) B) (allowed B) (commit rt w maint input) (commit_ok p rt B input) s"
proof -
  have "commit_ok p rt B input (Inr (case x of Replayed e t \<Rightarrow> \<lparr>entry = e, currentEtag = t\<rparr>
      | Committed e t _ _ \<Rightarrow> \<lparr>entry = e, currentEtag = t\<rparr>)) s'"
    if "attempt_ok p (rt_sha rt) B rt input (guard_of input) (Inr x) s'" for x s'
    using that by (cases x) (auto simp: commit_ok_def attempt_ok_def Let_def)
  then show ?thesis
    unfolding commit_def
    by (intro wp_io_bind wp_mono [OF wp_commit_attempt [OF ok key guard]])
      (auto simp: commit_ok_def split: sum.splits)
qed

lemma wp_commit_one:
  assumes ok: "coll_ok p (rt_sha rt) B s" and ctx: "ctx_prefix ctx = p"
    and guard: "guard_probed p (rt_sha rt) B s input"
  shows "wp (sys_rel p (rt_sha rt) B) (allowed B) (commit_one rt maint ctx input) (commit_ok p rt B input) s"
  using wp_commit [OF ok new_writer_key guard] ctx
  by (cases "writerFor ctx")
    (auto simp: commit_one_def io_lift_def io_bind_def [of "Ret _"] commit_ok_def [of _ _ _ _ "Inl _"] writerFor_def currentKey_def)

lemma unguarded: "ci_insertGuard input = None \<Longrightarrow> guard_probed p sha B s input"
  by (simp add: guard_probed_def)

lemma wp_commit_each:
  assumes "coll_ok p (rt_sha rt) B s" "ctx_prefix ctx = p" "\<forall>input \<in> set inputs. ci_insertGuard input = None"
  shows "safe p (rt_sha rt) B (commit_each rt maint ctx inputs n) s"
  using assms
proof (induction inputs arbitrary: n s)
  case (Cons input inputs)
  have one: "wp (sys_rel p (rt_sha rt) B) (allowed B) (commit_one rt maint ctx input) (\<lambda>r s'. \<forall>x. r = Inr x \<longrightarrow> True) s"
    by (rule wp_mono [OF wp_commit_one [OF Cons.prems(1,2) unguarded]]) (use Cons.prems(3) in simp_all)
  show ?case
    unfolding commit_each.simps
    by (rule col.wp_seq [where X = "\<lambda>_ _. True", OF one])
      (use Cons.IH [OF coll_ok_stable [OF Cons.prems(1)] Cons.prems(2)] Cons.prems(3) in auto)
qed simp

section \<open>Update, replace, delete\<close>

lemma wp_read_then:
  assumes ok: "coll_ok p (rt_sha rt) B s" and ctx: "ctx_prefix ctx = p" "ctx_name ctx = collection_of p"
    and k: "\<And>rd s'. coll_ok p (rt_sha rt) B s' \<Longrightarrow> safe p (rt_sha rt) B (k rd) s'"
  shows "safe p (rt_sha rt) B (io_bind (runReadRows rt ctx state) k) s"
  by (rule wp_io_bind, rule wp_mono [OF wp_keep_ok [OF wp_runReadRows [OF ok extends_Nil [OF ok] le0 ctx] ok]])
    (auto split: sum.splits intro: k)

lemma wp_runUpdate:
  assumes ok: "coll_ok p (rt_sha rt) B s" and ctx: "ctx_prefix ctx = p" "ctx_name ctx = collection_of p"
  shows "safe p (rt_sha rt) B (runUpdate rt maint ctx state patch) s"
  unfolding runUpdate_def
proof (rule wp_read_then [OF ok ctx])
  fix rd s' assume "coll_ok p (rt_sha rt) B s'"
  then have "safe p (rt_sha rt) B (commit_each rt maint ctx (map (\<lambda>(i, _, merged). update_input ctx i merged) planned) 0) s'"
    for planned :: "(string \<times> doc \<times> doc) list"
    by (rule wp_commit_each [OF _ ctx(1)]) (auto simp: update_input_def)
  then show "safe p (rt_sha rt) B (io_bind (io_lift (result_map (plan_update rt ctx patch) (rr_rows rd))) (\<lambda>planned.
     io_bind (io_lift (refuseOverCapacity rt maint ctx (rr_folded rd)
       (map (\<lambda>(i, before, merged). \<lparr>pw_op = OpU, pw_docId = i, pw_after = Some merged, pw_before = Some before\<rparr>) planned))) (\<lambda>_.
     commit_each rt maint ctx (map (\<lambda>(i, _, merged). update_input ctx i merged) planned) 0))) s'"
    by (auto simp: io_lift_def io_bind_def [of "Ret _"] split: sum.splits)
qed

lemma wp_runDelete:
  assumes ok: "coll_ok p (rt_sha rt) B s" and ctx: "ctx_prefix ctx = p" "ctx_name ctx = collection_of p"
  shows "safe p (rt_sha rt) B (runDelete rt maint ctx state) s"
  unfolding runDelete_def
proof (rule wp_read_then [OF ok ctx])
  fix rd s' assume "coll_ok p (rt_sha rt) B s'"
  then have "safe p (rt_sha rt) B (commit_each rt maint ctx (map (delete_input ctx) ids) 0) s'" for ids
    by (rule wp_commit_each [OF _ ctx(1)]) (auto simp: delete_input_def)
  then show "safe p (rt_sha rt) B (io_bind (io_lift (result_map storedRowId (rr_rows rd))) (\<lambda>docIds.
     io_bind (io_lift (refuseOverCapacity rt maint ctx (rr_folded rd)
       (map (\<lambda>i. \<lparr>pw_op = OpD, pw_docId = i, pw_after = None, pw_before = None\<rparr>) docIds))) (\<lambda>_.
     commit_each rt maint ctx (map (delete_input ctx) docIds) 0))) s'"
    by (auto simp: io_lift_def io_bind_def [of "Ret _"] split: sum.splits)
qed

lemma wp_runReplaceById:
  assumes ok: "coll_ok p (rt_sha rt) B s" and ctx: "ctx_prefix ctx = p" "ctx_name ctx = collection_of p"
  shows "safe p (rt_sha rt) B (runReplaceById rt maint ctx i d) s"
proof -
  have commit: "safe p (rt_sha rt) B (io_bind (commit_one rt maint ctx (update_input ctx i post)) (\<lambda>_. io_return ())) s'"
    if "coll_ok p (rt_sha rt) B s'" for post s'
    by (rule col.wp_seq [where X = "\<lambda>_ _. True"], rule wp_mono [OF wp_commit_one [OF that ctx(1) unguarded]])
      (auto simp: update_input_def)
  have "safe p (rt_sha rt) B (case rr_rows rd of
       [] \<Rightarrow> io_throw NotFound
     | (_, current) # _ \<Rightarrow>
         (let post = obj_set ''_id'' (JStr i) d in
          io_bind (io_lift (validateOrThrow (ctx_schema ctx) post)) (\<lambda>_.
          io_bind (io_lift (refuseOverCapacity rt maint ctx (rr_folded rd)
            [\<lparr>pw_op = OpU, pw_docId = i, pw_after = Some post, pw_before = Some current\<rparr>])) (\<lambda>_.
          io_bind (commit_one rt maint ctx (update_input ctx i post)) (\<lambda>_. io_return ()))))) s'"
    if "coll_ok p (rt_sha rt) B s'" for rd s'
    using commit [OF that]
    by (auto simp: Let_def io_lift_def io_bind_def [of "Ret _"] split: list.splits prod.splits sum.splits)
  note read = wp_read_then [OF ok ctx this]
  show ?thesis
    unfolding runReplaceById_def
    using read by (cases "assertDocId (rt_normalize rt) i") (simp_all add: io_lift_def io_bind_def [of "Ret _"])
qed

section \<open>Insert\<close>

lemma clear_window_absent:
  assumes "decideInsertTarget win input = Inr None"
  shows "last_effect (ci_collection input) None (ci_docId input) None win = None"
  using assms
proof (induction win rule: rev_induct)
  case (snoc e win)
  let ?P = "\<lambda>e. le_collection e = ci_collection input \<and> le_doc_id e = Some (ci_docId input)"
  show ?case
  proof (cases "?P e")
    case True
    then have "le_op e = OpD" using snoc.prems by (auto simp: decideInsertTarget_def split: if_splits)
    then show ?thesis using True by (simp add: last_effect_append entry_effect_def)
  next
    case False
    then have "decideInsertTarget win input = Inr None" using snoc.prems by (auto simp: decideInsertTarget_def)
    then show ?thesis using False snoc.IH by (auto simp: last_effect_append entry_effect_def)
  qed
qed simp

definition same_write :: "runtime \<Rightarrow> commit_input \<Rightarrow> log_entry \<Rightarrow> bool" where
  "same_write rt input e \<longleftrightarrow> le_session e = rt_session rt \<and> le_op e = ci_op input \<and> le_collection e = ci_collection input \<and>
     le_doc_id e = Some (ci_docId input) \<and>
     map_option doc_wire (le_after e) = (if ci_op input \<noteq> OpD then map_option doc_wire (ci_body input) else None)"

lemma mint_same_write:
  assumes "entry_wire e0 = entry_wire e" "entry_wire e = entry_wire (mintEntry rt ts input n)"
  shows "same_write rt input e0"
proof -
  from assms have eq: "entry_wire e0 = entry_wire (mintEntry rt ts input n)" by simp
  from arg_cong [OF eq, of le_op] arg_cong [OF eq, of le_session] arg_cong [OF eq, of le_collection] arg_cong [OF eq, of le_doc_id] arg_cong [OF eq, of le_after]
  show ?thesis by (simp add: same_write_def entry_wire_def mintEntry_def)
qed

text \<open>The row entered the history where it was absent, after \<open>g\<close>.\<close>

definition first_write :: "string \<Rightarrow> runtime \<Rightarrow> snapshot_body set \<Rightarrow> log_entry list \<Rightarrow> commit_input \<Rightarrow> store \<Rightarrow> bool" where
  "first_write p rt B g input s \<longleftrightarrow> (\<exists>x n. coll_inv p (rt_sha rt) B s (g @ x) \<and> length g \<le> n \<and> n < length (g @ x) \<and>
     same_write rt input ((g @ x) ! n) \<and> map_of (view (collection_of p) (take n (g @ x))) (ci_docId input) = None)"

lemma first_write_stable:
  assumes "first_write p rt B g input s" and rel: "sys_rel p (rt_sha rt) B s s'"
  shows "first_write p rt B g input s'"
proof -
  from assms(1) obtain x n where h: "coll_inv p (rt_sha rt) B s (g @ x)" "length g \<le> n" "n < length (g @ x)" "same_write rt input ((g @ x) ! n)"
     "map_of (view (collection_of p) (take n (g @ x))) (ci_docId input) = None" by (auto simp: first_write_def)
  obtain y where y: "coll_inv p (rt_sha rt) B s' ((g @ x) @ y)" using coll_inv_stable [OF h(1) rel] by blast
  have "((g @ x) @ y) ! n = (g @ x) ! n" "take n ((g @ x) @ y) = take n (g @ x)"
    using h(3) by (simp_all add: nth_append del: append_assoc)
  with h y show ?thesis unfolding first_write_def by (intro exI [of _ "x @ y"] exI [of _ n]) simp
qed

lemma scans_by_id: "scans rt (ctx\<lparr>ctx_indexes := []\<rparr>) (id_state i n)"
  by (simp add: scans_def planQuery_def id_state_def id_wire_def)

lemma scan_by_id: "scan_rows (id_state i n) docs = Inr (case map_of docs i of None \<Rightarrow> [] | Some d \<Rightarrow> [(i, d)])"
  by (simp add: scan_rows_def id_state_def id_wire_def singleIdFromPredicate_def)

lemma one_row_kept: "order_and_limit co (id_state i (Some 1)) [r] = [r]"
  by (simp add: order_and_limit_def id_state_def apply_limit_def)

lemma insert_guard_of:
  assumes "T \<le> MAX_SAFE_INTEGER"
  shows "guard_of (insert_input ctx i post T replay) = Some T"
  using assms nonneg_integer_json_nat [of T]
  by (simp add: guard_of_def insert_input_def safe_integer_def json_nat_def)

lemma insert_guard_large:
  assumes "\<not> T \<le> MAX_SAFE_INTEGER"
  shows "\<exists>e. check_input rt (insert_input ctx i post T replay) = Inl e"
proof -
  have "safe_integer (Fin (of_nat T)) = None"
    using assms nonneg_integer_json_nat [of T] by (simp add: safe_integer_def json_nat_def)
  then have "assertInsertGuardShape (insert_input ctx i post T replay) \<lparr>absentBelowSeq = Fin (of_nat T), replayIdentical = replay\<rparr> = throw InvalidConfig"
    by (simp add: assertInsertGuardShape_def insert_input_def)
  then show ?thesis
    by (auto simp: check_input_def insert_input_def result_bind_def split: sum.splits if_splits)
qed

text \<open>The read found no row; the guard's window found none either.\<close>

lemma insert_lands:
  assumes ok: "coll_ok p (rt_sha rt) B s" and read: "read_ok p rt B a g (ctx\<lparr>ctx_indexes := []\<rparr>) (id_state i (Some 1)) (Inr rd) s"
    and rows: "rr_rows rd = []" and T: "rr_tail rd \<le> MAX_SAFE_INTEGER"
    and commit: "commit_ok p rt B (insert_input ctx i post (rr_tail rd) False) (Inr res) s"
    and ctx: "ctx_name ctx = collection_of p" and floor: "delete_floor p (lookup s) \<le> a"
  shows "first_write p rt B g (insert_input ctx i post (rr_tail rd) False) s"
proof -
  let ?T = "rr_tail rd" and ?in = "insert_input ctx i post (rr_tail rd) False" and ?sha = "rt_sha rt"
  let ?e = "entry res" and ?coll = "collection_of p"
  from commit obtain ts e0 win where e: "entry_wire ?e = entry_wire (mintEntry rt ts ?in (le_seq ?e))"
    "seen p s (le_seq ?e) e0" "entry_wire e0 = entry_wire ?e" and win: "window_clear p s ?in (Some ?T) win (le_seq ?e)"
    by (auto simp: commit_ok_def Let_def insert_guard_of [OF T]) (simp add: may_replay_def insert_input_def)
  from win obtain es where es: "?T + length es = le_seq ?e" "seen_from p s ?T es" "decideInsertTarget es ?in = Inr None"
    by (auto simp: window_clear_def split: option.splits)
  obtain x where h: "coll_inv p ?sha B s (g @ x)" "delete_floor p (lookup s) \<le> ?T" "?T \<le> length (g @ x)" "length g \<le> ?T"
    "map_of (view ?coll (take ?T (g @ x))) i = None"
  proof (cases "rr_folded rd")
    case None
    then have "?T = 0" "a = 0" "g = []" using read by (simp_all add: read_ok_def scans_by_id)
    moreover obtain h where "coll_inv p ?sha B s h" using ok by (auto simp: coll_ok_def)
    ultimately show ?thesis using that [of h] floor by (simp add: view_def foldLogEntriesOnto_def)
  next
    case (Some f)
    obtain head base bs where f: "f = (head, base, bs)" by (cases f)
    with Some read rows have a: "a \<le> log_seq_start head" and pre: "folded_prefix p ?sha B g head base bs ?T s"
      and ro: "rows_ok p rt (ctx\<lparr>ctx_indexes := []\<rparr>) (id_state i (Some 1)) base bs []"
      by (auto simp: read_ok_def)
    have fl: "delete_floor p (lookup s) \<le> log_seq_start head" using floor a by simp
    from ro have "map_of (foldLogEntriesOnto base bs ?coll None) i = None"
      by (auto simp: rows_ok_def scans_by_id scan_by_id one_row_kept split: option.splits)
    moreover obtain x where "coll_inv p ?sha B s (g @ x)" "length g \<le> ?T" "?T \<le> length (g @ x)"
      "map_of (foldLogEntriesOnto base bs ?coll None) = map_of (view ?coll (take ?T (g @ x)))"
      using folded_prefix_view [OF pre fl] by blast
    moreover have "log_seq_start head \<le> ?T" using pre fl by (auto simp: folded_prefix_def)
    ultimately show ?thesis using that [of x] fl by simp
  qed
  let ?n = "le_seq ?e" and ?h = "g @ x"
  have slots: "\<forall>j < length es. ?T + j < length ?h \<and> es ! j = ?h ! (?T + j)"
    by (rule seen_from_history [OF h(1) es(2) h(2)])
  have here: "?n < length ?h \<and> e0 = ?h ! ?n"
    using seen_from_history [OF h(1), of ?n "[e0]"] e(2) h(2) es(1) by (simp add: seen_from_Cons del: length_append)
  have len: "length (take ?T ?h) = ?T" using h(3) by simp
  have "take ?n ?h = take ?T ?h @ es"
  proof (rule nth_equalityI)
    show "length (take ?n ?h) = length (take ?T ?h @ es)" 
      using here h(3) es(1) by (simp only: length_append [of "take _ _"] length_take min_absorb2 less_imp_le)
    show "take ?n ?h ! j = (take ?T ?h @ es) ! j" if "j < length (take ?n ?h)" for j
      using that slots es(1) len by (auto simp: nth_append [of "take _ _"] simp del: take_append length_append)
  qed
  then have "map_of (view ?coll (take ?n ?h)) i = last_effect ?coll None i None es"
    using h(5) by (simp add: view_def fold_append fold_map del: take_append)
  also have "\<dots> = None" using clear_window_absent [OF es(3)] by (simp add: insert_input_def ctx)
  finally have "map_of (view ?coll (take ?n ?h)) (ci_docId ?in) = None" by (simp add: insert_input_def)
  moreover have "same_write rt ?in (?h ! ?n)" using mint_same_write [OF e(3,1)] here by simp
  moreover have "length g \<le> ?n" using h(4) es(1) by simp
  ultimately show ?thesis using h(1) here unfolding first_write_def by blast
qed

definition insert_ok ::
  "string \<Rightarrow> runtime \<Rightarrow> snapshot_body set \<Rightarrow> nat \<Rightarrow> log_entry list \<Rightarrow> read_context \<Rightarrow> doc \<Rightarrow> string option \<Rightarrow> string result \<Rightarrow> store \<Rightarrow> bool" where
  "insert_ok p rt B a g ctx d mintedId r s \<longleftrightarrow> (\<forall>i. r = Inr i \<longrightarrow> i = insert_id rt d \<and>
     (mintedId = None \<longrightarrow> delete_floor p (lookup s) \<le> a \<longrightarrow>
       (\<exists>post T. insert_checks rt ctx d mintedId = Inr post \<and>
          first_write p rt B g (insert_input ctx i post T False) s)))"

lemma insert_ok_Inl [simp]: "insert_ok p rt B a g ctx d mintedId (Inl e) s"
  by (simp add: insert_ok_def)

lemma insert_ok_stable:
  assumes "coll_ok p (rt_sha rt) B s" "sys_rel p (rt_sha rt) B s s'" "insert_ok p rt B a g ctx d mintedId r s"
  shows "insert_ok p rt B a g ctx d mintedId r s'"
  using assms(3) first_write_stable [OF _ assms(2)] order_trans [OF delete_floor_mono [OF assms(1,2)]]
  unfolding insert_ok_def by blast

lemma wp_insert_commit:
  assumes ok: "coll_ok p (rt_sha rt) B s" and ctx: "ctx_prefix ctx = p" "ctx_name ctx = collection_of p"
    and checks: "insert_checks rt ctx d mintedId = Inr post"
    and read: "read_ok p rt B a g (ctx\<lparr>ctx_indexes := []\<rparr>) (id_state (insert_id rt d) (Some 1)) (Inr rd) s"
    and rows: "rr_rows rd = []"
  shows "wp (sys_rel p (rt_sha rt) B) (allowed B)
    (io_bind (commit_one rt maint ctx (insert_input ctx (insert_id rt d) post (rr_tail rd) (mintedId \<noteq> None)))
      (\<lambda>_. io_return (insert_id rt d))) (insert_ok p rt B a g ctx d mintedId) s"
proof (cases "rr_tail rd \<le> MAX_SAFE_INTEGER")
  case T: True
  let ?i = "insert_id rt d" and ?in = "insert_input ctx (insert_id rt d) post (rr_tail rd) (mintedId \<noteq> None)" and ?R = "sys_rel p (rt_sha rt) B"
  have "guard_probed p (rt_sha rt) B s ?in"
    using read T insert_guard_of [OF T, of ctx ?i post "mintedId \<noteq> None"]
    by (auto simp: guard_probed_def guard_of_def read_ok_def insert_input_def)
  note commit = col.wp_since [OF wp_commit_one [OF ok ctx(1) this, of maint]]
  show ?thesis
  proof (rule wp_io_bind, rule wp_mono [OF commit], elim conjE)
    fix r s' assume c: "commit_ok p rt B ?in r s'" and rel: "?R s s'"
    have "insert_ok p rt B a g ctx d mintedId (Inr ?i) s'" if r: "r = Inr res" for res
      unfolding insert_ok_def
    proof (intro allI impI conjI)
      fix i assume i: "Inr ?i = (Inr i :: string result)"
      then show "i = insert_id rt d" by simp
      assume m: "mintedId = None" and floor: "delete_floor p (lookup s') \<le> a"
      have "first_write p rt B g (insert_input ctx ?i post (rr_tail rd) False) s'"
        using c r m by (intro insert_lands [OF coll_ok_stable [OF ok rel] read_ok_stable [OF ok rel read] rows T _ ctx(2) floor]) simp
      then show "\<exists>post T. insert_checks rt ctx d mintedId = Inr post \<and>
          first_write p rt B g (insert_input ctx i post T False) s'"
        using checks i by blast
    qed
    then show "case r of Inl e \<Rightarrow> insert_ok p rt B a g ctx d mintedId (Inl e) s'
       | Inr x \<Rightarrow> wp ?R (allowed B) (io_return ?i) (insert_ok p rt B a g ctx d mintedId) s'"
      by (simp split: sum.splits)
  qed
next
  case False
  then obtain e where e: "check_input rt (insert_input ctx (insert_id rt d) post (rr_tail rd) (mintedId \<noteq> None)) = Inl e"
    using insert_guard_large by blast
  then show ?thesis
    by (cases "writerFor ctx")
      (auto simp: commit_one_def commit_def commit_attempt_def io_lift_def io_bind_def [of "Ret _"])
qed

lemma wp_runInsert:
  assumes ok: "coll_ok p (rt_sha rt) B s" and a: "a \<le> seq_floor p (lookup s)" and g: "extends p (rt_sha rt) B s g"
    and ctx: "ctx_prefix ctx = p" "ctx_name ctx = collection_of p"
  shows "wp (sys_rel p (rt_sha rt) B) (allowed B) (runInsert rt maint ctx d mintedId) (insert_ok p rt B a g ctx d mintedId) s"
proof -
  let ?i = "insert_id rt d" and ?R = "sys_rel p (rt_sha rt) B" and ?Q = "insert_ok p rt B a g ctx d mintedId"
  have ctx': "ctx_prefix (ctx\<lparr>ctx_indexes := []\<rparr>) = p" "ctx_name (ctx\<lparr>ctx_indexes := []\<rparr>) = collection_of p"
    by (simp_all add: ctx)
  note read = wp_keep_ok [OF wp_runReadRows [OF ok g a ctx', of "id_state ?i (Some 1)"] ok]
  have rest: "wp ?R (allowed B) (case rr_rows existing of
        (_, row) # _ \<Rightarrow>
          if mintedId \<noteq> None \<and> insertReplaysRow post (Some row) then io_return ?i else io_throw AlreadyExists
      | [] \<Rightarrow>
          io_bind (io_lift (refuseOverCapacity rt maint ctx (rr_folded existing)
            [\<lparr>pw_op = OpI, pw_docId = ?i, pw_after = Some post, pw_before = None\<rparr>])) (\<lambda>_.
          io_bind (commit_one rt maint ctx (insert_input ctx ?i post (rr_tail existing) (mintedId \<noteq> None))) (\<lambda>_.
          io_return ?i))) ?Q s1"
    if "insert_checks rt ctx d mintedId = Inr post" "coll_ok p (rt_sha rt) B s1"
      "read_ok p rt B a g (ctx\<lparr>ctx_indexes := []\<rparr>) (id_state ?i (Some 1)) (Inr existing) s1" for post existing s1
  proof (cases "rr_rows existing")
    case Nil
    show ?thesis
      using wp_insert_commit [OF that(2) ctx that(1,3) Nil] Nil
      by (cases "refuseOverCapacity rt maint ctx (rr_folded existing)
            [\<lparr>pw_op = OpI, pw_docId = ?i, pw_after = Some post, pw_before = None\<rparr>]")
        (simp_all add: io_lift_def io_bind_def [of "Ret _"])
  next
    case (Cons r rs)
    then show ?thesis by (cases r) (auto simp: insert_ok_def)
  qed
  show ?thesis
  proof (cases "insert_checks rt ctx d mintedId")
    case (Inl e)
    then show ?thesis by (simp add: runInsert_def Let_def io_lift_def io_bind_def [of "Ret _"])
  next
    case (Inr post)
    have "wp ?R (allowed B) (io_bind (runReadRows rt (ctx\<lparr>ctx_indexes := []\<rparr>) (id_state ?i (Some 1))) (\<lambda>existing.
      case rr_rows existing of
        (_, row) # _ \<Rightarrow>
          if mintedId \<noteq> None \<and> insertReplaysRow post (Some row) then io_return ?i else io_throw AlreadyExists
      | [] \<Rightarrow>
          io_bind (io_lift (refuseOverCapacity rt maint ctx (rr_folded existing)
            [\<lparr>pw_op = OpI, pw_docId = ?i, pw_after = Some post, pw_before = None\<rparr>])) (\<lambda>_.
          io_bind (commit_one rt maint ctx (insert_input ctx ?i post (rr_tail existing) (mintedId \<noteq> None))) (\<lambda>_.
          io_return ?i)))) ?Q s"
      by (rule wp_io_bind, rule wp_mono [OF read]) (use rest [OF Inr] in \<open>auto split: sum.splits\<close>)
    then show ?thesis using Inr by (simp add: runInsert_def Let_def io_lift_def io_bind_def [of "Ret _"])
  qed
qed

end
