(* ===== verification/Feed.thy ===== *)
theory Feed
  imports Reader
begin

text \<open>
  \<^verbatim>\<open>packages/server/src/db.ts\<close>, \<^verbatim>\<open>config.ts\<close>, \<^verbatim>\<open>collection.ts\<close> and \<^verbatim>\<open>http/since.ts\<close>: the tenant-scoped
  handle with its floor-guarded log reads, the methods of a collection, and the change feed
  \<^verbatim>\<open>GET /v1/since\<close> that polls the log from a cursor. Shown here: the long poll returns.
\<close>

section \<open>The handle\<close>

text \<open>One entry of \<^verbatim>\<open>config.collections\<close>; a schema is the test of its validator.\<close>

record collection_definition =
  cd_schema :: "(doc \<Rightarrow> bool) option"
  cd_indexes :: "index_definition list option"

record db =
  db_app :: string
  db_tenant :: string
  db_schemas :: "(string \<times> (doc \<Rightarrow> bool)) list"
  db_indexes :: "(string \<times> index_definition list) list"

definition collectionsToMaps ::
  "(string \<times> collection_definition) list option \<Rightarrow>
   (string \<times> (doc \<Rightarrow> bool)) list \<times> (string \<times> index_definition list) list" where
  "collectionsToMaps collections =
     (case collections of None \<Rightarrow> ([], [])
      | Some cs \<Rightarrow>
          (List.map_filter (\<lambda>(name, def). map_option (Pair name) (cd_schema def)) cs,
           List.map_filter (\<lambda>(name, def). case cd_indexes def of
             None \<Rightarrow> None | Some ixs \<Rightarrow> if length ixs > 0 then Some (name, ixs) else None) cs))"

definition physicalPrefixFor :: "string \<Rightarrow> string \<Rightarrow> string" where
  "physicalPrefixFor app tenant = ''app/'' @ app @ ''/tenant/'' @ tenant @ ''/''"

definition assertKeySegment :: "string \<Rightarrow> unit result" where
  "assertKeySegment v = assertPathSegment v"

definition db_create :: "string \<Rightarrow> string \<Rightarrow> (string \<times> collection_definition) list option \<Rightarrow> db result" where
  "db_create app tenant collections =
     result_bind (assertKeySegment app) (\<lambda>_.
     result_bind (assertKeySegment tenant) (\<lambda>_.
     let (schemas, indexes) = collectionsToMaps collections in
     Inr \<lparr>db_app = app, db_tenant = tenant, db_schemas = schemas, db_indexes = indexes\<rparr>))"

definition manifest_prefix :: "db \<Rightarrow> string \<Rightarrow> string" where
  "manifest_prefix d name = physicalPrefixFor (db_app d) (db_tenant d) @ ''manifests/'' @ name"

definition collectionReadContext :: "db \<Rightarrow> string \<Rightarrow> read_context result" where
  "collectionReadContext d name =
     result_bind (assertKeySegment name) (\<lambda>_.
     Inr \<lparr>ctx_prefix = manifest_prefix d name, ctx_name = name, ctx_schema = map_of (db_schemas d) name,
          ctx_indexes = (case map_of (db_indexes d) name of None \<Rightarrow> [] | Some ixs \<Rightarrow> ixs)\<rparr>)"

section \<open>The methods of a collection\<close>

definition seed :: query_state where
  "seed = \<lparr>qs_wire = None, qs_order = None, qs_limit = None\<rparr>"

definition byId :: "string \<Rightarrow> query_state" where
  "byId i = seed\<lparr>qs_wire := Some (id_wire i)\<rparr>"

definition collection_first :: "runtime \<Rightarrow> read_context \<Rightarrow> doc option io" where
  "collection_first rt ctx = query_first rt ctx seed"

definition collection_all :: "runtime \<Rightarrow> read_context \<Rightarrow> doc list io" where
  "collection_all rt ctx = query_all rt ctx seed"

definition collection_count :: "runtime \<Rightarrow> read_context \<Rightarrow> nat io" where
  "collection_count rt ctx = query_count rt ctx seed"

definition collection_get :: "runtime \<Rightarrow> read_context \<Rightarrow> string \<Rightarrow> doc option io" where
  "collection_get rt ctx i = query_first rt ctx (byId i)"

definition collection_where :: "doc \<Rightarrow> query_state result" where
  "collection_where p = query_where seed p"

definition collection_order :: "(string \<times> direction) list \<Rightarrow> query_state" where
  "collection_order spec = seed\<lparr>qs_order := Some spec\<rparr>"

definition collection_limit :: "int \<Rightarrow> query_state" where
  "collection_limit n = seed\<lparr>qs_limit := Some n\<rparr>"

definition collection_insert :: "runtime \<Rightarrow> maintenance_dispatch option \<Rightarrow> read_context \<Rightarrow> doc \<Rightarrow> string io" where
  "collection_insert rt maint ctx d = runInsert rt maint ctx d None"

definition collection_update :: "runtime \<Rightarrow> maintenance_dispatch option \<Rightarrow> read_context \<Rightarrow> string \<Rightarrow> doc \<Rightarrow> nat io" where
  "collection_update rt maint ctx i patch = runUpdate rt maint ctx (byId i) patch"

definition collection_replace :: "runtime \<Rightarrow> maintenance_dispatch option \<Rightarrow> read_context \<Rightarrow> string \<Rightarrow> doc \<Rightarrow> unit io" where
  "collection_replace rt maint ctx i d = runReplaceById rt maint ctx i d"

definition collection_delete :: "runtime \<Rightarrow> maintenance_dispatch option \<Rightarrow> read_context \<Rightarrow> string \<Rightarrow> nat io" where
  "collection_delete rt maint ctx i = runDelete rt maint ctx (byId i)"

section \<open>Floor-guarded log reads\<close>

definition assertAtOrAboveLogFloor :: "nat \<Rightarrow> current_json \<Rightarrow> unit result" where
  "assertAtOrAboveLogFloor seq current =
     (let deleteFloor = certifiedDeleteFloor current in
      if deleteFloor > 0 \<and> seq < deleteFloor then throw Internal
      else if seq < logSeqStartOf current then throw Internal
      else Inr ())"

definition getCurrentJson :: "db \<Rightarrow> string \<Rightarrow> (current_json \<times> string) option io" where
  "getCurrentJson d collection =
     io_bind (io_lift (assertPathSegment collection)) (\<lambda>_.
     readCurrentJson (manifest_prefix d collection @ ''/current.json''))"

definition getLogEntry :: "db \<Rightarrow> string \<Rightarrow> nat \<Rightarrow> current_json \<Rightarrow> log_entry option io" where
  "getLogEntry d collection seq current =
     io_bind (io_lift (assertPathSegment collection)) (\<lambda>_.
     io_bind (io_lift (assertAtOrAboveLogFloor seq current)) (\<lambda>_.
     io_bind (io_get (logObjectKey (manifest_prefix d collection) seq)) (\<lambda>got.
     case got of None \<Rightarrow> io_return None
     | Some (b, _) \<Rightarrow>
         (case decode_log_entry b of None \<Rightarrow> io_throw InvalidResponse | Some e \<Rightarrow> io_return (Some e)))))"

definition probeLogTail :: "db \<Rightarrow> string \<Rightarrow> nat \<Rightarrow> current_json \<Rightarrow> nat io" where
  "probeLogTail d collection hint current =
     io_bind (io_lift (assertPathSegment collection)) (\<lambda>_.
     io_bind (io_lift (assertAtOrAboveLogFloor hint current)) (\<lambda>_.
     io_bind (probeTailFrom (manifest_prefix d collection) hint None) (\<lambda>(tailSeq, _).
     io_return tailSeq)))"

section \<open>Cursors\<close>

definition SEQ_CHARS :: nat where "SEQ_CHARS = (COUNT_BIT_WIDTH + 4) div 5"

definition base32_char :: "char \<Rightarrow> bool" where
  "base32_char c \<longleftrightarrow> c \<in> set ''0123456789abcdefghijklmnopqrstuv''"

text \<open>\<^verbatim>\<open>^[0-9a-v]+_[0-9a-v]+_[0-9a-v]{11}$\<close>; no character class contains the separator.\<close>

definition LSN_RE :: "string \<Rightarrow> bool" where
  "LSN_RE s =
     (case split_on (CHR ''_'') s of
        [time, session, seq] \<Rightarrow> time \<noteq> [] \<and> list_all base32_char time \<and> session \<noteq> [] \<and> list_all base32_char session \<and>
          length seq = SEQ_CHARS \<and> list_all base32_char seq
      | _ \<Rightarrow> False)"

text \<open>\<^verbatim>\<open>^(?:[0-9a-f]+|-)$\<close>.\<close>

definition CURSOR_GENERATION_RE :: "string \<Rightarrow> bool" where
  "CURSOR_GENERATION_RE g \<longleftrightarrow> GENERATION_RE g \<or> g = ''-''"

definition decodeCursor :: "string \<Rightarrow> (string \<times> string) result" where
  "decodeCursor cursor =
     result_bind (parseCursor cursor) (\<lambda>(generation, lsn).
     if \<not> CURSOR_GENERATION_RE generation \<or> \<not> LSN_RE lsn then throw SchemaError else Inr (generation, lsn))"

section \<open>One poll\<close>

definition DEFAULT_MAX_EVENTS :: nat where "DEFAULT_MAX_EVENTS = 1024"

text \<open>
  Where the poll starts. The sequence a cursor names may be \<^verbatim>\<open>NaN\<close> (no rejection, and a loop that does
  not run) or negative (below every floor).
\<close>

definition cursor_start :: "(string \<times> string) option \<Rightarrow> current_json \<Rightarrow> nat option result" where
  "cursor_start decoded head =
     (case decoded of
        None \<Rightarrow> Inr (Some (logSeqStartOf head))
      | Some (generation, lsn) \<Rightarrow>
          if generation \<noteq> (case cj_generation head of None \<Rightarrow> NO_GENERATION | Some g \<Rightarrow> g) then throw SchemaError
          else result_bind (lsnParts lsn) (\<lambda>(_, seq).
            case seq of None \<Rightarrow> Inr None
            | Some cursorSeq \<Rightarrow>
                if cursorSeq < int (logSeqStartOf head) then throw SchemaError else Inr (Some (nat cursorSeq + 1))))"

text \<open>The sequential reads; an entry that is gone is skipped.\<close>

fun poll_entries :: "db \<Rightarrow> string \<Rightarrow> current_json \<Rightarrow> nat list \<Rightarrow> log_entry list io" where
  "poll_entries d collection head [] = io_return []"
| "poll_entries d collection head (s # ss) =
     io_bind (getLogEntry d collection s head) (\<lambda>entry.
     io_bind (poll_entries d collection head ss) (\<lambda>entries.
     io_return (case entry of None \<Rightarrow> entries | Some e \<Rightarrow> e # entries)))"

type_synonym polled = "log_entry list \<times> string option"

definition pollOnce :: "db \<Rightarrow> string \<Rightarrow> string \<Rightarrow> polled io" where
  "pollOnce d collection cursor =
     io_bind (io_lift (if cursor \<noteq> [] then result_bind (decodeCursor cursor) (\<lambda>c. Inr (Some c)) else Inr None)) (\<lambda>decoded.
     io_bind (getCurrentJson d collection) (\<lambda>rd.
     case rd of None \<Rightarrow> io_return ([], None)
     | Some (head, _) \<Rightarrow>
         io_bind (probeLogTail d collection (max (logSeqStartOf head) (tail_hint head)) head) (\<lambda>tailSeq.
         io_bind (io_lift (cursor_start decoded head)) (\<lambda>start.
         case start of None \<Rightarrow> io_return ([], cj_generation head)
         | Some startSeq \<Rightarrow>
             io_bind (poll_entries d collection head [startSeq ..< min tailSeq (startSeq + DEFAULT_MAX_EVENTS)]) (\<lambda>entries.
             io_return (entries, cj_generation head))))))"

definition listEventsSince :: "db \<Rightarrow> string \<Rightarrow> string \<Rightarrow> log_entry list io" where
  "listEventsSince d collection cursor =
     io_bind (pollOnce d collection cursor) (\<lambda>(events, _). io_return events)"

definition nextCursor :: "polled \<Rightarrow> string" where
  "nextCursor polled = formatCursor (snd polled) (le_lsn (last (fst polled)))"

section \<open>The long poll\<close>

text \<open>
  The waiting loop. \<open>now k\<close> is the clock after the \<open>k\<close>-th tick's poll, \<open>aborted k\<close> whether the client has
  gone before (\<open>2 * k\<close>) or during (\<open>2 * k + 1\<close>) that tick: an abort settles the answer first. The fuel bounds
  the ticks; None is a request still waiting when it runs out.
\<close>

type_synonym since_response = "log_entry list \<times> string"

fun ticks :: "nat \<Rightarrow> nat \<Rightarrow> db \<Rightarrow> string \<Rightarrow> string \<Rightarrow> (nat \<Rightarrow> int) \<Rightarrow> int \<Rightarrow> (nat \<Rightarrow> bool) \<Rightarrow> since_response option io" where
  "ticks 0 k d collection cursor now deadline aborted = io_return None"
| "ticks (Suc n) k d collection cursor now deadline aborted =
     (if aborted (2 * k) then io_return (Some ([], cursor))
      else prog_bind (pollOnce d collection cursor) (\<lambda>r.
        if aborted (2 * k + 1) then io_return (Some ([], cursor))
        else case r of Inl e \<Rightarrow> Ret (Inl e)
        | Inr polled \<Rightarrow>
            if length (fst polled) > 0 then io_return (Some (fst polled, nextCursor polled))
            else if deadline - now k \<le> 0 then io_return (Some ([], cursor))
            else ticks n (Suc k) d collection cursor now deadline aborted))"

definition longPollSince ::
  "nat \<Rightarrow> db \<Rightarrow> string \<Rightarrow> string \<Rightarrow> int \<Rightarrow> (nat \<Rightarrow> int) \<Rightarrow> int \<Rightarrow> (nat \<Rightarrow> bool) \<Rightarrow> since_response option io" where
  "longPollSince fuel d collection cursor start now timeoutMs aborted =
     io_bind (io_lift (if cursor \<noteq> [] then result_bind (decodeCursor cursor) (\<lambda>_. Inr ()) else Inr ())) (\<lambda>_.
     io_bind (pollOnce d collection cursor) (\<lambda>initial.
     if length (fst initial) > 0 then io_return (Some (fst initial, nextCursor initial))
     else ticks fuel 0 d collection cursor now (start + timeoutMs) aborted))"

section \<open>The waiting loop ends\<close>

text \<open>A clock that advances at least a millisecond per tick.\<close>

lemma ticks_answer:
  assumes "\<And>k. now (Suc k) \<ge> now k + 1" "deadline - now k \<le> int n"
  shows "Inr None \<notin> set_prog (ticks (Suc n) k d collection cursor now deadline aborted)"
  using assms(2)
proof (induction n arbitrary: k)
  case 0
  then show ?case by (auto split: sum.splits if_splits)
next
  case (Suc n)
  have "deadline - now (Suc k) \<le> int n" using Suc.prems assms(1) [of k] by simp
  with Suc.IH have "Inr None \<notin> set_prog (ticks (Suc n) (Suc k) d collection cursor now deadline aborted)" by blast
  then show ?case unfolding ticks.simps(2) [of "Suc n"] by (auto split: sum.splits if_splits simp del: ticks.simps)
qed

text \<open>
  (C19) The long poll returns. With a clock that advances by a millisecond from tick to tick,
  \<open>timeoutMs\<close> ticks are enough: the request answers or fails, whatever the store does and whether or
  not the client goes away.
\<close>

theorem longPollSince_returns:
  assumes "\<And>k. now (Suc k) \<ge> now k + 1" "start \<le> now 0"
  shows "Inr None \<notin> set_prog (longPollSince (Suc (nat timeoutMs)) d collection cursor start now timeoutMs aborted)"
proof -
  have "Inr None \<notin> set_prog (ticks (Suc (nat timeoutMs)) 0 d collection cursor now (start + timeoutMs) aborted)"
    by (rule ticks_answer) (use assms in auto)
  then show ?thesis
    unfolding longPollSince_def by (auto simp: results_io_bind split: if_splits simp del: ticks.simps)
qed

theorem longPollSince_returns_witness:
  "Inr None \<notin> set_prog (longPollSince 26 \<lparr>db_app = ''a'', db_tenant = ''t'', db_schemas = [], db_indexes = []\<rparr>
     ''c'' [] 100 (\<lambda>k. 100 + 3 * int k) 25 (\<lambda>k. k = 9))"
  using longPollSince_returns [of "\<lambda>k. 100 + 3 * int k" 100 25] by simp

end
