(* ===== verification/Polls.thy ===== *)
theory Polls
  imports Reads Feed
begin

text \<open>
  The change feed among the other threads. A poll delivers a run of consecutive history entries
  that starts right after its cursor and leaves out nothing that was committed when the request began,
  unless log retirement overtakes the manifest the poll read.
\<close>

section \<open>Cursors the shape check admits name a sequence\<close>

lemma base32_digit: "base32_char c \<Longrightarrow> \<exists>v < 32. digit_val c = Some v"
proof -
  have "list_all (\<lambda>c. case digit_val c of Some v \<Rightarrow> v < 32 | None \<Rightarrow> False) ''0123456789abcdefghijklmnopqrstuv''" by code_simp
  moreover assume "base32_char c"
  ultimately show ?thesis unfolding base32_char_def list_all_iff by (fastforce split: option.splits)
qed

lemma LSN_RE_seq:
  assumes "LSN_RE lsn"
  shows "\<exists>session seq. lsnParts lsn = Inr (session, Some seq)"
proof -
  from assms obtain t se q where parts: "split_on (CHR ''_'') lsn = [t, se, q]" and q: "length q = SEQ_CHARS" "list_all base32_char q"
    by (auto simp: LSN_RE_def split: list.splits)
  then obtain c cs where c: "q = c # cs" "base32_char c" by (cases q) (auto simp: SEQ_CHARS_def COUNT_BIT_WIDTH_def)
  then obtain v where "v < 32" "digit_val c = Some v" using base32_digit by blast
  with c(1) parts show ?thesis by (simp add: lsnParts_def str2uintDesc_def parseInt_radix_def)
qed

text \<open>The cursor of a request, decoded.\<close>

definition decode_opt :: "string \<Rightarrow> (string \<times> string) option result" where
  "decode_opt cursor = (if cursor \<noteq> [] then result_bind (decodeCursor cursor) (\<lambda>c. Inr (Some c)) else Inr None)"

lemma cursor_start_some:
  assumes "decode_opt cursor = Inr decoded" "cursor_start decoded head = Inr st"
  shows "\<exists>start. st = Some start \<and> log_seq_start head \<le> start"
proof (cases decoded)
  case (Some c)
  with assms(1) have "LSN_RE (snd c)"
    by (auto simp: decode_opt_def decodeCursor_def result_bind_def split: if_splits sum.splits prod.splits)
  then obtain se q where "lsnParts (snd c) = Inr (se, Some q)" using LSN_RE_seq by blast
  with assms(2) Some show ?thesis
    by (auto simp: cursor_start_def logSeqStartOf_def result_bind_def split: prod.splits if_splits)
qed (use assms(2) in \<open>auto simp: cursor_start_def logSeqStartOf_def\<close>)

text \<open>The LSNs the writer mints pass the shape check.\<close>

lemma base32_digit_char: "d < 32 \<Longrightarrow> base32_char (digit_char d)"
proof -
  have "list_all (\<lambda>d. base32_char (digit_char d)) [0 ..< 32]" by code_simp
  then show "d < 32 \<Longrightarrow> base32_char (digit_char d)" by (auto simp: list_all_iff)
qed

lemma uint2strDesc_base32: "0 \<le> n \<Longrightarrow> n < 2 ^ bits \<Longrightarrow> list_all base32_char (uint2strDesc n bits)"
  using uint2strDesc_chars [of n bits] base32_digit_char by (fastforce simp: list_all_iff)

lemma uint2strDesc_length:
  assumes "0 < bits" "0 \<le> n" "n < 2 ^ bits"
  shows "length (uint2strDesc n bits) = (bits + 4) div 5"
proof -
  note d = desc_nat [OF assms(2,3)]
  have "length (uint2str (int (nat (2 ^ bits - 1 - n))) bits) = (bits + 4) div 5"
    unfolding uint2str_digits by (simp add: pad_digits_length_bits [OF assms(1) d(2)])
  then show ?thesis unfolding uint2strDesc_def by (simp only: d(1) [symmetric])
qed

lemma LSN_RE_minted:
  assumes t: "timestamp e = Inr t" and session: "session \<noteq> []" "list_all base32_char session"
    and seq: "0 \<le> seq" "seq < 2 ^ COUNT_BIT_WIDTH"
  shows "LSN_RE (mint_lsn t session seq)"
proof -
  note ts = timestamp_Inr [OF t]
  have no: "CHR ''_'' \<notin> set x" if "list_all base32_char x" for x
  proof
    assume "CHR ''_'' \<in> set x"
    with that have "base32_char (CHR ''_'')" by (simp add: list_all_iff)
    then show False by (simp add: base32_char_def)
  qed
  have t32: "list_all base32_char t" "t \<noteq> []"
    using ts uint2strDesc_base32 [of e TIMESTAMP_BIT_WIDTH] uint2strDesc_length [of TIMESTAMP_BIT_WIDTH e]
    by (auto simp: TIMESTAMP_BIT_WIDTH_def)
  have q: "list_all base32_char (countKey seq)" "length (countKey seq) = SEQ_CHARS"
    using uint2strDesc_base32 [OF seq] uint2strDesc_length [OF _ seq] by (auto simp: countKey_def SEQ_CHARS_def COUNT_BIT_WIDTH_def)
  have "split_on (CHR ''_'') (mint_lsn t session seq) = [t, session, countKey seq]"
    using no [OF t32(1)] no [OF session(2)] no [OF q(1)] by (simp add: mint_lsn_def split_on_append split_on_notin)
  then show ?thesis using t32 q session by (simp add: LSN_RE_def)
qed

text \<open>
  A session id is the first hex digits of a \<^verbatim>\<open>uuid()\<close>: base-32 digits, at least one. With it the LSN of an
  entry of the history leads back to the entry's sequence.
\<close>

definition session_id :: "string \<Rightarrow> bool" where
  "session_id i \<longleftrightarrow> i \<noteq> [] \<and> list_all base32_char i"

lemma minted_lsn:
  assumes "entry_ok e" "session_id (le_session e)" "le_seq e < 2 ^ COUNT_BIT_WIDTH"
  shows "LSN_RE (le_lsn e)" "lsnParts (le_lsn e) = Inr (le_session e, Some (int (le_seq e)))"
proof -
  obtain ms t where t: "timestamp ms = Inr t" and lsn: "le_lsn e = mint_lsn t (le_session e) (int (le_seq e))"
    using assms(1) by (auto simp: entry_ok_def)
  have session: "le_session e \<noteq> []" "list_all base32_char (le_session e)" using assms(2) by (simp_all add: session_id_def)
  have seq: "0 \<le> int (le_seq e)" "int (le_seq e) < 2 ^ COUNT_BIT_WIDTH" using assms(3) by (simp_all add: of_nat_less_numeral_power_cancel_iff)
  have "\<not> base32_char (CHR ''_'')" by (simp add: base32_char_def)
  then have "CHR ''_'' \<notin> set (le_session e)" using session(2) by (auto simp: list_all_iff)
  then show "LSN_RE (le_lsn e)" "lsnParts (le_lsn e) = Inr (le_session e, Some (int (le_seq e)))"
    unfolding lsn using LSN_RE_minted [OF t session seq] lsnParts_mint [OF t _ seq] by simp_all
qed

text \<open>A cursor of the feed leads back to the LSN it was made of.\<close>

lemma split_on_last: "c \<notin> set ys \<Longrightarrow> split_on c (xs @ c # ys) = split_on c xs @ [ys]"
  by (induction xs) (auto simp: split_on_notin split: list.splits)

lemma set_split_on: "x \<in> set s \<Longrightarrow> x = c \<or> (\<exists>part \<in> set (split_on c s). x \<in> set part)"
  by (induction c s rule: split_on.induct) (auto split: list.splits if_splits)

lemma LSN_RE_no_dot: "LSN_RE lsn \<Longrightarrow> CHR ''.'' \<notin> set lsn"
proof
  assume re: "LSN_RE lsn" and dot: "CHR ''.'' \<in> set lsn"
  have no: "\<not> base32_char (CHR ''.'')" by (simp add: base32_char_def)
  obtain t se q where parts: "split_on (CHR ''_'') lsn = [t, se, q]" "list_all base32_char t" "list_all base32_char se" "list_all base32_char q"
    using re by (auto simp: LSN_RE_def split: list.splits)
  then show False using set_split_on [OF dot, of "CHR ''_''"] no by (auto simp: list_all_iff)
qed

lemma decode_next:
  assumes "decodeCursor (formatCursor gen lsn) = Inr (g', lsn')" "CHR ''.'' \<notin> set lsn"
  shows "lsn' = lsn"
proof (cases gen)
  case (Some gn)
  have "split_on (CHR ''.'') (gn @ CHR ''.'' # lsn) = split_on (CHR ''.'') gn @ [lsn]" by (rule split_on_last [OF assms(2)])
  with assms(1) Some show ?thesis
    by (cases "split_on (CHR ''.'') gn")
      (auto simp: decodeCursor_def parseCursor_def formatCursor_def result_bind_def split: sum.splits list.splits if_splits)
qed (use assms in \<open>auto simp: decodeCursor_def parseCursor_def formatCursor_def result_bind_def split_on_notin split: if_splits\<close>)

section \<open>What the reads return\<close>

definition covers :: "string \<Rightarrow> store \<Rightarrow> nat \<Rightarrow> nat \<Rightarrow> log_entry list \<Rightarrow> bool" where
  "covers p s a b es \<longleftrightarrow> (delete_floor p (lookup s) \<le> a \<longrightarrow> length es = b - a \<and> seen_from p s a es)"

lemma covers_stable:
  "coll_ok p sha B s \<Longrightarrow> sys_rel p sha B s s' \<Longrightarrow> covers p s a b es \<Longrightarrow> covers p s' a b es"
  using delete_floor_mono [of p sha B s s'] seen_from_stable [of p sha B s s' a es] by (auto simp: covers_def)

lemma wp_getLogEntry:
  assumes ok: "coll_ok p sha B s" and d: "manifest_prefix d coll = p" and n: "committed p sha B s (Suc n)"
  shows "wp (sys_rel p sha B) (allowed B) (getLogEntry d coll n head)
    (\<lambda>r s'. \<forall>x. r = Inr x \<longrightarrow> (case x of Some e \<Rightarrow> seen p s' n e | None \<Rightarrow> n < delete_floor p (lookup s'))) s"
proof -
  have gone: "n < delete_floor p (lookup s1)" if rel: "sys_rel p sha B s s1" and none: "lookup s1 (logObjectKey p n) = None" for s1
  proof (rule ccontr)
    assume "\<not> n < delete_floor p (lookup s1)"
    moreover obtain h where h: "coll_inv p sha B s1 h" using coll_ok_stable [OF ok rel] by (auto simp: coll_ok_def)
    moreover have "n < length h" using committed_length [OF committed_stable [OF rel n] h] by simp
    ultimately show False
      using inv_map_slot [of p sha B "lookup s1" h n] none by (simp add: coll_inv_def slot_def)
  qed
  show ?thesis
    unfolding getLogEntry_def d
    by (intro wp_lift_bind wp_io_bind [of _ _ "io_get _"] col.wp_get)
      (use coll_ok_valid [OF ok] gone in \<open>auto simp: slot_def seen_def split: option.splits elim!: decode_log_entry.elims\<close>)
qed

lemma wp_poll_entries:
  assumes "coll_ok p sha B s" "committed p sha B s b" and d: "manifest_prefix d coll = p"
  shows "wp (sys_rel p sha B) (allowed B) (poll_entries d coll head [a ..< b])
    (\<lambda>r s'. \<forall>es. r = Inr es \<longrightarrow> covers p s' a b es) s"
  using assms(1,2)
proof (induction "b - a" arbitrary: a s)
  case (Suc n)
  have up: "[a ..< b] = a # [Suc a ..< b]" using Suc.hyps(2) by (simp add: upt_conv_Cons)
  have "committed p sha B s (Suc a)" using Suc.prems(2) Suc.hyps(2) by (auto simp: committed_def)
  note one = wp_getLogEntry [OF Suc.prems(1) d this]
  show ?case
    unfolding up poll_entries.simps
  proof (rule col.wp_seq [OF one])
    fix x s1 assume rel: "sys_rel p sha B s s1"
      and x: "case x of Some e \<Rightarrow> seen p s1 a e | None \<Rightarrow> a < delete_floor p (lookup s1)"
    have ok1: "coll_ok p sha B s1" by (rule coll_ok_stable [OF Suc.prems(1) rel])
    have rest: "wp (sys_rel p sha B) (allowed B) (poll_entries d coll head [Suc a ..< b])
        (\<lambda>r s'. \<forall>es. r = Inr es \<longrightarrow> covers p s' (Suc a) b es) s1"
      using Suc.hyps(1) [OF _ ok1, of "Suc a"] committed_stable [OF rel Suc.prems(2)] Suc.hyps(2) by simp
    have ready: "covers p s2 a b (case x of None \<Rightarrow> es | Some e \<Rightarrow> e # es)"
      if rel2: "sys_rel p sha B s1 s2" and es: "covers p s2 (Suc a) b es" for s2 es
      using x es seen_stable [OF ok1 rel2] delete_floor_mono [OF ok1 rel2] Suc.hyps(2)
      by (auto simp: covers_def seen_from_Cons split: option.splits)
    show "wp (sys_rel p sha B) (allowed B) (io_bind (poll_entries d coll head [Suc a ..< b])
        (\<lambda>entries. io_return (case x of None \<Rightarrow> entries | Some e \<Rightarrow> e # entries)))
        (\<lambda>r s'. \<forall>es. r = Inr es \<longrightarrow> covers p s' a b es) s1"
      by (rule col.wp_seq [OF rest]) (use ready in auto)
  qed simp
qed (simp add: covers_def)

section \<open>A poll\<close>

text \<open>The entries from \<open>start\<close> on, up to \<open>n\<close>: all that was there when the request began, or a full batch.\<close>

definition delivered ::
  "string \<Rightarrow> (blob \<Rightarrow> string) \<Rightarrow> snapshot_body set \<Rightarrow> log_entry list \<Rightarrow> nat \<Rightarrow> log_entry list \<Rightarrow> store \<Rightarrow> bool" where
  "delivered p sha B g start events s \<longleftrightarrow>
     (\<exists>x n. coll_inv p sha B s (g @ x) \<and> n \<le> length (g @ x) \<and> events = drop start (take n (g @ x)) \<and>
        n \<le> start + DEFAULT_MAX_EVENTS \<and> min (length g) (start + DEFAULT_MAX_EVENTS) \<le> n)"

lemma delivered_stable: "sys_rel p sha B s s' \<Longrightarrow> delivered p sha B g start events s \<Longrightarrow> delivered p sha B g start events s'"
  unfolding delivered_def
proof (elim exE conjE)
  fix x n assume "sys_rel p sha B s s'" and h: "coll_inv p sha B s (g @ x)"
    and n: "n \<le> length (g @ x)" "events = drop start (take n (g @ x))"
      "n \<le> start + DEFAULT_MAX_EVENTS" "min (length g) (start + DEFAULT_MAX_EVENTS) \<le> n"
  then obtain y where y: "coll_inv p sha B s' ((g @ x) @ y)" using coll_inv_stable by blast
  have "take n (g @ x @ y) = take n (g @ x)" using n(1) by simp
  with y n show "\<exists>x n. coll_inv p sha B s' (g @ x) \<and> n \<le> length (g @ x) \<and> events = drop start (take n (g @ x)) \<and>
        n \<le> start + DEFAULT_MAX_EVENTS \<and> min (length g) (start + DEFAULT_MAX_EVENTS) \<le> n"
    by (intro exI [of _ "x @ y"] exI [of _ n]) simp
qed

definition poll_ok ::
  "string \<Rightarrow> (blob \<Rightarrow> string) \<Rightarrow> snapshot_body set \<Rightarrow> nat \<Rightarrow> log_entry list \<Rightarrow> string \<Rightarrow> polled \<Rightarrow> store \<Rightarrow> bool" where
  "poll_ok p sha B a g cursor polled s \<longleftrightarrow>
     polled = ([], None) \<and> g = [] \<or>
     (\<exists>head decoded start. a \<le> log_seq_start head \<and> log_seq_start head \<le> seq_floor p (lookup s) \<and> decode_opt cursor = Inr decoded \<and>
        cursor_start decoded head = Inr (Some start) \<and> snd polled = cj_generation head \<and>
        (delete_floor p (lookup s) \<le> log_seq_start head \<longrightarrow> delivered p sha B g start (fst polled) s))"

lemma poll_ok_stable:
  "coll_ok p sha B s \<Longrightarrow> sys_rel p sha B s s' \<Longrightarrow> poll_ok p sha B a g cursor x s \<Longrightarrow> poll_ok p sha B a g cursor x s'"
  unfolding poll_ok_def using delivered_stable delete_floor_mono seq_floor_mono order_trans by meson

lemma deliveredI:
  assumes g: "extends p sha B s g" and tail: "committed p sha B s t" "length g \<le> t"
    and es: "covers p s start (min t (start + DEFAULT_MAX_EVENTS)) es" and floor: "delete_floor p (lookup s) \<le> start"
  shows "delivered p sha B g start es s"
proof -
  let ?n = "min t (start + DEFAULT_MAX_EVENTS)"
  obtain x where h: "coll_inv p sha B s (g @ x)" using g by (auto simp: extends_def)
  have n: "?n \<le> length (g @ x)" using committed_length [OF tail(1) h] by simp
  from es floor have len: "length es = ?n - start" and seen: "seen_from p s start es" by (auto simp: covers_def)
  have "es = drop start (take ?n (g @ x))"
    by (rule nth_equalityI)
      (use seen_from_history [OF h seen floor] len n in \<open>simp_all add: less_diff_conv add.commute del: take_append drop_append length_append min_less_iff_conj\<close>)
  with h n tail(2) show ?thesis unfolding delivered_def by (intro exI [of _ x] exI [of _ ?n]) auto
qed

lemma wp_pollOnce:
  assumes ok: "coll_ok p sha B s" and g: "extends p sha B s g" and a: "a \<le> seq_floor p (lookup s)"
    and d: "manifest_prefix d coll = p"
  shows "wp (sys_rel p sha B) (allowed B) (pollOnce d coll cursor)
    (\<lambda>r s'. \<forall>x. r = Inr x \<longrightarrow> poll_ok p sha B a g cursor x s') s"
proof -
  let ?R = "sys_rel p sha B" and ?Q = "\<lambda>r s'. \<forall>x. r = Inr x \<longrightarrow> poll_ok p sha B a g cursor x s'"
  have key: "p @ ''/current.json'' = currentKey p" by (simp add: currentKey_def)
  have body: "wp ?R (allowed B) (case rd of None \<Rightarrow> io_return ([], None)
     | Some (head, _) \<Rightarrow>
         io_bind (probeLogTail d coll (max (logSeqStartOf head) (tail_hint head)) head) (\<lambda>tailSeq.
         io_bind (io_lift (cursor_start decoded head)) (\<lambda>start.
         case start of None \<Rightarrow> io_return ([], cj_generation head)
         | Some startSeq \<Rightarrow>
             io_bind (poll_entries d coll head [startSeq ..< min tailSeq (startSeq + DEFAULT_MAX_EVENTS)]) (\<lambda>entries.
             io_return (entries, cj_generation head))))) ?Q s1"
    if rel: "?R s s1" and rd: "rd = current_of p (lookup s1)" and dec: "decode_opt cursor = Inr decoded" for rd s1 decoded
  proof -
    have ok1: "coll_ok p sha B s1" and g1: "extends p sha B s1 g"
      using coll_ok_stable [OF ok rel] extends_stable [OF rel g] by auto
    obtain h1 where h1: "coll_inv p sha B s1 h1" using ok1 by (auto simp: coll_ok_def)
    show ?thesis
    proof (cases rd)
      case None
      with rd h1 have "h1 = []" by (simp add: coll_inv_def inv_map_def)
      then have "g = []" using committed_length [OF extends_committed [OF g1] h1] by simp
      then show ?thesis using None by (simp add: poll_ok_def)
    next
      case (Some ct)
      obtain head t where ct: "ct = (head, t)" by fastforce
      have cur: "current_of p (lookup s1) = Some (head, t)" using rd Some ct by simp
      have a1: "a \<le> log_seq_start head" using a seq_floor_mono [OF ok rel] cur by (simp add: seq_floor_def)
      have hint: "committed p sha B s1 (max (logSeqStartOf head) (tail_hint head))"
        using h1 inv_map_floors [of p sha B "lookup s1" h1] cur
        by (auto simp: committed_def coll_inv_def seq_floor_def hint_of_def logSeqStartOf_def intro!: exI [of _ h1])
      have probe: "wp ?R (allowed B) (probeLogTail d coll (max (logSeqStartOf head) (tail_hint head)) head)
          (\<lambda>r s'. \<forall>n. r = Inr n \<longrightarrow> committed p sha B s' n \<and> reached p s' (length g) n \<and> log_seq_start head \<le> n) s1"
        unfolding probeLogTail_def d
        by (intro wp_lift_bind col.wp_seq [OF wp_probe [OF ok1 hint extends_committed [OF g1]]])
          (auto simp: logSeqStartOf_def)
      show ?thesis
        unfolding Some ct option.case prod.case
      proof (rule col.wp_seq [OF probe], elim conjE, rule wp_lift_bind)
        fix n s2 st assume rel2: "?R s1 s2" and n: "committed p sha B s2 n" "reached p s2 (length g) n" "log_seq_start head \<le> n"
          and st: "cursor_start decoded head = Inr st"
        have ok2: "coll_ok p sha B s2" and g2: "extends p sha B s2 g"
          using coll_ok_stable [OF ok1 rel2] extends_stable [OF rel2 g1] by auto
        obtain start where start: "st = Some start" "log_seq_start head \<le> start" using cursor_start_some [OF dec st] by blast
        have "committed p sha B s2 (min n (start + DEFAULT_MAX_EVENTS))" using n(1) by (auto simp: committed_def)
        note entries = wp_poll_entries [OF ok2 this d, of head start]
        have "poll_ok p sha B a g cursor (es, cj_generation head) s3"
          if rel3: "?R s2 s3" and es: "covers p s3 start (min n (start + DEFAULT_MAX_EVENTS)) es" for es s3
        proof -
          have "delivered p sha B g start es s3" if fl: "delete_floor p (lookup s3) \<le> log_seq_start head"
          proof (rule deliveredI [OF extends_stable [OF rel3 g2] committed_stable [OF rel3 n(1)] _ es])
            show "length g \<le> n" using reached_stable [OF ok2 rel3 n(2)] fl n(3) by (auto simp: reached_def)
            show "delete_floor p (lookup s3) \<le> start" using fl start(2) by simp
          qed
          moreover have "log_seq_start head \<le> seq_floor p (lookup s3)"
            using seq_floor_mono [OF ok1 col.R_trans [OF rel2 rel3]] cur by (simp add: seq_floor_def)
          ultimately show ?thesis using a1 dec st start(1) by (auto simp: poll_ok_def)
        qed
        then show "wp ?R (allowed B) (case st of None \<Rightarrow> io_return ([], cj_generation head)
            | Some startSeq \<Rightarrow>
             io_bind (poll_entries d coll head [startSeq ..< min n (startSeq + DEFAULT_MAX_EVENTS)]) (\<lambda>entries.
             io_return (entries, cj_generation head))) ?Q s2"
          unfolding start(1) option.case by (intro col.wp_seq [OF entries]) auto
      qed simp_all
    qed
  qed
  show ?thesis
    unfolding pollOnce_def getCurrentJson_def d key decode_opt_def [symmetric]
    by (rule wp_lift_bind, rule wp_io_bind, rule wp_lift_bind, rule wp_mono [OF col.wp_since [OF wp_readCurrent [OF ok]]])
      (use body in \<open>auto split: sum.splits\<close>)
qed

section \<open>The long poll\<close>

definition feed_ok ::
  "string \<Rightarrow> (blob \<Rightarrow> string) \<Rightarrow> snapshot_body set \<Rightarrow> nat \<Rightarrow> log_entry list \<Rightarrow> string \<Rightarrow> since_response option result \<Rightarrow> store \<Rightarrow> bool" where
  "feed_ok p sha B a g cursor r s \<longleftrightarrow>
     (\<forall>events next. r = Inr (Some (events, next)) \<longrightarrow>
        (\<exists>gen. poll_ok p sha B a g cursor (events, gen) s \<and>
           next = (if events = [] then cursor else nextCursor (events, gen))))"

lemma feed_ok_stable:
  "coll_ok p sha B s \<Longrightarrow> sys_rel p sha B s s' \<Longrightarrow> feed_ok p sha B a g cursor r s \<Longrightarrow> feed_ok p sha B a g cursor r s'"
  unfolding feed_ok_def using poll_ok_stable [of p sha B s s' a g cursor] by blast

lemma feed_okI:
  "poll_ok p sha B a g cursor (events, gen) s \<Longrightarrow> next = (if events = [] then cursor else nextCursor (events, gen)) \<Longrightarrow>
   feed_ok p sha B a g cursor (Inr (Some (events, next))) s"
  by (auto simp: feed_ok_def)

lemma feed_ok_error: "feed_ok p sha B a g cursor (Inl e) s" "feed_ok p sha B a g cursor (Inr None) s"
  by (simp_all add: feed_ok_def)

lemma wp_ticks:
  assumes "coll_ok p sha B s" "extends p sha B s g" "a \<le> seq_floor p (lookup s)" "poll_ok p sha B a g cursor ([], gen) s"
    and d: "manifest_prefix d coll = p"
  shows "wp (sys_rel p sha B) (allowed B) (ticks n k d coll cursor now deadline aborted) (feed_ok p sha B a g cursor) s"
  using assms(1-4)
proof (induction n arbitrary: k s)
  case (Suc n)
  let ?I = "\<lambda>s. coll_ok p sha B s \<and> extends p sha B s g \<and> a \<le> seq_floor p (lookup s) \<and> poll_ok p sha B a g cursor ([], gen) s"
  have "wp (sys_rel p sha B) (allowed B) (pollOnce d coll cursor)
      (\<lambda>r s'. (\<forall>x. r = Inr x \<longrightarrow> poll_ok p sha B a g cursor x s') \<and> ?I s') s"
    by (rule col.wp_frame [OF wp_pollOnce [OF Suc.prems(1-3) d]])
      (use Suc.prems in \<open>auto intro: coll_ok_stable extends_stable poll_ok_stable order_trans seq_floor_mono\<close>)
  moreover have "feed_ok p sha B a g cursor (Inr (Some ([], cursor))) s'" if "?I s'" for s'
    using that feed_okI by fastforce
  moreover have "feed_ok p sha B a g cursor (Inr (Some (fst x, nextCursor x))) s'"
    if "poll_ok p sha B a g cursor x s'" "fst x \<noteq> []" for x s'
    using that by (cases x) (auto intro: feed_okI)
  ultimately show ?case
    unfolding ticks.simps
    using Suc.prems Suc.IH by (auto intro!: wp_bind elim!: wp_mono split: sum.splits simp: feed_ok_error simp del: fst_conv)
qed (simp add: feed_ok_error)

lemma wp_longPollSince:
  assumes ok: "coll_ok p sha B s" and g: "extends p sha B s g" and a: "a \<le> seq_floor p (lookup s)" and d: "manifest_prefix d coll = p"
  shows "wp (sys_rel p sha B) (allowed B) (longPollSince fuel d coll cursor start now timeoutMs aborted)
    (feed_ok p sha B a g cursor) s"
proof -
  let ?I = "\<lambda>s. coll_ok p sha B s \<and> extends p sha B s g \<and> a \<le> seq_floor p (lookup s)"
  have poll: "wp (sys_rel p sha B) (allowed B) (pollOnce d coll cursor)
      (\<lambda>r s'. \<forall>x. r = Inr x \<longrightarrow> poll_ok p sha B a g cursor x s' \<and> ?I s') s"
    by (rule wp_mono [OF col.wp_frame [OF wp_pollOnce [OF ok g a d], where I = ?I]])
      (use ok g a in \<open>auto intro: coll_ok_stable extends_stable order_trans seq_floor_mono\<close>)
  have fin: "wp (sys_rel p sha B) (allowed B) (if length (fst x) > 0 then io_return (Some (fst x, nextCursor x))
      else ticks fuel 0 d coll cursor now (start + timeoutMs) aborted) (feed_ok p sha B a g cursor) s'"
    if "poll_ok p sha B a g cursor x s'" "?I s'" for x s'
    using that wp_ticks [of p sha B s' g a cursor "snd x" d coll] d by (cases x) (auto intro: feed_okI)
  show ?thesis
    unfolding longPollSince_def
    by (intro wp_lift_bind col.wp_seq [OF poll]) (use fin in \<open>auto simp: feed_ok_def\<close>)
qed

end
