(* ===== verification/Rebuild.thy ===== *)
theory Rebuild
  imports Reads
begin

text \<open>
  \<^verbatim>\<open>packages/server/src/rebuild-index.ts\<close>: reconciling one index with the live documents. The keys the
  documents project are computed from the same fold a reader uses, missing markers are created and
  orphaned ones deleted; a dry run only counts. Shown here: among any other threads a rebuild touches
  nothing but index markers.
\<close>

section \<open>The rebuild\<close>

record rebuild_result =
  rb_added :: nat
  rb_removed :: nat
  rb_kept :: nat

text \<open>The expected keys, document by document.\<close>

fun expected_keys :: "(json \<Rightarrow> nat list) \<Rightarrow> string \<Rightarrow> index_definition \<Rightarrow> (string \<times> doc) list \<Rightarrow> string list result" where
  "expected_keys stringify collectionPrefix def [] = Inr []"
| "expected_keys stringify collectionPrefix def ((docId, b) # docs) =
     result_bind (allIndexKeysFor stringify collectionPrefix [def] (Some b) docId) (\<lambda>ks.
     result_bind (expected_keys stringify collectionPrefix def docs) (\<lambda>rest. Inr (ks @ rest)))"

fun put_missing :: "bool \<Rightarrow> string set \<Rightarrow> string list \<Rightarrow> nat \<Rightarrow> nat \<Rightarrow> (nat \<times> nat) io" where
  "put_missing dryRun actual [] added kept = io_return (added, kept)"
| "put_missing dryRun actual (k # ks) added kept =
     (if k \<in> actual then put_missing dryRun actual ks added (kept + 1)
      else if dryRun then put_missing dryRun actual ks (added + 1) kept
      else prog_bind (io_put k BEmpty create_only) (\<lambda>r.
        case r of
          Inr _ \<Rightarrow> put_missing dryRun actual ks (added + 1) kept
        | Inl e \<Rightarrow> if isWriteConflict e then put_missing dryRun actual ks added (kept + 1) else Ret (Inl e)))"

fun delete_orphans :: "bool \<Rightarrow> string set \<Rightarrow> string list \<Rightarrow> nat \<Rightarrow> nat io" where
  "delete_orphans dryRun expected [] removed = io_return removed"
| "delete_orphans dryRun expected (k # ks) removed =
     (if k \<in> expected then delete_orphans dryRun expected ks removed
      else if dryRun then delete_orphans dryRun expected ks (removed + 1)
      else io_bind (io_delete k) (\<lambda>_. delete_orphans dryRun expected ks (removed + 1)))"

definition reconcile :: "bool \<Rightarrow> string list \<Rightarrow> string list \<Rightarrow> rebuild_result io" where
  "reconcile dryRun expected actual =
     io_bind (put_missing dryRun (set actual) expected 0 0) (\<lambda>(added, kept).
     io_bind (delete_orphans dryRun (set expected) actual 0) (\<lambda>removed.
     io_return \<lparr>rb_added = added, rb_removed = removed, rb_kept = kept\<rparr>))"

definition live_documents :: "runtime \<Rightarrow> string \<Rightarrow> current_json \<Rightarrow> (string \<times> doc) list io" where
  "live_documents rt collectionPrefix head =
     (let collection = after_last (CHR ''/'') collectionPrefix in
      io_bind (load_base rt head collection) (\<lambda>base.
      io_bind (walkLogRange (rt_bytes rt) collectionPrefix (logSeqStartOf head) (tail_hint head)) (\<lambda>entries.
      io_bind (probeTailFrom collectionPrefix (max (logSeqStartOf head) (tail_hint head)) None) (\<lambda>(_, probed).
      io_return (foldLogEntriesOnto (foldLogEntriesOnto base entries collection None) probed collection None)))))"

definition rebuildIndex :: "runtime \<Rightarrow> string \<Rightarrow> index_definition \<Rightarrow> bool \<Rightarrow> rebuild_result io" where
  "rebuildIndex rt currentJsonKey def dryRun =
     io_bind (readCurrentJson currentJsonKey) (\<lambda>rd.
     case rd of None \<Rightarrow> io_throw InvalidResponse
     | Some (head, _) \<Rightarrow>
         if CHR ''/'' \<notin> set currentJsonKey then io_throw InvalidResponse
         else
           (let collectionPrefix = dirname currentJsonKey in
            io_bind (live_documents rt collectionPrefix head) (\<lambda>docs.
            io_bind (io_lift (expected_keys (rt_stringify rt) collectionPrefix def docs)) (\<lambda>expected.
            io_bind (io_list (indexKeyPrefix collectionPrefix (ix_name def)) None None) (\<lambda>listed.
            reconcile dryRun (dedup expected) (dedup (map fst listed)))))))"

section \<open>Among the other threads\<close>

lemmas dedup_set [simp] = dedup_distinct(2)

lemma expected_index_keys: "expected_keys str p def docs = Inr ks \<Longrightarrow> k \<in> set ks \<Longrightarrow> index_key p k"
  by (induction str p def docs arbitrary: ks rule: expected_keys.induct)
    (auto simp: result_bind_def simp del: allIndexKeysFor.simps split: sum.splits dest: allIndexKeysFor_index_key)

lemma wp_put_missing: "\<forall>k \<in> set ks. index_key p k \<Longrightarrow> safe p sha B (put_missing dry actual ks added kept) s"
proof (induction ks arbitrary: s added kept)
  case (Cons k ks)
  then show ?case by (auto intro!: wp_bind wp_mono [OF wp_put_marker] split: sum.splits)
qed simp

lemma wp_delete_marker: "index_key p k \<Longrightarrow> safe p sha B (io_delete k) s"
proof (rule col.wp_delete)
  fix s1 s2 :: store and r assume "index_key p k" "memory_delete k s1 = (r, s2)"
  then show "sys_rel p sha B s1 s2 \<and> True \<and> (\<forall>e :: exn. True)"
    using sys_rel_delete [OF rel_map_marker, of p k sha B s1] by simp
qed simp

lemma wp_delete_orphans: "\<forall>k \<in> set ks. index_key p k \<Longrightarrow> safe p sha B (delete_orphans dry expected ks removed) s"
proof (induction ks arbitrary: s removed)
  case (Cons k ks)
  then show ?case by (auto intro!: wp_io_bind wp_mono [OF wp_delete_marker] split: sum.splits)
qed simp

lemma wp_reconcile:
  "\<forall>k \<in> set expected \<union> set actual. index_key p k \<Longrightarrow> safe p sha B (reconcile dry expected actual) s"
  unfolding reconcile_def
  by (intro wp_io_bind wp_mono [OF wp_put_missing]) (auto intro!: wp_io_bind wp_mono [OF wp_delete_orphans] split: sum.splits)

lemma wp_live_documents:
  assumes ok: "coll_ok p (rt_sha rt) B s" and cur: "current_of p (lookup s) = Some (head, t)"
  shows "safe p (rt_sha rt) B (live_documents rt p head) s"
proof -
  let ?sha = "rt_sha rt" and ?R = "sys_rel p (rt_sha rt) B"
  obtain h where h: "coll_inv p ?sha B s h" using ok by (auto simp: coll_ok_def)
  have hint: "committed p ?sha B s (max (logSeqStartOf head) (tail_hint head))"
    using h inv_map_floors [of p ?sha B "lookup s" h] cur
    by (auto simp: committed_def coll_inv_def seq_floor_def hint_of_def logSeqStartOf_def intro!: exI [of _ h])
  have probe: "safe p ?sha B (io_bind (probeTailFrom p (max (logSeqStartOf head) (tail_hint head)) None) (\<lambda>(_, probed). io_return (f probed))) s1"
    if "?R s s1" for s1 and f :: "log_entry list \<Rightarrow> (string \<times> doc) list"
    by (rule col.wp_seq [where X = "\<lambda>_ _. True", OF wp_mono [OF wp_probeTailFrom_seen [OF coll_ok_stable [OF ok that] committed_stable [OF that hint]]]])
      (auto split: prod.splits)
  have walk: "safe p ?sha B (io_bind (walkLogRange (rt_bytes rt) p (logSeqStartOf head) (tail_hint head)) f) s1"
    if "?R s s1" "\<And>es s2. ?R s s2 \<Longrightarrow> safe p ?sha B (f es) s2" for s1 and f :: "log_entry list \<Rightarrow> (string \<times> doc) list io"
    by (rule col.wp_seq [where X = "\<lambda>_ _. True", OF wp_mono [OF wp_walk_seen [OF coll_ok_stable [OF ok that(1)]]]])
      (use that col.R_trans in blast)+
  show ?thesis
    unfolding live_documents_def Let_def load_base_def
    by (rule col.wp_seq [where X = "\<lambda>_ _. True", OF wp_mono [OF wp_reader_base [OF ok cur col.R_refl]]])
      (auto intro!: walk probe)
qed

lemma wp_rebuildIndex:
  assumes ok: "coll_ok p (rt_sha rt) B s"
  shows "safe p (rt_sha rt) B (rebuildIndex rt (currentKey p) def dry) s"
proof -
  let ?sha = "rt_sha rt"
  have key: "CHR ''/'' \<in> set (currentKey p)" by (simp add: currentKey_def)
  have listed: "index_key p k" if "k \<in> fst ` set (memory_list (indexKeyPrefix p (ix_name def)) None None s1)" for k and s1 :: store
  proof -
    from that have "startsWith k (indexKeyPrefix p (ix_name def))" using memory_list_sub by fastforce
    then have "k = indexKeyPrefix p (ix_name def) @ drop (length (indexKeyPrefix p (ix_name def))) k"
      unfolding startsWith_def by (metis append_take_drop_id)
    then show ?thesis unfolding index_key_def indexPrefix_def indexKeyPrefix_def by (metis append_assoc)
  qed
  have markers: "safe p ?sha B (io_bind (io_list (indexKeyPrefix p (ix_name def)) None None) (\<lambda>listed.
      reconcile dry (dedup ks) (dedup (map fst listed)))) s1"
    if "expected_keys (rt_stringify rt) p def docs = Inr ks" for docs ks s1
    by (rule wp_io_bind, rule col.wp_list)
      (use listed expected_index_keys [OF that] in \<open>auto intro!: wp_reconcile\<close>)
  show ?thesis
    unfolding rebuildIndex_def
  proof (rule col.wp_seq [OF wp_readCurrent [OF ok]])
    fix rd s1 assume rel: "sys_rel p ?sha B s s1" and rd: "rd = current_of p (lookup s1)"
    note ok1 = coll_ok_stable [OF ok rel]
    show "safe p ?sha B (case rd of None \<Rightarrow> io_throw InvalidResponse
     | Some (head, _) \<Rightarrow>
         if CHR ''/'' \<notin> set (currentKey p) then io_throw InvalidResponse
         else
           (let collectionPrefix = dirname (currentKey p) in
            io_bind (live_documents rt collectionPrefix head) (\<lambda>docs.
            io_bind (io_lift (expected_keys (rt_stringify rt) collectionPrefix def docs)) (\<lambda>expected.
            io_bind (io_list (indexKeyPrefix collectionPrefix (ix_name def)) None None) (\<lambda>listed.
            reconcile dry (dedup expected) (dedup (map fst listed))))))) s1"
      using key rd
      by (auto simp: Let_def split: option.splits intro!: wp_lift_bind markers
          col.wp_seq [where X = "\<lambda>_ _. True", OF wp_mono [OF wp_live_documents [OF ok1]]])
  qed simp
qed

end
