(* ===== verification/System.thy ===== *)
theory System
  imports Verbs Polls Rebuild
begin

text \<open>
  The kernel as a whole: any number of clients and maintenance runs on one collection of one bucket.
  A request is one call of a public entry point; its program runs as a thread whose storage calls
  interleave with all the others' and may fail. The clock, the session and the other parts of a
  runtime differ from request to request; all share the collection and the hash function.
\<close>

section \<open>Requests\<close>

datatype request =
    ReqInsert runtime "maintenance_dispatch option" read_context doc "string option"
  | ReqUpdate runtime "maintenance_dispatch option" read_context query_state doc
  | ReqReplace runtime "maintenance_dispatch option" read_context string doc
  | ReqDelete runtime "maintenance_dispatch option" read_context query_state
  | ReqRead runtime read_context query_state
  | ReqCommit runtime writer "maintenance_dispatch option" commit_input
  | ReqClaim string "string option"
  | ReqCompact "blob \<Rightarrow> nat" compact_options
  | ReqGc gc_clock gc_options
  | ReqRetire retire_options
  | ReqScheduled "blob \<Rightarrow> nat" gc_clock maintenance_options
  | ReqTick "blob \<Rightarrow> nat" gc_clock bounded_args bounded_options
  | ReqSince nat db string string int "nat \<Rightarrow> int" int "nat \<Rightarrow> bool"
  | ReqRebuild runtime index_definition bool

datatype answer =
    AnsInsert "string result"
  | AnsRead "read_rows result"
  | AnsCommit "single_attempt result"
  | AnsSince "since_response option result"
  | AnsOther

type_synonym thread = "(request \<times> answer) prog"

definition answering :: "request \<Rightarrow> ('b \<Rightarrow> answer) \<Rightarrow> 'b prog \<Rightarrow> thread" where
  "answering req f m = prog_bind m (\<lambda>r. Ret (req, f r))"

definition serve :: "string \<Rightarrow> (blob \<Rightarrow> string) \<Rightarrow> request \<Rightarrow> thread" where
  "serve p sha req =
     (case req of
        ReqInsert rt maint ctx d mintedId \<Rightarrow> answering req AnsInsert (runInsert rt maint ctx d mintedId)
      | ReqUpdate rt maint ctx state patch \<Rightarrow> answering req (\<lambda>_. AnsOther) (runUpdate rt maint ctx state patch)
      | ReqReplace rt maint ctx i d \<Rightarrow> answering req (\<lambda>_. AnsOther) (runReplaceById rt maint ctx i d)
      | ReqDelete rt maint ctx state \<Rightarrow> answering req (\<lambda>_. AnsOther) (runDelete rt maint ctx state)
      | ReqRead rt ctx state \<Rightarrow> answering req AnsRead (runReadRows rt ctx state)
      | ReqCommit rt w maint input \<Rightarrow> answering req AnsCommit (commit_attempt rt w maint input)
      | ReqClaim own date \<Rightarrow> answering req (\<lambda>_. AnsOther) (claimWriter (currentKey p) own date)
      | ReqCompact bytes opts \<Rightarrow> answering req (\<lambda>_. AnsOther) (compact bytes sha (currentKey p) opts)
      | ReqGc clk opts \<Rightarrow> answering req (\<lambda>_. AnsOther) (runGc clk (currentKey p) opts)
      | ReqRetire opts \<Rightarrow> answering req (\<lambda>_. AnsOther) (retireLogRange (currentKey p) opts)
      | ReqScheduled bytes clk opts \<Rightarrow>
          answering req (\<lambda>_. AnsOther) (runScheduledMaintenance bytes sha clk (currentKey p) opts)
      | ReqTick bytes clk args opts \<Rightarrow>
          answering req (\<lambda>_. AnsOther) (runBoundedMaintenance bytes sha clk args opts)
      | ReqSince fuel d coll cursor start now timeoutMs aborted \<Rightarrow>
          answering req AnsSince (longPollSince fuel d coll cursor start now timeoutMs aborted)
      | ReqRebuild rt def dryRun \<Rightarrow> answering req (\<lambda>_. AnsOther) (rebuildIndex rt (currentKey p) def dryRun))"

text \<open>
  When a request may be made: a tail a caller passes on (an insert guard, an observed or known tail) is
  one it has seen.
\<close>

definition on_collection :: "string \<Rightarrow> (blob \<Rightarrow> string) \<Rightarrow> runtime \<Rightarrow> read_context \<Rightarrow> bool" where
  "on_collection p sha rt ctx \<longleftrightarrow> rt_sha rt = sha \<and> ctx_prefix ctx = p \<and> ctx_name ctx = collection_of p"

definition admissible :: "string \<Rightarrow> (blob \<Rightarrow> string) \<Rightarrow> snapshot_body set \<Rightarrow> store \<Rightarrow> request \<Rightarrow> bool" where
  "admissible p sha B s req =
     (case req of
        ReqInsert rt _ ctx _ _ \<Rightarrow> on_collection p sha rt ctx
      | ReqUpdate rt _ ctx _ _ \<Rightarrow> on_collection p sha rt ctx
      | ReqReplace rt _ ctx _ _ \<Rightarrow> on_collection p sha rt ctx
      | ReqDelete rt _ ctx _ \<Rightarrow> on_collection p sha rt ctx
      | ReqRead rt ctx _ \<Rightarrow> on_collection p sha rt ctx
      | ReqCommit rt w _ input \<Rightarrow> rt_sha rt = sha \<and> w_currentJsonKey w = currentKey p \<and> guard_probed p sha B s input
      | ReqCompact _ opts \<Rightarrow> (\<forall>v n. knownTail opts = Some v \<longrightarrow> requireIntegerOption v 0 = Inr n \<longrightarrow> committed p sha B s n)
      | ReqScheduled _ _ opts \<Rightarrow> knownTail (mo_compact opts) = None
      | ReqTick _ _ args _ \<Rightarrow> ba_currentJsonKey args = currentKey p \<and>
          (\<forall>n. ba_observedTail args = Some n \<longrightarrow> committed p sha B s n)
      | ReqSince _ d coll _ _ _ _ _ \<Rightarrow> manifest_prefix d coll = p
      | ReqRebuild rt _ _ \<Rightarrow> rt_sha rt = sha
      | _ \<Rightarrow> True)"

definition kernel :: "string \<Rightarrow> (blob \<Rightarrow> string) \<Rightarrow> snapshot_body set \<Rightarrow> store \<Rightarrow> thread set" where
  "kernel p sha B s = serve p sha ` {req. admissible p sha B s req}"

section \<open>What every thread guarantees\<close>

definition answered ::
  "string \<Rightarrow> (blob \<Rightarrow> string) \<Rightarrow> snapshot_body set \<Rightarrow> nat \<Rightarrow> log_entry list \<Rightarrow> request \<times> answer \<Rightarrow> store \<Rightarrow> bool" where
  "answered p sha B a g x s \<longleftrightarrow> coll_ok p sha B s \<and>
     (case x of
        (ReqInsert rt _ ctx d mintedId, AnsInsert r) \<Rightarrow> on_collection p sha rt ctx \<and> insert_ok p rt B a g ctx d mintedId r s
      | (ReqRead rt ctx state, AnsRead r) \<Rightarrow> on_collection p sha rt ctx \<and> read_ok p rt B a g ctx state r s
      | (ReqCommit rt _ _ input, AnsCommit r) \<Rightarrow> rt_sha rt = sha \<and> attempt_ok p sha B rt input (guard_of input) r s
      | (ReqSince _ _ _ cursor _ _ _ _, AnsSince r) \<Rightarrow> feed_ok p sha B a g cursor r s
      | _ \<Rightarrow> True)"

lemma answered_stable: "answered p sha B a g x s \<Longrightarrow> sys_rel p sha B s s' \<Longrightarrow> answered p sha B a g x s'"
  unfolding answered_def
  by (auto simp: on_collection_def split: prod.splits request.splits answer.splits
      intro: coll_ok_stable insert_ok_stable read_ok_stable attempt_ok_stable feed_ok_stable)

lemma wp_answering:
  "wp R A m (\<lambda>r s'. Q (req, f r) s') s \<Longrightarrow> wp R A (answering req f m) Q s"
  unfolding answering_def by (rule wp_bind) (erule wp_mono, simp)

lemma wp_answering_other:
  assumes "safe p sha B m s" "coll_ok p sha B s" "\<And>s'. coll_ok p sha B s' \<Longrightarrow> answered p sha B a g (req, AnsOther) s'"
  shows "wp (sys_rel p sha B) (allowed B) (answering req (\<lambda>_. AnsOther) m) (answered p sha B a g) s"
  by (rule wp_answering, rule wp_mono [OF wp_keep_ok [OF assms(1,2)]]) (use assms(3) in blast)

lemma wp_serve:
  assumes ok: "coll_ok p sha B s" and a: "a \<le> seq_floor p (lookup s)" and g: "extends p sha B s g"
    and req: "admissible p sha B s req"
  shows "wp (sys_rel p sha B) (allowed B) (serve p sha req) (answered p sha B a g) s"
proof (cases req)
  case (ReqInsert rt maint ctx d mintedId)
  with req have c: "rt_sha rt = sha" "ctx_prefix ctx = p" "ctx_name ctx = collection_of p"
    by (auto simp: admissible_def on_collection_def)
  show ?thesis
    unfolding ReqInsert serve_def request.case
    by (rule wp_answering, rule wp_mono [OF wp_keep_ok [OF wp_runInsert [of p rt B s a g ctx, unfolded c(1), OF ok a g c(2,3)] ok]])
      (simp add: answered_def on_collection_def c)
next
  case (ReqRead rt ctx state)
  with req have c: "rt_sha rt = sha" "ctx_prefix ctx = p" "ctx_name ctx = collection_of p"
    by (auto simp: admissible_def on_collection_def)
  show ?thesis
    unfolding ReqRead serve_def request.case
    by (rule wp_answering, rule wp_mono [OF wp_keep_ok [OF wp_runReadRows [of p rt B s g a ctx, unfolded c(1), OF ok g a c(2,3)] ok]])
      (simp add: answered_def on_collection_def c)
next
  case (ReqCommit rt w maint input)
  with req have c: "rt_sha rt = sha" "w_currentJsonKey w = currentKey p" "guard_probed p sha B s input"
    by (auto simp: admissible_def)
  show ?thesis
    unfolding ReqCommit serve_def request.case
    by (rule wp_answering, rule wp_mono [OF wp_keep_ok [OF wp_commit_attempt [of p rt B s w input, unfolded c(1), OF ok c(2,3)] ok]])
      (simp add: answered_def c(1))
next
  case (ReqUpdate rt maint ctx state patch)
  with req have c: "rt_sha rt = sha" "ctx_prefix ctx = p" "ctx_name ctx = collection_of p"
    by (auto simp: admissible_def on_collection_def)
  show ?thesis
    unfolding ReqUpdate serve_def request.case
    by (rule wp_answering_other [OF wp_runUpdate [of p rt B s ctx, unfolded c(1), OF ok c(2,3)] ok]) (simp add: answered_def)
next
  case (ReqReplace rt maint ctx i d)
  with req have c: "rt_sha rt = sha" "ctx_prefix ctx = p" "ctx_name ctx = collection_of p"
    by (auto simp: admissible_def on_collection_def)
  show ?thesis
    unfolding ReqReplace serve_def request.case
    by (rule wp_answering_other [OF wp_runReplaceById [of p rt B s ctx, unfolded c(1), OF ok c(2,3)] ok]) (simp add: answered_def)
next
  case (ReqDelete rt maint ctx state)
  with req have c: "rt_sha rt = sha" "ctx_prefix ctx = p" "ctx_name ctx = collection_of p"
    by (auto simp: admissible_def on_collection_def)
  show ?thesis
    unfolding ReqDelete serve_def request.case
    by (rule wp_answering_other [OF wp_runDelete [of p rt B s ctx, unfolded c(1), OF ok c(2,3)] ok]) (simp add: answered_def)
next
  case (ReqClaim own date)
  show ?thesis
    unfolding ReqClaim serve_def request.case
    by (rule wp_answering_other [OF wp_claimWriter [OF ok] ok]) (simp add: answered_def)
next
  case (ReqCompact bytes opts)
  show ?thesis
    unfolding ReqCompact serve_def request.case
    by (rule wp_answering_other [OF wp_compact [OF ok] ok])
      (use req in \<open>auto simp: admissible_def answered_def ReqCompact\<close>)
next
  case (ReqGc clk opts)
  show ?thesis
    unfolding ReqGc serve_def request.case
    by (rule wp_answering_other [OF wp_runGc [OF ok] ok]) (simp add: answered_def)
next
  case (ReqRetire opts)
  show ?thesis
    unfolding ReqRetire serve_def request.case
    by (rule wp_answering_other [OF wp_retireLogRange [OF ok] ok]) (simp add: answered_def)
next
  case (ReqScheduled bytes clk opts)
  show ?thesis
    unfolding ReqScheduled serve_def request.case
    by (rule wp_answering_other [OF wp_runScheduledMaintenance [OF ok] ok])
      (use req in \<open>auto simp: admissible_def answered_def ReqScheduled\<close>)
next
  case (ReqTick bytes clk args opts)
  show ?thesis
    unfolding ReqTick serve_def request.case
    by (rule wp_answering_other [OF wp_runBoundedMaintenance [OF ok] ok])
      (use req in \<open>auto simp: admissible_def answered_def ReqTick\<close>)
next
  case (ReqSince fuel d coll cursor start now timeoutMs aborted)
  with req have d: "manifest_prefix d coll = p" by (simp add: admissible_def)
  show ?thesis
    unfolding ReqSince serve_def request.case
    by (rule wp_answering, rule wp_mono [OF wp_keep_ok [OF wp_longPollSince [OF ok g a d] ok]]) (simp add: answered_def)
next
  case (ReqRebuild rt def dry)
  with req have c: "rt_sha rt = sha" by (simp add: admissible_def)
  show ?thesis
    unfolding ReqRebuild serve_def request.case
    by (rule wp_answering_other [OF wp_rebuildIndex [of p rt B s, unfolded c, OF ok] ok]) (simp add: answered_def)
qed

text \<open>
  Any execution of the kernel from a well-formed collection. The second part is about the requests made
  from the moment \<open>s0\<close> on: the answers account for what was there at that moment.
\<close>

lemma kernel_from:
  assumes reach: "sys_reach (kernel p sha B) (allowed B) (s0, ts0) (s, ts)"
    and s0: "coll_ok p sha B s0" "a \<le> seq_floor p (lookup s0)" "extends p sha B s0 g"
    and old: "\<forall>t \<in> set ts0. wp (sys_rel p sha B) (allowed B) t (answered p sha B 0 []) s0"
  shows "sys_rel p sha B s0 s \<and> length ts0 \<le> length ts \<and>
    (\<forall>i < length ts. wp (sys_rel p sha B) (allowed B) (ts ! i)
       (if i < length ts0 then answered p sha B 0 [] else answered p sha B a g) s)"
proof -
  let ?I = "\<lambda>s. coll_ok p sha B s \<and> a \<le> seq_floor p (lookup s) \<and> extends p sha B s g"
  let ?Q = "\<lambda>i. if i < length ts0 then answered p sha B 0 [] else answered p sha B a g"
  have "?I s \<and> sys_rel p sha B s0 s \<and> length ts0 \<le> length ts \<and>
      (\<forall>i < length ts. wp (sys_rel p sha B) (allowed B) (ts ! i) (?Q i) s)"
  proof (rule col.sys_reach_sound [OF reach, where I = ?I and Q = ?Q])
    fix t s1 i assume "t \<in> kernel p sha B s1" "?I s1" "length ts0 \<le> i"
    then show "wp (sys_rel p sha B) (allowed B) t (?Q i) s1" by (auto simp: kernel_def intro: wp_serve)
  next
    fix s1 s2 assume "?I s1" "sys_rel p sha B s1 s2"
    then show "?I s2" using coll_ok_stable extends_stable seq_floor_mono order_trans by blast
  next
    fix i x s1 s2 assume "?Q i x s1" "sys_rel p sha B s1 s2"
    then show "?Q i x s2" using answered_stable by (auto split: if_splits)
  qed (use s0 old in auto)
  then show ?thesis by blast
qed

lemma kernel_threads:
  assumes "sys_reach (kernel p sha B) (allowed B) (s0, []) (s, ts)" "coll_ok p sha B s0"
  shows "coll_ok p sha B s \<and> sys_rel p sha B s0 s \<and> (\<forall>t \<in> set ts. wp (sys_rel p sha B) (allowed B) t (answered p sha B 0 []) s)"
  using kernel_from [OF assms(1,2), of 0 "[]"] extends_Nil [OF assms(2)] coll_ok_stable [OF assms(2)]
  by (auto simp: in_set_conv_nth)

lemma kernel_answered:
  assumes "sys_reach (kernel p sha B) (allowed B) (s0, []) (s, ts)" "coll_ok p sha B s0" "Ret x \<in> set ts"
  shows "answered p sha B 0 [] x s"
proof -
  from kernel_threads [OF assms(1,2)] assms(3)
  have "wp (sys_rel p sha B) (allowed B) (Ret x) (answered p sha B 0 []) s" by blast
  then show ?thesis by simp
qed

lemma kernel_answered_since:
  assumes init: "sys_reach (kernel p sha B) (allowed B) (s00, []) (s0, ts0)" "coll_ok p sha B s00"
    and reach: "sys_reach (kernel p sha B) (allowed B) (s0, ts0) (s, ts)"
    and m: "a \<le> seq_floor p (lookup s0)" "extends p sha B s0 g"
    and i: "length ts0 \<le> i" "i < length ts" "ts ! i = Ret x"
  shows "answered p sha B a g x s"
proof -
  note k = kernel_threads [OF init]
  have "\<forall>i < length ts. wp (sys_rel p sha B) (allowed B) (ts ! i)
       (if i < length ts0 then answered p sha B 0 [] else answered p sha B a g) s"
    using kernel_from [OF reach conjunct1 [OF k] m] k by blast
  from this [rule_format, OF i(2)] i(1,3) have "wp (sys_rel p sha B) (allowed B) (Ret x) (answered p sha B a g) s" by simp
  then show ?thesis by simp
qed

section \<open>Running one request alone\<close>

primrec calls_allowed :: "(call \<Rightarrow> bool) \<Rightarrow> 'a prog \<Rightarrow> store \<Rightarrow> bool" where
  "calls_allowed A (Ret x) s = True"
| "calls_allowed A (Op c k) s = (A c \<and> (let (r, s') = exec c s in calls_allowed A (k r) s'))"

text \<open>A request served without interference or faults is one execution of the system.\<close>

lemma run_is_execution:
  assumes "calls_allowed A m s" "run m s = (x, s')"
  shows "sys_reach progs A (s, ts @ [m]) (s', ts @ [Ret x])"
  using assms
proof (induction m arbitrary: s)
  case (Op c k)
  obtain r s1 where e: "exec c s = (r, s1)" by fastforce
  with Op.prems have A: "A c" "calls_allowed A (k r) s1" "run (k r) s1 = (x, s')" by (auto simp: Let_def)
  have "sys_step progs A (s, ts @ [Op c k]) (s1, (ts @ [Op c k])[length ts := k r])"
    using outcome_ok [OF e] A(1) by (intro sys_call) auto
  then have "sys_step progs A (s, ts @ [Op c k]) (s1, ts @ [k r])" by simp
  then show ?case using Op.IH [OF _ A(2,3)] by (meson converse_rtranclp_into_rtranclp rangeI)
qed simp

lemma serve_is_execution:
  assumes "admissible p sha B s req" "calls_allowed (allowed B) (serve p sha req) s" "run (serve p sha req) s = (x, s')"
  shows "sys_reach (kernel p sha B) (allowed B) (s, ts) (s', ts @ [Ret x])"
proof -
  have "sys_step (kernel p sha B) (allowed B) (s, ts) (s, ts @ [serve p sha req])"
    using assms(1) by (intro sys_spawn) (simp add: kernel_def)
  then show ?thesis
    using run_is_execution [OF assms(2,3)] by (rule converse_rtranclp_into_rtranclp)
qed

end
