(* ===== verification/Budget.thy ===== *)
theory Budget
  imports Maintenance
begin

text \<open>
  Subrequest budgets. A host caps the storage calls of one invocation (Cloudflare Free: 50), and
  \<^verbatim>\<open>maintenance.ts\<close> and \<^verbatim>\<open>constants.ts\<close> state what each pass may cost. The bounds are proved on the trees
  of calls: whatever the store answers, at most so many calls are issued.
\<close>

section \<open>Counting calls\<close>

primrec calls_within :: "(call \<Rightarrow> bool) \<Rightarrow> 'a prog \<Rightarrow> nat \<Rightarrow> bool" where
  "calls_within P (Ret x) n = True"
| "calls_within P (Op c k) n =
     (if P c then 0 < n \<and> (\<forall>r. calls_within P (k r) (n - 1)) else (\<forall>r. calls_within P (k r) n))"

named_theorems budget \<open>bounds on the calls of the kernel's programs\<close>

lemma calls_mono: "calls_within P m a \<Longrightarrow> a \<le> b \<Longrightarrow> calls_within P m b"
proof (induction m arbitrary: a b)
  case (Op c k)
  have "calls_within P (k r) j" if "calls_within P (k r) i" "i \<le> j" for r i j
    using Op.IH [OF rangeI] that by blast
  then show ?case
    using Op.prems by (cases "P c") (auto intro: diff_le_mono)
qed simp

text \<open>A continuation need only be bounded on the values the program can return (the leaves of its tree).\<close>

lemma calls_bind_results:
  "calls_within P m a \<Longrightarrow> (\<And>x. x \<in> set_prog m \<Longrightarrow> calls_within P (f x) b) \<Longrightarrow> a + b \<le> n \<Longrightarrow>
   calls_within P (prog_bind m f) n"
proof (induction m arbitrary: a n)
  case (Ret x)
  then show ?case using calls_mono [of P "f x" b n] by simp
next
  case (Op c k)
  have step: "calls_within P (prog_bind (k r) f) j" if "calls_within P (k r) i" "i + b \<le> j" for r i j
    using Op.IH [OF rangeI, of r i j] that Op.prems(2) by fastforce
  show ?case
    using Op.prems(1,3) step [of _ "a - 1" "n - 1"] step [of _ a n] by (auto split: if_splits)
qed

lemma calls_bind:
  "calls_within P m a \<Longrightarrow> (\<And>x. calls_within P (f x) b) \<Longrightarrow> a + b \<le> n \<Longrightarrow> calls_within P (prog_bind m f) n"
  by (rule calls_bind_results)

lemma calls_io_bind_results:
  "calls_within P m a \<Longrightarrow> (\<And>x. Inr x \<in> set_prog m \<Longrightarrow> calls_within P (f x) b) \<Longrightarrow> a + b \<le> n \<Longrightarrow>
   calls_within P (io_bind m f) n"
  unfolding io_bind_def by (rule calls_bind_results) (auto split: sum.splits)

lemma calls_io_bind:
  "calls_within P m a \<Longrightarrow> (\<And>x. calls_within P (f x) b) \<Longrightarrow> a + b \<le> n \<Longrightarrow> calls_within P (io_bind m f) n"
  by (rule calls_io_bind_results)

lemma calls_io_catch:
  "calls_within P m a \<Longrightarrow> (\<And>e. calls_within P (h e) b) \<Longrightarrow> a + b \<le> n \<Longrightarrow> calls_within P (io_catch m h) n"
  unfolding io_catch_def by (rule calls_bind) (auto split: sum.splits)

lemma calls_primitive [budget]:
  "calls_within P (io_get k) 1" "calls_within P (io_put k b opts) 1" "calls_within P (io_delete k) 1"
  "calls_within P (io_list pr a l) 1" "calls_within P (io_lift r) 0"
  by (auto simp: io_get_def io_put_def io_delete_def io_list_def io_lift_def split: response.split)

lemma calls_Ret [budget]: "calls_within P (Ret x) n"
  by simp

text \<open>Pure prefixes of a program cost nothing; the test in front of a call decides nothing about its cost.\<close>

lemma calls_lift_bind: "(\<And>x. calls_within P (f x) n) \<Longrightarrow> calls_within P (io_bind (io_lift r) f) n"
  by (rule calls_io_bind [OF calls_primitive(5)]) auto

lemma calls_skip: "calls_within P m n \<Longrightarrow> calls_within P m (Suc n)"
  by (erule calls_mono) simp

section \<open>The manifest and the ledger\<close>

lemma calls_readCurrentJson [budget]: "calls_within P (readCurrentJson k) 1"
  unfolding readCurrentJson_def
  by (rule calls_io_bind [where b = 0, OF calls_primitive(1)])
    (auto split: option.splits intro: calls_lift_bind)

lemma calls_cas_put [budget]: "calls_within P (cas_put k c opts) 1"
  unfolding cas_put_def by (rule calls_io_catch [where b = 0, OF calls_primitive(2)]) auto

lemma calls_casUpdateCurrentJson [budget]: "calls_within P (casUpdateCurrentJson k f) 2"
  unfolding casUpdateCurrentJson_def
  by (rule calls_io_bind [where b = 1, OF calls_readCurrentJson])
    (auto split: option.splits prod.splits intro!: calls_lift_bind calls_io_bind [where b = 0, OF calls_cas_put])

lemma calls_delete_all [budget]: "calls_within P (delete_all ks) (length ks)"
proof (induction ks)
  case (Cons k ks)
  show ?case
    unfolding delete_all.simps
    by (rule calls_bind [OF calls_primitive(3)], rule calls_bind [OF Cons.IH, where b = 0]) auto
qed simp

lemma calls_readGcPending [budget]: "calls_within P (readGcPending k) 1"
  unfolding readGcPending_def
  by (rule calls_io_bind [where b = 0, OF calls_primitive(1)])
    (auto split: option.splits intro: calls_lift_bind)

lemma calls_createGcPending [budget]: "calls_within P (createGcPending k l) 1"
  unfolding createGcPending_def
  by (intro calls_lift_bind calls_io_bind [where b = 0, OF calls_io_catch [where b = 0, OF calls_primitive(2)]]) auto

lemma calls_cas_pending_loop [budget]: "calls_within P (cas_pending_loop k f e n) (2 * n)"
proof (induction n arbitrary: e)
  case (Suc n)
  have "calls_within P (prog_bind (io_put k b opts) (\<lambda>r. case r of Inr t' \<Rightarrow> io_return (x, t')
         | Inl e \<Rightarrow> if isWriteConflict (translateCasError e) then cas_pending_loop k f (translateCasError e) n
             else Ret (Inl (translateCasError e)))) (Suc (2 * n))" for b opts x
    by (rule calls_bind [OF calls_primitive(2), where b = "2 * n"]) (auto split: sum.splits intro: Suc.IH)
  then show ?case
    unfolding cas_pending_loop.simps
    by (intro calls_io_bind [OF calls_readGcPending, where b = "Suc (2 * n)"])
      (auto split: option.splits intro!: calls_lift_bind)
qed simp

section \<open>Garbage collection\<close>

lemma gc_sweep_bound:
  "gc_sweep clk now n p fresh dropped cs sw rm = (sw', rm') \<Longrightarrow> length sw \<le> n \<Longrightarrow> length sw' \<le> n"
  by (induction clk now n p fresh dropped cs sw rm rule: gc_sweep.induct) (auto split: if_splits)

lemma calls_gc_ledger [budget]: "calls_within P (gc_ledger k) 3"
  unfolding gc_ledger_def
  by (rule calls_io_bind [where b = 2, OF calls_readGcPending])
    (auto split: option.splits intro!: calls_io_catch [where b = 1, OF calls_createGcPending]
      calls_io_bind [where b = 0, OF calls_readGcPending])

lemma calls_gc_record [budget]: "calls_within P (gc_record k pass d) 6"
  unfolding gc_record_def casUpdateGcPending_def GC_PENDING_CAS_MAX_ATTEMPTS_def
  by (rule calls_io_catch [where b = 0], rule calls_io_bind [where b = 0, OF calls_cas_pending_loop])
    (auto split: prod.splits)

lemma calls_gc_finish [budget]: "calls_within P (gc_finish clk p n current fresh pending marks) (n + 6)"
proof -
  have "calls_within P (io_bind (delete_all (map cand_key sw)) (\<lambda>_. io_bind (gc_record k pass d) (\<lambda>depth. io_return (g depth)))) (n + 6)"
    if "length sw \<le> n" for sw k pass d and g :: "nat \<Rightarrow> gc_result"
    by (rule calls_io_bind [OF calls_delete_all, where b = 6], rule calls_io_bind [OF calls_gc_record, where b = 0])
      (use that in auto)
  note fin = this
  obtain sw rm where sw: "gc_sweep clk (now_call clk (length marks)) n p fresh
      (arm_keys p (case fresh of None \<Rightarrow> current | Some f \<Rightarrow> f) fresh StaleGeneration (pending @ marks) @
       arm_keys p (case fresh of None \<Rightarrow> current | Some f \<Rightarrow> f) fresh Rescued (pending @ marks) @
       arm_keys p (case fresh of None \<Rightarrow> current | Some f \<Rightarrow> f) fresh Evicted (pending @ marks))
      (pending @ marks) [] [] = (sw, rm)" by fastforce
  then have "length sw \<le> n" by (rule gc_sweep_bound) simp
  then show ?thesis
    unfolding gc_finish_def Let_def sw split by (rule fin)
qed

lemma calls_runGc:
  "maxSweepsPerRun opts = Some n \<Longrightarrow> calls_within P (runGc clk k opts) (n + 12)"
  unfolding runGc_def Let_def
  by (rule calls_io_bind [OF calls_readCurrentJson, where b = "n + 11"])
    (auto split: option.split prod.split intro!: calls_io_bind [OF calls_gc_ledger, where b = "n + 8"]
      calls_io_bind [OF calls_primitive(4), where b = "n + 7"] calls_io_bind [where a = 1, OF _ calls_gc_finish]
      calls_io_bind [OF calls_readCurrentJson, where b = 0])

section \<open>Retention\<close>

lemma results_casUpdateCurrentJson:
  "Inr (c', t', a) \<in> set_prog (casUpdateCurrentJson k f) \<Longrightarrow> \<exists>c. f c = Inr (c', a)"
  unfolding casUpdateCurrentJson_def
  by (auto simp: results_io_bind io_lift_def split: option.splits prod.splits)

lemma calls_retireLogRange:
  assumes "effective_budget opts \<le> int m"
  shows "calls_within P (retireLogRange k opts) (m + 3)"
proof -
  have del: "calls_within P (if logDeleteFloorOf c \<noteq> stop then io_throw Internal
      else io_bind (delete_slots (dirname k) [start ..< stop]) (\<lambda>_. io_return (stop - start))) m"
    if "retire_mutator opts c0 = Inr (c, start, stop)" for c0 c start stop
  proof -
    have "stop - start \<le> m"
      using that assms range_bounds(4) [of c0 opts start stop]
      by (auto simp: retire_mutator_def split: if_splits prod.splits)
    then show ?thesis
      unfolding delete_slots_def
      by (auto intro!: calls_io_bind [OF calls_delete_all, where b = 0])
  qed
  have "calls_within P (io_bind (casUpdateCurrentJson k (retire_mutator opts)) (\<lambda>(published, _, start, stop).
      if logDeleteFloorOf published \<noteq> stop then io_throw Internal
      else io_bind (delete_slots (dirname k) [start ..< stop]) (\<lambda>_. io_return (stop - start)))) (m + 2)"
    by (rule calls_io_bind_results [OF calls_casUpdateCurrentJson, where b = m])
      (use del in \<open>fastforce split: prod.split dest!: results_casUpdateCurrentJson\<close>, simp)
  then show ?thesis
    unfolding retireLogRange_def
    by (intro calls_io_bind [OF calls_readCurrentJson, where b = "m + 2"]) (auto split: option.splits prod.splits)
qed

lemma calls_retireLogs: "effective_budget opts \<le> int m \<Longrightarrow> calls_within P (retireLogs k opts) (m + 3)"
  unfolding retireLogs_def
  by (rule calls_io_catch [where b = 0], rule calls_io_bind [where b = 0, OF calls_retireLogRange]) auto

section \<open>Compaction\<close>

lemma calls_probe_loop [budget]: "calls_within P (probe_loop p tol n seq es compl) n"
proof (induction n arbitrary: tol seq es compl)
  case (Suc n)
  show ?case
    unfolding probe_loop.simps
    by (rule calls_io_bind [OF calls_primitive(1), where b = n]) (auto split: option.splits intro: Suc.IH)
qed simp

lemma calls_read_slots [budget]: "calls_within P (read_slots bytes p ns) (length ns)"
proof (induction ns)
  case (Cons n ns)
  have "calls_within P (readLogEntryWithBytes bytes k) 1" for k
    unfolding readLogEntryWithBytes_def
    by (rule calls_io_bind [OF calls_primitive(1), where b = 0]) (auto split: option.splits)
  then show ?case
    unfolding read_slots.simps
    by (rule calls_io_bind, intro calls_io_bind [OF Cons.IH, where b = 0]) auto
qed simp

lemma calls_walkLogRangeWithBytes [budget]:
  "calls_within P (walkLogRangeWithBytes bytes p i j) (j - i)"
  unfolding walkLogRangeWithBytes_def walk_chunks_plain
  using calls_read_slots [of P bytes p "[i ..< j]"] by auto

lemma calls_loadSnapshotAsMap [budget]: "calls_within P (loadSnapshotAsMap sha k coll) 1"
  unfolding loadSnapshotAsMap_def
  by (rule calls_io_bind [OF calls_primitive(1), where b = 0]) (auto simp: Let_def split: option.splits blob.splits)

lemma calls_publish [budget]: "calls_within P (publish k c t n lost fin) 1"
  unfolding publish_def
  by (intro calls_lift_bind calls_io_catch [where b = 0] calls_io_bind [OF calls_primitive(2), where b = 0]) auto

lemma calls_compact_write [budget]: "calls_within P (compact_write bytes sha k coll cb ce c t disc base fe sz) 2"
  unfolding compact_write_def Let_def
  by (auto intro!: calls_lift_bind calls_io_bind [OF calls_primitive(2) calls_publish])

lemma calls_compact_range [budget]:
  "calls_within P (compact_range bytes sha k coll cb ce c t disc fe) (3 + (fe - log_seq_start c))"
proof -
  have "calls_within P (compact_apply bytes sha k coll cb ce c t disc base xs) 2" for base xs
    unfolding compact_apply_def Let_def by (auto split: prod.split intro: calls_compact_write)
  moreover have "calls_within P (case cj_snapshot c of None \<Rightarrow> io_return [] | Some k \<Rightarrow> loadSnapshotAsMap sha k coll) 1"
    using calls_loadSnapshotAsMap [of P sha _ coll] by (auto split: option.splits)
  ultimately show ?thesis
    unfolding compact_range_def logSeqStartOf_def
    by (intro calls_io_bind [where a = 1 and b = "2 + (fe - log_seq_start c)"] calls_io_bind [OF calls_walkLogRangeWithBytes]) auto
qed

lemma calls_compact_after_probe [budget]:
  "calls_within P (compact_after_probe bytes sha k coll opts m c t x) (3 + m)"
proof -
  have "calls_within P (compact_range bytes sha k coll cb ce c t disc (min d (log_seq_start c + m))) (3 + m)" for cb ce disc d
    by (rule calls_mono [OF calls_compact_range]) simp
  then show ?thesis
    unfolding compact_after_probe_def Let_def logSeqStartOf_def
    by (auto intro: calls_mono [OF calls_publish])
qed

lemma calls_compact:
  assumes "maxEntriesPerRun opts = Some (Fin (of_nat m))" "maxTailProbeGets opts = Some (Fin (of_nat q))"
  shows "calls_within P (compact bytes sha k opts) (4 + m + q)"
proof -
  have "requireIntegerOption (Fin (of_nat n)) lo = (if n < lo then throw InvalidConfig else Inr n)" for n lo
    by (simp add: requireIntegerOption_def json_nat_def [symmetric])
  moreover have "calls_within P (compact_probe p (Some q) hint) q" for p hint
    by (simp add: compact_probe_def probeTailChunk_def calls_probe_loop)
  ultimately show ?thesis
    unfolding compact_def Let_def assms option.case
    by (auto split: option.split prod.split simp: io_lift_def io_bind_def [of "Ret _"] split: sum.split
      intro!: calls_io_bind [OF calls_readCurrentJson, where b = "3 + m + q"]
      calls_io_bind [OF _ calls_compact_after_probe, where a = q])
qed

section \<open>Calls with a reserve\<close>

text \<open>
  \<open>spends P m Q n\<close>: from \<open>n\<close> credits, every run of \<open>m\<close> that ends in \<open>x\<close> has \<open>Q x\<close> of them left. It keeps the
  correlation between what a tick has published and what its closing refresh may still cost.
\<close>

primrec spends :: "(call \<Rightarrow> bool) \<Rightarrow> 'a prog \<Rightarrow> ('a \<Rightarrow> nat) \<Rightarrow> nat \<Rightarrow> bool" where
  "spends P (Ret x) Q n = (Q x \<le> n)"
| "spends P (Op c k) Q n =
     (if P c then 0 < n \<and> (\<forall>r. spends P (k r) Q (n - 1)) else (\<forall>r. spends P (k r) Q n))"

lemma spends_calls: "spends P m Q n \<Longrightarrow> calls_within P m n"
  by (induction m arbitrary: n) (auto split: if_splits)

lemma calls_spends:
  "calls_within P m a \<Longrightarrow> (\<And>x. x \<in> set_prog m \<Longrightarrow> a + Q x \<le> n) \<Longrightarrow> spends P m Q n"
proof (induction m arbitrary: a n)
  case (Op c k)
  have step: "spends P (k r) Q j" if "calls_within P (k r) i" "\<And>x. x \<in> set_prog (k r) \<Longrightarrow> i + Q x \<le> j" for r i j
    using Op.IH [OF rangeI] that by blast
  have leaf: "\<exists>x. x \<in> set_prog m" for m :: "'a prog" by (induction m) (auto, blast)
  show ?case
  proof (cases "P c")
    case True
    have "0 < n" using leaf [of "k undefined"] Op.prems True by fastforce
    moreover have "spends P (k r) Q (n - 1)" for r
      using step [of r "a - 1" "n - 1"] Op.prems True by fastforce
    ultimately show ?thesis using True by simp
  next
    case False
    then show ?thesis using step [of _ a n] Op.prems by auto
  qed
qed simp

lemma spends_mono: "spends P m Q a \<Longrightarrow> a \<le> b \<Longrightarrow> spends P m Q b"
proof (induction m arbitrary: a b)
  case (Op c k)
  have "spends P (k r) Q j" if "spends P (k r) Q i" "i \<le> j" for r i j
    using Op.IH [OF rangeI] that by blast
  then show ?case using Op.prems by (cases "P c") (auto intro: diff_le_mono)
qed simp

lemma spends_bind:
  "spends P m q n \<Longrightarrow> (\<And>x. spends P (f x) Q (q x)) \<Longrightarrow> spends P (prog_bind m f) Q n"
  by (induction m arbitrary: n) (auto intro: spends_mono split: if_splits)

lemma spends_tick_bind:
  assumes "calls_within P m a" "\<And>x. spends P (k x) Q b" "a + b \<le> n" "\<And>e. a + Q (Inl e, t) \<le> n"
  shows "spends P (tick_bind m t k) Q n"
  unfolding tick_bind_def
  by (rule spends_bind [where q = "\<lambda>r. n - a"], rule calls_spends [OF assms(1)])
    (use assms(3,4) spends_mono [OF assms(2), of "n - a"] in \<open>auto split: sum.splits simp: le_diff_conv2 add.commute\<close>)

lemma spends_step_then:
  assumes "spends P m (\<lambda>(r, t). case r of Inl e \<Rightarrow> Q (Inl e, t) | Inr _ \<Rightarrow> q t) n" "\<And>t. spends P (k t) Q (q t)"
  shows "spends P (step_then m k) Q n"
  unfolding step_then_def by (rule spends_bind [OF assms(1)]) (auto split: sum.splits intro: assms(2))

section \<open>The write tick\<close>

text \<open>Reading a log object: the fold's own input, charged to the fold and not to the tick's fixed cost.\<close>

fun log_get :: "string \<Rightarrow> call \<Rightarrow> bool" where
  "log_get p (Get k _) = startsWith k (p @ ''/log/'')"
| "log_get p _ = False"

lemma log_get_slot [simp]: "startsWith (logObjectKey p n) (p @ ''/log/'')"
proof -
  have "logObjectKey p n = (p @ ''/log/'') @ show_nat n @ ''.json''" by (simp add: logObjectKey_def)
  then show ?thesis by (simp add: startsWith_def)
qed

abbreviation charged :: "string \<Rightarrow> call \<Rightarrow> bool" where
  "charged p \<equiv> \<lambda>c. \<not> log_get p c"

lemma free_slot_get: "calls_within (charged p) (io_get (logObjectKey p n)) 0"
  by (auto simp: io_get_def split: response.split)

lemma free_probe_loop: "calls_within (charged p) (probe_loop p tol n seq es compl) 0"
proof (induction n arbitrary: tol seq es compl)
  case (Suc n)
  show ?case
    unfolding probe_loop.simps
    by (rule calls_io_bind [OF free_slot_get, where b = 0]) (auto split: option.splits intro: Suc.IH)
qed simp

lemma free_probeTailFrom: "calls_within (charged p) (probeTailFrom p hint cap) 0"
  unfolding probeTailFrom_def probeTailChunk_def
  by (rule calls_io_bind [OF free_probe_loop, where b = 0]) (auto split: tail_probe_chunk.splits)

lemma free_read_slots: "calls_within (charged p) (read_slots bytes p ns) 0"
proof (induction ns)
  case (Cons n ns)
  have "calls_within (charged p) (readLogEntryWithBytes bytes (logObjectKey p n)) 0"
    unfolding readLogEntryWithBytes_def
    by (rule calls_io_bind [OF free_slot_get, where b = 0]) (auto split: option.splits)
  then show ?case
    unfolding read_slots.simps
    by (rule calls_io_bind, intro calls_io_bind [OF Cons.IH, where b = 0]) auto
qed simp

lemma free_walk: "calls_within (charged p) (walkLogRangeWithBytes bytes p i j) 0"
  unfolding walkLogRangeWithBytes_def walk_chunks_plain using free_read_slots [of p bytes] by auto

lemma charged_compact: "calls_within (charged (dirname k)) (compact bytes sha k opts) 4"
proof -
  let ?P = "charged (dirname k)"
  have "calls_within ?P (compact_apply bytes sha k coll cb ce c t disc base xs) 2" for coll cb ce c t disc base xs
    unfolding compact_apply_def Let_def by (auto split: prod.split intro: calls_compact_write)
  moreover have "calls_within ?P (case cj_snapshot c of None \<Rightarrow> io_return [] | Some k \<Rightarrow> loadSnapshotAsMap sha k coll) 1" for c coll
    using calls_loadSnapshotAsMap [of ?P sha _ coll] by (auto split: option.splits)
  ultimately have range: "calls_within ?P (compact_range bytes sha k coll cb ce c t disc fe) 3" for coll cb ce c t disc fe
    unfolding compact_range_def
    by (intro calls_io_bind [where a = 1 and b = 2 and n = 3] calls_io_bind [where b = 2 and n = 2, OF free_walk]) auto
  have "calls_within ?P (compact_after_probe bytes sha k coll opts m c t x) 3" for coll m c t x
    unfolding compact_after_probe_def Let_def by (auto intro: range calls_mono [OF calls_publish])
  moreover have "calls_within ?P (compact_probe (dirname k) mp h) 0" for mp h
    unfolding compact_probe_def probeTailChunk_def
    by (auto split: option.splits intro!: free_probe_loop calls_io_bind [OF free_probeTailFrom, where b = 0])
  ultimately show ?thesis
    unfolding compact_def Let_def
    by (auto intro!: calls_lift_bind calls_io_bind [OF calls_readCurrentJson, where b = 3] calls_io_bind [where a = 0 and b = 3]
        split: option.splits)
qed

text \<open>What the closing refresh of a tick in state \<open>t\<close> may cost.\<close>

definition refresh_cost :: "tick_env \<Rightarrow> tick \<Rightarrow> nat" where
  "refresh_cost env t = (if tailHintPublished t \<or>
     te_nextSeq env - tail_hint (te_current env) < MAINTENANCE_TAIL_HINT_REFRESH_WRITES then 0 else 2)"

lemma refresh_cost_2: "refresh_cost env t \<le> 2"
  by (simp add: refresh_cost_def)

lemma refresh_cost_0: "t' \<in> set_prog (refreshTailHintIfNeeded env b t) \<Longrightarrow> refresh_cost env t' = 0"
  by (auto simp: refreshTailHintIfNeeded_def refresh_cost_def split: if_splits)

lemma calls_refresh: "calls_within P (refreshTailHintIfNeeded env b t) (if b then 2 else refresh_cost env t)"
proof -
  have "calls_within P (prog_bind (casUpdateCurrentJson k f) (\<lambda>_. Ret t')) 2"
    for k t' and f :: "current_json \<Rightarrow> (current_json \<times> unit) result"
    by (rule calls_bind [where b = 0, OF calls_casUpdateCurrentJson]) auto
  then show ?thesis by (auto simp: refreshTailHintIfNeeded_def refresh_cost_def)
qed

lemma spends_refresh: "spends P (refreshTailHintIfNeeded env False t) (\<lambda>t'. refresh_cost env t' + n) (refresh_cost env t + n)"
  by (rule calls_spends [OF calls_refresh]) (simp add: refresh_cost_0)

lemma spends_signal: "spends P (signalFoldDeferred env g d t) (\<lambda>t'. refresh_cost env t' + n) (2 + n)"
proof -
  have "spends P (refreshTailHintIfNeeded env b t') (\<lambda>t'. refresh_cost env t' + n) (2 + n)" for b t'
    by (rule calls_spends [OF calls_refresh]) (simp add: refresh_cost_0 refresh_cost_2)
  then show ?thesis by (simp add: signalFoldDeferred_def Let_def)
qed

text \<open>The reserve of a step: its state's closing refresh.\<close>

abbreviation closing :: "tick_env \<Rightarrow> unit result \<times> tick \<Rightarrow> nat" where
  "closing env \<equiv> \<lambda>(r, t). refresh_cost env t"

lemma spends_gc:
  assumes "maxSweepsPerRun (te_gcOpts env) = Some m"
  shows "spends P (runGcAndRefreshTailHint env t)
    (\<lambda>(r, t'). case r of Inl e \<Rightarrow> closing env (Inl e, t') | Inr _ \<Rightarrow> refresh_cost env t' + n) (refresh_cost env t + m + 12 + n)"
  unfolding runGcAndRefreshTailHint_def
proof (rule spends_tick_bind [OF calls_runGc [OF assms], where b = "refresh_cost env t + n"])
  show "spends P (prog_bind (refreshTailHintIfNeeded env False t) (\<lambda>t'. Ret (Inr (), t')))
    (\<lambda>(r, t'). case r of Inl e \<Rightarrow> closing env (Inl e, t') | Inr _ \<Rightarrow> refresh_cost env t' + n) (refresh_cost env t + n)"
    by (rule spends_bind [OF spends_refresh]) simp
qed simp_all

lemma spends_retire:
  assumes "effective_budget ropts \<le> int d"
  shows "spends P (tick_retire env ropts t) (closing env) (refresh_cost env t + (d + 3))"
  unfolding tick_retire_def
  by (rule spends_tick_bind [OF calls_retireLogs [OF assms], where b = "refresh_cost env t"]) simp_all

lemma spends_gc_and_retire:
  assumes "maxSweepsPerRun (te_gcOpts env) = Some m" "effective_budget ropts \<le> int d"
  shows "spends P (tick_gc_and_retire env g ropts t) (closing env) (refresh_cost env t + (m + d + 15))"
  unfolding tick_gc_and_retire_def
proof (rule spends_step_then [where q = "\<lambda>t. refresh_cost env t + (d + 3)"])
  show "spends P (tick_retire env ropts t) (closing env) (refresh_cost env t + (d + 3))" for t
    by (rule spends_retire [OF assms(2)])
  have "refresh_cost env t + m + 12 + (d + 3) = refresh_cost env t + (m + d + 15)" by simp
  then show "spends P (if g then runGcAndRefreshTailHint env t else Ret (Inr (), t))
     (\<lambda>(r, t). case r of Inl e \<Rightarrow> closing env (Inl e, t) | Inr _ \<Rightarrow> refresh_cost env t + (d + 3)) (refresh_cost env t + (m + d + 15))"
    using spends_gc [OF assms(1), of P t "d + 3"] by (cases g) (simp_all only: if_True if_False, simp_all)
qed

lemma spends_fold:
  assumes "\<And>t'. spends (charged (dirname (te_key env))) (rest t') (closing env) (refresh_cost env t' + m)"
    and "phases = Single \<or> m \<le> n"
  shows "spends (charged (dirname (te_key env))) (tick_fold bytes sha env a b phases rest t) (closing env) (6 + n)"
  unfolding tick_fold_def Let_def
proof (rule spends_tick_bind [OF charged_compact, where b = "2 + n"])
  let ?P = "charged (dirname (te_key env))"
  fix x :: compact_result
  show "spends ?P (prog_bind (case cr_deferral x of None \<Rightarrow> Ret (if written x then t\<lparr>tailHintPublished := True\<rparr> else t)
      | Some d \<Rightarrow> signalFoldDeferred env Rebuild d (if written x then t\<lparr>tailHintPublished := True\<rparr> else t))
      (\<lambda>t2. if phases = Single then Ret (Inr (), t2) else rest t2)) (closing env) (2 + n)"
  proof (rule spends_bind [where q = "\<lambda>t'. refresh_cost env t' + n"])
    show "spends ?P (case cr_deferral x of None \<Rightarrow> Ret (if written x then t\<lparr>tailHintPublished := True\<rparr> else t)
        | Some d \<Rightarrow> signalFoldDeferred env Rebuild d (if written x then t\<lparr>tailHintPublished := True\<rparr> else t))
        (\<lambda>t'. refresh_cost env t' + n) (2 + n)"
      by (cases "cr_deferral x") (use refresh_cost_2 in \<open>auto simp only: option.case spends.simps spends_signal add_le_mono1\<close>)
    show "spends ?P (if phases = Single then Ret (Inr (), t') else rest t') (closing env) (refresh_cost env t' + n)" for t'
      using spends_mono [OF assms(1) [of t'], of "refresh_cost env t' + n"] assms(2) by auto
  qed
qed (use refresh_cost_2 [of env t] in auto)

lemma spends_tick_steps:
  assumes "maxSweepsPerRun (te_gcOpts env) = Some m" "effective_budget (bo_logRetention options) \<le> int d"
    and "bo_phasesPerTick options = None \<or> bo_phasesPerTick options = Some Single"
  shows "spends (charged (dirname (te_key env))) (tick_steps bytes sha env args options t) (closing env) (2 + (m + d + 15))"
proof -
  let ?P = "charged (dirname (te_key env))" and ?n = "2 + (m + d + 15)"
  have ph: "(case bo_phasesPerTick options of None \<Rightarrow> Single | Some ph \<Rightarrow> ph) = Single" using assms(3) by auto
  have rest: "spends ?P (tick_gc_and_retire env g (bo_logRetention options) t') (closing env) (refresh_cost env t' + (m + d + 15))" for g t'
    by (rule spends_gc_and_retire [OF assms(1,2)])
  have full: "spends ?P (tick_gc_and_retire env g (bo_logRetention options) t') (closing env) ?n" for g t'
    by (rule spends_mono [OF rest]) (simp add: refresh_cost_2)
  have off: "spends ?P (prog_bind (refreshTailHintIfNeeded env False t) (\<lambda>t'. Ret (Inr (), t'))) (closing env) ?n"
    by (rule spends_mono, rule spends_bind [OF spends_refresh [where n = 0]]) (use refresh_cost_2 [of env t] in auto)
  have hard: "spends ?P (step_then (runGcAndRefreshTailHint env t) (tick_retire env (bo_logRetention options))) (closing env) ?n"
    using full [of True t] by (simp add: tick_gc_and_retire_def)
  have deferred: "spends ?P (prog_bind (signalFoldDeferred env PreFold dd t) (tick_gc_and_retire env g (bo_logRetention options))) (closing env) ?n" for dd g
    by (rule spends_bind [OF spends_signal rest])
  have fold: "spends ?P (tick_fold bytes sha env a b Single (tick_gc_and_retire env g (bo_logRetention options)) t) (closing env) ?n" for a b g
    by (rule spends_mono [OF spends_fold [OF rest, where n = 0]]) auto
  show ?thesis
    unfolding tick_steps_def Let_def ph using off hard deferred fold full by simp
qed

section \<open>The budgets\<close>

text \<open>
  (C33) The compaction phase of the Cloudflare Free profile issues at most 49 storage calls, whatever the
  store answers: one below the host's limit of 50.
\<close>

theorem free_tier_compaction_budget:
  "calls_within (\<lambda>_. True) (compact bytes sha key (mo_compact CLOUDFLARE_FREE_TIER)) 49"
  by (rule calls_mono [OF calls_compact [where m = 20 and q = 25]])
    (simp_all add: CLOUDFLARE_FREE_TIER_def profileToScheduledOptions_def MAINTENANCE_PROFILE_CF_FREE_def
      CF_FREE_COMPACT_TAIL_PROBE_GETS_def)

text \<open>
  A garbage-collection pass of the Cloudflare Free profile, however contended its ledger is, issues at
  most 22 storage calls.
\<close>

theorem free_tier_gc_budget:
  "calls_within (\<lambda>_. True) (runGc clk key (mo_gc CLOUDFLARE_FREE_TIER)) 22"
  by (rule calls_mono [OF calls_runGc [where n = 10]])
    (simp_all add: CLOUDFLARE_FREE_TIER_def profileToScheduledOptions_def MAINTENANCE_PROFILE_CF_FREE_def)

text \<open>
  (C35) A write tick with the default options issues at most 48 storage calls besides the reads of log
  objects that a fold or a tail probe takes as its input: at most one manifest read, one pass of garbage
  collection or one fold, one publication of the tail hint and one retirement pass of twenty deletes.
\<close>

theorem write_tick_budget:
  "calls_within (charged (dirname (ba_currentJsonKey args)))
     (runBoundedMaintenance bytes sha clk args
        \<lparr>bo_profile = None, bo_minEntriesToCompact = None, bo_phasesPerTick = None,
         bo_gcGraceMillis = grace, bo_logRetention = no_retire_options\<rparr>) 48"
proof -
  let ?opts = "\<lparr>bo_profile = None, bo_minEntriesToCompact = None, bo_phasesPerTick = None,
         bo_gcGraceMillis = grace, bo_logRetention = no_retire_options\<rparr>"
  let ?P = "charged (dirname (ba_currentJsonKey args))"
  have "spends ?P (tick_try bytes sha (tick_env_of clk args ?opts c n) args ?opts) (\<lambda>_. 0) 47" for c n
    unfolding tick_try_def
  proof (rule spends_bind)
    let ?env = "tick_env_of clk args ?opts c n"
    have "spends (charged (dirname (te_key ?env))) (tick_steps bytes sha ?env args ?opts \<lparr>tailHintPublished = False, warned = []\<rparr>)
        (closing ?env) (2 + (10 + 20 + 15))"
      by (rule spends_tick_steps)
        (simp_all add: tick_env_of_def MAINTENANCE_PROFILE_CF_FREE_def effective_budget_def LOG_RETENTION_MAX_DELETES_PER_TICK_def)
    then show "spends ?P (tick_steps bytes sha ?env args ?opts \<lparr>tailHintPublished = False, warned = []\<rparr>) (closing ?env) 47"
      by (simp add: tick_env_of_def Let_def)
    show "spends ?P (case x of (r, t) \<Rightarrow> prog_bind (refreshTailHintIfNeeded ?env False t) (\<lambda>t'.
        Ret (case r of Inl e \<Rightarrow> swallow e | Inr _ \<Rightarrow> None, warned t'))) (\<lambda>_. 0) (closing ?env x)" for x
      using spends_refresh [of ?P ?env "snd x" 0] by (auto split: prod.split intro: spends_bind)
  qed
  note body = spends_calls [OF this]
  have "calls_within ?P (tick_tail (dirname (ba_currentJsonKey args)) args c) 0" for c
    unfolding tick_tail_def Let_def
    by (auto split: option.split prod.split intro!: calls_io_bind [OF free_probeTailFrom, where b = 0])
  then show ?thesis
    unfolding runBoundedMaintenance_def
    by (intro calls_bind [OF calls_readCurrentJson, where b = 47])
      (auto split: sum.split option.split intro!: calls_bind [where a = 0 and b = 47] body)
qed

end
