(* ===== verification/Progress.thy ===== *)
theory Progress
  imports System Budget
begin

text \<open>
  One request on a quiet bucket: no other thread, no fault. Here the programs are run to their end
  (\<open>run\<close>), so the statements say that they do return and with what: the tail search finds the tail,
  a read returns the documents of the whole history, a commit appends its entry, and a row that was
  inserted is read back.
\<close>

section \<open>Reading\<close>

lemma run_readCurrent:
  assumes "coll_inv p sha B s h"
  shows "run (readCurrentJson (currentKey p)) s = (Inr (current_of p (lookup s)), s)"
proof -
  have "lookup s (currentKey p) \<noteq> None \<longrightarrow> current_of p (lookup s) \<noteq> None" "valid_key p"
    using assms by (simp_all add: coll_inv_def inv_map_def config_ok_def)
  then show ?thesis
    by (auto simp: readCurrentJson_def io_simps current_of_def split: option.splits sum.splits)
qed

lemma quiet_slot:
  assumes "coll_inv p sha B s h" "delete_floor p (lookup s) \<le> n" "n < length h"
  shows "\<exists>v. lookup s (logObjectKey p n) = Some v \<and> body v = BLog (h ! n)"
  using assms inv_map_slot [of p sha B "lookup s" h n] by (auto simp: coll_inv_def slot_def)

lemma quiet_empty:
  assumes "coll_inv p sha B s h" "length h \<le> n"
  shows "lookup s (logObjectKey p n) = None"
  using assms inv_map_slot [of p sha B "lookup s" h n] inv_map_floors [of p sha B "lookup s" h]
  by (simp add: coll_inv_def slot_def)

lemma run_tail:
  assumes h: "coll_inv p sha B s h" and n: "delete_floor p (lookup s) \<le> n" "n \<le> length h" "length h < n + LOG_FORWARD_PROBE_CAP"
  shows "run (findLogTail p n) s = (Inr (length h), s)" and "run (probeTailFrom p n None) s = (Inr (length h, drop n h), s)"
proof -
  have p: "valid_key p" using h by (simp add: coll_inv_def inv_map_def config_ok_def)
  have "lookup s (logObjectKey p k) \<noteq> None \<longleftrightarrow> k < length h" if "n \<le> k" for k
    using quiet_slot [OF h, of k] quiet_empty [OF h, of k] n(1) that by fastforce
  then have "dense_from s p n (length h)" using n(2) by (simp add: dense_from_def)
  then show "run (findLogTail p n) s = (Inr (length h), s)"
    using n(3) by (simp add: run_findLogTail [OF p] LOG_FORWARD_PROBE_CAP_def)
  have "log_segment s p n (drop n h)" using quiet_slot [OF h] n(1) by (simp add: log_segment_def)
  then show "run (probeTailFrom p n None) s = (Inr (length h, drop n h), s)"
    using run_probeTailFrom [OF p, of s n "drop n h" None] quiet_empty [OF h] n(2,3) by simp
qed

lemma run_walk:
  assumes h: "coll_inv p sha B s h" and a: "delete_floor p (lookup s) \<le> a" "b \<le> length h"
  shows "run (walkLogRange bytes p a b) s = (Inr (map ((!) h) [a ..< b]), s)"
proof -
  have p: "valid_key p" using h by (simp add: coll_inv_def inv_map_def config_ok_def)
  have "run (read_slots bytes p [a ..< b]) s = (Inr (map (\<lambda>n. (h ! n, bytes (BLog (h ! n)))) [a ..< b]), s)"
    by (rule run_read_slots [OF p]) (use quiet_slot [OF h] a in auto)
  then show ?thesis by (simp add: walkLogRange_def walkLogRangeWithBytes_plain io_simps comp_def)
qed

lemma view_distinct: "distinct (obj_keys (view coll h))"
  unfolding view_def by (rule fold_distinct) simp

lemma run_load_base:
  assumes h: "coll_inv p (rt_sha rt) B s h" and cur: "current_of p (lookup s) = Some (c, t)"
  shows "\<exists>base. run (load_base rt c (collection_of p)) s = (Inr base, s) \<and> distinct (obj_keys base) \<and>
    map_of base = map_of (view (collection_of p) (take (log_seq_start c) h))"
proof (cases "cj_snapshot c")
  case None
  then have "log_seq_start c = 0" using h cur by (auto simp: coll_inv_def inv_map_def snapshot_ok_def)
  with None show ?thesis by (simp add: load_base_def view_def foldLogEntriesOnto_def)
next
  case (Some k)
  let ?b = "snap_of (collection_of p) h (log_seq_start c)" and ?v = "view (collection_of p) (take (log_seq_start c) h)"
  have p: "valid_key p" using h by (simp add: coll_inv_def inv_map_def config_ok_def)
  from h cur Some obtain v where v: "snap_key p (rt_sha rt) ?b = Inr k" "lookup s k = Some v" "body v = BSnap ?b"
    by (auto simp: coll_inv_def inv_map_def snapshot_ok_def Let_def)
  have "run (load_base rt c (collection_of p)) s = (Inr (rows_to_map (sn_docs ?b)), s)"
    unfolding load_base_def Some option.case
    by (rule run_load_snapshot [OF _ v(2,3)])
      (use v(1) snapshotKey_valid [OF p] expected_hash_key in \<open>auto simp: snap_key_def snap_of_def canonical_body_def\<close>)
  then show ?thesis using canonical_rows [OF view_distinct] by (simp add: snap_of_def)
qed

text \<open>What a full scan of a quiet collection folds: the documents of the whole history.\<close>

lemma run_full_scan:
  assumes h: "coll_inv p (rt_sha rt) B s h" and cur: "current_of p (lookup s) = Some (c, t)"
    and ctx: "ctx_prefix ctx = p" "ctx_name ctx = collection_of p" and cap: "length h < tail_hint c + LOG_FORWARD_PROBE_CAP"
  shows "\<exists>base. distinct (obj_keys base) \<and>
    map_of (foldLogEntriesOnto base (drop (log_seq_start c) h) (collection_of p) None) = map_of (view (collection_of p) h) \<and>
    run (full_scan rt ctx c state) s =
      (case scan_rows state (foldLogEntriesOnto base (drop (log_seq_start c) h) (collection_of p) None) of
         Inl e \<Rightarrow> Inl e | Inr rows \<Rightarrow> Inr (rows, length h, Some (base, drop (log_seq_start c) h)), s)"
proof -
  let ?a = "log_seq_start c" and ?b = "tail_hint c"
  have le: "?a \<le> ?b" "?b \<le> length h" "delete_floor p (lookup s) \<le> ?a"
    using h cur inv_map_floors [of p "rt_sha rt" B "lookup s" h] by (simp_all add: coll_inv_def seq_floor_def hint_of_def)
  obtain base where base: "run (load_base rt c (collection_of p)) s = (Inr base, s)" "distinct (obj_keys base)"
    "map_of base = map_of (view (collection_of p) (take ?a h))" using run_load_base [OF h cur] by blast
  have walk: "run (walkLogRange (rt_bytes rt) p ?a ?b) s = (Inr (map ((!) h) [?a ..< ?b]), s)"
    by (rule run_walk [OF h]) (use le in auto)
  have probe: "run (probeTailFrom p ?b None) s = (Inr (length h, drop ?b h), s)"
    by (rule run_tail [OF h]) (use le cap in auto)
  have split: "drop ?a h = map ((!) h) [?a ..< ?b] @ drop ?b h"
    by (rule nth_equalityI) (use le in \<open>auto simp: nth_append add.commute\<close>)
  have "foldLogEntriesOnto base (drop ?a h) (collection_of p) None =
      foldLogEntriesOnto (foldLogEntriesOnto base (map ((!) h) [?a ..< ?b]) (collection_of p) None) (drop ?b h) (collection_of p) None"
    by (simp only: split fold_append)
  moreover have "run (full_scan rt ctx c state) s =
      (case scan_rows state (foldLogEntriesOnto (foldLogEntriesOnto base (map ((!) h) [?a ..< ?b]) (collection_of p) None) (drop ?b h) (collection_of p) None) of
         Inl e \<Rightarrow> Inl e | Inr rows \<Rightarrow> Inr (rows, length h, Some (base, drop ?a h)), s)"
    unfolding split
    using base(1) walk probe le(1) by (simp add: full_scan_def ctx logSeqStartOf_def max_absorb2 io_simps Let_def split: sum.splits)
  moreover have "map_of (foldLogEntriesOnto base (drop ?a h) (collection_of p) None) = map_of (view (collection_of p) h)"
  proof -
    have "view (collection_of p) h = foldLogEntriesOnto (view (collection_of p) (take ?a h)) (drop ?a h) (collection_of p) None"
      by (simp add: view_def fold_append [symmetric])
    then show ?thesis using base(3) by (intro ext) (simp add: fold_map)
  qed
  ultimately show ?thesis using base(2) by metis
qed

text \<open>The rows a read of the documents \<open>docs\<close> gives.\<close>

lemma run_quiet_read:
  assumes h: "coll_inv p (rt_sha rt) B s h" and ctx: "ctx_prefix ctx = p" "ctx_name ctx = collection_of p"
    and cap: "length h < hint_of p (lookup s) + LOG_FORWARD_PROBE_CAP" and scan: "scans rt ctx state"
  shows "\<exists>docs ptr folded. distinct (obj_keys docs) \<and> map_of docs = map_of (view (collection_of p) h) \<and>
    run (runReadRows rt ctx state) s =
      (case scan_rows state docs of Inl e \<Rightarrow> Inl e
       | Inr rows \<Rightarrow> Inr \<lparr>rr_rows = order_and_limit (rt_coercions rt) state rows, rr_manifestPointer = ptr,
           rr_tail = length h, rr_folded = folded\<rparr>, s)"
proof -
  have key: "ctx_prefix ctx @ ''/current.json'' = currentKey p" by (simp add: ctx currentKey_def)
  note cur = run_readCurrent [OF h]
  show ?thesis
  proof (cases "current_of p (lookup s)")
    case None
    then have "h = []" using h by (simp add: coll_inv_def inv_map_def)
    moreover have "scan_rows state [] = Inr []"
      by (simp add: scan_rows_def match_rows_def split: option.splits)
    ultimately show ?thesis
      using cur None
      by (intro exI [of _ "[]"] exI [of _ "''m1:0000000000000''"] exI [of _ None]) (simp add: runReadRows_def key io_simps view_def foldLogEntriesOnto_def)
  next
    case (Some ct)
    obtain c t where ct: "ct = (c, t)" by fastforce
    with Some cap have cap': "length h < tail_hint c + LOG_FORWARD_PROBE_CAP" by (simp add: hint_of_def)
    from scan obtain r where plan: "planQuery (rt_coercions rt) (qs_wire state) (ctx_indexes ctx) = FullScan r"
      by (auto simp: scans_def split: query_plan.splits)
    obtain base where b: "distinct (obj_keys base)"
      "map_of (foldLogEntriesOnto base (drop (log_seq_start c) h) (collection_of p) None) = map_of (view (collection_of p) h)"
      "run (full_scan rt ctx c state) s =
        (case scan_rows state (foldLogEntriesOnto base (drop (log_seq_start c) h) (collection_of p) None) of
         Inl e \<Rightarrow> Inl e | Inr rows \<Rightarrow> Inr (rows, length h, Some (base, drop (log_seq_start c) h)), s)"
      using run_full_scan [OF h Some [unfolded ct] ctx cap', of state] by blast
    show ?thesis
      by (rule exI [of _ "foldLogEntriesOnto base (drop (log_seq_start c) h) (collection_of p) None"],
          rule exI [of _ "serializeManifestPointer c (length h)"], rule exI [of _ "Some (c, base, drop (log_seq_start c) h)"])
        (use cur Some ct plan b fold_distinct [OF b(1)] in \<open>simp add: runReadRows_def key io_simps split: sum.splits\<close>)
  qed
qed

section \<open>Writes outside the kernel's own objects\<close>

text \<open>Every call a program may issue, whatever the store answers, satisfies \<open>A\<close>.\<close>

primrec issues :: "(call \<Rightarrow> bool) \<Rightarrow> 'a prog \<Rightarrow> bool" where
  "issues A (Ret x) = True"
| "issues A (Op c k) = (A c \<and> (\<forall>r. issues A (k r)))"

lemma issues_bind_results: "issues A m \<Longrightarrow> (\<And>x. x \<in> set_prog m \<Longrightarrow> issues A (f x)) \<Longrightarrow> issues A (prog_bind m f)"
  by (induction m) auto

lemma issues_bind [simp]: "issues A m \<Longrightarrow> (\<And>x. issues A (f x)) \<Longrightarrow> issues A (prog_bind m f)"
  by (rule issues_bind_results)

lemma issues_io_bind [simp]: "issues A m \<Longrightarrow> (\<And>x. issues A (f x)) \<Longrightarrow> issues A (io_bind m f)"
  unfolding io_bind_def by (rule issues_bind) (auto split: sum.splits)

lemma issues_io_catch [simp]: "issues A m \<Longrightarrow> (\<And>e. issues A (f e)) \<Longrightarrow> issues A (io_catch m f)"
  unfolding io_catch_def by (rule issues_bind) (auto split: sum.splits)

lemma issues_calls [simp]:
  "issues A (io_get k) = A (Get k None)" "issues A (io_list pre aft n) = A (ListKeys pre aft n)" "issues A (io_lift r)"
  "issues A (io_put k b opts) = A (Put k b opts)" "issues A (io_delete k) = A (Delete k)"
  by (simp_all add: io_get_def io_list_def io_lift_def io_put_def io_delete_def split: response.splits)

lemma issues_allowed: "issues A m \<Longrightarrow> calls_allowed A m s"
  by (induction m arbitrary: s) (auto simp: Let_def split: prod.splits)

text \<open>The keys a program may write.\<close>

definition writes :: "(string \<Rightarrow> bool) \<Rightarrow> call \<Rightarrow> bool" where
  "writes P c = (case c of Put key _ _ \<Rightarrow> P key | Delete key \<Rightarrow> P key | _ \<Rightarrow> True)"

abbreviation touches :: "(string \<Rightarrow> bool) \<Rightarrow> 'a prog \<Rightarrow> bool" where
  "touches P \<equiv> issues (writes P)"

lemma writes_simps [simp]:
  "writes P (Get k m)" "writes P (ListKeys pre aft n)" "writes P (Put k b opts) = P k" "writes P (Delete k) = P k"
  by (simp_all add: writes_def)

lemma exec_state:
  "exec c s = (r, s') \<Longrightarrow>
   s' = (case c of Put k b opts \<Rightarrow> snd (memory_put k b opts s) | Delete k \<Rightarrow> snd (memory_delete k s) | _ \<Rightarrow> s)"
  by (cases c) (auto split: prod.splits sum.splits)

lemma run_touches:
  assumes "touches P m" "run m s = (x, s')"
  shows "(wf_storage s \<longrightarrow> wf_storage s') \<and> (\<forall>k. \<not> P k \<longrightarrow> lookup s' k = lookup s k)"
  using assms
proof (induction m arbitrary: s)
  case (Op c k)
  obtain r s1 where e: "exec c s = (r, s1)" by fastforce
  have rest: "touches P (k r)" "run (k r) s1 = (x, s')" using Op.prems e by auto
  note s1 = exec_state [OF e]
  have "wf_storage s \<longrightarrow> wf_storage s1"
    using s1 wf_put wf_delete by (cases c) auto
  moreover have "lookup s1 key = lookup s key" if "\<not> P key" for key
  proof (cases c)
    case (Put key' b opts)
    then have "key' \<noteq> key" using Op.prems(1) that by auto
    then show ?thesis
      using s1 Put by (cases "valid_key key'") (simp_all add: memory_put_cases memory_put_invalid)
  next
    case (Delete key')
    then have "key' \<noteq> key" using Op.prems(1) that by auto
    then show ?thesis using s1 Delete by (simp add: memory_delete_def split: sum.splits)
  qed (use s1 in simp_all)
  ultimately show ?case using Op.IH [OF _ rest] by auto
qed simp

lemma inv_map_elsewhere:
  assumes "inv_map p sha B L h"
    and same: "\<And>k. k = currentKey p \<or> (\<exists>n. k = logObjectKey p n) \<or> k = gcPendingKey p \<or> (\<exists>x. k = snapshotPrefix p @ x) \<Longrightarrow> L' k = L k"
  shows "inv_map p sha B L' h"
proof -
  have c: "current_of p L' = current_of p L" by (rule current_of_frame) (simp add: same)
  have slot: "slot p L' n = slot p L n" for n by (simp add: slot_def same)
  have snap: "snapshot_ok p sha B L' cj h" if "snapshot_ok p sha B L cj h" for cj
    using that same snapshotKey_prefix by (fastforce simp: snapshot_ok_def Let_def snap_key_def split: option.splits)
  show ?thesis
    using assms(1) snap by (auto simp: inv_map_def c floors_frame [OF c] slots_ok_def slot ledger_ok_def snaps_in_def same)
qed

lemma run_touches_index:
  assumes "touches (index_key p) m" "run m s = (x, s')" "coll_inv p sha B s h"
  shows "coll_inv p sha B s' h \<and> current_of p (lookup s') = current_of p (lookup s)"
proof -
  note r = run_touches [OF assms(1,2)]
  have same: "lookup s' k = lookup s k"
    if "k = currentKey p \<or> (\<exists>n. k = logObjectKey p n) \<or> k = gcPendingKey p \<or> (\<exists>x. k = snapshotPrefix p @ x)" for k
    using r that by (auto simp: index_key_def)
  then show ?thesis
    using r assms(3) inv_map_elsewhere [of p sha B "lookup s" h "lookup s'"]
    by (auto simp: coll_inv_def intro!: current_of_frame)
qed

lemma touches_put_markers: "\<forall>k \<in> set ks. P k \<Longrightarrow> touches P (put_markers ks)"
  by (induction ks) auto

lemma touches_emit_markers: "touches (index_key p) (emit_markers rt w p input)"
proof -
  have mk: "touches (index_key p) (prog_bind (put_markers (takeWhile key_fits ks)) f)"
    if "\<forall>k \<in> set ks. index_key p k" "\<And>r. touches (index_key p) (f r)" for ks and f :: "unit result \<Rightarrow> nat io"
    by (rule issues_bind [OF touches_put_markers that(2)]) (use that(1) in \<open>auto dest: set_takeWhileD\<close>)
  then show ?thesis
    by (cases "allIndexKeysFor (rt_stringify rt) p (w_indexes w) (ci_body input) (ci_docId input)")
      (auto simp: emit_markers_def io_lift_def io_bind_def [of "Ret _"] intro!: mk dest: allIndexKeysFor_index_key split: list.splits)
qed

lemma touches_scan_back: "touches P (scan_back p coll i ns)"
  by (induction p coll i ns rule: scan_back.induct) (auto split: option.splits)

lemma touches_delete_ignoring: "\<forall>k \<in> set ks. P k \<Longrightarrow> touches P (delete_ignoring ks)"
  by (induction ks) auto

lemma touches_cleanup: "touches (index_key p) (cleanupStaleIndexKeysBestEffort rt w p input n)"
proof -
  have "touches (index_key p) (stale_keys rt w p input n)"
    by (auto simp: stale_keys_def readPreImage_def Let_def touches_scan_back split: log_op.splits)
  moreover have "\<forall>k \<in> set ks. index_key p k" if "Inr ks \<in> set_prog (stale_keys rt w p input n)" for ks
    using that by (auto simp: stale_keys_def Let_def results_io_bind io_lift_def dest: allIndexKeysFor_index_key [OF sym] split: log_op.splits)
  ultimately show ?thesis
    unfolding cleanupStaleIndexKeysBestEffort_def
    by (auto intro!: issues_bind_results touches_delete_ignoring split: sum.splits)
qed

section \<open>Committing\<close>

lemma history_exact:
  assumes "coll_inv p sha B s h" "delete_floor p (lookup s) \<le> n" "n \<le> length h" "lookup s (logObjectKey p n) = None"
  shows "length h = n"
  using assms inv_map_slot [of p sha B "lookup s" h n] by (auto simp: coll_inv_def slot_def split: if_splits)

text \<open>A manifest that is there stays as it is.\<close>

definition keeps_current :: "string \<Rightarrow> store \<Rightarrow> store \<Rightarrow> bool" where
  "keeps_current p s s1 \<longleftrightarrow> (\<forall>ct. current_of p (lookup s) = Some ct \<longrightarrow> current_of p (lookup s1) = Some ct)"

lemma run_read_or_provision:
  assumes h: "coll_inv p sha B s h" and g: "GENERATION_RE g"
  shows "\<exists>c t s1. run (read_or_provision (currentKey p) g) s = (Inr (c, t), s1) \<and> coll_inv p sha B s1 h \<and>
    current_of p (lookup s1) = Some (c, t) \<and> seq_floor p (lookup s1) = seq_floor p (lookup s) \<and>
    hint_of p (lookup s1) = hint_of p (lookup s) \<and> keeps_current p s s1"
proof (cases "current_of p (lookup s)")
  case (Some ct)
  then show ?thesis
    using h run_readCurrent [OF h] by (cases ct) (auto simp: read_or_provision_def io_simps keeps_current_def)
next
  case None
  let ?c = "\<lparr>cj_snapshot = None, tail_hint = 0, log_seq_start = 0,
          writer_fence = \<lparr>epoch = 0, owner = [], claimed_at = [], lease_until = None\<rparr>,
          snapshot_bytes = 0, snapshot_rows = 0, mean_entry_bytes = None, last_warned_seq = None,
          log_delete_floor = None, cj_generation = Some g\<rparr> :: current_json"
  let ?t = "etag_of (etagCounter s + 1)"
  have p: "valid_key p" and absent: "lookup s (currentKey p) = None" and nil: "h = []"
    using h None by (auto simp: coll_inv_def inv_map_def config_ok_def)
  have v: "valid_current ?c" using g by (simp add: valid_current_def)
  obtain s1 where put: "memory_put (currentKey p) (BJson (encode_current ?c)) create_only s = (Inr ?t, s1)"
      and s1: "lookup s1 = (lookup s)(currentKey p \<mapsto> \<lparr>body = BJson (encode_current ?c), etag = ?t\<rparr>)"
    using absent p by (simp add: memory_put_cases put_allowed_def)
  have rel: "sys_rel p sha B s (snd (memory_put (currentKey p) (BJson (encode_current ?c)) create_only s))"
    by (rule sys_rel_put, rule rel_map_provision [where c = ?c]) (use v in \<open>auto simp: put_allowed_def decode_current_def\<close>)
  then obtain ext where ext: "coll_inv p sha B s1 (h @ ext)" using coll_inv_stable [OF h] put by auto
  have cur: "current_of p (lookup s1) = Some (?c, ?t)" using s1 v by (simp add: current_of_def decode_current_def)
  have "length (h @ ext) = 0"
    by (rule history_exact [OF ext]) (use cur s1 quiet_empty [OF h] nil in \<open>simp_all add: delete_floor_def logDeleteFloorOf_def\<close>)
  then have "coll_inv p sha B s1 h" using ext nil by simp
  moreover have "run (read_or_provision (currentKey p) g) s = (Inr (?c, ?t), s1)"
    using run_readCurrent [OF h] None v put
    by (simp add: read_or_provision_def provisionCurrentJson_def createCurrentJson_def cas_put_def io_simps)
  ultimately show ?thesis using cur None by (auto simp: seq_floor_def hint_of_def keeps_current_def)
qed

text \<open>When an input goes to the end of the history \<open>h\<close>.\<close>

definition clear_target :: "string \<Rightarrow> store \<Rightarrow> log_entry list \<Rightarrow> commit_input \<Rightarrow> nat option \<Rightarrow> bool" where
  "clear_target p s h input guard =
     (case guard of
        None \<Rightarrow> length h < hint_of p (lookup s) + LOG_FORWARD_PROBE_CAP
      | Some a \<Rightarrow> seq_floor p (lookup s) \<le> a \<and> a \<le> length h \<and> length h < a + LOG_FORWARD_PROBE_CAP \<and>
          decideInsertTarget (drop a h) input = Inr None)"

lemma run_find_target:
  assumes h: "coll_inv p sha B s h" and cur: "current_of p (lookup s) = Some (c, t)" and tgt: "clear_target p s h input guard"
  shows "\<exists>win. run (find_target p c input guard) s = (Inr (CreateAt (length h) win), s)"
proof -
  have le: "log_seq_start c \<le> tail_hint c" "tail_hint c \<le> length h" "delete_floor p (lookup s) \<le> log_seq_start c"
    using h cur inv_map_floors [of p sha B "lookup s" h] by (simp_all add: coll_inv_def seq_floor_def hint_of_def)
  show ?thesis
  proof (cases guard)
    case None
    then have "run (findLogTail p (tail_hint c)) s = (Inr (length h), s)"
      using tgt cur le by (intro run_tail [OF h]) (auto simp: clear_target_def hint_of_def)
    then show ?thesis using None le(1) by (simp add: find_target_def logSeqStartOf_def max_absorb2 io_simps)
  next
    case (Some a)
    then have a: "log_seq_start c \<le> a" "a \<le> length h" "length h < a + LOG_FORWARD_PROBE_CAP" "decideInsertTarget (drop a h) input = Inr None"
      using tgt cur by (simp_all add: clear_target_def seq_floor_def)
    then have "run (probeTailFrom p a None) s = (Inr (length h, drop a h), s)"
      using le by (intro run_tail [OF h]) auto
    then show ?thesis
      using Some a by (simp add: find_target_def readFoldedInsertWindow_def logSeqStartOf_def max_absorb1 io_simps)
  qed
qed

lemma run_put_markers: "\<forall>k \<in> set ks. valid_key k \<Longrightarrow> fst (run (put_markers ks) s) = Inr ()"
proof (induction ks arbitrary: s)
  case (Cons k ks)
  obtain r s1 where r: "memory_put k BEmpty create_only s = (r, s1)" by fastforce
  have "r = throw WriteConflict \<or> (\<exists>t. r = Inr t)"
    using r Cons.prems by (auto simp: memory_put_cases split: if_splits)
  then show ?case using Cons r by (auto simp: run_bind run_io_put Let_def split: prod.splits) (metis fst_conv)+
qed simp

text \<open>The markers of the new value can be written.\<close>

definition markers_fit :: "runtime \<Rightarrow> writer \<Rightarrow> string \<Rightarrow> commit_input \<Rightarrow> bool" where
  "markers_fit rt w p input =
     (case allIndexKeysFor (rt_stringify rt) p (w_indexes w) (ci_body input) (ci_docId input) of
        Inl _ \<Rightarrow> False | Inr ks \<Rightarrow> (\<forall>k \<in> set ks. key_fits k \<and> valid_key k))"

lemma run_emit_markers:
  assumes h: "coll_inv p sha B s h" and fit: "w_indexes w = [] \<or> ci_op input = OpD \<or> markers_fit rt w p input"
  shows "\<exists>k s1. run (emit_markers rt w p input) s = (Inr k, s1) \<and> coll_inv p sha B s1 h \<and>
    current_of p (lookup s1) = current_of p (lookup s)"
proof -
  have "\<exists>k. fst (run (emit_markers rt w p input) s) = Inr k"
  proof (cases "w_indexes w = [] \<or> ci_op input = OpD")
    case False
    with fit obtain ks where ks: "allIndexKeysFor (rt_stringify rt) p (w_indexes w) (ci_body input) (ci_docId input) = Inr ks"
      "\<forall>k \<in> set ks. key_fits k \<and> valid_key k" by (auto simp: markers_fit_def split: sum.splits)
    then have all: "takeWhile key_fits ks = ks" "dropWhile key_fits ks = []" by (auto simp: takeWhile_eq_all_conv)
    show ?thesis
      using False ks run_put_markers [of ks s]
      by (cases "run (put_markers ks) s") (simp add: emit_markers_def run_io_bind run_io_lift run_bind Let_def all)
  qed (simp add: emit_markers_def)
  then show ?thesis
    using run_touches_index [OF touches_emit_markers _ h] by (metis prod.collapse)
qed

lemma run_create:
  assumes h: "coll_inv p sha B s h" and cur: "current_of p (lookup s) \<noteq> None"
    and fits: "assertKeyWithinLimit (logObjectKey p (length h)) = Inr ()" and ts: "timestamp ms = Inr ts"
  shows "\<exists>s1. run (create_loop n rt ts p input (length h) win) s = (Inr (CreatedAt (length h) (mintEntry rt ts input (length h))), s1) \<and>
    coll_inv p sha B s1 (h @ [entry_wire (mintEntry rt ts input (length h))]) \<and> current_of p (lookup s1) = current_of p (lookup s)"
proof -
  let ?k = "logObjectKey p (length h)" and ?e = "entry_wire (mintEntry rt ts input (length h))"
  let ?t = "etag_of (etagCounter s + 1)"
  have p: "valid_key p" using h by (simp add: coll_inv_def inv_map_def config_ok_def)
  have empty: "lookup s ?k = None" by (rule quiet_empty [OF h]) simp
  obtain s1 where put: "memory_put ?k (BLog ?e) create_only s = (Inr ?t, s1)"
      and s1: "lookup s1 = (lookup s)(?k \<mapsto> \<lparr>body = BLog ?e, etag = ?t\<rparr>)"
    using empty p by (simp add: memory_put_cases put_allowed_def)
  have "run (create_loop n rt ts p input (length h) win) s = (Inr (CreatedAt (length h) (mintEntry rt ts input (length h))), s1)"
    using put fits by (subst create_loop.simps) (simp add: create_once_def io_simps run_bind Let_def)
  moreover have c: "current_of p (lookup s1) = current_of p (lookup s)" by (rule current_of_frame) (simp add: s1)
  moreover have "coll_inv p sha B s1 (h @ [?e])"
  proof -
    have bound: "length h \<le> length h'" if "inv_map p sha B (lookup s) h'" for h'
      using inv_map_length_unique [OF that, of h] h by (simp add: coll_inv_def)
    have "sys_rel p sha B s (snd (memory_put ?k (BLog ?e) create_only s))"
      by (rule sys_rel_put, rule rel_map_commit) (use cur bound entry_ok_minted [OF ts] in \<open>auto simp: put_allowed_def\<close>)
    then obtain ext where ext: "coll_inv p sha B s1 (h @ ext)" using coll_inv_stable [OF h] put by auto
    have fl: "delete_floor p (lookup s1) \<le> length h"
      using h floors_frame [OF c] inv_map_floors [of p sha B "lookup s" h] by (simp add: coll_inv_def)
    have len: "length (h @ ext) = Suc (length h)"
    proof (rule history_exact [OF ext])
      show "delete_floor p (lookup s1) \<le> Suc (length h)" using fl by simp
      have "length (h @ ext) \<noteq> length h" using quiet_empty [OF ext, of "length h"] s1 by auto
      then show "Suc (length h) \<le> length (h @ ext)" by (cases ext) auto
      show "lookup s1 (logObjectKey p (Suc (length h))) = None" using quiet_empty [OF h, of "Suc (length h)"] s1 by simp
    qed
    then obtain e where e: "ext = [e]" by (cases ext) auto
    from quiet_slot [OF ext fl] len s1 e have "e = ?e" by auto
    with ext e show ?thesis by simp
  qed
  ultimately show ?thesis by blast
qed

text \<open>Step 5a on a manifest whose delete floor is not past the entry.\<close>

lemma run_floor_check:
  assumes h: "coll_inv p sha B s h" and n: "Suc n = length h" "delete_floor p (lookup s) \<le> n"
  shows "run (assertCommitAboveDeleteFloor (currentKey p) p n) s = (Inr True, s)"
proof -
  have "certifiedDeleteFloor c \<le> n" if "current_of p (lookup s) = Some (c, t)" for c t
    using that n(2) by (auto simp: delete_floor_def logDeleteFloorOf_def certifiedDeleteFloor_def split: option.splits)
  then show ?thesis
    using run_readCurrent [OF h]
    by (auto simp: assertCommitAboveDeleteFloor_def run_bind Let_def split: option.splits)
qed

text \<open>
  The whole attempt. An inline maintenance tick belongs to the attempt of the host that runs it; the
  statement is about a host that dispatches it, or that has none due.
\<close>

definition no_tick :: "maintenance_dispatch option \<Rightarrow> bool" where
  "no_tick maint = (case maint of None \<Rightarrow> False | Some m \<Rightarrow> \<not> md_inline m)"

lemma run_commit_attempt:
  assumes h: "coll_inv p sha B s h" and key: "w_currentJsonKey w = currentKey p"
    and check: "check_input rt input = Inr guard" and tgt: "clear_target p s h input guard"
    and fit: "w_indexes w = [] \<or> ci_op input = OpD \<or> markers_fit rt w p input"
    and fits: "assertKeyWithinLimit (logObjectKey p (length h)) = Inr ()"
    and rt: "timestamp (rt_now rt) = Inr ts" "GENERATION_RE (rt_generation rt)" and tick: "no_tick maint"
  shows "\<exists>t k s1. run (commit_attempt rt w maint input) s = (Inr (Committed (mintEntry rt ts input (length h)) t True k), s1) \<and>
    coll_inv p sha B s1 (h @ [entry_wire (mintEntry rt ts input (length h))]) \<and> current_of p (lookup s1) \<noteq> None \<and>
    hint_of p (lookup s1) = hint_of p (lookup s) \<and> keeps_current p s s1"
proof -
  let ?e = "mintEntry rt ts input (length h)"
  obtain c t s1 where prov: "run (read_or_provision (currentKey p) (rt_generation rt)) s = (Inr (c, t), s1)"
    and s1: "coll_inv p sha B s1 h" "current_of p (lookup s1) = Some (c, t)"
    and fl: "seq_floor p (lookup s1) = seq_floor p (lookup s)" "hint_of p (lookup s1) = hint_of p (lookup s)"
    and keep: "keeps_current p s s1"
    using run_read_or_provision [OF h rt(2)] by blast
  have tgt1: "clear_target p s1 h input guard" unfolding clear_target_def fl using tgt [unfolded clear_target_def] .
  have le: "log_seq_start c \<le> tail_hint c" "tail_hint c \<le> length h" "delete_floor p (lookup s1) \<le> log_seq_start c"
    using s1 inv_map_floors [of p sha B "lookup s1" h] by (simp_all add: coll_inv_def seq_floor_def hint_of_def)
  have walk: "run (walkLog (rt_bytes rt) p (log_seq_start c) (tail_hint c)) s1 = (Inr (), s1)"
    using run_walk [OF s1(1) le(3,2)] by (simp add: walkLog_def io_simps)
  obtain win where find: "run (find_target p c input guard) s1 = (Inr (CreateAt (length h) win), s1)"
    using run_find_target [OF s1 tgt1] by blast
  obtain k s2 where mark: "run (emit_markers rt w p input) s1 = (Inr k, s2)" and s2: "coll_inv p sha B s2 h"
    "current_of p (lookup s2) = Some (c, t)" using run_emit_markers [OF s1(1) fit] s1(2) by metis
  obtain s3 where create: "run (create_loop LOG_FORWARD_PROBE_CAP rt ts p input (length h) win) s2 = (Inr (CreatedAt (length h) ?e), s3)"
    and s3: "coll_inv p sha B s3 (h @ [entry_wire ?e])" "current_of p (lookup s3) = Some (c, t)"
    using run_create [OF s2(1) _ fits rt(1), of LOG_FORWARD_PROBE_CAP rt input win] s2(2) by auto
  have above: "run (assertCommitAboveDeleteFloor (currentKey p) p (length h)) s3 = (Inr True, s3)"
    by (rule run_floor_check [OF s3(1)]) (use le s1(2) s3(2) in \<open>simp_all add: delete_floor_def\<close>)
  obtain k' s4 where clean: "run (cleanupStaleIndexKeysBestEffort rt w p input (length h)) s3 = (k', s4)" by fastforce
  have s4: "coll_inv p sha B s4 (h @ [entry_wire ?e])" "current_of p (lookup s4) = Some (c, t)"
    using run_touches_index [OF touches_cleanup clean s3(1)] s3(2) by simp_all
  have "dispatch_maintenance rt (currentKey p) maint c (length h) (Suc (length h)) = Ret ()"
    using tick by (auto simp: no_tick_def dispatch_maintenance_def split: option.splits)
  then have "run (commit_attempt rt w maint input) s = (Inr (Committed ?e t True (1 + (k + k'))), s4)"
    using check prov walk find mark rt(1) create above clean
    by (simp add: commit_attempt_def singleAttemptCommit_def key Let_def create_commit_def finish_commit_def logSeqStartOf_def io_simps run_bind)
  moreover have "hint_of p (lookup s4) = hint_of p (lookup s)" using s4(2) s1(2) fl(2) by (simp add: hint_of_def)
  moreover have "keeps_current p s s4" using keep s1(2) s4(2) by (simp add: keeps_current_def)
  ultimately show ?thesis using s4 by (intro exI [of _ t] exI [of _ "1 + (k + k')"] exI [of _ s4]) simp
qed

section \<open>Inserting\<close>

lemma run_absent_read:
  assumes h: "coll_inv p (rt_sha rt) B s h" and ctx: "ctx_prefix ctx = p" "ctx_name ctx = collection_of p"
    and cap: "length h < hint_of p (lookup s) + LOG_FORWARD_PROBE_CAP" and absent: "map_of (view (collection_of p) h) i = None"
  shows "\<exists>rd. run (runReadRows rt (ctx\<lparr>ctx_indexes := []\<rparr>) (id_state i (Some 1))) s = (Inr rd, s) \<and>
    rr_rows rd = [] \<and> rr_tail rd = length h"
proof -
  have ctx': "ctx_prefix (ctx\<lparr>ctx_indexes := []\<rparr>) = p" "ctx_name (ctx\<lparr>ctx_indexes := []\<rparr>) = collection_of p"
    by (simp_all add: ctx)
  show ?thesis
    using run_quiet_read [OF h ctx' cap scans_by_id, of i "Some 1"] absent by (auto simp: scan_by_id)
qed

lemma insert_checks_post:
  assumes "insert_checks rt ctx d mintedId = Inr post"
  shows "assertDocId (rt_normalize rt) (insert_id rt d) = Inr () \<and> map_of post ''_id'' = Some (JStr (insert_id rt d))"
  using assms by (auto simp: insert_checks_def Let_def result_bind_def split: sum.splits if_splits)

lemma insert_input_checked:
  assumes "insert_checks rt ctx d mintedId = Inr post" "n \<le> MAX_SAFE_INTEGER"
  shows "check_input rt (insert_input ctx (insert_id rt d) post n replay) = Inr (Some n)"
proof -
  have "safe_integer (Fin (of_nat n)) = Some n"
    using assms(2) nonneg_integer_json_nat [of n] by (simp add: safe_integer_def json_nat_def)
  then show ?thesis
    using insert_checks_post [OF assms(1)]
    by (simp add: check_input_def insert_input_def assertPostImageIdentity_def assertInsertGuardShape_def)
qed

text \<open>What the host must allow: room under the ceilings, keys within the limits, a clock the format covers.\<close>

definition host_admits ::
  "string \<Rightarrow> runtime \<Rightarrow> maintenance_dispatch option \<Rightarrow> read_context \<Rightarrow> store \<Rightarrow> log_entry list \<Rightarrow> commit_input \<Rightarrow> bool" where
  "host_admits p rt maint ctx s h input \<longleftrightarrow>
     (\<forall>rd. run (runReadRows rt (ctx\<lparr>ctx_indexes := []\<rparr>) (id_state (ci_docId input) (Some 1))) s = (Inr rd, s) \<longrightarrow>
        refuseOverCapacity rt maint ctx (rr_folded rd)
          [\<lparr>pw_op = OpI, pw_docId = ci_docId input, pw_after = ci_body input, pw_before = None\<rparr>] = Inr ()) \<and>
     (\<exists>w. writerFor ctx = Inr w \<and> (w_indexes w = [] \<or> markers_fit rt w p input)) \<and>
     assertKeyWithinLimit (logObjectKey p (length h)) = Inr () \<and> length h \<le> MAX_SAFE_INTEGER \<and>
     (\<exists>ts. timestamp (rt_now rt) = Inr ts) \<and> GENERATION_RE (rt_generation rt) \<and> no_tick maint"

lemma run_insert:
  assumes h: "coll_inv p (rt_sha rt) B s h" and ctx: "ctx_prefix ctx = p" "ctx_name ctx = collection_of p"
    and checks: "insert_checks rt ctx d mintedId = Inr post" and absent: "map_of (view (collection_of p) h) (insert_id rt d) = None"
    and cap: "length h < hint_of p (lookup s) + LOG_FORWARD_PROBE_CAP"
    and host: "host_admits p rt maint ctx s h (insert_input ctx (insert_id rt d) post (length h) (mintedId \<noteq> None))"
  shows "\<exists>ts s1. run (runInsert rt maint ctx d mintedId) s = (Inr (insert_id rt d), s1) \<and>
    coll_inv p (rt_sha rt) B s1 (h @ [entry_wire (mintEntry rt ts (insert_input ctx (insert_id rt d) post (length h) (mintedId \<noteq> None)) (length h))]) \<and>
    hint_of p (lookup s1) = hint_of p (lookup s) \<and> keeps_current p s s1 \<and> timestamp (rt_now rt) = Inr ts"
proof -
  let ?i = "insert_id rt d" and ?n = "length h"
  let ?in = "insert_input ctx ?i post ?n (mintedId \<noteq> None)"
  obtain rd where rd: "run (runReadRows rt (ctx\<lparr>ctx_indexes := []\<rparr>) (id_state ?i (Some 1))) s = (Inr rd, s)"
    "rr_rows rd = []" "rr_tail rd = ?n" using run_absent_read [OF h ctx cap absent] by blast
  from host obtain w ts where w: "writerFor ctx = Inr w" "w_indexes w = [] \<or> markers_fit rt w p ?in" and ts: "timestamp (rt_now rt) = Inr ts"
    and ok: "refuseOverCapacity rt maint ctx (rr_folded rd) [\<lparr>pw_op = OpI, pw_docId = ?i, pw_after = Some post, pw_before = None\<rparr>] = Inr ()"
      "assertKeyWithinLimit (logObjectKey p ?n) = Inr ()" "?n \<le> MAX_SAFE_INTEGER" "GENERATION_RE (rt_generation rt)" "no_tick maint"
    using rd(1) by (auto simp: host_admits_def insert_input_def)
  have key: "w_currentJsonKey w = currentKey p"
    using w(1) new_writer_key by (auto simp: writerFor_def ctx currentKey_def)
  have tgt: "clear_target p s h ?in (Some ?n)"
    using h inv_map_floors [of p "rt_sha rt" B "lookup s" h]
    by (simp add: clear_target_def coll_inv_def decideInsertTarget_def LOG_FORWARD_PROBE_CAP_def)
  obtain t k s1 where run: "run (commit_attempt rt w maint ?in) s = (Inr (Committed (mintEntry rt ts ?in ?n) t True k), s1)"
    and s1: "coll_inv p (rt_sha rt) B s1 (h @ [entry_wire (mintEntry rt ts ?in ?n)])" "hint_of p (lookup s1) = hint_of p (lookup s)" "keeps_current p s s1"
    using run_commit_attempt [OF h key insert_input_checked [OF checks ok(3)] tgt _ ok(2) ts ok(4,5)] w(2) by blast
  have "run (runInsert rt maint ctx d mintedId) s = (Inr ?i, s1)"
    using rd checks ok(1) w(1) run by (simp add: runInsert_def Let_def io_simps commit_one_def commit_def)
  with s1 ts show ?thesis by blast
qed

lemma insert_enters_view:
  assumes "ctx_name ctx = collection_of p" "map_of (view (collection_of p) h) i = None"
  shows "map_of (view (collection_of p) (h @ [entry_wire (mintEntry rt ts (insert_input ctx i post n replay) n)])) =
    (map_of (view (collection_of p) h))(i \<mapsto> doc_wire post)"
  by (intro ext) (simp add: view_def fold_append foldLogEntriesOnto_def [of _ "[_]"] fold_entry_map entry_effect_def entry_wire_def mintEntry_def
      insert_input_def assms(1))

section \<open>Programs that write no snapshot\<close>

text \<open>Reads, polls and commits without an inline tick put no snapshot body, so every call of theirs is allowed.\<close>

named_theorems no_snapshot

lemma allowed_simps [simp]:
  "allowed B (Get k m)" "allowed B (ListKeys pre aft n)" "allowed B (Delete k)"
  "allowed B (Put k (BLog e) opts)" "allowed B (Put k (BJson j) opts)" "allowed B (Put k BEmpty opts)"
  by (simp_all add: allowed_def)

lemma issues_readCurrentJson [no_snapshot]: "issues (allowed B) (readCurrentJson k)"
  by (auto simp: readCurrentJson_def split: option.splits)

lemma issues_createCurrentJson [no_snapshot]: "issues (allowed B) (createCurrentJson k c)"
  by (auto simp: createCurrentJson_def cas_put_def)

lemma issues_read_or_provision [no_snapshot]: "issues (allowed B) (read_or_provision k g)"
  by (auto simp: read_or_provision_def provisionCurrentJson_def no_snapshot split: option.splits)

lemma issues_slot_exists [no_snapshot]: "issues (allowed B) (slot_exists p n)"
  by (simp add: slot_exists_def)

lemma issues_bisect [no_snapshot]: "issues (allowed B) (bisect p lo hi)"
  by (induction p lo hi rule: bisect.induct, subst bisect.simps) (auto simp: Let_def no_snapshot)

lemma issues_gallop: "issues (allowed B) (gallop p lo j)"
  by (induction p lo j rule: gallop.induct, subst gallop.simps) (auto simp: Let_def no_snapshot)

lemma issues_findLogTail [no_snapshot]: "issues (allowed B) (findLogTail p n)"
  by (auto simp: findLogTail_def no_snapshot issues_gallop)

lemma issues_probe_loop [no_snapshot]: "issues (allowed B) (probe_loop p tol n seq es c)"
  by (induction p tol n seq es c rule: probe_loop.induct) (auto split: option.splits)

lemma issues_probeTailFrom [no_snapshot]: "issues (allowed B) (probeTailFrom p hint cap)"
  by (auto simp: probeTailFrom_def probeTailChunk_def no_snapshot split: tail_probe_chunk.splits)

lemma issues_read_slots [no_snapshot]: "issues (allowed B) (read_slots bytes p ns)"
  by (induction ns) (auto simp: readLogEntryWithBytes_def split: option.splits)

lemma issues_walkLogRange [no_snapshot]: "issues (allowed B) (walkLogRange bytes p i j)"
  by (simp add: walkLogRange_def walkLogRangeWithBytes_plain no_snapshot)

lemma issues_get_bodies [no_snapshot]: "issues (allowed B) (get_bodies ks)"
  by (induction ks) auto

lemma issues_window_chunks [no_snapshot]: "issues (allowed B) (window_chunks p i j es)"
  by (induction p i j es rule: window_chunks.induct, subst window_chunks.simps) (auto simp: no_snapshot)

lemma issues_find_target [no_snapshot]: "issues (allowed B) (find_target p c input guard)"
  by (auto simp: find_target_def readFoldedInsertWindow_def no_snapshot intro!: issues_io_bind split: option.splits)

lemma issues_put_markers [no_snapshot]: "issues (allowed B) (put_markers ks)"
  by (induction ks) auto

lemma issues_emit_markers [no_snapshot]: "issues (allowed B) (emit_markers rt w p input)"
  by (auto simp: emit_markers_def no_snapshot split: list.splits)

lemma issues_create_once [no_snapshot]: "issues (allowed B) (create_once rt ts p input n)"
  by (auto simp: create_once_def readLogOccupant_def Let_def split: sum.splits option.splits adoption_decision.splits)

lemma issues_forward_probe [no_snapshot]: "issues (allowed B) (forward_probe p input n win e)"
  by (auto simp: forward_probe_def no_snapshot Let_def intro!: issues_io_bind split: option.splits)

lemma issues_create_loop [no_snapshot]: "issues (allowed B) (create_loop n rt ts p input seq win)"
proof (induction n arbitrary: seq win)
  case 0
  show ?case by (subst create_loop.simps) (auto simp: no_snapshot split: create_outcome.splits)
next
  case (Suc n)
  then show ?case by (subst create_loop.simps) (auto simp: no_snapshot split: create_outcome.splits target.splits)
qed

lemma issues_floor_check [no_snapshot]: "issues (allowed B) (assertCommitAboveDeleteFloor k p n)"
  by (auto simp: assertCommitAboveDeleteFloor_def no_snapshot Let_def split: sum.splits option.splits)

lemma issues_scan_back [no_snapshot]: "issues (allowed B) (scan_back p coll i ns)"
  by (induction p coll i ns rule: scan_back.induct) (auto split: option.splits)

lemma issues_delete_ignoring [no_snapshot]: "issues (allowed B) (delete_ignoring ks)"
  by (induction ks) auto

lemma issues_cleanup [no_snapshot]: "issues (allowed B) (cleanupStaleIndexKeysBestEffort rt w p input n)"
  by (auto simp: cleanupStaleIndexKeysBestEffort_def stale_keys_def readPreImage_def no_snapshot Let_def split: sum.splits log_op.splits)

lemma issues_commit_attempt:
  assumes "no_tick maint"
  shows "issues (allowed B) (commit_attempt rt w maint input)"
proof -
  have "dispatch_maintenance rt k maint c a b = Ret ()" for k c a b
    using assms by (auto simp: no_tick_def dispatch_maintenance_def split: option.splits)
  then show ?thesis
    by (auto simp: commit_attempt_def singleAttemptCommit_def walkLog_def create_commit_def finish_commit_def no_snapshot Let_def
        intro!: issues_io_bind issues_bind split: target.splits created.splits)
qed

lemma issues_load_base [no_snapshot]: "issues (allowed B) (load_base rt c coll)"
  by (auto simp: load_base_def loadSnapshotAsMap_def split: option.splits blob.splits)

lemma issues_in_ids [no_snapshot]: "issues (allowed B) (in_ids str pre vs)"
  by (induction vs) (auto simp: Let_def)

lemma issues_list_index [no_snapshot]: "issues (allowed B) (list_index str pre rangeOn inOn)"
  by (auto simp: list_index_def no_snapshot split: option.splits)

lemma issues_runReadRows [no_snapshot]: "issues (allowed B) (runReadRows rt ctx state)"
  by (auto simp: runReadRows_def runIndexWalkPlan_def full_scan_def no_snapshot Let_def intro!: issues_io_bind split: option.splits query_plan.splits)

lemma issues_runInsert: "no_tick maint \<Longrightarrow> issues (allowed B) (runInsert rt maint ctx d mintedId)"
  by (auto simp: runInsert_def commit_one_def commit_def issues_commit_attempt no_snapshot Let_def intro!: issues_io_bind split: list.splits)

section \<open>An example host\<close>

definition example_rt :: runtime where
  "example_rt = \<lparr>rt_normalize = (\<lambda>i. i), rt_stringify = (\<lambda>_. []), rt_session = ''abcdefabcdef'', rt_now = 1700000000000,
     rt_iso = (\<lambda>_. ''2023-11-14T22:13:20.000Z''), rt_generation = ''0123456789abcdef0123456789abcdef'', 
     rt_clock = \<lparr>now_call = (\<lambda>_. 1700000000000), toISOString = (\<lambda>_. ''2023-11-14T22:13:20.000Z''), parseDate = (\<lambda>_. None)\<rparr>,
     rt_bytes = (\<lambda>_. 1), rt_sha = (\<lambda>_. replicate 64 (CHR ''a'')), rt_coercions = nan_coercions, rt_uuidv7 = ''u1''\<rparr>"

abbreviation home :: string where
  "home \<equiv> ''app/a/tenant/b/manifests/t''"

definition example_ctx :: read_context where
  "example_ctx = \<lparr>ctx_prefix = home, ctx_name = ''t'', ctx_schema = None, ctx_indexes = []\<rparr>"

definition example_maint :: "maintenance_dispatch option" where
  "example_maint = Some \<lparr>md_inline = False, md_disabled = False, md_maxFoldBytes = Some Unlimited,
     md_options = Some (no_bounded_options\<lparr>bo_profile := Some (MAINTENANCE_PROFILE_CF_FREE\<lparr>maxFoldRows := Unlimited\<rparr>)\<rparr>)\<rparr>"

definition example_doc :: doc where
  "example_doc = [(''_id'', JStr ''a''), (''n'', JNum (Fin 1))]"

definition example_writer :: writer where
  "example_writer = \<lparr>w_currentJsonKey = currentKey home, w_indexes = [], w_verifyLogIntegrityOnCommit = False\<rparr>"

lemma example_inv: "coll_inv home sha {} empty_storage []"
  by (simp add: coll_inv_def inv_map_def config_ok_def ledger_ok_def snaps_in_def current_of_def delete_floor_def
      seq_floor_def hint_of_def slots_ok_def slot_def empty_storage_def wf_storage_def assertValidStorageKey_def)

lemma example_collection [simp]: "collection_of home = ''t''"
  by (simp add: collection_of_def after_last_def)

lemma example_floors [simp]:
  "hint_of p (lookup empty_storage) = 0" "seq_floor p (lookup empty_storage) = 0" "delete_floor p (lookup empty_storage) = 0"
  by (simp_all add: hint_of_def seq_floor_def delete_floor_def current_of_def empty_storage_def)

lemma example_checks:
  "\<exists>ts. timestamp (rt_now example_rt) = Inr ts" "GENERATION_RE (rt_generation example_rt)" "no_tick example_maint"
  "insert_id example_rt example_doc = ''a''" "insert_checks example_rt example_ctx example_doc None = Inr example_doc"
  "writerFor example_ctx = Inr \<lparr>w_currentJsonKey = currentKey home, w_indexes = [], w_verifyLogIntegrityOnCommit = False\<rparr>"
  "assertKeyWithinLimit (logObjectKey home 0) = Inr ()"
  subgoal by (simp add: timestamp_def example_rt_def TIMESTAMP_BIT_WIDTH_def)
  subgoal by code_simp
  subgoal by (simp add: no_tick_def example_maint_def)
  subgoal by code_simp
  subgoal by code_simp
  subgoal by code_simp
  subgoal by code_simp
  done

section \<open>Properties\<close>

text \<open>
  (C10) A commit on a quiet bucket returns: for any valid input whose target is clear, whatever the
  history, the manifest and the indexes, the attempt ends with its entry committed in the next slot, and
  the history has grown by exactly this entry.
\<close>

theorem quiet_commit_appends:
  assumes "coll_inv p (rt_sha rt) B s h" "w_currentJsonKey w = currentKey p"
    and "check_input rt input = Inr guard" "clear_target p s h input guard"
    and "w_indexes w = [] \<or> ci_op input = OpD \<or> markers_fit rt w p input"
    and "assertKeyWithinLimit (logObjectKey p (length h)) = Inr ()"
    and "timestamp (rt_now rt) = Inr ts" "GENERATION_RE (rt_generation rt)" "no_tick maint"
  shows "\<exists>t k s1. run (commit_attempt rt w maint input) s = (Inr (Committed (mintEntry rt ts input (length h)) t True k), s1) \<and>
    coll_inv p (rt_sha rt) B s1 (h @ [entry_wire (mintEntry rt ts input (length h))])"
  using run_commit_attempt [OF assms] by blast

theorem quiet_commit_appends_witness:
  "\<exists>e t k s1. run (commit_attempt example_rt example_writer example_maint
       (insert_input example_ctx ''a'' example_doc 0 False)) empty_storage = (Inr (Committed e t True k), s1) \<and>
     coll_inv home (rt_sha example_rt) {} s1 [entry_wire e]"
proof -
  let ?in = "insert_input example_ctx ''a'' example_doc 0 False"
  obtain ts where ts: "timestamp (rt_now example_rt) = Inr ts" using example_checks(1) by blast
  have "check_input example_rt ?in = Inr (Some 0)"
    using insert_input_checked [OF example_checks(5), of 0 False] by (simp add: example_checks)
  moreover have "clear_target home empty_storage [] ?in (Some 0)"
    by (simp add: clear_target_def decideInsertTarget_def LOG_FORWARD_PROBE_CAP_def)
  ultimately show ?thesis
    using quiet_commit_appends [OF example_inv, of example_writer example_rt ?in "Some 0" ts example_maint] ts example_checks
    by (simp add: example_writer_def) blast
qed

text \<open>
  (C11) Insert, then get. On a quiet bucket with room on the host, inserting a valid document whose
  \<^verbatim>\<open>_id\<close> no live row has returns the \<^verbatim>\<open>_id\<close>, and reading it back returns the document as its JSON
  encoding decodes; every other row is as it was.
\<close>

theorem insert_then_get:
  assumes h: "coll_inv p (rt_sha rt) B s h" and ctx: "ctx_prefix ctx = p" "ctx_name ctx = collection_of p"
    and checks: "insert_checks rt ctx d mintedId = Inr post" and absent: "map_of (view (collection_of p) h) (insert_id rt d) = None"
    and cap: "Suc (length h) < hint_of p (lookup s) + LOG_FORWARD_PROBE_CAP"
    and host: "host_admits p rt maint ctx s h (insert_input ctx (insert_id rt d) post (length h) (mintedId \<noteq> None))"
    and scan: "\<forall>i. scans rt ctx (id_state i (Some 1))"
  shows "\<exists>s1. run (runInsert rt maint ctx d mintedId) s = (Inr (insert_id rt d), s1) \<and>
    (\<forall>i. \<exists>ptr. run (runByIdWithMeta rt ctx i) s1 =
       (Inr (case ((map_of (view (collection_of p) h))(insert_id rt d \<mapsto> doc_wire post)) i of None \<Rightarrow> [] | Some r \<Rightarrow> [r], ptr), s1))"
proof -
  obtain ts s1 where s1: "run (runInsert rt maint ctx d mintedId) s = (Inr (insert_id rt d), s1)" "hint_of p (lookup s1) = hint_of p (lookup s)"
    "coll_inv p (rt_sha rt) B s1 (h @ [entry_wire (mintEntry rt ts (insert_input ctx (insert_id rt d) post (length h) (mintedId \<noteq> None)) (length h))])"
    using run_insert [OF h ctx checks absent _ host] cap by auto
  have "\<exists>ptr. run (runByIdWithMeta rt ctx i) s1 =
       (Inr (case ((map_of (view (collection_of p) h))(insert_id rt d \<mapsto> doc_wire post)) i of None \<Rightarrow> [] | Some r \<Rightarrow> [r], ptr), s1)" for i
    using run_quiet_read [OF s1(3) ctx _ scan [rule_format], of i] s1(2) cap insert_enters_view [OF ctx(2) absent]
    by (auto simp: scan_by_id runByIdWithMeta_def runRead_def io_simps one_row_kept split: option.splits)
  with s1(1) show ?thesis by blast
qed

theorem insert_then_get_witness:
  "\<exists>s1 ptr. run (runInsert example_rt example_maint example_ctx example_doc None) empty_storage = (Inr ''a'', s1) \<and>
     run (runByIdWithMeta example_rt example_ctx ''a'') s1 = (Inr ([example_doc], ptr), s1)"
proof -
  have ctx: "ctx_prefix example_ctx = home" "ctx_name example_ctx = collection_of home" by (simp_all add: example_ctx_def)
  have scan: "\<forall>i. scans example_rt example_ctx (id_state i (Some 1))"
    by (simp add: scans_def planQuery_def id_state_def id_wire_def example_ctx_def)
  have absent: "map_of (view (collection_of home) []) (insert_id example_rt example_doc) = None"
    by (simp add: view_def foldLogEntriesOnto_def)
  have "rr_folded rd = None"
    if "run (runReadRows example_rt (example_ctx\<lparr>ctx_indexes := []\<rparr>) (id_state ''a'' (Some 1))) empty_storage = (Inr rd, empty_storage)" for rd
    using that run_readCurrent [OF example_inv [of "rt_sha example_rt"]]
    by (auto simp: runReadRows_def example_ctx_def currentKey_def io_simps current_of_def empty_storage_def)
  then have host: "host_admits home example_rt example_maint example_ctx empty_storage []
      (insert_input example_ctx (insert_id example_rt example_doc) example_doc (length []) (None \<noteq> (None :: string option)))"
    using example_checks by (auto simp: host_admits_def insert_input_def refuseOverCapacity_def)
  have "doc_wire example_doc = example_doc" by code_simp
  then show ?thesis
    using insert_then_get [OF example_inv ctx example_checks(5) absent _ host scan] example_checks(4)
    by (auto simp: LOG_FORWARD_PROBE_CAP_def view_def foldLogEntriesOnto_def dest!: spec [of _ "''a''"])
qed

end
