(* ===== verification/Scenario.thy ===== *)
theory Scenario
  imports Progress
begin

text \<open>
  A short life of one collection on the example host: a client inserts a row, it is deleted, another
  client inserts it again, and it is read and polled. The executions show that the kernel's guarantees are about
  states that do occur.
\<close>

section \<open>A host without ceilings\<close>

lemma unlimited_project_tail: "\<exists>pr'. project_tail str base coll Unlimited es pr = Some pr'"
  by (induction es arbitrary: pr) auto

lemma unlimited_project_writes:
  "ceil_rows cs = Unlimited \<Longrightarrow> ceil_bytes cs = Unlimited \<Longrightarrow> project_writes str base cs ws pr"
  by (induction ws arbitrary: pr) (auto simp: Let_def)

lemma example_ceilings: "ceil_rows (currentFoldCeilings example_maint) = Unlimited" "ceil_bytes (currentFoldCeilings example_maint) = Unlimited"
  by (simp_all add: currentFoldCeilings_def example_maint_def resolveFoldCeilings_def Let_def)

lemma example_capacity: "refuseOverCapacity rt example_maint ctx folded ws = Inr ()"
proof -
  have "capacityRefusal str bytes coll head base es ws (currentFoldCeilings example_maint) = None" for str bytes coll head base es
    using unlimited_project_tail [of str base coll es "projectSnapshot bytes head coll"]
    by (auto simp: capacityRefusal_def Let_def isFoldViable_def example_ceilings unlimited_project_writes)
  then show ?thesis by (simp add: refuseOverCapacity_def split: option.splits)
qed

definition session :: "string \<Rightarrow> runtime" where
  "session i = example_rt\<lparr>rt_session := i\<rparr>"

lemma session_id [simp]: "insert_id (session i) example_doc = ''a''"
  by (simp add: insert_id_def example_doc_def)

lemma session_simps [simp]:
  "rt_sha (session i) = rt_sha example_rt" "rt_session (session i) = i" "rt_now (session i) = rt_now example_rt"
  "GENERATION_RE (rt_generation (session i))" "insert_checks (session i) example_ctx example_doc None = Inr example_doc"
proof -
  show "insert_checks (session i) example_ctx example_doc None = Inr example_doc"
    using example_checks(4,5) session_id [of i] by (simp add: insert_checks_def) (simp add: session_def)
qed (use example_checks(2) in \<open>simp_all add: session_def\<close>)

lemma small_keys: "n < 3 \<Longrightarrow> assertKeyWithinLimit (logObjectKey home n) = Inr ()"
proof -
  have "assertKeyWithinLimit (logObjectKey home 1) = Inr ()" "assertKeyWithinLimit (logObjectKey home 2) = Inr ()" by code_simp+
  moreover assume "n < 3"
  then have "n = 0 \<or> n = 1 \<or> n = 2" by linarith
  ultimately show ?thesis using example_checks(7) by auto
qed

section \<open>The requests\<close>

abbreviation sha0 :: "blob \<Rightarrow> string" where "sha0 \<equiv> rt_sha example_rt"

lemma example_on: "on_collection home sha0 (session i) example_ctx"
  by (simp add: on_collection_def example_ctx_def)

text \<open>Inserting the row where it is absent.\<close>

lemma scenario_insert:
  assumes h: "coll_inv home sha0 {} s h" "length h < 3" "map_of (view ''t'' h) ''a'' = None"
  shows "\<exists>s1 e. sys_reach (kernel home sha0 {}) (allowed {}) (s, ts)
      (s1, ts @ [Ret (ReqInsert (session i) example_maint example_ctx example_doc None, AnsInsert (Inr ''a''))]) \<and>
    coll_inv home sha0 {} s1 (h @ [e]) \<and> hint_of home (lookup s1) = hint_of home (lookup s) \<and>
    keeps_current home s s1 \<and>
    le_op e = OpI \<and> le_collection e = ''t'' \<and> le_doc_id e = Some ''a'' \<and> le_after e = Some example_doc"
proof -
  let ?rt = "session i" and ?in = "insert_input example_ctx ''a'' example_doc (length h) False"
  have ctx: "ctx_prefix example_ctx = home" "ctx_name example_ctx = collection_of home" by (simp_all add: example_ctx_def)
  have host: "host_admits home ?rt example_maint example_ctx s h ?in"
    using example_checks small_keys [OF h(2)] h(2) by (auto simp: host_admits_def example_capacity MAX_SAFE_INTEGER_def)
  have wire: "doc_wire example_doc = example_doc" by code_simp
  obtain tstamp s1 where ts: "timestamp (rt_now example_rt) = Inr tstamp" and run: "run (runInsert ?rt example_maint example_ctx example_doc None) s = (Inr ''a'', s1)"
    and s1: "coll_inv home sha0 {} s1 (h @ [entry_wire (mintEntry ?rt tstamp ?in (length h))])" "hint_of home (lookup s1) = hint_of home (lookup s)" "keeps_current home s s1"
    using run_insert [of home ?rt "{}" s h example_ctx example_doc None example_doc example_maint] h ctx host
    by (auto simp: LOG_FORWARD_PROBE_CAP_def)
  let ?req = "ReqInsert ?rt example_maint example_ctx example_doc None"
  have "sys_reach (kernel home sha0 {}) (allowed {}) (s, ts) (s1, ts @ [Ret (?req, AnsInsert (Inr ''a''))])"
  proof (rule serve_is_execution)
    show "admissible home sha0 {} s ?req" by (simp add: admissible_def example_on)
    show "calls_allowed (allowed {}) (serve home sha0 ?req) s"
      by (rule issues_allowed) (simp add: serve_def answering_def issues_runInsert example_checks)
    show "run (serve home sha0 ?req) s = ((?req, AnsInsert (Inr ''a'')), s1)"
      using run by (simp add: serve_def answering_def run_bind)
  qed
  with s1 ts show ?thesis
    by (intro exI [of _ s1] exI [of _ "entry_wire (mintEntry ?rt tstamp ?in (length h))"])
      (simp add: entry_wire_def mintEntry_def insert_input_def example_ctx_def wire)
qed

text \<open>Deleting it.\<close>

definition delete_a :: commit_input where
  "delete_a = delete_input example_ctx ''a''"

lemma scenario_delete:
  assumes h: "coll_inv home sha0 {} s h" "length h < 3" "hint_of home (lookup s) = 0"
  shows "\<exists>s1 e t k. sys_reach (kernel home sha0 {}) (allowed {}) (s, ts)
      (s1, ts @ [Ret (ReqCommit (session i) example_writer example_maint delete_a, AnsCommit (Inr (Committed e t True k)))]) \<and>
    coll_inv home sha0 {} s1 (h @ [e]) \<and> hint_of home (lookup s1) = 0 \<and>
    le_seq e = length h \<and> le_session e = i \<and> le_op e = OpD \<and> le_collection e = ''t'' \<and> le_doc_id e = Some ''a''"
proof -
  let ?rt = "session i"
  obtain tstamp where ts: "timestamp (rt_now ?rt) = Inr tstamp" using example_checks(1) by auto
  have check: "check_input ?rt delete_a = Inr None"
    by (simp add: check_input_def delete_a_def delete_input_def assertStoredDocId_def) code_simp
  have tgt: "clear_target home s h delete_a None" using h(2,3) by (simp add: clear_target_def LOG_FORWARD_PROBE_CAP_def)
  have op: "w_indexes example_writer = [] \<or> ci_op delete_a = OpD \<or> markers_fit ?rt example_writer home delete_a"
    by (simp add: delete_a_def delete_input_def)
  let ?e = "mintEntry ?rt tstamp delete_a (length h)"
  obtain t k s1 where run: "run (commit_attempt ?rt example_writer example_maint delete_a) s = (Inr (Committed ?e t True k), s1)"
    and s1: "coll_inv home sha0 {} s1 (h @ [entry_wire ?e])" "hint_of home (lookup s1) = hint_of home (lookup s)"
    using run_commit_attempt [OF h(1) _ check tgt op small_keys [OF h(2)] ts _ example_checks(3)] by (auto simp: example_writer_def)
  have e: "entry_wire ?e = ?e" by (simp add: entry_wire_def mintEntry_def delete_a_def delete_input_def)
  let ?req = "ReqCommit ?rt example_writer example_maint delete_a"
  have "sys_reach (kernel home sha0 {}) (allowed {}) (s, ts) (s1, ts @ [Ret (?req, AnsCommit (Inr (Committed ?e t True k)))])"
  proof (rule serve_is_execution)
    show "admissible home sha0 {} s ?req"
      by (simp add: admissible_def example_writer_def guard_probed_def delete_a_def delete_input_def)
    show "calls_allowed (allowed {}) (serve home sha0 ?req) s"
      by (rule issues_allowed) (simp add: serve_def answering_def issues_commit_attempt example_checks)
    show "run (serve home sha0 ?req) s = ((?req, AnsCommit (Inr (Committed ?e t True k))), s1)"
      using run by (simp add: serve_def answering_def run_bind)
  qed
  then show ?thesis
    using s1 h(3) e by (intro exI [of _ s1] exI [of _ ?e] exI [of _ t] exI [of _ k])
      (simp add: mintEntry_def delete_a_def delete_input_def example_ctx_def)
qed

text \<open>Reading it by id.\<close>

lemma example_scans: "scans example_rt example_ctx (id_state ''a'' (Some 1))"
  by (simp add: scans_def planQuery_def id_state_def id_wire_def example_ctx_def)

lemma scenario_read:
  assumes h: "coll_inv home sha0 {} s h" "length h < 4"
  shows "\<exists>rd. sys_reach (kernel home sha0 {}) (allowed {}) (s, ts)
      (s, ts @ [Ret (ReqRead example_rt example_ctx (id_state ''a'' (Some 1)), AnsRead (Inr rd))])"
proof -
  let ?req = "ReqRead example_rt example_ctx (id_state ''a'' (Some 1))"
  have ctx: "ctx_prefix example_ctx = home" "ctx_name example_ctx = collection_of home" by (simp_all add: example_ctx_def)
  obtain rd where run: "run (runReadRows example_rt example_ctx (id_state ''a'' (Some 1))) s = (Inr rd, s)"
    using example_scans run_quiet_read [OF h(1) ctx, of "id_state ''a'' (Some 1)"] h(2) by (auto simp: scan_by_id LOG_FORWARD_PROBE_CAP_def)
  have "sys_reach (kernel home sha0 {}) (allowed {}) (s, ts) (s, ts @ [Ret (?req, AnsRead (Inr rd))])"
  proof (rule serve_is_execution)
    show "admissible home sha0 {} s ?req" by (simp add: admissible_def on_collection_def example_ctx_def)
    show "calls_allowed (allowed {}) (serve home sha0 ?req) s"
      by (rule issues_allowed) (simp add: serve_def answering_def no_snapshot)
    show "run (serve home sha0 ?req) s = ((?req, AnsRead (Inr rd)), s)"
      using run by (simp add: serve_def answering_def run_bind)
  qed
  then show ?thesis by blast
qed

text \<open>Polling the change feed of a quiet collection.\<close>

lemma run_poll_entries:
  assumes h: "coll_inv p sha B s h" and cur: "current_of p (lookup s) = Some (head, t)"
    and d: "manifest_prefix d coll = p" "assertPathSegment coll = Inr ()" and a: "log_seq_start head \<le> a" "b \<le> length h"
  shows "run (poll_entries d coll head [a ..< b]) s = (Inr (map ((!) h) [a ..< b]), s)"
proof -
  have fl: "delete_floor p (lookup s) \<le> log_seq_start head" and p: "valid_key p"
    using h cur inv_map_floors [of p sha B "lookup s" h] by (simp_all add: coll_inv_def inv_map_def config_ok_def seq_floor_def)
  have one: "run (getLogEntry d coll n head) s = (Inr (Some (h ! n)), s)" if n: "log_seq_start head \<le> n" "n < length h" for n
  proof -
    obtain v where "lookup s (logObjectKey p n) = Some v" "body v = BLog (h ! n)" using quiet_slot [OF h _ n(2)] fl n(1) by auto
    then show ?thesis
      using p n(1) by (simp add: getLogEntry_def d io_simps assertAtOrAboveLogFloor_def certifiedDeleteFloor_def logSeqStartOf_def Let_def)
  qed
  have "run (poll_entries d coll head ns) s = (Inr (map ((!) h) ns), s)"
    if "\<forall>n \<in> set ns. log_seq_start head \<le> n \<and> n < length h" for ns
    using that by (induction ns) (simp_all add: io_simps one)
  then show ?thesis using a by simp
qed

lemma run_pollOnce:
  assumes h: "coll_inv p sha B s h" and cur: "current_of p (lookup s) = Some (head, t)"
    and d: "manifest_prefix d coll = p" "assertPathSegment coll = Inr ()"
    and cap: "length h < tail_hint head + LOG_FORWARD_PROBE_CAP"
    and cursor: "decode_opt cursor = Inr decoded" "cursor_start decoded head = Inr (Some start)"
  shows "run (pollOnce d coll cursor) s = (Inr (drop start (take (start + DEFAULT_MAX_EVENTS) h), cj_generation head), s)"
proof -
  let ?n = "min (length h) (start + DEFAULT_MAX_EVENTS)"
  have start: "log_seq_start head \<le> start" using cursor_start_some [OF cursor] by simp
  have le: "log_seq_start head \<le> tail_hint head" "tail_hint head \<le> length h" "delete_floor p (lookup s) \<le> log_seq_start head"
    using h cur inv_map_floors [of p sha B "lookup s" h] by (simp_all add: coll_inv_def seq_floor_def hint_of_def)
  have probe: "run (probeTailFrom p (tail_hint head) None) s = (Inr (length h, drop (tail_hint head) h), s)"
    by (rule run_tail [OF h]) (use le cap in auto)
  have tail: "run (probeLogTail d coll (max (logSeqStartOf head) (tail_hint head)) head) s = (Inr (length h), s)"
    using le(1) probe by (simp add: probeLogTail_def d io_simps assertAtOrAboveLogFloor_def certifiedDeleteFloor_def logSeqStartOf_def max_absorb2 Let_def)
  have slice: "map ((!) h) [start ..< ?n] = drop start (take (start + DEFAULT_MAX_EVENTS) h)"
    by (rule nth_equalityI) (simp_all del: upt_conv_Cons_Cons min_less_iff_conj add: nth_upt less_diff_conv add.commute)
  have read: "run (getCurrentJson d coll) s = (Inr (Some (head, t)), s)"
    using run_readCurrent [OF h] cur by (simp add: getCurrentJson_def d io_simps currentKey_def)
  show ?thesis
    unfolding pollOnce_def decode_opt_def [symmetric]
    using run_poll_entries [OF h cur d start, of ?n] by (simp add: io_simps cursor read tail slice)
qed

lemma issues_pollOnce [no_snapshot]: "issues (allowed B) (pollOnce d coll cursor)"
proof -
  have "issues (allowed B) (getLogEntry d coll n head)" for n head
    by (auto simp: getLogEntry_def no_snapshot split: option.splits)
  then have "issues (allowed B) (poll_entries d coll head ns)" for head ns
    by (induction ns) (auto simp: no_snapshot)
  then show ?thesis
    unfolding pollOnce_def getCurrentJson_def probeLogTail_def
    by (auto simp: no_snapshot intro!: issues_io_bind split: option.splits)
qed

lemma issues_longPollSince [no_snapshot]: "issues (allowed B) (longPollSince fuel d coll cursor start now timeoutMs aborted)"
proof -
  have "issues (allowed B) (ticks fuel k d coll cursor now deadline aborted)" for k deadline
    by (induction fuel arbitrary: k) (auto simp: no_snapshot split: sum.splits)
  then show ?thesis by (auto simp: longPollSince_def no_snapshot simp del: ticks.simps)
qed

definition example_db :: db where
  "example_db = \<lparr>db_app = ''a'', db_tenant = ''b'', db_schemas = [], db_indexes = []\<rparr>"

lemma example_db: "manifest_prefix example_db ''t'' = home" "assertPathSegment ''t'' = Inr ()"
  by (simp_all add: manifest_prefix_def physicalPrefixFor_def example_db_def) code_simp

text \<open>One request, on a client that does not wait.\<close>

definition since :: "string \<Rightarrow> log_entry list \<Rightarrow> string \<Rightarrow> thread" where
  "since cursor events nxt =
     Ret (ReqSince 1 example_db ''t'' cursor 0 (\<lambda>_. 0) 25000 (\<lambda>_. True), AnsSince (Inr (Some (events, nxt))))"

lemma scenario_since:
  assumes h: "coll_inv home sha0 {} s h" and cur: "current_of home (lookup s) = Some (head, t)" and small: "length h < 1000"
    and cursor: "decode_opt cursor = Inr decoded" "cursor_start decoded head = Inr (Some start)"
  shows "sys_reach (kernel home sha0 {}) (allowed {}) (s, ts)
    (s, ts @ [since cursor (drop start h) (if drop start h = [] then cursor else nextCursor (drop start h, cj_generation head))])"
proof -
  let ?req = "ReqSince 1 example_db ''t'' cursor 0 (\<lambda>_. 0) 25000 (\<lambda>_. True)"
  let ?ans = "Inr (Some (drop start h, if drop start h = [] then cursor else nextCursor (drop start h, cj_generation head))) :: since_response option result"
  have "run (pollOnce example_db ''t'' cursor) s = (Inr (drop start (take (start + DEFAULT_MAX_EVENTS) h), cj_generation head), s)"
    by (rule run_pollOnce [OF h cur example_db _ cursor]) (use small in \<open>simp add: LOG_FORWARD_PROBE_CAP_def\<close>)
  moreover have "take (start + DEFAULT_MAX_EVENTS) h = h" using small by (simp add: DEFAULT_MAX_EVENTS_def)
  moreover have "\<exists>u. (if cursor \<noteq> [] then result_bind (decodeCursor cursor) (\<lambda>_. Inr ()) else Inr ()) = Inr (u :: unit)"
    using cursor(1) by (auto simp: decode_opt_def result_bind_def split: if_splits sum.splits)
  ultimately have run: "run (longPollSince 1 example_db ''t'' cursor 0 (\<lambda>_. 0) 25000 (\<lambda>_. True)) s = (?ans, s)"
    by (auto simp: longPollSince_def io_simps)
  show ?thesis
    unfolding since_def
  proof (rule serve_is_execution)
    show "admissible home sha0 {} s ?req" by (simp add: admissible_def example_db)
    show "calls_allowed (allowed {}) (serve home sha0 ?req) s"
      by (rule issues_allowed) (simp add: serve_def answering_def no_snapshot)
    show "run (serve home sha0 ?req) s = ((?req, AnsSince ?ans), s)"
      using run by (simp add: serve_def answering_def run_bind)
  qed
qed

text \<open>Two clients insert the row in turn, with a delete in between; then it is read.\<close>

definition insert_done :: "string \<Rightarrow> thread" where
  "insert_done i = Ret (ReqInsert (session i) example_maint example_ctx example_doc None, AnsInsert (Inr ''a''))"

definition delete_done :: "log_entry \<Rightarrow> string \<Rightarrow> nat \<Rightarrow> thread" where
  "delete_done e t k = Ret (ReqCommit (session ''s2'') example_writer example_maint delete_a, AnsCommit (Inr (Committed e t True k)))"

definition read_done :: "read_rows \<Rightarrow> thread" where
  "read_done rd = Ret (ReqRead example_rt example_ctx (id_state ''a'' (Some 1)), AnsRead (Inr rd))"

abbreviation reaches :: "store \<times> thread list \<Rightarrow> store \<times> thread list \<Rightarrow> bool" where
  "reaches \<equiv> sys_reach (kernel home sha0 {}) (allowed {})"

definition life :: "store \<Rightarrow> store \<Rightarrow> store \<Rightarrow> log_entry \<Rightarrow> log_entry \<Rightarrow> log_entry \<Rightarrow> string \<Rightarrow> nat \<Rightarrow> read_rows \<Rightarrow> bool" where
  "life s1 s2 s3 e1 e2 e3 t k rd \<longleftrightarrow>
     reaches (empty_storage, []) (s1, [insert_done ''s1'']) \<and>
     reaches (s1, [insert_done ''s1'']) (s2, [insert_done ''s1'', delete_done e2 t k]) \<and>
     reaches (s2, [insert_done ''s1'', delete_done e2 t k]) (s3, [insert_done ''s1'', delete_done e2 t k, insert_done ''s3'']) \<and>
     reaches (s3, [insert_done ''s1'', delete_done e2 t k, insert_done ''s3''])
       (s3, [insert_done ''s1'', delete_done e2 t k, insert_done ''s3'', read_done rd]) \<and>
     coll_inv home sha0 {} s3 [e1, e2, e3] \<and> hint_of home (lookup s3) = 0 \<and> le_seq e2 = 1"

lemma lifeD:
  assumes "life s1 s2 s3 e1 e2 e3 t k rd"
  shows "reaches (empty_storage, []) (s1, [insert_done ''s1''])"
    "reaches (empty_storage, []) (s2, [insert_done ''s1'', delete_done e2 t k])"
    "reaches (s2, [insert_done ''s1'', delete_done e2 t k]) (s3, [insert_done ''s1'', delete_done e2 t k, insert_done ''s3''])"
    "reaches (empty_storage, []) (s3, [insert_done ''s1'', delete_done e2 t k, insert_done ''s3''])"
    "reaches (s3, [insert_done ''s1'', delete_done e2 t k, insert_done ''s3''])
       (s3, [insert_done ''s1'', delete_done e2 t k, insert_done ''s3'', read_done rd])"
    "coll_inv home sha0 {} s3 [e1, e2, e3]" "hint_of home (lookup s3) = 0" "le_seq e2 = 1"
  using assms rtranclp_trans [of "sys_step (kernel home sha0 {}) (allowed {})"] unfolding life_def by metis+

text \<open>Insert and delete; what follows starts from there.\<close>

lemma scenario_start:
  "\<exists>s1 s2 e1 e2 t k. reaches (empty_storage, []) (s1, [insert_done ''s1'']) \<and>
     reaches (s1, [insert_done ''s1'']) (s2, [insert_done ''s1'', delete_done e2 t k]) \<and>
     coll_inv home sha0 {} s2 [e1, e2] \<and> hint_of home (lookup s2) = 0 \<and> le_seq e2 = 1 \<and> le_session e2 = ''s2'' \<and>
     map_of (view ''t'' [e1, e2]) ''a'' = None"
proof -
  have nil: "map_of (view ''t'' []) ''a'' = None" by (simp add: view_def foldLogEntriesOnto_def)
  obtain s1 e1 where 1: "reaches (empty_storage, []) (s1, [] @ [insert_done ''s1''])"
    "coll_inv home sha0 {} s1 ([] @ [e1])" "hint_of home (lookup s1) = 0" "le_op e1 = OpI" "le_collection e1 = ''t''"
    "le_doc_id e1 = Some ''a''" "le_after e1 = Some example_doc"
    using scenario_insert [OF example_inv _ nil, of "[]" "''s1''"] by (auto simp: insert_done_def)
  obtain s2 e2 t k where 2: "reaches (s1, [insert_done ''s1'']) (s2, [insert_done ''s1''] @ [delete_done e2 t k])"
    "coll_inv home sha0 {} s2 (([] @ [e1]) @ [e2])" "hint_of home (lookup s2) = 0" "le_op e2 = OpD" "le_collection e2 = ''t''"
    "le_doc_id e2 = Some ''a''" "le_seq e2 = 1" "le_session e2 = ''s2''"
    using scenario_delete [OF 1(2) _ 1(3), of "[insert_done ''s1'']" "''s2''"] by (auto simp: delete_done_def)
  have "map_of (view ''t'' [e1, e2]) ''a'' = None"
    using 1(4-7) 2(4-6) by (simp add: view_def foldLogEntriesOnto_def fold_entry_map entry_effect_def)
  with 1 2 show ?thesis by (intro exI [of _ s1] exI [of _ s2] exI [of _ e1] exI [of _ e2] exI [of _ t] exI [of _ k]) simp
qed

lemma scenario: "\<exists>s1 s2 s3 e1 e2 e3 t k rd. life s1 s2 s3 e1 e2 e3 t k rd"
proof -
  obtain s1 s2 e1 e2 t k where s: "reaches (empty_storage, []) (s1, [insert_done ''s1''])"
    "reaches (s1, [insert_done ''s1'']) (s2, [insert_done ''s1'', delete_done e2 t k])"
    "coll_inv home sha0 {} s2 [e1, e2]" "hint_of home (lookup s2) = 0" "le_seq e2 = 1" "map_of (view ''t'' [e1, e2]) ''a'' = None"
    using scenario_start by blast
  obtain s3 e3 where 3: "reaches (s2, [insert_done ''s1'', delete_done e2 t k]) (s3, [insert_done ''s1'', delete_done e2 t k] @ [insert_done ''s3''])"
    "coll_inv home sha0 {} s3 ([e1, e2] @ [e3])" "hint_of home (lookup s3) = 0"
    using scenario_insert [OF s(3) _ s(6), of "[insert_done ''s1'', delete_done e2 t k]" "''s3''"] s(4) by (auto simp: insert_done_def)
  obtain rd where "reaches (s3, [insert_done ''s1'', delete_done e2 t k, insert_done ''s3''])
       (s3, [insert_done ''s1'', delete_done e2 t k, insert_done ''s3''] @ [read_done rd])"
    using scenario_read [OF 3(2), of "[insert_done ''s1'', delete_done e2 t k, insert_done ''s3'']"] by (auto simp: read_done_def)
  with s 3 have "life s1 s2 s3 e1 e2 e3 t k rd" by (simp add: life_def)
  then show ?thesis by blast
qed

text \<open>The states of that life, with the facts the kernel's guarantees ask for.\<close>

lemma scenario_floor: "coll_inv p sha B s h \<Longrightarrow> hint_of p (lookup s) = 0 \<Longrightarrow> delete_floor p (lookup s) = 0 \<and> seq_floor p (lookup s) = 0"
  using inv_map_floors [of p sha B "lookup s" h] by (simp add: coll_inv_def)

lemma example_ok: "coll_ok home sha0 {} empty_storage" "seq_floor home (lookup empty_storage) = 0"
  and example_floor: "delete_floor home (lookup empty_storage) = 0"
  using example_inv by (auto simp: coll_ok_def seq_floor_def delete_floor_def current_of_def empty_storage_def)

text \<open>
  The feed of another life: everything so far in one batch, then, after one more insert, the new
  entry from the cursor of the first.
\<close>

lemma decode_formatCursor:
  assumes "LSN_RE lsn" "valid_current head"
  shows "decodeCursor (formatCursor (cj_generation head) lsn) = Inr (case cj_generation head of None \<Rightarrow> NO_GENERATION | Some g \<Rightarrow> g, lsn)"
proof -
  have hex: "\<not> is_hex_char (CHR ''.'')" by (simp add: is_hex_char_def)
  have "CHR ''.'' \<notin> set g" if "GENERATION_RE g" for g
    using that hex unfolding GENERATION_RE_def list_all_iff by blast
  then have "parseCursor (formatCursor (cj_generation head) lsn) = Inr (case cj_generation head of None \<Rightarrow> NO_GENERATION | Some g \<Rightarrow> g, lsn)"
    using assms(2) by (intro parseCursor_formatCursor LSN_RE_no_dot [OF assms(1)]) (auto simp: valid_current_def)
  then show ?thesis
    using assms by (cases "cj_generation head") (simp_all add: decodeCursor_def CURSOR_GENERATION_RE_def NO_GENERATION_def valid_current_def)
qed

definition polled_life :: "store \<Rightarrow> store \<Rightarrow> log_entry \<Rightarrow> log_entry \<Rightarrow> log_entry \<Rightarrow> string \<Rightarrow> nat \<Rightarrow> string \<Rightarrow> string \<Rightarrow> bool" where
  "polled_life s2 s3 e1 e2 e3 t k nxt nxt' \<longleftrightarrow>
     reaches (empty_storage, []) (s2, [insert_done ''s1'', delete_done e2 t k]) \<and>
     coll_inv home sha0 {} s2 [e1, e2] \<and> hint_of home (lookup s2) = 0 \<and>
     reaches (s2, [insert_done ''s1'', delete_done e2 t k])
       (s3, [insert_done ''s1'', delete_done e2 t k, since [] [e1, e2] nxt, insert_done ''s3'', since nxt [e3] nxt']) \<and>
     coll_inv home sha0 {} s3 [e1, e2, e3] \<and> hint_of home (lookup s3) = 0 \<and> le_seq e2 = 1 \<and> le_session e2 = ''s2'' \<and> nxt \<noteq> []"

lemma polled_lifeD:
  assumes "polled_life s2 s3 e1 e2 e3 t k nxt nxt'"
  shows "reaches (empty_storage, []) (s2, [insert_done ''s1'', delete_done e2 t k])" "coll_inv home sha0 {} s2 [e1, e2]"
    "reaches (s2, [insert_done ''s1'', delete_done e2 t k])
       (s3, [insert_done ''s1'', delete_done e2 t k, since [] [e1, e2] nxt, insert_done ''s3'', since nxt [e3] nxt'])"
    "hint_of home (lookup s2) = 0" "coll_inv home sha0 {} s3 [e1, e2, e3]" "le_seq e2 = 1" "le_session e2 = ''s2''" "nxt \<noteq> []"
    "hint_of home (lookup s3) = 0"
  using assms by (simp_all add: polled_life_def)

lemma nextCursor_start:
  assumes e: "entry_ok e" "session_id (le_session e)" "le_seq e < 2 ^ COUNT_BIT_WIDTH"
    and head: "valid_current head" "log_seq_start head \<le> le_seq e" "cj_generation head = gen"
  shows "formatCursor gen (le_lsn e) \<noteq> []" "decode_opt (formatCursor gen (le_lsn e)) = Inr (Some (case gen of None \<Rightarrow> NO_GENERATION | Some g \<Rightarrow> g, le_lsn e))"
    "cursor_start (Some (case gen of None \<Rightarrow> NO_GENERATION | Some g \<Rightarrow> g, le_lsn e)) head = Inr (Some (Suc (le_seq e)))"
proof -
  note lsn = minted_lsn [OF e]
  show ne: "formatCursor gen (le_lsn e) \<noteq> []" using lsn(1) by (auto simp: formatCursor_def LSN_RE_def split: option.splits)
  then show "decode_opt (formatCursor gen (le_lsn e)) = Inr (Some (case gen of None \<Rightarrow> NO_GENERATION | Some g \<Rightarrow> g, le_lsn e))"
    using decode_formatCursor [OF lsn(1) head(1)] head(3) by (simp add: decode_opt_def)
  show "cursor_start (Some (case gen of None \<Rightarrow> NO_GENERATION | Some g \<Rightarrow> g, le_lsn e)) head = Inr (Some (Suc (le_seq e)))"
    using lsn(2) head(2,3) by (simp add: cursor_start_def logSeqStartOf_def)
qed

lemma scenario_head:
  assumes "coll_inv home sha0 {} s h" "h \<noteq> []" "hint_of home (lookup s) = 0"
  shows "\<exists>head t. current_of home (lookup s) = Some (head, t) \<and> log_seq_start head = 0 \<and> valid_current head"
proof -
  have "current_of home (lookup s) \<noteq> None" using assms(1,2) by (auto simp: coll_inv_def inv_map_def)
  then obtain head t where cur: "current_of home (lookup s) = Some (head, t)" by auto
  then show ?thesis
    using scenario_floor [OF assms(1,3)] decode_current_valid by (auto simp: seq_floor_def current_of_def split: option.splits sum.splits)
qed

lemma scenario_feed: "\<exists>s2 s3 e1 e2 e3 t k nxt nxt'. polled_life s2 s3 e1 e2 e3 t k nxt nxt'"
proof -
  obtain s1 s2 e1 e2 t k where s: "reaches (empty_storage, []) (s1, [insert_done ''s1''])"
    "reaches (s1, [insert_done ''s1'']) (s2, [insert_done ''s1'', delete_done e2 t k])"
    "coll_inv home sha0 {} s2 [e1, e2]" "hint_of home (lookup s2) = 0" "le_seq e2 = 1" "le_session e2 = ''s2''"
    "map_of (view ''t'' [e1, e2]) ''a'' = None" using scenario_start by blast
  let ?ts = "[insert_done ''s1'', delete_done e2 t k]"
  obtain head t2 where head: "current_of home (lookup s2) = Some (head, t2)" "log_seq_start head = 0" "valid_current head"
    using scenario_head [OF s(3) _ s(4)] by auto
  let ?nxt = "nextCursor ([e1, e2], cj_generation head)"
  have first: "reaches (s2, ?ts) (s2, ?ts @ [since [] [e1, e2] ?nxt])"
    using scenario_since [OF s(3) head(1), of "[]" None 0 ?ts] head(2) by (simp add: decode_opt_def cursor_start_def logSeqStartOf_def)
  obtain s3 e3 where 3: "reaches (s2, ?ts @ [since [] [e1, e2] ?nxt]) (s3, (?ts @ [since [] [e1, e2] ?nxt]) @ [insert_done ''s3''])"
    "coll_inv home sha0 {} s3 ([e1, e2] @ [e3])" "hint_of home (lookup s3) = 0" "current_of home (lookup s3) = Some (head, t2)"
    using scenario_insert [OF s(3) _ s(7), of "?ts @ [since [] [e1, e2] ?nxt]" "''s3''"] s(4) head(1) by (auto simp: insert_done_def keeps_current_def)
  have ok: "entry_ok e2" using s(3) by (auto simp: coll_inv_def inv_map_def)
  have "session_id (le_session e2)" "le_seq e2 < 2 ^ COUNT_BIT_WIDTH"
    using s(5,6) by (simp_all add: session_id_def base32_char_def COUNT_BIT_WIDTH_def)
  note cur = nextCursor_start [OF ok this head(3) _ refl]
  have nxt: "?nxt = formatCursor (cj_generation head) (le_lsn e2)" by (simp add: nextCursor_def)
  let ?ts3 = "(?ts @ [since [] [e1, e2] ?nxt]) @ [insert_done ''s3'']"
  have "\<exists>nxt'. reaches (s3, ?ts3) (s3, ?ts3 @ [since ?nxt [e3] nxt'])"
    using scenario_since [OF 3(2), of head t2 ?nxt _ 2 ?ts3] cur head 3(4) s(5) unfolding nxt by (auto simp: numeral_2_eq_2)
  then obtain nxt' where second: "reaches (s3, ?ts3) (s3, ?ts3 @ [since ?nxt [e3] nxt'])" by blast
  have "reaches (s2, ?ts) (s3, ?ts3 @ [since ?nxt [e3] nxt'])"
    using first 3(1) second by (meson rtranclp_trans)
  moreover have "reaches (empty_storage, []) (s2, ?ts)" by (rule rtranclp_trans [OF s(1,2)])
  moreover have "?nxt \<noteq> []" unfolding nxt using cur(1) head(2) by simp
  ultimately have "polled_life s2 s3 e1 e2 e3 t k ?nxt nxt'" using s 3 by (simp add: polled_life_def)
  then show ?thesis by blast
qed

text \<open>
  A query over an index with two markers, of a row that is there and of one that never was. The
  bucket is written out.
\<close>

definition walk_doc :: doc where
  "walk_doc = [(''_id'', JStr ''a''), (''k'', JStr ''x'')]"

definition walk_ctx :: read_context where
  "walk_ctx = example_ctx\<lparr>ctx_indexes := [\<lparr>ix_name = ''by_k'', ix_on = OnField ''k'', ix_predicate = None\<rparr>]\<rparr>"

definition walk_query :: query_state where
  "walk_query = \<lparr>qs_wire = Some [clause PEq ''k'' (JStr ''x'')], qs_order = None, qs_limit = None\<rparr>"

definition walk_entry :: log_entry where
  "walk_entry = mintEntry example_rt (uint2strDesc 1700000000000 TIMESTAMP_BIT_WIDTH) (insert_input example_ctx ''a'' walk_doc 0 False) 0"

definition walk_head :: current_json where
  "walk_head = \<lparr>cj_snapshot = None, tail_hint = 0, log_seq_start = 0,
     writer_fence = \<lparr>epoch = 0, owner = [], claimed_at = [], lease_until = None\<rparr>,
     snapshot_bytes = 0, snapshot_rows = 0, mean_entry_bytes = None, last_warned_seq = None,
     log_delete_floor = None, cj_generation = None\<rparr>"

definition walk_store :: store where
  "walk_store = \<lparr>objects = [(currentKey home, \<lparr>body = BJson (encode_current walk_head), etag = etag_of 1\<rparr>),
      (logObjectKey home 0, \<lparr>body = BLog walk_entry, etag = etag_of 2\<rparr>),
      (home @ ''/index/by_k/81s0/a.json'', \<lparr>body = BEmpty, etag = etag_of 3\<rparr>),
      (home @ ''/index/by_k/81s0/b.json'', \<lparr>body = BEmpty, etag = etag_of 4\<rparr>)], etagCounter = 4\<rparr>"

lemma walk_current: "current_of home (lookup walk_store) = Some (walk_head, etag_of 1)"
proof -
  have "decode_current (BJson (encode_current walk_head)) = Inr walk_head" 
    by (subgoal_tac "valid_current walk_head") (simp_all add: decode_current_def valid_current_def walk_head_def)
  then show ?thesis by (simp add: current_of_def walk_store_def)
qed

lemma walk_inv: "coll_inv home sha {} walk_store [walk_entry]"
proof -
  have cur: "current_of home (lookup walk_store) = Some (walk_head, etag_of 1)" by (rule walk_current)
  have floors: "delete_floor home (lookup walk_store) = 0" "seq_floor home (lookup walk_store) = 0" "hint_of home (lookup walk_store) = 0"
    by (simp_all add: delete_floor_def seq_floor_def hint_of_def cur walk_head_def logDeleteFloorOf_def)
  have wf: "wf_storage walk_store" by (auto simp: wf_storage_def walk_store_def currentKey_def logObjectKey_def)
  have slots: "slots_ok home (lookup walk_store) [walk_entry]"
    by (auto simp: slots_ok_def slot_def floors walk_store_def currentKey_def logObjectKey_def)
  have "entry_wire walk_entry = walk_entry"
    by (simp add: entry_wire_def walk_entry_def mintEntry_def insert_input_def walk_doc_def doc_wire_def)
  moreover have "timestamp 1700000000000 = Inr (uint2strDesc 1700000000000 TIMESTAMP_BIT_WIDTH)"
    by (simp add: timestamp_def TIMESTAMP_BIT_WIDTH_def)
  ultimately have ok: "entry_ok walk_entry" using entry_ok_minted unfolding walk_entry_def by metis
  have "ledger_ok home (lookup walk_store)" "snaps_in home {} (lookup walk_store)"
    by (simp_all add: ledger_ok_def snaps_in_def walk_store_def currentKey_def logObjectKey_def gcPendingKey_def snapshotPrefix_def)
  then show ?thesis using cur floors wf slots ok
    by (auto simp: coll_inv_def inv_map_def config_ok_def snapshot_ok_def assertValidStorageKey_def walk_head_def walk_entry_def mintEntry_def)
qed

lemma walk_plan:
  "planQuery (rt_coercions example_rt) (qs_wire walk_query) (ctx_indexes walk_ctx) = IndexWalk ''by_k'' [JStr ''x''] None None"
  by code_simp

lemma walk_listed:
  "map fst (memory_list (home @ ''/index/by_k/81s0/'') None None walk_store) =
     [home @ ''/index/by_k/81s0/a.json'', home @ ''/index/by_k/81s0/b.json'']"
proof -
  let ?ks = "[currentKey home, logObjectKey home 0, home @ ''/index/by_k/81s0/a.json'', home @ ''/index/by_k/81s0/b.json'']"
  have "sort (filter (\<lambda>k. startsWith k (home @ ''/index/by_k/81s0/'') \<and> [] < k) ?ks) =
      [home @ ''/index/by_k/81s0/a.json'', home @ ''/index/by_k/81s0/b.json'']" by code_simp
  moreover have "obj_keys (objects walk_store) = ?ks" by (simp add: walk_store_def)
  ultimately show ?thesis by (simp only: memory_list_keys listed_keys_def take_max_def option.case map_map o_def fst_conv map_ident)
qed

lemma walk_found: "walk_ids (home @ ''/index/by_k/81s0/'') [home @ ''/index/by_k/81s0/a.json'', home @ ''/index/by_k/81s0/b.json''] = [''a'', ''b'']"
  by code_simp

lemma walk_segment: "encodeIndexValue (rt_stringify example_rt) (JStr ''x'') = Inr ''81s0''"
  by code_simp

lemma walk_rows:
  "foldLogEntriesOnto (foldLogEntriesOnto (List.map_filter (\<lambda>i. map_option (Pair i) (map_of [] i)) (dedup [''a'', ''b''])) [] ''t'' (Some (set (dedup [''a'', ''b'']))))
      [walk_entry] ''t'' (Some (set (dedup [''a'', ''b'']))) = [(''a'', walk_doc)]"
  by (simp add: foldLogEntriesOnto_def dedup_def map_filter_simps fold_entry_def walk_entry_def mintEntry_def insert_input_def example_ctx_def)

lemma walk_match: "match_rows (qs_wire walk_query) [(''a'', walk_doc)] = Inr [(''a'', walk_doc)]"
  by code_simp

lemma run_walk_query:
  "\<exists>rd. run (runReadRows example_rt walk_ctx walk_query) walk_store = (Inr rd, walk_store) \<and> rr_rows rd = [(''a'', walk_doc)]"
proof -
  let ?pre = "home @ ''/index/by_k/81s0/''"
  have pre: "eq_prefix home ''by_k'' [''81s0''] = ?pre" by (simp add: eq_prefix_def)
  have key: "ctx_prefix walk_ctx = home" "ctx_name walk_ctx = ''t''"
    by (simp_all add: walk_ctx_def example_ctx_def)
  have read: "run (readCurrentJson (home @ ''/current.json'')) walk_store = (Inr (Some (walk_head, etag_of 1)), walk_store)"
    using run_readCurrent [OF walk_inv [of sha0]] walk_current by (simp add: currentKey_def)
  have head: "logSeqStartOf walk_head = 0" "tail_hint walk_head = 0" "cj_snapshot walk_head = None" by (simp_all add: walk_head_def logSeqStartOf_def)
  have fl: "delete_floor home (lookup walk_store) = 0" by (simp add: delete_floor_def walk_current walk_head_def logDeleteFloorOf_def)
  have probe: "run (probeTailFrom home 0 None) walk_store = (Inr (1, [walk_entry]), walk_store)"
    using run_tail(2) [OF walk_inv [of sha0], of 0] fl by (simp add: LOG_FORWARD_PROBE_CAP_def)
  have empty: "run (walkLogRange (rt_bytes example_rt) home 0 0) walk_store = (Inr [], walk_store)"
    using run_walk [OF walk_inv [of sha0], of 0 0 "rt_bytes example_rt"] fl by simp
  have list: "run (list_index (rt_stringify example_rt) ?pre None None) walk_store = (Inr [''a'', ''b''], walk_store)"
    using walk_listed walk_found by (simp add: list_index_def io_simps del: append.simps append_Cons)
  have ne: "dedup [''a'', ''b''] \<noteq> []" by (simp add: dedup_def)
  have ol: "order_and_limit co walk_query rows = rows" for co rows
    by (simp add: order_and_limit_def walk_query_def apply_limit_def)
  show ?thesis
    unfolding runReadRows_def key walk_plan query_plan.case runIndexWalkPlan_def load_base_def
    using read probe empty list walk_rows walk_match ne
    by (simp add: io_simps walk_segment pre head ol Let_def del: append.simps append_Cons)
qed

lemma scenario_walk:
  "\<not> scans example_rt walk_ctx walk_query \<and>
   (\<exists>rd. reaches (walk_store, []) (walk_store, [Ret (ReqRead example_rt walk_ctx walk_query, AnsRead (Inr rd))]) \<and>
      rr_rows rd = [(''a'', walk_doc)])"
proof
  show "\<not> scans example_rt walk_ctx walk_query" by (simp only: scans_def walk_plan query_plan.case not_False_eq_True)
  let ?req = "ReqRead example_rt walk_ctx walk_query"
  obtain rd where run: "run (runReadRows example_rt walk_ctx walk_query) walk_store = (Inr rd, walk_store)" "rr_rows rd = [(''a'', walk_doc)]"
    using run_walk_query by blast
  have "reaches (walk_store, []) (walk_store, [] @ [Ret (?req, AnsRead (Inr rd))])"
  proof (rule serve_is_execution)
    show "admissible home sha0 {} walk_store ?req" by (simp add: admissible_def on_collection_def walk_ctx_def example_ctx_def)
    show "calls_allowed (allowed {}) (serve home sha0 ?req) walk_store"
      by (rule issues_allowed) (simp add: serve_def answering_def no_snapshot)
    show "run (serve home sha0 ?req) walk_store = ((?req, AnsRead (Inr rd)), walk_store)"
      using run(1) by (simp add: serve_def answering_def run_bind)
  qed
  with run(2) show "\<exists>rd. reaches (walk_store, []) (walk_store, [Ret (?req, AnsRead (Inr rd))]) \<and> rr_rows rd = [(''a'', walk_doc)]" by auto
qed

end
