(* ===== verification/Repair.thy ===== *)
theory Repair
  imports Scenario
begin

text \<open>
  What a rebuild of an index achieves on a quiet bucket: afterwards the markers of the index are exactly
  those the live documents project, and a second rebuild changes nothing.
\<close>

section \<open>The live documents\<close>

lemma run_live_documents:
  assumes h: "coll_inv p (rt_sha rt) B s h" and cur: "current_of p (lookup s) = Some (c, t)"
    and cap: "length h < tail_hint c + LOG_FORWARD_PROBE_CAP"
  shows "\<exists>docs. run (live_documents rt p c) s = (Inr docs, s) \<and> distinct (obj_keys docs) \<and>
    map_of docs = map_of (view (collection_of p) h)"
proof -
  define ctx where "ctx = \<lparr>ctx_prefix = p, ctx_name = collection_of p, ctx_schema = None, ctx_indexes = []\<rparr>"
  define everything where "everything = \<lparr>qs_wire = None, qs_order = None, qs_limit = None\<rparr>"
  have all: "scan_rows everything docs = Inr docs" for docs
    by (simp add: scan_rows_def everything_def match_rows_def singleIdFromPredicate_def)
  obtain base where b: "distinct (obj_keys base)"
    "map_of (foldLogEntriesOnto base (drop (log_seq_start c) h) (collection_of p) None) = map_of (view (collection_of p) h)"
    "run (full_scan rt ctx c everything) s = (Inr (foldLogEntriesOnto base (drop (log_seq_start c) h) (collection_of p) None,
       length h, Some (base, drop (log_seq_start c) h)), s)"
    using run_full_scan [OF h cur, of ctx everything] cap by (auto simp: ctx_def all)
  have "full_scan rt ctx c everything = io_bind (load_base rt c (collection_of p)) (\<lambda>base.
     io_bind (walkLogRange (rt_bytes rt) p (logSeqStartOf c) (tail_hint c)) (\<lambda>entries.
     io_bind (probeTailFrom p (max (logSeqStartOf c) (tail_hint c)) None) (\<lambda>(tailSeq, probed).
     io_return (foldLogEntriesOnto (foldLogEntriesOnto base entries (collection_of p) None) probed (collection_of p) None,
       tailSeq, Some (base, entries @ probed)))))"
    by (simp add: full_scan_def ctx_def all Let_def io_lift_def io_bind_def [of "Ret _"])
  with b(3) have "run (live_documents rt p c) s = (Inr (foldLogEntriesOnto base (drop (log_seq_start c) h) (collection_of p) None), s)"
    by (auto simp: live_documents_def collection_of_def Let_def io_simps split: prod.splits sum.splits)
  then show ?thesis using b fold_distinct [OF b(1)] by blast
qed

section \<open>The keys of an index\<close>

text \<open>The markers the documents \<open>m\<close> project.\<close>

definition index_of :: "(json \<Rightarrow> nat list) \<Rightarrow> string \<Rightarrow> index_definition \<Rightarrow> (string \<Rightarrow> doc option) \<Rightarrow> string set" where
  "index_of str p def m = {k. \<exists>i d ks. m i = Some d \<and> allIndexKeysFor str p [def] (Some d) i = Inr ks \<and> k \<in> set ks}"

definition projectable :: "(json \<Rightarrow> nat list) \<Rightarrow> string \<Rightarrow> index_definition \<Rightarrow> (string \<Rightarrow> doc option) \<Rightarrow> bool" where
  "projectable str p def m \<longleftrightarrow> (\<forall>i d. m i = Some d \<longrightarrow> (\<exists>ks. allIndexKeysFor str p [def] (Some d) i = Inr ks \<and> (\<forall>k \<in> set ks. valid_key k)))"

lemma index_of_upd:
  assumes "m i = None" "allIndexKeysFor str p [def] (Some d) i = Inr ks"
  shows "index_of str p def (m(i \<mapsto> d)) = set ks \<union> index_of str p def m"
proof (intro set_eqI iffI)
  fix k assume "k \<in> index_of str p def (m(i \<mapsto> d))"
  then obtain j e ks' where j: "(m(i \<mapsto> d)) j = Some e" "allIndexKeysFor str p [def] (Some e) j = Inr ks'" "k \<in> set ks'"
    unfolding index_of_def by blast
  show "k \<in> set ks \<union> index_of str p def m"
  proof (cases "j = i")
    case True
    with j assms(2) show ?thesis by (simp del: allIndexKeysFor.simps)
  next
    case False
    with j(1) have "m j = Some e" by simp
    with j(2,3) show ?thesis unfolding index_of_def by blast
  qed
next
  fix k assume "k \<in> set ks \<union> index_of str p def m"
  then consider "k \<in> set ks" | j e ks' where "m j = Some e" "allIndexKeysFor str p [def] (Some e) j = Inr ks'" "k \<in> set ks'"
    unfolding index_of_def by blast
  then show "k \<in> index_of str p def (m(i \<mapsto> d))"
  proof cases
    case 1
    then show ?thesis unfolding index_of_def using assms(2) by (intro CollectI exI [of _ i] exI [of _ d] exI [of _ ks]) (simp del: allIndexKeysFor.simps)
  next
    case 2
    then have "(m(i \<mapsto> d)) j = Some e" using assms(1) by auto
    with 2(2,3) show ?thesis unfolding index_of_def by blast
  qed
qed

lemma expected_keys_index:
  assumes "distinct (obj_keys docs)" "projectable str p def (map_of docs)"
  shows "\<exists>ks. expected_keys str p def docs = Inr ks \<and> set ks = index_of str p def (map_of docs)"
  using assms
proof (induction docs)
  case (Cons x docs)
  obtain i d where x: "x = (i, d)" by fastforce
  have none: "map_of docs i = None" using Cons.prems(1) x by (auto simp: map_of_eq_None_iff)
  have "map_of (x # docs) i = Some d" using x by simp
  then obtain ks where ks: "allIndexKeysFor str p [def] (Some d) i = Inr ks" using Cons.prems(2) unfolding projectable_def by blast
  have "projectable str p def (map_of docs)"
    unfolding projectable_def
  proof (intro allI impI)
    fix j e assume "map_of docs j = Some e"
    then have "map_of (x # docs) j = Some e" using none x by auto
    then show "\<exists>ks. allIndexKeysFor str p [def] (Some e) j = Inr ks \<and> (\<forall>k \<in> set ks. valid_key k)"
      using Cons.prems(2) unfolding projectable_def by blast
  qed
  then obtain rest where rest: "expected_keys str p def docs = Inr rest" "set rest = index_of str p def (map_of docs)"
    using Cons.IH Cons.prems(1) by auto
  have "map_of (x # docs) = (map_of docs)(i \<mapsto> d)" using x by simp
  then have "index_of str p def (map_of (x # docs)) = set ks \<union> index_of str p def (map_of docs)"
    using index_of_upd [of "map_of docs" i, OF none ks] by (simp only:)
  then show ?case using ks rest x by (simp del: allIndexKeysFor.simps map_of.simps)
qed (simp add: index_of_def)

lemma one_index_key:
  assumes "allIndexKeysFor str p [def] d i = Inr ks" "k \<in> set ks"
  shows "\<exists>x. k = indexKeyPrefix p (ix_name def) @ x"
  using assms
  by (auto simp: result_bind_def indexKeyFor_def indexKeyPrefix_def split: sum.splits if_splits option.splits)

lemma index_key_prefix: "k \<in> index_of str p def m \<Longrightarrow> startsWith k (indexKeyPrefix p (ix_name def))"
  unfolding index_of_def using one_index_key by (fastforce simp: startsWith_def simp del: allIndexKeysFor.simps)

section \<open>Reconciling\<close>

lemma run_put_missing:
  assumes "wf_storage s" "distinct ks" "\<forall>k \<in> set ks. valid_key k \<and> (k \<in> actual \<longleftrightarrow> lookup s k \<noteq> None)"
  shows "\<exists>s1. run (put_missing False actual ks a n) s = (Inr (a + length (filter (\<lambda>k. k \<notin> actual) ks), n + length (filter (\<lambda>k. k \<in> actual) ks)), s1) \<and>
    wf_storage s1 \<and> dom (lookup s1) = dom (lookup s) \<union> set ks \<and> (\<forall>k. k \<notin> set ks \<longrightarrow> lookup s1 k = lookup s k) \<and>
    (set ks \<subseteq> actual \<longrightarrow> s1 = s)"
  using assms
proof (induction ks arbitrary: s a n)
  case (Cons k ks)
  show ?case
  proof (cases "k \<in> actual")
    case True
    with Cons.prems obtain s1 where "run (put_missing False actual ks a (n + 1)) s =
        (Inr (a + length (filter (\<lambda>k. k \<notin> actual) ks), n + 1 + length (filter (\<lambda>k. k \<in> actual) ks)), s1)"
      "wf_storage s1" "dom (lookup s1) = dom (lookup s) \<union> set ks" "\<forall>k. k \<notin> set ks \<longrightarrow> lookup s1 k = lookup s k"
      "set ks \<subseteq> actual \<longrightarrow> s1 = s"
      using Cons.IH [of s a "n + 1"] by auto
    then show ?thesis using True Cons.prems(3) by (intro exI [of _ s1]) auto
  next
    case False
    with Cons.prems(3) have v: "valid_key k" "lookup s k = None" by auto
    obtain r s0 where put: "memory_put k BEmpty create_only s = (r, s0)" by fastforce
    from mem.put_writes [OF Cons.prems(1) v(1) _ put] v(2) obtain tg where
      w: "r = Inr tg" "lookup s0 = (lookup s)(k \<mapsto> \<lparr>body = BEmpty, etag = tg\<rparr>)" by (auto simp: put_allowed_def)
    have wf: "wf_storage s0" using mem.put_ok [OF Cons.prems(1), of k BEmpty create_only] put by simp
    have "\<forall>j \<in> set ks. valid_key j \<and> (j \<in> actual \<longleftrightarrow> lookup s0 j \<noteq> None)" using Cons.prems(2,3) w(2) by auto
    with Cons.IH [OF wf, of "a + 1" n] Cons.prems(2) obtain s1 where
      "run (put_missing False actual ks (a + 1) n) s0 =
        (Inr (a + 1 + length (filter (\<lambda>k. k \<notin> actual) ks), n + length (filter (\<lambda>k. k \<in> actual) ks)), s1)"
      "wf_storage s1" "dom (lookup s1) = dom (lookup s0) \<union> set ks" "\<forall>k. k \<notin> set ks \<longrightarrow> lookup s1 k = lookup s0 k" by auto
    then show ?thesis using False put w by (intro exI [of _ s1]) (auto simp: run_bind run_io_put)
  qed
qed simp

lemma run_delete_orphans:
  assumes "wf_storage s" "\<forall>k \<in> set ks. valid_key k"
  shows "\<exists>s1. run (delete_orphans False expected ks n) s = (Inr (n + length (filter (\<lambda>k. k \<notin> expected) ks)), s1) \<and>
    wf_storage s1 \<and> (\<forall>k. lookup s1 k = (if k \<in> set ks - expected then None else lookup s k)) \<and> (set ks \<subseteq> expected \<longrightarrow> s1 = s)"
  using assms
proof (induction ks arbitrary: s n)
  case (Cons k ks)
  show ?case
  proof (cases "k \<in> expected")
    case True
    then show ?thesis using Cons.IH [OF Cons.prems(1), of n] Cons.prems(2) by auto
  next
    case False
    obtain u s0 where del: "memory_delete k s = (u, s0)" by fastforce
    from mem.delete_removes [OF _ del] Cons.prems(2) have w: "u = Inr ()" "lookup s0 = (lookup s)(k := None)" by auto
    have "wf_storage s0" using mem.delete_ok [OF Cons.prems(1), of k] del by simp
    with Cons.IH [of s0 "n + 1"] Cons.prems(2) obtain s1 where
      "run (delete_orphans False expected ks (n + 1)) s0 = (Inr (n + 1 + length (filter (\<lambda>k. k \<notin> expected) ks)), s1)"
      "wf_storage s1" "\<forall>k. lookup s1 k = (if k \<in> set ks - expected then None else lookup s0 k)" by auto
    then show ?thesis using False del w by (intro exI [of _ s1]) (auto simp: run_io_bind run_io_delete)
  qed
qed simp

text \<open>Markers \<open>E\<close> are wanted and those under the prefix are listed.\<close>

lemma run_reconcile:
  assumes s: "wf_storage s" "\<forall>k. lookup s k \<noteq> None \<longrightarrow> valid_key k"
    and e: "distinct expected" "\<forall>k \<in> set expected. valid_key k \<and> startsWith k pre"
    and a: "set actual = {k \<in> dom (lookup s). startsWith k pre}"
  shows "\<exists>s1. run (reconcile False expected actual) s =
      (Inr \<lparr>rb_added = length (filter (\<lambda>k. k \<notin> set actual) expected), rb_removed = length (filter (\<lambda>k. k \<notin> set expected) actual),
         rb_kept = length (filter (\<lambda>k. k \<in> set actual) expected)\<rparr>, s1) \<and>
    {k \<in> dom (lookup s1). startsWith k pre} = set expected \<and> (\<forall>k. \<not> startsWith k pre \<longrightarrow> lookup s1 k = lookup s k) \<and>
    wf_storage s1 \<and> (set actual = set expected \<longrightarrow> s1 = s)"
proof -
  have "\<forall>k \<in> set expected. valid_key k \<and> (k \<in> set actual \<longleftrightarrow> lookup s k \<noteq> None)" using e(2) a by auto
  note put = run_put_missing [OF s(1) e(1) this, of 0 0]
  obtain s1 where s1: "run (put_missing False (set actual) expected 0 0) s =
      (Inr (length (filter (\<lambda>k. k \<notin> set actual) expected), length (filter (\<lambda>k. k \<in> set actual) expected)), s1)"
    "wf_storage s1" "dom (lookup s1) = dom (lookup s) \<union> set expected" "\<forall>k. k \<notin> set expected \<longrightarrow> lookup s1 k = lookup s k"
    "set expected \<subseteq> set actual \<longrightarrow> s1 = s"
    using put by auto
  have "\<forall>k \<in> set actual. valid_key k" using a s(2) by auto
  then obtain s2 where s2: "run (delete_orphans False (set expected) actual 0) s1 = (Inr (length (filter (\<lambda>k. k \<notin> set expected) actual)), s2)"
    "wf_storage s2" "\<forall>k. lookup s2 k = (if k \<in> set actual - set expected then None else lookup s1 k)"
    "set actual \<subseteq> set expected \<longrightarrow> s2 = s1"
    using run_delete_orphans [OF s1(2), of actual "set expected" 0] by auto
  have "{k \<in> dom (lookup s2). startsWith k pre} = set expected"
  proof (intro set_eqI iffI)
    fix k assume "k \<in> {k \<in> dom (lookup s2). startsWith k pre}"
    then have "startsWith k pre" "lookup s2 k \<noteq> None" by auto
    then show "k \<in> set expected" using s2(3) s1(3) a by (cases "k \<in> set expected") (auto split: if_splits)
  next
    fix k assume k: "k \<in> set expected"
    then have "lookup s2 k = lookup s1 k" "k \<in> dom (lookup s1)" using s2(3) s1(3) by auto
    then show "k \<in> {k \<in> dom (lookup s2). startsWith k pre}" using k e(2) by auto
  qed
  moreover have "lookup s2 k = lookup s k" if "\<not> startsWith k pre" for k using that s2(3) s1(4) a e(2) by auto
  ultimately show ?thesis
    using s1(1,5) s2(1,2,4) by (intro exI [of _ s2]) (auto simp: reconcile_def io_simps)
qed

section \<open>The rebuild\<close>

lemma dedup_id: "distinct xs \<Longrightarrow> dedup xs = xs"
proof -
  have "distinct (acc @ xs) \<Longrightarrow> fold (\<lambda>x acc. if x \<in> set acc then acc else x # acc) xs acc = rev xs @ acc" for acc
    by (induction xs arbitrary: acc) auto
  from this [of "[]"] show "distinct xs \<Longrightarrow> dedup xs = xs" by (simp add: dedup_def)
qed

lemma touches_rebuild: "touches (index_key p) (reconcile dry expected actual)"
  if "\<forall>k \<in> set expected \<union> set actual. index_key p k"
proof -
  have "touches (index_key p) (put_missing dry A ks a n)" if "\<forall>k \<in> set ks. index_key p k" for A ks a n
    using that by (induction ks arbitrary: a n) (auto split: sum.splits)
  moreover have "touches (index_key p) (delete_orphans dry E ks n)" if "\<forall>k \<in> set ks. index_key p k" for E ks n
    using that by (induction ks arbitrary: n) auto
  ultimately show ?thesis using that by (auto simp: reconcile_def split: prod.splits intro!: issues_io_bind)
qed

text \<open>One run, from the listing on.\<close>

definition markers :: "store \<Rightarrow> string \<Rightarrow> string \<Rightarrow> string set" where
  "markers s p name = {k \<in> dom (lookup s). startsWith k (indexKeyPrefix p name)}"

lemma prefix_index_key: "startsWith k (indexKeyPrefix p name) \<Longrightarrow> index_key p k"
proof -
  assume "startsWith k (indexKeyPrefix p name)"
  then have "k = indexKeyPrefix p name @ drop (length (indexKeyPrefix p name)) k"
    unfolding startsWith_def by (metis append_take_drop_id)
  then show ?thesis unfolding index_key_def indexPrefix_def indexKeyPrefix_def by (metis append_assoc)
qed

lemma run_rebuild:
  assumes h: "coll_inv p (rt_sha rt) B s h" and cur: "current_of p (lookup s) = Some (c, t)"
    and cap: "length h < tail_hint c + LOG_FORWARD_PROBE_CAP" and keys: "\<forall>k. lookup s k \<noteq> None \<longrightarrow> valid_key k"
    and proj: "projectable (rt_stringify rt) p def (map_of (view (collection_of p) h))"
  defines "E \<equiv> index_of (rt_stringify rt) p def (map_of (view (collection_of p) h))"
  shows "\<exists>s1. run (rebuildIndex rt (currentKey p) def False) s =
      (Inr \<lparr>rb_added = card (E - markers s p (ix_name def)), rb_removed = card (markers s p (ix_name def) - E),
         rb_kept = card (E \<inter> markers s p (ix_name def))\<rparr>, s1) \<and>
    markers s1 p (ix_name def) = E \<and> (\<forall>k. \<not> startsWith k (indexKeyPrefix p (ix_name def)) \<longrightarrow> lookup s1 k = lookup s k) \<and>
    coll_inv p (rt_sha rt) B s1 h \<and> current_of p (lookup s1) = Some (c, t) \<and> (\<forall>k. lookup s1 k \<noteq> None \<longrightarrow> valid_key k) \<and>
    (markers s p (ix_name def) = E \<longrightarrow> s1 = s)"
proof -
  let ?pre = "indexKeyPrefix p (ix_name def)"
  have wf: "wf_storage s" using h by (simp add: coll_inv_def)
  obtain docs where docs: "run (live_documents rt p c) s = (Inr docs, s)" "distinct (obj_keys docs)" "map_of docs = map_of (view (collection_of p) h)"
    using run_live_documents [OF h cur cap] by blast
  obtain ks where ks: "expected_keys (rt_stringify rt) p def docs = Inr ks" "set ks = E"
    using expected_keys_index [OF docs(2), of "rt_stringify rt" p def] proj docs(3) unfolding E_def by auto
  let ?act = "listed_keys ?pre [] s"
  have list: "map fst (memory_list ?pre None None s) = ?act" by (simp add: memory_list_keys take_max_def comp_def)
  have pre_ne: "[] < k" if "startsWith k ?pre" for k using that by (cases k) (auto simp: startsWith_def indexKeyPrefix_def)
  then have act: "set ?act = markers s p (ix_name def)" by (auto simp: set_listed_keys markers_def)
  have dist: "distinct ?act" using wf by simp
  have E: "valid_key k \<and> startsWith k ?pre" if k: "k \<in> E" for k
  proof -
    from k obtain i d ks' where "map_of (view (collection_of p) h) i = Some d" "allIndexKeysFor (rt_stringify rt) p [def] (Some d) i = Inr ks'" "k \<in> set ks'"
      unfolding E_def index_of_def by blast
    moreover from this(1) obtain ks'' where "allIndexKeysFor (rt_stringify rt) p [def] (Some d) i = Inr ks''" "\<forall>k \<in> set ks''. valid_key k"
      using proj unfolding projectable_def by blast
    ultimately have "valid_key k" by (simp del: allIndexKeysFor.simps)
    then show ?thesis using index_key_prefix k unfolding E_def by blast
  qed
  have wanted: "\<forall>k \<in> set (dedup ks). valid_key k \<and> startsWith k ?pre" using E ks(2) by simp
  obtain s1 where s1: "run (reconcile False (dedup ks) ?act) s =
      (Inr \<lparr>rb_added = length (filter (\<lambda>k. k \<notin> set ?act) (dedup ks)), rb_removed = length (filter (\<lambda>k. k \<notin> set (dedup ks)) ?act),
         rb_kept = length (filter (\<lambda>k. k \<in> set ?act) (dedup ks))\<rparr>, s1)"
    "{k \<in> dom (lookup s1). startsWith k ?pre} = set (dedup ks)" "\<forall>k. \<not> startsWith k ?pre \<longrightarrow> lookup s1 k = lookup s k"
    "wf_storage s1" "set ?act = set (dedup ks) \<longrightarrow> s1 = s"
    using run_reconcile [OF wf keys dedup_distinct(1) wanted act [unfolded markers_def]] by blast
  have idx: "\<forall>k \<in> set (dedup ks) \<union> set ?act. index_key p k"
    using wanted act prefix_index_key unfolding markers_def by blast
  note inv = run_touches_index [OF touches_rebuild [OF idx] s1(1) h]
  have count: "length (filter (\<lambda>k. k \<notin> set ?act) (dedup ks)) = card (E - markers s p (ix_name def))"
    "length (filter (\<lambda>k. k \<notin> set (dedup ks)) ?act) = card (markers s p (ix_name def) - E)"
    "length (filter (\<lambda>k. k \<in> set ?act) (dedup ks)) = card (E \<inter> markers s p (ix_name def))"
    using act dist ks(2) dedup_distinct(1) [of ks]
    by (simp_all add: distinct_length_filter Int_def set_diff_eq conj_commute)
  have "run (rebuildIndex rt (currentKey p) def False) s = run (reconcile False (dedup ks) ?act) s"
    using docs(1) ks(1) cur run_readCurrent [OF h] dedup_id [OF dist]
    by (simp add: rebuildIndex_def io_simps Let_def list) (simp add: currentKey_def)
  moreover have "valid_key k" if "lookup s1 k \<noteq> None" for k
  proof (cases "startsWith k ?pre")
    case True
    then have "k \<in> set (dedup ks)" using that s1(2) unfolding dom_def by blast
    then show ?thesis using E ks(2) by simp
  next
    case False
    then show ?thesis using that s1(3) keys by auto
  qed
  ultimately show ?thesis
    using s1(1,2,3,5) inv cur act ks(2) unfolding count
    by (intro exI [of _ s1]) (simp add: markers_def [of s1])
qed

text \<open>
  (C12) Rebuilding an index. On a quiet bucket a rebuild succeeds, leaves under the index's prefix exactly
  the markers the live documents project, touches no other object, and reports how many it created,
  deleted and found; a second rebuild finds everything in place and changes nothing.
\<close>

theorem rebuild_restores_index:
  assumes h: "coll_inv p (rt_sha rt) B s h" and cur: "current_of p (lookup s) = Some (c, t)"
    and cap: "length h < tail_hint c + LOG_FORWARD_PROBE_CAP" and keys: "\<forall>k. lookup s k \<noteq> None \<longrightarrow> valid_key k"
    and proj: "projectable (rt_stringify rt) p def (map_of (view (collection_of p) h))"
    and E: "E = index_of (rt_stringify rt) p def (map_of (view (collection_of p) h))"
  shows "\<exists>s1. run (rebuildIndex rt (currentKey p) def False) s =
      (Inr \<lparr>rb_added = card (E - markers s p (ix_name def)), rb_removed = card (markers s p (ix_name def) - E),
         rb_kept = card (E \<inter> markers s p (ix_name def))\<rparr>, s1) \<and>
    markers s1 p (ix_name def) = E \<and> (\<forall>k. \<not> startsWith k (indexKeyPrefix p (ix_name def)) \<longrightarrow> lookup s1 k = lookup s k) \<and>
    run (rebuildIndex rt (currentKey p) def False) s1 = (Inr \<lparr>rb_added = 0, rb_removed = 0, rb_kept = card E\<rparr>, s1)"
proof -
  from run_rebuild [OF h cur cap keys proj] obtain s1 where s1: "run (rebuildIndex rt (currentKey p) def False) s =
      (Inr \<lparr>rb_added = card (E - markers s p (ix_name def)), rb_removed = card (markers s p (ix_name def) - E),
         rb_kept = card (E \<inter> markers s p (ix_name def))\<rparr>, s1)" "markers s1 p (ix_name def) = E"
    "\<forall>k. \<not> startsWith k (indexKeyPrefix p (ix_name def)) \<longrightarrow> lookup s1 k = lookup s k"
    "coll_inv p (rt_sha rt) B s1 h" "current_of p (lookup s1) = Some (c, t)" "\<forall>k. lookup s1 k \<noteq> None \<longrightarrow> valid_key k"
    unfolding E by blast
  with run_rebuild [OF s1(4,5) cap s1(6) proj] show ?thesis unfolding E by auto
qed

text \<open>Only valid keys are ever stored.\<close>

lemma exec_keys_valid:
  assumes "exec c s = (r, s')" "\<forall>k. lookup s k \<noteq> None \<longrightarrow> valid_key k"
  shows "\<forall>k. lookup s' k \<noteq> None \<longrightarrow> valid_key k"
proof (cases c)
  case (Put key b opts)
  then have s': "s' = snd (memory_put key b opts s)" using exec_state [OF assms(1)] by simp
  show ?thesis
  proof (cases "valid_key key")
    case True
    then show ?thesis using s' assms(2) by (auto simp: memory_put_cases)
  qed (use s' assms(2) in \<open>simp add: memory_put_invalid\<close>)
next
  case (Delete key)
  then show ?thesis using exec_state [OF assms(1)] assms(2) by (auto simp: memory_delete_def split: sum.splits)
qed (use exec_state [OF assms(1)] assms(2) in auto)

lemma reach_keys_valid:
  assumes "sys_reach progs A (s, ts) (s', ts')" "\<forall>k. lookup s k \<noteq> None \<longrightarrow> valid_key k"
  shows "\<forall>k. lookup s' k \<noteq> None \<longrightarrow> valid_key k"
  using assms(1)
proof (induction s' ts' rule: rtranclp_induct2)
  case (step s1 ts1 s2 ts2)
  from step(2) have "s2 = s1 \<or> (\<exists>c r. outcome c s1 r s2)" by (auto elim: sys_step.cases)
  then have "s2 = s1 \<or> (\<exists>c r. exec c s1 = (r, s2))" by (auto elim!: outcomeE)
  then show ?case using exec_keys_valid step(3) by blast
qed (use assms(2) in simp)

definition by_id :: index_definition where
  "by_id = \<lparr>ix_name = ''by_id'', ix_on = OnField ''_id'', ix_predicate = None\<rparr>"

lemma example_marker:
  "case allIndexKeysFor (rt_stringify example_rt) home [by_id] (Some example_doc) ''a'' of
     Inr [k] \<Rightarrow> valid_key k | _ \<Rightarrow> False"
  by code_simp

lemma single_result: "(case x of Inr [k] \<Rightarrow> P k | _ \<Rightarrow> False) \<Longrightarrow> \<exists>k. x = Inr [k] \<and> P k"
  by (auto split: sum.splits list.splits)

theorem rebuild_restores_index_witness:
  "\<exists>s s1 k. run (rebuildIndex example_rt (currentKey home) by_id False) s = (Inr \<lparr>rb_added = card ({k} - markers s home ''by_id''),
       rb_removed = card (markers s home ''by_id'' - {k}), rb_kept = card ({k} \<inter> markers s home ''by_id'')\<rparr>, s1) \<and>
     markers s1 home ''by_id'' = {k}"
proof -
  have nil: "map_of (view ''t'' []) ''a'' = None" by (simp add: view_def foldLogEntriesOnto_def)
  obtain s e where s: "reaches (empty_storage, []) (s, [] @ [insert_done ''s1''])" "coll_inv home sha0 {} s ([] @ [e])" "hint_of home (lookup s) = 0"
    and e: "le_op e = OpI" "le_collection e = ''t''" "le_doc_id e = Some ''a''" "le_after e = Some example_doc"
    using scenario_insert [OF example_inv _ nil, of "[]" "''s1''"] by (auto simp: insert_done_def)
  have h: "coll_inv home (rt_sha example_rt) {} s [e]" using s(2) by simp
  then have "current_of home (lookup s) \<noteq> None" unfolding coll_inv_def inv_map_def by blast
  then obtain c t where cur: "current_of home (lookup s) = Some (c, t)" by auto
  have cap: "length [e] < tail_hint c + LOG_FORWARD_PROBE_CAP" by (simp add: LOG_FORWARD_PROBE_CAP_def)
  have keys: "\<forall>k. lookup s k \<noteq> None \<longrightarrow> valid_key k" by (rule reach_keys_valid [OF s(1)]) (simp add: empty_storage_def)
  have view: "map_of (view (collection_of home) [e]) = [''a'' \<mapsto> example_doc]"
    using e by (intro ext) (simp add: view_def foldLogEntriesOnto_def fold_entry_map entry_effect_def)
  obtain k where k: "allIndexKeysFor (rt_stringify example_rt) home [by_id] (Some example_doc) ''a'' = Inr [k]" "valid_key k"
    using single_result [OF example_marker] by blast
  have proj: "projectable (rt_stringify example_rt) home by_id (map_of (view (collection_of home) [e]))"
    unfolding view projectable_def
  proof (intro allI impI)
    fix i d assume "[''a'' \<mapsto> example_doc] i = Some d"
    then have "i = ''a''" "d = example_doc" by (simp_all split: if_splits)
    then show "\<exists>ks. allIndexKeysFor (rt_stringify example_rt) home [by_id] (Some d) i = Inr ks \<and> (\<forall>k \<in> set ks. valid_key k)"
      using k by (intro exI [of _ "[k]"]) (simp del: allIndexKeysFor.simps)
  qed
  have ix: "{k} = index_of (rt_stringify example_rt) home by_id (map_of (view (collection_of home) [e]))"
    unfolding view index_of_upd [of Map.empty "''a''", OF refl k(1)] by (simp add: index_of_def)
  have "ix_name by_id = ''by_id''" by (simp add: by_id_def)
  with rebuild_restores_index [OF h cur cap keys proj ix] obtain s1 where
    "run (rebuildIndex example_rt (currentKey home) by_id False) s = (Inr \<lparr>rb_added = card ({k} - markers s home ''by_id''),
       rb_removed = card (markers s home ''by_id'' - {k}), rb_kept = card ({k} \<inter> markers s home ''by_id'')\<rparr>, s1)"
    "markers s1 home ''by_id'' = {k}" by metis
  then show ?thesis by blast
qed

end
