(* ===== verification/Termination.thy ===== *)
theory Termination
  imports Budget Writer
begin

text \<open>
  The retry loops of the writer end. The trees of calls of Budget bound them whatever the store
  answers: the search for the tail in \<^verbatim>\<open>log-tail.ts\<close> costs a logarithmic number of reads of its cap,
  and a commit of \<^verbatim>\<open>writer.ts\<close> at most one search per lost race.
\<close>

section \<open>The tail search\<close>

lemma calls_slot_exists [budget]: "calls_within P (slot_exists p n) 1"
  unfolding slot_exists_def by (rule calls_io_bind [OF calls_primitive(1), where b = 0]) auto

text \<open>The bisection halves its interval with each read.\<close>

lemma calls_bisect: "hi - lo \<le> 2 ^ k \<Longrightarrow> calls_within P (bisect p lo hi) k"
proof (induction p lo hi arbitrary: k rule: bisect.induct)
  case (1 p lo hi)
  show ?case
  proof (cases "hi - lo > 1")
    case True
    with 1(3) obtain j where k: "k = Suc j" by (cases k) auto
    let ?mid = "lo + (hi - lo) div 2"
    have halves: "hi - ?mid \<le> 2 ^ j" "?mid - lo \<le> 2 ^ j" using 1(3) True unfolding k by auto
    have "calls_within P (if ex then bisect p ?mid hi else bisect p lo ?mid) j" for ex
      using 1(1) [OF True refl, of True, OF _ halves(1)] 1(2) [OF True refl, of False, OF _ halves(2)] by simp
    then show ?thesis
      using True by (subst bisect.simps) (auto simp: Let_def k intro!: calls_io_bind [OF calls_slot_exists])
  next
    case False
    then show ?thesis by (subst bisect.simps) simp
  qed
qed

text \<open>The gallop doubles its step at most sixteen times.\<close>

lemma calls_gallop: "j \<le> 16 \<Longrightarrow> calls_within P (gallop p lo j) (33 - j)"
proof (induction p lo j rule: gallop.induct)
  case (1 p lo j)
  have far: "calls_within P (gallop p (lo + 2 ^ j) (j + 1)) (32 - j)" if "\<not> 2 ^ (j + 1) > LOG_FORWARD_PROBE_CAP"
    using 1(1) [OF refl _ that, of True] that cap_doublings [of j] by simp
  have near: "calls_within P (bisect p lo (lo + 2 ^ j)) (32 - j)"
    using calls_mono [OF calls_bisect [of "lo + 2 ^ j" lo j]] 1(2) by simp
  have "calls_within P (if ex then if 2 ^ (j + 1) > LOG_FORWARD_PROBE_CAP then io_throw Internal
      else gallop p (lo + 2 ^ j) (j + 1) else bisect p lo (lo + 2 ^ j)) (32 - j)" for ex
    using far near by auto
  then show ?case
    using 1(2) by (subst gallop.simps, unfold Let_def) (rule calls_io_bind [OF calls_slot_exists, where b = "32 - j"], simp_all)
qed

lemma calls_findLogTail [budget]: "calls_within P (findLogTail logPrefix hint) 34"
  unfolding findLogTail_def
  by (rule calls_io_bind [OF calls_slot_exists, where b = 33]) (use calls_gallop [of 0] in auto)

text \<open>
  (C18) The tail search ends. Whatever the store answers to its reads, the log growing meanwhile
  included, \<open>findLogTail\<close> returns or throws after at most 34 of them.
\<close>

theorem findLogTail_ends: "calls_within (\<lambda>_. True) (findLogTail logPrefix hint) 34"
  by (rule calls_findLogTail)

section \<open>The create loop\<close>

lemma calls_readLogOccupant [budget]: "calls_within P (readLogOccupant k) 1"
  unfolding readLogOccupant_def
  by (rule calls_io_bind [OF calls_primitive(1), where b = 0]) (auto split: option.splits)

lemma calls_create_once [budget]: "calls_within P (create_once rt ts p input seq) 2"
  unfolding create_once_def Let_def
  by (intro calls_lift_bind calls_bind [OF calls_primitive(2), where b = 1])
    (auto split: sum.split adoption_decision.split intro!: calls_bind [OF calls_readLogOccupant, where b = 0])

text \<open>An unguarded write searches for the tail again after each foreign occupant.\<close>

lemma results_forward_probe:
  "Inr (CreateAt n win) \<in> set_prog (forward_probe p input seq None occ) \<Longrightarrow> win = None"
  by (auto simp: forward_probe_def results_io_bind)

lemma calls_create_loop: "calls_within P (create_loop n rt ts p input seq None) (36 * n + 2)"
proof (induction n arbitrary: seq)
  case 0
  show ?case
    by (subst create_loop.simps, rule calls_io_bind [OF calls_create_once, where b = 0])
      (auto split: create_outcome.split)
next
  case (Suc n)
  have probe: "calls_within P (forward_probe p input seq None occ) 34" for seq occ
    unfolding forward_probe_def by (auto intro: calls_io_bind [OF calls_findLogTail, where b = 0])
  have "calls_within P (io_bind (forward_probe p input seq None occ) (\<lambda>tgt.
      case tgt of Replay e \<Rightarrow> io_return (CreateReplayed e)
      | CreateAt seq' win' \<Rightarrow> create_loop n rt ts p input seq' win')) (34 + (36 * n + 2))" for occ
  proof (rule calls_io_bind_results [OF probe])
    fix tgt assume "Inr tgt \<in> set_prog (forward_probe p input seq None occ)"
    then show "calls_within P (case tgt of Replay e \<Rightarrow> io_return (CreateReplayed e)
        | CreateAt seq' win' \<Rightarrow> create_loop n rt ts p input seq' win') (36 * n + 2)"
      using results_forward_probe Suc.IH by (cases tgt) fastforce+
  qed simp
  then show ?case
    by (subst create_loop.simps, intro calls_io_bind [OF calls_create_once, where b = "36 * Suc n"])
      (auto split: create_outcome.split)
qed

section \<open>A commit\<close>

lemma calls_read_or_provision [budget]: "calls_within P (read_or_provision k g) 3"
proof -
  have "calls_within P (createCurrentJson k c) 1" for c
    unfolding createCurrentJson_def
    by (auto intro!: calls_lift_bind calls_io_bind [OF calls_cas_put, where b = 0])
  then have "calls_within P (provisionCurrentJson k g) 2"
    unfolding provisionCurrentJson_def
    by (rule calls_io_catch [where b = 1])
      (auto split: option.split intro!: calls_io_bind [OF calls_readCurrentJson, where b = 0])
  then show ?thesis
    unfolding read_or_provision_def
    by (intro calls_io_bind [OF calls_readCurrentJson, where b = 2]) (auto split: option.split)
qed

lemma calls_put_markers: "calls_within P (put_markers ks) (length ks)"
proof (induction ks)
  case (Cons k ks)
  show ?case
    unfolding put_markers.simps
    by (rule calls_bind [OF calls_primitive(2)], rule calls_bind [OF Cons.IH, where b = 0]) auto
qed simp

lemma allIndexKeysFor_length:
  "allIndexKeysFor str p defs post i = Inr ks \<Longrightarrow> length ks \<le> length defs"
  by (induction str p defs post i arbitrary: ks rule: allIndexKeysFor.induct)
    (auto simp: result_bind_def split: sum.splits option.splits if_splits intro: le_SucI)

lemma calls_emit_markers: "calls_within P (emit_markers rt w p input) (length (w_indexes w))"
proof -
  have fits: "length (takeWhile key_fits ks) \<le> length ks" for ks :: "string list" by (rule length_takeWhile_le)
  have "calls_within P (prog_bind (put_markers (takeWhile key_fits ks)) f) (length (w_indexes w))"
    if "length ks \<le> length (w_indexes w)" "\<And>r. calls_within P (f r) 0" for ks and f :: "unit result \<Rightarrow> nat io"
    by (rule calls_bind [OF calls_put_markers]) (use that fits [of ks] in auto)
  then show ?thesis
    unfolding emit_markers_def
    by (auto simp: io_lift_def io_bind_def split: list.split sum.split dest!: allIndexKeysFor_length)
qed

lemma calls_delete_ignoring: "calls_within P (delete_ignoring ks) (length ks)"
proof (induction ks)
  case (Cons k ks)
  then show ?case unfolding delete_ignoring.simps by (intro calls_bind [OF calls_primitive(3)]) auto
qed simp

lemma calls_scan_back: "calls_within P (scan_back p coll i ns) (length ns)"
proof (induction ns)
  case (Cons n ns)
  then show ?case
    unfolding scan_back.simps by (intro calls_io_bind [OF calls_primitive(1)]) (auto split: option.split)
qed simp

lemma calls_readPreImage: "calls_within P (readPreImage p coll i n) 8"
  unfolding readPreImage_def
  by (rule calls_mono [OF calls_scan_back]) (simp add: PREIMAGE_SCAN_MAX_GETS_def)

lemma calls_stale_keys: "calls_within P (stale_keys rt w p input seq) 8"
  unfolding stale_keys_def Let_def
  by (auto split: log_op.split intro!: calls_io_bind [OF calls_readPreImage, where b = 0] calls_lift_bind calls_primitive)

lemma results_stale_keys:
  "Inr ks \<in> set_prog (stale_keys rt w p input seq) \<Longrightarrow> length ks \<le> length (w_indexes w)"
proof -
  have "length (filter Q ks) \<le> length (w_indexes w)" if "length ks \<le> length (w_indexes w)" for Q and ks :: "string list"
    using le_trans [OF length_filter_le that] .
  then show "Inr ks \<in> set_prog (stale_keys rt w p input seq) \<Longrightarrow> ?thesis"
    unfolding stale_keys_def Let_def
    by (auto simp: results_io_bind io_lift_def split: log_op.splits dest!: allIndexKeysFor_length [OF sym])
qed

lemma calls_cleanup: "calls_within P (cleanupStaleIndexKeysBestEffort rt w p input seq) (8 + length (w_indexes w))"
proof -
  have "calls_within P (case r of Inl _ \<Rightarrow> Ret 0 | Inr ks \<Rightarrow> prog_bind (delete_ignoring ks) (\<lambda>_. Ret (length ks))) (length (w_indexes w))"
    if "r \<in> set_prog (stale_keys rt w p input seq)" for r
    using that results_stale_keys [of _ rt w p input seq]
    by (auto split: sum.split intro: calls_bind [OF calls_delete_ignoring, where b = 0])
  then show ?thesis
    unfolding cleanupStaleIndexKeysBestEffort_def
    by (auto intro!: calls_bind_results [OF calls_stale_keys])
qed

lemma calls_floor_check: "calls_within P (assertCommitAboveDeleteFloor k p n) 2"
  unfolding assertCommitAboveDeleteFloor_def Let_def
  by (rule calls_bind [OF calls_readCurrentJson, where b = 1])
    (auto split: sum.split option.split intro!: calls_bind [OF calls_primitive(3), where b = 0])

lemma calls_finish:
  "\<not> md_inline m \<Longrightarrow>
   calls_within P (finish_commit rt w (Some m) p input c t n j seq e) (10 + length (w_indexes w))"
  unfolding finish_commit_def dispatch_maintenance_def
  by (rule calls_io_bind [OF calls_floor_check, where b = "8 + length (w_indexes w)"],
      rule calls_bind [OF calls_cleanup, where b = 0]) auto

lemma calls_create_commit:
  assumes "\<not> md_inline m"
  shows "calls_within P (create_commit rt w (Some m) p input c t n None) (36 * LOG_FORWARD_PROBE_CAP + 12 + 2 * length (w_indexes w))"
proof -
  let ?l = "length (w_indexes w)"
  have "calls_within P (case out of CreateReplayed e \<Rightarrow> io_return (Replayed e t)
     | CreatedAt seq e \<Rightarrow> finish_commit rt w (Some m) p input c t n j seq e) (10 + ?l)" for out j
    using calls_finish [OF assms] by (auto split: created.split)
  then show ?thesis
    unfolding create_commit_def
    by (intro calls_lift_bind calls_io_bind [OF calls_emit_markers, where b = "36 * LOG_FORWARD_PROBE_CAP + 12 + ?l"]
        calls_io_bind [OF calls_create_loop, where b = "10 + ?l"]) auto
qed

text \<open>
  (C17) Commits end. On a host that runs maintenance off the write path, an unguarded commit without
  the integrity walk answers, with a result or an error, after at most
  \<open>36 * LOG_FORWARD_PROBE_CAP + 49\<close> storage calls and two more per index, whatever the store answers and
  however many races it loses; only a writer that loses a race at every probe comes near the bound.
\<close>

theorem commit_ends:
  assumes "ci_insertGuard input = None" "\<not> w_verifyLogIntegrityOnCommit w" "\<not> md_inline m"
  shows "calls_within (\<lambda>_. True) (commit rt w (Some m) input) (36 * LOG_FORWARD_PROBE_CAP + 49 + 2 * length (w_indexes w))"
proof -
  let ?P = "\<lambda>_. True" and ?p = "dirname (w_currentJsonKey w)"
  let ?n = "36 * LOG_FORWARD_PROBE_CAP + 12 + 2 * length (w_indexes w)"
  have target: "calls_within ?P (find_target ?p c input None) 34" for c
    unfolding find_target_def by (auto intro: calls_io_bind [OF calls_findLogTail, where b = 0])
  have win: "win = None" if "Inr (CreateAt n win) \<in> set_prog (find_target ?p c input None)" for c n win
    using that by (auto simp: find_target_def results_io_bind)
  have "calls_within ?P (io_bind (find_target ?p c input None) (\<lambda>tgt. case tgt of Replay e \<Rightarrow> io_return (Replayed e t)
      | CreateAt n win \<Rightarrow> create_commit rt w (Some m) ?p input c t n win)) (34 + ?n)" for c t
    by (rule calls_io_bind_results [OF target])
      (use win calls_create_commit [OF assms(3)] in \<open>fastforce split: target.split\<close>, simp)
  then have "calls_within ?P (singleAttemptCommit rt w (Some m) input None) (3 + (34 + ?n))"
    unfolding singleAttemptCommit_def Let_def
    using assms(2) by (intro calls_io_bind [OF calls_read_or_provision]) (auto simp: io_bind_def split: prod.split)
  moreover have "check_input rt input = Inr None \<or> (\<exists>e. check_input rt input = Inl e)"
    using assms(1) by (auto simp: check_input_def result_bind_def split: sum.split)
  ultimately have "calls_within ?P (commit_attempt rt w (Some m) input) (3 + (34 + ?n))"
    by (auto simp: commit_attempt_def io_lift_def io_bind_def)
  then show ?thesis
    unfolding commit_def by (intro calls_io_bind [where a = "3 + (34 + ?n)" and b = 0]) auto
qed

theorem commit_ends_witness:
  "\<forall>rt. calls_within (\<lambda>_. True) (commit rt
      \<lparr>w_currentJsonKey = ''t/current.json'', w_indexes = [], w_verifyLogIntegrityOnCommit = False\<rparr>
      (Some \<lparr>md_inline = False, md_disabled = False, md_maxFoldBytes = None, md_options = None\<rparr>)
      \<lparr>ci_op = OpD, ci_collection = ''t'', ci_docId = ''a'', ci_body = None, ci_origin = None, ci_insertGuard = None\<rparr>) 3600049"
proof
  fix rt
  show "calls_within (\<lambda>_. True) (commit rt
      \<lparr>w_currentJsonKey = ''t/current.json'', w_indexes = [], w_verifyLogIntegrityOnCommit = False\<rparr>
      (Some \<lparr>md_inline = False, md_disabled = False, md_maxFoldBytes = None, md_options = None\<rparr>)
      \<lparr>ci_op = OpD, ci_collection = ''t'', ci_docId = ''a'', ci_body = None, ci_origin = None, ci_insertGuard = None\<rparr>) 3600049"
    using commit_ends [of "\<lparr>ci_op = OpD, ci_collection = ''t'', ci_docId = ''a'', ci_body = None, ci_origin = None, ci_insertGuard = None\<rparr>"
        "\<lparr>w_currentJsonKey = ''t/current.json'', w_indexes = [], w_verifyLogIntegrityOnCommit = False\<rparr>"
        "\<lparr>md_inline = False, md_disabled = False, md_maxFoldBytes = None, md_options = None\<rparr>" rt]
    by (simp add: LOG_FORWARD_PROBE_CAP_def)
qed

end
