(* ===== verification/DocId.thy ===== *)
theory DocId
  imports Snapshot Indexes
begin

text \<open>
  \<^verbatim>\<open>packages/server/src/snapshot-doc-id.ts\<close>: the document ids of the chunked snapshot layout and
  their order \<^verbatim>\<open>utf8-scalar-v1\<close>. The two functions are first given on lists of UTF-16 code
  units, the strings of JavaScript in full, where the surrogate arithmetic matters, and then on the
  strings of the model. Shown here: on strings without isolated surrogates the comparator is the
  lexicographic order of the UTF-8 bytes, and on the model's strings it is their linear order.
\<close>

section \<open>Code units, code points and UTF-8\<close>

definition is_high :: "nat \<Rightarrow> bool" where
  "is_high u = (0xd800 \<le> u \<and> u \<le> 0xdbff)"

definition is_low :: "nat \<Rightarrow> bool" where
  "is_low u = (0xdc00 \<le> u \<and> u \<le> 0xdfff)"

text \<open>\<^verbatim>\<open>s.codePointAt(offset)\<close>, the argument being the code units from the offset on.\<close>

fun codePointAt :: "nat list \<Rightarrow> nat" where
  "codePointAt [] = 0"
| "codePointAt [u] = u"
| "codePointAt (u # n # us) =
     (if is_high u \<and> is_low n then 0x10000 + (u - 0xd800) * 0x400 + (n - 0xdc00) else u)"

definition units_of :: "nat \<Rightarrow> nat" where
  "units_of p = (if p > 0xffff then 2 else 1)"

definition utf8_point :: "nat \<Rightarrow> nat list" where
  "utf8_point p =
     (if p < 0x80 then [p]
      else if p < 0x800 then [0xc0 + p div 64, 0x80 + p mod 64]
      else if p < 0x10000 then [0xe0 + p div 4096, 0x80 + p div 64 mod 64, 0x80 + p mod 64]
      else [0xf0 + p div 262144, 0x80 + p div 4096 mod 64, 0x80 + p div 64 mod 64, 0x80 + p mod 64])"

text \<open>\<^verbatim>\<open>TextEncoder.encode\<close>: an isolated surrogate is encoded as U+FFFD.\<close>

fun utf8_units :: "nat list \<Rightarrow> nat list" where
  "utf8_units [] = []"
| "utf8_units (u # us) =
     (let p = codePointAt (u # us);
          q = (if is_high p \<or> is_low p then 0xfffd else p)
      in utf8_point q @ utf8_units (drop (units_of p - 1) us))"

section \<open>The two functions of the module\<close>

text \<open>The surrogate scan of \<^verbatim>\<open>assertSnapshotDocId\<close>; \<open>False\<close> is the exception.\<close>

fun scalar_units :: "nat list \<Rightarrow> bool" where
  "scalar_units [] = True"
| "scalar_units [u] = (\<not> is_high u \<and> \<not> is_low u)"
| "scalar_units (u # n # us) =
     (if is_high u then is_low n \<and> scalar_units us
      else if is_low u then False else scalar_units (n # us))"

function compareUnits :: "nat list \<Rightarrow> nat list \<Rightarrow> int" where
  "compareUnits [] [] = 0"
| "compareUnits [] (r # rs) = -1"
| "compareUnits (l # ls) [] = 1"
| "compareUnits (l # ls) (r # rs) =
     (let p = codePointAt (l # ls); q = codePointAt (r # rs) in
      if p \<noteq> q then (if p < q then -1 else 1)
      else compareUnits (drop (units_of p - 1) ls) (drop (units_of q - 1) rs))"
  by pat_completeness auto
termination
  by (relation "measure (\<lambda>(ls, rs). length ls)") auto

abbreviation units :: "string \<Rightarrow> nat list" where
  "units s \<equiv> map of_char s"

definition assertSnapshotDocId :: "string \<Rightarrow> unit result" where
  "assertSnapshotDocId i =
     result_bind (assertPathSegment i) (\<lambda>_. if scalar_units (units i) then Inr () else throw InvalidConfig)"

definition compareDocIds :: "string \<Rightarrow> string \<Rightarrow> int" where
  "compareDocIds l r = compareUnits (units l) (units r)"

section \<open>The comparator is the order of the UTF-8 bytes\<close>

lemma scalar_point:
  assumes "scalar_units (u # us)" "\<forall>x\<in>set (u # us). x < 0x10000"
  shows "\<not> is_high (codePointAt (u # us))" "\<not> is_low (codePointAt (u # us))"
    and "codePointAt (u # us) < 0x110000"
    and "scalar_units (drop (units_of (codePointAt (u # us)) - 1) us)"
  using assms by (cases us; auto simp: is_high_def is_low_def units_of_def split: if_splits)+

lemma compare_bytes_append_same: "compare_bytes (xs @ as) (xs @ bs) = compare_bytes as bs"
  by (induction xs) simp_all

text \<open>The base-64 digits of a code point, so that its bytes are linear in them.\<close>

lemma point_digits:
  obtains a b c d :: nat where "p = ((a * 64 + b) * 64 + c) * 64 + d" "b < 64" "c < 64" "d < 64"
    and "p mod 64 = d" "p div 64 = (a * 64 + b) * 64 + c" "p div 64 mod 64 = c"
    and "p div 4096 = a * 64 + b" "p div 4096 mod 64 = b" "p div 262144 = a"
proof -
  have div_chain: "p div 4096 = p div 64 div 64" "p div 262144 = p div 64 div 64 div 64"
    by (simp_all add: div_mult2_eq [symmetric])
  have "p div 64 = (p div 64 div 64 div 64 * 64 + p div 64 div 64 mod 64) * 64 + p div 64 mod 64"
    by (simp only: div_mult_mod_eq)
  then show thesis
    using that [of "p div 64 div 64 div 64" "p div 64 div 64 mod 64" "p div 64 mod 64" "p mod 64"]
    by (simp only: div_chain div_mult_mod_eq)
qed

lemma digit_less:
  assumes "x * 64 + b < y * 64 + f" "b < 64" "f < (64 :: nat)"
  shows "x < y \<or> x = y \<and> b < f"
proof -
  have "x \<le> y" using assms by linarith
  then show ?thesis using assms(1) by (cases "x = y") simp_all
qed

lemma digit_eq:
  assumes "x * 64 + b = y * 64 + f" "b < 64" "f < (64 :: nat)"
  shows "x = y \<and> b = f"
proof -
  have "x = y" using assms by linarith
  then show ?thesis using assms(1) by simp
qed

lemma utf8_point_less:
  assumes "p < q" "q < 0x110000"
  shows "compare_bytes (utf8_point p @ x) (utf8_point q @ y) < 0"
proof -
  obtain a b c d where p: "p = ((a * 64 + b) * 64 + c) * 64 + d" "b < 64" "c < 64" "d < 64"
    and P: "p mod 64 = d" "p div 64 = (a * 64 + b) * 64 + c" "p div 64 mod 64 = c"
      "p div 4096 = a * 64 + b" "p div 4096 mod 64 = b" "p div 262144 = a"
    by (rule point_digits)
  obtain e f g h where q: "q = ((e * 64 + f) * 64 + g) * 64 + h" "f < 64" "g < 64" "h < 64"
    and Q: "q mod 64 = h" "q div 64 = (e * 64 + f) * 64 + g" "q div 64 mod 64 = g"
      "q div 4096 = e * 64 + f" "q div 4096 mod 64 = f" "q div 262144 = e"
    by (rule point_digits)
  have lex: "a < e \<or> a = e \<and> (b < f \<or> b = f \<and> (c < g \<or> c = g \<and> d < h))"
  proof -
    let ?x = "a * 64 + b" and ?y = "e * 64 + f"
    have "?x * 64 + c < ?y * 64 + g \<or> ?x * 64 + c = ?y * 64 + g \<and> d < h"
      using assms(1) unfolding p(1) q(1) by (rule digit_less) (rule p q)+
    then have "?x < ?y \<or> ?x = ?y \<and> (c < g \<or> c = g \<and> d < h)"
      using digit_less [OF _ p(3) q(3), of ?x ?y] digit_eq [OF _ p(3) q(3), of ?x ?y] by argo
    then show ?thesis using digit_less [OF _ p(2) q(2), of a e] digit_eq [OF _ p(2) q(2), of a e] by argo
  qed
  have small_p: "(a * 64 + b) * 64 + c < 32" if "p < 0x800"
    using less_mult_imp_div_less [of p 32 64] that by (simp add: P)
  have mid_p: "a * 64 + b < 16" if "p < 0x10000"
    using less_mult_imp_div_less [of p 16 4096] that by (simp add: P)
  have small_q: "e * 64 + f < 1" if "q < 0x800"
    using less_mult_imp_div_less [of q 1 4096] that by (simp add: Q)
  have mid_q: "e < 1" if "q < 0x10000"
    using less_mult_imp_div_less [of q 1 262144] that by (simp add: Q)
  consider "p < 0x80" | "0x80 \<le> p" "p < 0x800" "q < 0x800" | "0x80 \<le> p" "p < 0x800" "0x800 \<le> q"
    | "0x800 \<le> p" "p < 0x10000" "q < 0x10000" | "0x800 \<le> p" "p < 0x10000" "0x10000 \<le> q" | "0x10000 \<le> p"
    by linarith
  then show ?thesis
  proof cases
    case 2
    then have "q \<ge> 0x80" "e = 0" "f = 0" using assms small_q by linarith+
    then show ?thesis using 2 lex by (auto simp: utf8_point_def P Q)
  next
    case 4
    then have "q \<ge> 0x800" "e = 0" using assms mid_q by linarith+
    then show ?thesis using 4 lex by (auto simp: utf8_point_def P(1,3-6) Q(1,3-6))
  next
    case 6
    then show ?thesis using assms lex by (auto simp: utf8_point_def P(1,3,5,6) Q(1,3,5,6))
  next
    case 3
    then show ?thesis using small_p by (auto simp: utf8_point_def P Q)
  next
    case 5
    then show ?thesis using mid_p by (auto simp: utf8_point_def P Q)
  next
    case 1
    then show ?thesis using assms by (auto simp: utf8_point_def P Q)
  qed
qed

lemma compare_bytes_flip: "compare_bytes b a = - compare_bytes a b"
  by (induction a b rule: compare_bytes.induct) auto

lemma utf8_point_neq_Nil [simp]: "utf8_point p \<noteq> []"
  by (simp add: utf8_point_def)

lemma compareUnits_utf8:
  assumes "scalar_units ls" "scalar_units rs" "\<forall>u\<in>set ls. u < 0x10000" "\<forall>u\<in>set rs. u < 0x10000"
  shows "compareUnits ls rs = sgn (compare_bytes (utf8_units ls) (utf8_units rs))"
  using assms
proof (induction ls rs rule: compareUnits.induct)
  case (2 r rs)
  obtain b bs where "utf8_units (r # rs) = b # bs"
    by (cases "utf8_units (r # rs)") (auto simp: Let_def)
  then show ?case by simp
next
  case (3 l ls)
  obtain b bs where "utf8_units (l # ls) = b # bs"
    by (cases "utf8_units (l # ls)") (auto simp: Let_def)
  then show ?case by simp
next
  case (4 l ls r rs)
  let ?p = "codePointAt (l # ls)" and ?q = "codePointAt (r # rs)"
  have L: "utf8_units (l # ls) = utf8_point ?p @ utf8_units (drop (units_of ?p - 1) ls)"
    and R: "utf8_units (r # rs) = utf8_point ?q @ utf8_units (drop (units_of ?q - 1) rs)"
    using scalar_point [OF 4(2,4)] scalar_point [OF 4(3,5)] by (simp_all add: Let_def)
  consider "?p < ?q" | "?q < ?p" | "?p = ?q" by linarith
  then show ?case
  proof cases
    case 1
    then show ?thesis
      using utf8_point_less [OF 1 scalar_point(3) [OF 4(3,5)]] unfolding L R by simp
  next
    case 2
    then show ?thesis
      using utf8_point_less [OF 2 scalar_point(3) [OF 4(2,4)]] unfolding L R
      by (subst compare_bytes_flip) simp
  next
    case 3
    have "\<forall>u\<in>set (drop (units_of ?p - 1) ls). u < 0x10000" "\<forall>u\<in>set (drop (units_of ?q - 1) rs). u < 0x10000"
      using 4(4,5) by (auto dest: in_set_dropD)
    then show ?thesis
      using 3 4(1) scalar_point(4) [OF 4(2,4)] scalar_point(4) [OF 4(3,5)] unfolding L R
      by (simp add: compare_bytes_append_same Let_def)
  qed
qed simp

section \<open>The strings of the model\<close>

lemma units_bound: "u \<in> set (units s) \<Longrightarrow> u < 256"
  by auto

lemma codePointAt_small: "u < 256 \<Longrightarrow> codePointAt (u # us) = u"
  by (cases us) (auto simp: is_high_def)

lemma scalar_small: "\<forall>u\<in>set us. u < 256 \<Longrightarrow> scalar_units us"
  by (induction us rule: scalar_units.induct) (auto simp: is_high_def is_low_def)

lemma scalar_string [simp]: "scalar_units (units s)"
  using units_bound by (blast intro: scalar_small)

lemma assertSnapshotDocId_iff [simp]: "assertSnapshotDocId i = assertPathSegment i"
  by (cases "assertPathSegment i") (simp_all add: assertSnapshotDocId_def)

lemma utf8_encode_units: "utf8_encode s = utf8_units (units s)"
proof (induction s)
  case (Cons c cs)
  define k where "k = (of_char c :: nat)"
  have "k < 256" using units_bound [of k "[c]"] by (simp add: k_def)
  then show ?case
    using Cons by (simp add: codePointAt_small Let_def utf8_point_def is_high_def is_low_def units_of_def k_def [symmetric])
qed simp

lemma compareDocIds_utf8: "compareDocIds l r = sgn (compareKeysUtf8 l r)"
proof -
  have "\<forall>u\<in>set (units s). u < 0x10000" for s using units_bound [of _ s] by fastforce
  then show ?thesis
    by (simp add: compareDocIds_def compareUnits_utf8 compareKeysUtf8_def utf8_encode_units del: set_map)
qed

lemma sgn_int_cmp [simp]:
  "sgn (k :: int) < 0 \<longleftrightarrow> k < 0" "sgn k = 0 \<longleftrightarrow> k = 0" "sgn k \<le> 0 \<longleftrightarrow> k \<le> 0"
  "0 \<le> sgn k \<longleftrightarrow> 0 \<le> k" "0 < sgn k \<longleftrightarrow> 0 < k"
  by (auto simp: sgn_if)

lemma compareDocIds_simps [simp]:
  "compareDocIds l r < 0 \<longleftrightarrow> l < r" "compareDocIds l r = 0 \<longleftrightarrow> l = r" "compareDocIds l r \<le> 0 \<longleftrightarrow> l \<le> r"
  "0 \<le> compareDocIds l r \<longleftrightarrow> r \<le> l" "0 < compareDocIds l r \<longleftrightarrow> r < l"
  by (simp_all add: compareDocIds_utf8) (simp add: not_less [symmetric])

lemma compareDocIds_range: "compareDocIds l r \<in> {-1, 0, 1}"
  by (simp add: compareDocIds_utf8 sgn_if)

section \<open>Properties\<close>

lemma same_point:
  assumes "scalar_units (l # ls)" "scalar_units (r # rs)"
    and "\<forall>x\<in>set (l # ls). x < 0x10000" "\<forall>x\<in>set (r # rs). x < 0x10000"
    and "codePointAt (l # ls) = codePointAt (r # rs)"
  shows "l = r" "take (units_of (codePointAt (l # ls)) - 1) ls = take (units_of (codePointAt (r # rs)) - 1) rs"
proof -
  let ?p = "codePointAt (l # ls)"
  have one: "u = codePointAt (u # us) \<and> units_of (codePointAt (u # us)) = 1"
    if "scalar_units (u # us)" "u < 0x10000" "\<not> is_high u" for u us
    using that by (cases us) (auto simp: units_of_def)
  have two: "\<exists>n us'. us = n # us' \<and> is_low n \<and> codePointAt (u # us) = 0x10000 + (u - 0xd800) * 0x400 + (n - 0xdc00)"
    if "scalar_units (u # us)" "is_high u" for u us
    using that by (cases us) auto
  have same: "is_high l \<longleftrightarrow> is_high r"
    using one [of l ls] one [of r rs] two [of l ls] two [of r rs] assms by (auto simp: is_high_def) fastforce+
  have "l = r \<and> take (units_of ?p - 1) ls = take (units_of (codePointAt (r # rs)) - 1) rs"
  proof (cases "is_high l")
    case False
    then show ?thesis using one [of l ls] one [of r rs] same assms by simp
  next
    case True
    obtain n ls' m rs' where n: "ls = n # ls'" "is_low n" and m: "rs = m # rs'" "is_low m"
      and eq: "(l - 0xd800) * 0x400 + (n - 0xdc00) = (r - 0xd800) * 0x400 + (m - 0xdc00)"
      using two [OF assms(1) True] two [of r rs] assms(2,5) same True by auto
    have "n - 0xdc00 < 0x400" "m - 0xdc00 < 0x400" using n(2) m(2) by (auto simp: is_low_def)
    then have *: "l - 0xd800 = r - 0xd800" using eq by linarith
    moreover have "n - 0xdc00 = m - 0xdc00" using eq unfolding * by simp
    moreover have "0xd800 \<le> l" "0xd800 \<le> r" "0xdc00 \<le> n" "0xdc00 \<le> m"
      using True same n(2) m(2) by (simp_all add: is_high_def is_low_def)
    ultimately have "l = r \<and> n = m" by linarith
    then show ?thesis using n m assms(5) by (simp add: units_of_def)
  qed
  then show "l = r" "take (units_of ?p - 1) ls = take (units_of (codePointAt (r # rs)) - 1) rs" by blast+
qed

lemma compareUnits_eq_0:
  assumes "scalar_units ls" "scalar_units rs" "\<forall>u\<in>set ls. u < 0x10000" "\<forall>u\<in>set rs. u < 0x10000"
  shows "compareUnits ls rs = 0 \<longleftrightarrow> ls = rs"
  using assms
proof (induction ls rs rule: compareUnits.induct)
  case (4 l ls r rs)
  show ?case
  proof (cases "codePointAt (l # ls) = codePointAt (r # rs)")
    case True
    let ?n = "units_of (codePointAt (r # rs)) - 1"
    have "\<forall>u\<in>set (drop ?n ls). u < 0x10000" "\<forall>u\<in>set (drop ?n rs). u < 0x10000"
      using 4(4,5) by (auto dest: in_set_dropD)
    then have "compareUnits (drop ?n ls) (drop ?n rs) = 0 \<longleftrightarrow> drop ?n ls = drop ?n rs"
      using 4(1) True scalar_point(4) [OF 4(2,4)] scalar_point(4) [OF 4(3,5)] by simp
    moreover have "l = r" "take ?n ls = take ?n rs" using same_point [OF 4(2-5) True] True by simp_all
    ultimately show ?thesis using True by (simp add: Let_def) (metis append_take_drop_id)
  qed (auto simp: Let_def)
qed simp_all

text \<open>
  (C27) On ids that passed the surrogate scan, \<^verbatim>\<open>compareDocIds\<close> is the order of the UTF-8 encodings:
  its result is the sign of the byte-wise comparison, and it is 0 for equal ids only.
\<close>

theorem compareDocIds_is_utf8_order:
  assumes "scalar_units ls" "scalar_units rs" "\<forall>u\<in>set ls. u < 0x10000" "\<forall>u\<in>set rs. u < 0x10000"
  shows "compareUnits ls rs = sgn (compare_bytes (utf8_units ls) (utf8_units rs)) \<and>
    (compareUnits ls rs = 0 \<longleftrightarrow> ls = rs)"
  using compareUnits_utf8 [OF assms] compareUnits_eq_0 [OF assms] by simp

text \<open>U+FFFD sorts before U+10000, although its code unit is the greater one.\<close>

theorem compareDocIds_is_utf8_order_witness:
  "compareUnits [0xfffd] [0xd800, 0xdc00] = -1 \<and>
   compareUnits [0xfffd] [0xd800, 0xdc00] =
     sgn (compare_bytes (utf8_units [0xfffd]) (utf8_units [0xd800, 0xdc00]))"
  using compareDocIds_is_utf8_order [of "[0xfffd]" "[0xd800, 0xdc00]"]
  by (simp add: is_high_def is_low_def Let_def)

end
