(* ===== verification/SnapshotChunk.thy ===== *)
theory SnapshotChunk
  imports DocId Compactor GcPending "HOL-Library.Multiset"
begin

text \<open>
  The artifacts of the chunked snapshot layout: \<^verbatim>\<open>snapshot-codec.ts\<close>, \<^verbatim>\<open>snapshot-chunk.ts\<close> and
  \<^verbatim>\<open>snapshot-manifest.ts\<close> of \<^verbatim>\<open>packages/server/src\<close>. A chunk holds documents in the order of their
  ids, a manifest the descriptors of its chunks in the order of their ranges; both are stored as
  canonical JSON under a key that carries their SHA-256 digest. \<open>bytes\<close> is the length of a body and
  \<open>sha\<close> its digest. Shown here: what is encoded is decoded again under the key minted for it, what
  is decoded is well formed and is exactly the body stored, and the descriptor search is a lower
  bound. Values that are not JSON (cycles, accessors, symbol keys) are outside the type \<open>json\<close>.
\<close>

section \<open>Shared machinery\<close>

definition MAX_CHUNK_BYTES :: nat where "MAX_CHUNK_BYTES = 1024 * 1024"
definition MAX_CHUNK_ROWS :: nat where "MAX_CHUNK_ROWS = 4096"

definition INCARNATION_PATTERN :: "string \<Rightarrow> bool" where
  "INCARNATION_PATTERN s = (length s = 32 \<and> list_all is_hex_lower s)"

definition DIGEST_PATTERN :: "string \<Rightarrow> bool" where
  "DIGEST_PATTERN s = (length s = 64 \<and> list_all is_hex_lower s)"

text \<open>The members of an object that has exactly the expected ones.\<close>

definition assertExactFields :: "string list \<Rightarrow> error_code \<Rightarrow> json \<Rightarrow> doc result" where
  "assertExactFields expected code v =
     (case v of
        JObj fs \<Rightarrow>
          if length fs \<noteq> length expected \<or> (\<exists>k\<in>set expected. map_of fs k = None) then throw code else Inr fs
      | _ \<Rightarrow> throw code)"

definition assertCodecDocId :: "error_code \<Rightarrow> json option \<Rightarrow> string result" where
  "assertCodecDocId code v =
     (case string_value v of
        None \<Rightarrow> throw code
      | Some i \<Rightarrow> (case assertSnapshotDocId i of Inl _ \<Rightarrow> throw code | Inr _ \<Rightarrow> Inr i))"

datatype artifact = ManifestArtifact | ChunkArtifact

record parsed_key =
  pk_prefix :: string
  pk_incarnation :: string
  pk_digest :: string

fun artifact_dir :: "artifact \<Rightarrow> string" where
  "artifact_dir ManifestArtifact = ''/_v2/snapshot/manifests/''"
| "artifact_dir ChunkArtifact = ''/_v2/snapshot/chunks/''"

definition artifact_tail :: "artifact \<Rightarrow> string \<Rightarrow> string \<Rightarrow> string" where
  "artifact_tail kind incarnation digest = artifact_dir kind @ incarnation @ ''/sha256/'' @ digest @ ''.json''"

text \<open>
  The regular expression of the key grammar: after the prefix, which the dot of the pattern keeps
  free of line terminators, every part has a fixed length.
\<close>

definition is_line_terminator :: "char \<Rightarrow> bool" where
  "is_line_terminator c = (c = CHR 0x0A \<or> c = CHR 0x0D)"

definition parseArtifactKey :: "string \<Rightarrow> artifact \<Rightarrow> error_code \<Rightarrow> parsed_key result" where
  "parseArtifactKey key kind code =
     (if length (utf8_encode key) > MAX_KEY_BYTES then throw code
      else
        let d = length (artifact_dir kind);
            n = d + 32 + 8 + 64 + 5;
            prefix = take (length key - n) key;
            rest = drop (length key - n) key;
            incarnation = take 32 (drop d rest);
            digest = take 64 (drop (d + 40) rest)
        in if length key \<le> n \<or> (\<exists>c\<in>set prefix. is_line_terminator c) \<or>
              \<not> INCARNATION_PATTERN incarnation \<or> \<not> DIGEST_PATTERN digest \<or>
              rest \<noteq> artifact_tail kind incarnation digest
           then throw code
           else if last prefix = CHR ''/'' then throw code
           else Inr \<lparr>pk_prefix = prefix, pk_incarnation = incarnation, pk_digest = digest\<rparr>)"

text \<open>The two key builders of the codecs differ in the directory only.\<close>

definition mintArtifactKey :: "artifact \<Rightarrow> string \<Rightarrow> string \<Rightarrow> string \<Rightarrow> string result" where
  "mintArtifactKey kind collectionPrefix incarnation digest =
     (if collectionPrefix = [] \<or> last collectionPrefix = CHR ''/'' then throw InvalidConfig
      else if \<not> INCARNATION_PATTERN incarnation then throw InvalidConfig
      else if \<not> DIGEST_PATTERN digest then throw InvalidConfig
      else
        let key = collectionPrefix @ artifact_tail kind incarnation digest
        in result_bind (assertKeyWithinLimit key) (\<lambda>_. Inr key))"

text \<open>
  \<^verbatim>\<open>decodeJsonBytes\<close>. The bodies of log entries and old snapshots decode to objects without the members
  of a chunk or a manifest, which the codecs refuse with the same code as malformed JSON.
\<close>

fun decode_json :: "blob \<Rightarrow> json option" where
  "decode_json (BJson j) = Some j"
| "decode_json _ = None"

section \<open>Canonical documents\<close>

definition isArrayIndex :: "string \<Rightarrow> bool" where
  "isArrayIndex key = (let n = parse_digits 10 0 key in n < 0xffffffff \<and> show_nat n = key)"

definition canonicalKeyOrder :: "string \<Rightarrow> string \<Rightarrow> int" where
  "canonicalKeyOrder left right =
     (if isArrayIndex left \<and> isArrayIndex right
      then int (parse_digits 10 0 left) - int (parse_digits 10 0 right)
      else if isArrayIndex left \<noteq> isArrayIndex right then (if isArrayIndex left then -1 else 1)
      else if left < right then -1 else if left > right then 1 else 0)"

definition field_order :: "string \<times> json \<Rightarrow> string \<times> json \<Rightarrow> int" where
  "field_order p q = canonicalKeyOrder (fst p) (fst q)"

lemma set_insert_by [simp]: "set (insert_by cmp x xs) = insert x (set xs)"
  by (induction xs) auto

lemma set_toSorted [simp]: "set (toSorted cmp xs) = set xs"
  by (induction xs) (simp_all add: toSorted_def)

lemma result_map_cong [fundef_cong]:
  "xs = ys \<Longrightarrow> (\<And>x. x \<in> set ys \<Longrightarrow> f x = g x) \<Longrightarrow> result_map f xs = result_map g ys"
  by (induction ys arbitrary: xs) auto

function canonicalizeDocumentValue :: "error_code \<Rightarrow> json \<Rightarrow> json result" where
  "canonicalizeDocumentValue code (JStr s) = Inr (JStr s)"
| "canonicalizeDocumentValue code (JBool b) = Inr (JBool b)"
| "canonicalizeDocumentValue code (JNum n) = (if isFinite n then Inr (JNum n) else throw code)"
| "canonicalizeDocumentValue code JNull = throw code"
| "canonicalizeDocumentValue code (JArr xs) =
     result_bind (result_map (canonicalizeDocumentValue code) xs) (\<lambda>ys. Inr (JArr ys))"
| "canonicalizeDocumentValue code (JObj fs) =
     result_bind
       (result_map (\<lambda>p. result_bind (canonicalizeDocumentValue code (snd p)) (\<lambda>v. Inr (fst p, v)))
         (toSorted field_order fs))
       (\<lambda>gs. Inr (JObj gs))"
  by pat_completeness auto
termination
  by (relation "measure (\<lambda>(code, v). size v)")
    (auto simp: size_elem_less less_Suc_eq dest: size_field_less)

declare canonicalizeDocumentValue.simps(6) [simp del]

definition canonicalizeDocument :: "error_code \<Rightarrow> json \<Rightarrow> doc result" where
  "canonicalizeDocument code v =
     (case v of
        JObj fs \<Rightarrow>
          result_bind (canonicalizeDocumentValue code (JObj fs)) (\<lambda>c.
            result_bind (assertCodecDocId code (member_of c ''_id'')) (\<lambda>_.
              Inr (case c of JObj gs \<Rightarrow> gs | _ \<Rightarrow> [])))
      | _ \<Rightarrow> throw code)"

text \<open>\<^verbatim>\<open>doc["_id"] as string\<close>, used on documents that have passed \<^verbatim>\<open>canonicalizeDocument\<close>.\<close>

definition doc_id :: "doc \<Rightarrow> string" where
  "doc_id d = (case map_of d ''_id'' of Some (JStr i) \<Rightarrow> i | _ \<Rightarrow> [])"

section \<open>Chunks\<close>

record snapshot_chunk =
  sc_collection :: string
  sc_incarnation :: string
  sc_first_id :: string
  sc_last_id :: string
  sc_docs :: "doc list"

definition SNAPSHOT_CHUNK_SCHEMA_VERSION :: nat where "SNAPSHOT_CHUNK_SCHEMA_VERSION = 2"

definition chunk_json :: "snapshot_chunk \<Rightarrow> json" where
  "chunk_json c = JObj [
     (''schema_version'', json_nat SNAPSHOT_CHUNK_SCHEMA_VERSION),
     (''collection'', JStr (sc_collection c)), (''incarnation'', JStr (sc_incarnation c)),
     (''first_id'', JStr (sc_first_id c)), (''last_id'', JStr (sc_last_id c)),
     (''docs'', JArr (map JObj (sc_docs c)))]"

fun increasing_ids :: "doc list \<Rightarrow> bool" where
  "increasing_ids (d # e # ds) = (compareDocIds (doc_id d) (doc_id e) < 0 \<and> increasing_ids (e # ds))"
| "increasing_ids _ = True"

definition require_as :: "error_code \<Rightarrow> 'a option \<Rightarrow> 'a result" where
  "require_as code v = (case v of None \<Rightarrow> throw code | Some x \<Rightarrow> Inr x)"

definition guard :: "error_code \<Rightarrow> bool \<Rightarrow> unit result" where
  "guard code ok = (if ok then Inr () else throw code)"

definition canonicalizeChunk :: "error_code \<Rightarrow> json \<Rightarrow> snapshot_chunk result" where
  "canonicalizeChunk code v =
     result_bind (assertExactFields
       [''schema_version'', ''collection'', ''incarnation'', ''first_id'', ''last_id'', ''docs''] code v) (\<lambda>fs.
     result_bind (guard code (nonneg_integer (map_of fs ''schema_version'') = Some SNAPSHOT_CHUNK_SCHEMA_VERSION)) (\<lambda>_.
     result_bind (require_as code (string_value (map_of fs ''collection''))) (\<lambda>coll.
     result_bind (guard code (code = InvalidConfig \<longrightarrow> assertPathSegment coll = Inr ())) (\<lambda>_.
     result_bind (require_as code (string_value (map_of fs ''incarnation''))) (\<lambda>inc.
     result_bind (guard code (INCARNATION_PATTERN inc)) (\<lambda>_.
     result_bind (require_as code (array_value (map_of fs ''docs''))) (\<lambda>ds.
     result_bind (guard code (ds \<noteq> [] \<and> length ds \<le> MAX_CHUNK_ROWS)) (\<lambda>_.
     result_bind (result_map (canonicalizeDocument code) ds) (\<lambda>docs.
     result_bind (guard code (increasing_ids docs)) (\<lambda>_.
     let firstId = doc_id (hd docs); lastId = doc_id (last docs) in
     result_bind (guard code (map_of fs ''first_id'' = Some (JStr firstId) \<and>
                              map_of fs ''last_id'' = Some (JStr lastId))) (\<lambda>_.
     Inr \<lparr>sc_collection = coll, sc_incarnation = inc, sc_first_id = firstId, sc_last_id = lastId,
          sc_docs = docs\<rparr>)))))))))))"

text \<open>The failures of an encoder: callers tell the over-size one from the rest by its message.\<close>

datatype encode_failure = Oversize | Refused exn

definition encodeSnapshotChunk :: "(blob \<Rightarrow> nat) \<Rightarrow> snapshot_chunk \<Rightarrow> encode_failure + blob" where
  "encodeSnapshotChunk bytes chunk =
     (case canonicalizeChunk InvalidConfig (chunk_json chunk) of
        Inl e \<Rightarrow> Inl (Refused e)
      | Inr canonical \<Rightarrow>
          let b = BJson (chunk_json canonical)
          in if bytes b > MAX_CHUNK_BYTES then Inl Oversize else Inr b)"

definition isChunkOversizeError :: "encode_failure \<Rightarrow> bool" where
  "isChunkOversizeError e = (e = Oversize)"

definition snapshotChunkKey :: "string \<Rightarrow> string \<Rightarrow> string \<Rightarrow> string result" where
  "snapshotChunkKey = mintArtifactKey ChunkArtifact"

record descriptor =
  d_first_id :: string
  d_last_id :: string
  d_key :: string
  d_byte_length :: nat
  d_row_count :: nat

definition decodeSnapshotChunk ::
  "(blob \<Rightarrow> nat) \<Rightarrow> (blob \<Rightarrow> string) \<Rightarrow> blob \<Rightarrow> string \<Rightarrow> string \<Rightarrow> descriptor \<Rightarrow> snapshot_chunk result" where
  "decodeSnapshotChunk bytes sha b key expectedCollection d =
     result_bind (guard InvalidResponse (bytes b \<noteq> 0 \<and> bytes b \<le> MAX_CHUNK_BYTES)) (\<lambda>_.
     result_bind (parseArtifactKey key ChunkArtifact InvalidResponse) (\<lambda>pk.
     result_bind (guard InvalidResponse (d_key d = key \<and> d_byte_length d = bytes b)) (\<lambda>_.
     result_bind (guard InvalidResponse (sha b = pk_digest pk)) (\<lambda>_.
     result_bind (require_as InvalidResponse (decode_json b)) (\<lambda>parsed.
     result_bind (canonicalizeChunk InvalidResponse parsed) (\<lambda>canonical.
     result_bind (guard InvalidResponse (b = BJson (chunk_json canonical))) (\<lambda>_.
     result_bind (guard InvalidResponse (sc_collection canonical = expectedCollection)) (\<lambda>_.
     result_bind (guard InvalidResponse (sc_incarnation canonical = pk_incarnation pk)) (\<lambda>_.
     result_bind (guard InvalidResponse (sc_first_id canonical = d_first_id d \<and>
       sc_last_id canonical = d_last_id d \<and> length (sc_docs canonical) = d_row_count d)) (\<lambda>_.
     Inr canonical))))))))))"

section \<open>Manifests\<close>

definition SNAPSHOT_MANIFEST_SCHEMA_VERSION :: nat where "SNAPSHOT_MANIFEST_SCHEMA_VERSION = 2"
definition MAX_MANIFEST_BYTES :: nat where "MAX_MANIFEST_BYTES = 64 * 1024"
definition MAX_MANIFEST_CHUNKS :: nat where "MAX_MANIFEST_CHUNKS = 32"

record snapshot_manifest =
  sm_collection :: string
  sm_log_seq_start :: nat
  sm_incarnation :: string
  sm_chunks :: "descriptor list"

definition descriptor_json :: "descriptor \<Rightarrow> json" where
  "descriptor_json d = JObj [
     (''first_id'', JStr (d_first_id d)), (''last_id'', JStr (d_last_id d)), (''key'', JStr (d_key d)),
     (''byte_length'', json_nat (d_byte_length d)), (''row_count'', json_nat (d_row_count d))]"

definition manifest_json :: "snapshot_manifest \<Rightarrow> json" where
  "manifest_json m = JObj [
     (''schema_version'', json_nat SNAPSHOT_MANIFEST_SCHEMA_VERSION),
     (''collection'', JStr (sm_collection m)), (''log_seq_start'', json_nat (sm_log_seq_start m)),
     (''incarnation'', JStr (sm_incarnation m)), (''collation'', JStr ''utf8-scalar-v1''),
     (''chunks'', JArr (map descriptor_json (sm_chunks m)))]"

definition safe_integer_value :: "json option \<Rightarrow> nat option" where
  "safe_integer_value v =
     (case nonneg_integer v of None \<Rightarrow> None | Some n \<Rightarrow> if n \<le> MAX_SAFE_INTEGER then Some n else None)"

definition positiveSafeInteger :: "json option \<Rightarrow> nat \<Rightarrow> error_code \<Rightarrow> nat result" where
  "positiveSafeInteger v maximum code =
     (case safe_integer_value v of
        None \<Rightarrow> throw code
      | Some n \<Rightarrow> if 0 < n \<and> n \<le> maximum then Inr n else throw code)"

text \<open>One step of the loop over the descriptors, with the keys seen and the shared prefix so far.\<close>

definition canonicalizeDescriptor ::
  "error_code \<Rightarrow> string option \<Rightarrow> string list \<Rightarrow> string option \<Rightarrow> json \<Rightarrow> (descriptor \<times> string) result" where
  "canonicalizeDescriptor code expectedPrefix seenKeys chunkPrefix candidate =
     result_bind (assertExactFields [''first_id'', ''last_id'', ''key'', ''byte_length'', ''row_count''] code candidate) (\<lambda>fs.
     result_bind (assertCodecDocId code (map_of fs ''first_id'')) (\<lambda>first.
     result_bind (assertCodecDocId code (map_of fs ''last_id'')) (\<lambda>last.
     result_bind (guard code (compareDocIds first last \<le> 0)) (\<lambda>_.
     result_bind (require_as code (string_value (map_of fs ''key''))) (\<lambda>key.
     result_bind (parseArtifactKey key ChunkArtifact code) (\<lambda>pk.
     result_bind (guard code (chunkPrefix = None \<or> chunkPrefix = Some (pk_prefix pk))) (\<lambda>_.
     result_bind (guard code (expectedPrefix = None \<or> expectedPrefix = Some (pk_prefix pk))) (\<lambda>_.
     result_bind (positiveSafeInteger (map_of fs ''byte_length'') MAX_CHUNK_BYTES code) (\<lambda>len.
     result_bind (positiveSafeInteger (map_of fs ''row_count'') MAX_CHUNK_ROWS code) (\<lambda>rows.
     result_bind (guard code (key \<notin> set seenKeys)) (\<lambda>_.
     Inr (\<lparr>d_first_id = first, d_last_id = last, d_key = key, d_byte_length = len, d_row_count = rows\<rparr>,
          pk_prefix pk))))))))))))"

fun canonicalizeDescriptors ::
  "error_code \<Rightarrow> string option \<Rightarrow> string list \<Rightarrow> string option \<Rightarrow> json list \<Rightarrow> descriptor list result" where
  "canonicalizeDescriptors code expectedPrefix seenKeys chunkPrefix [] = Inr []"
| "canonicalizeDescriptors code expectedPrefix seenKeys chunkPrefix (j # js) =
     result_bind (canonicalizeDescriptor code expectedPrefix seenKeys chunkPrefix j) (\<lambda>(d, p).
     result_bind (canonicalizeDescriptors code expectedPrefix (d_key d # seenKeys) (Some p) js) (\<lambda>ds.
     Inr (d # ds)))"

fun increasing_ranges :: "descriptor list \<Rightarrow> bool" where
  "increasing_ranges (d # e # ds) =
     (compareDocIds (d_first_id d) (d_first_id e) < 0 \<and> compareDocIds (d_last_id d) (d_first_id e) < 0 \<and>
      increasing_ranges (e # ds))"
| "increasing_ranges _ = True"

definition canonicalizeManifest :: "error_code \<Rightarrow> string option \<Rightarrow> json \<Rightarrow> snapshot_manifest result" where
  "canonicalizeManifest code expectedPrefix v =
     result_bind (assertExactFields
       [''schema_version'', ''collection'', ''log_seq_start'', ''incarnation'', ''collation'', ''chunks''] code v) (\<lambda>fs.
     result_bind (guard code (nonneg_integer (map_of fs ''schema_version'') = Some SNAPSHOT_MANIFEST_SCHEMA_VERSION)) (\<lambda>_.
     result_bind (require_as code (string_value (map_of fs ''collection''))) (\<lambda>coll.
     result_bind (guard code (code = InvalidConfig \<longrightarrow> assertPathSegment coll = Inr ())) (\<lambda>_.
     result_bind (require_as code (safe_integer_value (map_of fs ''log_seq_start''))) (\<lambda>start.
     result_bind (require_as code (string_value (map_of fs ''incarnation''))) (\<lambda>inc.
     result_bind (guard code (INCARNATION_PATTERN inc)) (\<lambda>_.
     result_bind (guard code (map_of fs ''collation'' = Some (JStr ''utf8-scalar-v1''))) (\<lambda>_.
     result_bind (require_as code (array_value (map_of fs ''chunks''))) (\<lambda>js.
     result_bind (guard code (length js \<le> MAX_MANIFEST_CHUNKS)) (\<lambda>_.
     result_bind (canonicalizeDescriptors code expectedPrefix [] None js) (\<lambda>ds.
     result_bind (guard code (increasing_ranges ds)) (\<lambda>_.
     Inr \<lparr>sm_collection = coll, sm_log_seq_start = start, sm_incarnation = inc, sm_chunks = ds\<rparr>))))))))))))"

definition encodeSnapshotManifest :: "(blob \<Rightarrow> nat) \<Rightarrow> snapshot_manifest \<Rightarrow> blob result" where
  "encodeSnapshotManifest bytes manifest =
     result_bind (canonicalizeManifest InvalidConfig None (manifest_json manifest)) (\<lambda>canonical.
     let b = BJson (manifest_json canonical)
     in if bytes b > MAX_MANIFEST_BYTES then throw InvalidConfig else Inr b)"

definition snapshotManifestKey :: "string \<Rightarrow> string \<Rightarrow> string \<Rightarrow> string result" where
  "snapshotManifestKey = mintArtifactKey ManifestArtifact"

text \<open>The loop of a lower-bound search: \<open>before i\<close> says that position \<open>i\<close> lies before the target.\<close>

function lower_bound :: "(nat \<Rightarrow> bool) \<Rightarrow> nat \<Rightarrow> nat \<Rightarrow> nat" where
  "lower_bound before low high =
     (if low < high then
        let middle = low + (high - low) div 2
        in if before middle then lower_bound before (middle + 1) high else lower_bound before low middle
      else low)"
  by pat_completeness auto
termination
  by (relation "measure (\<lambda>(before, low, high). high - low)") auto

declare lower_bound.simps [simp del]

definition firstDescriptorEndingAtOrAfter :: "descriptor list \<Rightarrow> string \<Rightarrow> nat" where
  "firstDescriptorEndingAtOrAfter descriptors i =
     lower_bound (\<lambda>m. compareDocIds (d_last_id (descriptors ! m)) i < 0) 0 (length descriptors)"

definition decodeSnapshotManifest ::
  "(blob \<Rightarrow> nat) \<Rightarrow> (blob \<Rightarrow> string) \<Rightarrow> blob \<Rightarrow> string \<Rightarrow> string \<Rightarrow> nat \<Rightarrow> snapshot_manifest result" where
  "decodeSnapshotManifest bytes sha b key expectedCollection expectedLogSeqStart =
     result_bind (guard InvalidResponse (bytes b \<noteq> 0 \<and> bytes b \<le> MAX_MANIFEST_BYTES)) (\<lambda>_.
     result_bind (parseArtifactKey key ManifestArtifact InvalidResponse) (\<lambda>pk.
     result_bind (guard InvalidResponse (sha b = pk_digest pk)) (\<lambda>_.
     result_bind (require_as InvalidResponse (decode_json b)) (\<lambda>parsed.
     result_bind (canonicalizeManifest InvalidResponse (Some (pk_prefix pk)) parsed) (\<lambda>canonical.
     result_bind (guard InvalidResponse (b = BJson (manifest_json canonical))) (\<lambda>_.
     result_bind (guard InvalidResponse (sm_collection canonical = expectedCollection)) (\<lambda>_.
     result_bind (guard InvalidResponse (sm_log_seq_start canonical = expectedLogSeqStart)) (\<lambda>_.
     result_bind (guard InvalidResponse (sm_incarnation canonical = pk_incarnation pk)) (\<lambda>_.
     Inr canonical)))))))))"

section \<open>Generic facts\<close>

lemma result_bind_Inr [simp]: "result_bind r f = Inr y \<longleftrightarrow> (\<exists>x. r = Inr x \<and> f x = Inr y)"
  by (cases r) auto

lemma guard_Inr [simp]: "guard code ok = Inr u \<longleftrightarrow> ok"
  by (simp add: guard_def)

lemma require_as_Inr [simp]: "require_as code v = Inr x \<longleftrightarrow> v = Some x"
  by (simp add: require_as_def split: option.split)

lemma result_map_Inr: "result_map f xs = Inr ys \<longleftrightarrow> list_all2 (\<lambda>x y. f x = Inr y) xs ys"
  by (induction xs arbitrary: ys) (auto simp: list_all2_Cons1)

lemma result_map_fix: "result_map f xs = Inr xs \<longleftrightarrow> (\<forall>x\<in>set xs. f x = Inr x)"
  by (simp add: result_map_Inr list_all2_same)

lemma mset_insert_by: "mset (insert_by cmp x xs) = add_mset x (mset xs)"
  by (induction xs) auto

lemma mset_toSorted [simp]: "mset (toSorted cmp xs) = mset xs"
  by (induction xs) (simp_all add: toSorted_def mset_insert_by)

lemma length_toSorted [simp]: "length (toSorted cmp xs) = length xs"
  using mset_toSorted by (rule mset_eq_length)

lemma sorted_insert_by:
  assumes total: "\<And>a b. cmp a b \<le> 0 \<or> cmp b a \<le> (0 :: int)"
    and trans: "\<And>a b c. cmp a b \<le> 0 \<Longrightarrow> cmp b c \<le> 0 \<Longrightarrow> cmp a c \<le> 0"
    and "sorted_wrt (\<lambda>a b. cmp a b \<le> 0) xs"
  shows "sorted_wrt (\<lambda>a b. cmp a b \<le> 0) (insert_by cmp x xs)"
  using assms(3)
proof (induction xs)
  case (Cons y ys)
  then show ?case using total [of x y] trans [of x y] by auto
qed simp

lemma sorted_toSorted:
  assumes "\<And>a b. cmp a b \<le> 0 \<or> cmp b a \<le> (0 :: int)"
    and "\<And>a b c. cmp a b \<le> 0 \<Longrightarrow> cmp b c \<le> 0 \<Longrightarrow> cmp a c \<le> 0"
  shows "sorted_wrt (\<lambda>a b. cmp a b \<le> 0) (toSorted cmp xs)"
  by (induction xs) (simp_all add: toSorted_def sorted_insert_by [OF assms])

lemma toSorted_sorted: "sorted_wrt (\<lambda>a b. cmp a b \<le> 0) xs \<Longrightarrow> toSorted cmp xs = xs"
proof (induction xs)
  case (Cons x xs)
  then have "toSorted cmp xs = xs" by simp
  with Cons.prems show ?case by (cases xs) (simp_all add: toSorted_def)
qed (simp add: toSorted_def)

section \<open>Canonical documents\<close>

lemma canonicalKeyOrder_total: "canonicalKeyOrder a b \<le> 0 \<or> canonicalKeyOrder b a \<le> 0"
  by (auto simp: canonicalKeyOrder_def)

lemma canonicalKeyOrder_trans:
  "canonicalKeyOrder a b \<le> 0 \<Longrightarrow> canonicalKeyOrder b c \<le> 0 \<Longrightarrow> canonicalKeyOrder a c \<le> 0"
  by (auto simp: canonicalKeyOrder_def split: if_splits)

lemma sorted_fields: "sorted_wrt (\<lambda>k l. canonicalKeyOrder k l \<le> 0) (map fst (toSorted field_order fs))"
proof -
  have "sorted_wrt (\<lambda>p q. field_order p q \<le> 0) (toSorted field_order fs)"
    using canonicalKeyOrder_total canonicalKeyOrder_trans
    by (intro sorted_toSorted) (auto simp: field_order_def)
  then show ?thesis by (simp add: sorted_wrt_map field_order_def)
qed

lemma toSorted_fields_id: "sorted_wrt (\<lambda>k l. canonicalKeyOrder k l \<le> 0) (map fst gs) \<Longrightarrow> toSorted field_order gs = gs"
  by (rule toSorted_sorted) (simp add: sorted_wrt_map field_order_def)

lemma canonical_obj:
  "canonicalizeDocumentValue code (JObj fs) = Inr w \<longleftrightarrow>
     (\<exists>gs. w = JObj gs \<and>
       list_all2 (\<lambda>p q. fst q = fst p \<and> canonicalizeDocumentValue code (snd p) = Inr (snd q))
         (toSorted field_order fs) gs)"
proof -
  let ?c = "canonicalizeDocumentValue code"
  have eq: "(\<lambda>p q. \<exists>v. ?c (snd p) = Inr v \<and> (fst p, v) = q) = (\<lambda>p q. fst q = fst p \<and> ?c (snd p) = Inr (snd q))"
    by (auto simp: fun_eq_iff)
  have "?c (JObj fs) = Inr w \<longleftrightarrow>
      (\<exists>gs. list_all2 (\<lambda>p q. \<exists>v. ?c (snd p) = Inr v \<and> (fst p, v) = q) (toSorted field_order fs) gs \<and> JObj gs = w)"
    by (simp only: canonicalizeDocumentValue.simps result_bind_Inr result_map_Inr sum.inject)
  then show ?thesis unfolding eq by auto
qed

lemma list_all2_keys:
  "list_all2 (\<lambda>p q. fst q = fst p \<and> P (snd p) (snd q)) xs ys \<Longrightarrow> map fst ys = map fst xs"
  by (induction rule: list_all2_induct) simp_all

text \<open>Canonical form is reached in one pass, and does not depend on the failure polarity.\<close>

lemma canonical_fix:
  "canonicalizeDocumentValue code v = Inr w \<Longrightarrow> canonicalizeDocumentValue code' w = Inr w"
proof (induction code v arbitrary: w rule: canonicalizeDocumentValue.induct)
  case (5 code xs)
  then obtain ys where w: "w = JArr ys" and all: "list_all2 (\<lambda>x y. canonicalizeDocumentValue code x = Inr y) xs ys"
    by (auto simp: result_map_Inr)
  have "\<forall>y\<in>set ys. canonicalizeDocumentValue code' y = Inr y"
    using list_all2_right [OF all] 5(1) by blast
  then show ?case using w by (simp add: result_map_fix)
next
  case (6 code fs)
  then obtain gs where w: "w = JObj gs"
    and all: "list_all2 (\<lambda>p q. fst q = fst p \<and> canonicalizeDocumentValue code (snd p) = Inr (snd q)) (toSorted field_order fs) gs"
    by (auto simp only: canonical_obj)
  have "\<forall>q\<in>set gs. canonicalizeDocumentValue code' (snd q) = Inr (snd q)"
  proof
    fix q assume "q \<in> set gs"
    then obtain p where "p \<in> set (toSorted field_order fs)" "canonicalizeDocumentValue code (snd p) = Inr (snd q)"
      using list_all2_right [OF all] by blast
    then show "canonicalizeDocumentValue code' (snd q) = Inr (snd q)" using 6(1) by blast
  qed
  then have "list_all2 (\<lambda>p q. fst q = fst p \<and> canonicalizeDocumentValue code' (snd p) = Inr (snd q)) gs gs"
    by (simp add: list_all2_same)
  then show ?case
    using toSorted_fields_id [of gs] sorted_fields [of fs] list_all2_keys [OF all] w by (simp only: canonical_obj) simp
qed (auto split: if_splits)

lemma map_of_toSorted: "distinct (obj_keys fs) \<Longrightarrow> map_of (toSorted cmp fs) = map_of fs"
  by (rule map_of_inject_set [THEN iffD2])
    (metis distinct_map mset_eq_imp_distinct_iff mset_map mset_toSorted, auto)

lemma distinct_toSorted: "distinct (obj_keys (toSorted cmp fs)) \<longleftrightarrow> distinct (obj_keys fs)"
  by (metis mset_eq_imp_distinct_iff mset_map mset_toSorted)

text \<open>Canonicalisation keeps the document: only the order of members changes.\<close>

lemma canonical_equiv:
  "canonicalizeDocumentValue code v = Inr w \<Longrightarrow> wf_json v \<Longrightarrow> json_equiv v w \<and> wf_json w"
proof (induction code v arbitrary: w rule: canonicalizeDocumentValue.induct)
  case (5 code xs)
  then obtain ys where w: "w = JArr ys" and all: "list_all2 (\<lambda>x y. canonicalizeDocumentValue code x = Inr y) xs ys"
    by (auto simp: result_map_Inr)
  have step: "json_equiv (xs ! i) (ys ! i) \<and> wf_json (ys ! i)" if "i < length xs" for i
    using 5(1) [of "xs ! i" "ys ! i"] 5(3) all that by (simp add: list_all2_conv_all_nth)
  then show ?case
    using w list_all2_lengthD [OF all] by (auto simp: in_set_zip in_set_conv_nth)
next
  case (6 code fs)
  let ?s = "toSorted field_order fs"
  obtain gs where w: "w = JObj gs"
    and all: "list_all2 (\<lambda>p q. fst q = fst p \<and> canonicalizeDocumentValue code (snd p) = Inr (snd q)) ?s gs"
    using 6(2) by (auto simp only: canonical_obj)
  have d: "distinct (obj_keys fs)" using 6(3) by simp
  have keys: "obj_keys gs = obj_keys ?s" using list_all2_keys [OF all] .
  then have dg: "distinct (obj_keys gs)" using d by (simp only: distinct_toSorted)
  have len: "length gs = length fs" using list_all2_lengthD [OF all] by simp
  have pair: "\<exists>y. (k, y) \<in> set gs \<and> canonicalizeDocumentValue code x = Inr y" if "(k, x) \<in> set fs" for k x
    using list_all2_left [OF all, of "(k, x)"] that by auto
  have inv: "\<exists>x. (k, x) \<in> set fs \<and> canonicalizeDocumentValue code x = Inr y" if "(k, y) \<in> set gs" for k y
    using list_all2_right [OF all that] by auto
  have IH: "json_equiv x y \<and> wf_json y" if "(k, x) \<in> set fs" "canonicalizeDocumentValue code x = Inr y" for k x y
    using 6(1) [of "(k, x)" y] 6(3) that by auto
  have "\<exists>y. map_of gs k = Some y \<and> json_equiv x y" if "(k, x) \<in> set fs" for k x
    using pair [OF that] IH [OF that] map_of_is_SomeI [OF dg] by blast
  moreover have "wf_json y" if "(k, y) \<in> set gs" for k y using inv [OF that] IH by blast
  ultimately show ?case using w len dg by auto
qed (auto simp: json_equiv_prim isFinite_def split: if_splits jsnum.splits)

section \<open>Keys\<close>

lemma parseArtifactKey_Inr:
  "parseArtifactKey key kind code = Inr pk \<longleftrightarrow>
     length (utf8_encode key) \<le> MAX_KEY_BYTES \<and> key = pk_prefix pk @ artifact_tail kind (pk_incarnation pk) (pk_digest pk) \<and>
     pk_prefix pk \<noteq> [] \<and> last (pk_prefix pk) \<noteq> CHR ''/'' \<and> (\<forall>c\<in>set (pk_prefix pk). \<not> is_line_terminator c) \<and>
     INCARNATION_PATTERN (pk_incarnation pk) \<and> DIGEST_PATTERN (pk_digest pk)"
  (is "?l \<longleftrightarrow> ?r")
proof
  assume l: ?l
  define n where "n = length (artifact_dir kind) + 32 + 8 + 64 + 5"
  define p where "p = take (length key - n) key"
  define r where "r = drop (length key - n) key"
  define inc where "inc = take 32 (drop (length (artifact_dir kind)) r)"
  define dig where "dig = take 64 (drop (length (artifact_dir kind) + 40) r)"
  have pr: "key = p @ r" by (simp add: p_def r_def)
  note l' = l [unfolded parseArtifactKey_def Let_def n_def [symmetric], folded p_def r_def, folded inc_def dig_def]
  have pk: "pk = \<lparr>pk_prefix = p, pk_incarnation = inc, pk_digest = dig\<rparr>"
    and ok: "n < length key" "\<forall>c\<in>set p. \<not> is_line_terminator c" "INCARNATION_PATTERN inc" "DIGEST_PATTERN dig"
      "r = artifact_tail kind inc dig" "last p \<noteq> CHR ''/''" "length (utf8_encode key) \<le> MAX_KEY_BYTES"
    using l' by (simp_all split: if_splits)
  have "p \<noteq> []" using ok(1) by (auto simp: p_def)
  then show ?r using pk ok pr by simp
next
  assume r: ?r
  let ?t = "artifact_tail kind (pk_incarnation pk) (pk_digest pk)"
  have lens: "length (pk_incarnation pk) = 32" "length (pk_digest pk) = 64"
    using r by (simp_all add: INCARNATION_PATTERN_def DIGEST_PATTERN_def)
  then have n: "length ?t = length (artifact_dir kind) + 109" by (simp add: artifact_tail_def)
  have parts: "take 32 (drop (length (artifact_dir kind)) ?t) = pk_incarnation pk"
    "take 64 (drop (length (artifact_dir kind) + 40) ?t) = pk_digest pk"
    using lens by (simp_all add: artifact_tail_def)
  have key: "key = pk_prefix pk @ ?t" using r by simp
  have split: "take (length key - (length (artifact_dir kind) + 32 + 8 + 64 + 5)) key = pk_prefix pk"
    "drop (length key - (length (artifact_dir kind) + 32 + 8 + 64 + 5)) key = ?t"
    unfolding key using n by simp_all
  have "\<not> length key \<le> length (artifact_dir kind) + 32 + 8 + 64 + 5" unfolding key using n r by (cases "pk_prefix pk") auto
  then show ?l
    using r unfolding parseArtifactKey_def Let_def split parts by auto
qed

lemma mintArtifactKey_Inr:
  "mintArtifactKey kind p inc dig = Inr key \<longleftrightarrow>
     p \<noteq> [] \<and> last p \<noteq> CHR ''/'' \<and> INCARNATION_PATTERN inc \<and> DIGEST_PATTERN dig \<and>
     key = p @ artifact_tail kind inc dig \<and> length (utf8_encode key) \<le> MAX_KEY_BYTES"
  by (auto simp: mintArtifactKey_def assertKeyWithinLimit_def Let_def)

lemma parse_minted:
  assumes "mintArtifactKey kind p inc dig = Inr key" "\<forall>c\<in>set p. \<not> is_line_terminator c"
  shows "parseArtifactKey key kind code = Inr \<lparr>pk_prefix = p, pk_incarnation = inc, pk_digest = dig\<rparr>"
  using assms by (auto simp: mintArtifactKey_Inr parseArtifactKey_Inr)

section \<open>Chunks\<close>

lemma string_value_Some [simp]: "string_value v = Some s \<longleftrightarrow> v = Some (JStr s)"
  by (cases v rule: string_value.cases) auto

lemma array_value_Some [simp]: "array_value v = Some xs \<longleftrightarrow> v = Some (JArr xs)"
  by (cases v rule: array_value.cases) auto

lemma assertCodecDocId_Inr [simp]:
  "assertCodecDocId code v = Inr i \<longleftrightarrow> v = Some (JStr i) \<and> assertPathSegment i = Inr ()"
proof -
  have "(case assertPathSegment j of Inl _ \<Rightarrow> throw code | Inr _ \<Rightarrow> Inr j) = Inr i \<longleftrightarrow> j = i \<and> assertPathSegment i = Inr ()" for j
    by (cases "assertPathSegment j") auto
  then show ?thesis by (cases v rule: string_value.cases) (auto simp: assertCodecDocId_def)
qed

lemma increasing_ids_sorted: "increasing_ids ds \<longleftrightarrow> sorted_wrt (<) (map doc_id ds)"
  by (induction ds rule: increasing_ids.induct) (auto intro: less_trans)

text \<open>The documents and chunks that canonicalisation leaves as they are.\<close>

definition canonical_doc :: "doc \<Rightarrow> bool" where
  "canonical_doc d =
     (canonicalizeDocumentValue InvalidConfig (JObj d) = Inr (JObj d) \<and>
      map_of d ''_id'' = Some (JStr (doc_id d)) \<and> assertPathSegment (doc_id d) = Inr ())"

definition wf_chunk :: "snapshot_chunk \<Rightarrow> bool" where
  "wf_chunk c =
     (INCARNATION_PATTERN (sc_incarnation c) \<and> sc_docs c \<noteq> [] \<and> length (sc_docs c) \<le> MAX_CHUNK_ROWS \<and>
      list_all canonical_doc (sc_docs c) \<and> sorted_wrt (<) (map doc_id (sc_docs c)) \<and>
      sc_first_id c = doc_id (hd (sc_docs c)) \<and> sc_last_id c = doc_id (last (sc_docs c)))"

lemma canonicalizeDocument_Inr:
  assumes "canonicalizeDocument code v = Inr d"
  shows "canonical_doc d" "\<exists>fs. v = JObj fs \<and> canonicalizeDocumentValue code v = Inr (JObj d)"
proof -
  obtain fs where v: "v = JObj fs" using assms by (cases v) (simp_all add: canonicalizeDocument_def)
  obtain gs where gs: "canonicalizeDocumentValue code (JObj fs) = Inr (JObj gs)" "d = gs"
    "\<exists>i. map_of gs ''_id'' = Some (JStr i) \<and> assertPathSegment i = Inr ()"
    using assms unfolding v canonicalizeDocument_def by (auto simp add: canonical_obj)
  show "canonical_doc d" using canonical_fix [OF gs(1)] gs(2,3) by (auto simp: canonical_doc_def doc_id_def)
  show "\<exists>fs. v = JObj fs \<and> canonicalizeDocumentValue code v = Inr (JObj d)" using v gs by auto
qed

lemma canonicalizeDocument_fix: "canonical_doc d \<Longrightarrow> canonicalizeDocument code (JObj d) = Inr d"
  using canonical_fix [of InvalidConfig "JObj d" "JObj d" code]
  by (auto simp: canonicalizeDocument_def canonical_doc_def)

lemma canonicalizeDocuments_fix:
  "list_all canonical_doc ds \<Longrightarrow> result_map (canonicalizeDocument code) (map JObj ds) = Inr ds"
  by (auto simp: result_map_Inr list_all2_map1 list_all2_same list_all_iff canonicalizeDocument_fix)

lemma exact_fields_chunk [simp]:
  "assertExactFields
     [''schema_version'', ''collection'', ''incarnation'', ''first_id'', ''last_id'', ''docs''] code (chunk_json c) =
   Inr [(''schema_version'', json_nat SNAPSHOT_CHUNK_SCHEMA_VERSION),
     (''collection'', JStr (sc_collection c)), (''incarnation'', JStr (sc_incarnation c)),
     (''first_id'', JStr (sc_first_id c)), (''last_id'', JStr (sc_last_id c)),
     (''docs'', JArr (map JObj (sc_docs c)))]"
  by (simp add: assertExactFields_def chunk_json_def)

lemma canonicalizeChunk_wf: "canonicalizeChunk code v = Inr c \<Longrightarrow> wf_chunk c"
proof -
  assume "canonicalizeChunk code v = Inr c"
  then obtain ds docs where ds: "ds \<noteq> []" "length ds \<le> MAX_CHUNK_ROWS"
    and docs: "result_map (canonicalizeDocument code) ds = Inr docs" "increasing_ids docs" "sc_docs c = docs"
    and rest: "INCARNATION_PATTERN (sc_incarnation c)" "sc_first_id c = doc_id (hd docs)" "sc_last_id c = doc_id (last docs)"
    by (auto simp: canonicalizeChunk_def Let_def)
  have all: "list_all2 (\<lambda>x y. canonicalizeDocument code x = Inr y) ds docs" using docs(1) by (simp add: result_map_Inr)
  then have "length docs = length ds" by (simp add: list_all2_lengthD)
  moreover have "list_all canonical_doc docs"
    using list_all2_right [OF all] canonicalizeDocument_Inr(1) by (auto simp: list_all_iff)
  ultimately show "wf_chunk c"
    using ds docs rest by (auto simp: wf_chunk_def increasing_ids_sorted)
qed

lemma canonicalizeChunk_fix:
  assumes "wf_chunk c" "code = InvalidConfig \<Longrightarrow> assertPathSegment (sc_collection c) = Inr ()"
  shows "canonicalizeChunk code (chunk_json c) = Inr c"
  using assms canonicalizeDocuments_fix [of "sc_docs c" code]
  by (auto simp: canonicalizeChunk_def wf_chunk_def increasing_ids_sorted Let_def)

lemma encode_chunk_Inr:
  "encodeSnapshotChunk bytes c = Inr b \<longleftrightarrow>
     (\<exists>c'. canonicalizeChunk InvalidConfig (chunk_json c) = Inr c' \<and> b = BJson (chunk_json c') \<and> bytes b \<le> MAX_CHUNK_BYTES)"
  by (auto simp: encodeSnapshotChunk_def Let_def split: sum.splits if_splits)

text \<open>What a chunk becomes when it is encoded: its documents in canonical form, all else unchanged.\<close>

lemma canonicalizeChunk_json:
  assumes "canonicalizeChunk code (chunk_json c) = Inr c'"
  shows "c' = c\<lparr>sc_docs := sc_docs c'\<rparr>"
    and "list_all2 (\<lambda>d d'. canonicalizeDocumentValue code (JObj d) = Inr (JObj d')) (sc_docs c) (sc_docs c')"
    and "code = InvalidConfig \<Longrightarrow> assertPathSegment (sc_collection c) = Inr ()"
proof -
  have docs: "result_map (canonicalizeDocument code) (map JObj (sc_docs c)) = Inr (sc_docs c')"
    using assms by (auto simp: canonicalizeChunk_def Let_def)
  then show "list_all2 (\<lambda>d d'. canonicalizeDocumentValue code (JObj d) = Inr (JObj d')) (sc_docs c) (sc_docs c')"
    unfolding result_map_Inr list_all2_map1
    by (rule list_all2_mono) (blast dest: canonicalizeDocument_Inr(2))
  show "c' = c\<lparr>sc_docs := sc_docs c'\<rparr>" using assms by (auto simp: canonicalizeChunk_def Let_def)
  show "assertPathSegment (sc_collection c) = Inr ()" if "code = InvalidConfig"
    using assms that by (auto simp: canonicalizeChunk_def Let_def)
qed

lemma canonical_docs_equiv:
  assumes "list_all2 (\<lambda>d d'. canonicalizeDocumentValue code (JObj d) = Inr (JObj d')) ds ds'"
    and "\<forall>d\<in>set ds. wf_json (JObj d)"
  shows "list_all2 (\<lambda>d d'. json_equiv (JObj d) (JObj d')) ds ds'"
  using assms by (induction rule: list_all2_induct) (auto simp del: json_equiv_JObj wf_json.simps dest: canonical_equiv)

definition chunk_descriptor :: "(blob \<Rightarrow> nat) \<Rightarrow> snapshot_chunk \<Rightarrow> blob \<Rightarrow> string \<Rightarrow> descriptor" where
  "chunk_descriptor bytes c b key =
     \<lparr>d_first_id = sc_first_id c, d_last_id = sc_last_id c, d_key = key, d_byte_length = bytes b,
      d_row_count = length (sc_docs c)\<rparr>"

lemma decode_chunk_Inr:
  "decodeSnapshotChunk bytes sha b key coll d = Inr c \<longleftrightarrow>
     bytes b \<noteq> 0 \<and> bytes b \<le> MAX_CHUNK_BYTES \<and> b = BJson (chunk_json c) \<and> wf_chunk c \<and> sc_collection c = coll \<and>
     d = chunk_descriptor bytes c b key \<and>
     (\<exists>p. parseArtifactKey key ChunkArtifact InvalidResponse =
        Inr \<lparr>pk_prefix = p, pk_incarnation = sc_incarnation c, pk_digest = sha b\<rparr>)"
  (is "?l \<longleftrightarrow> ?r")
proof
  assume l: ?l
  then obtain pk j where pk: "parseArtifactKey key ChunkArtifact InvalidResponse = Inr pk" "pk_digest pk = sha b"
      "pk_incarnation pk = sc_incarnation c"
    and j: "canonicalizeChunk InvalidResponse j = Inr c"
    and rest: "bytes b \<noteq> 0" "bytes b \<le> MAX_CHUNK_BYTES" "b = BJson (chunk_json c)" "sc_collection c = coll"
      "d = chunk_descriptor bytes c b key"
    by (auto simp: decodeSnapshotChunk_def chunk_descriptor_def)
  have "pk = \<lparr>pk_prefix = pk_prefix pk, pk_incarnation = sc_incarnation c, pk_digest = sha b\<rparr>" using pk by simp
  then show ?r using pk(1) rest canonicalizeChunk_wf [OF j] by metis
next
  assume r: ?r
  then have "canonicalizeChunk InvalidResponse (chunk_json c) = Inr c" by (intro canonicalizeChunk_fix) auto
  then show ?l using r by (auto simp: decodeSnapshotChunk_def chunk_descriptor_def)
qed

section \<open>Manifests\<close>

definition wf_descriptor :: "string \<Rightarrow> descriptor \<Rightarrow> bool" where
  "wf_descriptor p d =
     (assertPathSegment (d_first_id d) = Inr () \<and> assertPathSegment (d_last_id d) = Inr () \<and>
      d_first_id d \<le> d_last_id d \<and> 0 < d_byte_length d \<and> d_byte_length d \<le> MAX_CHUNK_BYTES \<and>
      0 < d_row_count d \<and> d_row_count d \<le> MAX_CHUNK_ROWS \<and>
      (\<exists>inc dig. parseArtifactKey (d_key d) ChunkArtifact InvalidResponse =
         Inr \<lparr>pk_prefix = p, pk_incarnation = inc, pk_digest = dig\<rparr>))"

definition ordered_ranges :: "descriptor list \<Rightarrow> bool" where
  "ordered_ranges ds =
     ((\<forall>d\<in>set ds. d_first_id d \<le> d_last_id d) \<and> sorted_wrt (\<lambda>d e. d_last_id d < d_first_id e) ds)"

definition wf_manifest :: "string \<Rightarrow> snapshot_manifest \<Rightarrow> bool" where
  "wf_manifest p m =
     (sm_log_seq_start m \<le> MAX_SAFE_INTEGER \<and> INCARNATION_PATTERN (sm_incarnation m) \<and>
      length (sm_chunks m) \<le> MAX_MANIFEST_CHUNKS \<and> (\<forall>d\<in>set (sm_chunks m). wf_descriptor p d) \<and>
      distinct (map d_key (sm_chunks m)) \<and> ordered_ranges (sm_chunks m))"

lemma parse_code: "parseArtifactKey key kind code = Inr pk \<longleftrightarrow> parseArtifactKey key kind InvalidResponse = Inr pk"
  by (simp add: parseArtifactKey_Inr)

lemma positiveSafeInteger_Inr [simp]:
  "m \<le> MAX_SAFE_INTEGER \<Longrightarrow>
   positiveSafeInteger v m code = Inr n \<longleftrightarrow> nonneg_integer v = Some n \<and> 0 < n \<and> n \<le> m"
  by (auto simp: positiveSafeInteger_def safe_integer_value_def split: option.splits if_splits)

lemma ceilings_safe [simp]: "MAX_CHUNK_BYTES \<le> MAX_SAFE_INTEGER" "MAX_CHUNK_ROWS \<le> MAX_SAFE_INTEGER"
  by (simp_all add: MAX_CHUNK_BYTES_def MAX_CHUNK_ROWS_def MAX_SAFE_INTEGER_def)

lemma canonicalizeDescriptor_wf:
  assumes "canonicalizeDescriptor code ep seen cp j = Inr (d, p)"
  shows "wf_descriptor p d \<and> (cp = None \<or> cp = Some p) \<and> (ep = None \<or> ep = Some p) \<and> d_key d \<notin> set seen"
proof -
  obtain pk where pk: "parseArtifactKey (d_key d) ChunkArtifact code = Inr pk" "p = pk_prefix pk"
    and rest: "assertPathSegment (d_first_id d) = Inr ()" "assertPathSegment (d_last_id d) = Inr ()"
      "d_first_id d \<le> d_last_id d" "0 < d_byte_length d" "d_byte_length d \<le> MAX_CHUNK_BYTES"
      "0 < d_row_count d" "d_row_count d \<le> MAX_CHUNK_ROWS"
      "cp = None \<or> cp = Some p" "ep = None \<or> ep = Some p" "d_key d \<notin> set seen"
    using assms by (auto simp: canonicalizeDescriptor_def)
  have "pk = \<lparr>pk_prefix = p, pk_incarnation = pk_incarnation pk, pk_digest = pk_digest pk\<rparr>" using pk(2) by simp
  then show ?thesis using pk(1) rest unfolding wf_descriptor_def parse_code [of _ _ code] by metis
qed

lemma canonicalizeDescriptor_fix:
  assumes "wf_descriptor p d" "cp = None \<or> cp = Some p" "ep = None \<or> ep = Some p" "d_key d \<notin> set seen"
  shows "canonicalizeDescriptor code ep seen cp (descriptor_json d) = Inr (d, p)"
proof -
  obtain inc dig where "parseArtifactKey (d_key d) ChunkArtifact code =
      Inr \<lparr>pk_prefix = p, pk_incarnation = inc, pk_digest = dig\<rparr>"
    using assms(1) by (auto simp: wf_descriptor_def parse_code [of _ _ code])
  then show ?thesis
    using assms by (auto simp: canonicalizeDescriptor_def assertExactFields_def descriptor_json_def wf_descriptor_def)
qed

lemma canonicalizeDescriptors_wf:
  assumes "canonicalizeDescriptors code ep seen cp js = Inr ds"
  shows "\<exists>p. (\<forall>d\<in>set ds. wf_descriptor p d) \<and> (cp = None \<or> cp = Some p \<or> ds = []) \<and> (ep = None \<or> ep = Some p \<or> ds = []) \<and>
    distinct (map d_key ds) \<and> d_key ` set ds \<inter> set seen = {}"
  using assms
proof (induction js arbitrary: seen cp ds)
  case (Cons j js)
  then obtain d p es where j: "canonicalizeDescriptor code ep seen cp j = Inr (d, p)" and ds: "ds = d # es"
    and es: "canonicalizeDescriptors code ep (d_key d # seen) (Some p) js = Inr es" by auto
  obtain p' where p': "\<forall>d\<in>set es. wf_descriptor p' d" "p' = p \<or> es = []" "distinct (map d_key es)"
    "d_key ` set es \<inter> set (d_key d # seen) = {}"
    using Cons.IH [OF es] by auto
  then have "\<forall>d\<in>set es. wf_descriptor p d" by auto
  then show ?case using canonicalizeDescriptor_wf [OF j] p'(3,4) ds by (intro exI [of _ p]) auto
qed auto

lemma canonicalizeDescriptors_fix:
  assumes "\<forall>d\<in>set ds. wf_descriptor p d" "cp = None \<or> cp = Some p" "ep = None \<or> ep = Some p"
    "distinct (map d_key ds)" "d_key ` set ds \<inter> set seen = {}"
  shows "canonicalizeDescriptors code ep seen cp (map descriptor_json ds) = Inr ds"
  using assms
proof (induction ds arbitrary: seen cp)
  case (Cons d ds)
  have "canonicalizeDescriptor code ep seen cp (descriptor_json d) = Inr (d, p)"
    using Cons.prems by (intro canonicalizeDescriptor_fix) auto
  moreover have "canonicalizeDescriptors code ep (d_key d # seen) (Some p) (map descriptor_json ds) = Inr ds"
    using Cons.prems by (intro Cons.IH) auto
  ultimately show ?case by simp
qed simp

lemma increasing_ranges_ordered:
  assumes "\<forall>d\<in>set ds. d_first_id d \<le> d_last_id d"
  shows "increasing_ranges ds \<longleftrightarrow> ordered_ranges ds"
  using assms
proof (induction ds rule: increasing_ranges.induct)
  case (1 d e ds)
  have trans: "d_last_id d < d_first_id x" if "d_last_id d < d_first_id e" "d_last_id e < d_first_id x" for x
    using that 1(2) by (meson list.set_intros le_less_trans less_trans)
  show ?case using 1 by (auto simp: ordered_ranges_def intro: le_less_trans trans)
qed (auto simp: ordered_ranges_def)

lemma safe_integer_value_Some [simp]:
  "safe_integer_value v = Some n \<longleftrightarrow> nonneg_integer v = Some n \<and> n \<le> MAX_SAFE_INTEGER"
  by (auto simp: safe_integer_value_def split: option.splits if_splits)

lemma canonicalizeDescriptors_length: "canonicalizeDescriptors code ep seen cp js = Inr ds \<Longrightarrow> length ds = length js"
  by (induction js arbitrary: seen cp ds) auto

lemma canonicalizeManifest_wf:
  assumes "canonicalizeManifest code ep v = Inr m"
  shows "\<exists>p. wf_manifest p m \<and> (ep = None \<or> ep = Some p \<or> sm_chunks m = [])"
proof -
  obtain js ds where m: "length js \<le> MAX_MANIFEST_CHUNKS" "canonicalizeDescriptors code ep [] None js = Inr ds"
      "increasing_ranges ds" "sm_chunks m = ds" "INCARNATION_PATTERN (sm_incarnation m)"
      "sm_log_seq_start m \<le> MAX_SAFE_INTEGER"
    using assms by (auto simp: canonicalizeManifest_def)
  obtain p where p: "\<forall>d\<in>set ds. wf_descriptor p d" "ep = None \<or> ep = Some p \<or> ds = []" "distinct (map d_key ds)"
    using canonicalizeDescriptors_wf [OF m(2)] by auto
  have "ordered_ranges ds"
    using increasing_ranges_ordered [of ds] p(1) m(3) by (simp add: wf_descriptor_def)
  then show ?thesis
    using m p canonicalizeDescriptors_length [OF m(2)] by (intro exI [of _ p]) (auto simp: wf_manifest_def)
qed

lemma canonicalizeManifest_fix:
  assumes "wf_manifest p m" "ep = None \<or> ep = Some p"
    and "code = InvalidConfig \<Longrightarrow> assertPathSegment (sm_collection m) = Inr ()"
  shows "canonicalizeManifest code ep (manifest_json m) = Inr m"
proof -
  have "canonicalizeDescriptors code ep [] None (map descriptor_json (sm_chunks m)) = Inr (sm_chunks m)"
    using assms by (intro canonicalizeDescriptors_fix [of _ p]) (auto simp: wf_manifest_def)
  moreover have "increasing_ranges (sm_chunks m)"
    using assms(1) increasing_ranges_ordered [of "sm_chunks m"] by (simp add: wf_manifest_def wf_descriptor_def)
  ultimately show ?thesis
    using assms by (auto simp: canonicalizeManifest_def manifest_json_def assertExactFields_def wf_manifest_def)
qed

text \<open>A manifest of the interface's type is not changed by its encoder.\<close>

lemma canonicalizeManifest_json:
  assumes "canonicalizeManifest code ep (manifest_json m) = Inr m'"
  shows "m' = m" "code = InvalidConfig \<Longrightarrow> assertPathSegment (sm_collection m) = Inr ()"
proof -
  have same: "canonicalizeDescriptor code ep seen cp (descriptor_json d) = Inr (d', p) \<Longrightarrow> d' = d" for seen cp d d' p
    by (auto simp: canonicalizeDescriptor_def descriptor_json_def assertExactFields_def)
  have all: "canonicalizeDescriptors code ep seen cp (map descriptor_json ds) = Inr ds' \<Longrightarrow> ds' = ds" for seen cp ds ds'
    by (induction ds arbitrary: seen cp ds') (auto dest: same)
  show "m' = m" using assms by (auto simp: canonicalizeManifest_def manifest_json_def assertExactFields_def dest: all)
  show "assertPathSegment (sm_collection m) = Inr ()" if "code = InvalidConfig"
    using assms that by (auto simp: canonicalizeManifest_def manifest_json_def assertExactFields_def)
qed

lemma encode_manifest_Inr:
  "encodeSnapshotManifest bytes m = Inr b \<longleftrightarrow>
     (\<exists>p. wf_manifest p m) \<and> assertPathSegment (sm_collection m) = Inr () \<and>
     b = BJson (manifest_json m) \<and> bytes b \<le> MAX_MANIFEST_BYTES"
proof -
  have "canonicalizeManifest InvalidConfig None (manifest_json m) = Inr m' \<longleftrightarrow>
      (\<exists>p. wf_manifest p m) \<and> assertPathSegment (sm_collection m) = Inr () \<and> m' = m" for m'
    using canonicalizeManifest_json [of InvalidConfig None m m'] canonicalizeManifest_wf [of InvalidConfig None "manifest_json m" m']
      canonicalizeManifest_fix [of _ m None InvalidConfig] by auto
  then show ?thesis by (auto simp: encodeSnapshotManifest_def Let_def)
qed

lemma decode_manifest_Inr:
  assumes "decodeSnapshotManifest bytes sha b key coll start = Inr m"
  shows "b = BJson (manifest_json m)" "sm_collection m = coll" "sm_log_seq_start m = start"
    and "\<exists>pk. parseArtifactKey key ManifestArtifact InvalidResponse = Inr pk \<and> wf_manifest (pk_prefix pk) m \<and>
      pk_incarnation pk = sm_incarnation m \<and> pk_digest pk = sha b"
proof -
  obtain pk j where pk: "parseArtifactKey key ManifestArtifact InvalidResponse = Inr pk" "pk_digest pk = sha b"
      "pk_incarnation pk = sm_incarnation m"
    and j: "canonicalizeManifest InvalidResponse (Some (pk_prefix pk)) j = Inr m"
    and rest: "b = BJson (manifest_json m)" "sm_collection m = coll" "sm_log_seq_start m = start"
    using assms by (auto simp: decodeSnapshotManifest_def)
  have "wf_manifest (pk_prefix pk) m" using canonicalizeManifest_wf [OF j] by (auto simp: wf_manifest_def)
  then show "\<exists>pk. parseArtifactKey key ManifestArtifact InvalidResponse = Inr pk \<and> wf_manifest (pk_prefix pk) m \<and>
      pk_incarnation pk = sm_incarnation m \<and> pk_digest pk = sha b" using pk by metis
  show "b = BJson (manifest_json m)" "sm_collection m = coll" "sm_log_seq_start m = start" by (fact rest)+
qed

lemma decode_manifest_fix:
  assumes "wf_manifest p m" "bytes (BJson (manifest_json m)) \<noteq> 0" "bytes (BJson (manifest_json m)) \<le> MAX_MANIFEST_BYTES"
    and "parseArtifactKey key ManifestArtifact InvalidResponse =
      Inr \<lparr>pk_prefix = p, pk_incarnation = sm_incarnation m, pk_digest = sha (BJson (manifest_json m))\<rparr>"
  shows "decodeSnapshotManifest bytes sha (BJson (manifest_json m)) key (sm_collection m) (sm_log_seq_start m) = Inr m"
proof -
  have "canonicalizeManifest InvalidResponse (Some p) (manifest_json m) = Inr m"
    using assms(1) by (intro canonicalizeManifest_fix) auto
  then show ?thesis using assms by (auto simp: decodeSnapshotManifest_def)
qed

section \<open>The descriptor search\<close>

lemma lower_bound_spec:
  assumes "low \<le> high" "\<forall>i j. i \<le> j \<and> j < high \<and> before j \<longrightarrow> before i"
  shows "low \<le> lower_bound before low high \<and> lower_bound before low high \<le> high \<and>
    (\<forall>i. low \<le> i \<and> i < lower_bound before low high \<longrightarrow> before i) \<and>
    (\<forall>i. lower_bound before low high \<le> i \<and> i < high \<longrightarrow> \<not> before i)"
  using assms
proof (induction before low high rule: lower_bound.induct)
  case (1 before low high)
  define m where "m = low + (high - low) div 2"
  show ?case
  proof (cases "low < high")
    case False
    then have "lower_bound before low high = low" by (subst lower_bound.simps) simp
    then show ?thesis using False 1(3) by auto
  next
    case True
    then have m: "low \<le> m" "m < high" by (auto simp: m_def)
    show ?thesis
    proof (cases "before m")
      case t: True
      have eq: "lower_bound before low high = lower_bound before (m + 1) high"
        using True t by (subst lower_bound.simps) (simp add: Let_def m_def)
      have "m + 1 \<le> high" using m(2) by simp
      from 1(1) [OF True m_def t this 1(4)]
      have IH: "m + 1 \<le> lower_bound before (m + 1) high" "lower_bound before (m + 1) high \<le> high"
          "\<And>i. m + 1 \<le> i \<Longrightarrow> i < lower_bound before (m + 1) high \<Longrightarrow> before i"
          "\<And>i. lower_bound before (m + 1) high \<le> i \<Longrightarrow> i < high \<Longrightarrow> \<not> before i"
        by blast+
      have "before i" if "i < lower_bound before (m + 1) high" for i
        using IH(3) 1(4) t m(2) that by (cases "i \<le> m") (blast, simp)
      then show ?thesis using IH(1,2,4) m unfolding eq by auto
    next
      case f: False
      have eq: "lower_bound before low high = lower_bound before low m"
        using True f by (subst lower_bound.simps) (simp add: Let_def m_def)
      have "\<forall>i j. i \<le> j \<and> j < m \<and> before j \<longrightarrow> before i" using 1(4) m(2) by (meson less_trans)
      from 1(2) [OF True m_def f m(1) this]
      have IH: "low \<le> lower_bound before low m" "lower_bound before low m \<le> m"
          "\<And>i. low \<le> i \<Longrightarrow> i < lower_bound before low m \<Longrightarrow> before i"
          "\<And>i. lower_bound before low m \<le> i \<Longrightarrow> i < m \<Longrightarrow> \<not> before i"
        by blast+
      have "\<not> before i" if "lower_bound before low m \<le> i" "i < high" for i
        using IH(4) 1(4) f that by (cases "m \<le> i") (blast, simp)
      then show ?thesis using IH(1-3) m unfolding eq by auto
    qed
  qed
qed

lemma lower_bound_takeWhile:
  assumes "sorted_wrt (\<lambda>x y. P y \<longrightarrow> P x) xs"
  shows "lower_bound (\<lambda>m. P (xs ! m)) 0 (length xs) = length (takeWhile P xs)"
proof -
  define r where "r = lower_bound (\<lambda>m. P (xs ! m)) 0 (length xs)"
  define n where "n = length (takeWhile P xs)"
  have "\<forall>i j. i \<le> j \<and> j < length xs \<and> P (xs ! j) \<longrightarrow> P (xs ! i)"
    using assms unfolding sorted_wrt_iff_nth_less le_less by blast
  from lower_bound_spec [OF le0 this]
  have r: "r \<le> length xs" "\<And>i. i < r \<Longrightarrow> P (xs ! i)" "\<And>i. r \<le> i \<Longrightarrow> i < length xs \<Longrightarrow> \<not> P (xs ! i)"
    unfolding r_def by blast+
  have n: "n \<le> length xs" "n < length xs \<Longrightarrow> \<not> P (xs ! n)"
    by (simp_all add: n_def length_takeWhile_le nth_length_takeWhile)
  have "P (xs ! i)" if "i < n" for i
    using nth_mem [of i "takeWhile P xs"] takeWhile_nth [of i P xs] that by (auto simp: n_def dest: set_takeWhileD)
  then have "\<not> r < n" using r(3) [of r] n(1) by (meson le_refl less_le_trans)
  moreover have "\<not> n < r" using r(1) r(2) [of n] n(2) by linarith
  ultimately show ?thesis by (simp add: r_def n_def)
qed

lemma ordered_ranges_lt:
  assumes "ordered_ranges ds" "i < j" "j < length ds"
  shows "d_last_id (ds ! i) < d_first_id (ds ! j)"
  using assms sorted_wrt_nth_less by (fastforce simp: ordered_ranges_def)

lemma firstDescriptor_takeWhile:
  assumes "ordered_ranges ds"
  shows "firstDescriptorEndingAtOrAfter ds i = length (takeWhile (\<lambda>d. d_last_id d < i) ds)"
proof -
  have "sorted_wrt (\<lambda>d e. d_last_id e < i \<longrightarrow> d_last_id d < i) ds"
    unfolding sorted_wrt_iff_nth_less
    using ordered_ranges_lt [OF assms] assms by (auto simp: ordered_ranges_def) (meson nth_mem le_less_trans less_trans)
  then show ?thesis unfolding firstDescriptorEndingAtOrAfter_def compareDocIds_simps by (rule lower_bound_takeWhile)
qed

section \<open>Properties\<close>

text \<open>
  (C28) A chunk that encodes is read back: under the key minted from its body, and with the descriptor of
  that body, the decoder accepts it and returns the chunk with every document equal to the one given up
  to the order of its members; and no body with another digest is accepted under that key.
\<close>

theorem chunk_roundtrip:
  assumes "encodeSnapshotChunk bytes c = Inr b" and "snapshotChunkKey p (sc_incarnation c) (sha b) = Inr key"
    and "\<forall>x\<in>set p. \<not> is_line_terminator x" and "bytes b \<noteq> 0" and "\<forall>d\<in>set (sc_docs c). wf_json (JObj d)"
  shows "(\<exists>c'. decodeSnapshotChunk bytes sha b key (sc_collection c) (chunk_descriptor bytes c b key) = Inr c' \<and>
      c' = c\<lparr>sc_docs := sc_docs c'\<rparr> \<and>
      list_all2 (\<lambda>d d'. json_equiv (JObj d) (JObj d')) (sc_docs c) (sc_docs c')) \<and>
    (\<forall>b' d' c'. sha b' \<noteq> sha b \<longrightarrow> decodeSnapshotChunk bytes sha b' key (sc_collection c) d' \<noteq> Inr c')"
proof -
  obtain c' where c': "canonicalizeChunk InvalidConfig (chunk_json c) = Inr c'" and b: "b = BJson (chunk_json c')"
    and len: "bytes b \<le> MAX_CHUNK_BYTES" using assms(1) by (auto simp: encode_chunk_Inr)
  have same: "c' = c\<lparr>sc_docs := sc_docs c'\<rparr>"
    and docs: "list_all2 (\<lambda>d d'. canonicalizeDocumentValue InvalidConfig (JObj d) = Inr (JObj d')) (sc_docs c) (sc_docs c')"
    using canonicalizeChunk_json [OF c'] by blast+
  have parse: "parseArtifactKey key ChunkArtifact InvalidResponse =
      Inr \<lparr>pk_prefix = p, pk_incarnation = sc_incarnation c, pk_digest = sha b\<rparr>"
    using assms(2,3) unfolding snapshotChunkKey_def by (rule parse_minted)
  have fields: "sc_collection c' = sc_collection c" "sc_incarnation c' = sc_incarnation c"
    "sc_first_id c' = sc_first_id c" "sc_last_id c' = sc_last_id c" by (subst same, simp)+
  have "chunk_descriptor bytes c b key = chunk_descriptor bytes c' b key"
    using fields list_all2_lengthD [OF docs] by (simp add: chunk_descriptor_def)
  then have "decodeSnapshotChunk bytes sha b key (sc_collection c) (chunk_descriptor bytes c b key) = Inr c'"
    using b len assms(4) parse fields canonicalizeChunk_wf [OF c'] unfolding decode_chunk_Inr by simp
  moreover have "decodeSnapshotChunk bytes sha b' key (sc_collection c) d' \<noteq> Inr c''" if "sha b' \<noteq> sha b" for b' d' c''
    using that parse by (auto simp: decode_chunk_Inr)
  ultimately show ?thesis using same canonical_docs_equiv [OF docs assms(5)] by blast
qed

text \<open>
  (C38) A manifest that encodes is read back unchanged under the key minted from its body, when its chunk
  keys were minted under the same collection prefix.
\<close>

theorem manifest_roundtrip:
  assumes "encodeSnapshotManifest bytes m = Inr b" and "snapshotManifestKey p (sm_incarnation m) (sha b) = Inr key"
    and "\<forall>d\<in>set (sm_chunks m). \<exists>inc dig. snapshotChunkKey p inc dig = Inr (d_key d)"
    and "\<forall>x\<in>set p. \<not> is_line_terminator x" and "bytes b \<noteq> 0"
  shows "decodeSnapshotManifest bytes sha b key (sm_collection m) (sm_log_seq_start m) = Inr m"
proof -
  obtain q where wf: "wf_manifest q m" and b: "b = BJson (manifest_json m)" "bytes b \<le> MAX_MANIFEST_BYTES"
    using assms(1) by (auto simp: encode_manifest_Inr)
  have "wf_descriptor p d" if "d \<in> set (sm_chunks m)" for d
    using assms(3,4) that wf parse_minted [of ChunkArtifact p _ _ "d_key d" InvalidResponse]
    by (fastforce simp: wf_manifest_def wf_descriptor_def snapshotChunkKey_def)
  then have "wf_manifest p m" using wf by (simp add: wf_manifest_def)
  moreover have "parseArtifactKey key ManifestArtifact InvalidResponse =
      Inr \<lparr>pk_prefix = p, pk_incarnation = sm_incarnation m, pk_digest = sha b\<rparr>"
    using assms(2,4) unfolding snapshotManifestKey_def by (rule parse_minted)
  ultimately show ?thesis using b assms(5) decode_manifest_fix [of p m bytes key sha] by simp
qed

text \<open>A chunk of two rows and a manifest of it.\<close>

definition sample_row :: "string \<Rightarrow> doc" where
  "sample_row i = [(''_id'', JStr i)]"

definition sample_chunk :: snapshot_chunk where
  "sample_chunk = \<lparr>sc_collection = ''c'', sc_incarnation = replicate 32 (CHR ''0''), sc_first_id = ''a'',
     sc_last_id = ''b'', sc_docs = [sample_row ''a'', sample_row ''b'']\<rparr>"

definition sample_sha :: "blob \<Rightarrow> string" where
  "sample_sha b = replicate 64 (CHR ''a'')"

definition sample_key :: "artifact \<Rightarrow> string" where
  "sample_key kind = ''p'' @ artifact_tail kind (replicate 32 (CHR ''0'')) (replicate 64 (CHR ''a''))"

definition sample_manifest :: snapshot_manifest where
  "sample_manifest = \<lparr>sm_collection = ''c'', sm_log_seq_start = 7, sm_incarnation = replicate 32 (CHR ''0''),
     sm_chunks = [\<lparr>d_first_id = ''a'', d_last_id = ''b'', d_key = sample_key ChunkArtifact, d_byte_length = 9, d_row_count = 2\<rparr>]\<rparr>"

lemma sample_mint: "mintArtifactKey kind ''p'' (replicate 32 (CHR ''0'')) (replicate 64 (CHR ''a'')) = Inr (sample_key kind)"
proof -
  have "mintArtifactKey ManifestArtifact ''p'' (replicate 32 (CHR ''0'')) (replicate 64 (CHR ''a'')) = Inr (sample_key ManifestArtifact)"
    "mintArtifactKey ChunkArtifact ''p'' (replicate 32 (CHR ''0'')) (replicate 64 (CHR ''a'')) = Inr (sample_key ChunkArtifact)"
    by code_simp+
  then show ?thesis by (cases kind) simp_all
qed

lemma sample_ids: "assertPathSegment ''a'' = Inr ()" "assertPathSegment ''b'' = Inr ()" "assertPathSegment ''c'' = Inr ()"
  by code_simp+

lemma sample_incarnation: "INCARNATION_PATTERN (replicate 32 (CHR ''0''))"
  by code_simp

lemma sample_canonical: "assertPathSegment i = Inr () \<Longrightarrow> canonical_doc (sample_row i)" "doc_id (sample_row i) = i"
  by (simp_all add: canonical_doc_def sample_row_def doc_id_def canonicalizeDocumentValue.simps(6) toSorted_def)

lemma sample_wf: "wf_chunk sample_chunk" "wf_manifest ''p'' sample_manifest"
proof -
  show "wf_chunk sample_chunk"
    using sample_ids sample_incarnation
    by (simp add: wf_chunk_def sample_chunk_def sample_canonical MAX_CHUNK_ROWS_def)
  show "wf_manifest ''p'' sample_manifest"
    using sample_ids sample_incarnation parse_minted [OF sample_mint [of ChunkArtifact], of InvalidResponse]
    by (auto simp: wf_manifest_def wf_descriptor_def ordered_ranges_def sample_manifest_def is_line_terminator_def
        MAX_CHUNK_ROWS_def MAX_CHUNK_BYTES_def MAX_MANIFEST_CHUNKS_def MAX_SAFE_INTEGER_def)
qed

lemma sample_encodes: "encodeSnapshotChunk (\<lambda>_. 9) sample_chunk = Inr (BJson (chunk_json sample_chunk))"
  using canonicalizeChunk_fix [OF sample_wf(1), of InvalidConfig] sample_ids(3)
  by (simp add: encodeSnapshotChunk_def sample_chunk_def MAX_CHUNK_BYTES_def)

lemma sample_manifest_encodes: "encodeSnapshotManifest (\<lambda>_. 9) sample_manifest = Inr (BJson (manifest_json sample_manifest))"
  using sample_wf(2) sample_ids(3) by (auto simp: encode_manifest_Inr sample_manifest_def MAX_MANIFEST_BYTES_def)

theorem chunk_roundtrip_witness:
  "\<exists>b. decodeSnapshotChunk (\<lambda>_. 9) sample_sha b (sample_key ChunkArtifact) ''c''
     (chunk_descriptor (\<lambda>_. 9) sample_chunk b (sample_key ChunkArtifact)) \<in> range Inr"
  using chunk_roundtrip [OF sample_encodes, of "''p''" sample_sha "sample_key ChunkArtifact"] sample_mint [of ChunkArtifact]
  by (auto simp: snapshotChunkKey_def sample_sha_def sample_chunk_def sample_row_def is_line_terminator_def)

theorem manifest_roundtrip_witness:
  "decodeSnapshotManifest (\<lambda>_. 9) sample_sha (BJson (manifest_json sample_manifest)) (sample_key ManifestArtifact) ''c'' 7 =
   Inr sample_manifest"
  using manifest_roundtrip [OF sample_manifest_encodes, of "''p''" sample_sha "sample_key ManifestArtifact"]
    sample_mint [of ManifestArtifact] sample_mint [of ChunkArtifact]
  by (fastforce simp: snapshotChunkKey_def snapshotManifestKey_def sample_sha_def sample_manifest_def is_line_terminator_def)

end
