(* ===== verification/SnapshotView.thy ===== *)
theory SnapshotView
  imports SnapshotChunk
begin

text \<open>
  \<^verbatim>\<open>packages/server/src/snapshot-view.ts\<close>: reading a chunked snapshot. Opening a view reads and
  authenticates the manifest; \<^verbatim>\<open>get\<close> loads the one chunk that may hold an id, \<^verbatim>\<open>scan\<close> the chunks
  of a range in order, \<^verbatim>\<open>materialize\<close> all of them. The generator \<^verbatim>\<open>scan\<close> is modelled by the list of
  all rows it yields to a consumer that runs it to the end. Shown here: the three reads are lookup,
  range filter and contents of one sorted list, the rows of all chunks.
\<close>

section \<open>Model\<close>

definition findDocument :: "doc list \<Rightarrow> string \<Rightarrow> doc option" where
  "findDocument docs i =
     (let low = lower_bound (\<lambda>m. compareDocIds (doc_id (docs ! m)) i < 0) 0 (length docs)
      in if low < length docs \<and> compareDocIds (doc_id (docs ! low)) i = 0 then Some (docs ! low) else None)"

text \<open>The descriptors a view routes by; \<^verbatim>\<open>null\<close> is the key of a collection without a snapshot.\<close>

definition openSnapshotView ::
  "(blob \<Rightarrow> nat) \<Rightarrow> (blob \<Rightarrow> string) \<Rightarrow> string option \<Rightarrow> string \<Rightarrow> nat \<Rightarrow> descriptor list io" where
  "openSnapshotView bytes sha manifestKey collection expectedLogSeqStart =
     (case manifestKey of
        None \<Rightarrow> io_return []
      | Some key \<Rightarrow>
          io_bind (io_get key) (\<lambda>stored.
          case stored of
            None \<Rightarrow> io_throw InvalidResponse
          | Some (b, _) \<Rightarrow>
              io_bind (io_lift (decodeSnapshotManifest bytes sha b key collection expectedLogSeqStart))
                (\<lambda>m. io_return (sm_chunks m))))"

definition loadChunk :: "(blob \<Rightarrow> nat) \<Rightarrow> (blob \<Rightarrow> string) \<Rightarrow> string \<Rightarrow> descriptor \<Rightarrow> doc list io" where
  "loadChunk bytes sha collection d =
     io_bind (io_get (d_key d)) (\<lambda>stored.
     case stored of
       None \<Rightarrow> io_throw InvalidResponse
     | Some (b, _) \<Rightarrow>
         io_bind (io_lift (decodeSnapshotChunk bytes sha b (d_key d) collection d))
           (\<lambda>c. io_return (sc_docs c)))"

definition view_get ::
  "(blob \<Rightarrow> nat) \<Rightarrow> (blob \<Rightarrow> string) \<Rightarrow> string \<Rightarrow> descriptor list \<Rightarrow> string \<Rightarrow> doc option io" where
  "view_get bytes sha collection descriptors docId =
     io_bind (io_lift (assertSnapshotDocId docId)) (\<lambda>_.
     let i = firstDescriptorEndingAtOrAfter descriptors docId
     in if i \<ge> length descriptors \<or> compareDocIds (d_first_id (descriptors ! i)) docId > 0 then io_return None
        else io_bind (loadChunk bytes sha collection (descriptors ! i)) (\<lambda>docs. io_return (findDocument docs docId)))"

text \<open>The rows of one chunk that a scan yields: \<^verbatim>\<open>continue\<close> below the range, \<^verbatim>\<open>break\<close> above it.\<close>

fun yield_rows :: "string option \<Rightarrow> string option \<Rightarrow> doc list \<Rightarrow> (string \<times> doc) list" where
  "yield_rows gte lt [] = []"
| "yield_rows gte lt (d # ds) =
     (if gte \<noteq> None \<and> compareDocIds (doc_id d) (the gte) < 0 then yield_rows gte lt ds
      else if lt \<noteq> None \<and> compareDocIds (doc_id d) (the lt) \<ge> 0 then []
      else (doc_id d, d) # yield_rows gte lt ds)"

fun scan_chunks ::
  "(blob \<Rightarrow> nat) \<Rightarrow> (blob \<Rightarrow> string) \<Rightarrow> string \<Rightarrow> string option \<Rightarrow> string option \<Rightarrow> descriptor list
   \<Rightarrow> (string \<times> doc) list io" where
  "scan_chunks bytes sha collection gte lt [] = io_return []"
| "scan_chunks bytes sha collection gte lt (d # ds) =
     (if lt \<noteq> None \<and> compareDocIds (d_first_id d) (the lt) \<ge> 0 then io_return []
      else
        io_bind (loadChunk bytes sha collection d) (\<lambda>docs.
        io_bind (scan_chunks bytes sha collection gte lt ds) (\<lambda>rest.
        io_return (yield_rows gte lt docs @ rest))))"

definition assert_bound :: "string option \<Rightarrow> unit result" where
  "assert_bound b = (case b of None \<Rightarrow> Inr () | Some i \<Rightarrow> assertSnapshotDocId i)"

definition view_scan ::
  "(blob \<Rightarrow> nat) \<Rightarrow> (blob \<Rightarrow> string) \<Rightarrow> string \<Rightarrow> descriptor list \<Rightarrow> string option \<Rightarrow> string option
   \<Rightarrow> (string \<times> doc) list io" where
  "view_scan bytes sha collection descriptors gte lt =
     io_bind (io_lift (assert_bound gte)) (\<lambda>_.
     io_bind (io_lift (assert_bound lt)) (\<lambda>_.
     if gte \<noteq> None \<and> lt \<noteq> None \<and> compareDocIds (the gte) (the lt) \<ge> 0 then io_return []
     else
       let i = (case gte of None \<Rightarrow> 0 | Some g \<Rightarrow> firstDescriptorEndingAtOrAfter descriptors g)
       in scan_chunks bytes sha collection gte lt (drop i descriptors)))"

definition view_materialize ::
  "(blob \<Rightarrow> nat) \<Rightarrow> (blob \<Rightarrow> string) \<Rightarrow> string \<Rightarrow> descriptor list \<Rightarrow> (string \<times> doc) list io" where
  "view_materialize bytes sha collection descriptors =
     io_bind (view_scan bytes sha collection descriptors None None) (\<lambda>rows. io_return (rows_to_map rows))"

section \<open>The rows of a snapshot\<close>

text \<open>The documents of the chunk a descriptor names, as the store holds it.\<close>

definition chunk_rows ::
  "(blob \<Rightarrow> nat) \<Rightarrow> (blob \<Rightarrow> string) \<Rightarrow> string \<Rightarrow> store \<Rightarrow> descriptor \<Rightarrow> doc list result" where
  "chunk_rows bytes sha collection s d = fst (run (loadChunk bytes sha collection d) s)"

definition keyed :: "doc list \<Rightarrow> (string \<times> doc) list" where
  "keyed ds = map (\<lambda>d. (doc_id d, d)) ds"

text \<open>Descriptors with the rows of their chunks: each chunk within its range, ranges in order.\<close>

definition laid_out :: "descriptor list \<Rightarrow> (descriptor \<Rightarrow> doc list) \<Rightarrow> bool" where
  "laid_out ds rows =
     (ordered_ranges ds \<and>
      (\<forall>d\<in>set ds. sorted_wrt (<) (map doc_id (rows d)) \<and>
        (\<forall>x\<in>set (rows d). d_first_id d \<le> doc_id x \<and> doc_id x \<le> d_last_id d)))"

lemma sorted_ids_bounds:
  assumes "sorted_wrt (<) (map f ds)" "x \<in> set ds"
  shows "f (hd ds) \<le> (f x :: 'a :: linorder)" "f x \<le> f (last ds)"
  using assms
proof (induction ds)
  case (Cons d ds)
  { case 1 then show ?case by auto }
  { case 2 with Cons show ?case by (cases "ds = []") (auto intro: less_imp_le) }
qed auto

lemma run_get: "run (io_get k) s = (memory_get k None s, s)"
  by (simp add: io_get_def split: sum.split)

lemma run_load:
  "run (loadChunk bytes sha coll d) s = (chunk_rows bytes sha coll s d, s)"
  by (auto simp: loadChunk_def chunk_rows_def run_io_bind run_get run_io_lift split: sum.split option.split prod.split)

lemma load_bounds:
  assumes "chunk_rows bytes sha coll s d = Inr docs"
  shows "sorted_wrt (<) (map doc_id docs)" "docs \<noteq> []"
    and "x \<in> set docs \<Longrightarrow> d_first_id d \<le> doc_id x \<and> doc_id x \<le> d_last_id d"
proof -
  obtain b c where c: "decodeSnapshotChunk bytes sha b (d_key d) coll d = Inr c" "docs = sc_docs c"
    using assms by (auto simp: chunk_rows_def loadChunk_def run_io_bind run_get run_io_lift split: sum.splits option.splits)
  then have wf: "wf_chunk c" and d: "d = chunk_descriptor bytes c b (d_key d)"
    unfolding decode_chunk_Inr by blast+
  have "d_first_id d = sc_first_id c" "d_last_id d = sc_last_id c"
    by (subst d, simp add: chunk_descriptor_def)+
  with wf show "sorted_wrt (<) (map doc_id docs)" "docs \<noteq> []" "x \<in> set docs \<Longrightarrow> d_first_id d \<le> doc_id x \<and> doc_id x \<le> d_last_id d"
    using c(2) sorted_ids_bounds [of doc_id docs x] by (auto simp: wf_chunk_def)
qed

lemma open_ordered:
  assumes "fst (run (openSnapshotView bytes sha mk coll start) s) = Inr ds"
  shows "ordered_ranges ds"
proof (cases mk)
  case None
  then show ?thesis using assms by (simp add: openSnapshotView_def ordered_ranges_def)
next
  case (Some key)
  then obtain b m where "decodeSnapshotManifest bytes sha b key coll start = Inr m" "ds = sm_chunks m"
    using assms by (auto simp: openSnapshotView_def run_io_bind run_get run_io_lift split: sum.splits option.splits)
  then show ?thesis using decode_manifest_Inr(4) by (fastforce simp: wf_manifest_def)
qed

lemma laid_out_ConsD:
  assumes "laid_out (d # ds) rows"
  shows "laid_out ds rows" "\<forall>x\<in>set (rows d). \<forall>y\<in>set (concat (map rows ds)). doc_id x < doc_id y"
    and "\<forall>y\<in>set (concat (map rows ds)). d_last_id d < doc_id y"
proof -
  show "laid_out ds rows" using assms by (auto simp: laid_out_def ordered_ranges_def)
  show *: "\<forall>y\<in>set (concat (map rows ds)). d_last_id d < doc_id y"
    using assms by (fastforce simp: laid_out_def ordered_ranges_def intro: less_le_trans)
  show "\<forall>x\<in>set (rows d). \<forall>y\<in>set (concat (map rows ds)). doc_id x < doc_id y"
    using * assms by (fastforce simp: laid_out_def intro: le_less_trans)
qed

lemma laid_out_sorted: "laid_out ds rows \<Longrightarrow> sorted_wrt (<) (map doc_id (concat (map rows ds)))"
proof (induction ds)
  case (Cons d ds)
  note parts = laid_out_ConsD [OF Cons.prems]
  have "sorted_wrt (<) (map doc_id (rows d))" using Cons.prems by (simp add: laid_out_def)
  then show ?case using Cons.IH [OF parts(1)] parts(2) by (auto simp: sorted_wrt_append)
qed simp

section \<open>Lookup\<close>

lemma map_of_keyed_skip: "\<forall>x\<in>set xs. doc_id x \<noteq> i \<Longrightarrow> map_of (keyed (xs @ ys)) i = map_of (keyed ys) i"
  by (induction xs) (auto simp: keyed_def)

lemma map_of_keyed_None: "\<forall>x\<in>set xs. doc_id x \<noteq> i \<Longrightarrow> map_of (keyed xs) i = None"
  using map_of_keyed_skip [of xs i "[]"] by (simp add: keyed_def)

lemma map_of_keyed_cut: "\<forall>y\<in>set ys. doc_id y \<noteq> i \<Longrightarrow> map_of (keyed (xs @ ys)) i = map_of (keyed xs) i"
  using map_of_keyed_None [of ys i] by (induction xs) (auto simp: keyed_def)

lemma findDocument_map_of:
  assumes "sorted_wrt (<) (map doc_id docs)"
  shows "findDocument docs i = map_of (keyed docs) i"
proof -
  let ?P = "\<lambda>d. doc_id d < i"
  define pre post where "pre = takeWhile ?P docs" and "post = dropWhile ?P docs"
  have docs: "docs = pre @ post" by (simp add: pre_def post_def)
  have "sorted_wrt (\<lambda>x y. ?P y \<longrightarrow> ?P x) docs"
    using assms by (auto simp: sorted_wrt_map elim!: sorted_wrt_mono_rel [rotated])
  then have low: "lower_bound (\<lambda>m. compareDocIds (doc_id (docs ! m)) i < 0) 0 (length docs) = length pre"
    using lower_bound_takeWhile [of ?P docs] by (simp add: pre_def)
  have pre: "\<forall>x\<in>set pre. doc_id x \<noteq> i" by (auto simp: pre_def dest: set_takeWhileD)
  show ?thesis
  proof (cases post)
    case Nil
    then show ?thesis using low map_of_keyed_None [OF pre] docs unfolding findDocument_def low Let_def by simp
  next
    case (Cons d ds)
    have d: "\<not> doc_id d < i" using Cons hd_dropWhile [of ?P docs] by (auto simp: post_def)
    have later: "\<forall>x\<in>set ds. doc_id d < doc_id x" using assms docs Cons by (auto simp: sorted_wrt_append)
    have "map_of (keyed docs) i = map_of (keyed (d # ds)) i" using map_of_keyed_skip [OF pre, of post] docs Cons by simp
    also have "\<dots> = (if doc_id d = i then Some d else None)"
      using map_of_keyed_None [of ds i] later d by (force simp: keyed_def)
    finally show ?thesis unfolding findDocument_def low Let_def using docs Cons by simp
  qed
qed

definition in_range :: "string option \<Rightarrow> string option \<Rightarrow> doc \<Rightarrow> bool" where
  "in_range gte lt d =
     ((case gte of None \<Rightarrow> True | Some g \<Rightarrow> g \<le> doc_id d) \<and> (case lt of None \<Rightarrow> True | Some l \<Rightarrow> doc_id d < l))"

lemma yield_rows_filter:
  "sorted_wrt (<) (map doc_id docs) \<Longrightarrow> yield_rows gte lt docs = keyed (filter (in_range gte lt) docs)"
proof (induction docs)
  case (Cons d ds)
  have cut: "filter (in_range gte lt) ds = []" if "lt \<noteq> None" "the lt \<le> doc_id d"
    using Cons.prems that by (force simp: filter_empty_conv in_range_def)
  have "in_range gte lt d \<longleftrightarrow> \<not> (gte \<noteq> None \<and> doc_id d < the gte) \<and> \<not> (lt \<noteq> None \<and> the lt \<le> doc_id d)"
    by (auto simp: in_range_def not_less not_le split: option.splits)
  then show ?case using Cons cut by (cases gte; cases lt) (simp_all add: keyed_def)
qed (simp add: keyed_def)

section \<open>Reads of a laid-out snapshot\<close>

lemma run_view_get:
  assumes "laid_out ds rows" "\<forall>d\<in>set ds. chunk_rows bytes sha coll s d = Inr (rows d)"
    and "assertPathSegment i = Inr ()"
  shows "run (view_get bytes sha coll ds i) s = (Inr (map_of (keyed (concat (map rows ds))) i), s)"
proof -
  let ?P = "\<lambda>d. d_last_id d < i"
  have ord: "ordered_ranges ds" using assms(1) by (simp add: laid_out_def)
  have ds: "ds = takeWhile ?P ds @ dropWhile ?P ds" by simp
  have "\<forall>x\<in>set (concat (map rows (takeWhile ?P ds))). doc_id x \<noteq> i"
    using assms(1) by (fastforce simp: laid_out_def dest: set_takeWhileD)
  from map_of_keyed_skip [OF this]
  have skip: "map_of (keyed (concat (map rows ds))) i = map_of (keyed (concat (map rows (dropWhile ?P ds)))) i"
    by (metis concat_append ds map_append)
  show ?thesis
  proof (cases "dropWhile ?P ds")
    case Nil
    then have "length (takeWhile ?P ds) = length ds" by (metis append_Nil2 takeWhile_dropWhile_id)
    then show ?thesis
      using skip Nil assms(3)
      by (simp add: view_get_def run_io_bind run_io_lift firstDescriptor_takeWhile [OF ord] keyed_def)
  next
    case (Cons d es)
    have d: "ds ! length (takeWhile ?P ds) = d" "\<not> length ds \<le> length (takeWhile ?P ds)"
      using ds Cons by (metis nth_append_length, metis append_Nil2 append_eq_conv_conj list.distinct(1) take_all)
    have "\<not> d_last_id d < i" using Cons hd_dropWhile [of ?P ds] by simp
    moreover have lo: "laid_out (d # es) rows" using assms(1) ds Cons
      by (metis (no_types, lifting) laid_out_def ordered_ranges_def Un_iff set_append sorted_wrt_append)
    ultimately have later: "\<forall>x\<in>set (concat (map rows es)). doc_id x \<noteq> i" using laid_out_ConsD(3) [OF lo] by fastforce
    have eq: "map_of (keyed (concat (map rows ds))) i = map_of (keyed (rows d)) i"
      using skip Cons map_of_keyed_cut [OF later, of "rows d"] by simp
    have "d \<in> set ds" using Cons ds by (metis in_set_conv_decomp)
    then have rows: "chunk_rows bytes sha coll s d = Inr (rows d)" "sorted_wrt (<) (map doc_id (rows d))"
      using assms(1,2) by (simp_all add: laid_out_def)
    show ?thesis
    proof (cases "i < d_first_id d")
      case True
      then have "map_of (keyed (rows d)) i = None"
        using lo by (intro map_of_keyed_None) (fastforce simp: laid_out_def)
      then show ?thesis
        using True d eq assms(3) by (simp add: view_get_def run_io_bind run_io_lift firstDescriptor_takeWhile [OF ord])
    next
      case False
      then show ?thesis
        using d eq rows assms(3) findDocument_map_of [OF rows(2)]
        by (simp add: view_get_def run_io_bind run_io_lift run_load firstDescriptor_takeWhile [OF ord])
    qed
  qed
qed

lemma run_scan_chunks:
  assumes "laid_out ds rows" "\<forall>d\<in>set ds. chunk_rows bytes sha coll s d = Inr (rows d)"
  shows "run (scan_chunks bytes sha coll gte lt ds) s = (Inr (keyed (filter (in_range gte lt) (concat (map rows ds)))), s)"
  using assms
proof (induction ds)
  case (Cons d ds)
  note parts = laid_out_ConsD [OF Cons.prems(1)]
  have IH: "run (scan_chunks bytes sha coll gte lt ds) s = (Inr (keyed (filter (in_range gte lt) (concat (map rows ds)))), s)"
    using Cons parts(1) by simp
  have d: "sorted_wrt (<) (map doc_id (rows d))" "chunk_rows bytes sha coll s d = Inr (rows d)"
    using Cons.prems by (simp_all add: laid_out_def)
  show ?case
  proof (cases "\<exists>l. lt = Some l \<and> l \<le> d_first_id d")
    case True
    then obtain l where l: "lt = Some l" "l \<le> d_first_id d" by blast
    have "\<not> in_range gte lt x" if "x \<in> set (rows d) \<union> set (concat (map rows ds))" for x
    proof -
      have "d_first_id d \<le> d_last_id d" using Cons.prems(1) by (simp add: laid_out_def ordered_ranges_def)
      then have "l \<le> doc_id x"
        using that l parts(3) Cons.prems(1) by (fastforce simp: laid_out_def)
      then show ?thesis using l by (simp add: in_range_def not_less)
    qed
    then have "filter (in_range gte lt) (rows d @ concat (map rows ds)) = []" by (auto simp: filter_empty_conv)
    then show ?thesis using l by (simp add: keyed_def)
  next
    case False
    then show ?thesis
      using IH d yield_rows_filter [OF d(1), of gte lt]
      by (auto simp: run_io_bind run_load keyed_def)
  qed
qed (simp add: keyed_def)

lemma run_view_scan:
  assumes "laid_out ds rows" "\<forall>d\<in>set ds. chunk_rows bytes sha coll s d = Inr (rows d)"
    and "assert_bound gte = Inr ()" "assert_bound lt = Inr ()"
  shows "run (view_scan bytes sha coll ds gte lt) s = (Inr (keyed (filter (in_range gte lt) (concat (map rows ds)))), s)"
proof (cases gte)
  case None
  then show ?thesis
    using run_scan_chunks [OF assms(1,2)] assms(3,4) by (simp add: view_scan_def run_io_bind run_io_lift)
next
  case (Some g)
  let ?P = "\<lambda>d. d_last_id d < g"
  have ds: "ds = takeWhile ?P ds @ dropWhile ?P ds" by simp
  have ord: "ordered_ranges ds" using assms(1) by (simp add: laid_out_def)
  have "laid_out (dropWhile ?P ds) rows" "\<forall>d\<in>set (dropWhile ?P ds). chunk_rows bytes sha coll s d = Inr (rows d)"
    using assms(1,2) ds
    by (metis (no_types, lifting) laid_out_def ordered_ranges_def Un_iff set_append sorted_wrt_append, meson set_dropWhileD)
  note scan = run_scan_chunks [OF this, of gte lt]
  have "\<not> in_range gte lt x" if "x \<in> set (concat (map rows (takeWhile ?P ds)))" for x
    using that Some assms(1) by (fastforce simp: laid_out_def in_range_def dest: set_takeWhileD)
  then have "filter (in_range gte lt) (concat (map rows (takeWhile ?P ds))) = []" by (auto simp: filter_empty_conv)
  then have all: "filter (in_range gte lt) (concat (map rows ds)) = filter (in_range gte lt) (concat (map rows (dropWhile ?P ds)))"
    by (metis append_Nil concat_append ds filter_append map_append)
  have drop: "drop (length (takeWhile ?P ds)) ds = dropWhile ?P ds" by (rule dropWhile_eq_drop [symmetric])
  show ?thesis
  proof (cases "\<exists>l. lt = Some l \<and> l \<le> g")
    case True
    then have "filter (in_range gte lt) (concat (map rows ds)) = []"
      using Some by (auto simp: filter_empty_conv in_range_def)
    then show ?thesis using True Some assms(3,4) by (auto simp: view_scan_def run_io_bind run_io_lift keyed_def)
  next
    case False
    then show ?thesis
      using Some assms(3,4) scan all drop
      by (auto simp: view_scan_def run_io_bind run_io_lift firstDescriptor_takeWhile [OF ord])
  qed
qed

section \<open>Properties\<close>

lemma laid_out_rows:
  assumes "ordered_ranges ds" "\<forall>d\<in>set ds. chunk_rows bytes sha coll s d = Inr (rows d)"
  shows "laid_out ds rows"
  using assms load_bounds by (fastforce simp: laid_out_def)

lemma keyed_rows_to_map:
  assumes "sorted_wrt (<) (map doc_id R)"
  shows "rows_to_map (keyed R) = keyed R"
proof -
  have "distinct (map doc_id R)" using assms strict_sorted_iff by blast
  then show ?thesis by (intro rows_to_map_id) (simp add: keyed_def comp_def)
qed

text \<open>
  (C34) A view of a snapshot whose chunks are all readable is one list of rows in strictly increasing order
  of their ids: \<^verbatim>\<open>get\<close> looks an id up in it (loading at most one chunk), \<^verbatim>\<open>scan\<close> returns exactly its rows
  in the range, in order, \<^verbatim>\<open>materialize\<close> all of them, and none of the reads changes the store.
\<close>

theorem snapshot_view_reads:
  assumes "run (openSnapshotView bytes sha manifestKey coll start) s = (Inr ds, s)"
    and "\<forall>d\<in>set ds. chunk_rows bytes sha coll s d = Inr (rows d)"
  shows "sorted_wrt (<) (map doc_id (concat (map rows ds))) \<and>
    (\<forall>i. assertSnapshotDocId i = Inr () \<longrightarrow>
      run (view_get bytes sha coll ds i) s = (Inr (map_of (keyed (concat (map rows ds))) i), s)) \<and>
    (\<forall>gte lt. assert_bound gte = Inr () \<and> assert_bound lt = Inr () \<longrightarrow>
      run (view_scan bytes sha coll ds gte lt) s =
        (Inr (keyed (filter (in_range gte lt) (concat (map rows ds)))), s)) \<and>
    run (view_materialize bytes sha coll ds) s = (Inr (keyed (concat (map rows ds))), s)"
proof -
  have lo: "laid_out ds rows" using open_ordered [of bytes sha manifestKey coll start s ds] assms
    by (intro laid_out_rows) simp_all
  have all: "filter (in_range None None) xs = xs" for xs by (simp add: in_range_def)
  have "run (view_scan bytes sha coll ds None None) s = (Inr (keyed (concat (map rows ds))), s)"
    using run_view_scan [OF lo assms(2), of None None] by (simp add: assert_bound_def all)
  then have "run (view_materialize bytes sha coll ds) s = (Inr (keyed (concat (map rows ds))), s)"
    by (simp add: view_materialize_def run_io_bind keyed_rows_to_map laid_out_sorted [OF lo])
  then show ?thesis
    using laid_out_sorted [OF lo] run_view_get [OF lo assms(2)] run_view_scan [OF lo assms(2)] by simp
qed

definition sample_store :: store where
  "sample_store = \<lparr>objects =
     [(sample_key ManifestArtifact, \<lparr>body = BJson (manifest_json sample_manifest), etag = etag_of 1\<rparr>),
      (sample_key ChunkArtifact, \<lparr>body = BJson (chunk_json sample_chunk), etag = etag_of 2\<rparr>)], etagCounter = 2\<rparr>"

lemma sample_store_get:
  "memory_get (sample_key ManifestArtifact) None sample_store = Inr (Some (BJson (manifest_json sample_manifest), etag_of 1))"
  "memory_get (sample_key ChunkArtifact) None sample_store = Inr (Some (BJson (chunk_json sample_chunk), etag_of 2))"
proof -
  have "valid_key (sample_key ManifestArtifact)" "valid_key (sample_key ChunkArtifact)"
    "sample_key ManifestArtifact \<noteq> sample_key ChunkArtifact" by code_simp+
  then show "memory_get (sample_key ManifestArtifact) None sample_store = Inr (Some (BJson (manifest_json sample_manifest), etag_of 1))"
    "memory_get (sample_key ChunkArtifact) None sample_store = Inr (Some (BJson (chunk_json sample_chunk), etag_of 2))"
    by (simp_all add: memory_get_def sample_store_def)
qed

lemma sample_decodes:
  "decodeSnapshotManifest (\<lambda>_. 9) sample_sha (BJson (manifest_json sample_manifest)) (sample_key ManifestArtifact) ''c'' 7 =
     Inr sample_manifest"
  "decodeSnapshotChunk (\<lambda>_. 9) sample_sha (BJson (chunk_json sample_chunk)) (sample_key ChunkArtifact) ''c''
     (hd (sm_chunks sample_manifest)) = Inr sample_chunk"
proof -
  have line: "\<forall>x\<in>set ''p''. \<not> is_line_terminator x" by (simp add: is_line_terminator_def)
  have "decodeSnapshotManifest (\<lambda>_. 9) sample_sha (BJson (manifest_json sample_manifest)) (sample_key ManifestArtifact)
      (sm_collection sample_manifest) (sm_log_seq_start sample_manifest) = Inr sample_manifest"
    using parse_minted [OF sample_mint line, of ManifestArtifact InvalidResponse]
    by (intro decode_manifest_fix [OF sample_wf(2)]) (auto simp: sample_manifest_def sample_sha_def MAX_MANIFEST_BYTES_def)
  then show "decodeSnapshotManifest (\<lambda>_. 9) sample_sha (BJson (manifest_json sample_manifest)) (sample_key ManifestArtifact) ''c'' 7 =
     Inr sample_manifest" by (simp add: sample_manifest_def)
  show "decodeSnapshotChunk (\<lambda>_. 9) sample_sha (BJson (chunk_json sample_chunk)) (sample_key ChunkArtifact) ''c''
     (hd (sm_chunks sample_manifest)) = Inr sample_chunk"
    unfolding decode_chunk_Inr using sample_wf(1) parse_minted [OF sample_mint line, of ChunkArtifact InvalidResponse]
    by (auto simp: sample_chunk_def sample_manifest_def sample_sha_def chunk_descriptor_def MAX_CHUNK_BYTES_def)
qed

theorem snapshot_view_reads_witness:
  "\<exists>ds. run (openSnapshotView (\<lambda>_. 9) sample_sha (Some (sample_key ManifestArtifact)) ''c'' 7) sample_store = (Inr ds, sample_store) \<and>
     run (view_get (\<lambda>_. 9) sample_sha ''c'' ds ''b'') sample_store = (Inr (Some (sample_row ''b'')), sample_store) \<and>
     run (view_scan (\<lambda>_. 9) sample_sha ''c'' ds None (Some ''b'')) sample_store = (Inr [(''a'', sample_row ''a'')], sample_store)"
proof -
  let ?ds = "sm_chunks sample_manifest" and ?rows = "\<lambda>_. sc_docs sample_chunk"
  have op: "run (openSnapshotView (\<lambda>_. 9) sample_sha (Some (sample_key ManifestArtifact)) ''c'' 7) sample_store = (Inr ?ds, sample_store)"
    by (simp add: openSnapshotView_def run_io_bind run_io_lift run_get sample_store_get sample_decodes)
  have rows: "\<forall>d\<in>set ?ds. chunk_rows (\<lambda>_. 9) sample_sha ''c'' sample_store d = Inr (?rows d)"
    using sample_decodes(2) sample_store_get(2)
    by (simp add: sample_manifest_def chunk_rows_def loadChunk_def run_io_bind run_io_lift run_get)
  have R: "concat (map ?rows ?ds) = [sample_row ''a'', sample_row ''b'']" by (simp add: sample_manifest_def sample_chunk_def)
  show ?thesis
    using snapshot_view_reads [OF op rows] op sample_ids
    by (intro exI [of _ ?ds]) (auto simp: R assert_bound_def keyed_def sample_canonical in_range_def)
qed

end
