(* ===== verification/ChunkBuilder.thy ===== *)
theory ChunkBuilder
  imports SnapshotView Writer
begin

text \<open>
  \<^verbatim>\<open>packages/server/src/snapshot-chunk-builder.ts\<close>, which rewrites the chunks a batch of mutations
  touches, and \<^verbatim>\<open>chunked-snapshot-reference.ts\<close>, the fold it has to agree with. Mutations are routed
  to the chunk whose range holds their id (or to a neighbour of the gap it falls in), each touched
  group is rebuilt, split greedily by rows and bytes, and one under-full output may absorb an
  untouched neighbour. The split loop need not end, so the operations that use it return an option,
  \<open>None\<close> standing for a call that never returns.
\<close>

section \<open>Calls that may not return\<close>

type_synonym 'a call_outcome = "'a result option"

definition out_bind :: "'a call_outcome \<Rightarrow> ('a \<Rightarrow> 'b call_outcome) \<Rightarrow> 'b call_outcome" where
  "out_bind m f = (case m of None \<Rightarrow> None | Some (Inl e) \<Rightarrow> Some (Inl e) | Some (Inr x) \<Rightarrow> f x)"

lemma out_bind_Inr [simp]: "out_bind m f = Some (Inr y) \<longleftrightarrow> (\<exists>x. m = Some (Inr x) \<and> f x = Some (Inr y))"
  by (auto simp: out_bind_def split: option.splits sum.splits)

lemma out_bind_simps [simp]:
  "out_bind None f = None" "out_bind (Some (Inl e)) f = Some (Inl e)" "out_bind (Some (Inr x)) f = f x"
  by (simp_all add: out_bind_def)

section \<open>Mutations and the reference fold\<close>

text \<open>\<^verbatim>\<open>ReferenceMutation\<close>; a delete has no post-image, \<open>None\<close> is \<^verbatim>\<open>undefined\<close>.\<close>

record mutation =
  mu_op :: log_op
  mu_doc_id :: string
  mu_after :: "doc option"

definition apply_mutation :: "mutation \<Rightarrow> (string \<times> doc) list \<Rightarrow> (string \<times> doc) list" where
  "apply_mutation mut docs =
     (if mu_op mut = OpD then obj_del (mu_doc_id mut) docs else obj_set (mu_doc_id mut) (the (mu_after mut)) docs)"

text \<open>The document values of the format: no \<^verbatim>\<open>null\<close>, no infinity, no NaN.\<close>

fun assertDocumentValue :: "json \<Rightarrow> bool" where
  "assertDocumentValue (JStr s) = True"
| "assertDocumentValue (JBool b) = True"
| "assertDocumentValue (JNum n) = isFinite n"
| "assertDocumentValue JNull = False"
| "assertDocumentValue (JArr xs) = (\<forall>x\<in>set xs. assertDocumentValue x)"
| "assertDocumentValue (JObj fs) = (\<forall>p\<in>set fs. assertDocumentValue (snd p))"

definition assertDocument :: "doc \<Rightarrow> string \<Rightarrow> unit result" where
  "assertDocument d i =
     result_bind (guard InvalidResponse (assertDocumentValue (JObj d))) (\<lambda>_.
     result_bind (assertCodecDocId InvalidResponse (map_of d ''_id'')) (\<lambda>storedId.
     guard InvalidResponse (storedId = i)))"

fun reference_rows :: "(string \<times> doc) list \<Rightarrow> (string \<times> doc) list \<Rightarrow> (string \<times> doc) list result" where
  "reference_rows documents [] = Inr documents"
| "reference_rows documents ((i, b) # rows) =
     result_bind (assertCodecDocId InvalidResponse (Some (JStr i))) (\<lambda>_.
     result_bind (assertDocument b i) (\<lambda>_.
     result_bind (guard InvalidResponse (i \<notin> set (obj_keys documents))) (\<lambda>_.
     reference_rows (obj_set i b documents) rows)))"

fun reference_mutations :: "(string \<times> doc) list \<Rightarrow> mutation list \<Rightarrow> (string \<times> doc) list result" where
  "reference_mutations documents [] = Inr documents"
| "reference_mutations documents (mut # muts) =
     result_bind (assertCodecDocId InvalidResponse (Some (JStr (mu_doc_id mut)))) (\<lambda>_.
     if mu_op mut = OpD then reference_mutations (obj_del (mu_doc_id mut) documents) muts
     else (case mu_after mut of
         None \<Rightarrow> throw InvalidResponse
       | Some aft \<Rightarrow>
           result_bind (assertDocument aft (mu_doc_id mut)) (\<lambda>_.
           reference_mutations (obj_set (mu_doc_id mut) aft documents) muts)))"

definition compare_reference_rows :: "string \<times> doc \<Rightarrow> string \<times> doc \<Rightarrow> int" where
  "compare_reference_rows l r = compareDocIds (fst l) (fst r)"

definition foldChunkedSnapshotReference :: "(string \<times> doc) list \<Rightarrow> mutation list \<Rightarrow> (string \<times> doc) list result" where
  "foldChunkedSnapshotReference rows mutations =
     result_bind (reference_rows [] rows) (\<lambda>documents.
     result_bind (reference_mutations documents mutations) (\<lambda>documents'.
     Inr (toSorted compare_reference_rows documents')))"

section \<open>Policy and routing\<close>

record policy =
  target_chunk_bytes :: nat
  target_rows :: nat

definition CHUNK_BOUNDARY_POLICIES :: "(string \<times> policy) list" where
  "CHUNK_BOUNDARY_POLICIES =
     [(''c128-r512'', \<lparr>target_chunk_bytes = MAX_CHUNK_BYTES div 8 + 4 * 1024, target_rows = 512\<rparr>),
      (''c512-r2048'', \<lparr>target_chunk_bytes = 512 * 1024, target_rows = 2048\<rparr>),
      (''c1024-r4096'', \<lparr>target_chunk_bytes = 1024 * 1024, target_rows = 4096\<rparr>)]"

definition routeMutationToDescriptor :: "string \<Rightarrow> log_op \<Rightarrow> descriptor list \<Rightarrow> nat option" where
  "routeMutationToDescriptor docId op descriptors =
     (if descriptors = [] then None
      else
        let low = firstDescriptorEndingAtOrAfter descriptors docId
        in if low < length descriptors then
             (if compareDocIds (d_first_id (descriptors ! low)) docId \<le> 0 then Some low
              else if op = OpD then None
              else if low = 0 then Some 0
              else Some (low - 1))
           else if op = OpD then None
           else Some (length descriptors - 1))"

definition deriveOwnerAndNeighbor :: "nat list \<Rightarrow> nat \<Rightarrow> nat option \<times> nat option" where
  "deriveOwnerAndNeighbor directIndexes descriptorCount =
     (if directIndexes = [] \<or> descriptorCount = 0 then (None, None)
      else
        let leftmost = foldr min directIndexes (hd directIndexes)
        in (Some leftmost,
            if leftmost + 1 < descriptorCount then Some (leftmost + 1)
            else if 1 \<le> leftmost then Some (leftmost - 1) else None))"

text \<open>\<^verbatim>\<open>x < t / 2\<close> on JavaScript numbers, without the fraction.\<close>

definition isUnderfull :: "nat \<Rightarrow> nat \<Rightarrow> policy \<Rightarrow> bool" where
  "isUnderfull byteLength rowCount pol =
     (2 * byteLength < target_chunk_bytes pol \<and> 2 * rowCount < target_rows pol)"

definition getLoadedDocs :: "(string \<times> doc list) list \<Rightarrow> descriptor \<Rightarrow> doc list result" where
  "getLoadedDocs loadedChunks d =
     (case map_of loadedChunks (d_key d) of None \<Rightarrow> throw InvalidResponse | Some docs \<Rightarrow> Inr docs)"

definition areDocListsEqual :: "doc list \<Rightarrow> doc list \<Rightarrow> bool" where
  "areDocListsEqual left right = list_all2 (\<lambda>l r. BJson (JObj l) = BJson (JObj r)) left right"

section \<open>Splitting a group\<close>

text \<open>A split output: its documents and their encoded chunk.\<close>

type_synonym split_item = "doc list \<times> blob"

definition candidate_chunk :: "string \<Rightarrow> string \<Rightarrow> doc list \<Rightarrow> snapshot_chunk" where
  "candidate_chunk collection incarnation docs =
     \<lparr>sc_collection = collection, sc_incarnation = incarnation, sc_first_id = doc_id (hd docs),
      sc_last_id = doc_id (last docs), sc_docs = docs\<rparr>"

text \<open>
  \<^verbatim>\<open>encodeBuilderChunk\<close> rethrows the over-size failure with another code and the same message, so
  \<^verbatim>\<open>isChunkOversizeError\<close> still recognises it; what leaves the builder is \<open>builder_exn\<close>.
\<close>

definition encodeBuilderChunk :: "(blob \<Rightarrow> nat) \<Rightarrow> snapshot_chunk \<Rightarrow> encode_failure + blob" where
  "encodeBuilderChunk bytes chunk = encodeSnapshotChunk bytes chunk"

fun builder_exn :: "encode_failure \<Rightarrow> exn" where
  "builder_exn Oversize = BaerlyError InvalidResponse False"
| "builder_exn (Refused e) = e"

text \<open>
  The inner loop, from the longest candidate of \<open>n\<close> documents down; \<open>None\<close> when it is not entered at all.
\<close>

fun fit_chunk :: "(blob \<Rightarrow> nat) \<Rightarrow> string \<Rightarrow> string \<Rightarrow> policy \<Rightarrow> doc list \<Rightarrow> nat \<Rightarrow> split_item call_outcome" where
  "fit_chunk bytes collection incarnation pol docs 0 = None"
| "fit_chunk bytes collection incarnation pol docs (Suc n) =
     (let cand = take (Suc n) docs
      in case encodeBuilderChunk bytes (candidate_chunk collection incarnation cand) of
           Inl e \<Rightarrow>
             if \<not> isChunkOversizeError e \<or> n = 0 then Some (Inl (builder_exn e))
             else fit_chunk bytes collection incarnation pol docs n
         | Inr b \<Rightarrow>
             if bytes b \<le> target_chunk_bytes pol \<or> n = 0 then Some (Inr (cand, b))
             else fit_chunk bytes collection incarnation pol docs n)"

text \<open>The outer loop: when the inner one is not entered, it runs again with nothing changed.\<close>

partial_function (option) splitGroupDocsGreedily ::
  "(blob \<Rightarrow> nat) \<Rightarrow> string \<Rightarrow> string \<Rightarrow> policy \<Rightarrow> doc list \<Rightarrow> split_item list call_outcome" where
  "splitGroupDocsGreedily bytes collection incarnation pol docs =
     (if docs = [] then Some (Inr [])
      else (case fit_chunk bytes collection incarnation pol docs (min (target_rows pol) (length docs)) of
          None \<Rightarrow> splitGroupDocsGreedily bytes collection incarnation pol docs
        | Some (Inl e) \<Rightarrow> Some (Inl e)
        | Some (Inr (cand, b)) \<Rightarrow>
            Option.bind (splitGroupDocsGreedily bytes collection incarnation pol (drop (length cand) docs))
              (\<lambda>rest. Some (case rest of Inl e \<Rightarrow> Inl e | Inr items \<Rightarrow> Inr ((cand, b) # items)))))"

section \<open>The facing merge\<close>

record build_input =
  bi_collection :: string
  bi_prefix :: string
  bi_descriptors :: "descriptor list"
  bi_loaded :: "(string \<times> doc list) list"
  bi_mutations :: "(string \<times> mutation) list"
  bi_incarnation :: string
  bi_policy :: policy
  bi_owner :: "nat option"
  bi_neighbor :: "nat option"

text \<open>
  The outputs of the owner group after the merge, and the neighbour they absorbed. The owner outputs
  are \<open>None\<close> when the group was not rewritten.
\<close>

definition applyFacingMerge ::
  "(blob \<Rightarrow> nat) \<Rightarrow> build_input \<Rightarrow> nat \<Rightarrow> nat \<Rightarrow> nat list \<Rightarrow> nat list \<Rightarrow> split_item list option
   \<Rightarrow> (split_item list \<times> nat option) result" where
  "applyFacingMerge bytes input ownerIndex neighborIndex direct unchanged ownerSplitChunks =
     (case ownerSplitChunks of
        None \<Rightarrow> Inr ([], None)
      | Some items \<Rightarrow>
        let count = length (bi_descriptors input); pol = bi_policy input in
        if items = [] then Inr (items, None)
        else if ownerIndex \<ge> count \<or> neighborIndex \<ge> count then Inr (items, None)
        else if ownerIndex \<notin> set direct \<or> ownerIndex \<in> set unchanged \<or> neighborIndex \<in> set direct then Inr (items, None)
        else if neighborIndex \<noteq> ownerIndex + 1 \<and> \<not> (neighborIndex + 1 = ownerIndex \<and> ownerIndex = count - 1)
        then Inr (items, None)
        else
          let facingRight = (neighborIndex = ownerIndex + 1);
              facing = (if facingRight then length items - 1 else 0);
              (facingDocs, facingBytes) = items ! facing
          in if \<not> isUnderfull (bytes facingBytes) (length facingDocs) pol then Inr (items, None)
             else
               result_bind (getLoadedDocs (bi_loaded input) (bi_descriptors input ! neighborIndex)) (\<lambda>neighborDocs.
               let combined = (if facingRight then facingDocs @ neighborDocs else neighborDocs @ facingDocs) in
               case encodeBuilderChunk bytes (candidate_chunk (bi_collection input) (bi_incarnation input) combined) of
                 Inl e \<Rightarrow> Inl (builder_exn e)
               | Inr b \<Rightarrow>
                   if bytes b > target_chunk_bytes pol \<or> length combined > target_rows pol then Inr (items, None)
                   else Inr (items[facing := (combined, b)], Some neighborIndex)))"

section \<open>Minting\<close>

record build_result =
  br_chunks :: "descriptor list"
  br_changed :: "(descriptor \<times> blob) list"
  br_split_increments :: nat
  br_used_neighbor :: "nat option"

definition appendChunkOutput ::
  "(blob \<Rightarrow> nat) \<Rightarrow> (blob \<Rightarrow> string) \<Rightarrow> string \<Rightarrow> string \<Rightarrow> split_item \<Rightarrow> (descriptor \<times> blob) result" where
  "appendChunkOutput bytes sha collectionPrefix incarnation item =
     (let (docs, b) = item in
      result_bind (snapshotChunkKey collectionPrefix incarnation (sha b)) (\<lambda>key.
      Inr (\<lparr>d_first_id = doc_id (hd docs), d_last_id = doc_id (last docs), d_key = key,
            d_byte_length = bytes b, d_row_count = length docs\<rparr>, b)))"

text \<open>\<^verbatim>\<open>mint\<close> is a thunk of pure values, so the evaluation holds its result.\<close>

record evaluation =
  ev_split_increments :: nat
  ev_used_neighbor :: "nat option"
  ev_mint :: "build_result result"

definition mint_items ::
  "(blob \<Rightarrow> nat) \<Rightarrow> (blob \<Rightarrow> string) \<Rightarrow> string \<Rightarrow> string \<Rightarrow> split_item list \<Rightarrow> (descriptor \<times> blob) list result" where
  "mint_items bytes sha collectionPrefix incarnation items =
     result_map (appendChunkOutput bytes sha collectionPrefix incarnation) items"

section \<open>The builder\<close>

definition compare_docs :: "doc \<Rightarrow> doc \<Rightarrow> int" where
  "compare_docs a b = compareDocIds (doc_id a) (doc_id b)"

definition updated_docs :: "(string \<times> doc) list \<Rightarrow> mutation list \<Rightarrow> doc list" where
  "updated_docs docMap mutations = toSorted compare_docs (map snd (fold apply_mutation mutations docMap))"

definition evaluateInitialEmptyChunks ::
  "(blob \<Rightarrow> nat) \<Rightarrow> (blob \<Rightarrow> string) \<Rightarrow> build_input \<Rightarrow> evaluation call_outcome" where
  "evaluateInitialEmptyChunks bytes sha input =
     (let updatedDocs = updated_docs [] (map snd (bi_mutations input)) in
      if updatedDocs = [] then
        Some (Inr \<lparr>ev_split_increments = 0, ev_used_neighbor = None,
          ev_mint = Inr \<lparr>br_chunks = [], br_changed = [], br_split_increments = 0, br_used_neighbor = None\<rparr>\<rparr>)
      else
        out_bind (splitGroupDocsGreedily bytes (bi_collection input) (bi_incarnation input) (bi_policy input) updatedDocs) (\<lambda>items.
        Some (Inr \<lparr>ev_split_increments = length items - 1, ev_used_neighbor = None,
          ev_mint = result_bind (mint_items bytes sha (bi_prefix input) (bi_incarnation input) items) (\<lambda>outs.
            Inr \<lparr>br_chunks = map fst outs, br_changed = outs, br_split_increments = length items - 1,
                 br_used_neighbor = None\<rparr>)\<rparr>)))"

fun check_mutations :: "(string \<times> mutation) list \<Rightarrow> unit result" where
  "check_mutations [] = Inr ()"
| "check_mutations ((docId, mut) # rest) =
     result_bind (assertSnapshotDocId docId) (\<lambda>_.
     result_bind (guard InvalidConfig (docId = mu_doc_id mut)) (\<lambda>_.
     result_bind (if mu_op mut \<noteq> OpD then assertPostImageIdentity docId (mu_after mut) InvalidConfig else Inr ()) (\<lambda>_.
     check_mutations rest)))"

text \<open>\<^verbatim>\<open>groupMutations\<close>: the mutations of each touched descriptor, in the order of the first touch.\<close>

fun group_mutations ::
  "descriptor list \<Rightarrow> (string \<times> mutation) list \<Rightarrow> (nat \<times> mutation list) list \<Rightarrow> (nat \<times> mutation list) list" where
  "group_mutations descriptors [] grps = grps"
| "group_mutations descriptors ((docId, mut) # rest) grps =
     group_mutations descriptors rest
       (case routeMutationToDescriptor docId (mu_op mut) descriptors of
          None \<Rightarrow> grps
        | Some target \<Rightarrow>
            obj_set target ((case map_of grps target of None \<Rightarrow> [] | Some l \<Rightarrow> l) @ [mut]) grps)"

record rewrite_state =
  rewritten :: "(nat \<times> split_item list) list"
  unchangedGroups :: "nat list"
  totalSplitIncrements :: nat

definition rewrite_group :: "(blob \<Rightarrow> nat) \<Rightarrow> build_input \<Rightarrow> nat \<Rightarrow> mutation list \<Rightarrow> rewrite_state \<Rightarrow> rewrite_state call_outcome" where
  "rewrite_group bytes input groupIndex mutations st =
     out_bind (Some (getLoadedDocs (bi_loaded input) (bi_descriptors input ! groupIndex))) (\<lambda>initialDocs.
     let updatedDocs = updated_docs (rows_to_map (keyed initialDocs)) mutations in
     if areDocListsEqual initialDocs updatedDocs
     then Some (Inr (st\<lparr>unchangedGroups := groupIndex # unchangedGroups st\<rparr>))
     else if updatedDocs = [] then Some (Inr (st\<lparr>rewritten := obj_set groupIndex [] (rewritten st)\<rparr>))
     else
       out_bind (splitGroupDocsGreedily bytes (bi_collection input) (bi_incarnation input) (bi_policy input) updatedDocs) (\<lambda>items.
       Some (Inr (st\<lparr>rewritten := obj_set groupIndex items (rewritten st),
                     totalSplitIncrements := totalSplitIncrements st + (length items - 1)\<rparr>))))"

fun rewrite_groups ::
  "(blob \<Rightarrow> nat) \<Rightarrow> build_input \<Rightarrow> (nat \<times> mutation list) list \<Rightarrow> rewrite_state \<Rightarrow> rewrite_state call_outcome" where
  "rewrite_groups bytes input [] st = Some (Inr st)"
| "rewrite_groups bytes input ((g, muts) # rest) st =
     out_bind (rewrite_group bytes input g muts st) (\<lambda>st'. rewrite_groups bytes input rest st')"

text \<open>The loop of \<^verbatim>\<open>mint\<close> over the descriptors from index \<open>i\<close> on.\<close>

fun mint_from ::
  "(blob \<Rightarrow> nat) \<Rightarrow> (blob \<Rightarrow> string) \<Rightarrow> build_input \<Rightarrow> nat list \<Rightarrow> nat list \<Rightarrow> (nat \<times> split_item list) list
   \<Rightarrow> nat option \<Rightarrow> nat \<Rightarrow> descriptor list \<Rightarrow> (descriptor list \<times> (descriptor \<times> blob) list) result" where
  "mint_from bytes sha input direct unchanged rewr used i [] = Inr ([], [])"
| "mint_from bytes sha input direct unchanged rewr used i (d # ds) =
     (if used = Some i then mint_from bytes sha input direct unchanged rewr used (i + 1) ds
      else if i \<notin> set direct \<or> i \<in> set unchanged then
        result_bind (mint_from bytes sha input direct unchanged rewr used (i + 1) ds) (\<lambda>(fs, cs). Inr (d # fs, cs))
      else
        result_bind (mint_items bytes sha (bi_prefix input) (bi_incarnation input)
          (case map_of rewr i of None \<Rightarrow> [] | Some items \<Rightarrow> items)) (\<lambda>outs.
        result_bind (mint_from bytes sha input direct unchanged rewr used (i + 1) ds) (\<lambda>(fs, cs).
        Inr (map fst outs @ fs, outs @ cs))))"

definition evaluateSnapshotChunks ::
  "(blob \<Rightarrow> nat) \<Rightarrow> (blob \<Rightarrow> string) \<Rightarrow> build_input \<Rightarrow> evaluation call_outcome" where
  "evaluateSnapshotChunks bytes sha input =
     out_bind (Some (guard InvalidConfig (bi_collection input \<noteq> []))) (\<lambda>_.
     out_bind (Some (guard InvalidConfig (bi_prefix input \<noteq> [] \<and> last (bi_prefix input) \<noteq> CHR ''/''))) (\<lambda>_.
     out_bind (Some (guard InvalidConfig (INCARNATION_PATTERN (bi_incarnation input)))) (\<lambda>_.
     out_bind (Some (check_mutations (bi_mutations input))) (\<lambda>_.
     if bi_descriptors input = [] then evaluateInitialEmptyChunks bytes sha input
     else
       let grps = group_mutations (bi_descriptors input) (bi_mutations input) [];
           direct = obj_keys grps in
       out_bind (rewrite_groups bytes input grps \<lparr>rewritten = [], unchangedGroups = [], totalSplitIncrements = 0\<rparr>) (\<lambda>st.
       out_bind (Some (case (bi_owner input, bi_neighbor input) of
           (Some own, Some neighbor) \<Rightarrow>
             result_bind (applyFacingMerge bytes input own neighbor direct (unchangedGroups st) (map_of (rewritten st) own))
               (\<lambda>(items, used). Inr (if used = None then rewritten st else obj_set own items (rewritten st), used))
         | _ \<Rightarrow> Inr (rewritten st, None))) (\<lambda>(rewr, used).
       Some (Inr \<lparr>ev_split_increments = totalSplitIncrements st, ev_used_neighbor = used,
         ev_mint = result_bind
           (mint_from bytes sha input direct (unchangedGroups st) rewr used 0 (bi_descriptors input))
           (\<lambda>(chunks, changed). Inr \<lparr>br_chunks = chunks, br_changed = changed,
              br_split_increments = totalSplitIncrements st, br_used_neighbor = used\<rparr>)\<rparr>)))))))"

definition buildSnapshotChunks ::
  "(blob \<Rightarrow> nat) \<Rightarrow> (blob \<Rightarrow> string) \<Rightarrow> build_input \<Rightarrow> build_result call_outcome" where
  "buildSnapshotChunks bytes sha input =
     out_bind (evaluateSnapshotChunks bytes sha input) (\<lambda>ev. Some (ev_mint ev))"

end
