(* ===== verification/ChunkFold.thy ===== *)
theory ChunkFold
  imports ChunkBuilder
begin

text \<open>
  Correctness of the chunk builder of \<open>ChunkBuilder\<close>: the split loop ends for every policy with a positive
  row target and for no other, the outputs of a group are its documents in order, and the snapshot a
  build publishes reads as the reference fold of the old rows with the mutations.
\<close>

section \<open>The split loop\<close>

lemma fit_chunk_Inr:
  "fit_chunk bytes coll inc pol docs n = Some (Inr (cand, b)) \<Longrightarrow>
     \<exists>k. 0 < k \<and> k \<le> n \<and> cand = take k docs \<and> encodeSnapshotChunk bytes (candidate_chunk coll inc cand) = Inr b"
proof (induction n)
  case (Suc n)
  then show ?case
    by (auto simp: Let_def encodeBuilderChunk_def split: sum.splits if_splits intro: le_SucI)
qed simp

lemma fit_chunk_returns: "0 < n \<Longrightarrow> \<exists>r. fit_chunk bytes coll inc pol docs n = Some r"
proof (induction n)
  case (Suc n)
  then show ?case by (cases "n = 0") (auto simp: Let_def split: sum.splits)
qed simp

lemma split_unfold: "docs \<noteq> [] \<Longrightarrow> fit_chunk bytes coll inc pol docs (min (target_rows pol) (length docs)) = Some r \<Longrightarrow>
    splitGroupDocsGreedily bytes coll inc pol docs =
     (case r of Inl e \<Rightarrow> Some (Inl e)
      | Inr (cand, b) \<Rightarrow>
            Option.bind (splitGroupDocsGreedily bytes coll inc pol (drop (length cand) docs))
              (\<lambda>rest. Some (case rest of Inl e \<Rightarrow> Inl e | Inr items \<Rightarrow> Inr ((cand, b) # items))))"
  by (subst splitGroupDocsGreedily.simps) (simp split: sum.split)

lemma split_returns:
  assumes "0 < target_rows pol"
  shows "\<exists>r. splitGroupDocsGreedily bytes coll inc pol docs = Some r"
proof (induction docs rule: length_induct)
  case (1 docs)
  show ?case
  proof (cases "docs = []")
    case True
    then show ?thesis by (simp add: splitGroupDocsGreedily.simps)
  next
    case False
    then obtain r where r: "fit_chunk bytes coll inc pol docs (min (target_rows pol) (length docs)) = Some r"
      using fit_chunk_returns [of "min (target_rows pol) (length docs)" bytes coll inc pol docs] assms by auto
    show ?thesis
    proof (cases r)
      case (Inr p)
      obtain cand b where p: "p = (cand, b)" by (cases p)
      then have "0 < length cand" using fit_chunk_Inr r Inr False by fastforce
      then have "length (drop (length cand) docs) < length docs" using False by simp
      then obtain r' where "splitGroupDocsGreedily bytes coll inc pol (drop (length cand) docs) = Some r'" using 1 by blast
      then show ?thesis using split_unfold [OF False r] Inr p by simp
    qed (simp add: split_unfold [OF False r])
  qed
qed

lemma split_never_returns:
  assumes "target_rows pol = 0" "docs \<noteq> []"
  shows "splitGroupDocsGreedily bytes coll inc pol docs = None"
proof -
  have "pol' = pol \<longrightarrow> docs' = []" if "splitGroupDocsGreedily bytes' coll' inc' pol' docs' = Some r" for bytes' coll' inc' pol' docs' r
    using that
  proof (rule splitGroupDocsGreedily.raw_induct [rotated])
    fix f bytes coll inc pol' docs r
    assume IH: "\<And>bytes coll inc pol' docs r. f bytes coll inc pol' docs = Some r \<Longrightarrow> pol' = pol \<longrightarrow> docs = []"
      and step: "(if docs = [] then Some (Inr [])
      else (case fit_chunk bytes coll inc pol' docs (min (target_rows pol') (length docs)) of
          None \<Rightarrow> f bytes coll inc pol' docs
        | Some (Inl e) \<Rightarrow> Some (Inl e)
        | Some (Inr (cand, b)) \<Rightarrow>
            Option.bind (f bytes coll inc pol' (drop (length cand) docs))
              (\<lambda>rest. Some (case rest of Inl e \<Rightarrow> Inl e | Inr items \<Rightarrow> Inr ((cand, b) # items))))) = Some r"
    show "pol' = pol \<longrightarrow> docs = []"
      using step IH [of bytes coll inc pol' docs r] assms(1) by (auto split: if_splits)
  qed
  then show ?thesis using assms(2) by (cases "splitGroupDocsGreedily bytes coll inc pol docs") auto
qed

definition item_ok :: "(blob \<Rightarrow> nat) \<Rightarrow> string \<Rightarrow> string \<Rightarrow> split_item \<Rightarrow> bool" where
  "item_ok bytes coll inc item =
     (fst item \<noteq> [] \<and> encodeSnapshotChunk bytes (candidate_chunk coll inc (fst item)) = Inr (snd item))"

lemma split_items:
  assumes "0 < target_rows pol" "splitGroupDocsGreedily bytes coll inc pol docs = Some (Inr items)"
  shows "concat (map fst items) = docs \<and> (\<forall>item\<in>set items. item_ok bytes coll inc item) \<and>
     (\<forall>item\<in>set items. length (fst item) \<le> target_rows pol)"
  using assms(2)
proof (induction docs arbitrary: items rule: length_induct)
  case (1 docs)
  show ?case
  proof (cases "docs = []")
    case True
    then show ?thesis using 1(2) by (simp add: splitGroupDocsGreedily.simps)
  next
    case False
    then obtain r where r: "fit_chunk bytes coll inc pol docs (min (target_rows pol) (length docs)) = Some r"
      using fit_chunk_returns [of "min (target_rows pol) (length docs)" bytes coll inc pol docs] assms(1) by auto
    note unf = 1(2) [unfolded split_unfold [OF False r]]
    obtain cand b where cand: "r = Inr (cand, b)" using unf by (cases r) auto
    obtain rest where items: "items = (cand, b) # rest"
      and rest: "splitGroupDocsGreedily bytes coll inc pol (drop (length cand) docs) = Some (Inr rest)"
      using unf unfolding cand
      by (cases "splitGroupDocsGreedily bytes coll inc pol (drop (length cand) docs)") (auto split: sum.splits)
    obtain k where k: "0 < k" "k \<le> min (target_rows pol) (length docs)" "cand = take k docs"
        "encodeSnapshotChunk bytes (candidate_chunk coll inc cand) = Inr b"
      using fit_chunk_Inr [OF r [unfolded cand]] by blast
    have len: "length cand = k" using k(2,3) by simp
    have "length (drop (length cand) docs) < length docs" using False k(1) len by simp
    from 1(1) [rule_format, OF this rest]
    have IH: "concat (map fst rest) = drop (length cand) docs" "\<forall>item\<in>set rest. item_ok bytes coll inc item"
      "\<forall>item\<in>set rest. length (fst item) \<le> target_rows pol"
      by blast+
    have "cand @ drop (length cand) docs = docs" using k(3) unfolding len by simp
    moreover have "cand \<noteq> []" using len k(1) by auto
    ultimately show ?thesis using IH items k(2,4) len by (simp add: item_ok_def)
  qed
qed

section \<open>Documents after mutations\<close>

text \<open>A document map whose entries are filed under their own id.\<close>

definition idmap :: "(string \<times> doc) list \<Rightarrow> bool" where
  "idmap m = (distinct (obj_keys m) \<and> (\<forall>p\<in>set m. doc_id (snd p) = fst p))"

definition mut_ok :: "mutation \<Rightarrow> bool" where
  "mut_ok u = (mu_op u = OpD \<or> (\<exists>d. mu_after u = Some d \<and> map_of d ''_id'' = Some (JStr (mu_doc_id u))))"

definition mut_effect :: "mutation \<Rightarrow> doc option" where
  "mut_effect u = (if mu_op u = OpD then None else mu_after u)"

definition muts_at :: "mutation list \<Rightarrow> string \<Rightarrow> mutation option" where
  "muts_at muts x = map_of (map (\<lambda>u. (mu_doc_id u, u)) muts) x"

lemma set_obj_set: "p \<in> set (obj_set k v xs) \<Longrightarrow> p = (k, v) \<or> p \<in> set xs"
  by (induction k v xs rule: obj_set.induct) (auto split: if_splits)

lemma idmap_apply: "idmap m \<Longrightarrow> mut_ok u \<Longrightarrow> idmap (apply_mutation u m)"
proof -
  assume m: "idmap m" and u: "mut_ok u"
  have "doc_id d = mu_doc_id u" if "mu_op u \<noteq> OpD" "mu_after u = Some d" for d
    using u that by (simp add: mut_ok_def doc_id_def)
  moreover have "p \<in> set m" if "p \<in> set (obj_del k m)" for p k using that by (auto simp: obj_del_def)
  ultimately show "idmap (apply_mutation u m)"
    using m u by (auto simp: idmap_def mut_ok_def apply_mutation_def dest!: set_obj_set)
qed

lemma idmap_fold: "idmap m \<Longrightarrow> \<forall>u\<in>set muts. mut_ok u \<Longrightarrow> idmap (fold apply_mutation muts m)"
  by (induction muts arbitrary: m) (auto simp: idmap_apply)

lemma muts_at_None: "muts_at muts x = None \<longleftrightarrow> x \<notin> mu_doc_id ` set muts"
  by (simp add: muts_at_def map_of_eq_None_iff image_image)

lemma fold_apply_map:
  assumes "distinct (map mu_doc_id muts)" "\<forall>u\<in>set muts. mut_ok u"
  shows "map_of (fold apply_mutation muts m) x =
    (case muts_at muts x of None \<Rightarrow> map_of m x | Some u \<Rightarrow> mut_effect u)"
  using assms
proof (induction muts arbitrary: m)
  case (Cons u us)
  have one: "map_of (apply_mutation u m) x = (if x = mu_doc_id u then mut_effect u else map_of m x)"
    using Cons.prems(2) by (auto simp: apply_mutation_def mut_effect_def mut_ok_def)
  have none: "x = mu_doc_id u \<Longrightarrow> muts_at us x = None" using Cons.prems(1) by (auto simp: muts_at_None)
  have "muts_at (u # us) x = (if x = mu_doc_id u then Some u else muts_at us x)" by (simp add: muts_at_def)
  then show ?case using Cons.IH [of "apply_mutation u m"] Cons.prems one none by (auto split: option.split)
qed (simp add: muts_at_def)

lemma insert_by_docs: "insert_by compare_docs x xs = insort_key doc_id x xs"
  by (induction xs) (auto simp: compare_docs_def)

lemma toSorted_docs: "toSorted compare_docs xs = sort_key doc_id xs"
  by (induction xs) (simp_all add: toSorted_def insert_by_docs)

lemma keyed_insort: "keyed (insort_key doc_id x xs) = insort_key fst (doc_id x, x) (keyed xs)"
  by (induction xs) (auto simp: keyed_def)

lemma keyed_sort: "keyed (sort_key doc_id xs) = sort_key fst (keyed xs)"
  by (induction xs) (simp_all add: keyed_insort, simp_all add: keyed_def)

lemma keyed_values: "idmap m \<Longrightarrow> keyed (map snd m) = m"
  by (induction m) (auto simp: keyed_def idmap_def)

lemma obj_keys_keyed [simp]: "obj_keys (keyed ds) = map doc_id ds"
  by (simp add: keyed_def)

lemma strictly_sorted: "sorted_wrt (<) (xs :: string list) \<longleftrightarrow> sorted xs \<and> distinct xs"
  by (simp add: strict_sorted_iff)

lemma updated_docs_spec:
  assumes "idmap m" "\<forall>u\<in>set muts. mut_ok u"
  shows "sorted_wrt (<) (map doc_id (updated_docs m muts))"
    and "map_of (keyed (updated_docs m muts)) = map_of (fold apply_mutation muts m)"
    and "set (updated_docs m muts) = snd ` set (fold apply_mutation muts m)"
proof -
  let ?F = "fold apply_mutation muts m"
  have F: "idmap ?F" by (rule idmap_fold [OF assms])
  have k: "keyed (updated_docs m muts) = sort_key fst ?F"
    by (simp add: updated_docs_def toSorted_docs keyed_sort keyed_values [OF F])
  then have "map doc_id (updated_docs m muts) = sort (obj_keys ?F)" by (metis map_fst_sort obj_keys_keyed)
  then show "sorted_wrt (<) (map doc_id (updated_docs m muts))" using F by (simp add: strictly_sorted idmap_def)
  show "map_of (keyed (updated_docs m muts)) = map_of ?F"
    unfolding k using F by (intro map_of_sort_key) (simp add: idmap_def)
  show "set (updated_docs m muts) = snd ` set ?F" by (simp add: updated_docs_def)
qed

lemma sorted_keyed_unique:
  assumes "sorted_wrt (<) (map doc_id xs)" "sorted_wrt (<) (map doc_id ys)" "map_of (keyed xs) = map_of (keyed ys)"
  shows "xs = ys"
proof -
  have id: "sort_key fst (keyed zs) = keyed zs" if "sorted_wrt (<) (map doc_id zs)" for zs
    using that by (intro sort_key_id_if_sorted) (simp add: strictly_sorted keyed_def comp_def)
  have "keyed xs = keyed ys"
    using sort_rows_unique [of "keyed xs" "keyed ys"] assms by (simp add: id strictly_sorted)
  then have "map snd (keyed xs) = map snd (keyed ys)" by simp
  then show ?thesis by (simp add: keyed_def comp_def)
qed

lemma idmap_keyed: "sorted_wrt (<) (map doc_id ds) \<Longrightarrow> idmap (keyed ds)"
  by (auto simp: idmap_def strictly_sorted keyed_def comp_def)

section \<open>Regions\<close>

text \<open>The descriptor an id belongs to: the last one that starts at or before it, else the first.\<close>

definition region :: "descriptor list \<Rightarrow> string \<Rightarrow> nat" where
  "region ds x = length (takeWhile (\<lambda>d. d_first_id d \<le> x) ds) - 1"

lemma length_takeWhile_mono: "(\<And>x. P x \<Longrightarrow> Q x) \<Longrightarrow> length (takeWhile P xs) \<le> length (takeWhile Q xs)"
  by (induction xs) auto

lemma region_mono: "x \<le> y \<Longrightarrow> region ds x \<le> region ds y"
  unfolding region_def by (intro diff_le_mono length_takeWhile_mono) (rule order_trans)

lemma region_less: "ds \<noteq> [] \<Longrightarrow> region ds x < length ds"
  using length_takeWhile_le [of "\<lambda>d. d_first_id d \<le> x" ds] by (cases ds) (auto simp: region_def)

lemma length_takeWhileI:
  assumes "n \<le> length xs" "\<And>i. i < n \<Longrightarrow> P (xs ! i)" "n < length xs \<Longrightarrow> \<not> P (xs ! n)"
  shows "length (takeWhile P xs) = n"
  using takeWhile_eq_take_P_nth [of n xs P] assms by simp

lemma takeWhile_lt: "i < length (takeWhile P xs) \<Longrightarrow> P (xs ! i)"
  by (metis nth_mem set_takeWhileD takeWhile_nth)

lemma region_cases:
  fixes x :: string
  assumes "ordered_ranges ds" "ds \<noteq> []"
  defines "n \<equiv> firstDescriptorEndingAtOrAfter ds x"
  shows "n < length ds \<Longrightarrow> d_first_id (ds ! n) \<le> x \<Longrightarrow> region ds x = n"
    and "n < length ds \<Longrightarrow> x < d_first_id (ds ! n) \<Longrightarrow> region ds x = n - 1"
    and "n \<ge> length ds \<Longrightarrow> region ds x = length ds - 1"
proof -
  have n: "n = length (takeWhile (\<lambda>d. d_last_id d < x) ds)" using firstDescriptor_takeWhile [OF assms(1)] by (simp add: n_def)
  have le: "d_first_id (ds ! i) \<le> d_last_id (ds ! i)" if "i < length ds" for i
    using assms(1) that by (simp add: ordered_ranges_def)
  have n_le: "n \<le> length ds" using length_takeWhile_le n by metis
  have before: "d_first_id (ds ! i) \<le> x" if "i < n" for i
    using takeWhile_lt [of i "\<lambda>d. d_last_id d < x" ds] that n n_le le [of i] by fastforce
  have at: "\<not> d_last_id (ds ! n) < x" if "n < length ds" using nth_length_takeWhile [of "\<lambda>d. d_last_id d < x" ds] that n by simp
  show "region ds x = n" if "n < length ds" "d_first_id (ds ! n) \<le> x"
  proof -
    have "\<not> d_first_id (ds ! Suc n) \<le> x" if "Suc n < length ds"
      using ordered_ranges_lt [OF assms(1), of n "Suc n"] at that by fastforce
    then have "length (takeWhile (\<lambda>d. d_first_id d \<le> x) ds) = Suc n"
      using that before by (intro length_takeWhileI) (auto simp: less_Suc_eq)
    then show ?thesis by (simp add: region_def)
  qed
  show "region ds x = n - 1" if "n < length ds" "x < d_first_id (ds ! n)"
    using that before n_le unfolding region_def by (subst length_takeWhileI [of n]) (auto simp: not_le)
  show "region ds x = length ds - 1" if "n \<ge> length ds"
    using that before n_le unfolding region_def by (subst length_takeWhileI [of "length ds"]) auto
qed

lemma route_region:
  assumes "ordered_ranges ds" "ds \<noteq> []"
  shows "routeMutationToDescriptor x op ds = Some k \<Longrightarrow> k = region ds x"
    and "op \<noteq> OpD \<Longrightarrow> routeMutationToDescriptor x op ds = Some (region ds x)"
    and "routeMutationToDescriptor x op ds = None \<Longrightarrow> op = OpD \<and> (\<forall>d\<in>set ds. \<not> (d_first_id d \<le> x \<and> x \<le> d_last_id d))"
proof -
  let ?n = "firstDescriptorEndingAtOrAfter ds x"
  note rc = region_cases [OF assms, of x]
  show "routeMutationToDescriptor x op ds = Some k \<Longrightarrow> k = region ds x"
    and "op \<noteq> OpD \<Longrightarrow> routeMutationToDescriptor x op ds = Some (region ds x)"
    using assms(2) rc by (auto simp: routeMutationToDescriptor_def Let_def not_le not_less split: if_splits)
  have n: "?n = length (takeWhile (\<lambda>d. d_last_id d < x) ds)" using firstDescriptor_takeWhile [OF assms(1)] .
  assume none: "routeMutationToDescriptor x op ds = None"
  then have gap: "op = OpD" "?n < length ds \<Longrightarrow> x < d_first_id (ds ! ?n)"
    using assms(2) by (auto simp: routeMutationToDescriptor_def Let_def not_le split: if_splits)
  have "\<not> (d_first_id (ds ! i) \<le> x \<and> x \<le> d_last_id (ds ! i))" if "i < length ds" for i
  proof (cases "i < ?n")
    case True
    then show ?thesis using takeWhile_lt [of i "\<lambda>d. d_last_id d < x" ds] n by auto
  next
    case False
    have "d_first_id (ds ! ?n) \<le> d_last_id (ds ! ?n)" using assms(1) False that by (simp add: ordered_ranges_def)
    then have "d_first_id (ds ! ?n) \<le> d_first_id (ds ! i)"
      using ordered_ranges_lt [OF assms(1), of ?n i] that False by (cases "i = ?n") auto
    then show ?thesis using gap(2) that False by auto
  qed
  then show "op = OpD \<and> (\<forall>d\<in>set ds. \<not> (d_first_id d \<le> x \<and> x \<le> d_last_id d))" using gap(1) by (auto simp: in_set_conv_nth)
qed

lemma row_region:
  assumes "ordered_ranges ds" "i < length ds" "d_first_id (ds ! i) \<le> x" "x \<le> d_last_id (ds ! i)"
  shows "region ds x = i"
proof -
  have "length (takeWhile (\<lambda>d. d_last_id d < x) ds) = i"
    using assms ordered_ranges_lt [OF assms(1)] by (intro length_takeWhileI) (auto simp: not_less intro: less_le_trans)
  then have "firstDescriptorEndingAtOrAfter ds x = i" using firstDescriptor_takeWhile [OF assms(1)] by simp
  then show ?thesis using region_cases(1) [OF assms(1), of x] assms by fastforce
qed

section \<open>Groups\<close>

definition routed :: "descriptor list \<Rightarrow> (string \<times> mutation) list \<Rightarrow> nat \<Rightarrow> mutation list" where
  "routed ds muts k = map snd (filter (\<lambda>(i, u). routeMutationToDescriptor i (mu_op u) ds = Some k) muts)"

definition group_of :: "(nat \<times> mutation list) list \<Rightarrow> nat \<Rightarrow> mutation list" where
  "group_of g k = (case map_of g k of None \<Rightarrow> [] | Some l \<Rightarrow> l)"

lemma group_mutations_spec:
  assumes "distinct (obj_keys g)" "\<forall>k. map_of g k \<noteq> Some []"
  shows "distinct (obj_keys (group_mutations ds muts g))" "\<forall>k. map_of (group_mutations ds muts g) k \<noteq> Some []"
    "group_of (group_mutations ds muts g) k = group_of g k @ routed ds muts k"
  using assms
proof (induction ds muts g rule: group_mutations.induct)
  case (2 ds i u rest g)
  let ?g = "case routeMutationToDescriptor i (mu_op u) ds of None \<Rightarrow> g
    | Some t \<Rightarrow> obj_set t (group_of g t @ [u]) g"
  have step: "group_mutations ds ((i, u) # rest) g = group_mutations ds rest ?g"
    by (simp add: group_of_def split: option.split)
  have g: "distinct (obj_keys ?g)" "\<forall>k. map_of ?g k \<noteq> Some []" if "distinct (obj_keys g)" "\<forall>k. map_of g k \<noteq> Some []"
    using that by (auto split: option.splits simp del: map_of_eq_Some_iff)
  have one: "group_of ?g k = group_of g k @ (if routeMutationToDescriptor i (mu_op u) ds = Some k then [u] else [])"
    by (auto simp: group_of_def split: option.splits)
  note IH = 2 [unfolded group_of_def [symmetric]]
  { case 1 show ?case unfolding step using IH(1) g 1 by blast }
  { case 2 show ?case unfolding step using IH(2) g 2 by blast }
  { case 3 show ?case unfolding step using IH(3) g 3 one by (simp add: routed_def) }
qed (simp_all add: routed_def)

lemma grouped:
  fixes ds muts
  defines "g \<equiv> group_mutations ds muts []"
  shows "distinct (obj_keys g)" "map_of g k = (if routed ds muts k = [] then None else Some (routed ds muts k))"
proof -
  have g: "distinct (obj_keys g)" "map_of g k \<noteq> Some []" "group_of g k = routed ds muts k"
    using group_mutations_spec [of "[]" ds muts] by (simp_all only: g_def group_of_def) auto
  show "distinct (obj_keys g)" by (rule g)
  show "map_of g k = (if routed ds muts k = [] then None else Some (routed ds muts k))"
    using g(2) unfolding g(3) [symmetric] by (simp only: group_of_def split: option.split) simp
qed

lemma areDocListsEqual_eq [simp]: "areDocListsEqual l r \<longleftrightarrow> l = r"
  by (simp only: areDocListsEqual_def blob.inject json.inject list.rel_eq)

text \<open>What the builder knows of a group when it has rewritten it.\<close>

definition group_done :: "(blob \<Rightarrow> nat) \<Rightarrow> build_input \<Rightarrow> rewrite_state \<Rightarrow> nat \<Rightarrow> mutation list \<Rightarrow> bool" where
  "group_done bytes input st k us =
     (\<exists>docs. getLoadedDocs (bi_loaded input) (bi_descriptors input ! k) = Inr docs \<and>
       (let upd = updated_docs (rows_to_map (keyed docs)) us in
        if upd = docs then k \<in> set (unchangedGroups st)
        else k \<notin> set (unchangedGroups st) \<and>
          (\<exists>items. map_of (rewritten st) k = Some items \<and> concat (map fst items) = upd \<and>
            (\<forall>item\<in>set items. item_ok bytes (bi_collection input) (bi_incarnation input) item))))"

lemma rewrite_group_done:
  assumes "rewrite_group bytes input k us st = Some (Inr st')" "0 < target_rows (bi_policy input)" "k \<notin> set (unchangedGroups st)"
  shows "group_done bytes input st' k us"
    and "j \<noteq> k \<Longrightarrow> map_of (rewritten st') j = map_of (rewritten st) j \<and> (j \<in> set (unchangedGroups st') \<longleftrightarrow> j \<in> set (unchangedGroups st))"
proof -
  obtain docs where docs: "getLoadedDocs (bi_loaded input) (bi_descriptors input ! k) = Inr docs"
    using assms(1) by (auto simp: rewrite_group_def)
  let ?upd = "updated_docs (rows_to_map (keyed docs)) us"
  consider "docs = ?upd" "st' = st\<lparr>unchangedGroups := k # unchangedGroups st\<rparr>"
    | "docs \<noteq> ?upd" "?upd = []" "st' = st\<lparr>rewritten := obj_set k [] (rewritten st)\<rparr>"
    | items where "docs \<noteq> ?upd"
        "splitGroupDocsGreedily bytes (bi_collection input) (bi_incarnation input) (bi_policy input) ?upd = Some (Inr items)"
        "st' = st\<lparr>rewritten := obj_set k items (rewritten st),
                     totalSplitIncrements := totalSplitIncrements st + (length items - 1)\<rparr>"
    using assms(1) docs by (auto simp: rewrite_group_def Let_def split: if_splits)
  then have "group_done bytes input st' k us \<and>
    (\<forall>j. j \<noteq> k \<longrightarrow> map_of (rewritten st') j = map_of (rewritten st) j \<and> (j \<in> set (unchangedGroups st') \<longleftrightarrow> j \<in> set (unchangedGroups st)))"
  proof cases
    case (3 items)
    then show ?thesis using docs assms(3) split_items [OF assms(2) 3(2)] by (auto simp: group_done_def Let_def)
  qed (use docs assms(3) in \<open>auto simp: group_done_def Let_def\<close>)
  then show "group_done bytes input st' k us"
    and "j \<noteq> k \<Longrightarrow> map_of (rewritten st') j = map_of (rewritten st) j \<and> (j \<in> set (unchangedGroups st') \<longleftrightarrow> j \<in> set (unchangedGroups st))"
    by blast+
qed

lemma group_done_other:
  assumes "group_done bytes input st k us" "map_of (rewritten st') k = map_of (rewritten st) k"
    "k \<in> set (unchangedGroups st') \<longleftrightarrow> k \<in> set (unchangedGroups st)"
  shows "group_done bytes input st' k us"
  using assms(1) unfolding group_done_def assms(2,3) .

lemma rewrite_groups_done:
  assumes "rewrite_groups bytes input gs st = Some (Inr st')" "0 < target_rows (bi_policy input)"
    and "distinct (obj_keys gs)" "\<forall>k\<in>set (obj_keys gs). k \<notin> set (unchangedGroups st)"
  shows "(\<forall>(k, us)\<in>set gs. group_done bytes input st' k us) \<and>
    (\<forall>j. j \<notin> set (obj_keys gs) \<longrightarrow> map_of (rewritten st') j = map_of (rewritten st) j \<and>
       (j \<in> set (unchangedGroups st') \<longleftrightarrow> j \<in> set (unchangedGroups st)))"
  using assms
proof (induction gs arbitrary: st)
  case (Cons g gs)
  obtain k us where g: "g = (k, us)" by (cases g)
  then obtain st1 where st1: "rewrite_group bytes input k us st = Some (Inr st1)" "rewrite_groups bytes input gs st1 = Some (Inr st')"
    using Cons.prems(1) by auto
  note one = rewrite_group_done [OF st1(1) assms(2)]
  have k: "k \<notin> set (unchangedGroups st)" "k \<notin> set (obj_keys gs)" using Cons.prems(3,4) g by auto
  have "\<forall>j\<in>set (obj_keys gs). j \<notin> set (unchangedGroups st1)"
    using one(2) [OF k(1)] Cons.prems(4) g k(2) by (metis list.set_intros(2) list.simps(9))
  then have IH: "(\<forall>(k, us)\<in>set gs. group_done bytes input st' k us) \<and>
    (\<forall>j. j \<notin> set (obj_keys gs) \<longrightarrow> map_of (rewritten st') j = map_of (rewritten st1) j \<and>
       (j \<in> set (unchangedGroups st') \<longleftrightarrow> j \<in> set (unchangedGroups st1)))"
    using Cons.prems(3) g by (intro Cons.IH [OF st1(2) assms(2)]) auto
  then have "group_done bytes input st' k us" using group_done_other [OF one(1) [OF k(1)]] k(2) by blast
  then show ?case using IH one(2) [OF k(1)] g by simp
qed simp

section \<open>Outputs\<close>

definition minted :: "(blob \<Rightarrow> nat) \<Rightarrow> (blob \<Rightarrow> string) \<Rightarrow> build_input \<Rightarrow> descriptor \<Rightarrow> doc list \<Rightarrow> blob \<Rightarrow> bool" where
  "minted bytes sha input d docs b =
     (item_ok bytes (bi_collection input) (bi_incarnation input) (docs, b) \<and>
      (\<exists>key. snapshotChunkKey (bi_prefix input) (bi_incarnation input) (sha b) = Inr key \<and>
        d = \<lparr>d_first_id = doc_id (hd docs), d_last_id = doc_id (last docs), d_key = key,
             d_byte_length = bytes b, d_row_count = length docs\<rparr>))"

definition items_ok :: "(blob \<Rightarrow> nat) \<Rightarrow> build_input \<Rightarrow> split_item list \<Rightarrow> bool" where
  "items_ok bytes input items =
     (\<forall>item\<in>set items. item_ok bytes (bi_collection input) (bi_incarnation input) item)"

text \<open>
  The outputs of a build as descriptors with the documents of their chunks: each is an old chunk
  carried over or a minted one.
\<close>

definition outputs ::
  "(blob \<Rightarrow> nat) \<Rightarrow> (blob \<Rightarrow> string) \<Rightarrow> build_input \<Rightarrow> (descriptor \<Rightarrow> doc list) \<Rightarrow> descriptor set
   \<Rightarrow> (descriptor \<times> blob) list \<Rightarrow> (descriptor \<times> doc list) list \<Rightarrow> bool" where
  "outputs bytes sha input rows old changed segs =
     (\<forall>(d, docs)\<in>set segs. (d \<in> old \<and> docs = rows d) \<or> (\<exists>b. (d, b) \<in> set changed \<and> minted bytes sha input d docs b))"

lemma mint_items_outputs:
  assumes "mint_items bytes sha (bi_prefix input) (bi_incarnation input) items = Inr outs" "items_ok bytes input items"
  shows "\<exists>segs. map fst segs = map fst outs \<and> concat (map snd segs) = concat (map fst items) \<and>
    outputs bytes sha input rows {} outs segs"
proof -
  let ?mint = "appendChunkOutput bytes sha (bi_prefix input) (bi_incarnation input)"
  have all: "list_all2 (\<lambda>item out. ?mint item = Inr out) items outs"
    using assms(1) by (simp add: mint_items_def result_map_Inr)
  have one: "minted bytes sha input d docs b" if "?mint (docs, c) = Inr (d, b)" "(docs, c) \<in> set items" for d docs b c
    using that assms(2) by (auto simp: appendChunkOutput_def minted_def items_ok_def)
  let ?segs = "zip (map fst outs) (map fst items)"
  have "\<exists>b. (d, b) \<in> set outs \<and> minted bytes sha input d docs b" if "(d, docs) \<in> set ?segs" for d docs
  proof -
    note seg = that
    obtain i where i: "i < length outs" "i < length items" "d = fst (outs ! i)" "docs = fst (items ! i)"
      using seg unfolding in_set_zip by auto
    then have "?mint (docs, snd (items ! i)) = Inr (d, snd (outs ! i))" using all by (simp add: list_all2_conv_all_nth)
    moreover have "(docs, snd (items ! i)) \<in> set items" "(d, snd (outs ! i)) \<in> set outs" using i by simp_all
    ultimately show ?thesis using one by blast
  qed
  then show ?thesis using list_all2_lengthD [OF all] by (intro exI [of _ ?segs]) (auto simp: outputs_def)
qed

lemma outputs_append:
  "outputs bytes sha input rows old cs segs \<Longrightarrow> outputs bytes sha input rows old' cs' segs' \<Longrightarrow>
   outputs bytes sha input rows (old \<union> old') (cs @ cs') (segs @ segs')"
  by (fastforce simp: outputs_def)

lemma outputs_mono: "outputs bytes sha input rows old cs segs \<Longrightarrow> old \<subseteq> old' \<Longrightarrow> outputs bytes sha input rows old' cs segs"
  by (auto simp: outputs_def)

text \<open>The documents \<^verbatim>\<open>mint\<close> leaves at a position.\<close>

definition placed ::
  "nat list \<Rightarrow> nat list \<Rightarrow> (nat \<times> split_item list) list \<Rightarrow> nat option \<Rightarrow> (descriptor \<Rightarrow> doc list) \<Rightarrow> nat \<Rightarrow> descriptor \<Rightarrow> doc list" where
  "placed direct unchanged rewr used rows j d =
     (if used = Some j then []
      else if j \<notin> set direct \<or> j \<in> set unchanged then rows d
      else concat (map fst (case map_of rewr j of None \<Rightarrow> [] | Some items \<Rightarrow> items)))"

lemma placed_simps:
  "used = Some j \<Longrightarrow> placed direct unchanged rewr used rows j d = []"
  "used \<noteq> Some j \<Longrightarrow> j \<notin> set direct \<or> j \<in> set unchanged \<Longrightarrow> placed direct unchanged rewr used rows j d = rows d"
  "used \<noteq> Some j \<Longrightarrow> j \<in> set direct \<Longrightarrow> j \<notin> set unchanged \<Longrightarrow>
     placed direct unchanged rewr used rows j d = concat (map fst (case map_of rewr j of None \<Rightarrow> [] | Some items \<Rightarrow> items))"
  by (simp_all add: placed_def)

fun spread :: "(nat \<Rightarrow> descriptor \<Rightarrow> doc list) \<Rightarrow> nat \<Rightarrow> descriptor list \<Rightarrow> doc list" where
  "spread C i [] = []"
| "spread C i (d # ds) = C i d @ spread C (Suc i) ds"

lemma mint_from_outputs:
  assumes "mint_from bytes sha input direct unchanged rewr used i ds = Inr (fs, cs)"
    and "\<forall>j items. j \<in> set direct \<and> j \<notin> set unchanged \<and> map_of rewr j = Some items \<longrightarrow> items_ok bytes input items"
  shows "\<exists>segs. map fst segs = fs \<and> concat (map snd segs) = spread (placed direct unchanged rewr used rows) i ds \<and>
    outputs bytes sha input rows (set ds) cs segs"
  using assms(1)
proof (induction ds arbitrary: i fs cs)
  case (Cons d ds)
  let ?m = "mint_from bytes sha input direct unchanged rewr used"
  consider (used) "used = Some i" "?m (Suc i) ds = Inr (fs, cs)"
    | (kept) fs' where "used \<noteq> Some i" "i \<notin> set direct \<or> i \<in> set unchanged" "?m (Suc i) ds = Inr (fs', cs)" "fs = d # fs'"
    | (new) outs fs' cs' where "used \<noteq> Some i" "i \<in> set direct" "i \<notin> set unchanged"
        "mint_items bytes sha (bi_prefix input) (bi_incarnation input) (case map_of rewr i of None \<Rightarrow> [] | Some items \<Rightarrow> items) = Inr outs"
        "?m (Suc i) ds = Inr (fs', cs')" "fs = map fst outs @ fs'" "cs = outs @ cs'"
    using Cons.prems by (auto split: if_splits)
  then show ?case
  proof cases
    case used
    then show ?thesis using Cons.IH [OF used(2)] used(1) by (auto simp: placed_simps(1) outputs_def)
  next
    case kept
    obtain segs where segs: "map fst segs = fs'" "concat (map snd segs) = spread (placed direct unchanged rewr used rows) (Suc i) ds"
      "outputs bytes sha input rows (set ds) cs segs" using Cons.IH [OF kept(3)] by blast
    then show ?thesis
      using kept placed_simps(2) [OF kept(1,2), of rewr rows d] by (intro exI [of _ "(d, rows d) # segs"]) (auto simp: outputs_def)
  next
    case new
    have ok: "items_ok bytes input (case map_of rewr i of None \<Rightarrow> [] | Some items \<Rightarrow> items)"
      using assms(2) [rule_format, of i] new(2,3) by (cases "map_of rewr i") (simp_all add: items_ok_def)
    obtain segs where segs: "map fst segs = fs'" "concat (map snd segs) = spread (placed direct unchanged rewr used rows) (Suc i) ds"
      "outputs bytes sha input rows (set ds) cs' segs" using Cons.IH [OF new(5)] by blast
    obtain segs' where segs': "map fst segs' = map fst outs"
      "concat (map snd segs') = concat (map fst (case map_of rewr i of None \<Rightarrow> [] | Some items \<Rightarrow> items))"
      "outputs bytes sha input rows {} outs segs'" using mint_items_outputs [OF new(4) ok] by blast
    have "outputs bytes sha input rows (set (d # ds)) cs (segs' @ segs)"
      using outputs_mono [OF outputs_append [OF segs'(3) segs(3)], of "set (d # ds)"] new(7) by auto
    then show ?thesis
      using segs segs' new placed_simps(3) [OF new(1-3), of rewr rows d] by (intro exI [of _ "segs' @ segs"]) simp
  qed
qed (simp add: outputs_def)

section \<open>The facing merge\<close>

lemma update_last: "items \<noteq> [] \<Longrightarrow> concat (map fst (items[length items - 1 := (fst (items ! (length items - 1)) @ nd, b)])) = concat (map fst items) @ nd"
  by (cases items rule: rev_cases) (simp_all add: list_update_append)

lemma update_first: "items \<noteq> [] \<Longrightarrow> concat (map fst (items[0 := (nd @ fst (items ! 0), b)])) = nd @ concat (map fst items)"
  by (cases items) simp_all

lemma facing_merge:
  assumes "applyFacingMerge bytes input own nb direct unchanged chunks = Inr (items', Some k)"
    and "\<And>items. own \<in> set direct \<Longrightarrow> own \<notin> set unchanged \<Longrightarrow> chunks = Some items \<Longrightarrow> items_ok bytes input items"
  shows "\<exists>items docs. k = nb \<and> chunks = Some items \<and> own < length (bi_descriptors input) \<and> nb < length (bi_descriptors input) \<and>
    own \<in> set direct \<and> own \<notin> set unchanged \<and> nb \<notin> set direct \<and> items_ok bytes input items' \<and>
    getLoadedDocs (bi_loaded input) (bi_descriptors input ! nb) = Inr docs \<and>
    (nb = Suc own \<and> concat (map fst items') = concat (map fst items) @ docs \<or>
     own = Suc nb \<and> concat (map fst items') = docs @ concat (map fst items))"
proof -
  obtain items where items: "chunks = Some items" using assms(1) by (auto simp: applyFacingMerge_def split: option.splits)
  define right where "right = (nb = own + 1)"
  define fac where "fac = (if right then length items - 1 else 0)"
  obtain fd fb where it: "items ! fac = (fd, fb)" by (cases "items ! fac")
  define comb where "comb docs = (if right then fd @ docs else docs @ fd)" for docs
  note merge = assms(1) [unfolded items applyFacingMerge_def option.case Let_def, folded right_def, folded fac_def,
      unfolded it prod.case, folded comb_def]
  obtain docs where merged: "items \<noteq> []" "own < length (bi_descriptors input)" "nb < length (bi_descriptors input)"
      "own \<in> set direct" "own \<notin> set unchanged" "nb \<notin> set direct" "right \<or> nb + 1 = own"
      "getLoadedDocs (bi_loaded input) (bi_descriptors input ! nb) = Inr docs"
    and enc: "(case encodeBuilderChunk bytes (candidate_chunk (bi_collection input) (bi_incarnation input) (comb docs)) of
        Inl e \<Rightarrow> Inl (builder_exn e)
      | Inr b \<Rightarrow> if target_chunk_bytes (bi_policy input) < bytes b \<or> target_rows (bi_policy input) < length (comb docs)
          then Inr (items, None) else Inr (items[fac := (comb docs, b)], Some nb)) = Inr (items', Some k)"
    using merge by (auto simp: right_def split: if_splits)
  obtain b where b: "encodeBuilderChunk bytes (candidate_chunk (bi_collection input) (bi_incarnation input) (comb docs)) = Inr b"
      "k = nb" "items' = items[fac := (comb docs, b)]"
    using enc
    by (cases "encodeBuilderChunk bytes (candidate_chunk (bi_collection input) (bi_incarnation input) (comb docs))") (auto split: if_splits)
  have fac: "fac < length items" using merged(1) by (simp add: fac_def)
  then have "fd \<noteq> []" using assms(2) [OF merged(4,5) items] it nth_mem [OF fac] by (auto simp: items_ok_def item_ok_def)
  then have "item_ok bytes (bi_collection input) (bi_incarnation input) (comb docs, b)"
    using b(1) by (simp add: item_ok_def encodeBuilderChunk_def comb_def split: if_splits)
  moreover have "items_ok bytes input items" using assms(2) merged(4,5) items by blast
  ultimately have ok: "items_ok bytes input items'"
    unfolding b(3) items_ok_def using set_update_subset_insert [of items fac "(comb docs, b)"] by blast
  have "nb = Suc own \<and> concat (map fst items') = concat (map fst items) @ docs \<or>
     own = Suc nb \<and> concat (map fst items') = docs @ concat (map fst items)"
    using merged(7) update_last [OF merged(1), of docs b] update_first [OF merged(1), of docs b] it
    unfolding b(3) comb_def by (cases right) (auto simp: fac_def right_def)
  then show ?thesis using merged items ok b(2) by blast
qed

section \<open>The new contents\<close>

lemma spread_concat: "spread C i ds = concat (map (\<lambda>j. C (i + j) (ds ! j)) [0..<length ds])"
proof (induction ds arbitrary: i)
  case (Cons d ds)
  have "[0..<length (d # ds)] = 0 # map Suc [0..<length ds]" by (simp add: map_Suc_upt upt_conv_Cons del: upt_Suc)
  then show ?case using Cons by (simp add: comp_def del: upt_Suc)
qed simp

lemma spread_cong: "(\<And>j. j < length ds \<Longrightarrow> C j (ds ! j) = N j (ds ! j)) \<Longrightarrow> spread C 0 ds = spread N 0 ds"
  unfolding spread_concat by (intro arg_cong [of _ _ concat] map_cong) auto

text \<open>Moving documents across one boundary does not change the whole.\<close>

lemma spread_pair:
  assumes "Suc a < length ds" "\<And>j. j < length ds \<Longrightarrow> j \<noteq> a \<Longrightarrow> j \<noteq> Suc a \<Longrightarrow> C j (ds ! j) = N j (ds ! j)"
    and "C a (ds ! a) @ C (Suc a) (ds ! Suc a) = N a (ds ! a) @ N (Suc a) (ds ! Suc a)"
  shows "spread C 0 ds = spread N 0 ds"
proof -
  have upt: "[0..<length ds] = [0..<a] @ [a, Suc a] @ [Suc (Suc a)..<length ds]"
  proof -
    have "[0..<length ds] = [0..<a] @ [a..<length ds]" using assms(1) by (metis less_imp_le_nat Suc_lessD upt_add_eq_append le_add_diff_inverse zero_le)
    then show ?thesis using assms(1) by (simp add: upt_conv_Cons)
  qed
  have rest: "map (\<lambda>j. C j (ds ! j)) [0..<a] = map (\<lambda>j. N j (ds ! j)) [0..<a]"
    "map (\<lambda>j. C j (ds ! j)) [Suc (Suc a)..<length ds] = map (\<lambda>j. N j (ds ! j)) [Suc (Suc a)..<length ds]"
    using assms(1,2) by auto
  have "C a (ds ! a) @ C (Suc a) (ds ! Suc a) @ xs = N a (ds ! a) @ N (Suc a) (ds ! Suc a) @ xs" for xs
    using assms(3) by (metis append_assoc)
  then show ?thesis unfolding spread_concat upt using rest by (simp del: map_eq_conv)
qed

definition renewed :: "descriptor list \<Rightarrow> (string \<times> mutation) list \<Rightarrow> (descriptor \<Rightarrow> doc list) \<Rightarrow> nat \<Rightarrow> descriptor \<Rightarrow> doc list" where
  "renewed ds muts rows j d =
     (if routed ds muts j = [] then rows d else updated_docs (rows_to_map (keyed (rows d))) (routed ds muts j))"

lemma build_Inr:
  assumes "buildSnapshotChunks bytes sha input = Some (Inr br)" "bi_descriptors input \<noteq> []"
  defines "g \<equiv> group_mutations (bi_descriptors input) (bi_mutations input) []"
  obtains st rewr used where "check_mutations (bi_mutations input) = Inr ()"
    "rewrite_groups bytes input g \<lparr>rewritten = [], unchangedGroups = [], totalSplitIncrements = 0\<rparr> = Some (Inr st)"
    "mint_from bytes sha input (obj_keys g) (unchangedGroups st) rewr used 0 (bi_descriptors input) = Inr (br_chunks br, br_changed br)"
    "used = None \<and> rewr = rewritten st \<or>
     (\<exists>own nb items k. used = Some k \<and> rewr = obj_set own items (rewritten st) \<and>
        applyFacingMerge bytes input own nb (obj_keys g) (unchangedGroups st) (map_of (rewritten st) own) = Inr (items, Some k))"
proof -
  obtain ev where ev: "evaluateSnapshotChunks bytes sha input = Some (Inr ev)" "ev_mint ev = Inr br"
    using assms(1) by (auto simp: buildSnapshotChunks_def)
  obtain st rewr used where st: "check_mutations (bi_mutations input) = Inr ()"
      "rewrite_groups bytes input g \<lparr>rewritten = [], unchangedGroups = [], totalSplitIncrements = 0\<rparr> = Some (Inr st)"
    and merge: "(case (bi_owner input, bi_neighbor input) of
           (Some own, Some neighbor) \<Rightarrow>
             result_bind (applyFacingMerge bytes input own neighbor (obj_keys g) (unchangedGroups st) (map_of (rewritten st) own))
               (\<lambda>(items, used). Inr (if used = None then rewritten st else obj_set own items (rewritten st), used))
         | _ \<Rightarrow> Inr (rewritten st, None)) = Inr (rewr, used)"
    and mint: "result_bind (mint_from bytes sha input (obj_keys g) (unchangedGroups st) rewr used 0 (bi_descriptors input))
           (\<lambda>(chunks, changed). Inr \<lparr>br_chunks = chunks, br_changed = changed,
              br_split_increments = totalSplitIncrements st, br_used_neighbor = used\<rparr>) = Inr br"
    using ev assms(2) unfolding evaluateSnapshotChunks_def Let_def g_def [symmetric] by (auto simp del: result_bind_Inr)
  have "mint_from bytes sha input (obj_keys g) (unchangedGroups st) rewr used 0 (bi_descriptors input) = Inr (br_chunks br, br_changed br)"
    using mint by auto
  moreover have "used = None \<and> rewr = rewritten st \<or>
     (\<exists>own nb items k. used = Some k \<and> rewr = obj_set own items (rewritten st) \<and>
        applyFacingMerge bytes input own nb (obj_keys g) (unchangedGroups st) (map_of (rewritten st) own) = Inr (items, Some k))"
  proof (cases used)
    case None
    then show ?thesis using merge by (auto split: option.splits)
  next
    case (Some k)
    then show ?thesis using merge by (auto split: option.splits)
  qed
  ultimately show thesis using that st by blast
qed

lemma loaded_rows:
  assumes "\<forall>d\<in>set (bi_descriptors input). \<forall>docs. map_of (bi_loaded input) (d_key d) = Some docs \<longrightarrow> docs = rows d"
    and "j < length (bi_descriptors input)" "getLoadedDocs (bi_loaded input) (bi_descriptors input ! j) = Inr docs"
  shows "docs = rows (bi_descriptors input ! j)"
  using assms by (auto simp: getLoadedDocs_def split: option.splits)

lemma routed_in_range:
  assumes "ordered_ranges ds" "ds \<noteq> []" "routed ds muts j \<noteq> []"
  shows "j < length ds"
proof -
  obtain i and u :: mutation where "routeMutationToDescriptor i (mu_op u) ds = Some j"
    using assms(3) by (auto simp: routed_def filter_empty_conv)
  then show ?thesis using route_region(1) [OF assms(1,2)] region_less [OF assms(2)] by blast
qed

lemma build_outputs:
  fixes input
  defines "ds \<equiv> bi_descriptors input" and "muts \<equiv> bi_mutations input"
  assumes build: "buildSnapshotChunks bytes sha input = Some (Inr br)" and ne: "ds \<noteq> []" and ord: "ordered_ranges ds"
    and pos: "0 < target_rows (bi_policy input)"
    and loaded: "\<forall>d\<in>set ds. \<forall>docs. map_of (bi_loaded input) (d_key d) = Some docs \<longrightarrow> docs = rows d"
  shows "\<exists>segs. map fst segs = br_chunks br \<and> concat (map snd segs) = spread (renewed ds muts rows) 0 ds \<and>
    outputs bytes sha input rows (set ds) (br_changed br) segs"
proof -
  define g where "g = group_mutations ds muts []"
  let ?N = "renewed ds muts rows"
  obtain st rewr used where rew: "rewrite_groups bytes input g \<lparr>rewritten = [], unchangedGroups = [], totalSplitIncrements = 0\<rparr> = Some (Inr st)"
    and mint: "mint_from bytes sha input (obj_keys g) (unchangedGroups st) rewr used 0 ds = Inr (br_chunks br, br_changed br)"
    and merge: "used = None \<and> rewr = rewritten st \<or>
     (\<exists>own nb items k. used = Some k \<and> rewr = obj_set own items (rewritten st) \<and>
        applyFacingMerge bytes input own nb (obj_keys g) (unchangedGroups st) (map_of (rewritten st) own) = Inr (items, Some k))"
    using build_Inr [OF build] ne unfolding g_def ds_def muts_def by metis
  note g = grouped [of ds muts, folded g_def]
  have direct: "j \<in> set (obj_keys g) \<longleftrightarrow> routed ds muts j \<noteq> []" for j
    using g(2) [of j] by (metis domIff dom_map_of_conv_image_fst list.set_map option.distinct(1))
  have "\<forall>(k, us)\<in>set g. group_done bytes input st k us"
    using rewrite_groups_done [OF rew pos g(1)] by simp
  then have fin: "group_done bytes input st j (routed ds muts j)" if "j \<in> set (obj_keys g)" for j
    using g(2) [of j] that direct [of j] by (auto dest!: map_of_SomeD)
  have range: "j < length ds" if "j \<in> set (obj_keys g)" for j
    using routed_in_range [OF ord ne] direct that by blast
  have kept: "?N j (ds ! j) = rows (ds ! j)" if "j \<notin> set (obj_keys g) \<or> j \<in> set (unchangedGroups st)" "j < length ds" for j
  proof (cases "j \<in> set (obj_keys g)")
    case True
    then show ?thesis
      using fin [OF True] that loaded_rows [of input rows j] loaded
      by (auto simp: group_done_def renewed_def ds_def Let_def split: if_splits)
  next
    case False
    then show ?thesis using direct by (simp add: renewed_def)
  qed
  have new: "\<exists>items. map_of (rewritten st) j = Some items \<and> concat (map fst items) = ?N j (ds ! j) \<and> items_ok bytes input items"
    if j: "j \<in> set (obj_keys g)" "j \<notin> set (unchangedGroups st)" for j
    using fin [OF j(1)] j(2) loaded_rows [of input rows j] loaded range [OF j(1)] direct j(1)
    by (auto simp: group_done_def renewed_def items_ok_def ds_def Let_def split: if_splits)
  have "(\<forall>j items. j \<in> set (obj_keys g) \<and> j \<notin> set (unchangedGroups st) \<and> map_of rewr j = Some items \<longrightarrow> items_ok bytes input items) \<and>
    spread (placed (obj_keys g) (unchangedGroups st) rewr used rows) 0 ds = spread ?N 0 ds"
    using merge
  proof (elim disjE conjE exE)
    assume none: "used = None" "rewr = rewritten st"
    have "placed (obj_keys g) (unchangedGroups st) rewr used rows j (ds ! j) = ?N j (ds ! j)" if "j < length ds" for j
      using kept [of j] new [of j] that none by (fastforce simp: placed_def)
    then have "spread (placed (obj_keys g) (unchangedGroups st) rewr used rows) 0 ds = spread ?N 0 ds" by (rule spread_cong)
    then show ?thesis using new none(2) by fastforce
  next
    fix own nb items' k
    assume used: "used = Some k" and rewr: "rewr = obj_set own items' (rewritten st)"
      and fm: "applyFacingMerge bytes input own nb (obj_keys g) (unchangedGroups st) (map_of (rewritten st) own) = Inr (items', Some k)"
    have "items_ok bytes input items" if "own \<in> set (obj_keys g)" "own \<notin> set (unchangedGroups st)" "map_of (rewritten st) own = Some items" for items
      using new [OF that(1,2)] that(3) by simp
    from facing_merge [OF fm this] obtain items docs where m: "k = nb" "map_of (rewritten st) own = Some items"
        "own < length ds" "nb < length ds" "own \<in> set (obj_keys g)" "own \<notin> set (unchangedGroups st)" "nb \<notin> set (obj_keys g)"
        "items_ok bytes input items'" "getLoadedDocs (bi_loaded input) (ds ! nb) = Inr docs"
        "nb = Suc own \<and> concat (map fst items') = concat (map fst items) @ docs \<or>
         own = Suc nb \<and> concat (map fst items') = docs @ concat (map fst items)"
      unfolding ds_def by blast
    have docs: "docs = ?N nb (ds ! nb)" using loaded_rows [of input rows nb docs] loaded m(4,7,9) kept [of nb] by (simp add: ds_def)
    have items: "concat (map fst items) = ?N own (ds ! own)" using new [OF m(5,6)] m(2) by auto
    let ?C = "placed (obj_keys g) (unchangedGroups st) rewr used rows"
    have at: "?C nb (ds ! nb) = []" "?C own (ds ! own) = concat (map fst items')"
      using used m(1,5-7,10) rewr by (auto simp: placed_def)
    have others: "?C j (ds ! j) = ?N j (ds ! j)" if "j < length ds" "j \<noteq> own" "j \<noteq> nb" for j
      using kept [of j] new [of j] that used m(1) rewr by (fastforce simp: placed_def)
    have "spread ?C 0 ds = spread ?N 0 ds"
      using m(10)
    proof (elim disjE conjE)
      assume "nb = Suc own" "concat (map fst items') = concat (map fst items) @ docs"
      then show ?thesis using m(4) at others docs items by (intro spread_pair [of own]) auto
    next
      assume "own = Suc nb" "concat (map fst items') = docs @ concat (map fst items)"
      then show ?thesis using m(3) at others docs items by (intro spread_pair [of nb]) auto
    qed
    moreover have "\<forall>j items. j \<in> set (obj_keys g) \<and> j \<notin> set (unchangedGroups st) \<and> map_of rewr j = Some items \<longrightarrow> items_ok bytes input items"
    proof (intro allI impI, elim conjE)
      fix j items
      assume "j \<in> set (obj_keys g)" "j \<notin> set (unchangedGroups st)" "map_of rewr j = Some items"
      then show "items_ok bytes input items" using new [of j] m(8) rewr by (cases "j = own") auto
    qed
    ultimately show ?thesis by blast
  qed
  then show ?thesis using mint_from_outputs [OF mint, of rows] by auto
qed

section \<open>The whole is the fold\<close>

text \<open>
  What a layout promises its readers: ids are dealt to numbered regions in order. Contents whose parts
  each hold only ids of their own region, in order, are then one ordered list, and an id is looked up in its
  region alone.
\<close>

locale id_regions =
  fixes reg :: "string \<Rightarrow> nat"
  assumes region_order: "x \<le> y \<Longrightarrow> reg x \<le> reg y"
begin

lemma regions_concat:
  assumes "\<forall>j<length L. sorted_wrt (<) (map doc_id (L ! j)) \<and> (\<forall>d\<in>set (L ! j). reg (doc_id d) = j)"
  shows "sorted_wrt (<) (map doc_id (concat L))"
    and "map_of (keyed (concat L)) x = (if reg x < length L then map_of (keyed (L ! reg x)) x else None)"
    and "\<forall>d\<in>set (concat L). reg (doc_id d) < length L"
proof -
  have "sorted_wrt (<) (map doc_id (concat L)) \<and> (\<forall>d\<in>set (concat L). reg (doc_id d) < length L) \<and>
    map_of (keyed (concat L)) x = (if reg x < length L then map_of (keyed (L ! reg x)) x else None)"
    using assms
  proof (induction L rule: rev_induct)
    case (snoc l L)
    have IH: "sorted_wrt (<) (map doc_id (concat L))" "\<forall>d\<in>set (concat L). reg (doc_id d) < length L"
      "map_of (keyed (concat L)) x = (if reg x < length L then map_of (keyed (L ! reg x)) x else None)"
    proof -
      have "\<forall>j<length L. sorted_wrt (<) (map doc_id (L ! j)) \<and> (\<forall>d\<in>set (L ! j). reg (doc_id d) = j)"
        using snoc.prems by (metis (no_types, lifting) length_append less_add_eq_less nth_append trans_less_add1)
      from snoc.IH [OF this] show "sorted_wrt (<) (map doc_id (concat L))" "\<forall>d\<in>set (concat L). reg (doc_id d) < length L"
        "map_of (keyed (concat L)) x = (if reg x < length L then map_of (keyed (L ! reg x)) x else None)" by blast+
    qed
    have l: "sorted_wrt (<) (map doc_id l)" "\<forall>d\<in>set l. reg (doc_id d) = length L"
      using snoc.prems [rule_format, of "length L"] by auto
    have "doc_id a < doc_id b" if "a \<in> set (concat L)" "b \<in> set l" for a b
    proof (rule ccontr)
      assume "\<not> doc_id a < doc_id b"
      then have "reg (doc_id b) \<le> reg (doc_id a)" by (intro region_order) simp
      then show False using IH(2) l(2) that by fastforce
    qed
    then have sorted: "sorted_wrt (<) (map doc_id (concat (L @ [l])))" using IH(1) l(1) by (auto simp: sorted_wrt_append)
    have "map_of (keyed (concat L @ l)) x = (if reg x = length L then map_of (keyed l) x else map_of (keyed (concat L)) x)"
      using map_of_keyed_skip [of "concat L" x l] map_of_keyed_cut [of l x "concat L"] IH(2) l(2) by fastforce
    then have "map_of (keyed (concat (L @ [l]))) x = (if reg x < length (L @ [l]) then map_of (keyed ((L @ [l]) ! reg x)) x else None)"
      using IH(3) by (auto simp: nth_append)
    then show ?case using sorted IH(2) l(2) by (fastforce simp: less_Suc_eq)
  qed (simp add: keyed_def)
  then show "sorted_wrt (<) (map doc_id (concat L))"
    and "map_of (keyed (concat L)) x = (if reg x < length L then map_of (keyed (L ! reg x)) x else None)"
    and "\<forall>d\<in>set (concat L). reg (doc_id d) < length L" by blast+
qed

end

interpretation rg: id_regions "region ds" for ds
  by unfold_locales (rule region_mono)

lemma muts_at_Some:
  assumes "distinct (map mu_doc_id muts)"
  shows "muts_at muts x = Some u \<longleftrightarrow> u \<in> set muts \<and> mu_doc_id u = x"
  using assms by (auto simp: muts_at_def map_of_eq_Some_iff comp_def)

lemma map_of_keyed_SomeD: "map_of (keyed ds) x = Some d \<Longrightarrow> d \<in> set ds \<and> doc_id d = x"
  by (auto simp: keyed_def dest: map_of_SomeD)

text \<open>The mutations a build accepts: keyed by their id, no id twice, each post-image under its id.\<close>

definition muts_ok :: "(string \<times> mutation) list \<Rightarrow> bool" where
  "muts_ok muts = (distinct (obj_keys muts) \<and> (\<forall>(i, u)\<in>set muts. i = mu_doc_id u \<and> mut_ok u))"

lemma muts_ok_snd:
  assumes "muts_ok muts"
  shows "distinct (map mu_doc_id (map snd muts))" "\<forall>u\<in>set (map snd muts). mut_ok u"
    and "distinct (map mu_doc_id (routed ds muts j))" "\<forall>u\<in>set (routed ds muts j). mut_ok u"
proof -
  have eq: "map (\<lambda>p. mu_doc_id (snd p)) ps = obj_keys ps" if "set ps \<subseteq> set muts" for ps
    using assms that by (fastforce simp: muts_ok_def)
  show "distinct (map mu_doc_id (map snd muts))" using assms eq [of muts] by (simp add: muts_ok_def comp_def del: map_eq_conv)
  show "distinct (map mu_doc_id (routed ds muts j))"
    using assms eq [of "filter (\<lambda>(i, u). routeMutationToDescriptor i (mu_op u) ds = Some j) muts"]
    by (simp add: routed_def muts_ok_def comp_def distinct_map_filter del: map_eq_conv)
  show "\<forall>u\<in>set (map snd muts). mut_ok u" "\<forall>u\<in>set (routed ds muts j). mut_ok u"
    using assms by (auto simp: muts_ok_def routed_def)
qed

lemma routed_at:
  assumes "ordered_ranges ds" "ds \<noteq> []" "muts_ok muts"
  shows "muts_at (routed ds muts j) x = Some u \<Longrightarrow> region ds x = j \<and> muts_at (map snd muts) x = Some u"
    and "muts_at (map snd muts) x = Some u \<Longrightarrow>
      muts_at (routed ds muts (region ds x)) x = Some u \<or>
      mu_op u = OpD \<and> muts_at (routed ds muts (region ds x)) x = None \<and> (\<forall>d\<in>set ds. \<not> (d_first_id d \<le> x \<and> x \<le> d_last_id d))"
proof -
  note dist = muts_ok_snd(1,3) [OF assms(3)]
  have key: "i = mu_doc_id u" if "(i, u) \<in> set muts" for i u using assms(3) that by (auto simp: muts_ok_def)
  show "muts_at (routed ds muts j) x = Some u \<Longrightarrow> region ds x = j \<and> muts_at (map snd muts) x = Some u"
    unfolding muts_at_Some [OF dist(1)] muts_at_Some [OF dist(2)]
    using key route_region(1) [OF assms(1,2)] by (fastforce simp: routed_def)
  assume "muts_at (map snd muts) x = Some u"
  then have u: "(x, u) \<in> set muts" unfolding muts_at_Some [OF dist(1)] using key by fastforce
  show "muts_at (routed ds muts (region ds x)) x = Some u \<or>
      mu_op u = OpD \<and> muts_at (routed ds muts (region ds x)) x = None \<and> (\<forall>d\<in>set ds. \<not> (d_first_id d \<le> x \<and> x \<le> d_last_id d))"
  proof (cases "routeMutationToDescriptor x (mu_op u) ds")
    case None
    have "u' = u" if "(x, u') \<in> set muts" for u'
      using that u assms(3) by (metis (no_types, lifting) eq_key_imp_eq_value muts_ok_def)
    then have "muts_at (routed ds muts (region ds x)) x = None"
      using None key unfolding muts_at_None by (fastforce simp: routed_def)
    then show ?thesis using route_region(3) [OF assms(1,2) None] by blast
  next
    case (Some k)
    then have "u \<in> set (routed ds muts (region ds x))"
      using u route_region(1) [OF assms(1,2) Some] by (force simp: routed_def)
    then show ?thesis using key [OF u] unfolding muts_at_Some [OF dist(2)] by simp
  qed
qed


lemma renewed_spec:
  assumes lay: "laid_out ds rows" and "ds \<noteq> []" "muts_ok muts" "j < length ds"
  shows "sorted_wrt (<) (map doc_id (renewed ds muts rows j (ds ! j)))"
    and "\<forall>d\<in>set (renewed ds muts rows j (ds ! j)). region ds (doc_id d) = j"
    and "region ds x = j \<Longrightarrow> map_of (keyed (renewed ds muts rows j (ds ! j))) x =
      (case muts_at (map snd muts) x of None \<Rightarrow> map_of (keyed (rows (ds ! j))) x | Some u \<Rightarrow> mut_effect u)"
proof -
  let ?rows = "rows (ds ! j)" and ?us = "routed ds muts j" and ?N = "renewed ds muts rows j (ds ! j)"
  have ord: "ordered_ranges ds" using lay by (simp add: laid_out_def)
  have rows: "sorted_wrt (<) (map doc_id ?rows)" "d \<in> set ?rows \<Longrightarrow> d_first_id (ds ! j) \<le> doc_id d \<and> doc_id d \<le> d_last_id (ds ! j)" for d
    using lay assms(4) by (simp_all add: laid_out_def)
  have reg: "region ds (doc_id d) = j" if "d \<in> set ?rows" for d
    using row_region [OF ord assms(4)] rows(2) [OF that] by blast
  have id: "idmap (keyed ?rows)" by (rule idmap_keyed [OF rows(1)])
  then have map: "rows_to_map (keyed ?rows) = keyed ?rows" by (simp add: rows_to_map_id idmap_def)
  note ok = muts_ok_snd(3,4) [OF assms(3), of ds j]
  note upd = updated_docs_spec [OF id ok(2)]
  show sorted: "sorted_wrt (<) (map doc_id ?N)" using upd(1) rows(1) map by (simp add: renewed_def)
  have at: "map_of (keyed ?N) y = (case muts_at ?us y of None \<Rightarrow> map_of (keyed ?rows) y | Some u \<Rightarrow> mut_effect u)" for y
    using upd(2) fold_apply_map [OF ok] map by (auto simp: renewed_def muts_at_def)
  show "\<forall>d\<in>set ?N. region ds (doc_id d) = j"
  proof
    fix d assume d: "d \<in> set ?N"
    then have "map_of (keyed ?N) (doc_id d) = Some d" using sorted by (auto simp: strictly_sorted keyed_def comp_def map_of_eq_Some_iff)
    then have "map_of (keyed ?rows) (doc_id d) = Some d \<or> (\<exists>u. muts_at ?us (doc_id d) = Some u)"
      using at [of "doc_id d"] by (cases "muts_at ?us (doc_id d)") auto
    then show "region ds (doc_id d) = j"
      using reg map_of_keyed_SomeD routed_at(1) [OF ord assms(2,3)] by blast
  qed
  assume x: "region ds x = j"
  show "map_of (keyed ?N) x = (case muts_at (map snd muts) x of None \<Rightarrow> map_of (keyed ?rows) x | Some u \<Rightarrow> mut_effect u)"
  proof (cases "muts_at (map snd muts) x")
    case None
    then have "muts_at ?us x = None" using routed_at(1) [OF ord assms(2,3)] by (metis not_Some_eq)
    then show ?thesis using at [of x] None by simp
  next
    case (Some u)
    have "map_of (keyed ?rows) x = None" if "\<forall>d\<in>set ds. \<not> (d_first_id d \<le> x \<and> x \<le> d_last_id d)"
      using that rows(2) assms(4) by (intro map_of_keyed_None) (metis nth_mem)
    then show ?thesis
      using routed_at(2) [OF ord assms(2,3) Some] x at [of x] Some by (auto simp: mut_effect_def)
  qed
qed

lemma renewed_spread:
  assumes lay: "laid_out ds rows" and ne: "ds \<noteq> []" and muts: "muts_ok muts"
  shows "spread (renewed ds muts rows) 0 ds = updated_docs (keyed (concat (map rows ds))) (map snd muts)"
proof (rule sorted_keyed_unique)
  let ?R = "concat (map rows ds)" and ?L = "map (\<lambda>j. renewed ds muts rows j (ds ! j)) [0..<length ds]"
  have ord: "ordered_ranges ds" using lay by (simp add: laid_out_def)
  have R: "idmap (keyed ?R)" by (rule idmap_keyed [OF laid_out_sorted [OF lay]])
  note ok = muts_ok_snd(1,2) [OF muts]
  have L: "spread (renewed ds muts rows) 0 ds = concat ?L" by (simp add: spread_concat)
  have whole: "\<forall>j<length ?L. sorted_wrt (<) (map doc_id (?L ! j)) \<and> (\<forall>d\<in>set (?L ! j). region ds (doc_id d) = j)"
    using renewed_spec(1,2) [OF lay ne muts] by simp
  have old: "\<forall>j<length (map rows ds). sorted_wrt (<) (map doc_id (map rows ds ! j)) \<and>
      (\<forall>d\<in>set (map rows ds ! j). region ds (doc_id d) = j)"
    using lay row_region [OF ord] by (simp add: laid_out_def)
  show "sorted_wrt (<) (map doc_id (spread (renewed ds muts rows) 0 ds))"
    unfolding L by (rule rg.regions_concat(1) [OF whole])
  show "sorted_wrt (<) (map doc_id (updated_docs (keyed ?R) (map snd muts)))" by (rule updated_docs_spec(1) [OF R ok(2)])
  show "map_of (keyed (spread (renewed ds muts rows) 0 ds)) = map_of (keyed (updated_docs (keyed ?R) (map snd muts)))"
  proof
    fix x
    have j: "region ds x < length ds" by (rule region_less [OF ne])
    have "map_of (keyed (concat ?L)) x = map_of (keyed (renewed ds muts rows (region ds x) (ds ! region ds x))) x"
      using rg.regions_concat(2) [OF whole] j by simp
    also have "\<dots> = (case muts_at (map snd muts) x of None \<Rightarrow> map_of (keyed (rows (ds ! region ds x))) x | Some u \<Rightarrow> mut_effect u)"
      by (rule renewed_spec(3) [OF lay ne muts j refl])
    also have "map_of (keyed (rows (ds ! region ds x))) x = map_of (keyed ?R) x"
      using rg.regions_concat(2) [OF old] j by simp
    also have "(case muts_at (map snd muts) x of None \<Rightarrow> map_of (keyed ?R) x | Some u \<Rightarrow> mut_effect u)
      = map_of (keyed (updated_docs (keyed ?R) (map snd muts))) x"
      unfolding updated_docs_spec(2) [OF R ok(2)] fold_apply_map [OF ok] ..
    finally show "map_of (keyed (spread (renewed ds muts rows) 0 ds)) x = map_of (keyed (updated_docs (keyed ?R) (map snd muts))) x"
      unfolding L .
  qed
qed

end
