(* ===== verification/ChunkRefinement.thy ===== *)
theory ChunkRefinement
  imports ChunkFold
begin

text \<open>
  The refinement the chunk builder owes \<^verbatim>\<open>chunked-snapshot-reference.ts\<close>: once the chunks of a build are
  stored, a view over its descriptors reads the reference fold of the old rows and the mutations.
\<close>

section \<open>Canonical documents\<close>

text \<open>A document and what a chunk stores of it.\<close>

definition stored_as :: "doc \<Rightarrow> doc \<Rightarrow> bool" where
  "stored_as d d' = (canonicalizeDocument InvalidConfig (JObj d) = Inr d')"

lemma map_of_insert_by: "map_of (insert_by field_order x xs) = map_of (x # xs)"
proof (induction xs)
  case (Cons y ys)
  have "canonicalKeyOrder k k = 0" for k by (simp add: canonicalKeyOrder_def)
  then have "fst x \<noteq> fst y" if "\<not> field_order x y \<le> 0" using that by (auto simp: field_order_def)
  then show ?case using Cons by (auto simp: fun_eq_iff)
qed simp

lemma map_of_fields: "map_of (toSorted field_order fs) = map_of fs"
proof (induction fs)
  case (Cons p fs)
  have "toSorted field_order (p # fs) = insert_by field_order p (toSorted field_order fs)" by (simp add: toSorted_def)
  then show ?case using Cons by (simp only: map_of_insert_by) (simp add: fun_eq_iff)
qed (simp add: toSorted_def)

lemma map_of_list_all2:
  "list_all2 (\<lambda>p q. fst q = fst p \<and> P (snd p) (snd q)) xs ys \<Longrightarrow> rel_option P (map_of xs k) (map_of ys k)"
  by (induction rule: list_all2_induct) auto

lemma canonicalize_string: "canonicalizeDocumentValue code v = Inr (JStr i) \<Longrightarrow> v = JStr i"
  by (cases v) (auto simp: canonical_obj split: if_splits)

lemma canonicalize_valid: "canonicalizeDocumentValue code v = Inr w \<Longrightarrow> assertDocumentValue v"
proof (induction code v arbitrary: w rule: canonicalizeDocumentValue.induct)
  case (5 code xs)
  then show ?case by (auto simp: result_map_Inr dest: list_all2_left)
next
  case (6 code fs)
  then obtain gs where "list_all2 (\<lambda>p q. fst q = fst p \<and> canonicalizeDocumentValue code (snd p) = Inr (snd q)) (toSorted field_order fs) gs"
    by (auto simp only: canonical_obj)
  from list_all2_left [OF this] show ?case using 6(1) by fastforce
qed (auto split: if_splits)

lemma stored_as_id:
  assumes "stored_as d d'"
  shows "map_of d ''_id'' = Some (JStr (doc_id d'))" "doc_id d' = doc_id d" "assertDocument d (doc_id d) = Inr ()"
    and "assertPathSegment (doc_id d) = Inr ()"
proof -
  note st = canonicalizeDocument_Inr [OF assms [unfolded stored_as_def]]
  have v: "canonicalizeDocumentValue InvalidConfig (JObj d) = Inr (JObj d')" using st(2) by blast
  then have all: "list_all2 (\<lambda>p q. fst q = fst p \<and> canonicalizeDocumentValue InvalidConfig (snd p) = Inr (snd q)) (toSorted field_order d) d'"
    by (simp add: canonical_obj)
  have id: "map_of d' ''_id'' = Some (JStr (doc_id d'))" "assertPathSegment (doc_id d') = Inr ()"
    using st(1) by (simp_all add: canonical_doc_def)
  show *: "map_of d ''_id'' = Some (JStr (doc_id d'))"
    using map_of_list_all2 [OF all, of "''_id''"] canonicalize_string
    unfolding id(1) map_of_fields by (cases "map_of d ''_id''") auto
  then show eq: "doc_id d' = doc_id d" by (simp add: doc_id_def)
  show "assertPathSegment (doc_id d) = Inr ()" using id(2) eq by simp
  then show "assertDocument d (doc_id d) = Inr ()" using * eq canonicalize_valid [OF v] by (simp add: assertDocument_def)
qed

lemma stored_as_canonical: "canonical_doc d \<Longrightarrow> stored_as d d"
  by (simp add: stored_as_def canonicalizeDocument_fix)

lemma stored_keyed: "list_all2 stored_as ds ds' \<Longrightarrow> list_all2 (\<lambda>(i, d) (i', d'). i' = i \<and> stored_as d d') (keyed ds) (keyed ds')"
  by (induction rule: list_all2_induct) (auto simp: keyed_def stored_as_id(2))

section \<open>The reference fold\<close>

lemma obj_set_new: "k \<notin> set (obj_keys xs) \<Longrightarrow> obj_set k v xs = xs @ [(k, v)]"
  by (induction xs) auto

lemma reference_rows_keyed:
  assumes "distinct (obj_keys acc @ map doc_id R)" "\<forall>d\<in>set R. stored_as d d"
  shows "reference_rows acc (keyed R) = Inr (acc @ keyed R)"
  using assms
proof (induction R arbitrary: acc)
  case (Cons d R)
  have d: "assertDocument d (doc_id d) = Inr ()" "assertPathSegment (doc_id d) = Inr ()"
    using Cons.prems(2) stored_as_id(3,4) by auto
  have "reference_rows (acc @ [(doc_id d, d)]) (keyed R) = Inr ((acc @ [(doc_id d, d)]) @ keyed R)"
    using Cons.prems by (intro Cons.IH) auto
  then show ?case using d Cons.prems(1) by (auto simp: keyed_def obj_set_new)
qed (simp add: keyed_def)

lemma reference_mutations_fold:
  assumes "\<forall>u\<in>set muts. assertPathSegment (mu_doc_id u) = Inr () \<and>
      (mu_op u = OpD \<or> (\<exists>d. mu_after u = Some d \<and> assertDocument d (mu_doc_id u) = Inr ()))"
  shows "reference_mutations docs muts = Inr (fold apply_mutation muts docs)"
  using assms by (induction muts arbitrary: docs) (auto simp: apply_mutation_def)

lemma insert_by_rows: "insert_by compare_reference_rows x xs = insort_key fst x xs"
  by (induction xs) (auto simp: compare_reference_rows_def)

lemma toSorted_rows: "toSorted compare_reference_rows xs = sort_key fst xs"
  by (induction xs) (simp_all add: toSorted_def insert_by_rows)

lemma keyed_updated: "idmap m \<Longrightarrow> \<forall>u\<in>set muts. mut_ok u \<Longrightarrow> keyed (updated_docs m muts) = sort_key fst (fold apply_mutation muts m)"
  by (simp add: updated_docs_def toSorted_docs keyed_sort keyed_values idmap_fold)

text \<open>What the mutation checks of a build establish.\<close>

lemma check_mutations_ok:
  "check_mutations muts = Inr () \<Longrightarrow> (i, u) \<in> set muts \<Longrightarrow> i = mu_doc_id u \<and> mut_ok u \<and> assertPathSegment i = Inr ()"
  by (induction muts rule: check_mutations.induct)
    (auto simp: mut_ok_def assertPostImageIdentity_def split: if_splits option.splits)

lemma reference_is_updated:
  assumes R: "sorted_wrt (<) (map doc_id R)" "\<forall>d\<in>set R. stored_as d d"
    and muts: "distinct (obj_keys muts)" "check_mutations muts = Inr ()"
    and stored: "\<forall>d\<in>set (updated_docs (keyed R) (map snd muts)). \<exists>d'. stored_as d d'"
  shows "foldChunkedSnapshotReference (keyed R) (map snd muts) = Inr (keyed (updated_docs (keyed R) (map snd muts)))"
proof -
  have ok: "muts_ok muts" using muts check_mutations_ok by (auto simp: muts_ok_def)
  note snd_ok = muts_ok_snd(1,2) [OF ok]
  have id: "idmap (keyed R)" by (rule idmap_keyed [OF R(1)])
  have "reference_rows [] (keyed R) = Inr (keyed R)"
    using reference_rows_keyed [of "[]" R] R by (simp add: strictly_sorted)
  moreover have "reference_mutations (keyed R) (map snd muts) = Inr (fold apply_mutation (map snd muts) (keyed R))"
  proof (rule reference_mutations_fold, rule ballI)
    fix u assume u: "u \<in> set (map snd muts)"
    then have c: "assertPathSegment (mu_doc_id u) = Inr ()" "mut_ok u" using check_mutations_ok [OF muts(2)] by force+
    show "assertPathSegment (mu_doc_id u) = Inr () \<and> (mu_op u = OpD \<or> (\<exists>d. mu_after u = Some d \<and> assertDocument d (mu_doc_id u) = Inr ()))"
    proof (cases "mu_op u = OpD")
      case False
      then obtain d where d: "mu_after u = Some d" "map_of d ''_id'' = Some (JStr (mu_doc_id u))" using c(2) by (auto simp: mut_ok_def)
      have "muts_at (map snd muts) (mu_doc_id u) = Some u" using u muts_at_Some [OF snd_ok(1)] by blast
      then have "map_of (keyed (updated_docs (keyed R) (map snd muts))) (mu_doc_id u) = Some d"
        unfolding updated_docs_spec(2) [OF id snd_ok(2)] fold_apply_map [OF snd_ok] using False d(1) by (simp add: mut_effect_def)
      then have "\<exists>d'. stored_as d d'" "doc_id d = mu_doc_id u" using stored map_of_keyed_SomeD by blast+
      then show ?thesis using stored_as_id(3) c(1) d(1) by metis
    qed (simp add: c(1))
  qed
  ultimately show ?thesis
    using keyed_updated [OF id snd_ok(2)] by (simp add: foldChunkedSnapshotReference_def toSorted_rows)
qed


section \<open>Reading what a build published\<close>

lemma chunk_rows_decode:
  "chunk_rows bytes sha coll s d = Inr docs \<longleftrightarrow>
     (\<exists>b e c. memory_get (d_key d) None s = Inr (Some (b, e)) \<and> decodeSnapshotChunk bytes sha b (d_key d) coll d = Inr c \<and> docs = sc_docs c)"
  by (auto simp: chunk_rows_def loadChunk_def run_io_bind run_get run_io_lift split: sum.splits option.splits)

lemma chunk_rows_range:
  assumes "chunk_rows bytes sha coll s d = Inr docs"
  shows "docs \<noteq> []" "d_first_id d = doc_id (hd docs)" "d_last_id d = doc_id (last docs)" "\<forall>x\<in>set docs. stored_as x x"
proof -
  obtain b c where c: "decodeSnapshotChunk bytes sha b (d_key d) coll d = Inr c" "docs = sc_docs c"
    using assms unfolding chunk_rows_decode by blast
  then have wf: "wf_chunk c" and d: "d = chunk_descriptor bytes c b (d_key d)" unfolding decode_chunk_Inr by blast+
  have "d_first_id d = sc_first_id c" "d_last_id d = sc_last_id c" by (subst d, simp add: chunk_descriptor_def)+
  then show "docs \<noteq> []" "d_first_id d = doc_id (hd docs)" "d_last_id d = doc_id (last docs)" "\<forall>x\<in>set docs. stored_as x x"
    using wf c(2) by (auto simp: wf_chunk_def list_all_iff stored_as_canonical)
qed

lemma minted_reads:
  assumes minted: "minted bytes sha input d docs b" and "memory_get (d_key d) None s = Inr (Some (b, e))"
    and "\<forall>x\<in>set (bi_prefix input). \<not> is_line_terminator x" "bytes b \<noteq> 0"
  shows "\<exists>docs'. chunk_rows bytes sha (bi_collection input) s d = Inr docs' \<and> list_all2 stored_as docs docs'"
proof -
  let ?c = "candidate_chunk (bi_collection input) (bi_incarnation input) docs"
  obtain key where enc: "encodeSnapshotChunk bytes ?c = Inr b"
    and key: "snapshotChunkKey (bi_prefix input) (bi_incarnation input) (sha b) = Inr key"
    and d: "d = \<lparr>d_first_id = doc_id (hd docs), d_last_id = doc_id (last docs), d_key = key,
             d_byte_length = bytes b, d_row_count = length docs\<rparr>"
    using minted by (auto simp: minted_def item_ok_def)
  obtain c' where c': "canonicalizeChunk InvalidConfig (chunk_json ?c) = Inr c'" and b: "b = BJson (chunk_json c')"
    and len: "bytes b \<le> MAX_CHUNK_BYTES" using enc by (auto simp: encode_chunk_Inr)
  have same: "c' = ?c\<lparr>sc_docs := sc_docs c'\<rparr>"
    and docs: "list_all2 (\<lambda>d d'. canonicalizeDocumentValue InvalidConfig (JObj d) = Inr (JObj d')) docs (sc_docs c')"
    using canonicalizeChunk_json(1,2) [OF c'] by (simp_all add: candidate_chunk_def)
  have wf: "wf_chunk c'" by (rule canonicalizeChunk_wf [OF c'])
  have st: "list_all2 stored_as docs (sc_docs c')"
  proof (rule list_all2_all_nthI)
    show "length docs = length (sc_docs c')" using docs by (rule list_all2_lengthD)
    fix i assume "i < length docs"
    then have "canonicalizeDocumentValue InvalidConfig (JObj (docs ! i)) = Inr (JObj (sc_docs c' ! i))" "canonical_doc (sc_docs c' ! i)"
      using docs wf by (auto simp: list_all2_conv_all_nth wf_chunk_def list_all_length)
    then show "stored_as (docs ! i) (sc_docs c' ! i)" by (simp add: stored_as_def canonicalizeDocument_def canonical_doc_def)
  qed
  have "sc_collection c' = bi_collection input" "sc_incarnation c' = bi_incarnation input"
    "sc_first_id c' = doc_id (hd docs)" "sc_last_id c' = doc_id (last docs)"
    by (subst same, simp add: candidate_chunk_def)+
  then have "decodeSnapshotChunk bytes sha b key (bi_collection input) d = Inr c'"
    using b len assms(4) wf parse_minted [OF key [unfolded snapshotChunkKey_def] assms(3), of InvalidResponse] list_all2_lengthD [OF docs]
    unfolding decode_chunk_Inr d chunk_descriptor_def by simp
  then have "chunk_rows bytes sha (bi_collection input) s d = Inr (sc_docs c')"
    using assms(2) d unfolding chunk_rows_decode by auto
  then show ?thesis using st by blast
qed

lemma segments_ordered:
  assumes "\<forall>(d, docs)\<in>set segs. docs \<noteq> [] \<and> d_first_id d = doc_id (hd docs) \<and> d_last_id d = doc_id (last docs)"
    and "sorted_wrt (<) (map doc_id (concat (map snd segs)))"
  shows "ordered_ranges (map fst segs)"
  using assms
proof (induction segs)
  case (Cons p segs)
  obtain d docs where p: "p = (d, docs)" by (cases p)
  then have d: "docs \<noteq> []" "d_first_id d = doc_id (hd docs)" "d_last_id d = doc_id (last docs)" using Cons.prems(1) by auto
  have sorted: "sorted_wrt (<) (map doc_id docs)" "\<forall>x\<in>set docs. \<forall>y\<in>set (concat (map snd segs)). doc_id x < doc_id y"
    using Cons.prems(2) p by (auto simp: sorted_wrt_append)
  have "d_first_id d \<le> d_last_id d" using sorted_ids_bounds(1) [OF sorted(1), of "last docs"] d by simp
  moreover have "d_last_id d < d_first_id e" if "e \<in> set (map fst segs)" for e
  proof -
    obtain es where es: "(e, es) \<in> set segs" "es \<noteq> []" "d_first_id e = doc_id (hd es)" using Cons.prems(1) \<open>e \<in> _\<close> by fastforce
    then have "hd es \<in> set (concat (map snd segs))" by force
    then show ?thesis using sorted(2) d es(3) last_in_set [OF d(1)] by (metis (no_types))
  qed
  moreover have "ordered_ranges (map fst segs)"
    using Cons by (auto simp: sorted_wrt_append)
  ultimately show ?case using p by (simp add: ordered_ranges_def)
qed (simp add: ordered_ranges_def)

lemma concat_segments:
  "\<forall>(d, docs)\<in>set segs. list_all2 P docs (f d) \<Longrightarrow> list_all2 P (concat (map snd segs)) (concat (map f (map fst segs)))"
  by (induction segs) (auto intro: list_all2_appendI)


lemma run_materialize:
  assumes "ordered_ranges ds" "\<forall>d\<in>set ds. chunk_rows bytes sha coll s d = Inr (rows d)"
  shows "run (view_materialize bytes sha coll ds) s = (Inr (keyed (concat (map rows ds))), s)"
proof -
  have lay: "laid_out ds rows" by (rule laid_out_rows [OF assms])
  have "filter (in_range None None) xs = xs" for xs by (simp add: in_range_def)
  then have "run (view_scan bytes sha coll ds None None) s = (Inr (keyed (concat (map rows ds))), s)"
    using run_view_scan [OF lay assms(2), of None None] by (simp add: assert_bound_def)
  then show ?thesis by (simp add: view_materialize_def run_io_bind keyed_rows_to_map laid_out_sorted [OF lay])
qed

section \<open>Every build\<close>

lemma build_initial:
  assumes "buildSnapshotChunks bytes sha input = Some (Inr br)" "bi_descriptors input = []" "0 < target_rows (bi_policy input)"
  shows "check_mutations (bi_mutations input) = Inr ()"
    and "\<exists>segs. map fst segs = br_chunks br \<and> concat (map snd segs) = updated_docs [] (map snd (bi_mutations input)) \<and>
      outputs bytes sha input rows {} (br_changed br) segs"
proof -
  let ?U = "updated_docs [] (map snd (bi_mutations input))"
  obtain ev where ev: "evaluateSnapshotChunks bytes sha input = Some (Inr ev)" "ev_mint ev = Inr br"
    using assms(1) by (auto simp: buildSnapshotChunks_def)
  then show "check_mutations (bi_mutations input) = Inr ()"
    unfolding evaluateSnapshotChunks_def by (auto simp del: result_bind_Inr)
  have init: "evaluateInitialEmptyChunks bytes sha input = Some (Inr ev)"
    using ev(1) assms(2) unfolding evaluateSnapshotChunks_def by (auto simp del: result_bind_Inr)
  show "\<exists>segs. map fst segs = br_chunks br \<and> concat (map snd segs) = ?U \<and> outputs bytes sha input rows {} (br_changed br) segs"
  proof (cases "?U = []")
    case True
    then show ?thesis using init ev(2) by (auto simp: evaluateInitialEmptyChunks_def Let_def outputs_def)
  next
    case False
    then obtain items outs where items: "splitGroupDocsGreedily bytes (bi_collection input) (bi_incarnation input) (bi_policy input) ?U = Some (Inr items)"
      and outs: "mint_items bytes sha (bi_prefix input) (bi_incarnation input) items = Inr outs"
      and br: "br_chunks br = map fst outs" "br_changed br = outs"
      using init ev(2) by (auto simp: evaluateInitialEmptyChunks_def Let_def)
    note split = split_items [OF assms(3) items]
    then have "items_ok bytes input items" by (simp add: items_ok_def)
    from mint_items_outputs [OF outs this] show ?thesis using split br by auto
  qed
qed

lemma build_segments:
  assumes build: "buildSnapshotChunks bytes sha input = Some (Inr br)" and pos: "0 < target_rows (bi_policy input)"
    and lay: "laid_out (bi_descriptors input) rows" and muts: "distinct (obj_keys (bi_mutations input))"
    and loaded: "\<forall>d\<in>set (bi_descriptors input). \<forall>docs. map_of (bi_loaded input) (d_key d) = Some docs \<longrightarrow> docs = rows d"
  shows "check_mutations (bi_mutations input) = Inr ()"
    and "\<exists>segs. map fst segs = br_chunks br \<and>
      concat (map snd segs) = updated_docs (keyed (concat (map rows (bi_descriptors input)))) (map snd (bi_mutations input)) \<and>
      outputs bytes sha input rows (set (bi_descriptors input)) (br_changed br) segs"
proof -
  have ord: "ordered_ranges (bi_descriptors input)" using lay by (simp add: laid_out_def)
  show chk: "check_mutations (bi_mutations input) = Inr ()"
    using build_initial(1) [OF build _ pos] build_Inr [OF build] by (cases "bi_descriptors input = []") blast+
  then have ok: "muts_ok (bi_mutations input)" using muts check_mutations_ok by (auto simp: muts_ok_def)
  show "\<exists>segs. map fst segs = br_chunks br \<and>
      concat (map snd segs) = updated_docs (keyed (concat (map rows (bi_descriptors input)))) (map snd (bi_mutations input)) \<and>
      outputs bytes sha input rows (set (bi_descriptors input)) (br_changed br) segs"
  proof (cases "bi_descriptors input = []")
    case True
    then show ?thesis using build_initial(2) [OF build True pos, of rows] by (simp add: keyed_def)
  next
    case False
    then show ?thesis using build_outputs [OF build False ord pos loaded] renewed_spread [OF lay False ok] by simp
  qed
qed

lemma build_reads:
  fixes input
  defines "ds \<equiv> bi_descriptors input" and "coll \<equiv> bi_collection input"
  assumes build: "buildSnapshotChunks bytes sha input = Some (Inr br)" and pos: "0 < target_rows (bi_policy input)"
    and ord: "ordered_ranges ds" and read: "\<forall>d\<in>set ds. chunk_rows bytes sha coll s d = Inr (rows d)"
    and loaded: "\<forall>d\<in>set ds. \<forall>docs. map_of (bi_loaded input) (d_key d) = Some docs \<longrightarrow> docs = rows d"
    and muts: "distinct (obj_keys (bi_mutations input))"
    and line: "\<forall>x\<in>set (bi_prefix input). \<not> is_line_terminator x" and size: "\<forall>b. bytes b \<noteq> 0"
    and kept: "\<forall>d\<in>set ds. chunk_rows bytes sha coll s' d = Inr (rows d)"
    and stored: "\<forall>(d, b)\<in>set (br_changed br). \<exists>e. memory_get (d_key d) None s' = Inr (Some (b, e))"
  shows "check_mutations (bi_mutations input) = Inr ()" and "ordered_ranges (br_chunks br)"
    and "\<forall>d\<in>set (concat (map rows ds)). stored_as d d" and "sorted_wrt (<) (map doc_id (concat (map rows ds)))"
    and "\<exists>docs'. run (view_materialize bytes sha coll (br_chunks br)) s' = (Inr (keyed docs'), s') \<and>
      list_all2 stored_as (updated_docs (keyed (concat (map rows ds))) (map snd (bi_mutations input))) docs'"
proof -
  define new where "new d = (case chunk_rows bytes sha coll s' d of Inr docs \<Rightarrow> docs | Inl _ \<Rightarrow> [])" for d
  let ?R = "concat (map rows ds)"
  let ?U = "updated_docs (keyed ?R) (map snd (bi_mutations input))"
  have lay: "laid_out ds rows" by (rule laid_out_rows [OF ord read])
  then show "sorted_wrt (<) (map doc_id ?R)" by (rule laid_out_sorted)
  obtain segs where segs: "map fst segs = br_chunks br" "concat (map snd segs) = ?U"
      "outputs bytes sha input rows (set ds) (br_changed br) segs"
    using build_segments(2) [OF build pos lay [unfolded ds_def] muts loaded [unfolded ds_def]] unfolding ds_def by blast
  show chk: "check_mutations (bi_mutations input) = Inr ()"
    by (rule build_segments(1) [OF build pos lay [unfolded ds_def] muts loaded [unfolded ds_def]])
  show canon: "\<forall>d\<in>set ?R. stored_as d d" using read chunk_rows_range(4) by fastforce
  have seg: "chunk_rows bytes sha coll s' d = Inr (new d) \<and> list_all2 stored_as docs (new d) \<and> docs \<noteq> [] \<and>
      d_first_id d = doc_id (hd docs) \<and> d_last_id d = doc_id (last docs)" if "(d, docs) \<in> set segs" for d docs
  proof -
    have "(d \<in> set ds \<and> docs = rows d) \<or> (\<exists>b. (d, b) \<in> set (br_changed br) \<and> minted bytes sha input d docs b)"
      using segs(3) that by (auto simp: outputs_def)
    then show ?thesis
    proof (elim disjE conjE exE)
      assume old: "d \<in> set ds" "docs = rows d"
      then have "chunk_rows bytes sha coll s' d = Inr docs" using kept by simp
      then show ?thesis using chunk_rows_range [of bytes sha coll s' d docs] by (simp add: new_def list_all2_same)
    next
      fix b assume b: "(d, b) \<in> set (br_changed br)" "minted bytes sha input d docs b"
      then obtain e where "memory_get (d_key d) None s' = Inr (Some (b, e))" using stored by blast
      from minted_reads [OF b(2) this line] obtain docs' where "chunk_rows bytes sha coll s' d = Inr docs'" "list_all2 stored_as docs docs'"
        using size unfolding coll_def by blast
      moreover have "docs \<noteq> []" "d_first_id d = doc_id (hd docs)" "d_last_id d = doc_id (last docs)"
        using b(2) by (auto simp: minted_def item_ok_def)
      ultimately show ?thesis by (simp add: new_def)
    qed
  qed
  have all: "list_all2 stored_as ?U (concat (map new (br_chunks br)))"
    using concat_segments [of segs stored_as new] seg segs(1,2) by fastforce
  have ok: "muts_ok (bi_mutations input)" using muts check_mutations_ok [OF chk] by (auto simp: muts_ok_def)
  have sorted: "sorted_wrt (<) (map doc_id ?U)"
    by (rule updated_docs_spec(1) [OF idmap_keyed [OF laid_out_sorted [OF lay]] muts_ok_snd(2) [OF ok]])
  show ord': "ordered_ranges (br_chunks br)" using segments_ordered [of segs] seg segs(1,2) sorted by fastforce
  have read': "\<forall>d\<in>set (br_chunks br). chunk_rows bytes sha coll s' d = Inr (new d)"
    unfolding segs(1) [symmetric] using seg by auto
  show "\<exists>docs'. run (view_materialize bytes sha coll (br_chunks br)) s' = (Inr (keyed docs'), s') \<and> list_all2 stored_as ?U docs'"
    using run_materialize [OF ord' read'] all by blast
qed

text \<open>
  (C14) The chunk builder implements the reference fold. From a snapshot whose descriptors are in order and
  whose chunks are readable, with any of those chunks loaded, a build that succeeds yields descriptors in order;
  and once the changed chunks are stored under their keys, and the old ones are still there, a view over
  those descriptors materializes exactly the rows that \<^verbatim>\<open>foldChunkedSnapshotReference\<close> computes from
  the old rows and the mutations, in the same order, each document with its members in canonical order.
\<close>

theorem build_refines_reference:
  fixes input
  defines "ds \<equiv> bi_descriptors input" and "coll \<equiv> bi_collection input"
  assumes build: "buildSnapshotChunks bytes sha input = Some (Inr br)" and pos: "0 < target_rows (bi_policy input)"
    and ord: "ordered_ranges ds" and read: "\<forall>d\<in>set ds. chunk_rows bytes sha coll s d = Inr (rows d)"
    and loaded: "\<forall>d\<in>set ds. \<forall>docs. map_of (bi_loaded input) (d_key d) = Some docs \<longrightarrow> docs = rows d"
    and muts: "distinct (obj_keys (bi_mutations input))"
    and line: "\<forall>x\<in>set (bi_prefix input). \<not> is_line_terminator x" and size: "\<forall>b. bytes b \<noteq> 0"
    and kept: "\<forall>d\<in>set ds. chunk_rows bytes sha coll s' d = Inr (rows d)"
    and stored: "\<forall>(d, b)\<in>set (br_changed br). \<exists>e. memory_get (d_key d) None s' = Inr (Some (b, e))"
  shows "\<exists>ref out. foldChunkedSnapshotReference (keyed (concat (map rows ds))) (map snd (bi_mutations input)) = Inr ref \<and>
    run (view_materialize bytes sha coll (br_chunks br)) s' = (Inr out, s') \<and> ordered_ranges (br_chunks br) \<and>
    list_all2 (\<lambda>(i, d) (i', d'). i' = i \<and> stored_as d d') ref out"
proof -
  note reads = build_reads [OF assms(3-12) [unfolded ds_def coll_def], folded ds_def coll_def]
  obtain docs' where docs': "run (view_materialize bytes sha coll (br_chunks br)) s' = (Inr (keyed docs'), s')"
      "list_all2 stored_as (updated_docs (keyed (concat (map rows ds))) (map snd (bi_mutations input))) docs'"
    using reads(5) by blast
  have "foldChunkedSnapshotReference (keyed (concat (map rows ds))) (map snd (bi_mutations input)) =
      Inr (keyed (updated_docs (keyed (concat (map rows ds))) (map snd (bi_mutations input))))"
    using list_all2_left [OF docs'(2)] by (intro reference_is_updated [OF reads(4,3) muts reads(1)]) blast
  then show ?thesis using docs'(1) reads(2) stored_keyed [OF docs'(2)] by blast
qed


section \<open>Every build returns\<close>

lemma out_bind_returns: "\<exists>r. m = Some r \<Longrightarrow> (\<And>x. \<exists>r. f x = Some r) \<Longrightarrow> \<exists>r. out_bind m f = Some r"
  by (auto simp: out_bind_def split: sum.split)

lemma rewrite_groups_returns:
  assumes "0 < target_rows (bi_policy input)"
  shows "\<exists>r. rewrite_groups bytes input gs st = Some r"
proof (induction gs arbitrary: st)
  case (Cons g gs)
  have "\<exists>r. rewrite_group bytes input (fst g) (snd g) st = Some r"
    unfolding rewrite_group_def Let_def
    by (rule out_bind_returns) (auto intro!: out_bind_returns split_returns [OF assms])
  then show ?case using Cons by (cases g) (auto intro!: out_bind_returns)
qed simp

text \<open>
  (C15) With a positive row target, which every policy of \<^verbatim>\<open>CHUNK_BOUNDARY_POLICIES\<close> has, a build
  returns on every input, with a result or an error. With a row target of zero, which nothing refuses, the
  split loop never returns for any non-empty group, so the first insert into an empty snapshot never returns.
\<close>

theorem builder_returns:
  "(\<forall>p\<in>set CHUNK_BOUNDARY_POLICIES. 0 < target_rows (snd p)) \<and>
   (0 < target_rows (bi_policy input) \<longrightarrow> (\<exists>r. buildSnapshotChunks bytes sha input = Some r)) \<and>
   (target_rows pol = 0 \<longrightarrow> (\<exists>r. splitGroupDocsGreedily bytes coll inc pol docs = Some r) = (docs = [])) \<and>
   (target_rows (bi_policy input) = 0 \<and> updated_docs [] (map snd (bi_mutations input)) \<noteq> [] \<longrightarrow>
     evaluateInitialEmptyChunks bytes sha input = None)"
proof -
  have "\<exists>r. buildSnapshotChunks bytes sha input = Some r" if "0 < target_rows (bi_policy input)"
    using that unfolding buildSnapshotChunks_def evaluateSnapshotChunks_def evaluateInitialEmptyChunks_def Let_def
    by (auto intro!: out_bind_returns split_returns rewrite_groups_returns)
  moreover have "(\<exists>r. splitGroupDocsGreedily bytes coll inc pol docs = Some r) = (docs = [])" if "target_rows pol = 0"
    using split_never_returns [OF that, of docs bytes coll inc]
    by (cases "docs = []") (auto simp: splitGroupDocsGreedily.simps [of bytes coll inc pol "[]"])
  moreover have "evaluateInitialEmptyChunks bytes sha input = None"
    if "target_rows (bi_policy input) = 0" "updated_docs [] (map snd (bi_mutations input)) \<noteq> []"
    using split_never_returns [OF that] that(2) by (simp add: evaluateInitialEmptyChunks_def)
  ultimately show ?thesis by (simp add: CHUNK_BOUNDARY_POLICIES_def)
qed


section \<open>A concrete build\<close>

text \<open>One chunk with the rows a and b; c is inserted and a deleted.\<close>

definition next_incarnation :: string where "next_incarnation = replicate 32 (CHR ''1'')"

definition sample_input :: build_input where
  "sample_input = \<lparr>bi_collection = ''c'', bi_prefix = ''p'', bi_descriptors = sm_chunks sample_manifest,
     bi_loaded = [(sample_key ChunkArtifact, [sample_row ''a'', sample_row ''b''])],
     bi_mutations = [(''c'', \<lparr>mu_op = OpI, mu_doc_id = ''c'', mu_after = Some (sample_row ''c'')\<rparr>),
       (''a'', \<lparr>mu_op = OpD, mu_doc_id = ''a'', mu_after = None\<rparr>)],
     bi_incarnation = next_incarnation, bi_policy = \<lparr>target_chunk_bytes = 1024, target_rows = 2\<rparr>,
     bi_owner = None, bi_neighbor = None\<rparr>"

definition next_docs :: "doc list" where "next_docs = [sample_row ''b'', sample_row ''c'']"

definition next_body :: blob where
  "next_body = BJson (chunk_json (candidate_chunk ''c'' next_incarnation next_docs))"

definition next_key :: string where
  "next_key = ''p'' @ artifact_tail ChunkArtifact next_incarnation (replicate 64 (CHR ''a''))"

definition next_descriptor :: descriptor where
  "next_descriptor = \<lparr>d_first_id = ''b'', d_last_id = ''c'', d_key = next_key, d_byte_length = 9, d_row_count = 2\<rparr>"

definition next_store :: store where
  "next_store = sample_store\<lparr>objects := objects sample_store @ [(next_key, \<lparr>body = next_body, etag = etag_of 3\<rparr>)]\<rparr>"

lemma sample_rows_encode:
  assumes "ids \<noteq> []" "sorted_wrt (<) ids" "\<forall>i\<in>set ids. assertPathSegment i = Inr ()" "length ids \<le> MAX_CHUNK_ROWS"
  defines "c \<equiv> candidate_chunk ''c'' next_incarnation (map sample_row ids)"
  shows "encodeBuilderChunk (\<lambda>_. 9) c = Inr (BJson (chunk_json c))"
proof -
  have "INCARNATION_PATTERN next_incarnation" by code_simp
  then have "wf_chunk c"
    using assms by (auto simp: wf_chunk_def c_def candidate_chunk_def sample_canonical list_all_iff comp_def)
  from canonicalizeChunk_fix [OF this, of InvalidConfig] show ?thesis
    using sample_ids(3) by (simp add: encodeBuilderChunk_def encodeSnapshotChunk_def c_def candidate_chunk_def MAX_CHUNK_BYTES_def)
qed

lemma next_encodes: "encodeBuilderChunk (\<lambda>_. 9) (candidate_chunk ''c'' next_incarnation next_docs) = Inr next_body"
  using sample_rows_encode [of "[''b'', ''c'']"] sample_ids by (simp add: next_docs_def next_body_def MAX_CHUNK_ROWS_def)

text \<open>A group that fits one chunk is not split.\<close>

lemma split_one:
  assumes "docs \<noteq> []" "length docs \<le> target_rows pol"
    and "encodeBuilderChunk bytes (candidate_chunk coll inc docs) = Inr b" "bytes b \<le> target_chunk_bytes pol"
  shows "splitGroupDocsGreedily bytes coll inc pol docs = Some (Inr [(docs, b)])"
proof -
  obtain n where n: "length docs = Suc n" using assms(1) by (cases docs) auto
  then have "take (Suc n) docs = docs" by simp
  then have "fit_chunk bytes coll inc pol docs (min (target_rows pol) (length docs)) = Some (Inr (docs, b))"
    using assms n by (simp add: min_absorb2)
  from split_unfold [OF assms(1) this] show ?thesis by (simp add: splitGroupDocsGreedily.simps [of _ _ _ _ "[]"])
qed

lemma next_split:
  "splitGroupDocsGreedily (\<lambda>_. 9) ''c'' next_incarnation \<lparr>target_chunk_bytes = 1024, target_rows = 2\<rparr> next_docs = Some (Inr [(next_docs, next_body)])"
  by (rule split_one [OF _ _ next_encodes]) (simp_all add: next_docs_def)

lemma next_checked: "check_mutations (bi_mutations sample_input) = Inr ()"
  using sample_ids by (simp add: sample_input_def assertPostImageIdentity_def sample_row_def guard_def)

lemma next_routed:
  "group_mutations (bi_descriptors sample_input) (bi_mutations sample_input) [] = [(0, map snd (bi_mutations sample_input))]"
proof -
  have "routeMutationToDescriptor i op (sm_chunks sample_manifest) = Some 0" if "op \<noteq> OpD \<or> i = ''a''" for i op
    using that by (auto simp: routeMutationToDescriptor_def sample_manifest_def Let_def firstDescriptorEndingAtOrAfter_def lower_bound.simps)
  then show ?thesis by (simp add: sample_input_def)
qed

lemma next_updated:
  "updated_docs (rows_to_map (keyed [sample_row ''a'', sample_row ''b''])) (map snd (bi_mutations sample_input)) = next_docs"
  by (simp add: updated_docs_def toSorted_docs keyed_def rows_to_map_def sample_canonical sample_input_def apply_mutation_def
      next_docs_def obj_del_def)

lemma next_key_minted: "snapshotChunkKey ''p'' next_incarnation (replicate 64 (CHR ''a'')) = Inr next_key" "INCARNATION_PATTERN next_incarnation"
  by code_simp+

lemma next_build:
  "buildSnapshotChunks (\<lambda>_. 9) sample_sha sample_input =
   Some (Inr \<lparr>br_chunks = [next_descriptor], br_changed = [(next_descriptor, next_body)], br_split_increments = 0, br_used_neighbor = None\<rparr>)"
proof -
  have input: "bi_collection sample_input = ''c''" "bi_prefix sample_input = ''p''" "bi_incarnation sample_input = next_incarnation"
      "bi_policy sample_input = \<lparr>target_chunk_bytes = 1024, target_rows = 2\<rparr>" "bi_owner sample_input = None"
    and load: "bi_descriptors sample_input \<noteq> []"
      "getLoadedDocs (bi_loaded sample_input) (bi_descriptors sample_input ! 0) = Inr [sample_row ''a'', sample_row ''b'']"
      "[sample_row ''a'', sample_row ''b''] \<noteq> next_docs" "next_docs \<noteq> []" "length (bi_descriptors sample_input) = 1"
    by (simp_all add: sample_input_def sample_manifest_def getLoadedDocs_def next_docs_def sample_row_def)
  obtain d where d: "bi_descriptors sample_input = [d]" using load(5) by (auto simp: length_Suc_conv)
  have mint: "mint_items (\<lambda>_. 9) sample_sha ''p'' next_incarnation [(next_docs, next_body)] = Inr [(next_descriptor, next_body)]"
    using next_key_minted(1) by (simp add: mint_items_def appendChunkOutput_def sample_sha_def next_descriptor_def next_docs_def sample_canonical)
  have "rewrite_groups (\<lambda>_. 9) sample_input [(0, map snd (bi_mutations sample_input))]
      \<lparr>rewritten = [], unchangedGroups = [], totalSplitIncrements = 0\<rparr> =
    Some (Inr \<lparr>rewritten = [(0, [(next_docs, next_body)])], unchangedGroups = [], totalSplitIncrements = 0\<rparr>)"
    using load next_updated next_split by (simp add: rewrite_group_def input Let_def)
  then show ?thesis
    using load(1) next_checked next_routed next_key_minted(2) mint d
    by (simp add: buildSnapshotChunks_def evaluateSnapshotChunks_def guard_def input Let_def)
qed

theorem build_refines_reference_witness:
  "\<exists>br ref out. buildSnapshotChunks (\<lambda>_. 9) sample_sha sample_input = Some (Inr br) \<and>
     foldChunkedSnapshotReference (keyed [sample_row ''a'', sample_row ''b'']) (map snd (bi_mutations sample_input)) = Inr ref \<and>
     run (view_materialize (\<lambda>_. 9) sample_sha ''c'' (br_chunks br)) next_store = (Inr out, next_store) \<and>
     list_all2 (\<lambda>(i, d) (i', d'). i' = i \<and> stored_as d d') ref out"
proof -
  let ?docs = "[sample_row ''a'', sample_row ''b'']"
  have keys: "valid_key (sample_key ChunkArtifact)" "valid_key next_key" "next_key \<noteq> sample_key ChunkArtifact"
    "next_key \<noteq> sample_key ManifestArtifact" "sample_key ManifestArtifact \<noteq> sample_key ChunkArtifact" by code_simp+
  have get: "memory_get (sample_key ChunkArtifact) None next_store = Inr (Some (BJson (chunk_json sample_chunk), etag_of 2))"
    "memory_get next_key None next_store = Inr (Some (next_body, etag_of 3))"
    using keys by (simp_all add: memory_get_def next_store_def sample_store_def)
  have input: "bi_collection sample_input = ''c''" "bi_prefix sample_input = ''p''" "bi_descriptors sample_input = sm_chunks sample_manifest"
    by (simp_all add: sample_input_def)
  have rows: "chunk_rows (\<lambda>_. 9) sample_sha ''c'' s d = Inr ?docs"
    if "memory_get (sample_key ChunkArtifact) None s = Inr (Some (BJson (chunk_json sample_chunk), e))" "d \<in> set (sm_chunks sample_manifest)" for s e d
    using sample_decodes(2) that unfolding chunk_rows_decode by (simp add: sample_manifest_def sample_chunk_def)
  from build_refines_reference [OF next_build, of sample_store "\<lambda>_. ?docs" next_store, unfolded input]
  show ?thesis
    using sample_wf(2) rows [OF sample_store_get(2)] rows [OF get(1)] get(2) next_build
    by (fastforce simp: wf_manifest_def sample_input_def is_line_terminator_def next_descriptor_def sample_manifest_def)
qed

theorem builder_returns_witness:
  "(\<exists>r. buildSnapshotChunks (\<lambda>_. 9) sample_sha sample_input = Some r) \<and>
   splitGroupDocsGreedily (\<lambda>_. 9) ''c'' next_incarnation \<lparr>target_chunk_bytes = 1024, target_rows = 0\<rparr> next_docs = None \<and>
   evaluateInitialEmptyChunks (\<lambda>_. 9) sample_sha (sample_input\<lparr>bi_policy := \<lparr>target_chunk_bytes = 1024, target_rows = 0\<rparr>\<rparr>) = None"
proof -
  have "updated_docs [] (map snd (bi_mutations sample_input)) \<noteq> []"
    by (simp add: updated_docs_def toSorted_docs sample_input_def apply_mutation_def obj_del_def)
  then have "evaluateInitialEmptyChunks (\<lambda>_. 9) sample_sha (sample_input\<lparr>bi_policy := \<lparr>target_chunk_bytes = 1024, target_rows = 0\<rparr>\<rparr>) = None"
    using builder_returns [of "sample_input\<lparr>bi_policy := \<lparr>target_chunk_bytes = 1024, target_rows = 0\<rparr>\<rparr>"] by simp
  moreover have "\<exists>r. buildSnapshotChunks (\<lambda>_. 9) sample_sha sample_input = Some r"
    using builder_returns [of sample_input] by (simp add: sample_input_def)
  moreover have "splitGroupDocsGreedily (\<lambda>_. 9) ''c'' next_incarnation \<lparr>target_chunk_bytes = 1024, target_rows = 0\<rparr> next_docs = None"
    using builder_returns [of sample_input "\<lambda>_. 9" sample_sha "\<lparr>target_chunk_bytes = 1024, target_rows = 0\<rparr>" "''c''" next_incarnation next_docs]
    by (simp add: next_docs_def)
  ultimately show ?thesis by blast
qed

section \<open>A neighbour that does not fit\<close>




end
