(* ===== verification/FoldPlanner.thy ===== *)
theory FoldPlanner
  imports ChunkRefinement
begin

text \<open>
  \<^verbatim>\<open>packages/server/src/chunked-fold-planner.ts\<close>: choosing how much of the log one chunked fold takes. The
  prefetch walks the entries on descriptor metadata alone, collapsing mutations by document, and stops
  before the first entry over a budget; the plan then runs the chunk builder on each candidate prefix and
  keeps the longest one admitted in sequence. Shown here: the prefetch stays within its budgets whenever
  it touches a chunk, and a plan, once its chunks are stored, reads as the log fold of
  \<^verbatim>\<open>log-walk.ts\<close> over the entries it covers.
\<close>

section \<open>Model\<close>

record fold_budget =
  max_log_entries :: nat
  max_mutation_bytes :: nat
  max_touched_chunks :: nat
  max_touched_bytes :: nat
  max_split_increments :: nat
  max_neighbor_chunks :: nat

record fold_prefetch =
  pf_candidate_log_seq_ends :: "nat list"
  pf_direct :: "nat list"
  pf_chunk_indexes :: "nat list"
  pf_touched_bytes :: nat
  pf_owner :: "nat option"
  pf_neighbor :: "nat option"

record fold_plan =
  pl_log_seq_end :: nat
  pl_prefetch :: fold_prefetch
  pl_touched_chunk_indexes :: "nat list"
  pl_touched_ranges :: "(string \<times> string) list"
  pl_mutation_bytes :: nat
  pl_mutations :: "(string \<times> mutation) list"
  pl_build :: build_result

definition assertStoredEntryDocId :: "string option \<Rightarrow> string result" where
  "assertStoredEntryDocId i =
     (case i of None \<Rightarrow> throw InvalidResponse
      | Some x \<Rightarrow> (case assertSnapshotDocId x of Inl _ \<Rightarrow> throw InvalidResponse | Inr _ \<Rightarrow> Inr x))"

definition entryToMutation :: "log_entry \<Rightarrow> mutation result" where
  "entryToMutation e =
     result_bind (assertStoredEntryDocId (le_doc_id e)) (\<lambda>i.
     if le_op e = OpD then Inr \<lparr>mu_op = OpD, mu_doc_id = i, mu_after = None\<rparr>
     else (case le_after e of
         None \<Rightarrow> throw InvalidResponse
       | Some a \<Rightarrow>
           result_bind (assertPostImageIdentity i (Some a) InvalidResponse) (\<lambda>_.
           Inr \<lparr>mu_op = le_op e, mu_doc_id = i, mu_after = Some a\<rparr>)))"

definition computeMutationContribution :: "(blob \<Rightarrow> nat) \<Rightarrow> descriptor list \<Rightarrow> mutation \<Rightarrow> nat" where
  "computeMutationContribution bytes descriptors mut =
     (if mu_op mut = OpD then
        (if routeMutationToDescriptor (mu_doc_id mut) OpD descriptors \<noteq> None
         then length (utf8_encode (mu_doc_id mut)) else 0)
      else bytes (BJson (JObj (the (mu_after mut)))))"

text \<open>\<^verbatim>\<open>Set.add\<close>, in insertion order.\<close>

definition set_add :: "nat \<Rightarrow> nat list \<Rightarrow> nat list" where
  "set_add x xs = (if x \<in> set xs then xs else xs @ [x])"

definition direct_targets :: "descriptor list \<Rightarrow> (string \<times> mutation) list \<Rightarrow> nat list" where
  "direct_targets descriptors muts =
     fold (\<lambda>(docId, mut) acc. case routeMutationToDescriptor docId (mu_op mut) descriptors of
         None \<Rightarrow> acc | Some target \<Rightarrow> set_add target acc) muts []"

definition chunk_bytes :: "descriptor list \<Rightarrow> nat list \<Rightarrow> nat" where
  "chunk_bytes descriptors indexes = sum_list (map (\<lambda>i. d_byte_length (descriptors ! i)) indexes)"

record prefetch_state =
  ps_ends :: "nat list"
  ps_direct :: "nat list"
  ps_owner :: "nat option"
  ps_neighbor :: "nat option"
  ps_locked :: bool
  ps_mutations :: "(string \<times> mutation) list"
  ps_mutation_bytes :: int

definition add_neighbor :: "nat option \<Rightarrow> nat list \<Rightarrow> nat list" where
  "add_neighbor n xs = (case n of None \<Rightarrow> xs | Some i \<Rightarrow> set_add i xs)"

text \<open>The loop of the prefetch at entry number \<open>m\<close>; ending early is \<^verbatim>\<open>break\<close>.\<close>

fun prefetch_loop ::
  "(blob \<Rightarrow> nat) \<Rightarrow> descriptor list \<Rightarrow> fold_budget \<Rightarrow> nat \<Rightarrow> log_entry list \<Rightarrow> prefetch_state \<Rightarrow> prefetch_state result" where
  "prefetch_loop bytes descriptors budget m [] st = Inr st"
| "prefetch_loop bytes descriptors budget m (e # entries) st =
     (if m + 1 > max_log_entries budget then Inr st
      else
        result_bind (entryToMutation e) (\<lambda>mut.
        let prev = (case map_of (ps_mutations st) (mu_doc_id mut) of
              None \<Rightarrow> 0 | Some u \<Rightarrow> int (computeMutationContribution bytes descriptors u));
            total = ps_mutation_bytes st - prev + int (computeMutationContribution bytes descriptors mut);
            muts = obj_set (mu_doc_id mut) mut (ps_mutations st)
        in if total > int (max_mutation_bytes budget) then Inr st
        else
          let current = direct_targets descriptors muts;
              (owner, neighbor) = deriveOwnerAndNeighbor current (length descriptors)
          in if ps_locked st \<and> (owner \<noteq> ps_owner st \<or> neighbor \<noteq> ps_neighbor st) then Inr st
          else
            let st' = (if \<not> ps_locked st \<and> owner \<noteq> None
                       then st\<lparr>ps_owner := owner, ps_neighbor := neighbor, ps_locked := True\<rparr> else st);
                cumulative = fold set_add current (ps_direct st)
            in if length cumulative > max_touched_chunks budget then Inr st'
            else if chunk_bytes descriptors (add_neighbor (ps_neighbor st') cumulative) > max_touched_bytes budget then Inr st'
            else prefetch_loop bytes descriptors budget (m + 1) entries
              (st'\<lparr>ps_ends := ps_ends st @ [le_seq e], ps_direct := cumulative, ps_mutations := muts,
                   ps_mutation_bytes := total\<rparr>)))"

definition prefetchChunkedFold ::
  "(blob \<Rightarrow> nat) \<Rightarrow> log_entry list \<Rightarrow> descriptor list \<Rightarrow> fold_budget \<Rightarrow> fold_prefetch result" where
  "prefetchChunkedFold bytes entries descriptors budget =
     result_bind (prefetch_loop bytes descriptors budget 0 entries
       \<lparr>ps_ends = [], ps_direct = [], ps_owner = None, ps_neighbor = None, ps_locked = False, ps_mutations = [],
        ps_mutation_bytes = 0\<rparr>) (\<lambda>st.
     let chunk_indexes = sort (add_neighbor (ps_neighbor st) (ps_direct st)) in
     Inr \<lparr>pf_candidate_log_seq_ends = ps_ends st, pf_direct = sort (ps_direct st), pf_chunk_indexes = chunk_indexes,
          pf_touched_bytes = chunk_bytes descriptors chunk_indexes, pf_owner = ps_owner st, pf_neighbor = ps_neighbor st\<rparr>)"

record plan_input =
  pi_collection :: string
  pi_prefix :: string
  pi_entries :: "log_entry list"
  pi_descriptors :: "descriptor list"
  pi_loaded :: "(string \<times> doc list) list"
  pi_budget :: fold_budget
  pi_incarnation :: string
  pi_policy :: policy
  pi_base_log_seq :: "nat option"

fun collapse_entries :: "(string \<times> mutation) list \<Rightarrow> log_entry list \<Rightarrow> (string \<times> mutation) list result" where
  "collapse_entries muts [] = Inr muts"
| "collapse_entries muts (e # entries) =
     result_bind (entryToMutation e) (\<lambda>mut. collapse_entries (obj_set (mu_doc_id mut) mut muts) entries)"

definition builder_input :: "plan_input \<Rightarrow> fold_prefetch \<Rightarrow> (string \<times> mutation) list \<Rightarrow> build_input" where
  "builder_input pin prefetch muts =
     \<lparr>bi_collection = pi_collection pin, bi_prefix = pi_prefix pin, bi_descriptors = pi_descriptors pin,
      bi_loaded = pi_loaded pin, bi_mutations = muts, bi_incarnation = pi_incarnation pin, bi_policy = pi_policy pin,
      bi_owner = pf_owner prefetch, bi_neighbor = pf_neighbor prefetch\<rparr>"

text \<open>\<^verbatim>\<open>lastAdmitted\<close>: the plan without its build, and the evaluation that mints it.\<close>

record admitted =
  ad_log_seq_end :: nat
  ad_touched_chunk_indexes :: "nat list"
  ad_touched_ranges :: "(string \<times> string) list"
  ad_mutation_bytes :: nat
  ad_mutations :: "(string \<times> mutation) list"
  ad_evaluation :: evaluation

text \<open>The candidates from endpoint \<open>i\<close> on.\<close>

fun select_prefix ::
  "(blob \<Rightarrow> nat) \<Rightarrow> (blob \<Rightarrow> string) \<Rightarrow> plan_input \<Rightarrow> fold_prefetch \<Rightarrow> nat \<Rightarrow> nat list \<Rightarrow> admitted option
   \<Rightarrow> admitted option call_outcome" where
  "select_prefix bytes sha pin prefetch i [] best = Some (Inr best)"
| "select_prefix bytes sha pin prefetch i (endpointSeq # ends) best =
     out_bind (Some (collapse_entries [] (take (i + 1) (pi_entries pin)))) (\<lambda>muts.
     let ds = pi_descriptors pin; touched = sort (direct_targets ds muts) in
     out_bind (evaluateSnapshotChunks bytes sha (builder_input pin prefetch muts)) (\<lambda>ev.
     if ev_split_increments ev > max_split_increments (pi_budget pin)
        \<or> (if ev_used_neighbor ev = None then 0 else 1) > max_neighbor_chunks (pi_budget pin)
     then Some (Inr best)
     else select_prefix bytes sha pin prefetch (i + 1) ends
       (Some \<lparr>ad_log_seq_end = endpointSeq, ad_touched_chunk_indexes = touched,
         ad_touched_ranges = map (\<lambda>j. (d_first_id (ds ! j), d_last_id (ds ! j))) touched,
         ad_mutation_bytes = sum_list (map (\<lambda>p. computeMutationContribution bytes ds (snd p)) muts),
         ad_mutations = muts, ad_evaluation = ev\<rparr>)))"

definition planChunkedFold ::
  "(blob \<Rightarrow> nat) \<Rightarrow> (blob \<Rightarrow> string) \<Rightarrow> plan_input \<Rightarrow> fold_plan option call_outcome" where
  "planChunkedFold bytes sha pin =
     out_bind (Some (prefetchChunkedFold bytes (pi_entries pin) (pi_descriptors pin) (pi_budget pin))) (\<lambda>prefetch.
     if pf_candidate_log_seq_ends prefetch = [] then
       (if pi_entries pin = [] then
          Some (Inr (Some \<lparr>pl_log_seq_end = (case pi_base_log_seq pin of None \<Rightarrow> 0 | Some n \<Rightarrow> n),
            pl_prefetch = prefetch, pl_touched_chunk_indexes = [], pl_touched_ranges = [], pl_mutation_bytes = 0,
            pl_mutations = [], pl_build = \<lparr>br_chunks = pi_descriptors pin, br_changed = [], br_split_increments = 0,
              br_used_neighbor = None\<rparr>\<rparr>))
        else Some (Inr None))
     else
       out_bind (select_prefix bytes sha pin prefetch 0 (pf_candidate_log_seq_ends prefetch) None) (\<lambda>best.
       case best of
         None \<Rightarrow> Some (Inr None)
       | Some ad \<Rightarrow>
           out_bind (Some (ev_mint (ad_evaluation ad))) (\<lambda>build.
           Some (Inr (Some \<lparr>pl_log_seq_end = ad_log_seq_end ad, pl_prefetch = prefetch,
             pl_touched_chunk_indexes = ad_touched_chunk_indexes ad, pl_touched_ranges = ad_touched_ranges ad,
             pl_mutation_bytes = ad_mutation_bytes ad, pl_mutations = ad_mutations ad, pl_build = build\<rparr>)))))"

section \<open>The prefetch\<close>

lemma set_add_simps [simp]: "set (set_add x xs) = insert x (set xs)" "distinct (set_add x xs) \<longleftrightarrow> distinct xs"
  by (auto simp: set_add_def)

lemma fold_set_add [simp]: "set (fold set_add xs acc) = set xs \<union> set acc" "distinct (fold set_add xs acc) \<longleftrightarrow> distinct acc"
  by (induction xs arbitrary: acc) auto

lemma add_neighbor_simps [simp]:
  "set (add_neighbor n xs) = set_option n \<union> set xs" "distinct (add_neighbor n xs) \<longleftrightarrow> distinct xs"
  "length (add_neighbor n xs) \<le> Suc (length xs)"
  by (auto simp: add_neighbor_def set_add_def split: option.split)

lemma route_less: "routeMutationToDescriptor x op ds = Some t \<Longrightarrow> t < length ds"
  by (auto simp: routeMutationToDescriptor_def Let_def split: if_splits)

lemma direct_targets_less: "t \<in> set (direct_targets ds muts) \<Longrightarrow> t < length ds"
proof -
  have "t \<in> set (fold (\<lambda>(docId, mut) acc. case routeMutationToDescriptor docId (mu_op mut) ds of
         None \<Rightarrow> acc | Some target \<Rightarrow> set_add target acc) muts acc) \<Longrightarrow> t \<in> set acc \<or> t < length ds" for acc
    by (induction muts arbitrary: acc) (fastforce split: option.splits dest: route_less)+
  then show "t \<in> set (direct_targets ds muts) \<Longrightarrow> t < length ds" unfolding direct_targets_def by fastforce
qed

lemma derive_None: "fst (deriveOwnerAndNeighbor (direct_targets ds muts) (length ds)) = None \<longleftrightarrow> direct_targets ds muts = []"
  using direct_targets_less [of "hd (direct_targets ds muts)" ds muts]
  by (cases "direct_targets ds muts") (auto simp: deriveOwnerAndNeighbor_def Let_def)

lemma foldr_min_le: "foldr min xs y \<le> (y :: nat)"
  by (induction xs) (auto intro: min.coboundedI2)

lemma derive_neighbor:
  assumes "snd (deriveOwnerAndNeighbor (direct_targets ds muts) (length ds)) = Some n"
  shows "n < length ds"
proof -
  let ?c = "direct_targets ds muts"
  have "?c \<noteq> []" using assms by (auto simp: deriveOwnerAndNeighbor_def)
  then have "foldr min ?c (hd ?c) < length ds"
    using direct_targets_less [of "hd ?c" ds muts] foldr_min_le [of ?c "hd ?c"] by simp
  then show ?thesis using assms by (auto simp: deriveOwnerAndNeighbor_def Let_def split: if_splits)
qed

definition spent :: "(blob \<Rightarrow> nat) \<Rightarrow> descriptor list \<Rightarrow> (string \<times> mutation) list \<Rightarrow> nat" where
  "spent bytes ds muts = sum_list (map (\<lambda>p. computeMutationContribution bytes ds (snd p)) muts)"

lemma spent_set:
  assumes "distinct (obj_keys muts)"
  shows "int (spent bytes ds (obj_set i u muts)) =
    int (spent bytes ds muts) - (case map_of muts i of None \<Rightarrow> 0 | Some v \<Rightarrow> int (computeMutationContribution bytes ds v))
      + int (computeMutationContribution bytes ds u)"
  using assms
proof (induction muts)
  case (Cons p muts)
  obtain j v where p: "p = (j, v)" by (cases p)
  show ?case
  proof (cases "j = i")
    case True
    then show ?thesis using p by (simp add: spent_def)
  next
    case False
    then show ?thesis using Cons p by (simp add: spent_def)
  qed
qed (simp add: spent_def)

lemma collapse_append:
  "collapse_entries acc (es @ fs) = result_bind (collapse_entries acc es) (\<lambda>muts. collapse_entries muts fs)"
  by (induction es arbitrary: acc) (auto simp: result_bind_def split: sum.split)

lemma collapse_distinct: "collapse_entries acc es = Inr muts \<Longrightarrow> distinct (obj_keys acc) \<Longrightarrow> distinct (obj_keys muts)"
  by (induction es arbitrary: acc) auto

text \<open>What the prefetch has established when it has accepted the entries \<open>taken\<close>.\<close>

definition accepted :: "(blob \<Rightarrow> nat) \<Rightarrow> descriptor list \<Rightarrow> fold_budget \<Rightarrow> log_entry list \<Rightarrow> prefetch_state \<Rightarrow> bool" where
  "accepted bytes ds bud taken st =
     (ps_ends st = map le_seq taken \<and> length taken \<le> max_log_entries bud \<and>
      (\<forall>k. 0 < k \<and> k \<le> length taken \<longrightarrow>
        (\<exists>muts. collapse_entries [] (take k taken) = Inr muts \<and> spent bytes ds muts \<le> max_mutation_bytes bud \<and>
          set (direct_targets ds muts) \<subseteq> set (ps_direct st))) \<and>
      distinct (ps_direct st) \<and> (\<forall>t\<in>set (ps_direct st). t < length ds) \<and> length (ps_direct st) \<le> max_touched_chunks bud \<and>
      (ps_direct st \<noteq> [] \<longrightarrow> chunk_bytes ds (add_neighbor (ps_neighbor st) (ps_direct st)) \<le> max_touched_bytes bud) \<and>
      (\<not> ps_locked st \<longrightarrow> ps_neighbor st = None \<and> ps_direct st = []) \<and>
      (\<forall>n. ps_neighbor st = Some n \<longrightarrow> n < length ds))"

lemma accepted_lock:
  assumes "accepted bytes ds bud taken st" "\<not> ps_locked st" "\<forall>n. nb = Some n \<longrightarrow> n < length ds"
  shows "accepted bytes ds bud taken (st\<lparr>ps_owner := ow, ps_neighbor := nb, ps_locked := True\<rparr>)"
  using assms by (auto simp: accepted_def)

lemma accepted_next:
  assumes "accepted bytes ds bud taken st" "length taken + 1 \<le> max_log_entries bud"
    and "collapse_entries [] (taken @ [e]) = Inr muts" "spent bytes ds muts \<le> max_mutation_bytes bud"
  defines "cum \<equiv> fold set_add (direct_targets ds muts) (ps_direct st)"
  assumes "length cum \<le> max_touched_chunks bud" "chunk_bytes ds (add_neighbor (ps_neighbor st) cum) \<le> max_touched_bytes bud"
    and "\<not> ps_locked st \<Longrightarrow> direct_targets ds muts = []"
  shows "accepted bytes ds bud (taken @ [e]) (st\<lparr>ps_ends := ps_ends st @ [le_seq e], ps_direct := cum, ps_mutations := muts,
      ps_mutation_bytes := tot\<rparr>)"
proof -
  have "\<exists>ms. collapse_entries [] (take k (taken @ [e])) = Inr ms \<and> spent bytes ds ms \<le> max_mutation_bytes bud \<and>
      set (direct_targets ds ms) \<subseteq> set cum" if k: "0 < k" "k \<le> Suc (length taken)" for k
  proof (cases "k \<le> length taken")
    case True
    then obtain ms where "collapse_entries [] (take k taken) = Inr ms" "spent bytes ds ms \<le> max_mutation_bytes bud"
        "set (direct_targets ds ms) \<subseteq> set (ps_direct st)"
      using assms(1) k unfolding accepted_def by blast
    then show ?thesis using True by (auto simp: cum_def)
  next
    case False
    then have "k = Suc (length taken)" using k by simp
    then show ?thesis using assms(3,4) by (auto simp: cum_def)
  qed
  moreover have "ps_ends st = map le_seq taken" "distinct cum" "\<forall>n. ps_neighbor st = Some n \<longrightarrow> n < length ds"
    "\<not> ps_locked st \<longrightarrow> ps_neighbor st = None \<and> cum = []"
    using assms(1,8) by (auto simp: accepted_def cum_def)
  moreover have "\<forall>t\<in>set cum. t < length ds" using assms(1) direct_targets_less by (auto simp: accepted_def cum_def)
  ultimately show ?thesis using assms(2,6,7) by (simp add: accepted_def)
qed

lemma prefetch_loop_accepts:
  assumes "prefetch_loop bytes ds bud (length taken) es st = Inr st'" "accepted bytes ds bud taken st"
    and "collapse_entries [] taken = Inr (ps_mutations st)" "ps_mutation_bytes st = int (spent bytes ds (ps_mutations st))"
  shows "\<exists>k\<le>length es. accepted bytes ds bud (taken @ take k es) st'"
  using assms
proof (induction es arbitrary: taken st)
  case (Cons e es)
  let ?stop = "\<exists>k\<le>length (e # es). accepted bytes ds bud (taken @ take k (e # es)) st'"
  have stop: "accepted bytes ds bud taken st' \<Longrightarrow> ?stop" by (rule exI [of _ 0]) simp
  show ?case
  proof (cases "length taken + 1 > max_log_entries bud")
    case True
    then show ?thesis using Cons.prems(1,2) stop by simp
  next
    case room: False
    obtain mut where mut: "entryToMutation e = Inr mut"
      using Cons.prems(1) room by (auto simp: result_bind_def split: sum.splits)
    define muts where "muts = obj_set (mu_doc_id mut) mut (ps_mutations st)"
    have muts: "collapse_entries [] (taken @ [e]) = Inr muts"
      using Cons.prems(3) mut by (simp add: collapse_append result_bind_def muts_def)
    define tot where "tot = int (spent bytes ds muts)"
    have tot: "ps_mutation_bytes st - (case map_of (ps_mutations st) (mu_doc_id mut) of
          None \<Rightarrow> 0 | Some u \<Rightarrow> int (computeMutationContribution bytes ds u)) + int (computeMutationContribution bytes ds mut) = tot"
      using spent_set [of "ps_mutations st" bytes ds "mu_doc_id mut" mut] collapse_distinct [OF Cons.prems(3)] Cons.prems(4)
      by (simp add: tot_def muts_def)
    obtain ow nb where derive: "deriveOwnerAndNeighbor (direct_targets ds muts) (length ds) = (ow, nb)"
      by (cases "deriveOwnerAndNeighbor (direct_targets ds muts) (length ds)")
    define cum where "cum = fold set_add (direct_targets ds muts) (ps_direct st)"
    define st1 where "st1 = (if \<not> ps_locked st \<and> ow \<noteq> None
        then st\<lparr>ps_owner := ow, ps_neighbor := nb, ps_locked := True\<rparr> else st)"
    have run: "(if tot > int (max_mutation_bytes bud) then Inr st
        else if ps_locked st \<and> (ow \<noteq> ps_owner st \<or> nb \<noteq> ps_neighbor st) then Inr st
        else if length cum > max_touched_chunks bud then Inr st1
        else if chunk_bytes ds (add_neighbor (ps_neighbor st1) cum) > max_touched_bytes bud then Inr st1
        else prefetch_loop bytes ds bud (length taken + 1) es
          (st1\<lparr>ps_ends := ps_ends st @ [le_seq e], ps_direct := cum, ps_mutations := muts, ps_mutation_bytes := tot\<rparr>)) = Inr st'"
      using Cons.prems(1) room
      unfolding prefetch_loop.simps mut result_bind_def sum.case Let_def muts_def [symmetric] tot derive prod.case
        cum_def [symmetric] st1_def [symmetric]
      by simp
    have nb: "\<forall>n. nb = Some n \<longrightarrow> n < length ds" using derive_neighbor [of ds muts] derive by simp
    have st1: "accepted bytes ds bud taken st1"
      using accepted_lock [OF Cons.prems(2) _ nb] Cons.prems(2) by (simp add: st1_def)
    have same: "ps_ends st1 = ps_ends st" "ps_direct st1 = ps_direct st" by (simp_all add: st1_def)
    let ?next = "st1\<lparr>ps_ends := ps_ends st @ [le_seq e], ps_direct := cum, ps_mutations := muts, ps_mutation_bytes := tot\<rparr>"
    consider "st' = st" | "st' = st1"
      | (go) "tot \<le> int (max_mutation_bytes bud)" "length cum \<le> max_touched_chunks bud"
          "chunk_bytes ds (add_neighbor (ps_neighbor st1) cum) \<le> max_touched_bytes bud"
          "prefetch_loop bytes ds bud (length (taken @ [e])) es ?next = Inr st'"
      using run by (auto split: if_splits)
    then show ?thesis
    proof cases
      case go
      have none: "direct_targets ds muts = []" if "\<not> ps_locked st1"
        using that derive_None [of ds muts] derive by (auto simp: st1_def split: if_splits)
      have "accepted bytes ds bud (taken @ [e]) ?next"
        using accepted_next [OF st1, of e muts tot] room muts go(1-3) none by (simp add: same tot_def cum_def)
      then have "\<exists>k\<le>length es. accepted bytes ds bud ((taken @ [e]) @ take k es) st'"
        using Cons.IH [OF go(4)] muts by (simp add: tot_def)
      then obtain k where "k \<le> length es" "accepted bytes ds bud (taken @ take (Suc k) (e # es)) st'" by auto
      then show ?thesis by (intro exI [of _ "Suc k"]) simp
    qed (use stop Cons.prems(2) st1 in blast)+
  qed
qed (auto intro: exI [of _ 0])


lemma chunk_bytes_sort [simp]: "chunk_bytes ds (sort xs) = chunk_bytes ds xs"
  unfolding chunk_bytes_def sum_mset_sum_list [symmetric] mset_map mset_sort ..

lemma prefetch_spec:
  assumes "prefetchChunkedFold bytes entries ds bud = Inr pf"
  shows "\<exists>k\<le>length entries. k \<le> max_log_entries bud \<and> pf_candidate_log_seq_ends pf = map le_seq (take k entries) \<and>
    (\<forall>i<k. \<exists>muts. collapse_entries [] (take (i + 1) entries) = Inr muts \<and>
      sum_list (map (\<lambda>p. computeMutationContribution bytes ds (snd p)) muts) \<le> max_mutation_bytes bud \<and>
      set (direct_targets ds muts) \<subseteq> set (pf_direct pf)) \<and>
    set (pf_chunk_indexes pf) = set (pf_direct pf) \<union> set_option (pf_neighbor pf) \<and>
    distinct (pf_chunk_indexes pf) \<and> (\<forall>t\<in>set (pf_chunk_indexes pf). t < length ds) \<and>
    length (pf_direct pf) \<le> max_touched_chunks bud \<and> length (pf_chunk_indexes pf) \<le> max_touched_chunks bud + 1 \<and>
    pf_touched_bytes pf = chunk_bytes ds (pf_chunk_indexes pf) \<and>
    (pf_direct pf \<noteq> [] \<longrightarrow> pf_touched_bytes pf \<le> max_touched_bytes bud)"
proof -
  let ?init = "\<lparr>ps_ends = [], ps_direct = [], ps_owner = None, ps_neighbor = None, ps_locked = False, ps_mutations = [],
        ps_mutation_bytes = 0\<rparr>"
  obtain st where st: "prefetch_loop bytes ds bud (length ([] :: log_entry list)) entries ?init = Inr st"
    and pf: "pf = \<lparr>pf_candidate_log_seq_ends = ps_ends st, pf_direct = sort (ps_direct st),
      pf_chunk_indexes = sort (add_neighbor (ps_neighbor st) (ps_direct st)),
      pf_touched_bytes = chunk_bytes ds (sort (add_neighbor (ps_neighbor st) (ps_direct st))), pf_owner = ps_owner st,
      pf_neighbor = ps_neighbor st\<rparr>"
    using assms by (auto simp: prefetchChunkedFold_def Let_def)
  obtain k where k: "k \<le> length entries" and acc: "accepted bytes ds bud (take k entries) st"
  proof -
    have "accepted bytes ds bud [] ?init" by (simp add: accepted_def)
    from prefetch_loop_accepts [OF st this] show thesis using that by (auto simp: spent_def)
  qed
  have "\<exists>muts. collapse_entries [] (take (i + 1) entries) = Inr muts \<and> spent bytes ds muts \<le> max_mutation_bytes bud \<and>
      set (direct_targets ds muts) \<subseteq> set (ps_direct st)" if "i < k" for i
  proof -
    have "take (i + 1) (take k entries) = take (i + 1) entries" using \<open>i < k\<close> by simp
    moreover have "0 < i + 1 \<and> i + 1 \<le> length (take k entries)" using \<open>i < k\<close> k by simp
    ultimately show ?thesis using acc unfolding accepted_def by metis
  qed
  moreover have "length (add_neighbor (ps_neighbor st) (ps_direct st)) \<le> max_touched_chunks bud + 1"
  proof -
    have "length (ps_direct st) \<le> max_touched_chunks bud" using acc by (simp add: accepted_def)
    then show ?thesis using add_neighbor_simps(3) [of "ps_neighbor st" "ps_direct st"] by linarith
  qed
  ultimately show ?thesis
    using k acc unfolding pf spent_def by (intro exI [of _ k]) (auto simp: accepted_def)
qed

text \<open>
  (C16) A prefetch that returns takes a prefix of the log no longer than the entry budget. Every candidate
  prefix has mutations within the byte budget, and touches only chunks of the reported set; that set has
  no repetition, names existing descriptors, has at most \<^verbatim>\<open>max_touched_chunks\<close> directly touched
  chunks and at most one more, and when a chunk is directly touched its total size is within
  \<^verbatim>\<open>max_touched_bytes\<close>.
\<close>

theorem prefetch_within_budget:
  assumes "prefetchChunkedFold bytes entries ds bud = Inr pf"
  shows "\<exists>k\<le>length entries. k \<le> max_log_entries bud \<and> pf_candidate_log_seq_ends pf = map le_seq (take k entries) \<and>
    (\<forall>i<k. \<exists>muts. collapse_entries [] (take (i + 1) entries) = Inr muts \<and>
      sum_list (map (\<lambda>p. computeMutationContribution bytes ds (snd p)) muts) \<le> max_mutation_bytes bud \<and>
      set (direct_targets ds muts) \<subseteq> set (pf_direct pf)) \<and>
    set (pf_chunk_indexes pf) = set (pf_direct pf) \<union> set_option (pf_neighbor pf) \<and>
    distinct (pf_chunk_indexes pf) \<and> (\<forall>t\<in>set (pf_chunk_indexes pf). t < length ds) \<and>
    length (pf_direct pf) \<le> max_touched_chunks bud \<and> length (pf_chunk_indexes pf) \<le> max_touched_chunks bud + 1 \<and>
    pf_touched_bytes pf = chunk_bytes ds (pf_chunk_indexes pf) \<and>
    (pf_direct pf \<noteq> [] \<longrightarrow> pf_touched_bytes pf \<le> max_touched_bytes bud)"
  by (rule prefetch_spec [OF assms])


section \<open>The plan\<close>

lemma entryToMutation_Inr:
  assumes "entryToMutation e = Inr u"
  shows "mut_ok u" and "le_collection e = coll \<Longrightarrow> fold_entry coll None e m = apply_mutation u m"
  using assms
  by (auto simp: entryToMutation_def assertStoredEntryDocId_def assertPostImageIdentity_def mut_ok_def fold_entry_def
      apply_mutation_def split: option.splits sum.splits if_splits log_op.splits)

lemma muts_at_map:
  assumes "muts_ok M"
  shows "muts_at (map snd M) x = map_of M x"
proof -
  have "map (\<lambda>u. (mu_doc_id u, u)) (map snd M) = map (\<lambda>p. p) M"
    using assms unfolding map_map by (intro map_cong) (auto simp: muts_ok_def)
  then show ?thesis unfolding muts_at_def by simp
qed

text \<open>Collapsing the mutations of a log keeps what folding it does.\<close>

lemma collapse_fold:
  assumes "collapse_entries [] es = Inr M" "\<forall>e\<in>set es. le_collection e = coll"
  shows "muts_ok M \<and> map_of (foldLogEntriesOnto m es coll None) x = (case map_of M x of None \<Rightarrow> map_of m x | Some u \<Rightarrow> mut_effect u)"
  using assms
proof (induction es arbitrary: M rule: rev_induct)
  case Nil
  then show ?case by (simp add: muts_ok_def foldLogEntriesOnto_def)
next
  case (snoc e es)
  obtain M0 u where M0: "collapse_entries [] es = Inr M0" and u: "entryToMutation e = Inr u" and M: "M = obj_set (mu_doc_id u) u M0"
    using snoc.prems(1) by (auto simp: collapse_append)
  have IH: "muts_ok M0" "map_of (foldLogEntriesOnto m es coll None) x = (case map_of M0 x of None \<Rightarrow> map_of m x | Some u \<Rightarrow> mut_effect u)"
    using snoc.IH [OF M0] snoc.prems(2) by auto
  have "muts_ok M"
    using IH(1) entryToMutation_Inr(1) [OF u] unfolding M muts_ok_def by (auto dest!: set_obj_set)
  moreover have "foldLogEntriesOnto m (es @ [e]) coll None = apply_mutation u (foldLogEntriesOnto m es coll None)"
    using entryToMutation_Inr(2) [OF u] snoc.prems(2) by (simp add: foldLogEntriesOnto_def)
  moreover have "map_of (apply_mutation u n) x = (if x = mu_doc_id u then mut_effect u else map_of n x)" for n
    using entryToMutation_Inr(1) [OF u] by (auto simp: apply_mutation_def mut_effect_def mut_ok_def)
  ultimately show ?case using IH(2) M by simp
qed

lemma collapse_sorted_fold:
  assumes "collapse_entries [] es = Inr M" "\<forall>e\<in>set es. le_collection e = coll" "idmap m"
  shows "toSorted compare_reference_rows (foldLogEntriesOnto m es coll None) = keyed (updated_docs m (map snd M))"
proof -
  have ok: "muts_ok M" using collapse_fold [OF assms(1,2)] by blast
  note snd_ok = muts_ok_snd(1,2) [OF ok]
  have "map_of (foldLogEntriesOnto m es coll None) = map_of (fold apply_mutation (map snd M) m)"
    using collapse_fold [OF assms(1,2)] fold_apply_map [OF snd_ok] by (simp add: fun_eq_iff muts_at_map [OF ok])
  then have "sort_key fst (foldLogEntriesOnto m es coll None) = sort_key fst (fold apply_mutation (map snd M) m)"
    using idmap_fold [OF assms(3) snd_ok(2)] assms(3) by (intro sort_rows_unique) (auto simp: idmap_def fold_distinct)
  then show ?thesis using keyed_updated [OF assms(3) snd_ok(2)] by (simp add: toSorted_rows)
qed

lemma evaluate_mint:
  assumes "evaluateSnapshotChunks bytes sha input = Some (Inr ev)" "ev_mint ev = Inr br"
  shows "br_split_increments br = ev_split_increments ev"
proof (cases "bi_descriptors input = []")
  case True
  then show ?thesis
    using assms unfolding evaluateSnapshotChunks_def evaluateInitialEmptyChunks_def Let_def by (auto split: if_splits)
next
  case False
  then show ?thesis
    using assms unfolding evaluateSnapshotChunks_def Let_def if_not_P [OF False] by (simp only: out_bind_Inr) auto
qed

text \<open>An admitted prefix of \<open>k\<close> entries.\<close>

definition admissible_prefix ::
  "(blob \<Rightarrow> nat) \<Rightarrow> (blob \<Rightarrow> string) \<Rightarrow> plan_input \<Rightarrow> fold_prefetch \<Rightarrow> nat \<Rightarrow> admitted \<Rightarrow> bool" where
  "admissible_prefix bytes sha pin pf k ad =
     (0 < k \<and> k \<le> length (pf_candidate_log_seq_ends pf) \<and>
      collapse_entries [] (take k (pi_entries pin)) = Inr (ad_mutations ad) \<and>
      evaluateSnapshotChunks bytes sha (builder_input pin pf (ad_mutations ad)) = Some (Inr (ad_evaluation ad)) \<and>
      ev_split_increments (ad_evaluation ad) \<le> max_split_increments (pi_budget pin) \<and>
      ad_log_seq_end ad = pf_candidate_log_seq_ends pf ! (k - 1) \<and>
      ad_mutation_bytes ad = spent bytes (pi_descriptors pin) (ad_mutations ad) \<and>
      ad_touched_chunk_indexes ad = sort (direct_targets (pi_descriptors pin) (ad_mutations ad)))"

lemma select_admissible:
  assumes "select_prefix bytes sha pin pf i ends best = Some (Inr (Some ad))" "ends = drop i (pf_candidate_log_seq_ends pf)"
    and "\<forall>a. best = Some a \<longrightarrow> (\<exists>k. admissible_prefix bytes sha pin pf k a)"
  shows "\<exists>k. admissible_prefix bytes sha pin pf k ad"
  using assms
proof (induction ends arbitrary: i best)
  case (Cons s ends)
  let ?all = "pf_candidate_log_seq_ends pf" and ?ds = "pi_descriptors pin"
  have at: "i < length ?all" "?all ! i = s" "ends = drop (i + 1) ?all"
  proof -
    show "i < length ?all" using Cons.prems(2) by (metis drop_all leI list.distinct(1))
    then have "drop i ?all = ?all ! i # drop (Suc i) ?all" by (rule Cons_nth_drop_Suc [symmetric])
    then show "?all ! i = s" "ends = drop (i + 1) ?all" using Cons.prems(2) by simp_all
  qed
  obtain muts ev where muts: "collapse_entries [] (take (i + 1) (pi_entries pin)) = Inr muts"
      "evaluateSnapshotChunks bytes sha (builder_input pin pf muts) = Some (Inr ev)"
    using Cons.prems(1) by (auto simp: Let_def)
  let ?stop = "ev_split_increments ev > max_split_increments (pi_budget pin)
        \<or> (if ev_used_neighbor ev = None then 0 else 1) > max_neighbor_chunks (pi_budget pin)"
  let ?ad = "\<lparr>ad_log_seq_end = s, ad_touched_chunk_indexes = sort (direct_targets ?ds muts),
         ad_touched_ranges = map (\<lambda>j. (d_first_id (?ds ! j), d_last_id (?ds ! j))) (sort (direct_targets ?ds muts)),
         ad_mutation_bytes = sum_list (map (\<lambda>p. computeMutationContribution bytes ?ds (snd p)) muts),
         ad_mutations = muts, ad_evaluation = ev\<rparr>"
  have step: "(if ?stop then Some (Inr best) else select_prefix bytes sha pin pf (i + 1) ends (Some ?ad)) = Some (Inr (Some ad))"
    using Cons.prems(1) unfolding select_prefix.simps Let_def muts(1) out_bind_simps(3) muts(2) .
  show ?case
  proof (cases ?stop)
    case True
    then show ?thesis using step Cons.prems(3) by simp
  next
    case False
    have "admissible_prefix bytes sha pin pf (i + 1) ?ad" using muts False at by (simp add: admissible_prefix_def spent_def)
    then show ?thesis using step False Cons.IH [OF _ at(3), of "Some ?ad"] by auto
  qed
qed simp


lemma direct_targets_distinct: "distinct (direct_targets ds muts)"
proof -
  have "distinct acc \<Longrightarrow> distinct (fold (\<lambda>(docId, mut) acc. case routeMutationToDescriptor docId (mu_op mut) ds of
         None \<Rightarrow> acc | Some target \<Rightarrow> set_add target acc) muts acc)" for acc
    by (induction muts arbitrary: acc) (auto split: option.split)
  then show ?thesis by (simp add: direct_targets_def)
qed

lemma plan_cases:
  assumes "planChunkedFold bytes sha pin = Some (Inr (Some plan))"
  obtains (empty) "pi_entries pin = []" "br_chunks (pl_build plan) = pi_descriptors pin" "pl_mutation_bytes plan = 0"
      "br_split_increments (pl_build plan) = 0" "pl_touched_chunk_indexes plan = []"
    | (some) pf k muts where "prefetchChunkedFold bytes (pi_entries pin) (pi_descriptors pin) (pi_budget pin) = Inr pf"
      "0 < k" "k \<le> length (pf_candidate_log_seq_ends pf)" "collapse_entries [] (take k (pi_entries pin)) = Inr muts"
      "buildSnapshotChunks bytes sha (builder_input pin pf muts) = Some (Inr (pl_build plan))"
      "br_split_increments (pl_build plan) \<le> max_split_increments (pi_budget pin)"
      "pl_log_seq_end plan = pf_candidate_log_seq_ends pf ! (k - 1)" "pl_mutation_bytes plan = spent bytes (pi_descriptors pin) muts"
      "pl_touched_chunk_indexes plan = sort (direct_targets (pi_descriptors pin) muts)"
proof -
  obtain pf where pf: "prefetchChunkedFold bytes (pi_entries pin) (pi_descriptors pin) (pi_budget pin) = Inr pf"
    using assms by (auto simp: planChunkedFold_def)
  show thesis
  proof (cases "pf_candidate_log_seq_ends pf = []")
    case True
    then show thesis using assms pf empty by (auto simp: planChunkedFold_def split: if_splits)
  next
    case False
    then obtain ad where sel: "select_prefix bytes sha pin pf 0 (pf_candidate_log_seq_ends pf) None = Some (Inr (Some ad))"
      and mint: "ev_mint (ad_evaluation ad) = Inr (pl_build plan)"
      and plan: "pl_log_seq_end plan = ad_log_seq_end ad" "pl_mutation_bytes plan = ad_mutation_bytes ad"
        "pl_touched_chunk_indexes plan = ad_touched_chunk_indexes ad"
      using assms pf by (auto simp: planChunkedFold_def split: option.splits)
    obtain k where k: "admissible_prefix bytes sha pin pf k ad" using select_admissible [OF sel] by auto
    then have ev: "evaluateSnapshotChunks bytes sha (builder_input pin pf (ad_mutations ad)) = Some (Inr (ad_evaluation ad))"
      by (simp add: admissible_prefix_def)
    then have "buildSnapshotChunks bytes sha (builder_input pin pf (ad_mutations ad)) = Some (Inr (pl_build plan))"
      using mint by (simp add: buildSnapshotChunks_def)
    then show thesis using some [OF pf, of k "ad_mutations ad"] k plan evaluate_mint [OF ev mint] by (simp add: admissible_prefix_def)
  qed
qed

text \<open>
  (C13) A plan covers a prefix of the log within its entry, mutation, chunk and split budgets, non-empty when
  there are entries, and ends at the sequence number of the prefix's last entry; and once its chunks are
  stored, a view over its descriptors materializes what the log fold of \<^verbatim>\<open>log-walk.ts\<close> makes of the old
  rows and those entries, in id order, each document with its members in canonical order.
\<close>

theorem plan_reads_as_log_fold:
  fixes pin
  defines "ds \<equiv> pi_descriptors pin" and "coll \<equiv> pi_collection pin" and "bud \<equiv> pi_budget pin"
  assumes plan: "planChunkedFold bytes sha pin = Some (Inr (Some plan))" and pos: "0 < target_rows (pi_policy pin)"
    and ord: "ordered_ranges ds" and read: "\<forall>d\<in>set ds. chunk_rows bytes sha coll s d = Inr (rows d)"
    and loaded: "\<forall>d\<in>set ds. \<forall>docs. map_of (pi_loaded pin) (d_key d) = Some docs \<longrightarrow> docs = rows d"
    and same: "\<forall>e\<in>set (pi_entries pin). le_collection e = coll"
    and line: "\<forall>x\<in>set (pi_prefix pin). \<not> is_line_terminator x" and size: "\<forall>b. bytes b \<noteq> 0"
    and kept: "\<forall>d\<in>set ds. chunk_rows bytes sha coll s' d = Inr (rows d)"
    and stored: "\<forall>(d, b)\<in>set (br_changed (pl_build plan)). \<exists>e. memory_get (d_key d) None s' = Inr (Some (b, e))"
  shows "\<exists>k out. k \<le> length (pi_entries pin) \<and> k \<le> max_log_entries bud \<and>
    (pi_entries pin \<noteq> [] \<longrightarrow> 0 < k \<and> pl_log_seq_end plan = le_seq (pi_entries pin ! (k - 1))) \<and>
    pl_mutation_bytes plan \<le> max_mutation_bytes bud \<and> length (pl_touched_chunk_indexes plan) \<le> max_touched_chunks bud \<and>
    br_split_increments (pl_build plan) \<le> max_split_increments bud \<and>
    run (view_materialize bytes sha coll (br_chunks (pl_build plan))) s' = (Inr out, s') \<and>
    list_all2 (\<lambda>(i, d) (i', d'). i' = i \<and> stored_as d d')
      (toSorted compare_reference_rows (foldLogEntriesOnto (keyed (concat (map rows ds))) (take k (pi_entries pin)) coll None)) out"
  using plan
proof (cases rule: plan_cases)
  case empty
  let ?R = "concat (map rows ds)"
  have sorted: "sorted_wrt (<) (map doc_id ?R)" by (rule laid_out_sorted [OF laid_out_rows [OF ord read]])
  have "\<forall>d\<in>set ?R. stored_as d d" using read chunk_rows_range(4) by fastforce
  then have "list_all2 (\<lambda>(i, d) (i', d'). i' = i \<and> stored_as d d') (keyed ?R) (keyed ?R)"
    by (intro stored_keyed) (simp add: list_all2_same)
  moreover have "toSorted compare_reference_rows (keyed ?R) = keyed ?R"
    using sorted by (auto simp: toSorted_rows keyed_def comp_def strictly_sorted intro: sort_key_id_if_sorted)
  ultimately show ?thesis
    using empty run_materialize [OF ord kept] by (intro exI [of _ 0] exI [of _ "keyed ?R"]) (simp add: ds_def foldLogEntriesOnto_def)
next
  case (some pf k muts)
  let ?R = "concat (map rows ds)" and ?input = "builder_input pin pf muts"
  obtain n where n: "n \<le> length (pi_entries pin)" "n \<le> max_log_entries bud"
      "pf_candidate_log_seq_ends pf = map le_seq (take n (pi_entries pin))" "length (pf_direct pf) \<le> max_touched_chunks bud"
      "\<forall>i<n. \<exists>muts. collapse_entries [] (take (i + 1) (pi_entries pin)) = Inr muts \<and>
        spent bytes ds muts \<le> max_mutation_bytes bud \<and> set (direct_targets ds muts) \<subseteq> set (pf_direct pf)"
    using prefetch_spec [OF some(1)] unfolding ds_def bud_def spent_def by blast
  have k: "k \<le> n" "k - 1 < n" "k - 1 + 1 = k" using some(2,3) n(1,3) by auto
  then have muts: "spent bytes ds muts \<le> max_mutation_bytes bud" "set (direct_targets ds muts) \<subseteq> set (pf_direct pf)"
    using n(5) [rule_format, OF k(2)] some(4) unfolding k(3) by auto
  have "length (direct_targets ds muts) \<le> length (pf_direct pf)"
    using muts(2) direct_targets_distinct [of ds muts] by (metis card_length card_mono distinct_card finite_set order_trans)
  then have touched: "length (pl_touched_chunk_indexes plan) \<le> max_touched_chunks bud" using some(9) n(4) by (simp add: ds_def)
  have seq: "pl_log_seq_end plan = le_seq (pi_entries pin ! (k - 1))" using some(7) n(1,3) k by simp
  have dist: "distinct (obj_keys muts)" using collapse_distinct [OF some(4)] by simp
  have input: "bi_descriptors ?input = ds" "bi_collection ?input = coll" "bi_mutations ?input = muts" "bi_loaded ?input = pi_loaded pin"
    "bi_prefix ?input = pi_prefix pin" "bi_policy ?input = pi_policy pin"
    by (simp_all add: builder_input_def ds_def coll_def)
  note reads = build_reads [OF some(5), unfolded input, OF pos ord read loaded dist line size kept stored]
  have sub: "\<forall>e\<in>set (take k (pi_entries pin)). le_collection e = coll" using same by (meson in_set_takeD)
  have "toSorted compare_reference_rows (foldLogEntriesOnto (keyed ?R) (take k (pi_entries pin)) coll None) =
      keyed (updated_docs (keyed ?R) (map snd muts))"
    by (rule collapse_sorted_fold [OF some(4) sub idmap_keyed [OF reads(4)]])
  then obtain docs' where "run (view_materialize bytes sha coll (br_chunks (pl_build plan))) s' = (Inr (keyed docs'), s')"
      "list_all2 (\<lambda>(i, d) (i', d'). i' = i \<and> stored_as d d')
        (toSorted compare_reference_rows (foldLogEntriesOnto (keyed ?R) (take k (pi_entries pin)) coll None)) (keyed docs')"
    using reads(5) stored_keyed by metis
  then show ?thesis
    using some(2,6,8) n(1,2) k(1) muts(1) touched seq unfolding bud_def ds_def
    by (intro exI [of _ k] exI [of _ "keyed docs'"]) simp
qed


section \<open>Concrete plans\<close>

definition sample_entry :: "log_op \<Rightarrow> string \<Rightarrow> nat \<Rightarrow> log_entry" where
  "sample_entry op i n = \<lparr>le_lsn = [], le_commit_ts = [], le_op = op, le_collection = ''c'', le_doc_id = Some i,
     le_after = Some (sample_row i), le_origin = None, le_session = [], le_seq = n\<rparr>"

definition sample_budget :: fold_budget where
  "sample_budget = \<lparr>max_log_entries = 9, max_mutation_bytes = 50, max_touched_chunks = 4, max_touched_bytes = 50,
     max_split_increments = 0, max_neighbor_chunks = 1\<rparr>"

definition sample_plan :: plan_input where
  "sample_plan = \<lparr>pi_collection = ''c'', pi_prefix = ''p'', pi_entries = [sample_entry OpI ''c'' 7],
     pi_descriptors = sm_chunks sample_manifest, pi_loaded = [(sample_key ChunkArtifact, [sample_row ''a'', sample_row ''b''])],
     pi_budget = sample_budget, pi_incarnation = next_incarnation, pi_policy = \<lparr>target_chunk_bytes = 1024, target_rows = 3\<rparr>,
     pi_base_log_seq = None\<rparr>"

definition insert_c :: mutation where
  "insert_c = \<lparr>mu_op = OpI, mu_doc_id = ''c'', mu_after = Some (sample_row ''c'')\<rparr>"

definition sample_prefetch :: fold_prefetch where
  "sample_prefetch = \<lparr>pf_candidate_log_seq_ends = [7], pf_direct = [0], pf_chunk_indexes = [0], pf_touched_bytes = 9,
     pf_owner = Some 0, pf_neighbor = None\<rparr>"

lemma sample_route: "op \<noteq> OpD \<Longrightarrow> routeMutationToDescriptor i op (sm_chunks sample_manifest) = Some 0"
  by (auto simp: routeMutationToDescriptor_def sample_manifest_def Let_def firstDescriptorEndingAtOrAfter_def lower_bound.simps)

lemma sample_entry_mutation: "entryToMutation (sample_entry OpI ''c'' 7) = Inr insert_c"
  using sample_ids(3)
  by (simp add: entryToMutation_def assertStoredEntryDocId_def sample_entry_def assertPostImageIdentity_def sample_row_def insert_c_def)

lemma sample_prefetched:
  "prefetchChunkedFold (\<lambda>_. 9) [sample_entry OpI ''c'' 7] (sm_chunks sample_manifest) sample_budget = Inr sample_prefetch"
proof -
  have len: "length (sm_chunks sample_manifest) = 1" "d_byte_length (sm_chunks sample_manifest ! 0) = 9" by (simp_all add: sample_manifest_def)
  have "direct_targets (sm_chunks sample_manifest) [(''c'', insert_c)] = [0]"
    by (simp add: direct_targets_def sample_route insert_c_def set_add_def)
  then show ?thesis
    by (simp add: prefetchChunkedFold_def sample_budget_def sample_entry_mutation insert_c_def computeMutationContribution_def
        deriveOwnerAndNeighbor_def len set_add_def add_neighbor_def chunk_bytes_def sample_prefetch_def)
      (simp add: sample_entry_def Let_def)
qed

theorem prefetch_within_budget_witness:
  "prefetchChunkedFold (\<lambda>_. 9) [sample_entry OpI ''c'' 7] (sm_chunks sample_manifest) sample_budget = Inr sample_prefetch \<and>
   length (pf_chunk_indexes sample_prefetch) \<le> max_touched_chunks sample_budget + 1 \<and>
   pf_touched_bytes sample_prefetch \<le> max_touched_bytes sample_budget"
  using prefetch_within_budget [OF sample_prefetched] sample_prefetched by (auto simp: sample_prefetch_def)


definition grown_docs :: "doc list" where "grown_docs = map sample_row [''a'', ''b'', ''c'']"

definition grown_body :: blob where
  "grown_body = BJson (chunk_json (candidate_chunk ''c'' next_incarnation grown_docs))"

definition grown_build :: build_result where
  "grown_build = (let d = \<lparr>d_first_id = ''a'', d_last_id = ''c'', d_key = next_key, d_byte_length = 9, d_row_count = 3\<rparr>
     in \<lparr>br_chunks = [d], br_changed = [(d, grown_body)], br_split_increments = 0, br_used_neighbor = None\<rparr>)"

definition grown_store :: store where
  "grown_store = sample_store\<lparr>objects := objects sample_store @ [(next_key, \<lparr>body = grown_body, etag = etag_of 3\<rparr>)]\<rparr>"

lemma grown_split:
  "splitGroupDocsGreedily (\<lambda>_. 9) ''c'' next_incarnation \<lparr>target_chunk_bytes = 1024, target_rows = 3\<rparr> grown_docs =
   Some (Inr [(grown_docs, grown_body)])"
  using sample_rows_encode [of "[''a'', ''b'', ''c'']"] sample_ids
  by (intro split_one) (simp_all add: grown_docs_def grown_body_def MAX_CHUNK_ROWS_def)

lemma sample_evaluated:
  defines "input \<equiv> builder_input sample_plan sample_prefetch [(''c'', insert_c)]"
  shows "evaluateSnapshotChunks (\<lambda>_. 9) sample_sha input =
    Some (Inr \<lparr>ev_split_increments = 0, ev_used_neighbor = None, ev_mint = Inr grown_build\<rparr>)"
proof -
  have input: "bi_collection input = ''c''" "bi_prefix input = ''p''" "bi_incarnation input = next_incarnation" "bi_neighbor input = None"
      "bi_policy input = \<lparr>target_chunk_bytes = 1024, target_rows = 3\<rparr>" "bi_mutations input = [(''c'', insert_c)]"
      "bi_descriptors input = sm_chunks sample_manifest"
    and load: "getLoadedDocs (bi_loaded input) (sm_chunks sample_manifest ! 0) = Inr [sample_row ''a'', sample_row ''b'']"
    by (simp_all add: input_def builder_input_def sample_plan_def sample_prefetch_def sample_manifest_def getLoadedDocs_def)
  obtain d where d: "sm_chunks sample_manifest = [d]" by (simp add: sample_manifest_def)
  have docs: "updated_docs (rows_to_map (keyed [sample_row ''a'', sample_row ''b''])) [insert_c] = grown_docs"
      "grown_docs \<noteq> []" "[sample_row ''a'', sample_row ''b''] \<noteq> grown_docs"
    by (simp_all add: updated_docs_def toSorted_docs keyed_def rows_to_map_def sample_canonical insert_c_def apply_mutation_def grown_docs_def)
  have grp: "group_mutations [d] [(''c'', insert_c)] [] = [(0, [insert_c])]"
    using sample_route [of OpI "''c''"] d by (simp add: insert_c_def)
  have chk: "check_mutations [(''c'', insert_c)] = Inr ()"
    using sample_ids by (simp add: insert_c_def assertPostImageIdentity_def sample_row_def guard_def)
  have "mint_items (\<lambda>_. 9) sample_sha ''p'' next_incarnation [(grown_docs, grown_body)] = Inr (br_changed grown_build)"
    using next_key_minted(1)
    by (simp add: mint_items_def appendChunkOutput_def sample_sha_def grown_build_def grown_docs_def sample_canonical Let_def)
  moreover have "rewrite_groups (\<lambda>_. 9) input [(0, [insert_c])] \<lparr>rewritten = [], unchangedGroups = [], totalSplitIncrements = 0\<rparr> =
    Some (Inr \<lparr>rewritten = [(0, [(grown_docs, grown_body)])], unchangedGroups = [], totalSplitIncrements = 0\<rparr>)"
    using load docs grown_split by (simp add: rewrite_group_def input Let_def)
  ultimately show ?thesis
    using grp chk next_key_minted(2) d
    by (cases "bi_owner input") (simp_all add: evaluateSnapshotChunks_def guard_def input Let_def grown_build_def)
qed

lemma sample_planned:
  "\<exists>plan. planChunkedFold (\<lambda>_. 9) sample_sha sample_plan = Some (Inr (Some plan)) \<and> pl_build plan = grown_build"
proof -
  have pin: "pi_entries sample_plan = [sample_entry OpI ''c'' 7]" "pi_descriptors sample_plan = sm_chunks sample_manifest"
      "pi_budget sample_plan = sample_budget"
    and pf: "pf_candidate_log_seq_ends sample_prefetch = [7]" "max_split_increments sample_budget = 0"
    by (simp_all add: sample_plan_def sample_prefetch_def sample_budget_def)
  have muts: "collapse_entries [] [sample_entry OpI ''c'' 7] = Inr [(''c'', insert_c)]"
    using sample_entry_mutation by (simp add: insert_c_def)
  show ?thesis
    using sample_evaluated muts
    by (simp add: planChunkedFold_def pin sample_prefetched pf Let_def)
qed

theorem plan_reads_as_log_fold_witness:
  "\<exists>plan out. planChunkedFold (\<lambda>_. 9) sample_sha sample_plan = Some (Inr (Some plan)) \<and>
     run (view_materialize (\<lambda>_. 9) sample_sha ''c'' (br_chunks (pl_build plan))) grown_store = (Inr out, grown_store) \<and>
     pl_log_seq_end plan = 7"
proof -
  let ?docs = "[sample_row ''a'', sample_row ''b'']"
  obtain plan where plan: "planChunkedFold (\<lambda>_. 9) sample_sha sample_plan = Some (Inr (Some plan))" "pl_build plan = grown_build"
    using sample_planned by blast
  have keys: "valid_key (sample_key ChunkArtifact)" "valid_key next_key" "next_key \<noteq> sample_key ChunkArtifact"
    "next_key \<noteq> sample_key ManifestArtifact" "sample_key ManifestArtifact \<noteq> sample_key ChunkArtifact" by code_simp+
  have get: "memory_get (sample_key ChunkArtifact) None grown_store = Inr (Some (BJson (chunk_json sample_chunk), etag_of 2))"
    "memory_get next_key None grown_store = Inr (Some (grown_body, etag_of 3))"
    using keys by (simp_all add: memory_get_def grown_store_def sample_store_def)
  have rows: "\<forall>d\<in>set (pi_descriptors sample_plan). chunk_rows (\<lambda>_. 9) sample_sha (pi_collection sample_plan) s d = Inr ?docs"
    if "memory_get (sample_key ChunkArtifact) None s = Inr (Some (BJson (chunk_json sample_chunk), e))" for s e
    using sample_decodes(2) that unfolding chunk_rows_decode by (simp add: sample_plan_def sample_manifest_def sample_chunk_def)
  have ord: "ordered_ranges (pi_descriptors sample_plan)" using sample_wf(2) by (simp add: wf_manifest_def sample_plan_def)
  have rest: "0 < target_rows (pi_policy sample_plan)" "\<forall>x\<in>set (pi_prefix sample_plan). \<not> is_line_terminator x"
    "\<forall>e\<in>set (pi_entries sample_plan). le_collection e = pi_collection sample_plan"
    "\<forall>d\<in>set (pi_descriptors sample_plan). \<forall>docs. map_of (pi_loaded sample_plan) (d_key d) = Some docs \<longrightarrow> docs = ?docs"
    by (auto simp: sample_plan_def is_line_terminator_def sample_entry_def split: if_splits)
  have "\<forall>(d, b)\<in>set (br_changed (pl_build plan)). \<exists>e. memory_get (d_key d) None grown_store = Inr (Some (b, e))"
    using get(2) by (simp add: plan(2) grown_build_def Let_def)
  from plan_reads_as_log_fold [OF plan(1) rest(1) ord rows [OF sample_store_get(2)] rest(4,3,2) _ rows [OF get(1)] this]
  show ?thesis using plan(1) by (auto simp: sample_plan_def sample_entry_def le_Suc_eq)
qed

text \<open>
  The byte budget is not kept when the entry that would first touch a chunk is the one refused: the owner and
  neighbour are locked before the refusal, so the neighbour is reported for fetching with nothing to fold
  into it. Two chunks of 9 and 100 bytes, a delete in the gap between them and one in the first chunk.
\<close>

theorem prefetch_overfetches:
  "\<exists>entries ds bud pf. prefetchChunkedFold bytes entries ds bud = Inr pf \<and> ordered_ranges ds \<and>
     pf_candidate_log_seq_ends pf \<noteq> [] \<and> pf_direct pf = [] \<and> pf_chunk_indexes pf = [1] \<and>
     max_touched_bytes bud < pf_touched_bytes pf"
proof -
  define ds where "ds = sm_chunks sample_manifest @
      [\<lparr>d_first_id = ''d'', d_last_id = ''d'', d_key = [], d_byte_length = 100, d_row_count = 1\<rparr>]"
  have route: "routeMutationToDescriptor ''c'' OpD ds = None" "routeMutationToDescriptor ''a'' OpD ds = Some 0"
    by (simp_all add: ds_def routeMutationToDescriptor_def sample_manifest_def Let_def firstDescriptorEndingAtOrAfter_def lower_bound.simps)
  have mut: "entryToMutation (sample_entry OpD i n) = Inr \<lparr>mu_op = OpD, mu_doc_id = i, mu_after = None\<rparr>"
    if "assertPathSegment i = Inr ()" for i n
    using that by (simp add: entryToMutation_def assertStoredEntryDocId_def sample_entry_def)
  have ds: "length ds = 2" "d_byte_length (ds ! 0) = 9" "d_byte_length (ds ! Suc 0) = 100" "ordered_ranges ds"
    by (simp_all add: ds_def sample_manifest_def ordered_ranges_def)
  have "prefetchChunkedFold bytes [sample_entry OpD ''c'' 7, sample_entry OpD ''a'' 8] ds sample_budget =
    Inr \<lparr>pf_candidate_log_seq_ends = [7], pf_direct = [], pf_chunk_indexes = [1], pf_touched_bytes = 100, pf_owner = Some 0,
      pf_neighbor = Some 1\<rparr>"
    by (simp add: prefetchChunkedFold_def sample_budget_def mut sample_ids computeMutationContribution_def route direct_targets_def
        deriveOwnerAndNeighbor_def ds set_add_def add_neighbor_def chunk_bytes_def Let_def)
      (simp add: sample_entry_def ds)
  then show ?thesis using ds(4) by (fastforce simp: sample_budget_def)
qed

end
