(* ===== verification/LocalFsKey.thy ===== *)
theory LocalFsKey
  imports DocId
begin

text \<open>
  \<^verbatim>\<open>packages/dev/src/local-fs-key-codec.ts\<close>: the names under which the file-system backend keeps its
  objects. Keys and names are lists of UTF-16 code units. A \<^verbatim>\<open>/\<close>-segment is escaped byte by byte into an
  alphabet that case folding and normalisation leave alone, and split where it would exceed the length
  limit of a file name. Shown here: a valid key is decoded from its names, so two keys never share a file,
  and every name is non-empty, within the limit, in the alphabet and without a leading dot.
\<close>

section \<open>The decoder of UTF-8\<close>

definition cont_byte :: "nat \<Rightarrow> bool" where
  "cont_byte b = (0x80 \<le> b \<and> b < 0xc0)"

text \<open>\<^verbatim>\<open>new TextDecoder("utf-8", { fatal: true, ignoreBOM: true })\<close>, one code point; \<open>None\<close> is the exception.\<close>

fun decode_point :: "nat list \<Rightarrow> (nat \<times> nat list) option" where
  "decode_point [] = None"
| "decode_point (b # bs) =
     (if b < 0x80 then Some (b, bs)
      else if b < 0xc2 then None
      else if b < 0xe0 then
        (case bs of
           c # rest \<Rightarrow> if cont_byte c then Some ((b - 0xc0) * 64 + (c - 0x80), rest) else None
         | _ \<Rightarrow> None)
      else if b < 0xf0 then
        (case bs of
           c # d # rest \<Rightarrow>
             let p = ((b - 0xe0) * 64 + (c - 0x80)) * 64 + (d - 0x80)
             in if cont_byte c \<and> cont_byte d \<and> 0x800 \<le> p \<and> \<not> is_high p \<and> \<not> is_low p then Some (p, rest) else None
         | _ \<Rightarrow> None)
      else if b < 0xf5 then
        (case bs of
           c # d # e # rest \<Rightarrow>
             let p = (((b - 0xf0) * 64 + (c - 0x80)) * 64 + (d - 0x80)) * 64 + (e - 0x80)
             in if cont_byte c \<and> cont_byte d \<and> cont_byte e \<and> 0x10000 \<le> p \<and> p < 0x110000 then Some (p, rest) else None
         | _ \<Rightarrow> None)
      else None)"

definition point_units :: "nat \<Rightarrow> nat list" where
  "point_units p = (if p > 0xffff then [0xd800 + (p - 0x10000) div 0x400, 0xdc00 + (p - 0x10000) mod 0x400] else [p])"

lemma decode_point_shorter: "decode_point bs = Some (p, rest) \<Longrightarrow> length rest < length bs"
  by (cases bs) (auto simp: Let_def split: if_splits list.splits)

function utf8_decode :: "nat list \<Rightarrow> nat list option" where
  "utf8_decode bs =
     (if bs = [] then Some []
      else (case decode_point bs of
          None \<Rightarrow> None
        | Some (p, rest) \<Rightarrow> (case utf8_decode rest of None \<Rightarrow> None | Some us \<Rightarrow> Some (point_units p @ us))))"
  by pat_completeness auto
termination
  by (relation "measure length") (auto simp: decode_point_shorter)

declare utf8_decode.simps [simp del]

section \<open>Model\<close>

definition NAME_MAX_BYTES :: nat where "NAME_MAX_BYTES = 255"

definition CONTINUATION :: nat where "CONTINUATION = 0x7e"

definition MAX_PART_BYTES :: nat where "MAX_PART_BYTES = NAME_MAX_BYTES - 1"

definition isLiteralByte :: "nat \<Rightarrow> bool" where
  "isLiteralByte b = (0x61 \<le> b \<and> b \<le> 0x7a \<or> 0x30 \<le> b \<and> b \<le> 0x39 \<or> b = 0x2d \<or> b = 0x5f \<or> b = 0x2e)"

definition hex_unit :: "nat \<Rightarrow> nat" where
  "hex_unit d = (if d < 10 then 0x30 + d else 0x57 + d)"

definition escapeByte :: "nat \<Rightarrow> nat list" where
  "escapeByte b = [0x25, hex_unit (b div 16), hex_unit (b mod 16)]"

definition tokenize :: "nat list \<Rightarrow> nat list list" where
  "tokenize segment = map (\<lambda>b. if isLiteralByte b then [b] else escapeByte b) (utf8_units segment)"

text \<open>The loop of \<^verbatim>\<open>pack\<close>; a limit of \<open>None\<close> is \<^verbatim>\<open>Number.POSITIVE_INFINITY\<close>.\<close>

fun pack_loop :: "nat option \<Rightarrow> nat list \<Rightarrow> nat list list \<Rightarrow> nat list list" where
  "pack_loop limit current [] = [current]"
| "pack_loop limit current (token # tokens) =
     (let full = (case limit of None \<Rightarrow> False | Some n \<Rightarrow> length current + length token > n);
          current' = (if full then [] else current);
          token' = (if current' = [] \<and> token = [0x2e] then escapeByte 0x2e else token)
      in (if full then [current] else []) @ pack_loop limit (current' @ token') tokens)"

definition pack :: "nat list list \<Rightarrow> nat option \<Rightarrow> nat list list" where
  "pack tokens limit = pack_loop limit [] tokens"

definition mark_continued :: "nat list list \<Rightarrow> nat list list" where
  "mark_continued parts = map (\<lambda>p. p @ [CONTINUATION]) (butlast parts) @ [last parts]"

definition encodeSegment :: "nat list \<Rightarrow> nat list list" where
  "encodeSegment segment =
     (let tokens = tokenize segment; single = pack tokens None in
      if length (hd single) \<le> NAME_MAX_BYTES then single
      else mark_continued (pack tokens (Some MAX_PART_BYTES)))"

fun split_units :: "nat \<Rightarrow> nat list \<Rightarrow> nat list list" where
  "split_units sep [] = [[]]"
| "split_units sep (u # us) =
     (if u = sep then [] # split_units sep us
      else (case split_units sep us of [] \<Rightarrow> [[u]] | s # ss \<Rightarrow> (u # s) # ss))"

fun join_units :: "nat \<Rightarrow> nat list list \<Rightarrow> nat list" where
  "join_units sep [] = []"
| "join_units sep [s] = s"
| "join_units sep (s # ss) = s @ sep # join_units sep ss"

text \<open>\<^verbatim>\<open>key.isWellFormed()\<close> is the absence of isolated surrogates.\<close>

definition encodeKey :: "nat list \<Rightarrow> nat list list result" where
  "encodeKey key =
     (if \<not> scalar_units key then throw InvalidConfig
      else Inr (concat (map encodeSegment (split_units 0x2f key))))"

definition hex_value :: "nat \<Rightarrow> nat option" where
  "hex_value c = (if 0x30 \<le> c \<and> c \<le> 0x39 then Some (c - 0x30) else if 0x61 \<le> c \<and> c \<le> 0x66 then Some (c - 0x57) else None)"

fun decodeBytes :: "nat list \<Rightarrow> nat list option" where
  "decodeBytes [] = Some []"
| "decodeBytes (c # cs) =
     (if c = 0x25 then
        (case cs of
           h # l # rest \<Rightarrow>
             (case (hex_value h, hex_value l) of
                (Some x, Some y) \<Rightarrow> map_option ((#) (x * 16 + y)) (decodeBytes rest)
              | _ \<Rightarrow> None)
         | _ \<Rightarrow> None)
      else if isLiteralByte c then map_option ((#) c) (decodeBytes cs)
      else None)"

text \<open>The loop of \<^verbatim>\<open>decodeComponents\<close>, with the bytes of the segment so far; \<open>None\<close> is \<^verbatim>\<open>null\<close>.\<close>

fun decode_loop :: "nat list \<Rightarrow> nat list list \<Rightarrow> nat list list option" where
  "decode_loop bytes [] = (if bytes \<noteq> [] then None else Some [])"
| "decode_loop bytes (name # names) =
     (let continued = (name \<noteq> [] \<and> last name = CONTINUATION);
          bdy = (if continued then butlast name else name)
      in if bdy = [] then None
         else (case decodeBytes bdy of
             None \<Rightarrow> None
           | Some bs \<Rightarrow>
               if continued then decode_loop (bytes @ bs) names
               else (case utf8_decode (bytes @ bs) of
                   None \<Rightarrow> None
                 | Some segment \<Rightarrow>
                     if segment = [0x2e] \<or> segment = [0x2e, 0x2e] then None
                     else map_option ((#) segment) (decode_loop [] names))))"

definition decodeComponents :: "nat list list \<Rightarrow> nat list option" where
  "decodeComponents components =
     (case decode_loop [] components of
        None \<Rightarrow> None
      | Some segments \<Rightarrow>
          if segments = [] then None
          else
            let key = join_units 0x2f segments in
            (case encodeKey key of
               Inl _ \<Rightarrow> None
             | Inr canonical \<Rightarrow> if canonical \<noteq> components then None else Some key))"


section \<open>UTF-8 round trip\<close>

lemma decode_utf8_point:
  assumes "p < 0x110000" "\<not> is_high p" "\<not> is_low p"
  shows "decode_point (utf8_point p @ rest) = Some (p, rest)"
proof -
  obtain a b c d where p: "p = ((a * 64 + b) * 64 + c) * 64 + d" "b < 64" "c < 64" "d < 64"
    and P: "p mod 64 = d" "p div 64 = (a * 64 + b) * 64 + c" "p div 64 mod 64 = c"
      "p div 4096 = a * 64 + b" "p div 4096 mod 64 = b" "p div 262144 = a" by (rule point_digits)
  have flat: "p = a * 262144 + b * 4096 + c * 64 + d" using p(1) by (simp add: algebra_simps)
  consider "p < 0x80" | "0x80 \<le> p" "p < 0x800" | "0x800 \<le> p" "p < 0x10000" | "0x10000 \<le> p" by linarith
  then show ?thesis
  proof cases
    case 1
    then show ?thesis by (simp add: utf8_point_def)
  next
    case 2
    have "a = 0" using 2 flat by linarith
    moreover have "b = 0" using 2 flat by linarith
    moreover have "2 \<le> c" using 2(1) flat p(4) \<open>a = 0\<close> \<open>b = 0\<close> by simp
    moreover have "c < 32" using 2 flat by linarith
    ultimately show ?thesis using 2 p P by (simp add: utf8_point_def cont_byte_def)
  next
    case 3
    then have "a = 0" "b < 16" using 3 flat by linarith+
    then show ?thesis using 3 p P assms(2,3) by (simp add: utf8_point_def cont_byte_def Let_def)
  next
    case 4
    then have "a < 5" "\<not> p < 0x80" "\<not> p < 0x800" "\<not> p < 0x10000" using 4 flat assms(1) by linarith+
    then show ?thesis using 4 p P assms(1) by (simp add: utf8_point_def cont_byte_def Let_def)
  qed
qed

lemma point_units_codePoint:
  assumes "scalar_units (u # us)" "\<forall>x\<in>set (u # us). x < 0x10000"
  shows "point_units (codePointAt (u # us)) @ drop (units_of (codePointAt (u # us)) - 1) us = u # us"
proof (cases "is_high u \<and> us \<noteq> [] \<and> is_low (hd us)")
  case True
  then obtain n vs where us: "us = n # vs" "is_high u" "is_low n" by (cases us) auto
  define h l where "h = u - 0xd800" and "l = n - 0xdc00"
  have hl: "u = 0xd800 + h" "n = 0xdc00 + l" "h < 0x400" "l < 0x400"
    using us by (auto simp: h_def l_def is_high_def is_low_def)
  have "codePointAt (u # us) = 0x10000 + h * 0x400 + l" using us by (simp add: h_def l_def)
  then show ?thesis using us hl by (simp add: point_units_def units_of_def)
next
  case False
  then have "codePointAt (u # us) = u" by (cases us) auto
  then show ?thesis using assms(2) by (simp add: point_units_def units_of_def)
qed

lemma utf8_roundtrip:
  "scalar_units us \<Longrightarrow> \<forall>x\<in>set us. x < 0x10000 \<Longrightarrow> utf8_decode (utf8_units us) = Some us"
proof (induction us rule: utf8_units.induct)
  case 1
  then show ?case by (simp add: utf8_decode.simps)
next
  case (2 u us)
  let ?p = "codePointAt (u # us)" and ?rest = "drop (units_of (codePointAt (u # us)) - 1) us"
  note sp = scalar_point [OF 2(2,3)]
  have enc: "utf8_units (u # us) = utf8_point ?p @ utf8_units ?rest" using sp(1,2) by (simp add: Let_def)
  have "utf8_decode (utf8_units ?rest) = Some ?rest"
    using 2(1) [OF refl refl] sp 2(3) by (meson in_set_dropD list.set_intros(2))
  moreover have "utf8_point ?p \<noteq> []" by (simp add: utf8_point_def)
  ultimately show ?case
    unfolding enc using decode_utf8_point [OF sp(3,1,2)] point_units_codePoint [OF 2(2,3)]
    by (subst utf8_decode.simps) (simp del: codePointAt.simps)
qed

lemma utf8_units_bytes:
  "scalar_units us \<Longrightarrow> \<forall>x\<in>set us. x < 0x10000 \<Longrightarrow> \<forall>b\<in>set (utf8_units us). b < 256"
proof (induction us rule: utf8_units.induct)
  case (2 u us)
  let ?p = "codePointAt (u # us)" and ?rest = "drop (units_of (codePointAt (u # us)) - 1) us"
  note sp = scalar_point [OF 2(2,3)]
  have enc: "utf8_units (u # us) = utf8_point ?p @ utf8_units ?rest" using sp(1,2) by (simp add: Let_def)
  have "\<forall>b\<in>set (utf8_units ?rest). b < 256"
    using 2(1) [OF refl refl] sp 2(3) by (meson in_set_dropD list.set_intros(2))
  moreover have "\<forall>b\<in>set (utf8_point ?p). b < 256" using sp(3) by (auto simp: utf8_point_def)
  ultimately show ?case unfolding enc by auto
qed simp


section \<open>Tokens and parts\<close>

definition token_of :: "nat \<Rightarrow> nat list \<Rightarrow> bool" where
  "token_of b t = (b < 256 \<and> (t = escapeByte b \<or> isLiteralByte b \<and> t = [b]))"

text \<open>The units a name may hold before its continuation mark.\<close>

definition name_unit :: "nat \<Rightarrow> bool" where
  "name_unit u = (isLiteralByte u \<or> u = 0x25)"

definition part_ok :: "nat list \<Rightarrow> nat list \<Rightarrow> bool" where
  "part_ok bs part = (\<exists>ts. list_all2 token_of bs ts \<and> part = concat ts)"

lemma hex_roundtrip: "d < 16 \<Longrightarrow> hex_value (hex_unit d) = Some d" "d < 16 \<Longrightarrow> isLiteralByte (hex_unit d)"
  by (auto simp: hex_value_def hex_unit_def isLiteralByte_def)

lemma decode_token: "token_of b t \<Longrightarrow> decodeBytes (t @ rest) = map_option ((#) b) (decodeBytes rest)"
proof -
  assume t: "token_of b t"
  have "decodeBytes (escapeByte b @ rest) = map_option ((#) b) (decodeBytes rest)" if "b < 256"
  proof -
    have "b div 16 < 16" "b mod 16 < 16" using that by auto
    then show ?thesis by (simp add: escapeByte_def hex_roundtrip(1))
  qed
  moreover have "isLiteralByte b \<Longrightarrow> b \<noteq> 0x25" by (auto simp: isLiteralByte_def)
  ultimately show ?thesis using t by (auto simp: token_of_def)
qed

lemma decode_part:
  assumes "part_ok bs part"
  shows "decodeBytes part = Some bs"
proof -
  obtain ts where ts: "list_all2 token_of bs ts" "part = concat ts" using assms by (auto simp: part_ok_def)
  from ts(1) have "decodeBytes (concat ts) = Some bs"
    by (induction rule: list_all2_induct) (simp_all add: decode_token)
  then show ?thesis using ts(2) by simp
qed

lemma token_units: "token_of b t \<Longrightarrow> \<forall>u\<in>set t. name_unit u"
proof -
  have "\<forall>u\<in>set (escapeByte b). name_unit u" if "b < 256"
  proof -
    have "b div 16 < 16" "b mod 16 < 16" using that by auto
    then show ?thesis by (auto simp: escapeByte_def name_unit_def hex_roundtrip(2))
  qed
  then show "token_of b t \<Longrightarrow> \<forall>u\<in>set t. name_unit u" by (auto simp: token_of_def name_unit_def)
qed

lemma part_units: "part_ok bs part \<Longrightarrow> \<forall>u\<in>set part. name_unit u"
proof -
  assume "part_ok bs part"
  then obtain ts where ts: "list_all2 token_of bs ts" "part = concat ts" by (auto simp: part_ok_def)
  from ts(1) have "\<forall>u\<in>set (concat ts). name_unit u" by (induction rule: list_all2_induct) (auto dest: token_units)
  then show ?thesis using ts(2) by simp
qed

lemma part_ok_snoc: "part_ok bs part \<Longrightarrow> token_of b t \<Longrightarrow> part_ok (bs @ [b]) (part @ t)"
proof -
  assume "part_ok bs part" and t: "token_of b t"
  then obtain ts where "list_all2 token_of bs ts" "part = concat ts" by (auto simp: part_ok_def)
  then have "list_all2 token_of (bs @ [b]) (ts @ [t])" "part @ t = concat (ts @ [t])"
    using t by (simp_all add: list_all2_appendI)
  then show ?thesis unfolding part_ok_def by blast
qed

lemma token_length: "token_of b t \<Longrightarrow> t \<noteq> [] \<and> length t \<le> 3"
  by (auto simp: token_of_def escapeByte_def)

text \<open>A part under construction, and the form every finished one has.\<close>

definition name_ok :: "nat option \<Rightarrow> nat list \<Rightarrow> bool" where
  "name_ok limit part = (part \<noteq> [] \<and> hd part \<noteq> 0x2e \<and> (\<forall>n. limit = Some n \<longrightarrow> length part \<le> n))"

lemma pack_loop_parts:
  assumes "list_all2 token_of bs ts" "part_ok bs0 current" "current = [] \<or> name_ok limit current"
    and "ts = [] \<Longrightarrow> current \<noteq> []" "\<forall>n. limit = Some n \<longrightarrow> 3 \<le> n"
  shows "\<exists>bss. concat bss = bs0 @ bs \<and> list_all2 part_ok bss (pack_loop limit current ts) \<and>
    (\<forall>p\<in>set (pack_loop limit current ts). name_ok limit p)"
  using assms(1-4)
proof (induction bs ts arbitrary: bs0 current rule: list_all2_induct)
  case Nil
  then show ?case by (intro exI [of _ "[bs0]"]) auto
next
  case (Cons b bs t ts)
  define full where "full = (case limit of None \<Rightarrow> False | Some n \<Rightarrow> length current + length t > n)"
  define cur where "cur = (if full then [] else current)"
  define t' where "t' = (if cur = [] \<and> t = [0x2e] then escapeByte 0x2e else t)"
  have step: "pack_loop limit current (t # ts) = (if full then [current] else []) @ pack_loop limit (cur @ t') ts"
    by (simp add: Let_def full_def cur_def t'_def)
  have tok: "token_of b t'"
  proof (cases "t = [0x2e]")
    case True
    then have "b = 0x2e" using Cons(1) by (auto simp: token_of_def escapeByte_def)
    then show ?thesis using Cons(1) True by (auto simp: t'_def token_of_def)
  qed (use Cons(1) in \<open>auto simp: t'_def\<close>)
  have len: "length t' \<le> 3" "t' \<noteq> []" using token_length [OF tok] by simp_all
  have full_ne: "name_ok limit current" if full
    using that Cons.prems(2) token_length [OF Cons(1)] assms(5) by (auto simp: full_def split: option.splits)
  have head: "hd t' \<noteq> 0x2e" if "cur = []"
    using that Cons(1) by (auto simp: t'_def token_of_def escapeByte_def)
  have cur_ok: "part_ok (if full then [] else bs0) cur" using Cons.prems(1) by (auto simp: cur_def part_ok_def)
  have "name_ok limit (cur @ t')"
  proof (cases "cur = []")
    case True
    then show ?thesis using head len assms(5) by (auto simp: name_ok_def intro: order_trans)
  next
    case False
    then have "\<not> full" "cur = current" "t' = t" by (auto simp: cur_def t'_def split: if_splits)
    then show ?thesis using False Cons.prems(2) by (auto simp: name_ok_def full_def split: option.splits)
  qed
  moreover have "part_ok ((if full then [] else bs0) @ [b]) (cur @ t')" by (rule part_ok_snoc [OF cur_ok tok])
  ultimately obtain bss where bss: "concat bss = ((if full then [] else bs0) @ [b]) @ bs"
      "list_all2 part_ok bss (pack_loop limit (cur @ t') ts)" "\<forall>p\<in>set (pack_loop limit (cur @ t') ts). name_ok limit p"
    using Cons.IH [of "(if full then [] else bs0) @ [b]" "cur @ t'"] len(2) by auto
  show ?case
  proof (cases full)
    case True
    then show ?thesis unfolding step using bss Cons.prems(1) full_ne by (intro exI [of _ "bs0 # bss"]) auto
  next
    case False
    then show ?thesis unfolding step using bss by (intro exI [of _ bss]) auto
  qed
qed

lemma pack_loop_None: "\<exists>p. pack_loop None current ts = [p]"
  by (induction ts arbitrary: current) (simp_all add: Let_def)

lemma segment_tokens:
  assumes "scalar_units seg" "\<forall>x\<in>set seg. x < 0x10000"
  shows "list_all2 token_of (utf8_units seg) (tokenize seg)"
  using utf8_units_bytes [OF assms] by (auto simp: tokenize_def list_all2_conv_all_nth token_of_def)


lemma pack_parts:
  assumes "scalar_units seg" "\<forall>x\<in>set seg. x < 0x10000" "seg \<noteq> []" "\<forall>n. limit = Some n \<longrightarrow> 3 \<le> n"
  obtains bss where "concat bss = utf8_units seg" "list_all2 part_ok bss (pack (tokenize seg) limit)"
    "\<forall>p\<in>set (pack (tokenize seg) limit). name_ok limit p" "pack (tokenize seg) limit \<noteq> []"
proof -
  obtain u us where seg: "seg = u # us" using assms(3) by (cases seg) auto
  have "tokenize seg \<noteq> []" by (simp add: tokenize_def seg Let_def utf8_point_def)
  moreover have "part_ok [] []" by (simp add: part_ok_def)
  moreover have "pack_loop limit [] ts \<noteq> []" for ts
  proof -
    have "pack_loop limit cur ts \<noteq> []" for cur by (induction ts arbitrary: cur) (simp_all add: Let_def)
    then show ?thesis .
  qed
  ultimately show thesis
    using pack_loop_parts [OF segment_tokens [OF assms(1,2)], of "[]" "[]" limit] assms(4) that by (auto simp: pack_def)
qed

section \<open>Decoding names\<close>

lemma no_continuation: "part_ok bs p \<Longrightarrow> p \<noteq> [] \<Longrightarrow> last p \<noteq> CONTINUATION"
  using part_units [of bs p] last_in_set [of p] by (fastforce simp: name_unit_def isLiteralByte_def CONTINUATION_def)

lemma decode_marked:
  assumes "list_all2 part_ok bss parts" "parts \<noteq> []" "\<forall>p\<in>set parts. p \<noteq> []"
    and "utf8_decode (acc @ concat bss) = Some seg" "seg \<noteq> [0x2e]" "seg \<noteq> [0x2e, 0x2e]"
  shows "decode_loop acc (mark_continued parts @ rest) = map_option ((#) seg) (decode_loop [] rest)"
  using assms
proof (induction bss parts arbitrary: acc rule: list_all2_induct)
  case (Cons bs bss p parts)
  have p: "decodeBytes p = Some bs" "p \<noteq> []" "last p \<noteq> CONTINUATION"
    using decode_part [OF Cons(1)] no_continuation [OF Cons(1)] Cons.prems(2) by simp_all
  show ?case
  proof (cases "parts = []")
    case True
    then have "bss = []" using Cons(2) by simp
    then show ?thesis using True p Cons.prems(3-5) by (simp add: mark_continued_def)
  next
    case False
    have "mark_continued (p # parts) = (p @ [CONTINUATION]) # mark_continued parts" using False by (simp add: mark_continued_def)
    then show ?thesis using Cons.IH [of "acc @ bs"] False Cons.prems p by simp
  qed
qed simp

text \<open>The segments of a key that \<^verbatim>\<open>LocalFsStorage\<close> has validated.\<close>

definition segment_ok :: "nat list \<Rightarrow> bool" where
  "segment_ok seg = (scalar_units seg \<and> (\<forall>x\<in>set seg. x < 0x10000) \<and> seg \<noteq> [] \<and> seg \<noteq> [0x2e] \<and> seg \<noteq> [0x2e, 0x2e])"

lemma MAX_PART: "3 \<le> MAX_PART_BYTES" "MAX_PART_BYTES < NAME_MAX_BYTES"
  by (simp_all add: MAX_PART_BYTES_def NAME_MAX_BYTES_def)

lemma decode_segment:
  assumes "segment_ok seg"
  shows "decode_loop [] (encodeSegment seg @ rest) = map_option ((#) seg) (decode_loop [] rest)"
proof -
  have seg: "scalar_units seg" "\<forall>x\<in>set seg. x < 0x10000" "seg \<noteq> []" "seg \<noteq> [0x2e]" "seg \<noteq> [0x2e, 0x2e]"
    using assms by (simp_all add: segment_ok_def)
  have marked: "decode_loop [] (mark_continued (pack (tokenize seg) limit) @ rest) = map_option ((#) seg) (decode_loop [] rest)"
    if limit: "\<forall>n. limit = Some n \<longrightarrow> 3 \<le> n" for limit
  proof -
    obtain bss where bss: "concat bss = utf8_units seg" "list_all2 part_ok bss (pack (tokenize seg) limit)"
        "\<forall>p\<in>set (pack (tokenize seg) limit). name_ok limit p" "pack (tokenize seg) limit \<noteq> []"
      by (rule pack_parts [OF seg(1-3) limit])
    show ?thesis
      using decode_marked [OF bss(2,4), of "[]" seg rest] bss(1,3) utf8_roundtrip [OF seg(1,2)] seg(4,5) by (auto simp: name_ok_def)
  qed
  obtain p where p: "pack (tokenize seg) None = [p]" using pack_loop_None by (auto simp: pack_def)
  have "mark_continued [p] = [p]" by (simp add: mark_continued_def)
  then show ?thesis using marked [of None] marked [of "Some MAX_PART_BYTES"] p MAX_PART(1) by (simp add: encodeSegment_def Let_def)
qed

lemma decode_segments:
  "\<forall>seg\<in>set segs. segment_ok seg \<Longrightarrow> decode_loop [] (concat (map encodeSegment segs)) = Some segs"
  by (induction segs) (simp_all add: decode_segment)

lemma split_nonempty [simp]: "split_units sep us \<noteq> []"
  by (induction us) (auto split: list.splits)

lemma join_split: "join_units sep (split_units sep us) = us"
proof (induction us)
  case (Cons u us)
  obtain s ss where s: "split_units sep us = s # ss" using split_nonempty by (metis neq_Nil_conv)
  then show ?case using Cons by (cases ss) auto
qed simp

definition file_name :: "nat list \<Rightarrow> bool" where
  "file_name name =
     (name \<noteq> [] \<and> length name \<le> NAME_MAX_BYTES \<and> hd name \<noteq> 0x2e \<and>
      (\<forall>u\<in>set name. isLiteralByte u \<or> u = 0x25 \<or> u = CONTINUATION))"

lemma segment_names:
  assumes "segment_ok seg"
  shows "\<forall>name\<in>set (encodeSegment seg). file_name name"
proof -
  have seg: "scalar_units seg" "\<forall>x\<in>set seg. x < 0x10000" "seg \<noteq> []" using assms by (simp_all add: segment_ok_def)
  have parts: "name_ok limit p \<and> (\<forall>u\<in>set p. name_unit u)"
    if "\<forall>n. limit = Some n \<longrightarrow> 3 \<le> n" "p \<in> set (pack (tokenize seg) limit)" for limit p
    using pack_parts [OF seg that(1)] that(2) part_units by (metis list_all2_right)
  obtain p where p: "pack (tokenize seg) None = [p]" using pack_loop_None by (auto simp: pack_def)
  show ?thesis
  proof (cases "length p \<le> NAME_MAX_BYTES")
    case True
    then show ?thesis using parts [of None p] p by (auto simp: encodeSegment_def file_name_def name_ok_def name_unit_def)
  next
    case False
    let ?ps = "pack (tokenize seg) (Some MAX_PART_BYTES)"
    have "file_name q \<and> file_name (q @ [CONTINUATION])" if "q \<in> set ?ps" for q
      using parts [of "Some MAX_PART_BYTES" q] that MAX_PART by (auto simp: file_name_def name_ok_def name_unit_def)
    moreover have "?ps \<noteq> []" using pack_parts [OF seg, of "Some MAX_PART_BYTES"] MAX_PART(1) by blast
    ultimately show ?thesis
      using False p by (auto simp: encodeSegment_def Let_def mark_continued_def dest: in_set_butlastD)
  qed
qed

text \<open>
  (C37) The file-system backend names every well-formed key faithfully: a key whose \<^verbatim>\<open>/\<close>-segments are
  non-empty and neither \<^verbatim>\<open>.\<close> nor \<^verbatim>\<open>..\<close> is decoded from its names, so distinct keys have distinct names; every
  name is a non-empty file name of at most 255 bytes, free of upper case, non-ASCII and leading dots;
  and names that decode at all are those of the decoded key. A key with an isolated surrogate is refused.
\<close>

theorem fs_key_roundtrip:
  assumes "\<forall>seg\<in>set (split_units 0x2f key). segment_ok seg" "scalar_units key"
  shows "(\<exists>names. encodeKey key = Inr names \<and> decodeComponents names = Some key \<and> (\<forall>name\<in>set names. file_name name)) \<and>
    (\<forall>names k. decodeComponents names = Some k \<longrightarrow> encodeKey k = Inr names) \<and>
    (\<forall>k. \<not> scalar_units k \<longrightarrow> encodeKey k = throw InvalidConfig)"
proof -
  let ?names = "concat (map encodeSegment (split_units 0x2f key))"
  have enc: "encodeKey key = Inr ?names" using assms(2) by (simp add: encodeKey_def)
  moreover have "decodeComponents ?names = Some key"
    using decode_segments [OF assms(1)] enc by (simp add: decodeComponents_def join_split Let_def)
  moreover have "\<forall>name\<in>set ?names. file_name name" using segment_names assms(1) by auto
  moreover have "encodeKey k = Inr names" if "decodeComponents names = Some k" for names k
    using that by (auto simp: decodeComponents_def Let_def split: option.splits sum.splits if_splits)
  moreover have "encodeKey k = throw InvalidConfig" if "\<not> scalar_units k" for k using that by (simp add: encodeKey_def)
  ultimately show ?thesis by blast
qed


theorem fs_key_roundtrip_witness:
  "\<exists>names. encodeKey (units ''a/B.x'') = Inr names \<and> decodeComponents names = Some (units ''a/B.x'')"
proof -
  have "\<forall>seg\<in>set (split_units 0x2f (units ''a/B.x'')). segment_ok seg" "scalar_units (units ''a/B.x'')"
    by (simp_all add: segment_ok_def is_high_def is_low_def)
  from fs_key_roundtrip [OF this] show ?thesis by blast
qed

end
