(* ===== verification/Retry.thy ===== *)
theory Retry
  imports Writer
begin

text \<open>
  \<^verbatim>\<open>packages/protocol/src/storage/retry.ts\<close>: the one retry policy of the storage adapters. A request is a
  function from the number of the attempt to what that attempt returns or throws; the loop gives the
  outcome, the attempts it made and the waits between them. Shown here: the promise \<^verbatim>\<open>Storage.put\<close> makes
  of a create-only write that fails, on which the writer decides whether to read the slot back, and the
  bounds on attempts and waits.
\<close>

section \<open>Model\<close>

text \<open>
  A thrown \<^verbatim>\<open>BaerlyError\<close> with its code and the members of its cause that matter here, or any other value.
\<close>

datatype storage_error =
    StorageError (err_code: error_code) (err_throttled: bool) (err_retryAfterSeconds: "rat option") (err_notApplied: bool)
  | ForeignError

definition STORAGE_RETRY_MAX_ATTEMPTS :: nat where "STORAGE_RETRY_MAX_ATTEMPTS = 3"
definition STORAGE_RETRY_TRANSIENT_BASE_MILLIS :: rat where "STORAGE_RETRY_TRANSIENT_BASE_MILLIS = 50"
definition STORAGE_RETRY_THROTTLE_BASE_MILLIS :: rat where "STORAGE_RETRY_THROTTLE_BASE_MILLIS = 1000"
definition STORAGE_RETRY_MAX_DELAY_MILLIS :: rat where "STORAGE_RETRY_MAX_DELAY_MILLIS = 20000"

definition PERMANENT_STORAGE_ERROR_CODES :: "error_code list" where
  "PERMANENT_STORAGE_ERROR_CODES = [AccessDenied, InvalidConfig, InvalidResponse, WriteConflict]"

record storage_retry_options =
  ro_retries :: "jsnum option"
  ro_backoffMs :: "rat option"
  ro_conditionalCreate :: bool

fun isThrottled :: "storage_error \<Rightarrow> bool" where
  "isThrottled (StorageError _ t _ _) = t"
| "isThrottled ForeignError = False"

fun retryAfterMillis :: "storage_error \<Rightarrow> rat option" where
  "retryAfterMillis (StorageError _ _ seconds _) = map_option (\<lambda>s. s * 1000) seconds"
| "retryAfterMillis ForeignError = None"

text \<open>The jitter source is given by the value it returns, in \<^verbatim>\<open>[0, 1)\<close>.\<close>

definition storageRetryDelayMillis :: "storage_error \<Rightarrow> nat \<Rightarrow> rat option \<Rightarrow> rat \<Rightarrow> rat" where
  "storageRetryDelayMillis error retryIndex backoffMs random =
     (case retryAfterMillis error of
        Some hintMs \<Rightarrow> min hintMs STORAGE_RETRY_MAX_DELAY_MILLIS
      | None \<Rightarrow>
          let base = (case backoffMs of Some b \<Rightarrow> b
                | None \<Rightarrow> if isThrottled error then STORAGE_RETRY_THROTTLE_BASE_MILLIS else STORAGE_RETRY_TRANSIENT_BASE_MILLIS);
              ceiling = min STORAGE_RETRY_MAX_DELAY_MILLIS (base * 2 ^ retryIndex)
          in random * ceiling)"

fun is_permanent :: "storage_error \<Rightarrow> bool" where
  "is_permanent (StorageError c _ _ _) = (c \<in> set PERMANENT_STORAGE_ERROR_CODES)"
| "is_permanent ForeignError = False"

text \<open>What the loop throws for a permanent error, and on the last attempt.\<close>

definition permanent_outcome :: "bool \<Rightarrow> bool \<Rightarrow> storage_error \<Rightarrow> storage_error" where
  "permanent_outcome conditionalCreate uncertain error =
     (if conditionalCreate \<and> uncertain \<and> err_code error \<noteq> WriteConflict
      then StorageError NetworkError False None False else error)"

definition final_outcome :: "bool \<Rightarrow> bool \<Rightarrow> storage_error \<Rightarrow> storage_error" where
  "final_outcome conditionalCreate uncertain error =
     (case error of
        StorageError c t r n \<Rightarrow> if conditionalCreate \<and> \<not> uncertain then StorageError c t r True else error
      | ForeignError \<Rightarrow> error)"

text \<open>
  The loop with \<open>left\<close> attempts to go; the result is the outcome, the attempts made from here on and the
  waits.
\<close>

fun retry_loop ::
  "storage_retry_options \<Rightarrow> nat \<Rightarrow> (nat \<Rightarrow> rat) \<Rightarrow> (nat \<Rightarrow> storage_error + 'a) \<Rightarrow> nat \<Rightarrow> nat \<Rightarrow> bool
   \<Rightarrow> (storage_error + 'a) \<times> nat \<times> rat list" where
  "retry_loop opts retries random fn 0 attempt uncertain = (Inl (StorageError Internal False None False), 0, [])"
| "retry_loop opts retries random fn (Suc left) attempt uncertain =
     (case fn attempt of
        Inr x \<Rightarrow> (Inr x, 1, [])
      | Inl error \<Rightarrow>
          if is_permanent error then (Inl (permanent_outcome (ro_conditionalCreate opts) uncertain error), 1, [])
          else
            let uncertain' = (uncertain \<or> \<not> isThrottled error)
            in if attempt \<ge> retries then (Inl (final_outcome (ro_conditionalCreate opts) uncertain' error), 1, [])
               else
                 let wait = storageRetryDelayMillis error attempt (ro_backoffMs opts) (random attempt);
                     (r, n, waits) = retry_loop opts retries random fn left (attempt + 1) uncertain'
                 in (r, Suc n, wait # waits))"

definition retries_of :: "storage_retry_options \<Rightarrow> nat option" where
  "retries_of opts =
     (case ro_retries opts of None \<Rightarrow> Some (STORAGE_RETRY_MAX_ATTEMPTS - 1) | Some r \<Rightarrow> safe_integer r)"

definition retryStorageCall ::
  "storage_retry_options \<Rightarrow> (nat \<Rightarrow> rat) \<Rightarrow> (nat \<Rightarrow> storage_error + 'a) \<Rightarrow> (storage_error + 'a) \<times> nat \<times> rat list" where
  "retryStorageCall opts random fn =
     (case retries_of opts of
        None \<Rightarrow> (Inl (StorageError InvalidConfig False None False), 0, [])
      | Some retries \<Rightarrow> retry_loop opts retries random fn (retries + 1) 0 False)"

section \<open>What a failure says\<close>

text \<open>
  The promise of \<^verbatim>\<open>Storage.put\<close> for a create-only write: a failure that rules out a landed attempt.
\<close>

definition rules_out :: "storage_error \<Rightarrow> bool" where
  "rules_out e = (case e of StorageError c _ _ n \<Rightarrow> c \<in> {AccessDenied, InvalidConfig} \<or> n | ForeignError \<Rightarrow> False)"

lemma retry_loop_rules_out:
  assumes "retry_loop opts retries random fn left attempt uncertain = (Inl e, n, waits)" "rules_out e"
    and create: "ro_conditionalCreate opts"
    and claims: "\<forall>i err. fn i = Inl err \<longrightarrow> (isThrottled err \<or> rules_out err \<longrightarrow> \<not> applied i) \<and> \<not> (\<exists>c t r. err = StorageError c t r True)"
    and before: "\<not> uncertain \<longrightarrow> (\<forall>i<attempt. \<not> applied i)"
  shows "\<forall>i<attempt + n. \<not> applied i"
  using assms(1,2) before
proof (induction left arbitrary: attempt uncertain n waits)
  case 0
  then show ?case by (auto simp: rules_out_def)
next
  case (Suc left)
  obtain err where err: "fn attempt = Inl err" using Suc.prems(1) by (cases "fn attempt") auto
  note claim = claims [rule_format, OF err]
  have upto: "\<forall>i<attempt + 1. \<not> applied i" if "\<not> uncertain" "\<not> applied attempt"
    using that Suc.prems(3) by (auto simp: less_Suc_eq)
  show ?case
  proof (cases "is_permanent err")
    case True
    then have e: "e = permanent_outcome True uncertain err" "n = 1" using Suc.prems(1) err create by auto
    then have "\<not> uncertain" "rules_out err"
      using Suc.prems(2) True claim
      by (cases err; auto simp: permanent_outcome_def rules_out_def split: if_splits)+
    then show ?thesis using upto claim e(2) by simp
  next
    case False
    define unc where "unc = (uncertain \<or> \<not> isThrottled err)"
    have known: "\<forall>i<attempt + 1. \<not> applied i" if "\<not> unc" using that upto claim by (auto simp: unc_def)
    show ?thesis
    proof (cases "attempt \<ge> retries")
      case True
      then have e: "e = final_outcome True unc err" "n = 1" using Suc.prems(1) err create False by (auto simp: unc_def)
      have "\<not> unc"
        using e(1) Suc.prems(2) False claim
        by (cases err) (auto simp: final_outcome_def rules_out_def PERMANENT_STORAGE_ERROR_CODES_def split: if_splits)
      then show ?thesis using known e(2) by simp
    next
      case more: False
      obtain n' waits' where "retry_loop opts retries random fn left (attempt + 1) unc = (Inl e, n', waits')" "n = Suc n'"
        using Suc.prems(1) err False more by (auto simp: unc_def Let_def split: prod.splits)
      then show ?thesis using Suc.IH [OF _ Suc.prems(2)] known by fastforce
    qed
  qed
qed

lemma delay_bounds:
  assumes "0 \<le> random" "random < 1" "\<forall>b. backoffMs = Some b \<longrightarrow> 0 \<le> b" "\<forall>s. retryAfterMillis err = Some s \<longrightarrow> 0 \<le> s"
  shows "0 \<le> storageRetryDelayMillis err k backoffMs random \<and> storageRetryDelayMillis err k backoffMs random \<le> STORAGE_RETRY_MAX_DELAY_MILLIS"
proof (cases "retryAfterMillis err")
  case (Some s)
  then show ?thesis using assms(4) by (simp add: storageRetryDelayMillis_def STORAGE_RETRY_MAX_DELAY_MILLIS_def)
next
  case None
  define base where "base = (case backoffMs of Some b \<Rightarrow> b
      | None \<Rightarrow> if isThrottled err then STORAGE_RETRY_THROTTLE_BASE_MILLIS else STORAGE_RETRY_TRANSIENT_BASE_MILLIS)"
  define top where "top = min STORAGE_RETRY_MAX_DELAY_MILLIS (base * 2 ^ k)"
  have "0 \<le> base"
    using assms(3) by (auto simp: base_def STORAGE_RETRY_THROTTLE_BASE_MILLIS_def STORAGE_RETRY_TRANSIENT_BASE_MILLIS_def split: option.split)
  then have "0 \<le> top" "top \<le> STORAGE_RETRY_MAX_DELAY_MILLIS" by (simp_all add: top_def STORAGE_RETRY_MAX_DELAY_MILLIS_def)
  moreover have "storageRetryDelayMillis err k backoffMs random = random * top"
    by (simp add: storageRetryDelayMillis_def None top_def base_def)
  moreover have "random * top \<le> 1 * top" using \<open>0 \<le> top\<close> assms(2) by (intro mult_right_mono) simp_all
  ultimately show ?thesis using assms(1) by simp
qed

lemma retry_loop_bounds:
  assumes "retry_loop opts retries random fn left attempt uncertain = (r, n, waits)" "attempt + left = retries + 1"
    and "\<forall>i. 0 \<le> random i \<and> random i < 1" "\<forall>b. ro_backoffMs opts = Some b \<longrightarrow> 0 \<le> b"
    and "\<forall>i err s. fn i = Inl err \<and> retryAfterMillis err = Some s \<longrightarrow> 0 \<le> s"
  shows "n \<le> left \<and> n \<le> length waits + 1 \<and> (\<forall>w\<in>set waits. 0 \<le> w \<and> w \<le> STORAGE_RETRY_MAX_DELAY_MILLIS)"
  using assms(1,2)
proof (induction left arbitrary: attempt uncertain n waits)
  case (Suc left)
  show ?case
  proof (cases "fn attempt")
    case (Inl err)
    have wait: "0 \<le> storageRetryDelayMillis err attempt (ro_backoffMs opts) (random attempt) \<and>
        storageRetryDelayMillis err attempt (ro_backoffMs opts) (random attempt) \<le> STORAGE_RETRY_MAX_DELAY_MILLIS"
      by (rule delay_bounds) (use assms(3-5) Inl in auto)
    show ?thesis
    proof (cases "is_permanent err \<or> attempt \<ge> retries")
      case True
      then show ?thesis using Suc.prems Inl by (auto simp: Let_def split: if_splits)
    next
      case False
      then obtain n' waits' where rec: "retry_loop opts retries random fn left (attempt + 1) (uncertain \<or> \<not> isThrottled err) = (r, n', waits')"
          "n = Suc n'" "waits = storageRetryDelayMillis err attempt (ro_backoffMs opts) (random attempt) # waits'"
        using Suc.prems(1) Inl by (auto simp: Let_def split: prod.splits)
      then show ?thesis using Suc.IH [OF rec(1)] Suc.prems(2) wait by auto
    qed
  qed (use Suc.prems in auto)
qed simp


text \<open>
  (C30) A create-only write that fails under the retry policy keeps the promise of \<^verbatim>\<open>Storage.put\<close>: when
  the call throws \<^verbatim>\<open>AccessDenied\<close> or \<^verbatim>\<open>InvalidConfig\<close>, or an error marked \<^verbatim>\<open>notApplied\<close>, no attempt it made took
  effect, provided a single throttled, refused or rejected request takes no effect and requests do not
  set the mark themselves. A rejection after an attempt of unknown outcome is never passed on as such.
\<close>

theorem retry_keeps_put_contract:
  assumes "retryStorageCall opts random fn = (Inl e, n, waits)" and "ro_conditionalCreate opts"
    and "\<forall>i err. fn i = Inl err \<longrightarrow>
      (isThrottled err \<or> rules_out err \<longrightarrow> \<not> applied i) \<and> \<not> (\<exists>c t r. err = StorageError c t r True)"
    and "rules_out e"
  shows "\<forall>i<n. \<not> applied i"
proof (cases "retries_of opts")
  case None
  then show ?thesis using assms(1) by (simp add: retryStorageCall_def)
next
  case (Some retries)
  then have "retry_loop opts retries random fn (retries + 1) 0 False = (Inl e, n, waits)" using assms(1) by (simp add: retryStorageCall_def)
  from retry_loop_rules_out [OF this assms(4,2,3)] show ?thesis by simp
qed

text \<open>The default policy makes at most three requests and never waits longer than twenty seconds.\<close>

theorem retry_bounded:
  assumes "retryStorageCall opts random fn = (r, n, waits)" "retries_of opts = Some retries"
    and "\<forall>i. 0 \<le> random i \<and> random i < 1" "\<forall>b. ro_backoffMs opts = Some b \<longrightarrow> 0 \<le> b"
    and "\<forall>i err s. fn i = Inl err \<and> retryAfterMillis err = Some s \<longrightarrow> 0 \<le> s"
  shows "n \<le> retries + 1 \<and> (\<forall>w\<in>set waits. 0 \<le> w \<and> w \<le> STORAGE_RETRY_MAX_DELAY_MILLIS) \<and>
    (ro_retries opts = None \<longrightarrow> n \<le> STORAGE_RETRY_MAX_ATTEMPTS)"
proof -
  have "retry_loop opts retries random fn (retries + 1) 0 False = (r, n, waits)" using assms(1,2) by (simp add: retryStorageCall_def)
  from retry_loop_bounds [OF this _ assms(3-5)] show ?thesis
    using assms(2) by (auto simp: retries_of_def STORAGE_RETRY_MAX_ATTEMPTS_def)
qed

text \<open>A throttled request and one refused for its credentials; a third would have landed.\<close>

definition refused_create :: "nat \<Rightarrow> storage_error + unit" where
  "refused_create i =
     (if i = 0 then Inl (StorageError NetworkError True (Some 2) False)
      else if i = 1 then Inl (StorageError AccessDenied False None False) else Inr ())"

definition landed :: "(nat \<Rightarrow> storage_error + unit) \<Rightarrow> nat \<Rightarrow> bool" where
  "landed fn i = (fn i = Inr ())"

theorem retry_keeps_put_contract_witness:
  "retryStorageCall \<lparr>ro_retries = None, ro_backoffMs = None, ro_conditionalCreate = True\<rparr> (\<lambda>_. 0) refused_create =
     (Inl (StorageError AccessDenied False None False), 2, [2000]) \<and>
   \<not> landed refused_create 0 \<and> \<not> landed refused_create 1 \<and> landed refused_create 2"
proof -
  have "retryStorageCall \<lparr>ro_retries = None, ro_backoffMs = None, ro_conditionalCreate = True\<rparr> (\<lambda>_. 0) refused_create =
     (Inl (StorageError AccessDenied False None False), 2, [2000])"
    by (simp add: retryStorageCall_def retries_of_def STORAGE_RETRY_MAX_ATTEMPTS_def refused_create_def PERMANENT_STORAGE_ERROR_CODES_def
        storageRetryDelayMillis_def STORAGE_RETRY_MAX_DELAY_MILLIS_def permanent_outcome_def numeral_3_eq_3 numeral_2_eq_2)
  from this retry_keeps_put_contract [OF this, of "landed refused_create"] show ?thesis
    by (auto simp: landed_def refused_create_def rules_out_def split: if_splits)
qed

end
