(* ===== verification/Spec2Isabelle.thy ===== *)
theory Spec2Isabelle
  imports Repair Termination FoldPlanner LocalFsKey Retry
begin

text \<open>
  Verification development of the baerly-storage kernel, a document database whose only shared state is
  an object store. Source files are named relative to \<^verbatim>\<open>src/packages\<close>.

  \<^bold>\<open>The program.\<close> A collection lives under one key prefix of a bucket: a control object
  \<^verbatim>\<open>current.json\<close>, one object per committed write \<^verbatim>\<open>log/<seq>.json\<close>, content-addressed snapshots, zero-byte
  index markers and a garbage-collection ledger. A write is committed by creating the next log object
  with \<^verbatim>\<open>If-None-Match\<close>; there is no server process that orders writers. Readers fold the snapshot the
  manifest points to and the log after it. Compaction folds a log prefix into a new snapshot and
  moves the floor \<^verbatim>\<open>log_seq_start\<close> by a conditional write of the manifest; retention deletes log objects below a
  window and publishes \<^verbatim>\<open>log_delete_floor\<close> first; garbage collection deletes snapshots nobody points to. All
  of them run concurrently, on many hosts, without locks.

  \<^bold>\<open>Theories, from the bottom up.\<close>
  \<^item> \<open>Prelude\<close>, \<open>Json\<close>, \<open>Codec\<close>, \<open>Query\<close>, \<open>Indexes\<close>: the pure parts. Error codes and results
    (\<^verbatim>\<open>protocol/src/errors.ts\<close>), JSON values, equality and merge patch (\<^verbatim>\<open>json.ts\<close>), the textual codecs,
    cursors and keys (\<^verbatim>\<open>types.ts\<close>, \<^verbatim>\<open>time.ts\<close>, \<^verbatim>\<open>log.ts\<close>, \<^verbatim>\<open>cursor.ts\<close>, \<^verbatim>\<open>log-key.ts\<close>), the
    predicate algebra (\<^verbatim>\<open>protocol/src/query\<close>), index keys (\<^verbatim>\<open>server/src/indexes.ts\<close>).
  \<^item> \<open>Storage\<close>: \<^verbatim>\<open>MemoryStorage\<close> operation by operation, and the contract of \<^verbatim>\<open>interface Storage\<close> as the locale
    \<open>object_store\<close>, interpreted on it.
  \<^item> \<open>Prog\<close>: programs. An asynchronous function is a tree of storage calls; \<open>run\<close> executes it alone, \<open>sys_step\<close>
    interleaves any number of them with faults, \<open>wp\<close> is its weakest precondition under interference (locale
    \<open>interference\<close>), sound for the thread system.
  \<^item> \<open>CurrentJson\<close>, \<open>GcPending\<close>, \<open>LogTail\<close>, \<open>LogWalk\<close>, \<open>Snapshot\<close>, \<open>Compactor\<close>, \<open>LogRetention\<close>, \<open>Gc\<close>,
    \<open>Maintenance\<close>, \<open>Planner\<close>, \<open>Writer\<close>, \<open>Capacity\<close>, \<open>Reader\<close>, \<open>Feed\<close>, \<open>Rebuild\<close>: one theory per source module
    (\<^verbatim>\<open>protocol/src/coordination\<close> and \<^verbatim>\<open>server/src\<close>), each handler whole. \<open>Reader\<close> is \<^verbatim>\<open>query.ts\<close>, \<open>Feed\<close> is
    \<^verbatim>\<open>db.ts\<close>, \<^verbatim>\<open>collection.ts\<close>, \<^verbatim>\<open>config.ts\<close> and \<^verbatim>\<open>http/since.ts\<close>. The locale \<open>append_only_log\<close> (in \<open>LogTail\<close>)
    states what the tail search needs of the log.
  \<^item> \<open>Collection\<close>: the invariant \<open>coll_inv p sha B s h\<close>, that the objects of collection \<open>p\<close> in store \<open>s\<close> stand for
    the history \<open>h\<close>, and \<open>sys_rel\<close>, what any call of the kernel may do to them; it interprets both locales.
  \<^item> \<open>Compaction\<close>, \<open>Commit\<close>, \<open>Reads\<close>, \<open>Verbs\<close>, \<open>Polls\<close> (and parts of \<open>Gc\<close>, \<open>Maintenance\<close>, \<open>Rebuild\<close>): each program
    keeps \<open>sys_rel\<close> with every call and meets its postcondition, among all the others.
  \<^item> \<open>System\<close>: the requests of the public entry points as threads of one system, \<open>kernel\<close>.
  \<^item> \<open>Budget\<close>, \<open>Termination\<close>: bounds on the number of storage calls, whatever the store answers.
  \<^item> \<open>Progress\<close>, \<open>Repair\<close>: what a request does, and that it returns, on a quiet bucket. \<open>Scenario\<close>: concrete
    executions, the states the witnesses are about.
  \<^item> \<open>DocId\<close>, \<open>SnapshotChunk\<close>, \<open>SnapshotView\<close>, \<open>ChunkBuilder\<close>, \<open>FoldPlanner\<close>: the chunked snapshot layout that is to
    replace the single snapshot object. Document ids and their order (\<^verbatim>\<open>snapshot-doc-id.ts\<close>), the codecs of
    chunks and manifests (\<^verbatim>\<open>snapshot-codec.ts\<close>, \<^verbatim>\<open>snapshot-chunk.ts\<close>, \<^verbatim>\<open>snapshot-manifest.ts\<close>), the reading side
    (\<^verbatim>\<open>snapshot-view.ts\<close>), the builder that rewrites the chunks a batch of mutations touches
    (\<^verbatim>\<open>snapshot-chunk-builder.ts\<close>, with its oracle \<^verbatim>\<open>chunked-snapshot-reference.ts\<close>) and the planner that decides how
    much of the log one fold takes (\<^verbatim>\<open>chunked-fold-planner.ts\<close>). \<open>ChunkFold\<close> and \<open>ChunkRefinement\<close> hold the
    proof that a build is the reference fold; the locale \<open>id_regions\<close> states what routing needs of the layout.
  \<^item> \<open>LocalFsKey\<close>, \<open>Retry\<close>: two parts of the backends that are logic rather than I/O, the file names of the
    file-system backend (\<^verbatim>\<open>dev/src/local-fs-key-codec.ts\<close>) and the retry policy all backends share
    (\<^verbatim>\<open>protocol/src/storage/retry.ts\<close>).
  \<^item> This theory: the guarantees of the whole kernel.

  \<^bold>\<open>What is shown.\<close> In every execution the history only grows and the floors never go back; stored objects
  decode; an acknowledged commit stays in the history; a full scan answers from one prefix of the
  history at least as long as when it began, so acknowledged writes are read; index walks return no
  phantom rows; of concurrent inserts of one \<^verbatim>\<open>_id\<close> at most one commits; the change feed delivers consecutive
  entries and resumes without a gap. On a quiet bucket commits, inserts, reads and index rebuilds return
  and do what they promise. Below that: codecs round-trip and keep or reverse order, the two tail
  searches agree, the fold is last write wins, snapshots load as they were encoded, refused predicates have no match, admitted
  writes can be folded within the row and byte ceilings, a conditional write succeeds exactly when nobody
  wrote in between, a failed create keeps its promise under retries, passes stay within the request budgets of the hosts. For the chunked layout: ids compare as their
  UTF-8 bytes, chunks and manifests round-trip, the three reads of a view are lookup, range and contents of one
  sorted list, a build reads back as the reference fold, and a plan as the same log fold the kernel's
  readers use, within its budgets. The theorems
  \<open>merge_not_idempotent\<close>, \<open>refused_object_predicate_matches\<close>, \<open>validated_predicate_can_throw\<close>,
  \<open>filter_range_ignored\<close>, \<open>mixed_list_implies\<close>, \<open>partial_prefix_misses\<close> and \<open>prefetch_overfetches\<close> are
  counterexamples that record where the code departs from its documentation.

  \<^bold>\<open>Faults.\<close> Every storage call may succeed, fail without effect, or take effect and lose its
  acknowledgement (\<open>outcome\<close>), except where the \<^verbatim>\<open>Storage\<close> contract excludes it. A call takes effect at one
  moment between its issue and its answer; one that takes effect after its caller has seen an error is not
  considered.

  \<^bold>\<open>Assumptions that appear as hypotheses.\<close> \<open>B\<close> is any set of snapshot bodies on which the hash \<open>sha\<close> is
  injective, and executions write snapshots from \<open>B\<close> only: SHA-256 does not collide on them. Reads, inserts and
  polls are claimed for executions in which log retirement has not passed, when the answer is looked at,
  the fold floor of the moment the request began: this is what the retention window is for, and the code
  does not check it afterwards. A commit whose final floor check could not read the manifest is
  acknowledged with \<open>checked = False\<close>; durability is claimed for the others. That the feed resumes needs session
  ids of base-32 digits, as the hex digits of a UUID are, and sequences below two to the 53; that the LSNs of a history
  are minted is part of \<open>coll_inv\<close>. The byte ceiling is shown for an encoder whose body sizes add up as
  JSON's do (\<open>snapshot_sizes\<close>). Hosts give their session id,
  clock, generation nonce, Unicode normalisation, JSON rendering and \<^verbatim>\<open>Intl\<close>-free coercions as the fields of a
  \<open>runtime\<close>.

  \<^bold>\<open>Bounds and fuel.\<close> Loops of the code are structural or well-founded recursions. The create loop carries the
  code's own cap \<^verbatim>\<open>LOG_FORWARD_PROBE_CAP\<close>; the gallop ends after sixteen doublings of it. Only the long poll has
  fuel: a tick per millisecond of its timeout is enough, which \<open>Feed\<close> proves. The split loop of the chunk
  builder need not end and is a partial function into options; it is shown to return for every policy with
  a positive row target, and for no other.

  \<^bold>\<open>Simplifications.\<close> Strings are lists of characters below 256; members an object inherits from
  \<^verbatim>\<open>Object.prototype\<close> are not modelled. Calls the code issues together and that do not depend on each other
  are issued in order. Metrics, logs and error message texts are left out.

  \<^bold>\<open>Not modelled.\<close> The HTTP router, authentication, the I/O of the backends behind \<^verbatim>\<open>Storage\<close> (S3, GCS, R2, file system),
  hosts, client, command line and scaffolding are I/O and wiring around the kernel; benchmarks and the storage
  conformance suite measure and test it. The program does not yet call the chunked layout from its entry
  points, so it is not part of \<open>kernel\<close>. \<^verbatim>\<open>admin restore\<close> truncates a collection and so breaks the history on purpose. The completeness
  of index walks is not claimed: \<open>Planner\<close> shows inputs on which it fails.
\<close>

section \<open>One history\<close>

lemma extension_unique:
  assumes "coll_inv p sha B s (g @ x)" "coll_inv p sha B s (g @ y)" "delete_floor p (lookup s) \<le> length g"
  shows "x = y"
proof (rule nth_equalityI)
  have inv: "inv_map p sha B (lookup s) (g @ x)" "inv_map p sha B (lookup s) (g @ y)"
    using assms(1,2) by (simp_all add: coll_inv_def)
  show len: "length x = length y" using inv_map_length_unique [OF inv] by simp
  show "x ! i = y ! i" if "i < length x" for i
    using inv_map_slot [OF inv(1), of "length g + i"] inv_map_slot [OF inv(2), of "length g + i"] assms(3) that len
    by (simp add: nth_append)
qed

lemma floor_within: "coll_inv p sha B s g \<Longrightarrow> seq_floor p (lookup s) \<le> length g"
  using inv_map_floors [of p sha B "lookup s" g] by (simp add: coll_inv_def)

text \<open>The documents a full scan answers from.\<close>

lemma scan_answer:
  assumes read: "read_ok p rt B a g ctx state (Inr rd) s" and scan: "scans rt ctx state"
    and floor: "delete_floor p (lookup s) \<le> a" and g: "extends p (rt_sha rt) B s g"
  shows "\<exists>x docs rows. coll_inv p (rt_sha rt) B s (g @ x) \<and> length g \<le> rr_tail rd \<and> rr_tail rd \<le> length (g @ x) \<and>
    distinct (obj_keys docs) \<and> map_of docs = map_of (view (collection_of p) (take (rr_tail rd) (g @ x))) \<and>
    scan_rows state docs = Inr rows \<and> rr_rows rd = order_and_limit (rt_coercions rt) state rows"
proof (cases "rr_folded rd")
  case None
  with read scan have *: "g = []" "rr_tail rd = 0" "rr_rows rd = []" by (simp_all add: read_ok_def)
  from g obtain x where "coll_inv p (rt_sha rt) B s (g @ x)" by (auto simp: extends_def)
  moreover have "scan_rows state [] = Inr []" by (simp add: scan_rows_def match_rows_def split: option.splits)
  ultimately show ?thesis
    using * by (intro exI [of _ x] exI [of _ "[]"]) (simp add: view_def foldLogEntriesOnto_def)
next
  case (Some f)
  obtain head base es where f: "f = (head, base, es)" by (cases f)
  with read Some have a: "a \<le> log_seq_start head" and pre: "folded_prefix p (rt_sha rt) B g head base es (rr_tail rd) s"
    and rows: "rows_ok p rt ctx state base es (rr_rows rd)" by (simp_all add: read_ok_def)
  have "delete_floor p (lookup s) \<le> log_seq_start head" using a floor by simp
  then obtain x where x: "coll_inv p (rt_sha rt) B s (g @ x)" "length g \<le> rr_tail rd" "rr_tail rd \<le> length (g @ x)"
    "map_of (foldLogEntriesOnto base es (collection_of p) None) = map_of (view (collection_of p) (take (rr_tail rd) (g @ x)))"
    using folded_prefix_view [OF pre] by blast
  moreover have "distinct (obj_keys (foldLogEntriesOnto base es (collection_of p) None))"
    by (rule fold_distinct) (use pre in \<open>simp add: folded_prefix_def\<close>)
  moreover obtain rows where "scan_rows state (foldLogEntriesOnto base es (collection_of p) None) = Inr rows"
    "rr_rows rd = order_and_limit (rt_coercions rt) state rows" using rows scan by (auto simp: rows_ok_def)
  ultimately show ?thesis by blast
qed

text \<open>The rows an index walk answers with.\<close>

lemma order_and_limit_sub: "set (order_and_limit co state rows) \<subseteq> set rows"
proof -
  have ins: "set (insert_row cmp r rs) = insert r (set rs)" for cmp r rs
    by (induction cmp r rs rule: insert_row.induct) auto
  have "set (foldr (insert_row cmp) rs []) = set rs" for cmp rs by (induction rs) (auto simp: ins)
  then show ?thesis
    by (auto simp: order_and_limit_def sortByOrderSpec_def apply_limit_def split: option.splits if_splits dest!: in_set_takeD)
qed

lemma walk_answer:
  assumes read: "read_ok p rt B a g ctx state (Inr rd) s" and walk: "\<not> scans rt ctx state"
    and floor: "delete_floor p (lookup s) \<le> a" and g: "extends p (rt_sha rt) B s g"
  shows "\<exists>x. coll_inv p (rt_sha rt) B s (g @ x) \<and> rr_tail rd \<le> length (g @ x) \<and>
    (\<forall>(i, d) \<in> set (rr_rows rd). length g \<le> rr_tail rd \<and>
       map_of (view (collection_of p) (take (rr_tail rd) (g @ x))) i = Some d \<and> wire_accepts (qs_wire state) d)"
proof (cases "rr_folded rd")
  case None
  from g obtain x where x: "coll_inv p (rt_sha rt) B s (g @ x)" by (auto simp: extends_def)
  with None read show ?thesis using committed_length [OF _ x] by (auto simp: read_ok_def)
next
  case (Some f)
  obtain head base es where f: "f = (head, base, es)" by (cases f)
  with read Some have a: "a \<le> log_seq_start head" and pre: "folded_prefix p (rt_sha rt) B g head base es (rr_tail rd) s"
    and rows: "rows_ok p rt ctx state base es (rr_rows rd)" by (simp_all add: read_ok_def)
  have "delete_floor p (lookup s) \<le> log_seq_start head" using a floor by simp
  then obtain x where x: "coll_inv p (rt_sha rt) B s (g @ x)" "length g \<le> rr_tail rd" "rr_tail rd \<le> length (g @ x)"
    "map_of (foldLogEntriesOnto base es (collection_of p) None) = map_of (view (collection_of p) (take (rr_tail rd) (g @ x)))"
    using folded_prefix_view [OF pre] by blast
  then show ?thesis using rows walk order_and_limit_sub unfolding rows_ok_def by (intro exI [of _ x]) fastforce
qed

section \<open>Inserts\<close>

lemma lost_row_deleted:
  "last_effect coll None i (Some v) es = None \<Longrightarrow>
   \<exists>k < length es. le_op (es ! k) = OpD \<and> le_collection (es ! k) = coll \<and> le_doc_id (es ! k) = Some i"
proof (induction es arbitrary: v)
  case (Cons e es)
  show ?case
  proof (cases "le_op e = OpD \<and> le_collection e = coll \<and> le_doc_id e = Some i")
    case True
    then show ?thesis by (intro exI [of _ 0]) simp
  next
    case False
    then have "\<exists>v'. last_effect coll None i (Some v') es = None"
      using Cons.prems by (cases "le_after e") (auto simp: entry_effect_def split: if_splits log_op.splits)
    then show ?thesis using Cons.IH by (metis Suc_less_eq length_Cons nth_Cons_Suc)
  qed
qed simp

text \<open>Between two first writes of a row lies a delete.\<close>

lemma delete_between:
  assumes "m < n" "n < length h" "le_op (h ! m) = OpI" "le_collection (h ! m) = coll" "le_doc_id (h ! m) = Some i"
    "le_after (h ! m) = Some d" and absent: "map_of (view coll (take n h)) i = None"
  shows "\<exists>k. m < k \<and> k < n \<and> le_op (h ! k) = OpD \<and> le_collection (h ! k) = coll \<and> le_doc_id (h ! k) = Some i"
proof -
  let ?es = "take (n - Suc m) (drop (Suc m) h)"
  have split: "take n h = take m h @ [h ! m] @ ?es"
    using assms(1,2) by (metis Suc_leI append.assoc le_add_diff_inverse less_trans take_Suc_conv_app_nth take_add)
  have "map_of (view coll (take n h)) i = last_effect coll None i (Some d) ?es"
    unfolding split by (simp add: view_def fold_append fold_map last_effect_append entry_effect_def assms(3-6))
  with absent obtain k where k: "k < length ?es" "le_op (?es ! k) = OpD" "le_collection (?es ! k) = coll" "le_doc_id (?es ! k) = Some i"
    using lost_row_deleted by metis
  then show ?thesis by (intro exI [of _ "Suc m + k"]) auto
qed

section \<open>Answers given since a moment\<close>

lemma answered_since:
  assumes init: "sys_reach (kernel p sha B) (allowed B) (s00, []) (s0, ts0)" "coll_ok p sha B s00" and g: "coll_inv p sha B s0 g"
    and reach: "sys_reach (kernel p sha B) (allowed B) (s0, ts0) (s, ts)"
    and i: "length ts0 \<le> i" "i < length ts" "ts ! i = Ret x"
  shows "answered p sha B (seq_floor p (lookup s0)) g x s" "extends p sha B s g"
proof -
  have ext: "extends p sha B s0 g" using g by (auto simp: extends_def intro: exI [of _ "[]"])
  show "answered p sha B (seq_floor p (lookup s0)) g x s"
    by (rule kernel_answered_since [OF init reach order_refl ext i])
  show "extends p sha B s g"
    using extends_stable [OF _ ext] kernel_from [OF reach _ order_refl ext] kernel_threads [OF init] by blast
qed

lemma read_since:
  assumes "sys_reach (kernel p sha B) (allowed B) (s00, []) (s0, ts0)" "coll_ok p sha B s00" "coll_inv p sha B s0 g"
    and "sys_reach (kernel p sha B) (allowed B) (s0, ts0) (s, ts)"
    and "length ts0 \<le> i" "i < length ts" "ts ! i = Ret (ReqRead rt ctx state, AnsRead (Inr rd))"
  shows "rt_sha rt = sha" "read_ok p rt B (seq_floor p (lookup s0)) g ctx state (Inr rd) s" "extends p sha B s g"
  using answered_since [OF assms] by (simp_all add: answered_def on_collection_def)

lemma insert_since:
  assumes "sys_reach (kernel p sha B) (allowed B) (s00, []) (s0, ts0)" "coll_ok p sha B s00" "coll_inv p sha B s0 g"
    and "sys_reach (kernel p sha B) (allowed B) (s0, ts0) (s, ts)"
    and "length ts0 \<le> i" "i < length ts" "ts ! i = Ret (ReqInsert rt maint ctx d None, AnsInsert (Inr k))"
    and "delete_floor p (lookup s) \<le> seq_floor p (lookup s0)"
  shows "\<exists>x n. coll_inv p sha B s (g @ x) \<and> length g \<le> n \<and> n < length (g @ x) \<and>
    le_session ((g @ x) ! n) = rt_session rt \<and> le_op ((g @ x) ! n) = OpI \<and> le_collection ((g @ x) ! n) = collection_of p \<and>
    le_doc_id ((g @ x) ! n) = Some k \<and> le_after ((g @ x) ! n) \<noteq> None \<and>
    map_of (view (collection_of p) (take n (g @ x))) k = None"
proof -
  from answered_since [OF assms(1-7)] have c: "on_collection p sha rt ctx" and "insert_ok p rt B (seq_floor p (lookup s0)) g ctx d None (Inr k) s"
    by (simp_all add: answered_def)
  with assms(8) obtain post T where "first_write p rt B g (insert_input ctx k post T False) s"
    by (auto simp: insert_ok_def)
  then obtain x n where "coll_inv p sha B s (g @ x)" "length g \<le> n" "n < length (g @ x)"
    "same_write rt (insert_input ctx k post T False) ((g @ x) ! n)" "map_of (view (collection_of p) (take n (g @ x))) k = None"
    using c by (auto simp: first_write_def on_collection_def insert_input_def)
  then show ?thesis using c by (intro exI [of _ x] exI [of _ n]) (auto simp: same_write_def insert_input_def on_collection_def)
qed

lemma feed_since:
  assumes "sys_reach (kernel p sha B) (allowed B) (s00, []) (s0, ts0)" "coll_ok p sha B s00" "coll_inv p sha B s0 g"
    and "sys_reach (kernel p sha B) (allowed B) (s0, ts0) (s, ts)"
    and "length ts0 \<le> i" "i < length ts"
      "ts ! i = Ret (ReqSince fuel d coll cursor st now timeoutMs aborted, AnsSince (Inr (Some (events, next))))"
    and floor: "delete_floor p (lookup s) \<le> seq_floor p (lookup s0)"
  shows "events = [] \<and> g = [] \<or>
    (\<exists>start. seq_floor p (lookup s0) \<le> start \<and> delivered p sha B g start events s \<and>
       (if cursor = [] then start \<le> seq_floor p (lookup s)
        else \<exists>gen lsn se. decodeCursor cursor = Inr (gen, lsn) \<and> lsnParts lsn = Inr (se, Some (int start - 1))))"
    "events \<noteq> [] \<Longrightarrow> \<exists>gen. next = formatCursor gen (le_lsn (last events))"
proof -
  obtain gen where poll: "poll_ok p sha B (seq_floor p (lookup s0)) g cursor (events, gen) s"
    and nxt: "next = (if events = [] then cursor else nextCursor (events, gen))"
    using answered_since [OF assms(1-7)] by (auto simp: answered_def feed_ok_def)
  then show "events \<noteq> [] \<Longrightarrow> \<exists>gen. next = formatCursor gen (le_lsn (last events))" by (auto simp: nextCursor_def)
  have "\<exists>start. seq_floor p (lookup s0) \<le> start \<and> delivered p sha B g start events s \<and>
       (if cursor = [] then start \<le> seq_floor p (lookup s)
        else \<exists>gen lsn se. decodeCursor cursor = Inr (gen, lsn) \<and> lsnParts lsn = Inr (se, Some (int start - 1)))"
    if head: "seq_floor p (lookup s0) \<le> log_seq_start head" "log_seq_start head \<le> seq_floor p (lookup s)"
      "decode_opt cursor = Inr decoded" "cursor_start decoded head = Inr (Some start)"
      "delete_floor p (lookup s) \<le> log_seq_start head \<longrightarrow> delivered p sha B g start events s" for head decoded start
  proof (intro exI [of _ start] conjI)
    have "log_seq_start head \<le> start" using cursor_start_some [OF head(3,4)] by simp
    then show "seq_floor p (lookup s0) \<le> start" using head(1) by simp
    show "delivered p sha B g start events s" using head(1,5) floor by simp
    show "if cursor = [] then start \<le> seq_floor p (lookup s)
        else \<exists>gen lsn se. decodeCursor cursor = Inr (gen, lsn) \<and> lsnParts lsn = Inr (se, Some (int start - 1))"
    proof (cases "cursor = []")
      case True
      then show ?thesis using head(2-4) by (auto simp: decode_opt_def cursor_start_def logSeqStartOf_def)
    next
      case False
      then obtain gn lsn where "decodeCursor cursor = Inr (gn, lsn)" "decoded = Some (gn, lsn)"
        using head(3) by (auto simp: decode_opt_def result_bind_def split: sum.splits)
      then show ?thesis
        using head(4) False by (auto simp: cursor_start_def result_bind_def split: if_splits sum.splits option.splits)
    qed
  qed
  note start = this
  show "events = [] \<and> g = [] \<or> (\<exists>start. seq_floor p (lookup s0) \<le> start \<and> delivered p sha B g start events s \<and>
       (if cursor = [] then start \<le> seq_floor p (lookup s)
        else \<exists>gen lsn se. decodeCursor cursor = Inr (gen, lsn) \<and> lsnParts lsn = Inr (se, Some (int start - 1))))"
  proof (cases "events = [] \<and> g = []")
    case False
    with poll obtain head decoded start where "seq_floor p (lookup s0) \<le> log_seq_start head"
      "log_seq_start head \<le> seq_floor p (lookup s)" "decode_opt cursor = Inr decoded" "cursor_start decoded head = Inr (Some start)"
      "delete_floor p (lookup s) \<le> log_seq_start head \<longrightarrow> delivered p sha B g start events s"
      by (auto simp: poll_ok_def)
    from start [OF this] show ?thesis by blast
  qed simp
qed

lemma batches_join:
  assumes "start \<le> n" "n \<le> m" "n \<le> length h"
  shows "drop start (take n h) @ drop n (take m h) = drop start (take m h)"
proof -
  have "take m h = take n h @ drop n (take m h)"
    using append_take_drop_id [of n "take m h"] assms(2) by (simp add: min_absorb1)
  then have "drop start (take m h) = drop start (take n h @ drop n (take m h))" by simp
  then show ?thesis using assms by simp
qed

lemma last_delivered:
  assumes "coll_inv p sha B s h" "n \<le> length h" "events = drop start (take n h)" "events \<noteq> []"
  shows "entry_ok (last events)" "le_seq (last events) = n - 1" "start < n"
proof -
  show n: "start < n" using assms(3,4) by auto
  have last: "last events = h ! (n - 1)"
    using assms(2-4) by (subst last_conv_nth) auto
  moreover have "n - 1 < length h" using n assms(2) by simp
  ultimately show "entry_ok (last events)" "le_seq (last events) = n - 1"
    using assms(1) by (simp_all add: coll_inv_def inv_map_def)
qed

section \<open>Guarantees of the kernel\<close>

text \<open>
  (C1) The collection's invariant. From a well-formed collection, whatever requests are made, however
  their storage calls interleave and whichever of them fail or lose their acknowledgement: the
  collection stays well-formed, its history only grows, and its floors never go back.
\<close>

theorem kernel_keeps_history:
  assumes "sys_reach (kernel p sha B) (allowed B) (s0, []) (s, ts)" "coll_inv p sha B s0 h"
  shows "\<exists>x. coll_inv p sha B s (h @ x) \<and> seq_floor p (lookup s0) \<le> seq_floor p (lookup s) \<and>
    delete_floor p (lookup s0) \<le> delete_floor p (lookup s)"
proof -
  have ok: "coll_ok p sha B s0" using assms(2) by (auto simp: coll_ok_def)
  have rel: "sys_rel p sha B s0 s" using kernel_threads [OF assms(1) ok] by blast
  then show ?thesis
    using coll_inv_stable [OF assms(2) rel] seq_floor_mono [OF ok rel] delete_floor_mono [OF ok rel] by blast
qed

theorem kernel_keeps_history_witness:
  "\<exists>s ts x. reaches (empty_storage, []) (s, ts) \<and> length ts = 3 \<and> coll_inv home sha0 {} s ([] @ x)"
proof -
  obtain s1 s2 s3 e1 e2 e3 t k rd where "life s1 s2 s3 e1 e2 e3 t k rd" using scenario by blast
  note r = lifeD [OF this]
  obtain x where "coll_inv home sha0 {} s3 ([] @ x)" using kernel_keeps_history [OF r(4) example_inv] by blast
  then show ?thesis
    using r(4) by (intro exI [of _ s3] exI [of _ "[insert_done ''s1'', delete_done e2 t k, insert_done ''s3'']"] exI [of _ x]) simp
qed

text \<open>
  (C9) What readers decode. In every state the kernel can reach, the manifest, when there is one,
  passes its validator, and every log object at or above the delete floor decodes to an entry that
  names its own slot.
\<close>

theorem stored_objects_decode:
  assumes reach: "sys_reach (kernel p sha B) (allowed B) (s0, []) (s, ts)" and ok: "coll_ok p sha B s0"
  shows "(\<forall>v. lookup s (currentKey p) = Some v \<longrightarrow> (\<exists>c. decode_current (body v) = Inr c \<and> valid_current c)) \<and>
    (\<forall>n v. delete_floor p (lookup s) \<le> n \<longrightarrow> lookup s (logObjectKey p n) = Some v \<longrightarrow>
       (\<exists>e. decode_log_entry (body v) = Some e \<and> le_seq e = n))"
proof -
  obtain h where h: "inv_map p sha B (lookup s) h"
    using kernel_threads [OF reach ok] by (auto simp: coll_ok_def coll_inv_def)
  have "\<exists>c. decode_current (body v) = Inr c \<and> valid_current c" if "lookup s (currentKey p) = Some v" for v
  proof -
    have "current_of p (lookup s) \<noteq> None" using h that by (simp add: inv_map_def)
    then show ?thesis
      using that decode_current_valid by (auto simp: current_of_def split: sum.splits)
  qed
  moreover have "\<exists>e. decode_log_entry (body v) = Some e \<and> le_seq e = n"
    if "delete_floor p (lookup s) \<le> n" "lookup s (logObjectKey p n) = Some v" for n v
    using inv_map_slot [OF h that(1)] that(2) h by (auto simp: slot_def inv_map_def split: if_splits)
  ultimately show ?thesis by blast
qed

theorem stored_objects_decode_witness:
  "\<exists>s ts. reaches (empty_storage, []) (s, ts) \<and> length ts = 1 \<and>
     (\<forall>v. lookup s (currentKey home) = Some v \<longrightarrow> (\<exists>c. decode_current (body v) = Inr c \<and> valid_current c))"
proof -
  obtain s1 s2 s3 e1 e2 e3 t k rd where "life s1 s2 s3 e1 e2 e3 t k rd" using scenario by blast
  note r = lifeD [OF this]
  show ?thesis
    using r(1) stored_objects_decode [OF r(1) example_ok(1)] by (intro exI [of _ s1] exI [of _ "[insert_done ''s1'']"]) simp
qed

text \<open>
  (C2) Durability. A commit that has been acknowledged, its delete-floor check done, is in the history at
  its sequence number, carries the request's operation, document and body, and stays there in
  every later state.
\<close>

theorem acknowledged_commit_is_durable:
  assumes reach: "sys_reach (kernel p sha B) (allowed B) (s0, []) (s1, ts1)" and ok: "coll_ok p sha B s0"
    and ack: "Ret (ReqCommit rt w maint input, AnsCommit (Inr (Committed e t True k))) \<in> set ts1"
    and later: "sys_reach (kernel p sha B) (allowed B) (s1, ts1) (s, ts)"
  shows "\<exists>h t0. coll_inv p sha B s h \<and> le_seq e < length h \<and> entry_wire (h ! le_seq e) = entry_wire e \<and>
    entry_wire e = entry_wire (mintEntry rt t0 input (le_seq e))"
proof -
  note k = kernel_threads [OF reach ok]
  have "sys_rel p sha B s1 s"
    using kernel_from [OF later _ _ extends_Nil] k by blast
  moreover have "attempt_ok p sha B rt input (guard_of input) (Inr (Committed e t True k)) s1"
    using kernel_answered [OF reach ok ack] by (simp add: answered_def)
  then have "logged p sha B s1 e" "\<exists>t0. entry_wire e = entry_wire (mintEntry rt t0 input (le_seq e))"
    by (auto simp: attempt_ok_def)
  ultimately show ?thesis using logged_stable unfolding logged_def by blast
qed

theorem acknowledged_commit_is_durable_witness:
  "\<exists>s1 ts1 s ts e t k h. reaches (s1, ts1) (s, ts) \<and> delete_done e t k \<in> set ts1 \<and> coll_inv home sha0 {} s h \<and>
     le_seq e < length h \<and> entry_wire (h ! le_seq e) = entry_wire e"
proof -
  obtain s1 s2 s3 e1 e2 e3 t k rd where "life s1 s2 s3 e1 e2 e3 t k rd" using scenario by blast
  note r = lifeD [OF this]
  have "Ret (ReqCommit (session ''s2'') example_writer example_maint delete_a, AnsCommit (Inr (Committed e2 t True k)))
      \<in> set [insert_done ''s1'', delete_done e2 t k]" by (simp add: delete_done_def)
  note d = acknowledged_commit_is_durable [OF r(2) example_ok(1) this r(3)]
  from d obtain h where "coll_inv home sha0 {} s3 h" "le_seq e2 < length h" "entry_wire (h ! le_seq e2) = entry_wire e2" by blast
  then show ?thesis
    using r(3) by (intro exI [of _ s2] exI [of _ "[insert_done ''s1'', delete_done e2 t k]"] exI [of _ s3]
      exI [of _ "[insert_done ''s1'', delete_done e2 t k, insert_done ''s3'']"] exI [of _ e2] exI [of _ t] exI [of _ k] exI [of _ h]) simp
qed

text \<open>
  (C3) Reads are fresh. A full-scan read that started when the history was \<open>g\<close> answers from the
  documents of one later prefix of the history, no shorter than \<open>g\<close>: the query's filter, order and
  limit applied to the last-write-wins fold of the first \<^verbatim>\<open>tail\<close> entries. This holds as long as log
  retirement has not passed, during the read, the floor the history was folded to when it started.
\<close>

theorem read_answers_from_a_fresh_prefix:
  assumes init: "sys_reach (kernel p sha B) (allowed B) (s00, []) (s0, ts0)" "coll_ok p sha B s00"
    and g: "coll_inv p sha B s0 g"
    and reach: "sys_reach (kernel p sha B) (allowed B) (s0, ts0) (s, ts)"
    and read: "length ts0 \<le> i" "i < length ts" "ts ! i = Ret (ReqRead rt ctx state, AnsRead (Inr rd))"
    and scan: "scans rt ctx state" and floor: "delete_floor p (lookup s) \<le> seq_floor p (lookup s0)"
  shows "\<exists>x docs rows. coll_inv p sha B s (g @ x) \<and> length g \<le> rr_tail rd \<and> rr_tail rd \<le> length (g @ x) \<and>
    distinct (obj_keys docs) \<and> map_of docs = map_of (view (collection_of p) (take (rr_tail rd) (g @ x))) \<and>
    scan_rows state docs = Inr rows \<and> rr_rows rd = order_and_limit (rt_coercions rt) state rows"
proof -
  note r = read_since [OF init g reach read]
  show ?thesis using scan_answer [OF r(2) scan floor] r(1,3) by simp
qed

theorem read_answers_from_a_fresh_prefix_witness:
  "\<exists>s ts g rd. reaches (s, ts) (s, ts @ [read_done rd]) \<and> coll_inv home sha0 {} s g \<and> length g = 3 \<and> 3 \<le> rr_tail rd"
proof -
  obtain s1 s2 s3 e1 e2 e3 t k rd where "life s1 s2 s3 e1 e2 e3 t k rd" using scenario by blast
  note r = lifeD [OF this]
  have "3 \<le> rr_tail rd"
    using read_answers_from_a_fresh_prefix [OF r(4) example_ok(1) r(6) r(5),
        of 3 example_rt example_ctx "id_state ''a'' (Some 1)" rd] scenario_floor [OF r(6,7)] example_scans
    by (fastforce simp: read_done_def)
  then show ?thesis using r(5,6) by (intro exI [of _ s3] exI [of _ "[insert_done ''s1'', delete_done e2 t k, insert_done ''s3'']"] exI [of _ "[e1, e2, e3]"] exI [of _ rd]) simp
qed

text \<open>
  (C4) Read your writes. A full-scan read that started after a commit was acknowledged, by any client,
  answers from a prefix of the history that contains the committed entry.
\<close>

theorem acknowledged_write_is_read:
  assumes init: "sys_reach (kernel p sha B) (allowed B) (s00, []) (s0, ts0)" "coll_ok p sha B s00"
    and ack: "Ret (ReqCommit rt' w maint input, AnsCommit (Inr (Committed e t True k))) \<in> set ts0"
    and reach: "sys_reach (kernel p sha B) (allowed B) (s0, ts0) (s, ts)"
    and read: "length ts0 \<le> i" "i < length ts" "ts ! i = Ret (ReqRead rt ctx state, AnsRead (Inr rd))"
    and scan: "scans rt ctx state" and floor: "delete_floor p (lookup s) \<le> seq_floor p (lookup s0)"
  shows "\<exists>h docs rows. coll_inv p sha B s h \<and> le_seq e < rr_tail rd \<and> rr_tail rd \<le> length h \<and>
    entry_wire (h ! le_seq e) = entry_wire e \<and>
    distinct (obj_keys docs) \<and> map_of docs = map_of (view (collection_of p) (take (rr_tail rd) h)) \<and>
    scan_rows state docs = Inr rows \<and> rr_rows rd = order_and_limit (rt_coercions rt) state rows"
proof -
  have "attempt_ok p sha B rt' input (guard_of input) (Inr (Committed e t True k)) s0"
    using kernel_answered [OF init ack] by (simp add: answered_def)
  then obtain g where g: "coll_inv p sha B s0 g" "le_seq e < length g" "entry_wire (g ! le_seq e) = entry_wire e"
    by (auto simp: attempt_ok_def logged_def)
  note r = read_since [OF init g(1) reach read]
  from scan_answer [OF r(2) scan floor] r(1,3) obtain x docs rows where
    "coll_inv p sha B s (g @ x)" "length g \<le> rr_tail rd" "rr_tail rd \<le> length (g @ x)" "distinct (obj_keys docs)"
    "map_of docs = map_of (view (collection_of p) (take (rr_tail rd) (g @ x)))"
    "scan_rows state docs = Inr rows" "rr_rows rd = order_and_limit (rt_coercions rt) state rows" by metis
  then show ?thesis using g(2,3) by (intro exI [of _ "g @ x"] exI [of _ docs] exI [of _ rows]) (simp add: nth_append)
qed

theorem acknowledged_write_is_read_witness:
  "\<exists>s ts e t k rd. reaches (s, ts) (s, ts @ [read_done rd]) \<and> delete_done e t k \<in> set ts \<and> le_seq e = 1 \<and> 1 < rr_tail rd"
proof -
  obtain s1 s2 s3 e1 e2 e3 t k rd where "life s1 s2 s3 e1 e2 e3 t k rd" using scenario by blast
  note r = lifeD [OF this]
  have "le_seq e2 < rr_tail rd"
    using acknowledged_write_is_read [OF r(4) example_ok(1) _ r(5),
        of "session ''s2''" example_writer example_maint delete_a e2 t k 3 example_rt example_ctx "id_state ''a'' (Some 1)" rd]
      scenario_floor [OF r(6,7)] example_scans
    by (simp add: read_done_def delete_done_def) blast
  then show ?thesis using r(5,8)
    by (intro exI [of _ s3] exI [of _ "[insert_done ''s1'', delete_done e2 t k, insert_done ''s3'']"] exI [of _ e2] exI [of _ t] exI [of _ k] exI [of _ rd]) simp
qed

text \<open>
  (C8) No phantom rows. Every row an index-walk read returns is the row of that id in one prefix of the
  history at least as long as the history when the read started, and it satisfies the query, however
  stale the index markers are. This holds as long as log retirement has not passed, during the read,
  the floor the history was folded to when it started.
\<close>

theorem index_walk_returns_no_phantoms:
  assumes init: "sys_reach (kernel p sha B) (allowed B) (s00, []) (s0, ts0)" "coll_ok p sha B s00"
    and g: "coll_inv p sha B s0 g"
    and reach: "sys_reach (kernel p sha B) (allowed B) (s0, ts0) (s, ts)"
    and read: "length ts0 \<le> i" "i < length ts" "ts ! i = Ret (ReqRead rt ctx state, AnsRead (Inr rd))"
    and walk: "\<not> scans rt ctx state" and floor: "delete_floor p (lookup s) \<le> seq_floor p (lookup s0)"
  shows "\<exists>x. coll_inv p sha B s (g @ x) \<and> rr_tail rd \<le> length (g @ x) \<and>
    (\<forall>(i, d) \<in> set (rr_rows rd). length g \<le> rr_tail rd \<and>
       map_of (view (collection_of p) (take (rr_tail rd) (g @ x))) i = Some d \<and> wire_accepts (qs_wire state) d)"
proof -
  note r = read_since [OF init g reach read]
  show ?thesis using walk_answer [OF r(2) walk floor] r(1,3) by simp
qed

theorem index_walk_returns_no_phantoms_witness:
  "\<exists>rd h. reaches (walk_store, []) (walk_store, [Ret (ReqRead example_rt walk_ctx walk_query, AnsRead (Inr rd))]) \<and>
     rr_rows rd = [(''a'', walk_doc)] \<and> coll_inv home sha0 {} walk_store h \<and>
     map_of (view ''t'' (take (rr_tail rd) h)) ''a'' = Some walk_doc \<and> wire_accepts (qs_wire walk_query) walk_doc"
proof -
  obtain rd where walk: "\<not> scans example_rt walk_ctx walk_query" and rows: "rr_rows rd = [(''a'', walk_doc)]"
    and r: "reaches (walk_store, []) (walk_store, [Ret (ReqRead example_rt walk_ctx walk_query, AnsRead (Inr rd))])"
    using scenario_walk by blast
  have ok: "coll_ok home sha0 {} walk_store" using walk_inv by (auto simp: coll_ok_def)
  have fl: "delete_floor home (lookup walk_store) \<le> seq_floor home (lookup walk_store)"
    by (simp add: delete_floor_def seq_floor_def walk_current walk_head_def logDeleteFloorOf_def)
  show ?thesis
    using index_walk_returns_no_phantoms [OF rtranclp.rtrancl_refl ok walk_inv r, of 0 example_rt walk_ctx walk_query rd] walk fl r rows
    by fastforce
qed

text \<open>
  (C5) Inserts exclude each other. When two inserts of the same caller-chosen \<^verbatim>\<open>_id\<close>, made by
  different sessions, have both been acknowledged, a delete of that row lies between their two
  entries in the history: of concurrent inserts of one \<^verbatim>\<open>_id\<close> at most one commits.
\<close>

theorem inserts_exclude_each_other:
  assumes init: "sys_reach (kernel p sha B) (allowed B) (s00, []) (s0, ts0)" "coll_ok p sha B s00"
    and g: "coll_inv p sha B s0 g"
    and reach: "sys_reach (kernel p sha B) (allowed B) (s0, ts0) (s, ts)"
    and first: "length ts0 \<le> i" "i < length ts" "ts ! i = Ret (ReqInsert rt m ctx d None, AnsInsert (Inr k))"
    and second: "length ts0 \<le> j" "j < length ts" "ts ! j = Ret (ReqInsert rt' m' ctx' d' None, AnsInsert (Inr k))"
    and sessions: "rt_session rt \<noteq> rt_session rt'" and floor: "delete_floor p (lookup s) \<le> seq_floor p (lookup s0)"
  shows "\<exists>h a b c. coll_inv p sha B s h \<and> a < b \<and> b < c \<and> c < length h \<and>
    {le_session (h ! a), le_session (h ! c)} = {rt_session rt, rt_session rt'} \<and>
    le_op (h ! b) = OpD \<and> le_doc_id (h ! b) = Some k"
proof -
  from insert_since [OF init g reach first floor] obtain x n where x: "coll_inv p sha B s (g @ x)" "length g \<le> n" "n < length (g @ x)"
    "le_session ((g @ x) ! n) = rt_session rt" "le_op ((g @ x) ! n) = OpI" "le_collection ((g @ x) ! n) = collection_of p"
    "le_doc_id ((g @ x) ! n) = Some k" "le_after ((g @ x) ! n) \<noteq> None" "map_of (view (collection_of p) (take n (g @ x))) k = None" by blast
  from insert_since [OF init g reach second floor] obtain y m where y: "coll_inv p sha B s (g @ y)" "length g \<le> m" "m < length (g @ y)"
    "le_session ((g @ y) ! m) = rt_session rt'" "le_op ((g @ y) ! m) = OpI" "le_collection ((g @ y) ! m) = collection_of p"
    "le_doc_id ((g @ y) ! m) = Some k" "le_after ((g @ y) ! m) \<noteq> None" "map_of (view (collection_of p) (take m (g @ y))) k = None" by blast
  have eq: "y = x" using extension_unique [OF y(1) x(1)] floor floor_within [OF g] by simp
  have "n \<noteq> m" using x(4) y(4) sessions eq by auto
  then consider "n < m" | "m < n" by linarith
  then show ?thesis
  proof cases
    case 1
    from x(8) obtain v where "le_after ((g @ x) ! n) = Some v" by blast
    from delete_between [OF 1 y(3) [unfolded eq] x(5-7) this y(9) [unfolded eq]] obtain b where "n < b" "b < m"
      "le_op ((g @ x) ! b) = OpD" "le_doc_id ((g @ x) ! b) = Some k" by blast
    then show ?thesis using x y eq by (intro exI [of _ "g @ x"] exI [of _ n] exI [of _ b] exI [of _ m]) simp
  next
    case 2
    from y(8) obtain v where "le_after ((g @ x) ! m) = Some v" unfolding eq by blast
    from delete_between [OF 2 x(3) y(5-7) [unfolded eq] this x(9)] obtain b where "m < b" "b < n"
      "le_op ((g @ x) ! b) = OpD" "le_doc_id ((g @ x) ! b) = Some k" by blast
    then show ?thesis using x y eq by (intro exI [of _ "g @ x"] exI [of _ m] exI [of _ b] exI [of _ n]) auto
  qed
qed

theorem inserts_exclude_each_other_witness:
  "\<exists>s ts h a b c. reaches (empty_storage, []) (s, ts) \<and> {insert_done ''s1'', insert_done ''s3''} \<subseteq> set ts \<and>
     coll_inv home sha0 {} s h \<and> a < b \<and> b < c \<and> c < length h \<and> le_op (h ! b) = OpD \<and> le_doc_id (h ! b) = Some ''a''"
proof -
  obtain s1 s2 s3 e1 e2 e3 t k rd where "life s1 s2 s3 e1 e2 e3 t k rd" using scenario by blast
  note r = lifeD [OF this]
  have "\<exists>h a b c. coll_inv home sha0 {} s3 h \<and> a < b \<and> b < c \<and> c < length h \<and> le_op (h ! b) = OpD \<and> le_doc_id (h ! b) = Some ''a''"
    using inserts_exclude_each_other [OF rtranclp.rtrancl_refl example_ok(1) example_inv r(4), of 0 "session ''s1''" example_maint example_ctx example_doc "''a''"
        2 "session ''s3''" example_maint example_ctx example_doc] scenario_floor [OF r(6,7)] example_ok(2)
    by (simp add: insert_done_def) metis
  moreover have "{insert_done ''s1'', insert_done ''s3''} \<subseteq> set [insert_done ''s1'', delete_done e2 t k, insert_done ''s3'']" by simp
  ultimately show ?thesis using r(4) by blast
qed

text \<open>
  (C6) The change feed has no gaps. A \<^verbatim>\<open>/v1/since\<close> request answers with consecutive entries of the history,
  in order: at most 1024 of them, and, short of a full batch, every entry that was committed when the
  request began. With a cursor they begin right after the entry it names; without one at the fold floor, between
  what it was when the request began and what it is now (entries below it are in the snapshot). This holds as long as log
  retirement, while the request runs, has not passed the fold floor of the moment it began: an entry that is deleted under
  a poll is skipped.
\<close>

theorem feed_has_no_gaps:
  assumes init: "sys_reach (kernel p sha B) (allowed B) (s00, []) (s0, ts0)" "coll_ok p sha B s00"
    and g: "coll_inv p sha B s0 g"
    and reach: "sys_reach (kernel p sha B) (allowed B) (s0, ts0) (s, ts)"
    and since: "length ts0 \<le> i" "i < length ts"
      "ts ! i = Ret (ReqSince fuel d coll cursor st now timeoutMs aborted, AnsSince (Inr (Some (events, next))))"
    and floor: "delete_floor p (lookup s) \<le> seq_floor p (lookup s0)"
  shows "events = [] \<and> g = [] \<or>
    (\<exists>start x n. coll_inv p sha B s (g @ x) \<and> n \<le> length (g @ x) \<and> events = drop start (take n (g @ x)) \<and>
       n \<le> start + DEFAULT_MAX_EVENTS \<and> min (length g) (start + DEFAULT_MAX_EVENTS) \<le> n \<and> seq_floor p (lookup s0) \<le> start \<and>
       (if cursor = [] then start \<le> seq_floor p (lookup s)
        else \<exists>gen lsn se. decodeCursor cursor = Inr (gen, lsn) \<and> lsnParts lsn = Inr (se, Some (int start - 1))))"
  using feed_since(1) [OF init g reach since floor] unfolding delivered_def by blast

theorem feed_has_no_gaps_witness:
  "\<exists>s2 s3 e1 e2 e3 t k nxt nxt'. polled_life s2 s3 e1 e2 e3 t k nxt nxt' \<and>
     (\<exists>start x n. coll_inv home sha0 {} s3 ([e1, e2] @ x) \<and> [e1, e2] = drop start (take n ([e1, e2] @ x)) \<and>
        start \<le> seq_floor home (lookup s3)) \<and>
     (\<exists>start x n gen lsn se. coll_inv home sha0 {} s3 ([e1, e2] @ x) \<and> [e3] = drop start (take n ([e1, e2] @ x)) \<and>
        decodeCursor nxt = Inr (gen, lsn) \<and> lsnParts lsn = Inr (se, Some (int start - 1)))"
proof -
  obtain s2 s3 e1 e2 e3 t k nxt nxt' where l: "polled_life s2 s3 e1 e2 e3 t k nxt nxt'" using scenario_feed by blast
  note r = polled_lifeD [OF l]
  have fl: "delete_floor home (lookup s3) \<le> seq_floor home (lookup s2)" using scenario_floor r by simp
  have "\<exists>start x n. coll_inv home sha0 {} s3 ([e1, e2] @ x) \<and> [e1, e2] = drop start (take n ([e1, e2] @ x)) \<and>
        start \<le> seq_floor home (lookup s3)"
    using feed_has_no_gaps [OF r(1) example_ok(1) r(2,3), of 2 1 example_db "''t''" "[]" 0 "\<lambda>_. 0" 25000 "\<lambda>_. True" "[e1, e2]" nxt] fl
    by (simp add: since_def) blast
  moreover have "\<exists>start x n gen lsn se. coll_inv home sha0 {} s3 ([e1, e2] @ x) \<and> [e3] = drop start (take n ([e1, e2] @ x)) \<and>
        decodeCursor nxt = Inr (gen, lsn) \<and> lsnParts lsn = Inr (se, Some (int start - 1))"
    using feed_has_no_gaps [OF r(1) example_ok(1) r(2,3), of 4 1 example_db "''t''" nxt 0 "\<lambda>_. 0" 25000 "\<lambda>_. True" "[e3]" nxt'] fl r(8)
    by (simp add: since_def) blast
  ultimately show ?thesis using l by blast
qed

text \<open>
  (C7) Resuming the feed. When one request's \<^verbatim>\<open>next_cursor\<close> is the other's cursor, the two batches
  together are again consecutive entries of the history: nothing is skipped and nothing repeated
  between them. The session id in the last event is made of base-32 digits, as the hex digits of
  \<^verbatim>\<open>uuid().slice(0, 6)\<close> are, and its sequence is below two to the 53; the history's invariant then gives the LSN
  the cursor is made of. As for one request, log retirement must not have passed the fold floor of the start.
\<close>

theorem feed_resumes:
  assumes init: "sys_reach (kernel p sha B) (allowed B) (s00, []) (s0, ts0)" "coll_ok p sha B s00"
    and g: "coll_inv p sha B s0 g"
    and reach: "sys_reach (kernel p sha B) (allowed B) (s0, ts0) (s, ts)"
    and first: "length ts0 \<le> i" "i < length ts"
      "ts ! i = Ret (ReqSince fuel d coll cursor st now timeoutMs aborted, AnsSince (Inr (Some (events, next))))"
    and second: "length ts0 \<le> j" "j < length ts"
      "ts ! j = Ret (ReqSince fuel' d' coll' next st' now' timeoutMs' aborted', AnsSince (Inr (Some (events', next'))))"
    and some: "events \<noteq> []" and session: "session_id (le_session (last events))" "le_seq (last events) < 2 ^ COUNT_BIT_WIDTH"
    and floor: "delete_floor p (lookup s) \<le> seq_floor p (lookup s0)"
  shows "\<exists>h start n. coll_inv p sha B s h \<and> n \<le> length h \<and> events @ events' = drop start (take n h)"
proof (cases "events' = []")
  note f1 = feed_since [OF init g reach first floor]
  from f1(1) some obtain start where "delivered p sha B g start events s" by blast
  then obtain x n where x: "coll_inv p sha B s (g @ x)" "n \<le> length (g @ x)" "events = drop start (take n (g @ x))"
    by (auto simp: delivered_def)
  {
    case True
    then show ?thesis using x by (intro exI [of _ "g @ x"] exI [of _ start] exI [of _ n]) simp
  next
    case False
    from x have last: "entry_ok (last events)" "le_seq (last events) = n - 1" and n: "start < n"
      using last_delivered [OF x(1,2,3) some] by simp_all
    note minted = minted_lsn [OF last(1) session]
    from f1(2) [OF some] obtain gen where nxt: "next = formatCursor gen (le_lsn (last events))" by blast
    have "le_lsn (last events) \<noteq> []" using minted(1) by (auto simp: LSN_RE_def)
    then have cursor: "next \<noteq> []" unfolding nxt by (simp add: formatCursor_def split: option.splits)
    from feed_since(1) [OF init g reach second floor] False cursor obtain start' gn lsn se' where
      del: "delivered p sha B g start' events' s" and dec: "decodeCursor next = Inr (gn, lsn)" "lsnParts lsn = Inr (se', Some (int start' - 1))"
      by auto
    then obtain y m where y: "coll_inv p sha B s (g @ y)" "m \<le> length (g @ y)" "events' = drop start' (take m (g @ y))"
      by (auto simp: delivered_def)
    have eq: "y = x" using extension_unique [OF y(1) x(1)] floor floor_within [OF g] by simp
    have "lsn = le_lsn (last events)"
      by (rule decode_next [OF dec(1) [unfolded nxt] LSN_RE_no_dot [OF minted(1)]])
    with dec(2) minted(2) last(2) n have "start' = n" by simp
    moreover have "n < m" using y(3) False \<open>start' = n\<close> by auto
    ultimately have "events @ events' = drop start (take m (g @ x))"
      using batches_join [of start n m "g @ x"] x(2,3) y(3) n eq by simp
    then show ?thesis using y(1,2) unfolding eq by blast
  }
qed

theorem feed_resumes_witness:
  "\<exists>s2 s3 e1 e2 e3 t k nxt nxt'. polled_life s2 s3 e1 e2 e3 t k nxt nxt' \<and>
     (\<exists>h start n. coll_inv home sha0 {} s3 h \<and> n \<le> length h \<and> [e1, e2] @ [e3] = drop start (take n h))"
proof -
  obtain s2 s3 e1 e2 e3 t k nxt nxt' where l: "polled_life s2 s3 e1 e2 e3 t k nxt nxt'" using scenario_feed by blast
  note r = polled_lifeD [OF l]
  have fl: "delete_floor home (lookup s3) \<le> seq_floor home (lookup s2)" using scenario_floor r by simp
  have "\<exists>h start n. coll_inv home sha0 {} s3 h \<and> n \<le> length h \<and> [e1, e2] @ [e3] = drop start (take n h)"
    by (rule feed_resumes [OF r(1) example_ok(1) r(2,3), of 2 1 example_db "''t''" "[]" 0 "\<lambda>_. 0" 25000 "\<lambda>_. True" _ nxt
        4 1 example_db "''t''" 0 "\<lambda>_. 0" 25000 "\<lambda>_. True" _ nxt'])
      (use fl r(6,7) in \<open>simp_all add: since_def session_id_def base32_char_def COUNT_BIT_WIDTH_def\<close>)
  with l show ?thesis by blast
qed

end
